(* ===== verification/Prelude.thy ===== *)
theory Prelude
  imports Main "HOL-Library.AList" "HOL-Library.List_Lexorder" "HOL-Library.Char_ord"
begin

section \<open>Prelude: JavaScript containers, numbers and step machines\<close>

text \<open>
  What every component of the development shares.

  \<^item> A plain object used as a dictionary, and a \<open>Map\<close>, is an association list in
    insertion order: \<open>AList.update\<close> overwrites in place or appends, as assigning a
    property does, \<open>AList.delete\<close> is \<open>delete o[k]\<close> and \<open>map_of\<close> reads
    (\<open>None\<close> is \<open>undefined\<close>). Keys are strings other than array indices and the
    names of \<open>Object.prototype\<close>, which plain objects treat specially.
  \<^item> A \<open>Set\<close> is a duplicate-free list in insertion order.
  \<^item> A JavaScript number that is compared and never computed with is an integer or
    \<open>Infinity\<close>.
  \<^item> A component's run over a list of calls is a fold of its step function; the locale
    \<open>step_invariant\<close> lifts an invariant of one step to all runs.
\<close>

named_theorems container \<open>rewrite rules of dictionaries and sets\<close>

subsection \<open>Dictionaries in insertion order\<close>

type_synonym ('k, 'v) dict = "('k \<times> 'v) list"

abbreviation dict_ok :: "('k, 'v) dict \<Rightarrow> bool" where
  "dict_ok d \<equiv> distinct (map fst d)"

abbreviation has_key :: "('k, 'v) dict \<Rightarrow> 'k \<Rightarrow> bool" where
  "has_key d k \<equiv> map_of d k \<noteq> None"

abbreviation keys_of :: "('k, 'v) dict \<Rightarrow> 'k list" where
  "keys_of d \<equiv> map fst d"

abbreviation values_of :: "('k, 'v) dict \<Rightarrow> 'v list" where
  "values_of d \<equiv> map snd d"

lemma dict_get_update [container, simp]:
  "map_of (AList.update k v d) k' = (if k' = k then Some v else map_of d k')"
  by (simp add: update_conv')

lemma dict_get_delete [container, simp]:
  "map_of (AList.delete k d) k' = (if k' = k then None else map_of d k')"
  by (simp add: delete_conv')

lemma dict_ok_update [container, simp, intro]: "dict_ok d \<Longrightarrow> dict_ok (AList.update k v d)"
  by (rule distinct_update)

lemma dict_ok_delete [container, simp, intro]: "dict_ok d \<Longrightarrow> dict_ok (AList.delete k d)"
  by (rule distinct_delete)

lemma keys_update [container]: "k \<in> set (keys_of d) \<Longrightarrow> keys_of (AList.update k v d) = keys_of d"
  by (simp add: update_keys)

lemma keys_update_new [container]:
  "k \<notin> set (keys_of d) \<Longrightarrow> keys_of (AList.update k v d) = keys_of d @ [k]"
  by (simp add: update_keys)

lemma image_keys_update [container, simp]:
  "fst ` set (AList.update k v d) = insert k (fst ` set d)"
  by (simp add: dom_update)

lemma image_keys_delete [container, simp]:
  "fst ` set (AList.delete k d) = fst ` set d - {k}"
  by (metis delete_keys set_map set_removeAll)

lemma has_key_iff: "has_key d k \<longleftrightarrow> k \<in> set (keys_of d)"
  by (simp add: map_of_eq_None_iff)

lemma keys_delete [container]: "keys_of (AList.delete k d) = filter (\<lambda>x. x \<noteq> k) (keys_of d)"
  by (simp add: delete_keys removeAll_filter_not_eq) (metis)

lemma map_of_mapk: "map_of (map (\<lambda>(k, v). (k, f k v)) d) k = map_option (f k) (map_of d k)"
  by (induction d) auto

lemma keys_mapk [simp]: "keys_of (map (\<lambda>(k, v). (k, f k v)) d) = keys_of d"
  by (induction d) auto

text \<open>Values of a dictionary, read through \<open>map_of\<close>.\<close>

definition dict_all :: "('k \<Rightarrow> 'v \<Rightarrow> bool) \<Rightarrow> ('k, 'v) dict \<Rightarrow> bool" where
  "dict_all P d \<longleftrightarrow> (\<forall>k v. map_of d k = Some v \<longrightarrow> P k v)"

lemma dict_all_Nil [container, simp]: "dict_all P []"
  by (simp add: dict_all_def)

lemma dict_all_update [container, intro]:
  "dict_all P d \<Longrightarrow> P k v \<Longrightarrow> dict_all P (AList.update k v d)"
  by (auto simp: dict_all_def)

lemma dict_all_delete [container, intro]: "dict_all P d \<Longrightarrow> dict_all P (AList.delete k d)"
  by (auto simp: dict_all_def split: if_splits)

lemma dict_all_iff: "dict_ok d \<Longrightarrow> dict_all P d \<longleftrightarrow> (\<forall>(k, v) \<in> set d. P k v)"
  by (auto simp: dict_all_def)

lemma dict_allD: "dict_all P d \<Longrightarrow> map_of d k = Some v \<Longrightarrow> P k v"
  by (simp add: dict_all_def)

lemma dict_all_mono: "dict_all P d \<Longrightarrow> (\<And>k v. P k v \<Longrightarrow> Q k v) \<Longrightarrow> dict_all Q d"
  by (auto simp: dict_all_def)

subsection \<open>Sets in insertion order\<close>

definition set_add :: "'a \<Rightarrow> 'a list \<Rightarrow> 'a list" where
  "set_add x s = (if x \<in> set s then s else s @ [x])"

definition set_del :: "'a \<Rightarrow> 'a list \<Rightarrow> 'a list" where
  "set_del x s = filter (\<lambda>y. y \<noteq> x) s"

text \<open>\<open>new Set(xs)\<close>: the first occurrence of each element, in order.\<close>

definition set_of :: "'a list \<Rightarrow> 'a list" where
  "set_of xs = foldl (\<lambda>s x. set_add x s) [] xs"

lemma set_set_add [container, simp]: "set (set_add x s) = insert x (set s)"
  by (auto simp: set_add_def)

lemma distinct_set_add [container, simp, intro]: "distinct s \<Longrightarrow> distinct (set_add x s)"
  by (simp add: set_add_def)

lemma set_set_del [container, simp]: "set (set_del x s) = set s - {x}"
  by (auto simp: set_del_def)

lemma distinct_set_del [container, simp, intro]: "distinct s \<Longrightarrow> distinct (set_del x s)"
  by (simp add: set_del_def)

lemma foldl_set_add: "set (foldl (\<lambda>s x. set_add x s) s xs) = set s \<union> set xs"
  by (induction xs arbitrary: s) auto

lemma distinct_foldl_set_add: "distinct s \<Longrightarrow> distinct (foldl (\<lambda>s x. set_add x s) s xs)"
  by (induction xs arbitrary: s) auto

lemma set_set_of [container, simp]: "set (set_of xs) = set xs"
  by (simp add: set_of_def foldl_set_add)

lemma distinct_set_of [container, simp]: "distinct (set_of xs)"
  by (simp add: set_of_def distinct_foldl_set_add)

lemma set_of_distinct_aux:
  "distinct (s @ xs) \<Longrightarrow> foldl (\<lambda>s x. set_add x s) s xs = s @ xs"
  by (induction xs arbitrary: s) (auto simp: set_add_def)

lemma set_of_distinct [container]: "distinct xs \<Longrightarrow> set_of xs = xs"
  by (simp add: set_of_def set_of_distinct_aux)

lemma length_set_add: "length (set_add x s) = (if x \<in> set s then length s else Suc (length s))"
  by (simp add: set_add_def)

lemma length_set_del: "distinct s \<Longrightarrow> length (set_del x s) = length s - (if x \<in> set s then 1 else 0)"
proof (induction s)
  case Nil
  show ?case by (simp add: set_del_def)
next
  case (Cons a s)
  then show ?case by (cases s) (auto simp: set_del_def filter_id_conv)
qed

subsection \<open>Numbers\<close>

lemma div_less_of_less_mult:
  assumes "(a :: int) < b * c" and "0 < b"
  shows "a div b < c"
proof (rule ccontr)
  assume "\<not> a div b < c"
  then have "b * c \<le> b * (a div b)" using assms(2) by simp
  also have "\<dots> \<le> a"
    using mult_div_mod_eq [of b a] pos_mod_sign [OF assms(2), of a] by linarith
  finally show False using assms(1) by simp
qed

datatype jsnum = Fin int | Infinity

instantiation jsnum :: linorder
begin

fun less_eq_jsnum :: "jsnum \<Rightarrow> jsnum \<Rightarrow> bool" where
  "less_eq_jsnum (Fin a) (Fin b) = (a \<le> b)"
| "less_eq_jsnum _ Infinity = True"
| "less_eq_jsnum Infinity (Fin _) = False"

definition less_jsnum :: "jsnum \<Rightarrow> jsnum \<Rightarrow> bool" where
  "less_jsnum x y \<longleftrightarrow> x \<le> y \<and> \<not> y \<le> x"

instance
proof
  fix x y z :: jsnum
  show "x < y \<longleftrightarrow> x \<le> y \<and> \<not> y \<le> x" by (simp add: less_jsnum_def)
  show "x \<le> x" by (cases x) auto
  show "x \<le> y \<Longrightarrow> y \<le> z \<Longrightarrow> x \<le> z" by (cases x; cases y; cases z) auto
  show "x \<le> y \<Longrightarrow> y \<le> x \<Longrightarrow> x = y" by (cases x; cases y) auto
  show "x \<le> y \<or> y \<le> x" by (cases x; cases y) auto
qed

end

lemma jsnum_less_simps [simp]:
  "Fin a < Fin b \<longleftrightarrow> a < b" "Fin a < Infinity" "\<not> Infinity < x"
  by (auto simp: less_jsnum_def)

subsection \<open>Runs of a step machine\<close>

text \<open>
  A component whose calls are the events of a step function keeps an invariant over
  every sequence of calls once each call keeps it.
\<close>

locale step_invariant =
  fixes step :: "'s \<Rightarrow> 'e \<Rightarrow> 's"
    and legal :: "'e \<Rightarrow> bool"
    and inv :: "'s \<Rightarrow> bool"
  assumes step_inv: "inv s \<Longrightarrow> legal e \<Longrightarrow> inv (step s e)"
begin

lemma run_inv: "inv s \<Longrightarrow> \<forall>e \<in> set es. legal e \<Longrightarrow> inv (foldl step s es)"
  by (induction es arbitrary: s) (auto intro: step_inv)

lemma run_append_inv: "inv (foldl step s es) \<Longrightarrow> \<forall>e \<in> set fs. legal e \<Longrightarrow> inv (foldl step s (es @ fs))"
  by (simp add: run_inv)

end

subsection \<open>Errors\<close>

fun is_error :: "'e + 'a \<Rightarrow> bool" where
  "is_error (Inl _) = True"
| "is_error (Inr _) = False"

lemma is_error_iff: "is_error r \<longleftrightarrow> (\<exists>e. r = Inl e)"
  by (cases r) auto

subsection \<open>Handlers that may throw after changing the state\<close>

text \<open>
  A handler returns the state it leaves behind and, when it threw, the error: what it had
  done before stays done. \<open>and_then\<close> is sequencing and \<open>for_each\<close> the method \<open>forEach\<close>.
\<close>

type_synonym ('s, 'e) outcome = "'s \<times> 'e option"

definition and_then :: "('s, 'e) outcome \<Rightarrow> ('s \<Rightarrow> ('s, 'e) outcome) \<Rightarrow> ('s, 'e) outcome" where
  "and_then r f = (case snd r of None \<Rightarrow> f (fst r) | Some e \<Rightarrow> r)"

fun for_each :: "('a \<Rightarrow> 's \<Rightarrow> ('s, 'e) outcome) \<Rightarrow> 'a list \<Rightarrow> 's \<Rightarrow> ('s, 'e) outcome" where
  "for_each f [] s = (s, None)"
| "for_each f (x # xs) s = and_then (f x s) (for_each f xs)"

lemma and_then_simps [simp]:
  "and_then (s, None) f = f s" "and_then (s, Some e) f = (s, Some e)"
  by (simp_all add: and_then_def)

text \<open>A loop whose body never throws and stays within a reflexive, transitive relation.\<close>

lemma for_each_related:
  assumes "\<And>s. I s \<Longrightarrow> R s s" and "\<And>s t u. R s t \<Longrightarrow> R t u \<Longrightarrow> R s u"
    and "\<And>x s. x \<in> set xs \<Longrightarrow> I s \<Longrightarrow> \<exists>t. f x s = (t, None) \<and> I t \<and> R s t"
    and "I s"
  shows "\<exists>t. for_each f xs s = (t, None) \<and> I t \<and> R s t"
  using assms(3,4)
proof (induction xs arbitrary: s)
  case Nil
  then show ?case using assms(1) by simp
next
  case (Cons x xs)
  then obtain t where t: "f x s = (t, None)" "I t" "R s t" by force
  with Cons obtain u where "for_each f xs t = (u, None)" "I u" "R t u" by force
  with t show ?case using assms(2) by auto
qed

end
