(* ===== verification/Identifiers.thy ===== *)
theory Identifiers
  imports Prelude
begin

section \<open>Stream identifiers and their keys\<close>

text \<open>
  \<open>src/src/identifiers.ts\<close>: \<open>StreamIdAndPartition\<close>, its key
  \<open>id::partition\<close> and the parser \<open>fromKey\<close>. A JavaScript string is a list of code
  units. A partition is an integer in the safe range, where \<open>String(n)\<close> is its plain
  decimal form; \<open>None\<close> stands for \<open>NaN\<close>, the one number \<open>parseInt\<close> can return that
  is not an integer.
\<close>

subsection \<open>Decimal numbers as \<open>String\<close> and \<open>parseInt\<close> treat them\<close>

definition digit_char :: "nat \<Rightarrow> char" where
  "digit_char d = char_of (48 + d)"

fun show_nat :: "nat \<Rightarrow> string" where
  "show_nat n = (if n < 10 then [digit_char n] else show_nat (n div 10) @ [digit_char (n mod 10)])"

declare show_nat.simps [simp del]

definition show_int :: "int \<Rightarrow> string" where
  "show_int i = (if i < 0 then CHR ''-'' # show_nat (nat (- i)) else show_nat (nat i))"

definition is_digit :: "char \<Rightarrow> bool" where
  "is_digit c \<longleftrightarrow> 48 \<le> (of_char c :: nat) \<and> (of_char c :: nat) \<le> 57"

definition digit_value :: "char \<Rightarrow> nat" where
  "digit_value c = of_char c - 48"

definition is_space :: "char \<Rightarrow> bool" where
  "is_space c \<longleftrightarrow> (of_char c :: nat) \<in> {9, 10, 11, 12, 13, 32, 160}"

definition decimal_value :: "string \<Rightarrow> nat" where
  "decimal_value s = foldl (\<lambda>v c. 10 * v + digit_value c) 0 s"

definition parse_digits :: "string \<Rightarrow> nat option" where
  "parse_digits s = (let ds = takeWhile is_digit s in if ds = [] then None else Some (decimal_value ds))"

definition parseInt :: "string \<Rightarrow> int option" where
  "parseInt s = (case dropWhile is_space s of
       [] \<Rightarrow> None
     | c # cs \<Rightarrow>
         if c = CHR ''-'' then map_option (\<lambda>n. - int n) (parse_digits cs)
         else if c = CHR ''+'' then map_option int (parse_digits cs)
         else map_option int (parse_digits (c # cs)))"

lemma of_char_digit: "d < 10 \<Longrightarrow> of_char (digit_char d) = 48 + d"
  by (simp add: digit_char_def)

lemma is_digit_char [simp]: "d < 10 \<Longrightarrow> is_digit (digit_char d)"
  by (simp add: is_digit_def of_char_digit)

lemma digit_value_char [simp]: "d < 10 \<Longrightarrow> digit_value (digit_char d) = d"
  by (simp add: digit_value_def of_char_digit)

lemma decimal_value_snoc [simp]: "decimal_value (s @ [c]) = 10 * decimal_value s + digit_value c"
  by (simp add: decimal_value_def)

lemma show_nat_digits: "c \<in> set (show_nat n) \<Longrightarrow> is_digit c"
proof (induction n rule: show_nat.induct)
  case (1 n)
  then show ?case
    by (subst (asm) show_nat.simps) (auto split: if_splits)
qed

lemma show_nat_nonempty [simp]: "show_nat n \<noteq> []"
  by (subst show_nat.simps) simp

lemma decimal_value_show: "decimal_value (show_nat n) = n"
proof (induction n rule: show_nat.induct)
  case (1 n)
  show ?case
  proof (cases "n < 10")
    case True
    then show ?thesis by (subst show_nat.simps) (simp add: decimal_value_def)
  next
    case False
    with "1.IH" show ?thesis by (subst show_nat.simps) simp
  qed
qed

lemma takeWhile_show_nat [simp]: "takeWhile is_digit (show_nat n) = show_nat n"
  by (simp add: takeWhile_eq_all_conv show_nat_digits)

lemma parse_digits_show [simp]: "parse_digits (show_nat n) = Some n"
  by (simp add: parse_digits_def decimal_value_show)

lemma is_digit_not_special:
  "is_digit c \<Longrightarrow> c \<noteq> CHR '':'' \<and> c \<noteq> CHR ''-'' \<and> c \<noteq> CHR ''+'' \<and> \<not> is_space c"
  by (auto simp: is_digit_def is_space_def)

lemma show_nat_Cons:
  obtains c cs where "show_nat n = c # cs" "is_digit c"
proof (cases "show_nat n")
  case (Cons c cs)
  then have "is_digit c" using show_nat_digits [of c n] by simp
  with Cons show ?thesis by (rule that)
qed simp

lemma parseInt_show [simp]: "parseInt (show_int i) = Some i"
proof (cases "i < 0")
  case True
  then show ?thesis by (simp add: show_int_def parseInt_def is_space_def)
next
  case False
  obtain c cs where c: "show_nat (nat i) = c # cs" "is_digit c" by (rule show_nat_Cons)
  then show ?thesis
    using False is_digit_not_special [OF c(2)] parse_digits_show [of "nat i"]
    by (auto simp: show_int_def parseInt_def simp del: parse_digits_show)
qed

lemma show_int_inj: "show_int i = show_int j \<Longrightarrow> i = j"
  by (metis parseInt_show option.inject)

lemma show_int_no_colon: "CHR '':'' \<notin> set (show_int i)"
  using show_nat_digits is_digit_not_special by (auto simp: show_int_def split: if_splits)

subsection \<open>Streams, keys, parsing a key\<close>

record stream_id_and_partition =
  sp_id :: string
  sp_partition :: int

datatype id_error = InvalidPartition

text \<open>The constructor's check \<open>Number.isInteger\<close> rejects \<open>NaN\<close>.\<close>

definition new_stream_id :: "string \<Rightarrow> int option \<Rightarrow> id_error + stream_id_and_partition" where
  "new_stream_id i p = (case p of
       None \<Rightarrow> Inl InvalidPartition
     | Some n \<Rightarrow> Inr \<lparr>sp_id = i, sp_partition = n\<rparr>)"

type_synonym stream_key = string

definition stream_key :: "stream_id_and_partition \<Rightarrow> stream_key" where
  "stream_key s = sp_id s @ ''::'' @ show_int (sp_partition s)"

text \<open>\<open>split('::')\<close>: cut at each separator, left to right, without overlap.\<close>

fun split_sep :: "string \<Rightarrow> string list" where
  "split_sep [] = [[]]"
| "split_sep [c] = [[c]]"
| "split_sep (c # d # r) =
     (if c = CHR '':'' \<and> d = CHR '':'' then [] # split_sep r
      else (c # hd (split_sep (d # r))) # tl (split_sep (d # r)))"

text \<open>
  \<open>const [id, partition] = key.split('::')\<close> ignores further pieces; a missing second
  piece is \<open>undefined\<close>, which \<open>parseInt\<close> turns into \<open>NaN\<close>.
\<close>

definition from_key :: "stream_key \<Rightarrow> id_error + stream_id_and_partition" where
  "from_key k = (case split_sep k of
       i # p # _ \<Rightarrow> new_stream_id i (parseInt p)
     | [i] \<Rightarrow> new_stream_id i None
     | [] \<Rightarrow> Inl InvalidPartition)"

text \<open>An identifier whose key parses back: no \<open>::\<close> inside and no colon at the end.\<close>

fun clean_id :: "string \<Rightarrow> bool" where
  "clean_id [] = True"
| "clean_id [c] = (c \<noteq> CHR '':'')"
| "clean_id (c # d # r) = (\<not> (c = CHR '':'' \<and> d = CHR '':'') \<and> clean_id (d # r))"

lemma split_sep_nonempty [simp]: "split_sep s \<noteq> []"
  by (cases s rule: split_sep.cases) auto

lemma split_sep_no_colon: "CHR '':'' \<notin> set s \<Longrightarrow> split_sep s = [s]"
  by (induction s rule: split_sep.induct) auto

lemma split_sep_clean: "clean_id i \<Longrightarrow> split_sep (i @ ''::'' @ p) = i # split_sep p"
  by (induction i rule: clean_id.induct) auto

lemma stream_key_inj: "stream_key s = stream_key t \<Longrightarrow> s = t"
proof -
  assume eq: "stream_key s = stream_key t"
  have strip: "takeWhile (\<lambda>c. c \<noteq> CHR '':'') (rev (stream_key u)) = rev (show_int (sp_partition u))"
    for u
  proof -
    have "\<forall>c \<in> set (rev (show_int (sp_partition u))). c \<noteq> CHR '':''"
      using show_int_no_colon [of "sp_partition u"] by auto
    then show ?thesis by (simp add: stream_key_def takeWhile_append)
  qed
  from eq strip [of s] strip [of t] have "show_int (sp_partition s) = show_int (sp_partition t)"
    by simp
  with eq show "s = t"
    by (auto simp: stream_key_def dest: show_int_inj)
qed

lemma from_key_clean: "clean_id (sp_id s) \<Longrightarrow> from_key (stream_key s) = Inr s"
  by (simp add: from_key_def stream_key_def split_sep_clean [simplified]
      split_sep_no_colon show_int_no_colon new_stream_id_def)

lemma split_sep_hd_clean: "tl (split_sep s) \<noteq> [] \<Longrightarrow> clean_id (hd (split_sep s))"
proof (induction s rule: split_sep.induct)
  case (3 c d r)
  show ?case
  proof (cases "c = CHR '':'' \<and> d = CHR '':''")
    case True
    then show ?thesis by simp
  next
    case False
    let ?j = "hd (split_sep (d # r))"
    from False "3.prems" have "tl (split_sep (d # r)) \<noteq> []" by (auto split: if_splits)
    with "3.IH" False have j: "clean_id ?j" by blast
    show ?thesis
    proof (cases ?j)
      case Nil
      have "c \<noteq> CHR '':''"
      proof
        assume "c = CHR '':''"
        with False have "d \<noteq> CHR '':''" by simp
        then have "?j \<noteq> []" by (cases r) auto
        with Nil show False by simp
      qed
      with False Nil show ?thesis by simp
    next
      case (Cons e es)
      then have "e = d" by (cases r) (auto split: if_splits)
      with Cons j False show ?thesis by simp
    qed
  qed
qed auto

lemma from_key_exact: "from_key (stream_key s) = Inr s \<longleftrightarrow> clean_id (sp_id s)"
proof
  assume eq: "from_key (stream_key s) = Inr s"
  have "hd (split_sep (stream_key s)) = sp_id s \<and> tl (split_sep (stream_key s)) \<noteq> []"
    using eq unfolding from_key_def
    by (auto simp: new_stream_id_def split: list.splits option.splits)
  then show "clean_id (sp_id s)" using split_sep_hd_clean by metis
qed (rule from_key_clean)

subsection \<open>Properties\<close>

text \<open>
  A stream key determines its stream, and parsing it gives the stream back exactly
  when the identifier has no double colon inside and no colon at its end.
\<close>

theorem stream_key_roundtrip:
  "(stream_key s = stream_key t \<longleftrightarrow> s = t) \<and> (from_key (stream_key s) = Inr s \<longleftrightarrow> clean_id (sp_id s))"
  by (auto simp: from_key_exact dest: stream_key_inj)

end
