(* ===== verification/DuplicateDetector.thy ===== *)
theory DuplicateDetector
  imports Prelude
begin

section \<open>Duplicate detection of numbered messages\<close>

text \<open>
  \<open>src/src/logic/DuplicateMessageDetector.ts\<close>: the ordered pairs of numbers, the list of
  gaps (half-open intervals that still contain unseen messages), \<open>markAndCheck\<close> with its
  downward loop and its two exceptions, and the limit on the number of gaps. The abstract
  view of a detector is the set of numbers its gaps cover; the lemmas show that the code's
  verdict on a message is a question about that set, and the locale \<open>message_detector\<close>
  states the contract its clients rely on.
\<close>

subsection \<open>Pairs of numbers\<close>

datatype number_pair = NumberPair (np_a: jsnum) (np_b: jsnum)

definition compareTo :: "number_pair \<Rightarrow> number_pair \<Rightarrow> int" where
  "compareTo x y =
     (if np_a x > np_a y then 1
      else if np_a x < np_a y then -1
      else if np_b x > np_b y then 1
      else if np_b x < np_b y then -1
      else 0)"

definition greaterThan :: "number_pair \<Rightarrow> number_pair \<Rightarrow> bool" where
  "greaterThan x y \<longleftrightarrow> compareTo x y = 1"

definition equalTo :: "number_pair \<Rightarrow> number_pair \<Rightarrow> bool" where
  "equalTo x y \<longleftrightarrow> compareTo x y = 0"

definition greaterThanOrEqual :: "number_pair \<Rightarrow> number_pair \<Rightarrow> bool" where
  "greaterThanOrEqual x y \<longleftrightarrow> greaterThan x y \<or> equalTo x y"

text \<open>The three comparisons are those of a linear order: the lexicographic one.\<close>

instantiation number_pair :: linorder
begin

definition less_eq_number_pair :: "number_pair \<Rightarrow> number_pair \<Rightarrow> bool" where
  "less_eq_number_pair x y \<longleftrightarrow> compareTo x y \<le> 0"

definition less_number_pair :: "number_pair \<Rightarrow> number_pair \<Rightarrow> bool" where
  "less_number_pair x y \<longleftrightarrow> compareTo x y = -1"

instance
proof
  fix x y z :: number_pair
  show "x < y \<longleftrightarrow> x \<le> y \<and> \<not> y \<le> x"
    by (auto simp: less_number_pair_def less_eq_number_pair_def compareTo_def split: if_splits)
  show "x \<le> x"
    by (simp add: less_eq_number_pair_def compareTo_def)
  show "x \<le> y \<Longrightarrow> y \<le> z \<Longrightarrow> x \<le> z"
    by (auto simp: less_eq_number_pair_def compareTo_def split: if_splits)
  show "x \<le> y \<Longrightarrow> y \<le> x \<Longrightarrow> x = y"
    by (cases x; cases y) (auto simp: less_eq_number_pair_def compareTo_def split: if_splits)
  show "x \<le> y \<or> y \<le> x"
    by (auto simp: less_eq_number_pair_def compareTo_def)
qed

end

lemma greaterThan_iff: "greaterThan x y \<longleftrightarrow> y < x"
  by (auto simp: greaterThan_def less_number_pair_def compareTo_def)

lemma equalTo_iff: "equalTo x y \<longleftrightarrow> x = y"
  by (cases x; cases y) (auto simp: equalTo_def compareTo_def)

lemma greaterThanOrEqual_iff: "greaterThanOrEqual x y \<longleftrightarrow> y \<le> x"
  by (auto simp: greaterThanOrEqual_def greaterThan_iff equalTo_iff)

lemmas pair_order = greaterThan_iff equalTo_iff greaterThanOrEqual_iff

definition infinity_pair :: number_pair where
  "infinity_pair = NumberPair Infinity Infinity"

text \<open>Message numbers are numbers, so each is below \<open>NumberPair(Infinity, Infinity)\<close>.\<close>

fun is_number :: "number_pair \<Rightarrow> bool" where
  "is_number (NumberPair (Fin _) (Fin _)) = True"
| "is_number _ = False"

lemma is_number_less: "is_number n \<Longrightarrow> n < infinity_pair"
  by (cases n rule: is_number.cases) (auto simp: infinity_pair_def less_number_pair_def compareTo_def)

subsection \<open>The detector\<close>

type_synonym gap = "number_pair \<times> number_pair"

record detector =
  maxNumberOfGaps :: nat
  gaps :: "gap list"

definition new_detector :: "nat \<Rightarrow> detector" where
  "new_detector m = \<lparr>maxNumberOfGaps = m, gaps = []\<rparr>"

datatype detector_error =
    InvalidNumberingError
  | GapMisMatchError "gap list" number_pair number_pair

text \<open>
  The loop \<open>for (let i = gaps.length - 1; i >= 0; --i)\<close>: \<open>scan_gaps gs p n (Suc i)\<close> is
  the iteration at index \<open>i\<close>. \<open>None\<close> is \<open>return false\<close>, \<open>Some\<close> holds the list of gaps
  before the limit is applied.
\<close>

fun scan_gaps :: "gap list \<Rightarrow> number_pair \<Rightarrow> number_pair \<Rightarrow> nat \<Rightarrow> detector_error + gap list option" where
  "scan_gaps gs p n 0 = Inr None"
| "scan_gaps gs p n (Suc i) =
     (let lower = fst (gs ! i); upper = snd (gs ! i) in
      if greaterThanOrEqual p upper then Inr None
      else if greaterThanOrEqual p lower then
        (if greaterThan n upper then Inl (GapMisMatchError gs p n)
         else if equalTo p lower then
           (if equalTo n upper then Inr (Some (take i gs @ drop (Suc i) gs))
            else Inr (Some (gs[i := (n, upper)])))
         else if equalTo n upper then Inr (Some (gs[i := (lower, p)]))
         else Inr (Some (take i gs @ [(lower, p), (n, upper)] @ drop (Suc i) gs)))
      else if greaterThan n lower then Inl (GapMisMatchError gs p n)
      else scan_gaps gs p n i)"

definition dropLowestGapIfOverMaxNumberOfGaps :: "detector \<Rightarrow> detector" where
  "dropLowestGapIfOverMaxNumberOfGaps d =
     (if length (gaps d) > maxNumberOfGaps d then d\<lparr>gaps := tl (gaps d)\<rparr> else d)"

definition markAndCheck ::
  "detector \<Rightarrow> number_pair option \<Rightarrow> number_pair \<Rightarrow> detector \<times> (detector_error + bool)" where
  "markAndCheck d prev n =
     (if (case prev of None \<Rightarrow> False | Some p \<Rightarrow> greaterThanOrEqual p n) then (d, Inl InvalidNumberingError)
      else if length (gaps d) = 0 then (d\<lparr>gaps := gaps d @ [(n, infinity_pair)]\<rparr>, Inr True)
      else (case prev of
          None \<Rightarrow>
            (let k = length (gaps d) - 1 in
             if greaterThan n (fst (gaps d ! k))
             then (d\<lparr>gaps := (gaps d)[k := (n, snd (gaps d ! k))]\<rparr>, Inr True)
             else (d, Inr False))
        | Some p \<Rightarrow>
            (case scan_gaps (gaps d) p n (length (gaps d)) of
                Inl e \<Rightarrow> (d, Inl e)
              | Inr None \<Rightarrow> (d, Inr False)
              | Inr (Some gs) \<Rightarrow>
                  (dropLowestGapIfOverMaxNumberOfGaps (d\<lparr>gaps := gs\<rparr>), Inr True))))"

subsection \<open>What the gaps mean\<close>

definition unseen :: "gap list \<Rightarrow> number_pair set" where
  "unseen gs = (\<Union>g \<in> set gs. {fst g<..snd g})"

definition gaps_ok :: "gap list \<Rightarrow> bool" where
  "gaps_ok gs \<longleftrightarrow> sorted_wrt (\<lambda>g h. snd g < fst h) gs \<and> (\<forall>g \<in> set gs. fst g < snd g)"

definition detector_ok :: "detector \<Rightarrow> bool" where
  "detector_ok d \<longleftrightarrow> gaps_ok (gaps d) \<and> (gaps d \<noteq> [] \<longrightarrow> snd (last (gaps d)) = infinity_pair) \<and>
     1 \<le> maxNumberOfGaps d \<and> length (gaps d) \<le> maxNumberOfGaps d"

lemma unseen_simps [simp]:
  "unseen [] = {}"
  "unseen (g # gs) = {fst g<..snd g} \<union> unseen gs"
  "unseen (gs @ hs) = unseen gs \<union> unseen hs"
  by (auto simp: unseen_def)

lemma gaps_ok_Nil [simp]: "gaps_ok []"
  by (simp add: gaps_ok_def)

lemma gaps_ok_append:
  "gaps_ok (as @ bs) \<longleftrightarrow> gaps_ok as \<and> gaps_ok bs \<and> (\<forall>g \<in> set as. \<forall>h \<in> set bs. snd g < fst h)"
  by (auto simp: gaps_ok_def sorted_wrt_append)

lemma gaps_ok_Cons:
  "gaps_ok (g # gs) \<longleftrightarrow> fst g < snd g \<and> (\<forall>h \<in> set gs. snd g < fst h) \<and> gaps_ok gs"
  by (auto simp: gaps_ok_def)

lemmas gaps_ok_split = gaps_ok_append gaps_ok_Cons

lemma gaps_ok_tl: "gaps_ok gs \<Longrightarrow> gaps_ok (tl gs)"
  by (cases gs) (auto simp: gaps_ok_Cons)

lemma unseen_tl: "unseen (tl gs) \<subseteq> unseen gs"
  by (cases gs) auto

lemma unseen_below: "\<forall>g \<in> set gs. snd g < l \<Longrightarrow> x \<in> unseen gs \<Longrightarrow> x < l"
  by (force simp: unseen_def)

lemma unseen_above: "\<forall>g \<in> set gs. u \<le> fst g \<Longrightarrow> x \<in> unseen gs \<Longrightarrow> u < x"
  by (force simp: unseen_def)

subsection \<open>The loop decides by the set of unseen numbers\<close>

text \<open>What each outcome of the loop says of the interval the message claims.\<close>

fun scan_meets :: "gap list \<Rightarrow> number_pair \<Rightarrow> number_pair \<Rightarrow> detector_error + gap list option \<Rightarrow> bool" where
  "scan_meets gs p n (Inr None) = ({p<..n} \<inter> unseen gs = {})"
| "scan_meets gs p n (Inr (Some gs')) =
     ({p<..n} \<subseteq> unseen gs \<and> unseen gs' = unseen gs - {p<..n} \<and> gaps_ok gs' \<and>
      length gs' \<le> Suc (length gs) \<and>
      (n < snd (last gs) \<longrightarrow> gs' \<noteq> [] \<and> snd (last gs') = snd (last gs)))"
| "scan_meets gs p n (Inl e) =
     (e = GapMisMatchError gs p n \<and> {p<..n} \<inter> unseen gs \<noteq> {} \<and> \<not> {p<..n} \<subseteq> unseen gs)"

text \<open>The iteration that meets the gap in which the message's predecessor lies.\<close>

lemma scan_inside:
  assumes ok: "gaps_ok (as @ (l, u) # bs)" and pn: "p < n" and above: "\<forall>g \<in> set bs. n \<le> fst g"
    and p: "l \<le> p" "p < u" and n: "n \<le> u"
    and mid: "mid = (if p = l then if n = u then [] else [(n, u)]
                     else if n = u then [(l, p)] else [(l, p), (n, u)])"
  shows "scan_meets (as @ (l, u) # bs) p n (Inr (Some (as @ mid @ bs)))"
proof -
  have below: "unseen as \<inter> {p<..n} = {}"
  proof -
    have "x < l" if "x \<in> unseen as" for x
      using ok that by (intro unseen_below [of as l x]) (auto simp: gaps_ok_split)
    with p show ?thesis by force
  qed
  have over: "unseen bs \<inter> {p<..n} = {}"
    using unseen_above [OF above] by force
  have mids: "unseen mid = {l<..u} - {p<..n}"
    using p n pn by (cases "p = l"; cases "n = u") (auto simp: mid)
  have U: "unseen (as @ mid @ bs) = unseen (as @ (l, u) # bs) - {p<..n}"
    using mids below over unfolding unseen_simps by auto
  have ok': "gaps_ok (as @ mid @ bs)"
    using ok p n pn mid by (auto simp: gaps_ok_split split: if_splits)
  have last: "n < snd (last (as @ (l, u) # bs)) \<Longrightarrow>
    as @ mid @ bs \<noteq> [] \<and> snd (last (as @ mid @ bs)) = snd (last (as @ (l, u) # bs))"
    using mid by (cases "bs = []") auto
  have sub: "{p<..n} \<subseteq> unseen (as @ (l, u) # bs)" using p n by auto
  show ?thesis using U ok' last sub mid by simp
qed

lemma scan_gaps_meets:
  assumes "gaps_ok (as @ bs)" and pn: "p < n" and "\<forall>g \<in> set bs. n \<le> fst g"
  shows "scan_meets (as @ bs) p n (scan_gaps (as @ bs) p n (length as))"
  using assms
proof (induction as arbitrary: bs rule: rev_induct)
  case Nil
  then show ?case by (fastforce dest: unseen_above)
next
  case (snoc g as)
  obtain l u where g: "g = (l, u)" by force
  let ?gs = "as @ (l, u) # bs"
  have ok: "gaps_ok ?gs" using snoc.prems(1) g by simp
  then have lu: "l < u" by (simp add: gaps_ok_split)
  have below: "x \<in> unseen as \<Longrightarrow> x < l" for x
    using ok by (intro unseen_below [of as l x]) (auto simp: gaps_ok_split)
  have over: "x \<in> unseen bs \<Longrightarrow> u < x \<and> n < x" for x
    using ok snoc.prems(3) unseen_above [of bs n x] unseen_above [of bs u x]
    by (auto simp: gaps_ok_split less_imp_le)
  have step: "scan_gaps ?gs p n (Suc (length as)) =
      (if u \<le> p then Inr None
       else if l \<le> p then
         (if u < n then Inl (GapMisMatchError ?gs p n)
          else Inr (Some (as @ (if p = l then if n = u then [] else [(n, u)]
                     else if n = u then [(l, p)] else [(l, p), (n, u)]) @ bs)))
       else if l < n then Inl (GapMisMatchError ?gs p n)
       else scan_gaps ?gs p n (length as))"
    by (simp add: nth_append pair_order)
  consider (past) "u \<le> p" | (overlap) "l \<le> p" "p < u" "u < n" | (inside) "l \<le> p" "p < u" "n \<le> u"
    | (across) "p < l" "l < n" | (further) "p < l" "n \<le> l"
    by fastforce
  then have "scan_meets ?gs p n (scan_gaps ?gs p n (Suc (length as)))"
  proof cases
    case past
    with lu show ?thesis unfolding step by (auto dest!: below over)
  next
    case overlap
    have "u \<in> {p<..n} \<inter> unseen ?gs" "n \<in> {p<..n} - unseen ?gs"
      using overlap lu pn by (auto dest!: below over)
    then show ?thesis using overlap unfolding step by auto
  next
    case inside
    then have conds: "\<not> u \<le> p" "l \<le> p" "\<not> u < n" by auto
    from scan_inside [OF ok pn snoc.prems(3) inside refl] show ?thesis
      by (simp only: step conds if_False if_True simp_thms)
  next
    case across
    have "min n u \<in> {p<..n} \<inter> unseen ?gs" "l \<in> {p<..n} - unseen ?gs"
      using across lu by (auto dest!: below over simp: min_def)
    then have "{p<..n} \<inter> unseen ?gs \<noteq> {}" "\<not> {p<..n} \<subseteq> unseen ?gs" by blast+
    moreover have "\<not> u \<le> p" "\<not> l \<le> p" "l < n" using across lu by auto
    ultimately show ?thesis
      by (simp only: step if_False if_True scan_meets.simps simp_thms not_False_eq_True)
  next
    case further
    have "scan_meets ?gs p n (scan_gaps ?gs p n (length as))"
      using ok pn snoc.prems(3) further by (intro snoc.IH) (auto)
    moreover have "\<not> u \<le> p" "\<not> l \<le> p" "\<not> l < n" using further lu by auto
    ultimately show ?thesis by (simp only: step if_False)
  qed
  then show ?case using g by simp
qed

lemma scan_gaps_all: "gaps_ok gs \<Longrightarrow> p < n \<Longrightarrow> scan_meets gs p n (scan_gaps gs p n (length gs))"
  using scan_gaps_meets [of gs "[]" p n] by simp

subsection \<open>One call\<close>

lemma gaps_last_index: "gs \<noteq> [] \<Longrightarrow> gs = butlast gs @ [(fst (last gs), snd (last gs))]"
  by simp

text \<open>The effect of a call whose predecessor is given.\<close>

lemma markAndCheck_prev:
  assumes "detector_ok d" "gaps d \<noteq> []" "p < n" "is_number n"
  shows "case markAndCheck d (Some p) n of
      (d', Inr True) \<Rightarrow> {p<..n} \<subseteq> unseen (gaps d) \<and>
         unseen (gaps d') \<subseteq> unseen (gaps d) - {p<..n} \<and>
         (length (gaps d) < maxNumberOfGaps d \<longrightarrow> unseen (gaps d') = unseen (gaps d) - {p<..n})
    | (d', Inr False) \<Rightarrow> d' = d \<and> {p<..n} \<inter> unseen (gaps d) = {}
    | (d', Inl e) \<Rightarrow> d' = d \<and> e = GapMisMatchError (gaps d) p n \<and>
         {p<..n} \<inter> unseen (gaps d) \<noteq> {} \<and> \<not> {p<..n} \<subseteq> unseen (gaps d)"
proof -
  have s: "scan_meets (gaps d) p n (scan_gaps (gaps d) p n (length (gaps d)))"
    using assms by (intro scan_gaps_all) (simp_all add: detector_ok_def)
  have eq: "markAndCheck d (Some p) n =
      (case scan_gaps (gaps d) p n (length (gaps d)) of
          Inl e \<Rightarrow> (d, Inl e)
        | Inr None \<Rightarrow> (d, Inr False)
        | Inr (Some gs) \<Rightarrow> (dropLowestGapIfOverMaxNumberOfGaps (d\<lparr>gaps := gs\<rparr>), Inr True))"
    using assms leD [of n p] by (auto simp: markAndCheck_def pair_order)
  show ?thesis
  proof (cases "scan_gaps (gaps d) p n (length (gaps d))")
    case (Inl e)
    with s show ?thesis by (simp add: eq)
  next
    case (Inr r)
    with s show ?thesis
    proof (cases r)
      case (Some gs')
      with s Inr show ?thesis
        using unseen_tl [of gs'] by (auto simp: eq dropLowestGapIfOverMaxNumberOfGaps_def)
    qed (simp add: eq)
  qed
qed

text \<open>The effect of a call without a predecessor: only the last gap is consulted.\<close>

lemma markAndCheck_first:
  "gaps d = [] \<Longrightarrow> \<forall>p. prev = Some p \<longrightarrow> p < n \<Longrightarrow>
   markAndCheck d prev n = (d\<lparr>gaps := [(n, infinity_pair)]\<rparr>, Inr True)"
  by (auto simp: markAndCheck_def pair_order leD split: option.splits)

lemma markAndCheck_None:
  "gaps d \<noteq> [] \<Longrightarrow> markAndCheck d None n =
     (if fst (last (gaps d)) < n
      then (d\<lparr>gaps := butlast (gaps d) @ [(n, snd (last (gaps d)))]\<rparr>, Inr True) else (d, Inr False))"
  by (cases "gaps d" rule: rev_cases) (simp_all add: markAndCheck_def pair_order list_update_append)

lemma markAndCheck_invalid:
  "n \<le> p \<Longrightarrow> markAndCheck d (Some p) n = (d, Inl InvalidNumberingError)"
  by (simp add: markAndCheck_def pair_order)

lemma maxNumberOfGaps_markAndCheck [simp]:
  "maxNumberOfGaps (fst (markAndCheck d prev n)) = maxNumberOfGaps d"
  by (simp add: markAndCheck_def dropLowestGapIfOverMaxNumberOfGaps_def Let_def
      split: option.split sum.split)

lemma detector_ok_new: "1 \<le> m \<Longrightarrow> detector_ok (new_detector m)"
  by (simp add: detector_ok_def new_detector_def)

lemma tl_Nil_length: "tl gs = [] \<Longrightarrow> length gs \<le> Suc 0"
  by (cases gs) auto

lemma last_tl_long: "1 < length gs \<Longrightarrow> last (tl gs) = last gs \<and> tl gs \<noteq> []"
  by (cases gs) auto

lemma detector_ok_markAndCheck:
  assumes ok: "detector_ok d" and n: "is_number n"
  shows "detector_ok (fst (markAndCheck d prev n))"
proof (cases "gaps d = []")
  case True
  show ?thesis
  proof (cases prev)
    case None
    with True ok is_number_less [OF n] show ?thesis
      by (simp add: markAndCheck_first detector_ok_def gaps_ok_def)
  next
    case (Some p)
    with True ok is_number_less [OF n] show ?thesis
      by (cases "n \<le> p") (auto simp: markAndCheck_first markAndCheck_invalid detector_ok_def gaps_ok_def not_le)
  qed
next
  case ne: False
  show ?thesis
  proof (cases prev)
    case None
    have split: "gaps d = butlast (gaps d) @ [last (gaps d)]" using ne by simp
    from ok split have "gaps_ok (butlast (gaps d) @ [last (gaps d)])" by (simp add: detector_ok_def)
    then have "fst (last (gaps d)) < n \<Longrightarrow> gaps_ok (butlast (gaps d) @ [(n, infinity_pair)])"
      using is_number_less [OF n] by (auto simp: gaps_ok_split)
    with None ne ok show ?thesis
      by (auto simp: markAndCheck_None detector_ok_def Suc_le_eq)
  next
    case (Some p)
    show ?thesis
    proof (cases "n \<le> p")
      case False
      then have pn: "p < n" by simp
      have s: "scan_meets (gaps d) p n (scan_gaps (gaps d) p n (length (gaps d)))"
        using ok pn by (intro scan_gaps_all) (simp_all add: detector_ok_def)
      show ?thesis
      proof (cases "\<exists>gs. scan_gaps (gaps d) p n (length (gaps d)) = Inr (Some gs)")
        case True
        then obtain gs where gs: "scan_gaps (gaps d) p n (length (gaps d)) = Inr (Some gs)" by blast
        with s ok ne is_number_less [OF n] have "gaps_ok gs" "gs \<noteq> []" "snd (last gs) = infinity_pair"
          "length gs \<le> Suc (length (gaps d))" by (auto simp: detector_ok_def)
        with gs pn ne ok Some show ?thesis
          using last_tl_long [of gs]
          by (auto simp: markAndCheck_def pair_order dropLowestGapIfOverMaxNumberOfGaps_def
              detector_ok_def gaps_ok_tl)
      next
        case other: False
        then have "fst (markAndCheck d prev n) = d"
          using pn ne Some by (auto simp: markAndCheck_def split: option.split sum.split)
        with ok show ?thesis by simp
      qed
    qed (use ok Some in \<open>simp add: markAndCheck_invalid\<close>)
  qed
qed

subsection \<open>The contract a client relies on\<close>

text \<open>
  What \<open>StreamManager\<close> needs of a detector: each call keeps it well formed, a number once
  reported as unseen is seen afterwards, and a started detector never forgets that a
  number was seen. Any detector with this contract reports a number as unseen at most
  once over a run of calls.
\<close>

locale message_detector =
  fixes check :: "'d \<Rightarrow> number_pair option \<Rightarrow> number_pair \<Rightarrow> 'd \<times> ('e + bool)"
    and invar :: "'d \<Rightarrow> bool"
    and started :: "'d \<Rightarrow> bool"
    and pending :: "'d \<Rightarrow> number_pair set"
  assumes invar_check: "invar d \<Longrightarrow> is_number n \<Longrightarrow> invar (fst (check d p n))"
    and started_check: "invar d \<Longrightarrow> is_number n \<Longrightarrow> started d \<Longrightarrow> started (fst (check d p n))"
    and pending_check: "invar d \<Longrightarrow> is_number n \<Longrightarrow> started d \<Longrightarrow> pending (fst (check d p n)) \<subseteq> pending d"
    and unseen_check: "invar d \<Longrightarrow> is_number n \<Longrightarrow> started d \<Longrightarrow> snd (check d p n) = Inr True \<Longrightarrow> n \<in> pending d"
    and marked_check: "invar d \<Longrightarrow> is_number n \<Longrightarrow> snd (check d p n) = Inr True \<Longrightarrow>
          started (fst (check d p n)) \<and> n \<notin> pending (fst (check d p n))"
begin

fun run :: "'d \<Rightarrow> (number_pair option \<times> number_pair) list \<Rightarrow> ('e + bool) list" where
  "run d [] = []"
| "run d ((p, n) # ms) = snd (check d p n) # run (fst (check d p n)) ms"

lemma length_run [simp]: "length (run d ms) = length ms"
  by (induction d ms rule: run.induct) auto

lemma seen_stays_seen:
  "invar d \<Longrightarrow> started d \<Longrightarrow> n \<notin> pending d \<Longrightarrow> \<forall>m \<in> set ms. is_number (snd m) \<Longrightarrow>
   i < length ms \<Longrightarrow> snd (ms ! i) = n \<Longrightarrow> run d ms ! i \<noteq> Inr True"
proof (induction d ms arbitrary: i rule: run.induct)
  case (2 d p m ms)
  then show ?case
    by (cases i) (use unseen_check pending_check started_check invar_check in \<open>auto\<close>, blast)
qed simp

lemma at_most_once:
  "invar d \<Longrightarrow> \<forall>m \<in> set ms. is_number (snd m) \<Longrightarrow> i < j \<Longrightarrow> j < length ms \<Longrightarrow>
   snd (ms ! i) = snd (ms ! j) \<Longrightarrow> run d ms ! i = Inr True \<Longrightarrow> run d ms ! j \<noteq> Inr True"
proof (induction d ms arbitrary: i j rule: run.induct)
  case (2 d p m ms)
  obtain k where j: "j = Suc k" using "2.prems" by (cases j) auto
  have m: "is_number m" and inv': "invar (fst (check d p m))" using "2.prems" invar_check by auto
  show ?case
  proof (cases i)
    case 0
    with "2.prems" marked_check [of d m p] m
    have "started (fst (check d p m))" "m \<notin> pending (fst (check d p m))" by auto
    with seen_stays_seen [OF inv' this] "2.prems" 0 j show ?thesis by auto
  next
    case (Suc h)
    with "2.IH" [OF inv', of h k] "2.prems" j show ?thesis by auto
  qed
qed simp

end

lemma detector_started: "gaps d \<noteq> [] \<Longrightarrow> detector_ok d \<Longrightarrow> is_number n \<Longrightarrow> gaps (fst (markAndCheck d p n)) \<noteq> []"
proof -
  assume d: "gaps d \<noteq> []" "detector_ok d" and n: "is_number n"
  show ?thesis
  proof (cases p)
    case None
    with d show ?thesis by (simp add: markAndCheck_None)
  next
    case (Some q)
    show ?thesis
    proof (cases "n \<le> q")
      case False
      then have s: "scan_meets (gaps d) q n (scan_gaps (gaps d) q n (length (gaps d)))"
        using d by (intro scan_gaps_all) (simp_all add: detector_ok_def)
      show ?thesis
        using s Some False d is_number_less [OF n]
        by (auto dest!: tl_Nil_length simp: markAndCheck_def pair_order dropLowestGapIfOverMaxNumberOfGaps_def detector_ok_def
            split: option.split sum.split)
    qed (use d Some in \<open>simp add: markAndCheck_invalid\<close>)
  qed
qed

text \<open>Raising the lower bound of the last gap marks everything up to the number as seen.\<close>

lemma unseen_raise_last:
  assumes "detector_ok d" "gaps d \<noteq> []" "fst (last (gaps d)) < n" "is_number n"
  shows "unseen (butlast (gaps d) @ [(n, snd (last (gaps d)))]) = unseen (gaps d) - {fst (last (gaps d))<..n}"
    and "n \<in> unseen (gaps d)"
proof -
  let ?as = "butlast (gaps d)" and ?l = "fst (last (gaps d))"
  have split: "gaps d = ?as @ [(?l, infinity_pair)]" using assms append_butlast_last_id [of "gaps d"]
    by (metis detector_ok_def prod.collapse)
  have "gaps_ok (?as @ [(?l, infinity_pair)])" using assms split by (simp add: detector_ok_def)
  then have below: "x \<in> unseen ?as \<Longrightarrow> x < ?l" for x
    by (intro unseen_below [of ?as ?l x]) (auto simp: gaps_ok_split)
  have U: "unseen (gaps d) = unseen ?as \<union> {?l<..infinity_pair}"
    by (subst split) simp
  show "unseen (butlast (gaps d) @ [(n, snd (last (gaps d)))]) = unseen (gaps d) - {?l<..n}"
    using assms unfolding U by (auto simp: detector_ok_def dest!: below)
  show "n \<in> unseen (gaps d)"
    using assms is_number_less [of n] by (simp add: U less_imp_le)
qed

lemma unseen_markAndCheck:
  assumes "detector_ok d" "gaps d \<noteq> []" "is_number n"
  shows "unseen (gaps (fst (markAndCheck d p n))) \<subseteq> unseen (gaps d)"
    and "snd (markAndCheck d p n) = Inr True \<Longrightarrow>
      n \<in> unseen (gaps d) \<and> n \<notin> unseen (gaps (fst (markAndCheck d p n)))"
proof -
  have "unseen (gaps (fst (markAndCheck d p n))) \<subseteq> unseen (gaps d) \<and>
    (snd (markAndCheck d p n) = Inr True \<longrightarrow>
      n \<in> unseen (gaps d) \<and> n \<notin> unseen (gaps (fst (markAndCheck d p n))))"
  proof (cases p)
    case None
    with assms unseen_raise_last [OF assms(1,2) _ assms(3)] show ?thesis
      by (auto simp: markAndCheck_None)
  next
    case (Some q)
    show ?thesis
    proof (cases "q < n")
      case True
      from markAndCheck_prev [OF assms(1,2) True assms(3)] True Some show ?thesis
        by (auto split: prod.splits sum.splits bool.splits)
    qed (use Some in \<open>simp add: markAndCheck_invalid not_less\<close>)
  qed
  then show "unseen (gaps (fst (markAndCheck d p n))) \<subseteq> unseen (gaps d)"
    and "snd (markAndCheck d p n) = Inr True \<Longrightarrow>
      n \<in> unseen (gaps d) \<and> n \<notin> unseen (gaps (fst (markAndCheck d p n)))" by auto
qed

lemma markAndCheck_True_first:
  assumes "gaps d = []" "snd (markAndCheck d p n) = Inr True"
  shows "gaps (fst (markAndCheck d p n)) = [(n, infinity_pair)]"
proof (cases "\<forall>q. p = Some q \<longrightarrow> q < n")
  case False
  then show ?thesis using assms by (auto simp: not_less markAndCheck_invalid)
qed (use assms in \<open>simp add: markAndCheck_first\<close>)

interpretation det: message_detector markAndCheck detector_ok "\<lambda>d. gaps d \<noteq> []" "\<lambda>d. unseen (gaps d)"
proof unfold_locales
  fix d n p
  assume d: "detector_ok d" and n: "is_number n"
  show "detector_ok (fst (markAndCheck d p n))" using d n by (rule detector_ok_markAndCheck)
  show "snd (markAndCheck d p n) = Inr True \<Longrightarrow>
      gaps (fst (markAndCheck d p n)) \<noteq> [] \<and> n \<notin> unseen (gaps (fst (markAndCheck d p n)))"
    using d n detector_started [of d n p] unseen_markAndCheck [of d n p] markAndCheck_True_first [of d p n]
    by (cases "gaps d = []") auto
  show "gaps d \<noteq> [] \<Longrightarrow> gaps (fst (markAndCheck d p n)) \<noteq> []"
    using d n by (rule detector_started [rotated])
  show "gaps d \<noteq> [] \<Longrightarrow> unseen (gaps (fst (markAndCheck d p n))) \<subseteq> unseen (gaps d)"
    using d n by (intro unseen_markAndCheck)
  show "gaps d \<noteq> [] \<Longrightarrow> snd (markAndCheck d p n) = Inr True \<Longrightarrow> n \<in> unseen (gaps d)"
    using d n unseen_markAndCheck by blast
qed

subsection \<open>Runs of the detector\<close>

fun detector_run :: "detector \<Rightarrow> (number_pair option \<times> number_pair) list \<Rightarrow> (detector_error + bool) list" where
  "detector_run d [] = []"
| "detector_run d ((p, n) # ms) =
     snd (markAndCheck d p n) # detector_run (fst (markAndCheck d p n)) ms"

interpretation dets: step_invariant "\<lambda>d c. fst (markAndCheck d (fst c) (snd c))" "\<lambda>c. is_number (snd c)" detector_ok
  by unfold_locales (rule detector_ok_markAndCheck)

lemma detector_run_run: "detector_run d ms = det.run d ms"
  by (induction d ms rule: detector_run.induct) simp_all

lemma length_detector_run [simp]: "length (detector_run d ms) = length ms"
  by (simp add: detector_run_run)

text \<open>The step of a run, when the detector's limit leaves room for one more gap.\<close>

lemma length_gaps_markAndCheck:
  "detector_ok d \<Longrightarrow> length (gaps (fst (markAndCheck d p n))) \<le> Suc (length (gaps d))"
proof (cases p)
  case (Some q)
  assume d: "detector_ok d"
  show ?thesis
  proof (cases "q < n")
    case True
    then have "scan_meets (gaps d) q n (scan_gaps (gaps d) q n (length (gaps d)))"
      using d by (intro scan_gaps_all) (simp_all add: detector_ok_def)
    then show ?thesis
      by (auto simp: Some markAndCheck_def dropLowestGapIfOverMaxNumberOfGaps_def
          split: option.split sum.split)
  qed (use Some in \<open>simp add: markAndCheck_invalid not_less\<close>)
qed (simp add: markAndCheck_def Let_def)

lemma markAndCheck_whole:
  assumes "detector_ok d" "gaps d \<noteq> []" "p < n" "is_number n"
    and "{p<..n} \<subseteq> unseen (gaps d)" "length (gaps d) < maxNumberOfGaps d"
  shows "snd (markAndCheck d (Some p) n) = Inr True \<and>
    unseen (gaps (fst (markAndCheck d (Some p) n))) = unseen (gaps d) - {p<..n}"
proof -
  have "n \<in> {p<..n}" using assms(3) by simp
  with assms(5) have "{p<..n} \<inter> unseen (gaps d) \<noteq> {}" by blast
  with markAndCheck_prev [OF assms(1-4)] assms(5,6) show ?thesis
    by (auto split: prod.splits sum.splits bool.splits)
qed

lemma markAndCheck_disjoint:
  assumes "detector_ok d" "gaps d \<noteq> []" "p < n" "is_number n" "{p<..n} \<inter> unseen (gaps d) = {}"
  shows "markAndCheck d (Some p) n = (d, Inr False)"
proof -
  have "n \<notin> unseen (gaps d)" using assms(3,5) by auto
  with markAndCheck_prev [OF assms(1-4)] assms(3,5) show ?thesis
    by (auto split: prod.splits sum.splits bool.splits)
qed

subsection \<open>Messages of one chain, in any order of arrival\<close>

text \<open>
  A publisher numbers the messages of a chain in increasing order and puts the number of
  the previous message in each. They arrive in any order, with repetitions.
\<close>

definition chain_message :: "number_pair list \<Rightarrow> nat \<Rightarrow> number_pair option \<times> number_pair" where
  "chain_message ns i = (if i = 0 then None else Some (ns ! (i - 1)), ns ! i)"

definition chain_ok :: "number_pair list \<Rightarrow> bool" where
  "chain_ok ns \<longleftrightarrow> sorted_wrt (<) ns \<and> (\<forall>n \<in> set ns. is_number n)"

definition cell :: "number_pair list \<Rightarrow> nat \<Rightarrow> number_pair set" where
  "cell ns i = {ns ! (i - 1)<..ns ! i}"

definition still_unseen :: "number_pair list \<Rightarrow> nat \<Rightarrow> nat set \<Rightarrow> number_pair set" where
  "still_unseen ns j D = {ns ! j<..infinity_pair} - (\<Union>i \<in> {i \<in> D. j < i}. cell ns i)"

lemma chain_less: "chain_ok ns \<Longrightarrow> i < j \<Longrightarrow> j < length ns \<Longrightarrow> ns ! i < ns ! j"
  by (simp add: chain_ok_def sorted_wrt_iff_nth_less)

lemma chain_le: "chain_ok ns \<Longrightarrow> i \<le> j \<Longrightarrow> j < length ns \<Longrightarrow> ns ! i \<le> ns ! j"
  by (cases "i = j") (auto simp: le_less intro: chain_less)

lemma chain_number: "chain_ok ns \<Longrightarrow> i < length ns \<Longrightarrow> is_number (ns ! i)"
  by (simp add: chain_ok_def)

lemma cells_disjoint:
  assumes "chain_ok ns" "i < length ns" "k < length ns" "0 < i" "0 < k" "i \<noteq> k"
  shows "cell ns i \<inter> cell ns k = {}"
proof -
  have "ns ! a \<le> ns ! (b - 1)" if "a < b" "b < length ns" for a b
    using that assms(1) by (intro chain_le) auto
  from this [of i k] this [of k i] assms show ?thesis
    by (cases "i < k") (auto simp: cell_def)
qed

lemma cell_fresh:
  assumes ns: "chain_ok ns" and D: "\<forall>k \<in> D. k < length ns" and i: "j < i" "i < length ns" "i \<notin> D"
  shows "cell ns i \<subseteq> still_unseen ns j D"
proof -
  have "ns ! j \<le> ns ! (i - 1)" "ns ! i \<le> infinity_pair"
    using ns i is_number_less [OF chain_number [OF ns i(2)]] by (auto intro: chain_le)
  then have "cell ns i \<subseteq> {ns ! j<..infinity_pair}" by (auto simp: cell_def)
  moreover have "cell ns i \<inter> cell ns k = {}" if "k \<in> D" "j < k" for k
    using that D i by (intro cells_disjoint ns) auto
  ultimately show ?thesis by (auto simp: still_unseen_def)
qed

lemma cell_seen:
  assumes "chain_ok ns" "0 < i" "i < length ns" "j < length ns" "i \<le> j \<or> i \<in> D"
  shows "cell ns i \<inter> still_unseen ns j D = {}"
proof (cases "i \<le> j")
  case True
  then have "ns ! i \<le> ns ! j" using assms by (intro chain_le) auto
  then show ?thesis by (auto simp: cell_def still_unseen_def)
qed (use assms in \<open>auto simp: still_unseen_def\<close>)

lemma still_unseen_insert:
  "j < i \<Longrightarrow> still_unseen ns j (insert i D) = still_unseen ns j D - cell ns i"
  by (auto simp: still_unseen_def)

lemma still_unseen_old: "i \<le> j \<Longrightarrow> still_unseen ns j (insert i D) = still_unseen ns j D"
  by (auto simp: still_unseen_def)

text \<open>One arrival in the middle of a run.\<close>

lemma chain_step:
  assumes ns: "chain_ok ns" and d: "detector_ok d" "gaps d \<noteq> []" "length (gaps d) < maxNumberOfGaps d"
    and U: "unseen (gaps d) = still_unseen ns j D"
    and D: "\<forall>k \<in> D. k < length ns" and j: "j < length ns" and i: "i < length ns"
  shows "let m = chain_message ns i; r = markAndCheck d (fst m) (snd m) in
    snd r = Inr (j < i \<and> i \<notin> D) \<and> unseen (gaps (fst r)) = still_unseen ns j (insert i D)"
proof (cases "i = 0")
  case True
  have "\<not> fst (last (gaps d)) < ns ! 0"
  proof
    assume "fst (last (gaps d)) < ns ! 0"
    from unseen_raise_last(2) [OF d(1,2) this] chain_number [OF ns] i True
    have "ns ! 0 \<in> still_unseen ns j D" using U by auto
    then show False using chain_le [OF ns, of 0 j] j by (auto simp: still_unseen_def)
  qed
  with True d U show ?thesis
    by (simp add: chain_message_def markAndCheck_None still_unseen_old)
next
  case False
  have p: "ns ! (i - 1) < ns ! i" and n: "is_number (ns ! i)"
    using ns i False by (auto intro: chain_less chain_number)
  show ?thesis
  proof (cases "j < i \<and> i \<notin> D")
    case True
    from cell_fresh [OF ns D] True i U have "{ns ! (i - 1)<..ns ! i} \<subseteq> unseen (gaps d)"
      by (simp add: cell_def)
    from markAndCheck_whole [OF d(1,2) p n this d(3)] True False U show ?thesis
      by (simp add: chain_message_def Let_def still_unseen_insert cell_def)
  next
    case seen: False
    then have "i \<le> j \<or> i \<in> D" by auto
    from cell_seen [OF ns _ i j this] False U have empty: "{ns ! (i - 1)<..ns ! i} \<inter> unseen (gaps d) = {}"
      by (simp add: cell_def)
    have "still_unseen ns j (insert i D) = still_unseen ns j D"
      using seen by (cases "i \<le> j") (auto simp: still_unseen_old insert_absorb)
    with markAndCheck_disjoint [OF d(1,2) p n empty] seen False U show ?thesis
      by (simp add: chain_message_def Let_def)
  qed
qed

lemma chain_run:
  assumes ns: "chain_ok ns" and j: "j < length ns"
  shows "detector_ok d \<Longrightarrow> gaps d \<noteq> [] \<Longrightarrow> length (gaps d) + length js \<le> maxNumberOfGaps d \<Longrightarrow>
    unseen (gaps d) = still_unseen ns j D \<Longrightarrow> \<forall>k \<in> D. k < length ns \<Longrightarrow> \<forall>i \<in> set js. i < length ns \<Longrightarrow>
    t < length js \<Longrightarrow>
    detector_run d (map (chain_message ns) js) ! t = Inr (j < js ! t \<and> js ! t \<notin> D \<union> set (take t js))"
proof (induction js arbitrary: d D t)
  case (Cons i js)
  let ?m = "chain_message ns i" and ?d = "fst (markAndCheck d (fst (chain_message ns i)) (snd (chain_message ns i)))"
  from Cons.prems have i: "i < length ns" by simp
  from chain_step [OF ns Cons.prems(1,2) _ Cons.prems(4,5) j i] Cons.prems(3)
  have r: "snd (markAndCheck d (fst ?m) (snd ?m)) = Inr (j < i \<and> i \<notin> D)"
    and U: "unseen (gaps ?d) = still_unseen ns j (insert i D)" by (auto simp: Let_def)
  have n: "is_number (snd ?m)" using chain_number [OF ns i] by (simp add: chain_message_def)
  show ?case
  proof (cases t)
    case 0
    with r show ?thesis by (cases ?m) simp
  next
    case (Suc s)
    have "detector_run ?d (map (chain_message ns) js) ! s = Inr (j < js ! s \<and> js ! s \<notin> insert i D \<union> set (take s js))"
      using Cons.prems n i U length_gaps_markAndCheck [OF Cons.prems(1), of "fst ?m" "snd ?m"] Suc
      by (intro Cons.IH detector_ok_markAndCheck detector_started) auto
    with Suc show ?thesis by (cases ?m) auto
  qed
qed simp

lemma chain_run_new:
  assumes ns: "chain_ok ns" and js: "set js \<subseteq> {..<length ns}" "length js \<le> m" "t < length js"
  shows "detector_run (new_detector m) (map (chain_message ns) js) ! t =
    Inr (t = 0 \<or> (hd js < js ! t \<and> js ! t \<notin> set (take t js)))"
proof (cases js)
  case (Cons j ks)
  from js Cons have j: "j < length ns" and m: "1 \<le> m" by auto
  have n: "is_number (ns ! j)" using ns j by (rule chain_number)
  have prev: "\<forall>p. fst (chain_message ns j) = Some p \<longrightarrow> p < ns ! j"
    using ns j by (auto simp: chain_message_def intro: chain_less)
  let ?d = "fst (markAndCheck (new_detector m) (fst (chain_message ns j)) (snd (chain_message ns j)))"
  have first: "markAndCheck (new_detector m) (fst (chain_message ns j)) (snd (chain_message ns j)) =
      (\<lparr>maxNumberOfGaps = m, gaps = [(ns ! j, infinity_pair)]\<rparr>, Inr True)"
    using prev by (subst markAndCheck_first) (auto simp: new_detector_def chain_message_def)
  have ok: "detector_ok ?d"
    using n m by (intro detector_ok_markAndCheck detector_ok_new) (simp_all add: chain_message_def)
  have run: "detector_run (new_detector m) (map (chain_message ns) js) =
      Inr True # detector_run ?d (map (chain_message ns) ks)"
    using Cons first by (cases "chain_message ns j") simp
  show ?thesis
  proof (cases t)
    case (Suc s)
    have "detector_run ?d (map (chain_message ns) ks) ! s = Inr (j < ks ! s \<and> ks ! s \<notin> {j} \<union> set (take s ks))"
      using js Cons Suc first
      by (intro chain_run [OF ns j ok]) (auto simp: still_unseen_def)
    with run Suc Cons show ?thesis by auto
  qed (use run in simp)
qed (use js in simp)

subsection \<open>Properties\<close>

text \<open>
  C8. The verdict of \<open>markAndCheck\<close> on every branch. A predecessor that is not before the message
  is the exception for invalid numbering; otherwise the first message a detector gets is new.
  Then a message without a predecessor is new exactly if it is newer than the latest known one.
  A message with a predecessor is decided by the set of unseen numbers alone: the interval from
  the predecessor (exclusive) to the message is wholly unseen, wholly seen, or it overlaps
  both, which is the exception for a mismatch of gaps.
\<close>

theorem markAndCheck_verdict:
  assumes "detector_ok d" "is_number n"
  shows "snd (markAndCheck d prev n) = (case prev of
      None \<Rightarrow> Inr (gaps d = [] \<or> fst (last (gaps d)) < n)
    | Some p \<Rightarrow>
        if n \<le> p then Inl InvalidNumberingError
        else if gaps d = [] \<or> {p<..n} \<subseteq> unseen (gaps d) then Inr True
        else if {p<..n} \<inter> unseen (gaps d) = {} then Inr False
        else Inl (GapMisMatchError (gaps d) p n))"
proof (cases prev)
  case None
  then show ?thesis by (cases "gaps d = []") (simp_all add: markAndCheck_first markAndCheck_None)
next
  case (Some p)
  have "snd (markAndCheck d (Some p) n) =
      (if {p<..n} \<subseteq> unseen (gaps d) then Inr True else if {p<..n} \<inter> unseen (gaps d) = {} then Inr False
       else Inl (GapMisMatchError (gaps d) p n))" if less: "p < n" and some: "gaps d \<noteq> []"
  proof -
    have "\<not> ({p<..n} \<subseteq> unseen (gaps d) \<and> {p<..n} \<inter> unseen (gaps d) = {})"
      using less greaterThanAtMost_iff [of n p n] by blast
    with markAndCheck_prev [OF assms(1) some less assms(2)] show ?thesis
      by (auto split: prod.splits sum.splits bool.splits)
  qed
  then show ?thesis
    using Some by (cases "n \<le> p"; cases "gaps d = []") (simp_all add: markAndCheck_invalid markAndCheck_first not_le)
qed

definition example_detector :: detector where
  "example_detector = \<lparr>maxNumberOfGaps = 3,
     gaps = [(NumberPair (Fin 1) (Fin 0), NumberPair (Fin 4) (Fin 0)), (NumberPair (Fin 6) (Fin 0), infinity_pair)]\<rparr>"

theorem markAndCheck_verdict_witness:
  "snd (markAndCheck example_detector (Some (NumberPair (Fin 5) (Fin 0))) (NumberPair (Fin 6) (Fin 0))) = Inr False
   \<and> \<not> {NumberPair (Fin 5) (Fin 0)<..NumberPair (Fin 6) (Fin 0)} \<subseteq> unseen (gaps example_detector)
   \<and> snd (markAndCheck example_detector None (NumberPair (Fin 6) (Fin 0))) = Inr False"
proof -
  have pre: "detector_ok example_detector" "is_number (NumberPair (Fin 6) (Fin 0))"
    "\<not> NumberPair (Fin 6) (Fin 0) \<le> NumberPair (Fin 5) (Fin 0)" "\<not> fst (last (gaps example_detector)) < NumberPair (Fin 6) (Fin 0)"
    "gaps example_detector \<noteq> []"
    by code_simp+
  have "snd (markAndCheck example_detector (Some (NumberPair (Fin 5) (Fin 0))) (NumberPair (Fin 6) (Fin 0))) = Inr False"
    by code_simp
  with markAndCheck_verdict [OF pre(1,2), of "Some (NumberPair (Fin 5) (Fin 0))"] markAndCheck_verdict [OF pre(1,2), of None] pre(3-5)
  show ?thesis by (auto split: if_splits)
qed

text \<open>
  C9. Messages of one chain that arrive in any order, with repetitions, no more of them than the
  maximum number of gaps: no call raises an exception, and a message is reported as unseen
  exactly when it is the first of the chain to arrive, or is newer than that one and arrives
  for the first time. Messages older than the first to arrive are reported as duplicates.
\<close>

theorem chain_in_any_order:
  assumes "chain_ok ns" "set js \<subseteq> {..<length ns}" "length js \<le> m" "t < length js"
  shows "detector_run (new_detector m) (map (chain_message ns) js) ! t =
    Inr (t = 0 \<or> (hd js < js ! t \<and> js ! t \<notin> set (take t js)))"
  using assms by (rule chain_run_new)

definition example_chain :: "number_pair list" where
  "example_chain = map (\<lambda>i. NumberPair (Fin i) (Fin 0)) [1, 2, 5, 9]"

theorem chain_in_any_order_witness:
  "chain_ok example_chain \<and>
   detector_run (new_detector 6) (map (chain_message example_chain) [1, 3, 2, 3, 0]) ! 2 = Inr True \<and>
   detector_run (new_detector 6) (map (chain_message example_chain) [1, 3, 2, 3, 0]) ! 3 = Inr False"
proof -
  have ns: "chain_ok example_chain" by code_simp
  have js: "set [1, 3, 2, 3, 0] \<subseteq> {..<length example_chain}" "length [1, 3, 2, 3, 0 :: nat] \<le> 6"
    by (simp_all add: example_chain_def)
  show ?thesis
    using ns chain_in_any_order [OF ns js, of 2] chain_in_any_order [OF ns js, of 3] by simp
qed

text \<open>
  Over any run of calls on a well-formed detector, a message number is reported as
  unseen at most once: whatever predecessors later copies claim, they are duplicates or
  are rejected.
\<close>

theorem reported_unseen_at_most_once:
  assumes "detector_ok d" "\<forall>m \<in> set ms. is_number (snd m)" "i < j" "j < length ms"
    and "snd (ms ! i) = snd (ms ! j)" "detector_run d ms ! i = Inr True"
  shows "detector_run d ms ! j \<noteq> Inr True"
  using det.at_most_once [OF assms(1-5)] assms(6) by (simp add: detector_run_run)

theorem reported_unseen_at_most_once_witness:
  "detector_run (new_detector 1)
     [(None, NumberPair (Fin 3) (Fin 0)), (Some (NumberPair (Fin 2) (Fin 7)), NumberPair (Fin 3) (Fin 0))] ! 1 \<noteq> Inr True"
  by (rule reported_unseen_at_most_once [where i = 0])
    (code_simp, simp, simp, simp, simp, code_simp)

text \<open>
  Every call keeps the representation invariant stated in the comments of the source:
  the gaps are ascending, pairwise disjoint and non-empty, the last one is unbounded, and
  there are never more than the limit.
\<close>

theorem gaps_invariant:
  assumes "1 \<le> m" "\<forall>c \<in> set cs. is_number (snd c)"
  shows "detector_ok (foldl (\<lambda>d c. fst (markAndCheck d (fst c) (snd c))) (new_detector m) cs)"
  by (rule dets.run_inv) (use assms in \<open>simp_all add: detector_ok_new\<close>)

theorem gaps_invariant_witness:
  "detector_ok (foldl (\<lambda>d c. fst (markAndCheck d (fst c) (snd c))) (new_detector 1)
     [(None, NumberPair (Fin 1) (Fin 0)), (Some (NumberPair (Fin 3) (Fin 0)), NumberPair (Fin 4) (Fin 0))])"
  by (rule gaps_invariant) simp_all

end
