(* ===== verification/Messages.thy ===== *)
theory Messages
  imports Identifiers DuplicateDetector
begin

section \<open>Stream messages\<close>

text \<open>
  The fields of a stream message that the program reads: its identifier (the interface
  \<open>MessageId\<close> of \<open>src/src/helpers/SeenButNotPropagatedSet.ts\<close>), the reference to the
  previous message of its chain, and a payload that is only passed on. The classes
  themselves belong to the protocol package, which is not part of the repository.
  Also the two string keys the program derives from an identifier.
\<close>

record message_id =
  streamId :: string
  streamPartition :: int
  timestamp :: int
  sequenceNumber :: int
  publisherId :: string
  msgChainId :: string

type_synonym message_ref = "int \<times> int"

record stream_message =
  messageId :: message_id
  prevMsgRef :: "message_ref option"
  payload :: string

text \<open>\<open>new StreamIdAndPartition(m.streamId, m.streamPartition)\<close>, as \<open>fromMessage\<close> does.\<close>

definition from_message :: "message_id \<Rightarrow> stream_id_and_partition" where
  "from_message m = \<lparr>sp_id = streamId m, sp_partition = streamPartition m\<rparr>"

abbreviation message_stream :: "stream_message \<Rightarrow> stream_id_and_partition" where
  "message_stream m \<equiv> from_message (messageId m)"

definition message_number :: "message_id \<Rightarrow> number_pair" where
  "message_number m = NumberPair (Fin (timestamp m)) (Fin (sequenceNumber m))"

definition ref_number :: "message_ref \<Rightarrow> number_pair" where
  "ref_number r = NumberPair (Fin (fst r)) (Fin (snd r))"

lemma is_number_message [simp]: "is_number (message_number m)"
  by (simp add: message_number_def)

lemma is_number_ref [simp]: "is_number (ref_number r)"
  by (simp add: ref_number_def)

text \<open>\<open>keyForDetector\<close> of the stream manager.\<close>

definition keyForDetector :: "message_id \<Rightarrow> string" where
  "keyForDetector m = publisherId m @ ''-'' @ msgChainId m"

text \<open>\<open>messageIdToStr\<close> of the set of seen but not propagated messages.\<close>

definition messageIdToStr :: "message_id \<Rightarrow> string" where
  "messageIdToStr m = streamId m @ ''-'' @ show_int (streamPartition m) @ ''-'' @ show_int (timestamp m) @ ''-'' @
     show_int (sequenceNumber m) @ ''-'' @ publisherId m @ ''-'' @ msgChainId m"

text \<open>The two keys separate fields by a dash, so they are exact when the fields have none.\<close>

lemma dash_split:
  "CHR ''-'' \<notin> set a \<Longrightarrow> CHR ''-'' \<notin> set b \<Longrightarrow> a @ CHR ''-'' # x = b @ CHR ''-'' # y \<longleftrightarrow> a = b \<and> x = y"
proof (induction a arbitrary: b)
  case Nil
  then show ?case by (cases b) auto
next
  case (Cons c a)
  then show ?case by (cases b) auto
qed

lemma keyForDetector_inj:
  assumes "CHR ''-'' \<notin> set (publisherId m)" "CHR ''-'' \<notin> set (publisherId n)"
  shows "keyForDetector m = keyForDetector n \<longleftrightarrow> publisherId m = publisherId n \<and> msgChainId m = msgChainId n"
  using assms by (simp add: keyForDetector_def dash_split)

lemma show_int_nonneg_no_dash: "0 \<le> i \<Longrightarrow> CHR ''-'' \<notin> set (show_int i)"
  using show_nat_digits is_digit_not_special by (auto simp: show_int_def)

text \<open>Counting fields from the left: the stream id must be free of dashes too.\<close>

lemma messageIdToStr_inj:
  assumes "CHR ''-'' \<notin> set (streamId m)" "CHR ''-'' \<notin> set (streamId n)"
    and "CHR ''-'' \<notin> set (publisherId m)" "CHR ''-'' \<notin> set (publisherId n)"
    and "0 \<le> streamPartition m" "0 \<le> timestamp m" "0 \<le> sequenceNumber m"
    and "0 \<le> streamPartition n" "0 \<le> timestamp n" "0 \<le> sequenceNumber n"
  shows "messageIdToStr m = messageIdToStr n \<longleftrightarrow> m = n"
proof
  assume "messageIdToStr m = messageIdToStr n"
  then show "m = n"
    using assms
    by (simp add: messageIdToStr_def dash_split show_int_nonneg_no_dash)
      (metis message_id.equality show_int_inj old.unit.exhaust)
qed simp

end
