(* ===== verification/StreamManager.thy ===== *)
theory StreamManager
  imports Messages
begin

section \<open>The stream manager\<close>

text \<open>
  \<open>src/src/logic/StreamManager.ts\<close>: the map from stream keys to the state of a stream
  (its duplicate detectors, the nodes it receives from and sends to, the instruction
  counter) and every operation on it. An operation that throws before it changes anything
  returns \<open>Inl\<close>; where the code may have changed the state before it throws, the
  operation returns the state as well.
\<close>

record stream_state =
  detectors :: "(string, detector) dict"
  inboundNodes :: "string list"
  outboundNodes :: "string list"
  counter :: int

record stream_state_representation =
  rep_inboundNodes :: "string list"
  rep_outboundNodes :: "string list"
  rep_counter :: int

type_synonym stream_manager = "(stream_key, stream_state) dict"

datatype manager_error =
    AlreadySetUp stream_key
  | NotSetUp stream_key
  | TypeErrorUndefined
  | BadStreamKey
  | DetectorError detector_error

text \<open>The default limit of a new detector.\<close>

definition default_max_gaps :: nat where
  "default_max_gaps = 10000"

definition isSetUp :: "stream_manager \<Rightarrow> stream_id_and_partition \<Rightarrow> bool" where
  "isSetUp m s \<longleftrightarrow> has_key m (stream_key s)"

definition verifyThatIsSetUp :: "stream_manager \<Rightarrow> stream_id_and_partition \<Rightarrow> manager_error + stream_state" where
  "verifyThatIsSetUp m s = (case map_of m (stream_key s) of
       None \<Rightarrow> Inl (NotSetUp (stream_key s))
     | Some st \<Rightarrow> Inr st)"

definition new_stream_state :: stream_state where
  "new_stream_state = \<lparr>detectors = [], inboundNodes = [], outboundNodes = [], counter = 0\<rparr>"

definition setUpStream :: "stream_manager \<Rightarrow> stream_id_and_partition \<Rightarrow> manager_error + stream_manager" where
  "setUpStream m s =
     (if isSetUp m s then Inl (AlreadySetUp (stream_key s))
      else Inr (AList.update (stream_key s) new_stream_state m))"

definition markNumbersAndCheckThatIsNotDuplicate ::
  "stream_manager \<Rightarrow> message_id \<Rightarrow> message_ref option \<Rightarrow> stream_manager \<times> (manager_error + bool)" where
  "markNumbersAndCheckThatIsNotDuplicate m mid prev =
     (let s = from_message mid in
      case verifyThatIsSetUp m s of
        Inl e \<Rightarrow> (m, Inl e)
      | Inr st \<Rightarrow>
          (let dk = keyForDetector mid;
               d = (case map_of (detectors st) dk of None \<Rightarrow> new_detector default_max_gaps | Some d \<Rightarrow> d);
               (d', r) = markAndCheck d (map_option ref_number prev) (message_number mid);
               st' = st\<lparr>detectors := AList.update dk d' (detectors st)\<rparr>
           in (AList.update (stream_key s) st' m,
               case r of Inl e \<Rightarrow> Inl (DetectorError e) | Inr b \<Rightarrow> Inr b)))"

definition updateCounter :: "stream_manager \<Rightarrow> stream_id_and_partition \<Rightarrow> int \<Rightarrow> manager_error + stream_manager" where
  "updateCounter m s c = (case map_of m (stream_key s) of
       None \<Rightarrow> Inl TypeErrorUndefined
     | Some st \<Rightarrow> Inr (AList.update (stream_key s) (st\<lparr>counter := c\<rparr>) m))"

definition addInboundNode :: "stream_manager \<Rightarrow> stream_id_and_partition \<Rightarrow> string \<Rightarrow> manager_error + stream_manager" where
  "addInboundNode m s node = (case verifyThatIsSetUp m s of
       Inl e \<Rightarrow> Inl e
     | Inr st \<Rightarrow> Inr (AList.update (stream_key s) (st\<lparr>inboundNodes := set_add node (inboundNodes st)\<rparr>) m))"

definition addOutboundNode :: "stream_manager \<Rightarrow> stream_id_and_partition \<Rightarrow> string \<Rightarrow> manager_error + stream_manager" where
  "addOutboundNode m s node = (case verifyThatIsSetUp m s of
       Inl e \<Rightarrow> Inl e
     | Inr st \<Rightarrow> Inr (AList.update (stream_key s) (st\<lparr>outboundNodes := set_add node (outboundNodes st)\<rparr>) m))"

definition without_node :: "string \<Rightarrow> stream_state \<Rightarrow> stream_state" where
  "without_node node st =
     st\<lparr>inboundNodes := set_del node (inboundNodes st), outboundNodes := set_del node (outboundNodes st)\<rparr>"

definition removeNodeFromStream :: "stream_manager \<Rightarrow> stream_id_and_partition \<Rightarrow> string \<Rightarrow> manager_error + stream_manager" where
  "removeNodeFromStream m s node = (case verifyThatIsSetUp m s of
       Inl e \<Rightarrow> Inl e
     | Inr st \<Rightarrow> Inr (AList.update (stream_key s) (without_node node st) m))"

definition represent :: "stream_state \<Rightarrow> stream_state_representation" where
  "represent st = \<lparr>rep_inboundNodes = inboundNodes st, rep_outboundNodes = outboundNodes st, rep_counter = counter st\<rparr>"

definition getStreamState ::
  "stream_manager \<Rightarrow> stream_id_and_partition \<Rightarrow> (stream_key, stream_state_representation) dict" where
  "getStreamState m s = (case map_of m (stream_key s) of
       None \<Rightarrow> [(stream_key s, \<lparr>rep_inboundNodes = [], rep_outboundNodes = [], rep_counter = -1\<rparr>)]
     | Some st \<Rightarrow> [(stream_key s, represent st)])"

definition stream_has_node :: "string \<Rightarrow> stream_state \<Rightarrow> bool" where
  "stream_has_node node st \<longleftrightarrow> node \<in> set (inboundNodes st) \<or> node \<in> set (outboundNodes st)"

text \<open>
  \<open>removeNodeFromAllStreams\<close> walks the streams in order and parses the key of each one it
  removed the node from; a key that does not parse throws, with the later streams not
  yet visited.
\<close>

fun removeNodeFromAllStreams ::
  "stream_manager \<Rightarrow> string \<Rightarrow> stream_manager \<times> (manager_error + stream_id_and_partition list)" where
  "removeNodeFromAllStreams [] node = ([], Inr [])"
| "removeNodeFromAllStreams ((k, st) # m) node =
     (if stream_has_node node st then
        (case from_key k of
           Inl _ \<Rightarrow> ((k, without_node node st) # m, Inl BadStreamKey)
         | Inr s \<Rightarrow>
             (let r = removeNodeFromAllStreams m node
              in ((k, without_node node st) # fst r, case snd r of Inl e \<Rightarrow> Inl e | Inr ss \<Rightarrow> Inr (s # ss))))
      else
        (let r = removeNodeFromAllStreams m node in ((k, without_node node st) # fst r, snd r)))"

definition removeStream ::
  "stream_manager \<Rightarrow> stream_id_and_partition \<Rightarrow> manager_error + (stream_manager \<times> string list)" where
  "removeStream m s = (case verifyThatIsSetUp m s of
       Inl e \<Rightarrow> Inl e
     | Inr st \<Rightarrow> Inr (AList.delete (stream_key s) m, set_of (inboundNodes st @ outboundNodes st)))"

definition isNodePresent :: "stream_manager \<Rightarrow> string \<Rightarrow> bool" where
  "isNodePresent m node \<longleftrightarrow> list_ex (stream_has_node node) (values_of m)"

definition getStreamsAsKeys :: "stream_manager \<Rightarrow> stream_key list" where
  "getStreamsAsKeys m = sort (keys_of m)"

fun parse_keys :: "stream_key list \<Rightarrow> manager_error + stream_id_and_partition list" where
  "parse_keys [] = Inr []"
| "parse_keys (k # ks) = (case from_key k of
       Inl _ \<Rightarrow> Inl BadStreamKey
     | Inr s \<Rightarrow> (case parse_keys ks of Inl e \<Rightarrow> Inl e | Inr ss \<Rightarrow> Inr (s # ss)))"

definition getStreams :: "stream_manager \<Rightarrow> manager_error + stream_id_and_partition list" where
  "getStreams m = parse_keys (getStreamsAsKeys m)"

text \<open>The filter may throw, as the one of \<open>getFullStatus\<close> does on a key that does not parse.\<close>

fun getStreamsWithConnections ::
  "stream_manager \<Rightarrow> (stream_key \<Rightarrow> manager_error + bool) \<Rightarrow> manager_error + (stream_key, stream_state_representation) dict" where
  "getStreamsWithConnections [] f = Inr []"
| "getStreamsWithConnections ((k, st) # m) f = (case f k of
       Inl e \<Rightarrow> Inl e
     | Inr b \<Rightarrow> (case getStreamsWithConnections m f of
         Inl e \<Rightarrow> Inl e
       | Inr r \<Rightarrow> Inr (if b then (k, represent st) # r else r)))"

definition getOutboundNodesForStream :: "stream_manager \<Rightarrow> stream_id_and_partition \<Rightarrow> manager_error + string list" where
  "getOutboundNodesForStream m s = (case verifyThatIsSetUp m s of Inl e \<Rightarrow> Inl e | Inr st \<Rightarrow> Inr (outboundNodes st))"

definition getInboundNodesForStream :: "stream_manager \<Rightarrow> stream_id_and_partition \<Rightarrow> manager_error + string list" where
  "getInboundNodesForStream m s = (case verifyThatIsSetUp m s of Inl e \<Rightarrow> Inl e | Inr st \<Rightarrow> Inr (inboundNodes st))"

definition getAllNodesForStream :: "stream_manager \<Rightarrow> stream_id_and_partition \<Rightarrow> manager_error + string list" where
  "getAllNodesForStream m s = (case getInboundNodesForStream m s of
       Inl e \<Rightarrow> Inl e
     | Inr ins \<Rightarrow> (case getOutboundNodesForStream m s of
         Inl e \<Rightarrow> Inl e
       | Inr outs \<Rightarrow> Inr (sort (set_of (ins @ outs)))))"

definition getAllNodes :: "stream_manager \<Rightarrow> string list" where
  "getAllNodes m = set_of (concat (map (\<lambda>st. inboundNodes st @ outboundNodes st) (values_of m)))"

definition hasOutboundNode :: "stream_manager \<Rightarrow> stream_id_and_partition \<Rightarrow> string \<Rightarrow> manager_error + bool" where
  "hasOutboundNode m s node =
     (case verifyThatIsSetUp m s of Inl e \<Rightarrow> Inl e | Inr st \<Rightarrow> Inr (node \<in> set (outboundNodes st)))"

definition hasInboundNode :: "stream_manager \<Rightarrow> stream_id_and_partition \<Rightarrow> string \<Rightarrow> manager_error + bool" where
  "hasInboundNode m s node =
     (case verifyThatIsSetUp m s of Inl e \<Rightarrow> Inl e | Inr st \<Rightarrow> Inr (node \<in> set (inboundNodes st)))"

subsection \<open>Calls and the invariant they keep\<close>

datatype manager_call =
    SetUp stream_id_and_partition
  | Mark message_id "message_ref option"
  | UpdateCounter stream_id_and_partition int
  | AddInbound stream_id_and_partition string
  | AddOutbound stream_id_and_partition string
  | RemoveNode stream_id_and_partition string
  | RemoveNodeFromAll string
  | RemoveStream stream_id_and_partition

definition keep_on_error :: "'s \<Rightarrow> 'e + 's \<Rightarrow> 's" where
  "keep_on_error s r = (case r of Inl _ \<Rightarrow> s | Inr s' \<Rightarrow> s')"

lemma keep_on_error_simps [simp]: "keep_on_error s (Inl e) = s" "keep_on_error s (Inr t) = t"
  by (simp_all add: keep_on_error_def)

fun manager_step :: "stream_manager \<Rightarrow> manager_call \<Rightarrow> stream_manager" where
  "manager_step m (SetUp s) = keep_on_error m (setUpStream m s)"
| "manager_step m (Mark mid prev) = fst (markNumbersAndCheckThatIsNotDuplicate m mid prev)"
| "manager_step m (UpdateCounter s c) = keep_on_error m (updateCounter m s c)"
| "manager_step m (AddInbound s n) = keep_on_error m (addInboundNode m s n)"
| "manager_step m (AddOutbound s n) = keep_on_error m (addOutboundNode m s n)"
| "manager_step m (RemoveNode s n) = keep_on_error m (removeNodeFromStream m s n)"
| "manager_step m (RemoveNodeFromAll n) = fst (removeNodeFromAllStreams m n)"
| "manager_step m (RemoveStream s) = keep_on_error m (map_sum id fst (removeStream m s))"

definition stream_ok :: "stream_state \<Rightarrow> bool" where
  "stream_ok st \<longleftrightarrow> distinct (inboundNodes st) \<and> distinct (outboundNodes st) \<and>
     dict_ok (detectors st) \<and> dict_all (\<lambda>_. detector_ok) (detectors st)"

definition manager_ok :: "stream_manager \<Rightarrow> bool" where
  "manager_ok m \<longleftrightarrow> dict_ok m \<and> dict_all (\<lambda>_. stream_ok) m"

lemmas manager_defs = setUpStream_def markNumbersAndCheckThatIsNotDuplicate_def updateCounter_def addInboundNode_def
  addOutboundNode_def removeNodeFromStream_def removeStream_def verifyThatIsSetUp_def isSetUp_def

lemma stream_ok_new [simp]: "stream_ok new_stream_state"
  by (simp add: stream_ok_def new_stream_state_def)

lemma stream_ok_without [simp]: "stream_ok st \<Longrightarrow> stream_ok (without_node n st)"
  by (simp add: stream_ok_def without_node_def)

lemma stream_ok_updates [simp]:
  "stream_ok st \<Longrightarrow> stream_ok (st\<lparr>counter := c\<rparr>)"
  "stream_ok st \<Longrightarrow> stream_ok (st\<lparr>inboundNodes := set_add n (inboundNodes st)\<rparr>)"
  "stream_ok st \<Longrightarrow> stream_ok (st\<lparr>outboundNodes := set_add n (outboundNodes st)\<rparr>)"
  "stream_ok st \<Longrightarrow> detector_ok d \<Longrightarrow> stream_ok (st\<lparr>detectors := AList.update k d (detectors st)\<rparr>)"
  by (auto simp: stream_ok_def)

lemma manager_ok_Nil [simp]: "manager_ok []"
  by (simp add: manager_ok_def)

lemma manager_ok_update: "manager_ok m \<Longrightarrow> stream_ok st \<Longrightarrow> manager_ok (AList.update k st m)"
  by (auto simp: manager_ok_def)

lemma manager_ok_delete: "manager_ok m \<Longrightarrow> manager_ok (AList.delete k m)"
  by (auto simp: manager_ok_def)

lemma manager_okD: "manager_ok m \<Longrightarrow> map_of m k = Some st \<Longrightarrow> stream_ok st"
  by (auto simp: manager_ok_def dest: dict_allD)

lemma keys_removeNodeFromAllStreams [simp]:
  "keys_of (fst (removeNodeFromAllStreams m n)) = keys_of m"
  by (induction m n rule: removeNodeFromAllStreams.induct) (auto simp: Let_def split: sum.split)

lemma values_removeNodeFromAllStreams:
  "(k, st) \<in> set (fst (removeNodeFromAllStreams m n)) \<Longrightarrow>
   \<exists>st0. (k, st0) \<in> set m \<and> (st = st0 \<or> st = without_node n st0)"
  by (induction m n rule: removeNodeFromAllStreams.induct)
    (auto simp: Let_def split: sum.splits if_splits)

lemma manager_ok_step: "manager_ok m \<Longrightarrow> manager_ok (manager_step m c)"
proof (cases c)
  case (Mark mid prev)
  assume ok: "manager_ok m"
  then show ?thesis
    using Mark manager_okD [OF ok, of "stream_key (from_message mid)"]
    by (auto simp: manager_defs Let_def case_prod_beta default_max_gaps_def stream_ok_def
        intro!: manager_ok_update stream_ok_updates detector_ok_markAndCheck detector_ok_new
        split: option.split sum.split dest: dict_allD)
next
  case (RemoveNodeFromAll n)
  assume ok: "manager_ok m"
  then have "stream_ok st" if "(k, st) \<in> set (fst (removeNodeFromAllStreams m n))" for k st
    using values_removeNodeFromAllStreams [OF that] ok stream_ok_without
    by (fastforce simp: manager_ok_def dict_all_iff)
  with ok RemoveNodeFromAll show ?thesis
    by (auto simp: manager_ok_def dict_all_iff)
qed (auto simp: manager_defs keep_on_error_def
    intro!: manager_ok_update manager_ok_delete dest: manager_okD split: option.split)

interpretation managers: step_invariant manager_step "\<lambda>_. True" manager_ok
  by unfold_locales (rule manager_ok_step)

subsection \<open>Removing a node from every stream\<close>

definition keys_parse :: "stream_manager \<Rightarrow> bool" where
  "keys_parse m \<longleftrightarrow> list_all (\<lambda>k. \<not> is_error (from_key k)) (keys_of m)"

lemma removeNodeFromAllStreams_eq:
  "keys_parse m \<Longrightarrow> removeNodeFromAllStreams m n =
     (map (\<lambda>(k, st). (k, without_node n st)) m,
      Inr (map (\<lambda>(k, st). projr (from_key k)) (filter (\<lambda>(k, st). stream_has_node n st) m)))"
  by (induction m n rule: removeNodeFromAllStreams.induct)
    (auto simp: keys_parse_def Let_def is_error_iff split: sum.splits)

lemma isNodePresent_without:
  "isNodePresent (map (\<lambda>(k, st). (k, without_node n st)) m) n' \<longleftrightarrow> n' \<noteq> n \<and> isNodePresent m n'"
  by (induction m) (auto simp: isNodePresent_def stream_has_node_def without_node_def)

subsection \<open>The chains of a stream do not interfere\<close>

text \<open>
  The detector that answers for a chain (a stream key and a detector key), and the calls
  and verdicts of one chain within a run of calls on the manager.
\<close>

definition chain_detector :: "stream_manager \<Rightarrow> stream_key \<Rightarrow> string \<Rightarrow> detector" where
  "chain_detector m sk dk = (case map_of m sk of
       None \<Rightarrow> new_detector default_max_gaps
     | Some st \<Rightarrow> (case map_of (detectors st) dk of None \<Rightarrow> new_detector default_max_gaps | Some d \<Rightarrow> d))"

definition in_chain :: "stream_key \<Rightarrow> string \<Rightarrow> message_id \<Rightarrow> bool" where
  "in_chain sk dk mid \<longleftrightarrow> stream_key (from_message mid) = sk \<and> keyForDetector mid = dk"

fun chain_verdicts :: "stream_manager \<Rightarrow> stream_key \<Rightarrow> string \<Rightarrow> manager_call list \<Rightarrow> (manager_error + bool) list" where
  "chain_verdicts m sk dk [] = []"
| "chain_verdicts m sk dk (c # cs) =
     (case c of
        Mark mid prev \<Rightarrow>
          (if in_chain sk dk mid then [snd (markNumbersAndCheckThatIsNotDuplicate m mid prev)] else [])
      | _ \<Rightarrow> []) @ chain_verdicts (manager_step m c) sk dk cs"

fun chain_calls :: "stream_key \<Rightarrow> string \<Rightarrow> manager_call list \<Rightarrow> (number_pair option \<times> number_pair) list" where
  "chain_calls sk dk [] = []"
| "chain_calls sk dk (c # cs) =
     (case c of
        Mark mid prev \<Rightarrow>
          (if in_chain sk dk mid then [(map_option ref_number prev, message_number mid)] else [])
      | _ \<Rightarrow> []) @ chain_calls sk dk cs"

fun removes_stream :: "stream_key \<Rightarrow> manager_call \<Rightarrow> bool" where
  "removes_stream sk (RemoveStream s) = (stream_key s = sk)"
| "removes_stream sk _ = False"

definition lift_verdict :: "detector_error + bool \<Rightarrow> manager_error + bool" where
  "lift_verdict r = (case r of Inl e \<Rightarrow> Inl (DetectorError e) | Inr b \<Rightarrow> Inr b)"

lemma mark_in_chain:
  assumes "in_chain sk dk mid" "has_key m sk"
  shows "snd (markNumbersAndCheckThatIsNotDuplicate m mid prev) =
      lift_verdict (snd (markAndCheck (chain_detector m sk dk) (map_option ref_number prev) (message_number mid)))"
    and "chain_detector (manager_step m (Mark mid prev)) sk dk =
      fst (markAndCheck (chain_detector m sk dk) (map_option ref_number prev) (message_number mid))"
  using assms
  by (auto simp: in_chain_def chain_detector_def manager_defs lift_verdict_def Let_def case_prod_beta
      split: option.splits)

lemma map_of_removeNodeFromAllStreams:
  "map_of (fst (removeNodeFromAllStreams m n)) k = map_of m k \<or>
   map_of (fst (removeNodeFromAllStreams m n)) k = map_option (without_node n) (map_of m k)"
  by (induction m n rule: removeNodeFromAllStreams.induct) (auto simp: Let_def split: sum.split)

lemma detectors_without [simp]: "detectors (without_node n st) = detectors st"
  by (simp add: without_node_def)

lemma step_off_chain:
  assumes "\<forall>mid prev. c = Mark mid prev \<longrightarrow> \<not> in_chain sk dk mid" "\<not> removes_stream sk c"
  shows "chain_detector (manager_step m c) sk dk = chain_detector m sk dk"
proof (cases c)
  case (RemoveNodeFromAll n)
  then show ?thesis using map_of_removeNodeFromAllStreams [of m n sk]
    by (auto simp: chain_detector_def split: option.split)
next
  case (Mark mid prev)
  with assms have "stream_key (from_message mid) \<noteq> sk \<or> keyForDetector mid \<noteq> dk" by (auto simp: in_chain_def)
  with Mark show ?thesis
    by (auto simp: chain_detector_def manager_defs Let_def case_prod_beta split: option.split)
qed (use assms in \<open>auto simp: chain_detector_def manager_defs keep_on_error_def new_stream_state_def
      split: option.split\<close>)

lemma step_keeps_stream:
  "has_key m sk \<Longrightarrow> \<not> removes_stream sk c \<Longrightarrow> has_key (manager_step m c) sk"
proof (cases c)
  case (RemoveNodeFromAll n)
  assume "has_key m sk"
  with RemoveNodeFromAll show ?thesis
    using keys_removeNodeFromAllStreams [of m n] by (metis has_key_iff manager_step.simps(7))
qed (auto simp: manager_defs keep_on_error_def Let_def case_prod_beta split: option.split)

lemma chain_verdicts_detector:
  "has_key m sk \<Longrightarrow> \<forall>c \<in> set cs. \<not> removes_stream sk c \<Longrightarrow>
   chain_verdicts m sk dk cs = map lift_verdict (detector_run (chain_detector m sk dk) (chain_calls sk dk cs))"
proof (induction cs arbitrary: m)
  case (Cons c cs)
  then have IH: "chain_verdicts (manager_step m c) sk dk cs =
      map lift_verdict (detector_run (chain_detector (manager_step m c) sk dk) (chain_calls sk dk cs))"
    using step_keeps_stream by simp
  show ?case
  proof (cases "\<exists>mid prev. c = Mark mid prev \<and> in_chain sk dk mid")
    case True
    then show ?thesis using IH mark_in_chain Cons.prems(1) by fastforce
  next
    case False
    with Cons.prems(2) IH show ?thesis
      using step_off_chain [of c sk dk m] by (auto split: manager_call.split)
  qed
qed simp

subsection \<open>Properties\<close>

text \<open>
  C11. The verdicts the manager gives on the messages of one chain of one stream are those
  of a single detector run on that chain alone: as long as no call removes the stream (which
  resets its detectors), whatever other calls are interleaved (other chains, other streams,
  changes of the node sets, of the counters).
\<close>

theorem chain_verdicts_refine:
  assumes "isSetUp m s" "\<forall>c \<in> set cs. \<not> removes_stream (stream_key s) c"
  shows "chain_verdicts m (stream_key s) dk cs =
    map lift_verdict (detector_run (chain_detector m (stream_key s) dk) (chain_calls (stream_key s) dk cs))"
  using assms by (intro chain_verdicts_detector) (simp_all add: isSetUp_def)

definition example_stream :: stream_id_and_partition where
  "example_stream = \<lparr>sp_id = ''s'', sp_partition = 0\<rparr>"

definition example_id :: "string \<Rightarrow> string \<Rightarrow> int \<Rightarrow> message_id" where
  "example_id p c t = \<lparr>streamId = ''s'', streamPartition = 0, timestamp = t, sequenceNumber = 0, publisherId = p, msgChainId = c\<rparr>"

definition example_calls :: "manager_call list" where
  "example_calls = [Mark (example_id ''p'' ''c'' 1) None, AddInbound example_stream ''n'',
     Mark (example_id ''q'' ''c'' 1) None, Mark (example_id ''p'' ''c'' 2) (Some (1, 0)),
     Mark (example_id ''p'' ''c'' 2) (Some (1, 0))]"

theorem chain_verdicts_refine_witness:
  "chain_verdicts [(stream_key example_stream, new_stream_state)] (stream_key example_stream) ''p-c'' example_calls =
     map lift_verdict (detector_run (new_detector default_max_gaps)
       [(None, message_number (example_id ''p'' ''c'' 1)),
        (Some (ref_number (1, 0)), message_number (example_id ''p'' ''c'' 2)),
        (Some (ref_number (1, 0)), message_number (example_id ''p'' ''c'' 2))])"
proof -
  let ?m = "[(stream_key example_stream, new_stream_state)]"
  have s: "isSetUp ?m example_stream" by (simp add: isSetUp_def)
  have cs: "\<forall>c \<in> set example_calls. \<not> removes_stream (stream_key example_stream) c"
    by (simp add: example_calls_def)
  have d: "chain_detector ?m (stream_key example_stream) ''p-c'' = new_detector default_max_gaps"
    by (simp add: chain_detector_def new_stream_state_def)
  have calls: "chain_calls (stream_key example_stream) ''p-c'' example_calls =
       [(None, message_number (example_id ''p'' ''c'' 1)),
        (Some (ref_number (1, 0)), message_number (example_id ''p'' ''c'' 2)),
        (Some (ref_number (1, 0)), message_number (example_id ''p'' ''c'' 2))]"
    by (simp add: example_calls_def in_chain_def example_id_def example_stream_def from_message_def keyForDetector_def)
  show ?thesis using chain_verdicts_refine [OF s cs, of "''p-c''"] by (simp only: d calls)
qed

text \<open>
  When every stream key parses, removing a node from all streams removes it from each
  of them, reports exactly the streams it was in, in order, and touches no other node.
\<close>

theorem removeNodeFromAllStreams_complete:
  assumes "keys_parse m"
  shows "snd (removeNodeFromAllStreams m n) =
       Inr (map (\<lambda>(k, st). projr (from_key k)) (filter (\<lambda>(k, st). stream_has_node n st) m)) \<and>
    (\<forall>n'. isNodePresent (fst (removeNodeFromAllStreams m n)) n' \<longleftrightarrow> n' \<noteq> n \<and> isNodePresent m n')"
  using assms by (simp add: removeNodeFromAllStreams_eq isNodePresent_without)

definition example_manager :: "string \<Rightarrow> stream_manager" where
  "example_manager i =
    [(stream_key \<lparr>sp_id = i, sp_partition = 0\<rparr>, new_stream_state\<lparr>inboundNodes := [''n'', ''o'']\<rparr>),
     (stream_key example_stream, new_stream_state\<lparr>outboundNodes := [''n'']\<rparr>)]"

theorem removeNodeFromAllStreams_complete_witness:
  "keys_parse (example_manager ''t'') \<and>
   \<not> isNodePresent (fst (removeNodeFromAllStreams (example_manager ''t'') ''n'')) ''n'' \<and>
   snd (removeNodeFromAllStreams (example_manager ''t'') ''n'') =
     Inr [\<lparr>sp_id = ''t'', sp_partition = 0\<rparr>, example_stream]"
proof -
  have p: "keys_parse (example_manager ''t'')" by code_simp
  have "snd (removeNodeFromAllStreams (example_manager ''t'') ''n'') =
     Inr [\<lparr>sp_id = ''t'', sp_partition = 0\<rparr>, example_stream]" by code_simp
  with p removeNodeFromAllStreams_complete [OF p, of "''n''"] show ?thesis by simp
qed

text \<open>
  A stream identifier with a double colon breaks this: the walk stops at the first
  stream whose key does not parse back, and the node stays in the later streams.
\<close>

theorem removeNodeFromAllStreams_stops:
  "let r = removeNodeFromAllStreams (example_manager ''a::b'') ''n'' in
     snd r = Inl BadStreamKey \<and> isNodePresent (fst r) ''n''"
  by code_simp

text \<open>
  Every operation keeps the manager well formed: one entry per stream, node sets
  without repetition and well-formed detectors, over every sequence of calls.
\<close>

theorem manager_invariant: "manager_ok (foldl manager_step [] cs)"
  by (rule managers.run_inv) simp_all

end
