(* ===== verification/InstructionCounter.thy ===== *)
theory InstructionCounter
  imports StreamManager
begin

section \<open>The instruction counter\<close>

text \<open>
  \<open>src/src/logic/InstructionCounter.ts\<close>: the tracker numbers the instructions it sends to
  a node on a stream, and uses the numbers to recognise statuses a node sent before it
  handled the last instruction. A status of a node lists its streams with the numbers of its
  last instructions; the entries have the shape the stream manager reports.
\<close>

type_synonym status_streams = "(stream_key, stream_state_representation) dict"
type_synonym counters = "(string, (stream_key, int) dict) dict"

definition node_counters :: "counters \<Rightarrow> string \<Rightarrow> (stream_key, int) dict" where
  "node_counters c n = (case map_of c n of None \<Rightarrow> [] | Some d \<Rightarrow> d)"

text \<open>The number a pair stands at; 0 before its first instruction.\<close>

definition current :: "counters \<Rightarrow> string \<Rightarrow> stream_key \<Rightarrow> int" where
  "current c n k = (case map_of (node_counters c n) k of None \<Rightarrow> 0 | Some v \<Rightarrow> v)"

definition getAndSetIfNecessary :: "counters \<Rightarrow> string \<Rightarrow> stream_key \<Rightarrow> counters \<times> int" where
  "getAndSetIfNecessary c n k =
     (let c1 = (if has_key c n then c else AList.update n [] c);
          d1 = node_counters c1 n;
          d2 = (if has_key d1 k then d1 else AList.update k 0 d1)
      in (AList.update n d2 c1, case map_of d2 k of None \<Rightarrow> 0 | Some v \<Rightarrow> v))"

definition setOrIncrement :: "counters \<Rightarrow> string \<Rightarrow> stream_key \<Rightarrow> counters \<times> int" where
  "setOrIncrement c n k =
     (let (c1, v) = getAndSetIfNecessary c n k
      in (AList.update n (AList.update k (v + 1) (node_counters c1 n)) c1, v + 1))"

fun filterStatus :: "counters \<Rightarrow> status_streams \<Rightarrow> string \<Rightarrow> counters \<times> status_streams" where
  "filterStatus c [] source = (c, [])"
| "filterStatus c ((k, entry) # streams) source =
     (let (c1, v) = getAndSetIfNecessary c source k;
          (c2, rest) = filterStatus c1 streams source
      in (c2, if rep_counter entry \<ge> v \<or> rep_counter entry = -1 then (k, entry) # rest else rest))"

definition counter_removeNode :: "counters \<Rightarrow> string \<Rightarrow> counters" where
  "counter_removeNode c n = AList.delete n c"

definition counter_removeStream :: "counters \<Rightarrow> stream_key \<Rightarrow> counters" where
  "counter_removeStream c k = map (\<lambda>(n, d). (n, AList.delete k d)) c"

subsection \<open>Each operation on the current numbers\<close>

lemma current_getAndSetIfNecessary [simp]:
  "current (fst (getAndSetIfNecessary c n k)) n' k' = current c n' k'"
  by (auto simp: getAndSetIfNecessary_def current_def node_counters_def Let_def split: option.split)

lemma snd_getAndSetIfNecessary [simp]: "snd (getAndSetIfNecessary c n k) = current c n k"
  by (auto simp: getAndSetIfNecessary_def current_def node_counters_def Let_def split: option.split)

lemma snd_setOrIncrement [simp]: "snd (setOrIncrement c n k) = current c n k + 1"
  by (simp add: setOrIncrement_def case_prod_beta)

lemma current_setOrIncrement [simp]:
  "current (fst (setOrIncrement c n k)) n' k' = (if n' = n \<and> k' = k then current c n k + 1 else current c n' k')"
proof -
  let ?c = "fst (getAndSetIfNecessary c n k)"
  have "current (fst (setOrIncrement c n k)) n' k' =
      (if n' = n \<and> k' = k then snd (getAndSetIfNecessary c n k) + 1 else current ?c n' k')"
    by (auto simp: setOrIncrement_def case_prod_beta current_def node_counters_def split: option.split)
  then show ?thesis by simp
qed

lemma current_counter_removeNode [simp]:
  "current (counter_removeNode c n) n' k = (if n' = n then 0 else current c n' k)"
  by (simp add: counter_removeNode_def current_def node_counters_def)

lemma current_counter_removeStream [simp]:
  "current (counter_removeStream c k) n k' = (if k' = k then 0 else current c n k')"
  by (simp add: counter_removeStream_def current_def node_counters_def map_of_mapk [where f = "\<lambda>_. AList.delete k"]
      split: option.split)

lemma filterStatus_Cons:
  "filterStatus c (e # streams) source =
     (let c1 = fst (getAndSetIfNecessary c source (fst e)); r = filterStatus c1 streams source
      in (fst r, if rep_counter (snd e) \<ge> current c source (fst e) \<or> rep_counter (snd e) = -1 then e # snd r else snd r))"
  by (cases e) (simp add: case_prod_beta Let_def)

lemma current_filterStatus [simp]: "current (fst (filterStatus c streams source)) n k = current c n k"
  by (induction streams arbitrary: c) (simp_all add: filterStatus_Cons Let_def del: filterStatus.simps(2))

definition fresh_entry :: "counters \<Rightarrow> string \<Rightarrow> stream_key \<times> stream_state_representation \<Rightarrow> bool" where
  "fresh_entry c source e \<longleftrightarrow> rep_counter (snd e) \<ge> current c source (fst e) \<or> rep_counter (snd e) = -1"

lemma snd_filterStatus: "snd (filterStatus c streams source) = filter (fresh_entry c source) streams"
proof (induction streams arbitrary: c)
  case (Cons e streams)
  have "filter (fresh_entry (fst (getAndSetIfNecessary c source (fst e))) source) streams =
      filter (fresh_entry c source) streams"
    unfolding fresh_entry_def by simp
  with Cons show ?case by (simp add: filterStatus_Cons Let_def fresh_entry_def del: filterStatus.simps(2))
qed simp

text \<open>The dictionaries have one entry per key, whatever is called.\<close>

definition counters_ok :: "counters \<Rightarrow> bool" where
  "counters_ok c \<longleftrightarrow> dict_ok c \<and> dict_all (\<lambda>_. dict_ok) c"

lemma node_counters_ok: "counters_ok c \<Longrightarrow> dict_ok (node_counters c n)"
  by (auto simp: counters_ok_def node_counters_def dict_all_def split: option.split)

lemma counters_ok_update: "counters_ok c \<Longrightarrow> dict_ok d \<Longrightarrow> counters_ok (AList.update n d c)"
  by (auto simp: counters_ok_def intro!: dict_all_update)

lemma getAndSetIfNecessary_ok: "counters_ok c \<Longrightarrow> counters_ok (fst (getAndSetIfNecessary c n k))"
  by (auto simp: getAndSetIfNecessary_def Let_def intro!: counters_ok_update node_counters_ok dict_ok_update)

lemma setOrIncrement_ok: "counters_ok c \<Longrightarrow> counters_ok (fst (setOrIncrement c n k))"
  by (auto simp: setOrIncrement_def case_prod_beta
      intro!: counters_ok_update node_counters_ok dict_ok_update getAndSetIfNecessary_ok)

lemma filterStatus_ok: "counters_ok c \<Longrightarrow> counters_ok (fst (filterStatus c streams source))"
  by (induction streams arbitrary: c)
    (simp_all add: filterStatus_Cons Let_def getAndSetIfNecessary_ok del: filterStatus.simps(2))

lemma counter_removeNode_ok: "counters_ok c \<Longrightarrow> counters_ok (counter_removeNode c n)"
  by (auto simp: counters_ok_def counter_removeNode_def)

lemma counter_removeStream_ok: "counters_ok c \<Longrightarrow> counters_ok (counter_removeStream c k)"
  by (auto simp: counters_ok_def counter_removeStream_def dict_all_def comp_def case_prod_beta
      map_of_mapk [where f = "\<lambda>_. AList.delete k", simplified case_prod_beta])

subsection \<open>Runs of the counter\<close>

datatype counter_call =
    SetOrIncrement string stream_key
  | FilterStatus status_streams string
  | CounterRemoveNode string
  | CounterRemoveStream stream_key

fun counter_step :: "counters \<Rightarrow> counter_call \<Rightarrow> counters" where
  "counter_step c (SetOrIncrement n k) = fst (setOrIncrement c n k)"
| "counter_step c (FilterStatus s n) = fst (filterStatus c s n)"
| "counter_step c (CounterRemoveNode n) = counter_removeNode c n"
| "counter_step c (CounterRemoveStream k) = counter_removeStream c k"

interpretation counter: step_invariant counter_step "\<lambda>_. True" counters_ok
proof
  show "counters_ok (counter_step c e)" if "counters_ok c" for c e
    using that by (cases e) (simp_all add: setOrIncrement_ok filterStatus_ok counter_removeNode_ok counter_removeStream_ok)
qed

text \<open>The numbers handed out to a node on a stream by a run of calls.\<close>

fun handed_out :: "string \<Rightarrow> stream_key \<Rightarrow> counters \<Rightarrow> counter_call list \<Rightarrow> int list" where
  "handed_out n k c [] = []"
| "handed_out n k c (e # es) =
     (if e = SetOrIncrement n k then [snd (setOrIncrement c n k)] else []) @ handed_out n k (counter_step c e) es"

definition forgets :: "string \<Rightarrow> stream_key \<Rightarrow> counter_call \<Rightarrow> bool" where
  "forgets n k e \<longleftrightarrow> e = CounterRemoveNode n \<or> e = CounterRemoveStream k"

lemma current_step:
  "\<not> forgets n k e \<Longrightarrow> current (counter_step c e) n k = current c n k + (if e = SetOrIncrement n k then 1 else 0)"
  by (cases e) (auto simp: forgets_def)

lemma handed_out_consecutive:
  "\<forall>e \<in> set es. \<not> forgets n k e \<Longrightarrow>
   handed_out n k c es = map (\<lambda>i. current c n k + 1 + int i) [0..<length (handed_out n k c es)]"
proof (induction es arbitrary: c)
  case (Cons e es)
  let ?out = "handed_out n k (counter_step c e) es"
  have IH: "?out = map (\<lambda>i. current (counter_step c e) n k + 1 + int i) [0..<length ?out]"
    using Cons by auto
  show ?case
  proof (cases "e = SetOrIncrement n k")
    case True
    have "map (\<lambda>i. current c n k + 1 + int i) [0..<Suc (length ?out)] =
        (current c n k + 1) # map (\<lambda>i. current c n k + 1 + int (Suc i)) [0..<length ?out]"
      by (simp only: map_upt_Suc) simp
    then show ?thesis using True IH by (simp add: algebra_simps)
  next
    case False
    then have "current (counter_step c e) n k = current c n k" using Cons.prems current_step [of n k e c] by simp
    then show ?thesis using False IH by simp
  qed
qed simp

subsection \<open>What the counter promises the tracker\<close>

text \<open>
  While neither the node nor the stream is removed, the instructions sent to a node on a
  stream are numbered consecutively from the current number, whatever happens to other nodes
  and streams and however many statuses are filtered in between.
\<close>

theorem instructions_numbered_consecutively:
  assumes "\<forall>e \<in> set es. \<not> forgets n k e"
  shows "handed_out n k c es = map (\<lambda>i. current c n k + 1 + int i) [0..<length (handed_out n k c es)]"
  by (rule handed_out_consecutive [OF assms])

theorem instructions_numbered_consecutively_witness:
  "handed_out ''n'' ''s::0'' [] [SetOrIncrement ''n'' ''s::0'', CounterRemoveNode ''m'', SetOrIncrement ''n'' ''s::0''] = [1, 2]"
proof -
  let ?es = "[SetOrIncrement ''n'' ''s::0'', CounterRemoveNode ''m'', SetOrIncrement ''n'' ''s::0'']"
  have "length (handed_out ''n'' ''s::0'' [] ?es) = 2" by simp
  moreover have "current [] ''n'' ''s::0'' = 0" by (simp add: current_def node_counters_def)
  ultimately show ?thesis
    using instructions_numbered_consecutively [of ?es "''n''" "''s::0''" "[]"]
    by (simp add: forgets_def upt_rec)
qed

text \<open>
  A status is filtered entry by entry: an entry survives exactly when it carries the
  number of the last instruction sent to that node on that stream or a later one, or -1, the
  mark of an unsubscription; the surviving entries keep their order, and no current number
  changes.
\<close>

theorem filterStatus_drops_stale_entries:
  "snd (filterStatus c streams source) =
     filter (\<lambda>(k, entry). rep_counter entry \<ge> current c source k \<or> rep_counter entry = -1) streams \<and>
   current (fst (filterStatus c streams source)) n k = current c n k"
  unfolding snd_filterStatus by (auto intro!: filter_cong simp: fresh_entry_def)

end
