(* ===== verification/OverlayTopology.thy ===== *)
theory OverlayTopology
  imports Prelude "HOL-Library.Multiset"
begin

section \<open>The overlay topology of a stream\<close>

text \<open>
  \<open>src/src/logic/OverlayTopology.ts\<close>: the tracker's undirected graph of the nodes of one
  stream, the three operations that change it (\<open>update\<close>, \<open>leave\<close>,
  \<open>formInstructions\<close>) and the readers. The two functions the constructor takes
  (\<open>shuffleArray\<close> and \<open>pickRandomElement\<close>) are parameters that thread a source of
  randomness; the locale \<open>random_choices\<close> is what the topology needs of them, and the
  defaults of the source, built on \<open>Math.random\<close>, are its interpretation. The number of
  neighbours a node may have is a natural number. A call that throws returns the error
  alone; the lemmas show that no call on a well-formed topology throws.
\<close>

type_synonym node_id = string

record overlay =
  maxNeighborsPerNode :: nat
  nodes :: "(node_id, node_id list) dict"

type_synonym instructions = "(node_id, node_id list) dict"

datatype topology_error =
    UndefinedNeighbors
  | NeighborOfItself node_id

definition new_overlay :: "nat \<Rightarrow> overlay" where
  "new_overlay k = \<lparr>maxNeighborsPerNode = k, nodes = []\<rparr>"

definition hasNode :: "overlay \<Rightarrow> node_id \<Rightarrow> bool" where
  "hasNode t n \<longleftrightarrow> has_key (nodes t) n"

definition getNeighbors :: "overlay \<Rightarrow> node_id \<Rightarrow> node_id list" where
  "getNeighbors t n = (case map_of (nodes t) n of None \<Rightarrow> [] | Some s \<Rightarrow> s)"

definition getNumberOfNodes :: "overlay \<Rightarrow> nat" where
  "getNumberOfNodes t = length (keys_of (nodes t))"

definition overlay_isEmpty :: "overlay \<Rightarrow> bool" where
  "overlay_isEmpty t \<longleftrightarrow> length (nodes t) = 0"

definition overlay_state :: "overlay \<Rightarrow> (node_id, node_id list) dict" where
  "overlay_state t = map (\<lambda>(n, s). (n, sort s)) (nodes t)"

text \<open>Mutating the set of one node: \<open>nodes[n].add(x)\<close> and \<open>nodes[n].delete(x)\<close>.\<close>

definition modify :: "node_id \<Rightarrow> (node_id list \<Rightarrow> node_id list) \<Rightarrow> (node_id, node_id list) dict \<Rightarrow> (node_id, node_id list) dict" where
  "modify n f d = (case map_of d n of None \<Rightarrow> d | Some s \<Rightarrow> AList.update n (f s) d)"

definition knownNeighbors :: "overlay \<Rightarrow> node_id \<Rightarrow> node_id list \<Rightarrow> node_id list" where
  "knownNeighbors t n ns = filter (\<lambda>m. m \<noteq> n) (filter (hasNode t) ns)"

definition update :: "overlay \<Rightarrow> node_id \<Rightarrow> node_id list \<Rightarrow> overlay" where
  "update t n ns =
     (let known = knownNeighbors t n ns;
          d1 = AList.update n (set_of known) (nodes t);
          d2 = foldl (\<lambda>d m. modify m (set_add n) d) d1 known;
          own = (case map_of d2 n of None \<Rightarrow> [] | Some s \<Rightarrow> s);
          d3 = foldl (\<lambda>d m. modify m (set_del n) d) d2 (filter (\<lambda>m. m \<notin> set own) (keys_of d2))
      in t\<lparr>nodes := d3\<rparr>)"

definition leave :: "overlay \<Rightarrow> node_id \<Rightarrow> topology_error + (overlay \<times> node_id list)" where
  "leave t n = (case map_of (nodes t) n of
       None \<Rightarrow> Inr (t, [])
     | Some s \<Rightarrow>
         if list_ex (\<lambda>m. \<not> hasNode t m) s then Inl UndefinedNeighbors
         else Inr (t\<lparr>nodes := AList.delete n (foldl (\<lambda>d m. modify m (set_del n) d) (nodes t) s)\<rparr>, s))"

definition numOfMissingNeighbors :: "overlay \<Rightarrow> node_id \<Rightarrow> int" where
  "numOfMissingNeighbors t n = int (maxNeighborsPerNode t) - int (length (getNeighbors t n))"

subsection \<open>Forming instructions\<close>

type_synonym 'r shuffler = "'r \<Rightarrow> node_id list \<Rightarrow> node_id list \<times> 'r"
type_synonym 'r picker = "'r \<Rightarrow> node_id list \<Rightarrow> node_id \<times> 'r"

text \<open>Too many neighbours: keep a random selection. The second component is \<open>updatedNodes\<close>.\<close>

definition reduceNeighbors :: "'r shuffler \<Rightarrow> 'r \<Rightarrow> overlay \<Rightarrow> node_id \<Rightarrow> overlay \<times> node_id list \<times> 'r" where
  "reduceNeighbors shuffle r t n =
     (if - numOfMissingNeighbors t n > 0 then
        (let (sh, r') = shuffle r (getNeighbors t n)
         in (update t n (take (maxNeighborsPerNode t) sh), set_add n [], r'))
      else (t, [], r))"

definition candidates :: "(node_id list \<Rightarrow> bool) \<Rightarrow> overlay \<Rightarrow> node_id \<Rightarrow> node_id list" where
  "candidates slots t n =
     map fst (filter (\<lambda>(m, _). m \<noteq> n) (filter (\<lambda>(_, s). n \<notin> set s) (filter (\<lambda>(_, s). slots s) (nodes t))))"

text \<open>Too few: link to nodes with open slots.\<close>

definition addNeighbors :: "'r shuffler \<Rightarrow> 'r \<Rightarrow> overlay \<Rightarrow> node_id \<Rightarrow> node_id list \<Rightarrow> overlay \<times> node_id list \<times> 'r" where
  "addNeighbors shuffle r t n upd =
     (if numOfMissingNeighbors t n > 0 then
        (let (sh, r') = shuffle r (candidates (\<lambda>s. length s < maxNeighborsPerNode t) t n);
             neighborsToAdd = take (nat (numOfMissingNeighbors t n)) sh
         in if length neighborsToAdd > 0
            then (update t n (getNeighbors t n @ neighborsToAdd),
                  foldl (\<lambda>u m. set_add m u) (set_add n upd) neighborsToAdd, r')
            else (t, upd, r'))
      else (t, upd, r))"

text \<open>The six mutations that put \<open>n\<close> between two linked nodes.\<close>

definition insertBetween :: "overlay \<Rightarrow> node_id \<Rightarrow> node_id \<Rightarrow> node_id \<Rightarrow> overlay" where
  "insertBetween t n n1 n2 =
     t\<lparr>nodes := modify n (set_add n2) (modify n (set_add n1) (modify n2 (set_add n) (modify n1 (set_add n)
        (modify n2 (set_del n1) (modify n1 (set_del n2) (nodes t))))))\<rparr>"

text \<open>The \<open>while\<close> loop; \<open>pop\<close> takes the last target.\<close>

function splitLinks ::
  "'r picker \<Rightarrow> 'r \<Rightarrow> overlay \<Rightarrow> node_id \<Rightarrow> node_id list \<Rightarrow> node_id list \<Rightarrow> topology_error + (overlay \<times> node_id list \<times> 'r)" where
  "splitLinks pick r t n disconnectionTargets upd =
     (if numOfMissingNeighbors t n > 1 \<and> length disconnectionTargets > 0 then
        (let n1 = last disconnectionTargets; targets = butlast disconnectionTargets in
         if list_ex (\<lambda>m. \<not> hasNode t m) (getNeighbors t n1) then Inl UndefinedNeighbors
         else
           (let n2candidates = filter (\<lambda>m. n \<notin> set (getNeighbors t m)) (getNeighbors t n1) in
            if length n2candidates > 0 then
              splitLinks pick (snd (pick r n2candidates)) (insertBetween t n n1 (fst (pick r n2candidates))) n
                (filter (\<lambda>m. m \<noteq> fst (pick r n2candidates)) targets)
                (set_add (fst (pick r n2candidates)) (set_add n1 (set_add n upd)))
            else splitLinks pick r t n targets upd))
      else Inr (t, upd, r))"
  by pat_completeness auto
termination
proof (relation "measure (\<lambda>(pick, r, t, n, ts, upd). length ts)", goal_cases)
  case (2 pick r t n ts upd n1 rest cands)
  then show ?case using length_filter_le [of "\<lambda>m. m \<noteq> fst (pick r cands)" rest] by (simp add: le_less_trans)
qed auto

declare splitLinks.simps [simp del]

definition connectBySplitting ::
  "'r shuffler \<Rightarrow> 'r picker \<Rightarrow> 'r \<Rightarrow> overlay \<Rightarrow> node_id \<Rightarrow> node_id list \<Rightarrow> topology_error + (overlay \<times> node_id list \<times> 'r)" where
  "connectBySplitting shuffle pick r t n upd =
     (if numOfMissingNeighbors t n > 1 then
        (let (sh, r') = shuffle r (candidates (\<lambda>s. length s \<ge> maxNeighborsPerNode t) t n)
         in splitLinks pick r' t n (rev sh) upd)
      else Inr (t, upd, r))"

definition formInstructions ::
  "'r shuffler \<Rightarrow> 'r picker \<Rightarrow> 'r \<Rightarrow> overlay \<Rightarrow> node_id \<Rightarrow> bool \<Rightarrow> topology_error + (overlay \<times> instructions \<times> 'r)" where
  "formInstructions shuffle pick r t n forceGenerate =
     (if \<not> hasNode t n then Inr (t, [], r)
      else
        (let (t1, upd1, r1) = reduceNeighbors shuffle r t n;
             (t2, upd2, r2) = addNeighbors shuffle r1 t1 n upd1
         in case connectBySplitting shuffle pick r2 t2 n upd2 of
              Inl e \<Rightarrow> Inl e
            | Inr (t3, upd3, r3) \<Rightarrow>
                (let upd4 = (if forceGenerate then set_add n upd3 else upd3) in
                 case find (\<lambda>m. m \<in> set (getNeighbors t3 m)) upd4 of
                   Some m \<Rightarrow> Inl (NeighborOfItself m)
                 | None \<Rightarrow> Inr (t3, map (\<lambda>m. (m, getNeighbors t3 m)) upd4, r3))))"

text \<open>The calls the tracker makes on a topology, with the source of randomness threaded.\<close>

datatype topology_call =
    Update node_id "node_id list"
  | Leave node_id
  | FormInstructions node_id bool

fun topology_step :: "'r shuffler \<Rightarrow> 'r picker \<Rightarrow> overlay \<times> 'r \<Rightarrow> topology_call \<Rightarrow> overlay \<times> 'r" where
  "topology_step shuffle pick (t, r) (Update n ns) = (update t n ns, r)"
| "topology_step shuffle pick (t, r) (Leave n) =
     (case leave t n of Inl e \<Rightarrow> (t, r) | Inr (t', _) \<Rightarrow> (t', r))"
| "topology_step shuffle pick (t, r) (FormInstructions n force) =
     (case formInstructions shuffle pick r t n force of Inl e \<Rightarrow> (t, r) | Inr (t', _, r') \<Rightarrow> (t', r'))"

subsection \<open>The default sources of randomness\<close>

text \<open>
  \<open>Math.random()\<close> draws \<open>d / 2 ^ 53\<close> for a whole number \<open>0 \<le> d < 2 ^ 53\<close>: the state holds the
  sequence of draws and how many were used. \<open>sort\<close> with a numeric comparison is stable.
\<close>

record rng =
  draws :: "nat \<Rightarrow> int"
  position :: nat

definition draws_ok :: "rng \<Rightarrow> bool" where
  "draws_ok r \<longleftrightarrow> (\<forall>i. 0 \<le> draws r i \<and> draws r i < 2 ^ 53)"

definition shuffleArray :: "rng shuffler" where
  "shuffleArray r xs =
     (map snd (sort_key fst (zip (map (\<lambda>i. draws r (position r + i)) [0..<length xs]) xs)),
      r\<lparr>position := position r + length xs\<rparr>)"

definition pickRandomElement :: "rng picker" where
  "pickRandomElement r xs =
     (xs ! nat (draws r (position r) * int (length xs) div 2 ^ 53), r\<lparr>position := position r + 1\<rparr>)"

subsection \<open>The graph\<close>

definition overlay_ok :: "overlay \<Rightarrow> bool" where
  "overlay_ok t \<longleftrightarrow> dict_ok (nodes t) \<and>
     (\<forall>(n, s) \<in> set (nodes t). distinct s \<and> n \<notin> set s \<and> (\<forall>m \<in> set s. n \<in> set (getNeighbors t m)))"

lemma getNeighbors_hasNode: "m \<in> set (getNeighbors t n) \<Longrightarrow> hasNode t n"
  by (cases "map_of (nodes t) n") (simp_all add: getNeighbors_def hasNode_def)

lemma overlay_ok_iff:
  "overlay_ok t \<longleftrightarrow> dict_ok (nodes t) \<and>
     (\<forall>n. distinct (getNeighbors t n) \<and> n \<notin> set (getNeighbors t n)
        \<and> (\<forall>m \<in> set (getNeighbors t n). n \<in> set (getNeighbors t m)))"
proof (cases "dict_ok (nodes t)")
  case True
  have "(\<forall>(n, s) \<in> set (nodes t). P n s) \<longleftrightarrow> (\<forall>n. P n (getNeighbors t n))"
    if "\<And>n. \<not> hasNode t n \<Longrightarrow> P n []" for P :: "node_id \<Rightarrow> node_id list \<Rightarrow> bool"
  proof
    assume l: "\<forall>(n, s) \<in> set (nodes t). P n s"
    show "\<forall>n. P n (getNeighbors t n)"
    proof
      fix n show "P n (getNeighbors t n)"
        using l that [of n] by (auto simp: getNeighbors_def hasNode_def split: option.split dest: map_of_SomeD)
    qed
  next
    assume r: "\<forall>n. P n (getNeighbors t n)"
    then show "\<forall>(n, s) \<in> set (nodes t). P n s"
      using True by (auto simp: getNeighbors_def) (metis map_of_eq_Some_iff option.simps(5))
  qed
  from this [of "\<lambda>n s. distinct s \<and> n \<notin> set s \<and> (\<forall>m \<in> set s. n \<in> set (getNeighbors t m))"] show ?thesis
    by (simp add: overlay_ok_def)
qed (simp add: overlay_ok_def)

lemma overlay_okD:
  assumes "overlay_ok t"
  shows "distinct (getNeighbors t n)" "n \<notin> set (getNeighbors t n)"
    "m \<in> set (getNeighbors t n) \<Longrightarrow> n \<in> set (getNeighbors t m)"
    "m \<in> set (getNeighbors t n) \<Longrightarrow> hasNode t m"
  using assms getNeighbors_hasNode by (auto simp: overlay_ok_iff) blast

lemma getNeighbors_unknown: "\<not> hasNode t n \<Longrightarrow> getNeighbors t n = []"
  by (simp add: hasNode_def getNeighbors_def)

lemma neighbor_sym: "overlay_ok t \<Longrightarrow> m \<in> set (getNeighbors t n) \<longleftrightarrow> n \<in> set (getNeighbors t m)"
  by (blast dest: overlay_okD(3))

lemma map_of_modify: "map_of (modify n f d) k = (if k = n then map_option f (map_of d n) else map_of d k)"
  by (auto simp: modify_def split: option.split)

lemma keys_modify [simp]: "fst ` set (modify n f d) = fst ` set d"
  by (auto simp: modify_def split: option.split dest: map_of_SomeD intro: rev_image_eqI)

lemma dict_ok_modify [simp]: "dict_ok d \<Longrightarrow> dict_ok (modify n f d)"
  by (auto simp: modify_def split: option.split)

lemma map_of_foldl_modify:
  assumes "\<And>s. f (f s) = f s"
  shows "map_of (foldl (\<lambda>d m. modify m f d) d ms) k = map_option (\<lambda>s. if k \<in> set ms then f s else s) (map_of d k)"
  by (induction ms arbitrary: d)
    (auto simp: map_of_modify assms option.map_comp comp_def option.map_ident intro!: option.map_cong0)

lemma dict_ok_foldl_modify [simp]: "dict_ok d \<Longrightarrow> dict_ok (foldl (\<lambda>d m. modify m f d) d ms)"
  by (induction ms arbitrary: d) auto

lemma set_add_idem [simp]: "set_add x (set_add x s) = set_add x s"
  by (simp add: set_add_def)

lemma set_del_idem [simp]: "set_del x (set_del x s) = set_del x s"
  by (simp add: set_del_def)

lemma set_del_absent [simp]: "x \<notin> set s \<Longrightarrow> set_del x s = s"
  by (auto simp: set_del_def filter_id_conv)

subsection \<open>What each operation does to the graph\<close>

lemma knownNeighbors_iff [simp]:
  "m \<in> set (knownNeighbors t n ns) \<longleftrightarrow> m \<in> set ns \<and> hasNode t m \<and> m \<noteq> n"
  by (auto simp: knownNeighbors_def)

lemma max_update [simp]: "maxNeighborsPerNode (update t n ns) = maxNeighborsPerNode t"
  by (simp add: update_def Let_def)

lemma dict_ok_update_nodes [simp]: "dict_ok (nodes t) \<Longrightarrow> dict_ok (nodes (update t n ns))"
  by (simp add: update_def Let_def)

lemma map_of_update_nodes:
  "map_of (nodes (update t n ns)) k =
     (if k = n then Some (set_of (knownNeighbors t n ns))
      else map_option (\<lambda>s. if k \<in> set (knownNeighbors t n ns) then set_add n s else set_del n s) (map_of (nodes t) k))"
proof -
  let ?known = "knownNeighbors t n ns"
  define d1 where "d1 = AList.update n (set_of ?known) (nodes t)"
  define d2 where "d2 = foldl (\<lambda>d m. modify m (set_add n) d) d1 ?known"
  have d2: "map_of d2 k = map_option (\<lambda>s. if k \<in> set ?known then set_add n s else s) (map_of d1 k)" for k
    unfolding d2_def by (rule map_of_foldl_modify) simp
  have own: "map_of d2 n = Some (set_of ?known)" by (simp add: d2 d1_def)
  have keys: "k \<in> set (keys_of d2)" if "map_of d2 k = Some s" for k s
    using that by (metis has_key_iff option.distinct(1))
  have "nodes (update t n ns) = foldl (\<lambda>d m. modify m (set_del n) d) d2
      (filter (\<lambda>m. m \<notin> set (set_of ?known)) (keys_of d2))"
    using own by (simp add: update_def Let_def d1_def d2_def)
  then have "map_of (nodes (update t n ns)) k = map_option (\<lambda>s. if k \<in> set (keys_of d2) \<and> k \<notin> set ?known then set_del n s else s) (map_of d2 k)"
    by (simp add: map_of_foldl_modify)
  also have "\<dots> = map_option (\<lambda>s. if k \<notin> set ?known then set_del n s else s) (map_of d2 k)"
    by (rule option.map_cong0) (use keys in \<open>auto split: option.splits\<close>)
  finally show ?thesis
    by (auto simp: d2 d1_def option.map_comp comp_def intro!: option.map_cong0)
qed

lemma hasNode_update [simp]: "hasNode (update t n ns) k \<longleftrightarrow> k = n \<or> hasNode t k"
  by (simp add: hasNode_def map_of_update_nodes)

lemma getNeighbors_update:
  "getNeighbors (update t n ns) k =
     (if k = n then set_of (knownNeighbors t n ns)
      else if k \<in> set (knownNeighbors t n ns) then set_add n (getNeighbors t k)
      else set_del n (getNeighbors t k))"
  by (auto simp: getNeighbors_def map_of_update_nodes hasNode_def set_del_def split: option.split)

lemma overlay_ok_update:
  assumes "overlay_ok t"
  shows "overlay_ok (update t n ns)"
  using assms by (auto simp: overlay_ok_iff getNeighbors_update)

lemma hasNode_getNeighbors_Some: "map_of (nodes t) n = Some s \<Longrightarrow> getNeighbors t n = s"
  by (simp add: getNeighbors_def)

lemma leave_ok:
  assumes "overlay_ok t"
  shows "\<exists>t'. leave t n = Inr (t', getNeighbors t n) \<and> overlay_ok t' \<and>
    maxNeighborsPerNode t' = maxNeighborsPerNode t \<and>
    (\<forall>k. hasNode t' k \<longleftrightarrow> k \<noteq> n \<and> hasNode t k) \<and>
    (\<forall>k. getNeighbors t' k = (if k = n then [] else set_del n (getNeighbors t k)))"
proof (cases "map_of (nodes t) n")
  case None
  then have "n \<notin> set (getNeighbors t k)" for k
    using overlay_okD(4) [OF assms, of n k] by (auto simp: hasNode_def)
  with None assms show ?thesis
    by (auto simp: leave_def hasNode_def getNeighbors_def)
next
  case (Some s)
  then have s: "getNeighbors t n = s" by (simp add: getNeighbors_def)
  define t' where "t' = t\<lparr>nodes := AList.delete n (foldl (\<lambda>d m. modify m (set_del n) d) (nodes t) s)\<rparr>"
  have "\<not> list_ex (\<lambda>m. \<not> hasNode t m) s"
    using overlay_okD(4) [OF assms, of _ n] s by (auto simp: list_ex_iff)
  then have leave: "leave t n = Inr (t', s)" using Some by (simp add: leave_def t'_def)
  have m: "map_of (nodes t') k = (if k = n then None
      else map_option (\<lambda>u. if k \<in> set s then set_del n u else u) (map_of (nodes t) k))" for k
    by (simp add: t'_def map_of_foldl_modify)
  have nb: "getNeighbors t' k = (if k = n then [] else set_del n (getNeighbors t k))" for k
  proof (cases "k \<in> set s \<or> k = n")
    case False
    then have "n \<notin> set (getNeighbors t k)" using overlay_okD(3) [OF assms, of n k] s by auto
    with False show ?thesis by (auto simp: getNeighbors_def m option.map_ident split: option.split)
  qed (auto simp: getNeighbors_def m set_del_def split: option.split)
  have has: "hasNode t' k \<longleftrightarrow> k \<noteq> n \<and> hasNode t k" for k
    by (simp add: hasNode_def m)
  have "overlay_ok t'"
    using assms nb by (auto simp: overlay_ok_iff t'_def)
  with leave s nb has show ?thesis by (auto simp: t'_def)
qed

lemma insertBetween_neighbors:
  assumes "overlay_ok t" "hasNode t n" "n \<noteq> n1" "n \<noteq> n2" "n1 \<noteq> n2" "hasNode t n1" "hasNode t n2"
  shows "getNeighbors (insertBetween t n n1 n2) k =
    (if k = n then set_add n2 (set_add n1 (getNeighbors t n))
     else if k = n1 then set_add n (set_del n2 (getNeighbors t n1))
     else if k = n2 then set_add n (set_del n1 (getNeighbors t n2))
     else getNeighbors t k)"
  using assms by (auto simp: insertBetween_def getNeighbors_def hasNode_def map_of_modify)

lemma hasNode_insertBetween [simp]: "hasNode (insertBetween t n n1 n2) k \<longleftrightarrow> hasNode t k"
  by (auto simp: insertBetween_def hasNode_def map_of_modify)

lemma max_insertBetween [simp]: "maxNeighborsPerNode (insertBetween t n n1 n2) = maxNeighborsPerNode t"
  by (simp add: insertBetween_def)

lemma overlay_ok_insertBetween:
  assumes ok: "overlay_ok t" and has: "hasNode t n" "hasNode t n1" and ne: "n1 \<noteq> n"
    and n2: "n2 \<in> set (getNeighbors t n1)" "n \<notin> set (getNeighbors t n2)" and n1: "n \<notin> set (getNeighbors t n1)"
  shows "overlay_ok (insertBetween t n n1 n2)"
proof -
  have d: "n1 \<noteq> n2" "n \<noteq> n2" "hasNode t n2"
    using overlay_okD [OF ok] n2 n1 by auto
  have dict: "dict_ok (nodes (insertBetween t n n1 n2))"
    using ok by (simp add: insertBetween_def overlay_ok_iff)
  note nb = insertBetween_neighbors [OF ok has(1) ne [symmetric] d(2,1) has(2) d(3)]
  show ?thesis
    unfolding overlay_ok_iff
    using dict d ne overlay_okD(1-3) [OF ok] n1 n2 by (auto simp: nb)
qed

lemma length_insertBetween:
  assumes ok: "overlay_ok t" and has: "hasNode t n" "hasNode t n1" and ne: "n1 \<noteq> n"
    and n2: "n2 \<in> set (getNeighbors t n1)" "n \<notin> set (getNeighbors t n2)" and n1: "n \<notin> set (getNeighbors t n1)"
  shows "length (getNeighbors (insertBetween t n n1 n2) k) =
    (if k = n then length (getNeighbors t n) + 2 else length (getNeighbors t k))"
proof -
  have d: "n1 \<noteq> n2" "n \<noteq> n2" "hasNode t n2" "n1 \<in> set (getNeighbors t n2)"
    using overlay_okD [OF ok] n2 n1 by auto
  have fresh: "n1 \<notin> set (getNeighbors t n)" "n2 \<notin> set (getNeighbors t n)"
    using overlay_okD(3) [OF ok] n1 n2 by auto
  have pos: "length (getNeighbors t n1) > 0" "length (getNeighbors t n2) > 0"
    using n2 d(4) by (auto simp: length_pos_if_in_set)
  note nb = insertBetween_neighbors [OF ok has(1) ne [symmetric] d(2,1) has(2) d(3)]
  show ?thesis
    using d ne fresh n1 n2 pos overlay_okD(1) [OF ok]
    by (auto simp: nb length_set_add length_set_del)
qed

lemma entry_iff:
  assumes "overlay_ok t"
  shows "(m, s) \<in> set (nodes t) \<longleftrightarrow> hasNode t m \<and> s = getNeighbors t m"
proof -
  have "dict_ok (nodes t)" using assms by (simp add: overlay_ok_def)
  then have "(m, s) \<in> set (nodes t) \<longleftrightarrow> map_of (nodes t) m = Some s" by simp
  then show ?thesis by (auto simp: hasNode_def getNeighbors_def)
qed

lemma candidates_iff:
  assumes "overlay_ok t"
  shows "m \<in> set (candidates slots t n) \<longleftrightarrow>
      hasNode t m \<and> m \<noteq> n \<and> m \<notin> set (getNeighbors t n) \<and> slots (getNeighbors t m)"
proof -
  have "m \<in> set (candidates slots t n) \<longleftrightarrow> (\<exists>s. (m, s) \<in> set (nodes t) \<and> slots s \<and> n \<notin> set s \<and> m \<noteq> n)"
    unfolding candidates_def by auto (metis (mono_tags, lifting) case_prod_conv fst_conv image_eqI mem_Collect_eq)
  also have "\<dots> \<longleftrightarrow> hasNode t m \<and> m \<noteq> n \<and> n \<notin> set (getNeighbors t m) \<and> slots (getNeighbors t m)"
    by (auto simp: entry_iff [OF assms])
  finally show ?thesis
    using overlay_okD(3) [OF assms] by blast
qed

lemma distinct_candidates:
  assumes "overlay_ok t"
  shows "distinct (candidates slots t n)"
proof -
  have "dict_ok (nodes t)" using assms by (simp add: overlay_ok_def)
  then show ?thesis by (simp add: candidates_def distinct_map_filter)
qed

text \<open>Replacing the neighbours of a node by a list of known nodes.\<close>

lemma update_exact:
  "distinct ns \<Longrightarrow> \<forall>m \<in> set ns. hasNode t m \<and> m \<noteq> n \<Longrightarrow> getNeighbors (update t n ns) n = ns"
  by (simp add: getNeighbors_update knownNeighbors_def filter_True set_of_distinct)

lemma update_other:
  assumes "overlay_ok t" "k \<noteq> n"
  shows "getNeighbors (update t n ns) k =
    (if k \<in> set ns \<and> hasNode t k then (if k \<in> set (getNeighbors t n) then getNeighbors t k else getNeighbors t k @ [n])
     else set_del n (getNeighbors t k))"
  using assms overlay_okD(3) [OF assms(1)] by (auto simp: getNeighbors_update set_add_def)

text \<open>
  What splitting links for \<open>n\<close> may do: \<open>n\<close> only gains neighbours, within its
  bound, every other node keeps its number of neighbours, and only updated nodes change.
\<close>

definition rewired :: "overlay \<Rightarrow> overlay \<Rightarrow> node_id \<Rightarrow> node_id list \<Rightarrow> node_id list \<Rightarrow> bool" where
  "rewired t t' n upd upd' \<longleftrightarrow> overlay_ok t' \<and> maxNeighborsPerNode t' = maxNeighborsPerNode t \<and>
     (\<forall>k. hasNode t' k \<longleftrightarrow> hasNode t k) \<and> length (getNeighbors t' n) \<le> maxNeighborsPerNode t \<and>
     set (getNeighbors t n) \<subseteq> set (getNeighbors t' n) \<and>
     (\<forall>k. k \<noteq> n \<longrightarrow> length (getNeighbors t' k) = length (getNeighbors t k)) \<and>
     set upd \<subseteq> set upd' \<and> (distinct upd \<longrightarrow> distinct upd') \<and>
     (\<forall>k \<in> set upd'. k \<in> set upd \<or> hasNode t k) \<and>
     (\<forall>k. k \<notin> set upd' \<longrightarrow> getNeighbors t' k = getNeighbors t k)"

lemma rewired_refl: "overlay_ok t \<Longrightarrow> length (getNeighbors t n) \<le> maxNeighborsPerNode t \<Longrightarrow> rewired t t n upd upd"
  by (simp add: rewired_def)

lemma rewired_trans: "rewired t t1 n upd upd1 \<Longrightarrow> rewired t1 t2 n upd1 upd2 \<Longrightarrow> rewired t t2 n upd upd2"
  unfolding rewired_def by auto

text \<open>
  \<open>n\<close> cannot be linked any further by splitting: every node that is neither its
  neighbour nor still a target has only neighbours of \<open>n\<close> as neighbours.
\<close>

definition blocked :: "overlay \<Rightarrow> node_id \<Rightarrow> node_id list \<Rightarrow> bool" where
  "blocked t n ts \<longleftrightarrow> (\<forall>m. hasNode t m \<and> m \<noteq> n \<and> m \<notin> set (getNeighbors t n) \<and> m \<notin> set ts \<longrightarrow>
     set (getNeighbors t m) \<subseteq> set (getNeighbors t n))"

text \<open>
  The contract of \<open>formInstructions\<close>. The graph stays well formed over the same nodes;
  the node ends within its bound and no other node is pushed over it; an instruction names a
  known node and carries exactly its neighbours; and a node without an instruction has the
  neighbours it had, except that \<open>n\<close> may have left them.
\<close>

definition instructions_ok :: "overlay \<Rightarrow> node_id \<Rightarrow> overlay \<Rightarrow> instructions \<Rightarrow> bool" where
  "instructions_ok t n t' ins \<longleftrightarrow> overlay_ok t' \<and> maxNeighborsPerNode t' = maxNeighborsPerNode t \<and>
     (\<forall>k. hasNode t' k \<longleftrightarrow> hasNode t k) \<and>
     length (getNeighbors t' n) \<le> maxNeighborsPerNode t \<and>
     (\<forall>k. length (getNeighbors t' k) \<le> max (maxNeighborsPerNode t) (length (getNeighbors t k))) \<and>
     (\<forall>k s. (k, s) \<in> set ins \<longrightarrow> hasNode t k \<and> s = getNeighbors t' k) \<and>
     (\<forall>k. k \<notin> set (map fst ins) \<longrightarrow>
        getNeighbors t' k = getNeighbors t k \<or> (k \<noteq> n \<and> getNeighbors t' k = set_del n (getNeighbors t k))) \<and>
     (length (getNeighbors t n) \<le> maxNeighborsPerNode t \<longrightarrow> set (getNeighbors t n) \<subseteq> set (getNeighbors t' n))"

text \<open>No slot is left free that could be filled: first by open nodes, then by splitting links.\<close>

definition saturated :: "overlay \<Rightarrow> node_id \<Rightarrow> bool" where
  "saturated t n \<longleftrightarrow>
     (length (getNeighbors t n) < maxNeighborsPerNode t \<longrightarrow>
        (\<forall>m. hasNode t m \<and> m \<noteq> n \<and> m \<notin> set (getNeighbors t n) \<longrightarrow> maxNeighborsPerNode t \<le> length (getNeighbors t m))) \<and>
     (length (getNeighbors t n) + 1 < maxNeighborsPerNode t \<longrightarrow> blocked t n [])"

subsection \<open>Random choices\<close>

text \<open>
  What the topology needs of the two functions: a shuffle permutes, a pick is an element
  of a non-empty list, and both leave the source of randomness usable.
\<close>

locale random_choices =
  fixes shuffle :: "'r shuffler"
    and pick :: "'r picker"
    and usable :: "'r \<Rightarrow> bool"
  assumes shuffle_perm: "usable r \<Longrightarrow> mset (fst (shuffle r xs)) = mset xs"
    and shuffle_usable: "usable r \<Longrightarrow> usable (snd (shuffle r xs))"
    and pick_member: "usable r \<Longrightarrow> xs \<noteq> [] \<Longrightarrow> fst (pick r xs) \<in> set xs"
    and pick_usable: "usable r \<Longrightarrow> usable (snd (pick r xs))"
begin

lemma shuffle_facts:
  assumes "usable r"
  shows "set (fst (shuffle r xs)) = set xs" "distinct (fst (shuffle r xs)) = distinct xs"
    "length (fst (shuffle r xs)) = length xs"
  using shuffle_perm [OF assms, of xs]
  by (metis mset_eq_setD, metis mset_eq_imp_distinct_iff, metis size_mset)

text \<open>The loop that splits links.\<close>

lemma splitLinks_ok:
  "overlay_ok t \<Longrightarrow> hasNode t n \<Longrightarrow> usable r \<Longrightarrow> distinct ts \<Longrightarrow>
   \<forall>m \<in> set ts. hasNode t m \<and> m \<noteq> n \<and> m \<notin> set (getNeighbors t n) \<Longrightarrow>
   length (getNeighbors t n) \<le> maxNeighborsPerNode t \<Longrightarrow>
   \<exists>t' upd' r'. splitLinks pick r t n ts upd = Inr (t', upd', r') \<and> usable r' \<and> rewired t t' n upd upd' \<and>
     (blocked t n ts \<longrightarrow> length (getNeighbors t' n) + 1 < maxNeighborsPerNode t \<longrightarrow> blocked t' n [])"
proof (induction "length ts" arbitrary: r t ts upd rule: less_induct)
  case less
  note ok = less.prems(1) and has = less.prems(2) and us = less.prems(3) and dist = less.prems(4)
    and tgt = less.prems(5) and len = less.prems(6)
  show ?case
  proof (cases "numOfMissingNeighbors t n > 1 \<and> ts \<noteq> []")
    case False
    then show ?thesis
      using us by (intro exI [of _ t] exI [of _ upd] exI [of _ r])
        (auto simp: splitLinks.simps [of pick r t n ts upd] rewired_refl [OF ok len] numOfMissingNeighbors_def)
  next
    case True
    define n1 where "n1 = last ts"
    define rest where "rest = butlast ts"
    define cands where "cands = filter (\<lambda>m. n \<notin> set (getNeighbors t m)) (getNeighbors t n1)"
    have ts: "ts = rest @ [n1]" using True by (simp add: n1_def rest_def)
    have n1: "hasNode t n1" "n1 \<noteq> n" "n \<notin> set (getNeighbors t n1)" "n1 \<notin> set rest" "distinct rest"
      using tgt dist overlay_okD(3) [OF ok] by (auto simp: ts)
    have known: "\<not> list_ex (\<lambda>m. \<not> hasNode t m) (getNeighbors t n1)"
      using overlay_okD(4) [OF ok] by (auto simp: list_ex_iff)
    have shorter: "length rest < length ts" by (simp add: ts)
    show ?thesis
    proof (cases "cands = []")
      case True': True
      have "splitLinks pick r t n ts upd = splitLinks pick r t n rest upd"
        using True True' known
        by (simp add: splitLinks.simps [of pick r t n ts upd] Let_def cands_def n1_def rest_def)
      moreover have "set (getNeighbors t n1) \<subseteq> set (getNeighbors t n)"
        using True' overlay_okD(3) [OF ok] by (auto simp: cands_def filter_empty_conv)
      then have "blocked t n rest" if "blocked t n ts"
        using that unfolding blocked_def ts by (metis Un_iff set_append set_ConsD set_simps(1) empty_iff)
      ultimately show ?thesis
        using less.hyps [OF shorter ok has us n1(5) _ len, of upd] tgt by (auto simp: ts)
    next
      case False
      define n2 where "n2 = fst (pick r cands)"
      define t1 where "t1 = insertBetween t n n1 n2"
      define upd1 where "upd1 = set_add n2 (set_add n1 (set_add n upd))"
      define ts1 where "ts1 = filter (\<lambda>m. m \<noteq> n2) rest"
      have step: "splitLinks pick r t n ts upd = splitLinks pick (snd (pick r cands)) t1 n ts1 upd1"
        using True False known
        by (simp add: splitLinks.simps [of pick r t n ts upd] Let_def cands_def n1_def rest_def
            t1_def n2_def ts1_def upd1_def)
      have "n2 \<in> set cands" unfolding n2_def by (rule pick_member [OF us False])
      then have n2: "n2 \<in> set (getNeighbors t n1)" "n \<notin> set (getNeighbors t n2)"
        by (auto simp: cands_def)
      have d: "n \<noteq> n2" "n1 \<noteq> n2" "hasNode t n2" using overlay_okD [OF ok] n2 n1 by auto
      note nb = insertBetween_neighbors [OF ok has n1(2) [symmetric] d(1,2) n1(1) d(3)]
      note ln = length_insertBetween [OF ok has n1(1,2) n2 n1(3)]
      have room: "length (getNeighbors t n) + 2 \<le> maxNeighborsPerNode t"
        using True by (simp add: numOfMissingNeighbors_def)
      have rw: "rewired t t1 n upd upd1"
        unfolding rewired_def
      proof (intro conjI)
        show "set (getNeighbors t n) \<subseteq> set (getNeighbors t1 n)"
          by (auto simp: t1_def nb)
        show "\<forall>k. k \<notin> set upd1 \<longrightarrow> getNeighbors t1 k = getNeighbors t k"
          by (simp add: t1_def upd1_def nb)
      qed (use overlay_ok_insertBetween [OF ok has n1(1,2) n2 n1(3)] room in
          \<open>auto simp: t1_def upd1_def ln has n1 d\<close>)
      have tgt1: "\<forall>m \<in> set ts1. hasNode t1 m \<and> m \<noteq> n \<and> m \<notin> set (getNeighbors t1 n)"
        using tgt n1(4) by (auto simp: ts1_def ts t1_def nb)
      have "length ts1 < length ts"
        unfolding ts1_def by (rule le_less_trans [OF length_filter_le shorter])
      from less.hyps [OF this, of t1 "snd (pick r cands)" upd1] obtain t' upd' r' where
        "splitLinks pick (snd (pick r cands)) t1 n ts1 upd1 = Inr (t', upd', r')" "usable r'"
        "rewired t1 t' n upd1 upd'"
        "blocked t1 n ts1 \<longrightarrow> length (getNeighbors t' n) + 1 < maxNeighborsPerNode t1 \<longrightarrow> blocked t' n []"
        using rw has pick_usable [OF us] n1(5) tgt1 by (auto simp: rewired_def ts1_def)
      moreover have "blocked t1 n ts1" if "blocked t n ts"
        using that unfolding blocked_def
        by (auto simp: t1_def nb ts1_def ts)
      ultimately show ?thesis
        using step rewired_trans [OF rw] by (auto simp: t1_def)
    qed
  qed
qed

text \<open>The three phases of \<open>formInstructions\<close>.\<close>

lemma reduceNeighbors_ok:
  assumes ok: "overlay_ok t" and has: "hasNode t n" and us: "usable r"
  obtains t1 upd1 r1 where "reduceNeighbors shuffle r t n = (t1, upd1, r1)" "usable r1" "overlay_ok t1"
    "maxNeighborsPerNode t1 = maxNeighborsPerNode t" "\<And>k. hasNode t1 k \<longleftrightarrow> hasNode t k"
    "length (getNeighbors t1 n) = min (maxNeighborsPerNode t) (length (getNeighbors t n))"
    "\<And>k. k \<noteq> n \<Longrightarrow> getNeighbors t1 k = (if k \<in> set (getNeighbors t n) \<and> k \<notin> set (getNeighbors t1 n)
       then set_del n (getNeighbors t k) else getNeighbors t k)"
    "length (getNeighbors t n) \<le> maxNeighborsPerNode t \<Longrightarrow> t1 = t"
    "t1 \<noteq> t \<Longrightarrow> n \<in> set upd1" "distinct upd1" "set upd1 \<subseteq> {n}"
proof (cases "length (getNeighbors t n) \<le> maxNeighborsPerNode t")
  case True
  then have "reduceNeighbors shuffle r t n = (t, [], r)"
    by (simp add: reduceNeighbors_def numOfMissingNeighbors_def)
  with True ok us show ?thesis using that [of t "[]" r] by simp
next
  case False
  define sh where "sh = take (maxNeighborsPerNode t) (fst (shuffle r (getNeighbors t n)))"
  have sub: "set sh \<subseteq> set (getNeighbors t n)" "distinct sh"
    using shuffle_facts [OF us, of "getNeighbors t n"] overlay_okD(1) [OF ok] set_take_subset
    by (fastforce simp: sh_def)+
  have len: "length sh = maxNeighborsPerNode t"
    using False shuffle_facts(3) [OF us] by (simp add: sh_def)
  have own: "getNeighbors (update t n sh) n = sh"
    by (rule update_exact) (use sub overlay_okD(2,4) [OF ok] in \<open>fastforce+\<close>)
  have other: "getNeighbors (update t n sh) k = (if k \<in> set (getNeighbors t n) \<and> k \<notin> set sh
      then set_del n (getNeighbors t k) else getNeighbors t k)" if "k \<noteq> n" for k
    using sub overlay_okD(4) [OF ok] neighbor_sym [OF ok, of n k] by (auto simp: update_other [OF ok that])
  have "reduceNeighbors shuffle r t n = (update t n sh, set_add n [], snd (shuffle r (getNeighbors t n)))"
    using False by (simp add: reduceNeighbors_def numOfMissingNeighbors_def case_prod_beta sh_def)
  with False own other len show ?thesis
    using that [of "update t n sh" "set_add n []"] shuffle_usable [OF us] overlay_ok_update [OF ok] has by auto
qed

lemma addNeighbors_ok:
  assumes ok: "overlay_ok t" and has: "hasNode t n" and us: "usable r"
    and len: "length (getNeighbors t n) \<le> maxNeighborsPerNode t"
  obtains t1 upd1 r1 where "addNeighbors shuffle r t n upd = (t1, upd1, r1)" "usable r1" "overlay_ok t1"
    "maxNeighborsPerNode t1 = maxNeighborsPerNode t" "\<And>k. hasNode t1 k \<longleftrightarrow> hasNode t k"
    "length (getNeighbors t1 n) \<le> maxNeighborsPerNode t"
    "set (getNeighbors t n) \<subseteq> set (getNeighbors t1 n)"
    "\<And>k. k \<noteq> n \<Longrightarrow> length (getNeighbors t1 k) \<le> max (maxNeighborsPerNode t) (length (getNeighbors t k))"
    "\<And>k. k \<notin> set upd1 \<Longrightarrow> getNeighbors t1 k = getNeighbors t k"
    "set upd \<subseteq> set upd1" "distinct upd \<Longrightarrow> distinct upd1" "\<forall>k \<in> set upd1. k \<in> set upd \<or> hasNode t k"
    "\<And>m. length (getNeighbors t1 n) < maxNeighborsPerNode t \<Longrightarrow> hasNode t m \<Longrightarrow> m \<noteq> n \<Longrightarrow>
       m \<notin> set (getNeighbors t1 n) \<Longrightarrow> maxNeighborsPerNode t \<le> length (getNeighbors t1 m)"
proof -
  let ?max = "maxNeighborsPerNode t"
  let ?c = "candidates (\<lambda>s. length s < ?max) t n"
  define add where "add = take (nat (numOfMissingNeighbors t n)) (fst (shuffle r ?c))"
  have sh: "set (fst (shuffle r ?c)) = set ?c" "distinct (fst (shuffle r ?c))"
    using shuffle_facts [OF us, of ?c] distinct_candidates [OF ok] by auto
  have missing: "nat (numOfMissingNeighbors t n) = ?max - length (getNeighbors t n)"
    by (auto simp: numOfMissingNeighbors_def)
  have add: "set add \<subseteq> set ?c" "distinct add" "length add \<le> ?max - length (getNeighbors t n)"
    using sh set_take_subset by (fastforce simp: add_def missing)+
  have all: "m \<in> set add" if "length (getNeighbors t n) + length add < ?max" "m \<in> set ?c" for m
  proof -
    have "length (fst (shuffle r ?c)) \<le> nat (numOfMissingNeighbors t n)"
      using that(1) by (auto simp: add_def missing min_def split: if_splits)
    then have "add = fst (shuffle r ?c)" by (simp add: add_def)
    with that(2) sh show ?thesis by simp
  qed
  show ?thesis
  proof (cases "length (getNeighbors t n) < ?max \<and> add \<noteq> []")
    case False
    then have "\<exists>r1. addNeighbors shuffle r t n upd = (t, upd, r1) \<and> usable r1"
      using us shuffle_usable [OF us]
      by (auto simp: addNeighbors_def numOfMissingNeighbors_def case_prod_beta add_def Let_def)
    then obtain r1 where "addNeighbors shuffle r t n upd = (t, upd, r1)" "usable r1" by blast
    moreover have "?max \<le> length (getNeighbors t m)" if "length (getNeighbors t n) < ?max" "hasNode t m" "m \<noteq> n"
      "m \<notin> set (getNeighbors t n)" for m
    proof (rule ccontr)
      assume "\<not> ?thesis"
      with that have "m \<in> set ?c" by (simp add: candidates_iff [OF ok])
      with False that(1) all [of m] show False by simp
    qed
    ultimately show ?thesis using that [of t upd r1] ok len by auto
  next
    case True
    define t1 where "t1 = update t n (getNeighbors t n @ add)"
    define upd1 where "upd1 = foldl (\<lambda>u m. set_add m u) (set_add n upd) add"
    have cand: "hasNode t m \<and> m \<noteq> n \<and> m \<notin> set (getNeighbors t n) \<and> length (getNeighbors t m) < ?max"
      if "m \<in> set add" for m
      using subsetD [OF add(1) that] by (simp add: candidates_iff [OF ok])
    have own: "getNeighbors t1 n = getNeighbors t n @ add"
      unfolding t1_def
    proof (rule update_exact)
      show "distinct (getNeighbors t n @ add)" using add(2) cand overlay_okD(1) [OF ok] by auto
      show "\<forall>m \<in> set (getNeighbors t n @ add). hasNode t m \<and> m \<noteq> n"
        using cand overlay_okD(2,4) [OF ok] by auto
    qed
    have other: "getNeighbors t1 k = (if k \<in> set add then getNeighbors t k @ [n] else getNeighbors t k)" if "k \<noteq> n" for k
      using cand overlay_okD(4) [OF ok] neighbor_sym [OF ok, of n k]
      by (auto simp: t1_def update_other [OF ok that])
    have upd1: "set upd1 = insert n (set upd) \<union> set add" "distinct upd \<Longrightarrow> distinct upd1"
      by (simp_all add: upd1_def foldl_set_add distinct_foldl_set_add)
    have total: "length (getNeighbors t1 n) \<le> ?max" using add(3) len by (simp add: own)
    have eq: "addNeighbors shuffle r t n upd = (t1, upd1, snd (shuffle r ?c))"
      using True by (simp add: addNeighbors_def numOfMissingNeighbors_def case_prod_beta add_def Let_def t1_def upd1_def)
    show ?thesis
    proof (rule that [OF eq])
      show "length (getNeighbors t1 k) \<le> max ?max (length (getNeighbors t k))" if "k \<noteq> n" for k
        using cand [of k] other [OF that] by auto
      show "getNeighbors t1 k = getNeighbors t k" if "k \<notin> set upd1" for k
        using that other [of k] upd1 by auto
      show "?max \<le> length (getNeighbors t1 m)" if "length (getNeighbors t1 n) < ?max" "hasNode t m" "m \<noteq> n"
        "m \<notin> set (getNeighbors t1 n)" for m
      proof (rule ccontr)
        assume "\<not> ?thesis"
        with that have "m \<in> set ?c" using other [of m] by (auto simp: own candidates_iff [OF ok])
        with that all [of m] show False by (auto simp: own)
      qed
    qed (use shuffle_usable [OF us] overlay_ok_update [OF ok] total own upd1 has cand in
        \<open>auto simp: t1_def\<close>)
  qed
qed

lemma connectBySplitting_ok:
  assumes ok: "overlay_ok t" and has: "hasNode t n" and us: "usable r"
    and len: "length (getNeighbors t n) \<le> maxNeighborsPerNode t"
    and full: "\<And>m. length (getNeighbors t n) < maxNeighborsPerNode t \<Longrightarrow> hasNode t m \<Longrightarrow> m \<noteq> n \<Longrightarrow>
       m \<notin> set (getNeighbors t n) \<Longrightarrow> maxNeighborsPerNode t \<le> length (getNeighbors t m)"
  shows "\<exists>t' upd' r'. connectBySplitting shuffle pick r t n upd = Inr (t', upd', r') \<and> usable r' \<and>
    rewired t t' n upd upd' \<and> (length (getNeighbors t' n) + 1 < maxNeighborsPerNode t \<longrightarrow> blocked t' n [])"
proof (cases "numOfMissingNeighbors t n > 1")
  case False
  then show ?thesis
    using us rewired_refl [OF ok len] by (auto simp: connectBySplitting_def numOfMissingNeighbors_def)
next
  case True
  let ?c = "candidates (\<lambda>s. maxNeighborsPerNode t \<le> length s) t n"
  have "blocked t n (rev (fst (shuffle r ?c)))"
    using full True by (auto simp: blocked_def numOfMissingNeighbors_def shuffle_facts(1) [OF us] candidates_iff [OF ok])
  then show ?thesis
    using True splitLinks_ok [OF ok has shuffle_usable [OF us, of ?c], of "rev (fst (shuffle r ?c))" upd] len
      shuffle_facts [OF us, of ?c] distinct_candidates [OF ok]
    by (auto simp: connectBySplitting_def case_prod_beta candidates_iff [OF ok])
qed

lemma formInstructions_ok:
  assumes ok: "overlay_ok t" and us: "usable r"
  obtains t' ins r' where "formInstructions shuffle pick r t n force = Inr (t', ins, r')" "usable r'"
    "instructions_ok t n t' ins" "distinct (map fst ins)" "force \<Longrightarrow> hasNode t n \<Longrightarrow> n \<in> set (map fst ins)"
    "hasNode t n \<Longrightarrow> saturated t' n"
proof (cases "hasNode t n")
  case False
  then show ?thesis
    using that [of t "[]" r] ok us by (simp add: formInstructions_def instructions_ok_def getNeighbors_unknown)
next
  case True
  let ?max = "maxNeighborsPerNode t"
  obtain t1 upd1 r1 where 1: "reduceNeighbors shuffle r t n = (t1, upd1, r1)" "usable r1" "overlay_ok t1"
    "maxNeighborsPerNode t1 = ?max" "\<And>k. hasNode t1 k \<longleftrightarrow> hasNode t k"
    "length (getNeighbors t1 n) = min ?max (length (getNeighbors t n))"
    "\<And>k. k \<noteq> n \<Longrightarrow> getNeighbors t1 k = (if k \<in> set (getNeighbors t n) \<and> k \<notin> set (getNeighbors t1 n)
       then set_del n (getNeighbors t k) else getNeighbors t k)"
    "length (getNeighbors t n) \<le> ?max \<Longrightarrow> t1 = t" "t1 \<noteq> t \<Longrightarrow> n \<in> set upd1" "distinct upd1" "set upd1 \<subseteq> {n}"
    by (rule reduceNeighbors_ok [OF ok True us]) blast
  have has1: "hasNode t1 n" and len1: "length (getNeighbors t1 n) \<le> maxNeighborsPerNode t1"
    using True 1(4-6) by auto
  obtain t2 upd2 r2 where 2: "addNeighbors shuffle r1 t1 n upd1 = (t2, upd2, r2)" "usable r2" "overlay_ok t2"
    "maxNeighborsPerNode t2 = maxNeighborsPerNode t1" "\<And>k. hasNode t2 k \<longleftrightarrow> hasNode t1 k"
    "length (getNeighbors t2 n) \<le> maxNeighborsPerNode t1"
    "set (getNeighbors t1 n) \<subseteq> set (getNeighbors t2 n)"
    "\<And>k. k \<noteq> n \<Longrightarrow> length (getNeighbors t2 k) \<le> max (maxNeighborsPerNode t1) (length (getNeighbors t1 k))"
    "\<And>k. k \<notin> set upd2 \<Longrightarrow> getNeighbors t2 k = getNeighbors t1 k"
    "set upd1 \<subseteq> set upd2" "distinct upd1 \<Longrightarrow> distinct upd2" "\<forall>k \<in> set upd2. k \<in> set upd1 \<or> hasNode t1 k"
    "\<And>m. length (getNeighbors t2 n) < maxNeighborsPerNode t1 \<Longrightarrow> hasNode t1 m \<Longrightarrow> m \<noteq> n \<Longrightarrow>
       m \<notin> set (getNeighbors t2 n) \<Longrightarrow> maxNeighborsPerNode t1 \<le> length (getNeighbors t2 m)"
    by (rule addNeighbors_ok [OF 1(3) has1 1(2) len1]) blast
  note 2 = 2(1-3) 2(4-10) [unfolded 1(4,5)] 2(11) [OF 1(10)] 2(12,13) [unfolded 1(4,5)]
  have has2: "hasNode t2 n" and len2: "length (getNeighbors t2 n) \<le> maxNeighborsPerNode t2"
    using True 2(4-6) by auto
  obtain t3 upd3 r3 where 3: "connectBySplitting shuffle pick r2 t2 n upd2 = Inr (t3, upd3, r3)" "usable r3"
    "rewired t2 t3 n upd2 upd3" "length (getNeighbors t3 n) + 1 < ?max \<longrightarrow> blocked t3 n []"
    using connectBySplitting_ok [OF 2(3) has2 2(2) len2 2(13) [folded 2(4,5)], of upd2] unfolding 2(4,5) by blast
  note rw = 3(3) [unfolded rewired_def]
  define upd4 where "upd4 = (if force then set_add n upd3 else upd3)"
  define ins where "ins = map (\<lambda>m. (m, getNeighbors t3 m)) upd4"
  have keys: "map fst ins = upd4" by (simp add: ins_def comp_def)
  have "find (\<lambda>m. m \<in> set (getNeighbors t3 m)) upd4 = None"
    using rw overlay_okD(2) by (auto simp: find_None_iff)
  then have eq: "formInstructions shuffle pick r t n force = Inr (t3, ins, r3)"
    using True 1(1) 2(1) 3(1) by (simp add: formInstructions_def upd4_def [symmetric] ins_def)
  have "hasNode t k" if "k \<in> set upd3" for k
    using that True rw 1(11) 2(5,12) by blast
  then have known: "\<forall>k \<in> set upd4. hasNode t k"
    using True by (simp add: upd4_def)
  have quiet: "getNeighbors t3 k = getNeighbors t1 k \<and> (t1 = t \<or> k \<noteq> n)" if "k \<notin> set upd4" for k
  proof -
    have k3: "k \<notin> set upd3" using that by (auto simp: upd4_def split: if_splits)
    then have k: "k \<notin> set upd2" "k \<notin> set upd1" using rw 2(10) by blast+
    have "getNeighbors t3 k = getNeighbors t2 k" using k3 rw by blast
    with 2(9) [OF k(1)] k(2) 1(9) show ?thesis by auto
  qed
  have "instructions_ok t n t3 ins"
    unfolding instructions_ok_def keys
  proof (intro conjI allI impI)
    show "length (getNeighbors t3 k) \<le> max ?max (length (getNeighbors t k))" for k
    proof (cases "k = n")
      case False
      then have "length (getNeighbors t1 k) \<le> length (getNeighbors t k)"
        by (simp add: 1(7) set_del_def)
      then show ?thesis using False rw 2(8) [OF False] by auto
    qed (use rw 2(4) in auto)
    show "getNeighbors t3 k = getNeighbors t k \<or> k \<noteq> n \<and> getNeighbors t3 k = set_del n (getNeighbors t k)"
      if "k \<notin> set upd4" for k
      using quiet [OF that] 1(7) [of k] by (auto split: if_splits)
  qed (use rw 1(8) 2(4,5,7) known in \<open>auto simp: ins_def\<close>)
  moreover have "saturated t3 n"
    unfolding saturated_def
  proof (intro conjI impI allI)
    fix m assume a: "length (getNeighbors t3 n) < maxNeighborsPerNode t3"
      and m: "hasNode t3 m \<and> m \<noteq> n \<and> m \<notin> set (getNeighbors t3 n)"
    have "length (getNeighbors t2 n) \<le> length (getNeighbors t3 n)"
      using rw overlay_okD(1) [of t2 n] overlay_okD(1) [of t3 n] 2(3) card_mono distinct_card
      by (metis List.finite_set)
    then show "maxNeighborsPerNode t3 \<le> length (getNeighbors t3 m)"
      using a m rw 2(4,5) 2(13) [of m] by auto
  qed (use 3(4) rw 2(4) in auto)
  moreover have "distinct upd4" "force \<Longrightarrow> n \<in> set upd4"
    using rw 2(11) by (auto simp: upd4_def)
  ultimately show ?thesis
    using that [OF eq 3(2)] keys by simp
qed

sublocale topology: step_invariant "topology_step shuffle pick" "\<lambda>_. True" "\<lambda>(t, r). overlay_ok t \<and> usable r"
proof
  fix s :: "overlay \<times> 'r" and e
  assume inv: "case s of (t, r) \<Rightarrow> overlay_ok t \<and> usable r"
  obtain t r where s: "s = (t, r)" by (cases s)
  show "case topology_step shuffle pick s e of (t, r) \<Rightarrow> overlay_ok t \<and> usable r"
  proof (cases e)
    case (Update n ns)
    then show ?thesis using inv s by (simp add: overlay_ok_update)
  next
    case (Leave n)
    then show ?thesis using inv s leave_ok [of t n] by auto
  next
    case (FormInstructions n force)
    obtain t' ins r' where "formInstructions shuffle pick r t n force = Inr (t', ins, r')" "usable r'"
      "instructions_ok t n t' ins"
      using inv s by (auto intro: formInstructions_ok [of t r n force])
    then show ?thesis using s FormInstructions by (simp add: instructions_ok_def)
  qed
qed

lemma topology_run_ok:
  "overlay_ok t \<Longrightarrow> usable r \<Longrightarrow> overlay_ok (fst (foldl (topology_step shuffle pick) (t, r) calls))"
  using topology.run_inv [of "(t, r)" calls] by (simp add: case_prod_beta)

end

lemma mset_shuffleArray: "mset (fst (shuffleArray r xs)) = mset xs"
  by (simp add: shuffleArray_def mset_map flip: mset_map [of snd])

lemma pickRandomElement_member:
  assumes "draws_ok r" "xs \<noteq> []"
  shows "fst (pickRandomElement r xs) \<in> set xs"
proof -
  have "0 \<le> draws r (position r)" "draws r (position r) < 2 ^ 53"
    using assms by (simp_all add: draws_ok_def)
  then have "draws r (position r) * int (length xs) < 2 ^ 53 * int (length xs)"
    using assms(2) by (intro mult_strict_right_mono) auto
  then have "draws r (position r) * int (length xs) div 2 ^ 53 < int (length xs)"
    by (rule div_less_of_less_mult) simp
  then have "nat (draws r (position r) * int (length xs) div 2 ^ 53) < length xs"
    using assms(2) zless_nat_conj [of _ "int (length xs)"] by simp
  then show ?thesis by (simp add: pickRandomElement_def)
qed

interpretation math_random: random_choices shuffleArray pickRandomElement draws_ok
proof
  show "draws_ok r \<Longrightarrow> mset (fst (shuffleArray r xs)) = mset xs" for r xs
    by (rule mset_shuffleArray)
  show "draws_ok r \<Longrightarrow> xs \<noteq> [] \<Longrightarrow> fst (pickRandomElement r xs) \<in> set xs" for r xs
    by (rule pickRandomElement_member)
qed (simp_all add: draws_ok_def shuffleArray_def pickRandomElement_def)

subsection \<open>What the topology promises the tracker\<close>

text \<open>Three fully linked nodes, a newcomer, at most two neighbours each, and all draws equal.\<close>

definition example_overlay :: overlay where
  "example_overlay = \<lparr>maxNeighborsPerNode = 2,
     nodes = [(''a'', [''b'', ''c'']), (''b'', [''a'', ''c'']), (''c'', [''a'', ''b'']), (''d'', [])]\<rparr>"

definition example_rng :: rng where
  "example_rng = \<lparr>draws = \<lambda>_. 0, position = 0\<rparr>"

lemma example_overlay_ok: "overlay_ok example_overlay"
  by (simp add: overlay_ok_def example_overlay_def getNeighbors_def)

lemma example_rng_ok: "draws_ok example_rng"
  by (simp add: draws_ok_def example_rng_def)

lemma example_splits:
  "(case formInstructions shuffleArray pickRandomElement example_rng example_overlay ''d'' False of
      Inl _ \<Rightarrow> None | Inr (t', ins, r') \<Rightarrow> Some (nodes t', ins, position r')) =
   Some ([(''a'', [''c'', ''d'']), (''b'', [''c'', ''d'']), (''c'', [''a'', ''b'']), (''d'', [''a'', ''b''])],
      [(''d'', [''a'', ''b'']), (''a'', [''c'', ''d'']), (''b'', [''c'', ''d''])], 4)"
  by (simp add: formInstructions_def reduceNeighbors_def addNeighbors_def connectBySplitting_def splitLinks.simps
      candidates_def numOfMissingNeighbors_def getNeighbors_def hasNode_def example_overlay_def example_rng_def
      shuffleArray_def pickRandomElement_def insertBetween_def modify_def set_add_def set_del_def upt_rec Let_def)

text \<open>
  C7. \<open>formInstructions\<close> on a well-formed topology never throws, whatever the random
  choices: the graph stays symmetric and without self-links over the same nodes, the node ends
  with at most \<open>maxNeighborsPerNode\<close> neighbours and no other node is pushed over that
  bound, neighbours are dropped only when there were too many, every instruction tells a known
  node exactly its new neighbours, once, every node whose neighbours changed other than by
  losing the node gets one, and a forced call always instructs the node.
\<close>

theorem formInstructions_contract:
  assumes "random_choices shuffle pick usable" and "usable r" and "overlay_ok t"
  shows "\<exists>t' ins r'. formInstructions shuffle pick r t n force = Inr (t', ins, r') \<and>
    instructions_ok t n t' ins \<and> distinct (map fst ins) \<and> (force \<and> hasNode t n \<longrightarrow> n \<in> set (map fst ins))"
  by (rule random_choices.formInstructions_ok [OF assms(1,3,2), of n force]) blast

theorem formInstructions_contract_witness:
  "\<exists>t' ins r'. formInstructions shuffleArray pickRandomElement example_rng example_overlay ''d'' False = Inr (t', ins, r') \<and>
    instructions_ok example_overlay ''d'' t' ins \<and> distinct (map fst ins)"
  using formInstructions_contract [OF math_random.random_choices_axioms example_rng_ok example_overlay_ok,
      of "''d''" False] by blast

text \<open>
  C10. After \<open>formInstructions\<close> no slot is left open that could be filled. When the node
  has a free slot, every node that is not its neighbour is full; when it has two, splitting a
  link cannot help either: all neighbours of every such node already are neighbours of it.
\<close>

theorem formInstructions_saturates:
  assumes "random_choices shuffle pick usable" and "usable r" and "overlay_ok t" and "hasNode t n"
  shows "\<exists>t' ins r'. formInstructions shuffle pick r t n force = Inr (t', ins, r') \<and>
    (length (getNeighbors t' n) < maxNeighborsPerNode t \<longrightarrow>
       (\<forall>m. hasNode t m \<and> m \<noteq> n \<and> m \<notin> set (getNeighbors t' n) \<longrightarrow>
          maxNeighborsPerNode t \<le> length (getNeighbors t' m))) \<and>
    (length (getNeighbors t' n) + 1 < maxNeighborsPerNode t \<longrightarrow>
       (\<forall>m. hasNode t m \<and> m \<noteq> n \<and> m \<notin> set (getNeighbors t' n) \<longrightarrow>
          set (getNeighbors t' m) \<subseteq> set (getNeighbors t' n)))"
proof (rule random_choices.formInstructions_ok [OF assms(1,3,2), of n force])
  fix t' ins r'
  assume run: "formInstructions shuffle pick r t n force = Inr (t', ins, r')"
    and "instructions_ok t n t' ins" and "hasNode t n \<Longrightarrow> saturated t' n"
  then have "saturated t' n" "maxNeighborsPerNode t' = maxNeighborsPerNode t" "\<forall>k. hasNode t' k = hasNode t k"
    using assms(4) by (simp_all add: instructions_ok_def)
  with run show ?thesis by (simp add: saturated_def blocked_def)
qed

theorem formInstructions_saturates_witness:
  "\<exists>t' ins r'. formInstructions shuffleArray pickRandomElement example_rng example_overlay ''d'' True = Inr (t', ins, r') \<and>
    (length (getNeighbors t' ''d'') < 2 \<longrightarrow>
       (\<forall>m. hasNode example_overlay m \<and> m \<noteq> ''d'' \<and> m \<notin> set (getNeighbors t' ''d'') \<longrightarrow>
          2 \<le> length (getNeighbors t' m)))"
proof -
  have "hasNode example_overlay ''d''" "maxNeighborsPerNode example_overlay = 2"
    by (simp_all add: hasNode_def example_overlay_def)
  with formInstructions_saturates [OF math_random.random_choices_axioms example_rng_ok example_overlay_ok,
      of "''d''" True] show ?thesis by auto
qed

text \<open>
  A status of a node rewires exactly that node: \<open>update\<close> makes its neighbours the
  reported ones that are known, in both directions, and changes no link between other nodes;
  the graph stays symmetric and without self-links even when the node reports itself,
  duplicates or unknown nodes.
\<close>

theorem update_rewires_one_node:
  assumes "overlay_ok t"
  shows "overlay_ok (update t n ns) \<and>
    set (getNeighbors (update t n ns) n) = {m \<in> set ns. hasNode t m \<and> m \<noteq> n} \<and>
    (\<forall>k. k \<noteq> n \<longrightarrow> set (getNeighbors (update t n ns) k) - {n} = set (getNeighbors t k) - {n} \<and>
       (n \<in> set (getNeighbors (update t n ns) k) \<longleftrightarrow> k \<in> set ns \<and> hasNode t k))"
proof -
  have "set (getNeighbors (update t n ns) n) = {m \<in> set ns. hasNode t m \<and> m \<noteq> n}"
    by (auto simp: getNeighbors_update)
  moreover have "set (getNeighbors (update t n ns) k) - {n} = set (getNeighbors t k) - {n}" if "k \<noteq> n" for k
    using that by (auto simp: getNeighbors_update)
  moreover have "n \<in> set (getNeighbors (update t n ns) k) \<longleftrightarrow> k \<in> set ns \<and> hasNode t k" if "k \<noteq> n" for k
    using that by (simp add: getNeighbors_update)
  ultimately show ?thesis using overlay_ok_update [OF assms] by simp
qed

theorem update_rewires_one_node_witness:
  "overlay_ok (update example_overlay ''d'' [''a'', ''d'', ''x'', ''a'']) \<and>
   set (getNeighbors (update example_overlay ''d'' [''a'', ''d'', ''x'', ''a'']) ''d'') = {''a''}"
proof -
  have "{m \<in> set [''a'', ''d'', ''x'', ''a'']. hasNode example_overlay m \<and> m \<noteq> ''d''} = {''a''}"
    by (auto simp: hasNode_def example_overlay_def)
  with update_rewires_one_node [OF example_overlay_ok, of "''d''" "[''a'', ''d'', ''x'', ''a'']"]
  show ?thesis by simp
qed

text \<open>
  \<open>leave\<close> never dereferences a missing node: it removes the node and all its links,
  returns the neighbours the node had and leaves every other link alone.
\<close>

theorem leave_removes_node:
  assumes "overlay_ok t"
  shows "\<exists>t'. leave t n = Inr (t', getNeighbors t n) \<and> overlay_ok t' \<and>
    (\<forall>k. hasNode t' k \<longleftrightarrow> k \<noteq> n \<and> hasNode t k) \<and>
    (\<forall>k. set (getNeighbors t' k) = (if k = n then {} else set (getNeighbors t k) - {n}))"
proof -
  obtain t' where "leave t n = Inr (t', getNeighbors t n)" "overlay_ok t'"
    "\<forall>k. hasNode t' k \<longleftrightarrow> k \<noteq> n \<and> hasNode t k"
    "\<forall>k. getNeighbors t' k = (if k = n then [] else set_del n (getNeighbors t k))"
    using leave_ok [OF assms, of n] by blast
  then show ?thesis by auto
qed

theorem leave_removes_node_witness:
  "\<exists>t'. leave example_overlay ''a'' = Inr (t', [''b'', ''c'']) \<and> overlay_ok t' \<and> \<not> hasNode t' ''a''"
proof -
  have "getNeighbors example_overlay ''a'' = [''b'', ''c'']"
    by (simp add: getNeighbors_def example_overlay_def)
  then show ?thesis using leave_removes_node [OF example_overlay_ok, of "''a''"] by metis
qed

text \<open>
  Whatever sequence of statuses, departures and instruction rounds a topology goes
  through, with whatever random choices, its graph is symmetric and has no self-links; so the
  check at the end of \<open>formInstructions\<close> never fires.
\<close>

theorem topology_invariant:
  assumes "random_choices shuffle pick usable" and "usable r"
  shows "overlay_ok (fst (foldl (topology_step shuffle pick) (new_overlay k, r) calls))"
  by (rule random_choices.topology_run_ok [OF assms(1) _ assms(2)]) (simp add: overlay_ok_def new_overlay_def)

theorem topology_invariant_witness:
  "overlay_ok (fst (foldl (topology_step shuffleArray pickRandomElement) (new_overlay 2, example_rng)
     [Update ''a'' [], Update ''b'' [''a''], FormInstructions ''b'' False, Leave ''a'']))"
  by (rule topology_invariant [OF math_random.random_choices_axioms example_rng_ok])

end
