(* ===== verification/Peers.thy ===== *)
theory Peers
  imports Complex_Main Prelude
begin

section \<open>Peers: descriptions, addresses, versions, locations\<close>

text \<open>
  \<open>src/src/connection/PeerInfo.ts\<close>, \<open>PeerBook.ts\<close>, \<open>NegotiatedProtocolVersions.ts\<close>,
  \<open>src/src/NameDirectory.ts\<close> and \<open>src/src/logic/LocationManager.ts\<close>. The versions the
  protocol package supports and the geo-IP lookup of the \<open>geoip-lite\<close> package are
  parameters. A field that may be null or undefined is an option. A location's coordinates
  are rational numbers.
\<close>

subsection \<open>Locations\<close>

record location =
  latitude :: "rat option"
  longitude :: "rat option"
  country :: "string option"
  city :: "string option"

text \<open>JavaScript truth of an optional string and of an optional number.\<close>

definition truthy_string :: "string option \<Rightarrow> bool" where
  "truthy_string s \<longleftrightarrow> (case s of None \<Rightarrow> False | Some t \<Rightarrow> t \<noteq> [])"

definition truthy_number :: "rat option \<Rightarrow> bool" where
  "truthy_number x \<longleftrightarrow> (case x of None \<Rightarrow> False | Some v \<Rightarrow> v \<noteq> 0)"

definition isValidNodeLocation :: "location option \<Rightarrow> bool" where
  "isValidNodeLocation l = (case l of
       None \<Rightarrow> False
     | Some l \<Rightarrow> truthy_string (country l) \<or> truthy_string (city l) \<or> truthy_number (latitude l) \<or> truthy_number (longitude l))"

type_synonym locations = "(string, location) dict"

definition getNodeLocation :: "locations \<Rightarrow> string \<Rightarrow> location option" where
  "getNodeLocation ls n = map_of ls n"

text \<open>\<open>address.split(':')[1].replace('//', '')\<close>; without a colon the code throws inside its \<open>try\<close>.\<close>

definition second_piece :: "string \<Rightarrow> string option" where
  "second_piece a =
     (let rest = dropWhile (\<lambda>c. c \<noteq> CHR '':'') a
      in if rest = [] then None else Some (takeWhile (\<lambda>c. c \<noteq> CHR '':'') (tl rest)))"

fun drop_slashes :: "string \<Rightarrow> string" where
  "drop_slashes (c # d # r) = (if c = CHR ''/'' \<and> d = CHR ''/'' then r else c # drop_slashes (d # r))"
| "drop_slashes s = s"

definition ip_of_address :: "string \<Rightarrow> string option" where
  "ip_of_address a = map_option drop_slashes (second_piece a)"

text \<open>A record of the geo-IP database: country, city and the pair \<open>ll\<close>.\<close>

record geo_record =
  geo_country :: string
  geo_city :: string
  geo_ll :: "rat \<times> rat"

definition updateLocation :: "(string \<Rightarrow> geo_record option) \<Rightarrow> locations \<Rightarrow> string \<Rightarrow> location option \<Rightarrow> string \<Rightarrow> locations" where
  "updateLocation lookup ls n loc address =
     (if isValidNodeLocation loc then AList.update n (the loc) ls
      else if \<not> isValidNodeLocation (getNodeLocation ls n) then
        (case (if address = [] then None else Option.bind (ip_of_address address) lookup) of
           None \<Rightarrow> ls
         | Some g \<Rightarrow> AList.update n
             \<lparr>latitude = Some (fst (geo_ll g)), longitude = Some (snd (geo_ll g)),
              country = Some (geo_country g), city = Some (geo_city g)\<rparr> ls)
      else ls)"

definition location_removeNode :: "locations \<Rightarrow> string \<Rightarrow> locations" where
  "location_removeNode ls n = AList.delete n ls"

lemma updateLocation_other [simp]:
  "m \<noteq> n \<Longrightarrow> getNodeLocation (updateLocation lookup ls n loc address) m = getNodeLocation ls m"
  by (simp add: updateLocation_def getNodeLocation_def split: option.split)

lemma updateLocation_known:
  "isValidNodeLocation (getNodeLocation ls n) \<Longrightarrow>
   getNodeLocation (updateLocation lookup ls n loc address) n =
     (if isValidNodeLocation loc then loc else getNodeLocation ls n)"
  by (cases loc) (simp_all add: updateLocation_def getNodeLocation_def isValidNodeLocation_def)

text \<open>
  A valid location reported by the node itself always wins over what is stored, and an
  invalid one never replaces a valid location: once a node has a valid location, it has one
  until it is removed, and the address is consulted only while it has none.
\<close>

theorem updateLocation_keeps_valid:
  "(isValidNodeLocation loc \<longrightarrow> getNodeLocation (updateLocation lookup ls n loc address) n = loc) \<and>
   (\<not> isValidNodeLocation loc \<longrightarrow> isValidNodeLocation (getNodeLocation ls n) \<longrightarrow>
      updateLocation lookup ls n loc address = ls) \<and>
   (m \<noteq> n \<longrightarrow> getNodeLocation (updateLocation lookup ls n loc address) m = getNodeLocation ls m)"
proof (intro conjI impI)
  assume "isValidNodeLocation loc"
  then show "getNodeLocation (updateLocation lookup ls n loc address) n = loc"
    by (cases loc) (simp_all add: updateLocation_def getNodeLocation_def isValidNodeLocation_def)
next
  assume "\<not> isValidNodeLocation loc" "isValidNodeLocation (getNodeLocation ls n)"
  then show "updateLocation lookup ls n loc address = ls" by (simp add: updateLocation_def)
qed simp

theorem updateLocation_keeps_valid_witness:
  "getNodeLocation (updateLocation (\<lambda>_. None) [] ''n''
      (Some \<lparr>latitude = None, longitude = None, country = Some ''FI'', city = None\<rparr>) ''ws://1.2.3.4:30300'') ''n'' =
     Some \<lparr>latitude = None, longitude = None, country = Some ''FI'', city = None\<rparr>"
  using updateLocation_keeps_valid [of "Some \<lparr>latitude = None, longitude = None, country = Some ''FI'', city = None\<rparr>"
      "\<lambda>_. None" "[]" "''n''" "''ws://1.2.3.4:30300''"]
  by (simp add: isValidNodeLocation_def truthy_string_def)

lemma ip_example: "ip_of_address ''ws://1.2.3.4:30300'' = Some ''1.2.3.4''"
  by (simp add: ip_of_address_def second_piece_def)

subsection \<open>Peer descriptions\<close>

datatype peer_type = TrackerPeer | NodePeer | StoragePeer | UnknownPeer

definition peer_type_name :: "peer_type \<Rightarrow> string" where
  "peer_type_name p = (case p of
       TrackerPeer \<Rightarrow> ''tracker'' | NodePeer \<Rightarrow> ''node'' | StoragePeer \<Rightarrow> ''storage'' | UnknownPeer \<Rightarrow> ''unknown'')"

definition peer_types :: "peer_type list" where
  "peer_types = [TrackerPeer, NodePeer, StoragePeer, UnknownPeer]"

record peer_info =
  peerId :: string
  peerType :: peer_type
  controlLayerVersions :: "int list"
  messageLayerVersions :: "int list"
  peerName :: "string option"
  peerLocation :: location

datatype peer_error =
    PeerIdNotGiven
  | PeerTypeNotGiven
  | PeerTypeUnknown string
  | ControlLayerVersionsNotGiven
  | MessageLayerVersionsNotGiven

definition no_location :: location where
  "no_location = \<lparr>latitude = None, longitude = None, country = None, city = None\<rparr>"

text \<open>The constructor; a peer type arrives as a string.\<close>

definition new_peer_info ::
  "string \<Rightarrow> string \<Rightarrow> int list option \<Rightarrow> int list option \<Rightarrow> string option \<Rightarrow> location option \<Rightarrow> peer_error + peer_info" where
  "new_peer_info pid ptype control message name loc =
     (if pid = [] then Inl PeerIdNotGiven
      else if ptype = [] then Inl PeerTypeNotGiven
      else (case find (\<lambda>t. peer_type_name t = ptype) peer_types of
          None \<Rightarrow> Inl (PeerTypeUnknown ptype)
        | Some t \<Rightarrow>
            if control = None \<or> control = Some [] then Inl ControlLayerVersionsNotGiven
            else if message = None \<or> message = Some [] then Inl MessageLayerVersionsNotGiven
            else Inr \<lparr>peerId = pid, peerType = t, controlLayerVersions = the control,
                   messageLayerVersions = the message,
                   peerName = (if truthy_string name then name else None),
                   peerLocation = (case loc of None \<Rightarrow> no_location | Some l \<Rightarrow> l)\<rparr>))"

text \<open>The supported versions of the protocol package.\<close>

record supported =
  supportedControl :: "int list"
  supportedMessage :: "int list"

definition or_default :: "int list option \<Rightarrow> int list \<Rightarrow> int list option" where
  "or_default v d = (case v of None \<Rightarrow> Some d | Some vs \<Rightarrow> Some vs)"

definition fromObject ::
  "supported \<Rightarrow> string \<Rightarrow> string \<Rightarrow> int list option \<Rightarrow> int list option \<Rightarrow> string option \<Rightarrow> location option \<Rightarrow> peer_error + peer_info" where
  "fromObject sv pid ptype control message name loc =
     new_peer_info pid ptype (or_default control (supportedControl sv)) (or_default message (supportedMessage sv)) name loc"

definition newTracker ::
  "supported \<Rightarrow> string \<Rightarrow> string option \<Rightarrow> int list option \<Rightarrow> int list option \<Rightarrow> location option \<Rightarrow> peer_error + peer_info" where
  "newTracker sv pid name control message loc = fromObject sv pid (peer_type_name TrackerPeer) control message name loc"

definition newNode ::
  "supported \<Rightarrow> string \<Rightarrow> string option \<Rightarrow> int list option \<Rightarrow> int list option \<Rightarrow> location option \<Rightarrow> peer_error + peer_info" where
  "newNode sv pid name control message loc = fromObject sv pid (peer_type_name NodePeer) control message name loc"

definition newStorage ::
  "supported \<Rightarrow> string \<Rightarrow> string option \<Rightarrow> int list option \<Rightarrow> int list option \<Rightarrow> location option \<Rightarrow> peer_error + peer_info" where
  "newStorage sv pid name control message loc = fromObject sv pid (peer_type_name StoragePeer) control message name loc"

definition newUnknown :: "supported \<Rightarrow> string \<Rightarrow> peer_error + peer_info" where
  "newUnknown sv pid =
     new_peer_info pid (peer_type_name UnknownPeer) (Some (supportedControl sv)) (Some (supportedMessage sv)) None None"

definition isTracker :: "peer_info \<Rightarrow> bool" where
  "isTracker p \<longleftrightarrow> peerType p = TrackerPeer"

definition isStorage :: "peer_info \<Rightarrow> bool" where
  "isStorage p \<longleftrightarrow> peerType p = StoragePeer"

definition isNode :: "peer_info \<Rightarrow> bool" where
  "isNode p \<longleftrightarrow> peerType p = NodePeer \<or> isStorage p"

definition peer_toString :: "peer_info \<Rightarrow> string" where
  "peer_toString p = (case peerName p of None \<Rightarrow> [] | Some n \<Rightarrow> n) @ ''<'' @ take 8 (peerId p) @ ''>''"

text \<open>A description that was constructed.\<close>

definition peer_ok :: "peer_info \<Rightarrow> bool" where
  "peer_ok p \<longleftrightarrow> peerId p \<noteq> [] \<and> controlLayerVersions p \<noteq> [] \<and> messageLayerVersions p \<noteq> [] \<and> peerName p \<noteq> Some []"

lemma find_peer_type [simp]: "find (\<lambda>t. peer_type_name t = peer_type_name p) peer_types = Some p"
  by (cases p) (simp_all add: peer_types_def peer_type_name_def)

lemma new_peer_info_ok: "new_peer_info pid ptype control message name loc = Inr p \<Longrightarrow> peer_ok p"
  by (auto simp: new_peer_info_def peer_ok_def truthy_string_def split: if_splits option.splits)

lemma new_peer_info_kind:
  "new_peer_info pid (peer_type_name t) control message name loc = Inr p \<Longrightarrow> peerType p = t \<and> peerId p = pid"
  by (auto simp: new_peer_info_def split: if_splits)

subsection \<open>The peer book\<close>

type_synonym peer_book = "(string, peer_info) dict"

datatype book_error = NotFoundInPeerBook string

definition book_add :: "peer_book \<Rightarrow> string \<Rightarrow> peer_info \<Rightarrow> peer_book" where
  "book_add b address p = AList.update address p b"

definition getPeerInfo :: "peer_book \<Rightarrow> string \<Rightarrow> peer_info option" where
  "getPeerInfo b address = map_of b address"

definition book_remove :: "peer_book \<Rightarrow> string \<Rightarrow> peer_book" where
  "book_remove b address = AList.delete address b"

text \<open>\<open>!address\<close> also rejects the empty address.\<close>

definition getAddress :: "peer_book \<Rightarrow> string \<Rightarrow> book_error + string" where
  "getAddress b pid =
     (case find (\<lambda>a. map_option peerId (map_of b a) = Some pid) (keys_of b) of
        None \<Rightarrow> Inl (NotFoundInPeerBook pid)
      | Some a \<Rightarrow> if a = [] then Inl (NotFoundInPeerBook pid) else Inr a)"

definition getPeerId :: "peer_book \<Rightarrow> string \<Rightarrow> book_error + string" where
  "getPeerId b address = (case map_of b address of
       None \<Rightarrow> Inl (NotFoundInPeerBook address)
     | Some p \<Rightarrow> Inr (peerId p))"

lemma getAddress_sound: "getAddress b pid = Inr a \<Longrightarrow> getPeerId b a = Inr pid"
  by (auto simp: getAddress_def getPeerId_def find_Some_iff split: option.splits if_splits)

lemma getAddress_complete:
  assumes "getPeerId b a = Inr pid" and "\<not> has_key b []"
  shows "\<exists>a'. getAddress b pid = Inr a'"
proof -
  obtain p where p: "map_of b a = Some p" "peerId p = pid"
    using assms(1) by (auto simp: getPeerId_def split: option.splits)
  then have "a \<in> set (keys_of b)" using has_key_iff [of b a] by simp
  with p have "find (\<lambda>a. map_option peerId (map_of b a) = Some pid) (keys_of b) \<noteq> None"
    by (auto simp: find_None_iff)
  then obtain a' where a': "find (\<lambda>a. map_option peerId (map_of b a) = Some pid) (keys_of b) = Some a'" by blast
  then have "a' \<in> set (keys_of b)" by (auto simp: find_Some_iff)
  with assms(2) have "a' \<noteq> []" unfolding has_key_iff by metis
  with a' show ?thesis by (simp add: getAddress_def)
qed

text \<open>
  The peer book inverts itself: an address it gives for a peer is one under which that
  peer is stored, and when addresses are not empty, every stored peer is found. So a book
  in which no two addresses hold one peer gives back the very address.
\<close>

theorem peer_book_inverse:
  assumes "\<not> has_key b []" and "getPeerId b a = Inr pid"
    and "\<forall>a'. getPeerId b a' = Inr pid \<longrightarrow> a' = a"
  shows "getAddress b pid = Inr a"
proof -
  obtain a' where "getAddress b pid = Inr a'" using getAddress_complete [OF assms(2,1)] by blast
  with getAddress_sound [of b pid a'] assms(3) show ?thesis by simp
qed

definition example_peer :: peer_info where
  "example_peer = \<lparr>peerId = ''p'', peerType = NodePeer, controlLayerVersions = [1, 2], messageLayerVersions = [31, 32],
     peerName = None, peerLocation = no_location\<rparr>"

theorem peer_book_inverse_witness: "getAddress (book_add [] ''ws://a'' example_peer) ''p'' = Inr ''ws://a''"
  by (rule peer_book_inverse) (auto simp: book_add_def getPeerId_def example_peer_def split: if_splits option.splits)

subsection \<open>Protocol versions\<close>

record negotiated_version =
  controlLayerVersion :: int
  messageLayerVersion :: int

datatype version_error = MissingVersions | UnsupportedControlLayer | UnsupportedMessageLayer

text \<open>\<open>Math.max\<close> of no numbers is \<open>-Infinity\<close>, here \<open>None\<close>.\<close>

fun math_max :: "int list \<Rightarrow> int option" where
  "math_max [] = None"
| "math_max (x # xs) = (case math_max xs of None \<Rightarrow> Some x | Some m \<Rightarrow> Some (max x m))"

definition common_version :: "int list \<Rightarrow> int list \<Rightarrow> int option" where
  "common_version own theirs = math_max (filter (\<lambda>v. v \<in> set theirs) own)"

definition below_zero :: "int option \<Rightarrow> bool" where
  "below_zero v \<longleftrightarrow> (case v of None \<Rightarrow> True | Some x \<Rightarrow> x < 0)"

definition validateProtocolVersions :: "peer_info \<Rightarrow> int list option \<Rightarrow> int list option \<Rightarrow> version_error + negotiated_version" where
  "validateProtocolVersions own control message =
     (if control = None \<or> message = None \<or> control = Some [] \<or> message = Some [] then Inl MissingVersions
      else
        (let c = common_version (controlLayerVersions own) (the control);
             m = common_version (messageLayerVersions own) (the message)
         in if below_zero c then Inl UnsupportedControlLayer
            else if below_zero m then Inl UnsupportedMessageLayer
            else Inr \<lparr>controlLayerVersion = the c, messageLayerVersion = the m\<rparr>))"

type_synonym negotiated = "(string, negotiated_version) dict"

definition negotiateProtocolVersion ::
  "peer_info \<Rightarrow> negotiated \<Rightarrow> string \<Rightarrow> int list option \<Rightarrow> int list option \<Rightarrow> version_error + negotiated" where
  "negotiateProtocolVersion own d pid control message =
     (case validateProtocolVersions own control message of
        Inl e \<Rightarrow> Inl e
      | Inr v \<Rightarrow> Inr (AList.update pid v d))"

definition removeNegotiatedProtocolVersion :: "negotiated \<Rightarrow> string \<Rightarrow> negotiated" where
  "removeNegotiatedProtocolVersion d pid = AList.delete pid d"

definition getNegotiatedProtocolVersions :: "negotiated \<Rightarrow> string \<Rightarrow> negotiated_version option" where
  "getNegotiatedProtocolVersions d pid = map_of d pid"

definition getDefaultProtocolVersions :: "supported \<Rightarrow> negotiated_version" where
  "getDefaultProtocolVersions sv =
     \<lparr>controlLayerVersion = the (math_max (0 # supportedControl sv)),
      messageLayerVersion = the (math_max (0 # supportedMessage sv))\<rparr>"

lemma math_max_eq: "math_max xs = (if xs = [] then None else Some (Max (set xs)))"
  by (induction xs) (auto split: option.split)

lemma common_version_sym: "common_version xs ys = common_version ys xs"
proof -
  have "set (filter (\<lambda>v. v \<in> set ys) xs) = set (filter (\<lambda>v. v \<in> set xs) ys)" by auto
  moreover from this have "filter (\<lambda>v. v \<in> set ys) xs = [] \<longleftrightarrow> filter (\<lambda>v. v \<in> set xs) ys = []"
    by (metis set_empty)
  ultimately show ?thesis by (simp only: common_version_def math_max_eq)
qed

lemma common_version_Some:
  "common_version xs ys = Some v \<Longrightarrow> v \<in> set xs \<and> v \<in> set ys \<and> (\<forall>w \<in> set xs. w \<in> set ys \<longrightarrow> w \<le> v)"
  using Max_in [of "set (filter (\<lambda>v. v \<in> set ys) xs)"]
  by (auto simp: common_version_def math_max_eq filter_empty_conv split: if_splits)

text \<open>
  C40. Negotiation is symmetric: two peers that each validate the versions of the other reach
  the same result, be it a pair of versions or the same error, and the versions reached are
  the highest ones both peers support.
\<close>

theorem negotiation_agrees:
  assumes "peer_ok p" and "peer_ok q"
  shows "validateProtocolVersions p (Some (controlLayerVersions q)) (Some (messageLayerVersions q)) =
      validateProtocolVersions q (Some (controlLayerVersions p)) (Some (messageLayerVersions p)) \<and>
    (\<forall>v. validateProtocolVersions p (Some (controlLayerVersions q)) (Some (messageLayerVersions q)) = Inr v \<longrightarrow>
       controlLayerVersion v \<in> set (controlLayerVersions p) \<inter> set (controlLayerVersions q) \<and>
       messageLayerVersion v \<in> set (messageLayerVersions p) \<inter> set (messageLayerVersions q) \<and>
       (\<forall>c \<in> set (controlLayerVersions p) \<inter> set (controlLayerVersions q). c \<le> controlLayerVersion v) \<and>
       (\<forall>m \<in> set (messageLayerVersions p) \<inter> set (messageLayerVersions q). m \<le> messageLayerVersion v))"
proof (intro conjI allI impI)
  show "validateProtocolVersions p (Some (controlLayerVersions q)) (Some (messageLayerVersions q)) =
      validateProtocolVersions q (Some (controlLayerVersions p)) (Some (messageLayerVersions p))"
    using assms
    by (simp add: validateProtocolVersions_def peer_ok_def common_version_sym [of "controlLayerVersions p"]
        common_version_sym [of "messageLayerVersions p"])
next
  fix v
  assume "validateProtocolVersions p (Some (controlLayerVersions q)) (Some (messageLayerVersions q)) = Inr v"
  then have v: "common_version (controlLayerVersions p) (controlLayerVersions q) = Some (controlLayerVersion v)"
    "common_version (messageLayerVersions p) (messageLayerVersions q) = Some (messageLayerVersion v)"
    by (auto simp: validateProtocolVersions_def Let_def below_zero_def split: if_splits option.splits)
  note c = common_version_Some [OF v(1)] and m = common_version_Some [OF v(2)]
  show "controlLayerVersion v \<in> set (controlLayerVersions p) \<inter> set (controlLayerVersions q)"
    "messageLayerVersion v \<in> set (messageLayerVersions p) \<inter> set (messageLayerVersions q)"
    "\<forall>c \<in> set (controlLayerVersions p) \<inter> set (controlLayerVersions q). c \<le> controlLayerVersion v"
    "\<forall>m \<in> set (messageLayerVersions p) \<inter> set (messageLayerVersions q). m \<le> messageLayerVersion v"
    using c m by auto
qed

theorem negotiation_agrees_witness:
  "validateProtocolVersions example_peer (Some [2, 3]) (Some [32]) =
   validateProtocolVersions (example_peer\<lparr>controlLayerVersions := [2, 3], messageLayerVersions := [32]\<rparr>)
     (Some [1, 2]) (Some [31, 32])"
  using negotiation_agrees [of example_peer "example_peer\<lparr>controlLayerVersions := [2, 3], messageLayerVersions := [32]\<rparr>"]
  by (simp add: peer_ok_def example_peer_def)

subsection \<open>Names\<close>

text \<open>\<open>NameDirectory.getName\<close>, with the table of the source.\<close>

definition NAMES :: "(string, string) dict" where
  "NAMES =
    [(''0xDE11165537ef6C01260ee89A850a281525A5b63F'', ''T1''),
     (''0xDE22222da3F861c2Ec63b03e16a1dce153Cf069c'', ''T2''),
     (''0xDE33390cC85aBf61d9c27715Fa61d8E5efC61e75'', ''T3''),
     (''0xde1112f631486CfC759A50196853011528bC5FA0'', ''S1''),
     (''0xde222E8603FCf641F928E5F66a0CBf4de70d5352'', ''B1''),
     (''0xde3331cA6B8B636E0b82Bf08E941F727B8927442'', ''B2'')]"

definition getName :: "string \<Rightarrow> string" where
  "getName pid = (case map_of NAMES pid of
       Some name \<Rightarrow> name
     | None \<Rightarrow> if length pid > 8 then take 8 pid else pid)"

lemma getName_short: "length (getName pid) \<le> 8"
proof (cases "map_of NAMES pid")
  case (Some name)
  then have "name \<in> set (values_of NAMES)" by (force dest: map_of_SomeD)
  with Some show ?thesis by (auto simp: getName_def NAMES_def)
qed (simp add: getName_def)

end
