(* ===== verification/Tracker.thy ===== *)
theory Tracker
  imports InstructionCounter OverlayTopology Peers
begin

section \<open>The tracker\<close>

text \<open>
  \<open>src/src/logic/Tracker.ts\<close>: the handlers of the four events of the tracker server
  that concern the tracker (a node connects, disconnects, sends its status, asks for storage
  nodes), over the overlay topologies of the streams, the instruction counters, the
  locations, the round-trip times and the set of storage nodes. What a handler sends,
  emits or records is appended to \<open>effects\<close> in order. Sending is asynchronous and its failure
  is only logged, so a handler runs to its end before the next one starts. The surroundings
  of the tracker are parameters: the two random choices, the address of a peer as the
  server resolves it, and the geo-IP lookup.
\<close>

type_synonym rtts = "(node_id, int) dict"

record status =
  streams :: status_streams
  status_rtts :: "rtts option"
  status_location :: "location option"
  singleStream :: bool

datatype tracker_effect =
    Recorded string
  | NodeConnected node_id
  | SendInstruction node_id stream_id_and_partition "node_id list" int
  | InstructionFailed node_id stream_key int
  | SendStorageNodesResponse node_id stream_id_and_partition "node_id list"

datatype tracker_error =
    TopologyFailure topology_error
  | UndefinedOverlay stream_key
  | AddressNotResolved node_id

record 'r tracker =
  tracker_max :: nat
  overlayPerStream :: "(stream_key, overlay) dict"
  overlayConnectionRtts :: "(node_id, rtts option) dict"
  nodeLocations :: locations
  instructionCounters :: counters
  storageNodes :: "node_id list"
  random :: 'r
  effects :: "tracker_effect list"

record 'r surroundings =
  env_shuffle :: "'r shuffler"
  env_pick :: "'r picker"
  env_resolve :: "node_id \<Rightarrow> string option"
  env_lookup :: "string \<Rightarrow> geo_record option"

definition new_tracker :: "nat \<Rightarrow> 'r \<Rightarrow> 'r tracker" where
  "new_tracker k r = \<lparr>tracker_max = k, overlayPerStream = [], overlayConnectionRtts = [], nodeLocations = [],
     instructionCounters = [], storageNodes = [], random = r, effects = []\<rparr>"

definition does :: "tracker_effect \<Rightarrow> 'r tracker \<Rightarrow> 'r tracker" where
  "does e tr = tr\<lparr>effects := effects tr @ [e]\<rparr>"

subsection \<open>Instructions\<close>

text \<open>
  The body of the loop over the instructions up to its first \<open>await\<close>; a stream key that does
  not parse throws inside the \<open>try\<close>, after the counter was incremented.
\<close>

definition sendOne :: "stream_key \<Rightarrow> 'r tracker \<Rightarrow> node_id \<times> node_id list \<Rightarrow> 'r tracker" where
  "sendOne k tr i =
     (let c = setOrIncrement (instructionCounters tr) (fst i) k;
          tr1 = (does (Recorded ''instructionsSent'') tr)\<lparr>instructionCounters := fst c\<rparr>
      in case from_key k of
           Inl _ \<Rightarrow> does (InstructionFailed (fst i) k (snd c)) tr1
         | Inr s \<Rightarrow> does (SendInstruction (fst i) s (snd i) (snd c)) tr1)"

definition formAndSendInstructions ::
  "'r surroundings \<Rightarrow> node_id \<Rightarrow> stream_key list \<Rightarrow> bool \<Rightarrow> 'r tracker \<Rightarrow> ('r tracker, tracker_error) outcome" where
  "formAndSendInstructions env n ks force =
     for_each (\<lambda>k tr. case map_of (overlayPerStream tr) k of
         None \<Rightarrow> (tr, None)
       | Some t \<Rightarrow>
           (case formInstructions (env_shuffle env) (env_pick env) (random tr) t n force of
              Inl e \<Rightarrow> (tr, Some (TopologyFailure e))
            | Inr (t', ins, r') \<Rightarrow>
                (foldl (sendOne k) (tr\<lparr>overlayPerStream := AList.update k t' (overlayPerStream tr), random := r'\<rparr>) ins,
                 None))) ks"

subsection \<open>Leaving and updating\<close>

definition leaveAndCheckEmptyOverlay ::
  "'r surroundings \<Rightarrow> stream_key \<Rightarrow> node_id \<Rightarrow> 'r tracker \<Rightarrow> ('r tracker, tracker_error) outcome" where
  "leaveAndCheckEmptyOverlay env k n tr =
     (case map_of (overlayPerStream tr) k of
        None \<Rightarrow> (tr, Some (UndefinedOverlay k))
      | Some t \<Rightarrow>
          (case leave t n of
             Inl e \<Rightarrow> (tr, Some (TopologyFailure e))
           | Inr (t', neighbors) \<Rightarrow>
               (let tr1 = tr\<lparr>overlayPerStream := AList.update k t' (overlayPerStream tr),
                    instructionCounters := counter_removeNode (instructionCounters tr) n\<rparr>
                in if overlay_isEmpty t' then
                     (tr1\<lparr>instructionCounters := counter_removeStream (instructionCounters tr1) k,
                        overlayPerStream := AList.delete k (overlayPerStream tr1)\<rparr>, None)
                   else for_each (\<lambda>m. formAndSendInstructions env m [k] True) neighbors tr1)))"

definition createNewOverlayTopologies :: "status_streams \<Rightarrow> 'r tracker \<Rightarrow> 'r tracker" where
  "createNewOverlayTopologies ss tr =
     foldl (\<lambda>tr k. if has_key (overlayPerStream tr) k then tr
       else tr\<lparr>overlayPerStream := AList.update k (new_overlay (tracker_max tr)) (overlayPerStream tr)\<rparr>) tr (keys_of ss)"

definition updateOverlay ::
  "node_id \<Rightarrow> stream_key \<times> stream_state_representation \<Rightarrow> 'r tracker \<Rightarrow> ('r tracker, tracker_error) outcome" where
  "updateOverlay n e tr =
     (case map_of (overlayPerStream tr) (fst e) of
        None \<Rightarrow> (tr, Some (UndefinedOverlay (fst e)))
      | Some t \<Rightarrow>
          (let neighbors = set_of (rep_inboundNodes (snd e) @ rep_outboundNodes (snd e))
           in (tr\<lparr>overlayPerStream := AList.update (fst e) (update t n neighbors) (overlayPerStream tr)\<rparr>, None)))"

definition updateNode ::
  "'r surroundings \<Rightarrow> node_id \<Rightarrow> status_streams \<Rightarrow> status_streams \<Rightarrow> 'r tracker \<Rightarrow> ('r tracker, tracker_error) outcome" where
  "updateNode env n filteredStreams allStreams tr =
     and_then (for_each (updateOverlay n) filteredStreams tr)
       (\<lambda>tr1. for_each (\<lambda>k. leaveAndCheckEmptyOverlay env k n)
          (filter (\<lambda>k. k \<notin> set (keys_of allStreams)) (keys_of (overlayPerStream tr1))) tr1)"

definition updateNodeOnStream ::
  "'r surroundings \<Rightarrow> node_id \<Rightarrow> status_streams \<Rightarrow> 'r tracker \<Rightarrow> ('r tracker, tracker_error) outcome" where
  "updateNodeOnStream env n ss tr =
     (if length ss = 1 then
        (if rep_counter (snd (hd ss)) = -1 then leaveAndCheckEmptyOverlay env (fst (hd ss)) n tr
         else updateOverlay n (hd ss) tr)
      else (tr, None))"

subsection \<open>The handlers\<close>

definition onNodeConnected :: "node_id \<Rightarrow> bool \<Rightarrow> 'r tracker \<Rightarrow> 'r tracker" where
  "onNodeConnected n storage tr =
     does (NodeConnected n) (if storage then tr\<lparr>storageNodes := set_add n (storageNodes tr)\<rparr> else tr)"

definition processNodeStatus ::
  "'r surroundings \<Rightarrow> status \<Rightarrow> node_id \<Rightarrow> 'r tracker \<Rightarrow> ('r tracker, tracker_error) outcome" where
  "processNodeStatus env st source tr =
     (let tr1 = does (Recorded ''processNodeStatus'') tr;
          (c, filteredStreams) = filterStatus (instructionCounters tr1) (streams st) source;
          tr2 = tr1\<lparr>instructionCounters := c,
            overlayConnectionRtts := AList.update source (status_rtts st) (overlayConnectionRtts tr1)\<rparr>
      in case env_resolve env source of
           None \<Rightarrow> (tr2, Some (AddressNotResolved source))
         | Some address \<Rightarrow>
             (let tr3 = tr2\<lparr>nodeLocations :=
                    updateLocation (env_lookup env) (nodeLocations tr2) source (status_location st) address\<rparr>;
                  tr4 = createNewOverlayTopologies (streams st) tr3
              in and_then
                   (if singleStream st then updateNodeOnStream env source filteredStreams tr4
                    else updateNode env source filteredStreams (streams st) tr4)
                   (formAndSendInstructions env source (keys_of (streams st)) False)))"

definition removeNode :: "'r surroundings \<Rightarrow> node_id \<Rightarrow> 'r tracker \<Rightarrow> ('r tracker, tracker_error) outcome" where
  "removeNode env n tr =
     (let tr1 = (does (Recorded ''_removeNode'') tr)\<lparr>storageNodes := set_del n (storageNodes tr),
            overlayConnectionRtts := AList.delete n (overlayConnectionRtts tr),
            nodeLocations := location_removeNode (nodeLocations tr) n\<rparr>
      in for_each (\<lambda>k. leaveAndCheckEmptyOverlay env k n) (keys_of (overlayPerStream tr1)) tr1)"

definition onNodeDisconnected :: "'r surroundings \<Rightarrow> node_id \<Rightarrow> 'r tracker \<Rightarrow> ('r tracker, tracker_error) outcome" where
  "onNodeDisconnected env n tr = removeNode env n (does (Recorded ''onNodeDisconnected'') tr)"

definition findStorageNodes :: "stream_id_and_partition \<Rightarrow> node_id \<Rightarrow> 'r tracker \<Rightarrow> 'r tracker" where
  "findStorageNodes s source tr =
     does (SendStorageNodesResponse source s (filter (\<lambda>n. n \<noteq> source) (storageNodes tr)))
       (does (Recorded ''findStorageNodes'') tr)"

datatype tracker_event =
    OnNodeConnected node_id bool
  | OnNodeDisconnected node_id
  | OnNodeStatus status node_id
  | OnStorageNodesRequest stream_id_and_partition node_id

fun tracker_handle :: "'r surroundings \<Rightarrow> 'r tracker \<Rightarrow> tracker_event \<Rightarrow> ('r tracker, tracker_error) outcome" where
  "tracker_handle env tr (OnNodeConnected n storage) = (onNodeConnected n storage tr, None)"
| "tracker_handle env tr (OnNodeDisconnected n) = onNodeDisconnected env n tr"
| "tracker_handle env tr (OnNodeStatus st source) = processNodeStatus env st source tr"
| "tracker_handle env tr (OnStorageNodesRequest s source) = (findStorageNodes s source tr, None)"

definition tracker_step :: "'r surroundings \<Rightarrow> 'r tracker \<Rightarrow> tracker_event \<Rightarrow> 'r tracker" where
  "tracker_step env tr e = fst (tracker_handle env tr e)"

definition tracker_getStreams :: "'r tracker \<Rightarrow> stream_key list" where
  "tracker_getStreams tr = keys_of (overlayPerStream tr)"

subsection \<open>The invariant and what changes\<close>

definition tracker_ok :: "('r \<Rightarrow> bool) \<Rightarrow> 'r tracker \<Rightarrow> bool" where
  "tracker_ok usable tr \<longleftrightarrow> dict_ok (overlayPerStream tr) \<and>
     dict_all (\<lambda>_ t. overlay_ok t \<and> maxNeighborsPerNode t = tracker_max tr) (overlayPerStream tr) \<and>
     counters_ok (instructionCounters tr) \<and> usable (random tr) \<and> distinct (storageNodes tr) \<and>
     dict_ok (overlayConnectionRtts tr) \<and> dict_ok (nodeLocations tr)"

definition member :: "'r tracker \<Rightarrow> stream_key \<Rightarrow> node_id \<Rightarrow> bool" where
  "member tr k n \<longleftrightarrow> (case map_of (overlayPerStream tr) k of None \<Rightarrow> False | Some t \<Rightarrow> hasNode t n)"

lemma tracker_ok_overlay:
  "tracker_ok usable tr \<Longrightarrow> map_of (overlayPerStream tr) k = Some t \<Longrightarrow> overlay_ok t \<and> maxNeighborsPerNode t = tracker_max tr"
  by (auto simp: tracker_ok_def dest: dict_allD)

lemma does_fields [simp]:
  "tracker_max (does e tr) = tracker_max tr" "overlayPerStream (does e tr) = overlayPerStream tr"
  "overlayConnectionRtts (does e tr) = overlayConnectionRtts tr" "nodeLocations (does e tr) = nodeLocations tr"
  "instructionCounters (does e tr) = instructionCounters tr" "storageNodes (does e tr) = storageNodes tr"
  "random (does e tr) = random tr" "effects (does e tr) = effects tr @ [e]"
  by (simp_all add: does_def)

lemma tracker_ok_does [simp]: "tracker_ok usable (does e tr) = tracker_ok usable tr"
  by (simp add: tracker_ok_def)

text \<open>Sending instructions touches the counters and the effects only.\<close>

lemma sendOne_fields [simp]:
  "tracker_max (sendOne k tr i) = tracker_max tr" "overlayPerStream (sendOne k tr i) = overlayPerStream tr"
  "overlayConnectionRtts (sendOne k tr i) = overlayConnectionRtts tr" "nodeLocations (sendOne k tr i) = nodeLocations tr"
  "storageNodes (sendOne k tr i) = storageNodes tr" "random (sendOne k tr i) = random tr"
  "instructionCounters (sendOne k tr i) = fst (setOrIncrement (instructionCounters tr) (fst i) k)"
  by (simp_all add: sendOne_def Let_def split: sum.split)

lemma foldl_sendOne_fields [simp]:
  "tracker_max (foldl (sendOne k) tr ins) = tracker_max tr"
  "overlayPerStream (foldl (sendOne k) tr ins) = overlayPerStream tr"
  "overlayConnectionRtts (foldl (sendOne k) tr ins) = overlayConnectionRtts tr"
  "nodeLocations (foldl (sendOne k) tr ins) = nodeLocations tr"
  "storageNodes (foldl (sendOne k) tr ins) = storageNodes tr" "random (foldl (sendOne k) tr ins) = random tr"
  by (induction ins arbitrary: tr) simp_all

lemma counters_ok_foldl_sendOne:
  "counters_ok (instructionCounters tr) \<Longrightarrow> counters_ok (instructionCounters (foldl (sendOne k) tr ins))"
  by (induction ins arbitrary: tr) (simp_all add: setOrIncrement_ok)

lemma current_foldl_sendOne:
  "k' \<noteq> k \<or> n \<notin> set (map fst ins) \<Longrightarrow>
   current (instructionCounters (foldl (sendOne k) tr ins)) n k' = current (instructionCounters tr) n k'"
  by (induction ins arbitrary: tr) auto

text \<open>A round of instructions rewires overlays without changing who is in them.\<close>

definition rewires :: "stream_key list \<Rightarrow> 'r tracker \<Rightarrow> 'r tracker \<Rightarrow> bool" where
  "rewires ks tr tr' \<longleftrightarrow> tracker_max tr' = tracker_max tr \<and>
     keys_of (overlayPerStream tr') = keys_of (overlayPerStream tr) \<and>
     (\<forall>k n. member tr' k n = member tr k n) \<and>
     overlayConnectionRtts tr' = overlayConnectionRtts tr \<and> nodeLocations tr' = nodeLocations tr \<and>
     storageNodes tr' = storageNodes tr \<and>
     (\<forall>k n. k \<notin> set ks \<or> \<not> member tr k n \<longrightarrow>
        current (instructionCounters tr') n k = current (instructionCounters tr) n k)"

lemma rewires_refl [simp]: "rewires ks tr tr"
  by (simp add: rewires_def)

lemma rewires_trans: "rewires ks tr tr1 \<Longrightarrow> rewires ks tr1 tr2 \<Longrightarrow> rewires ks tr tr2"
  by (simp add: rewires_def)

text \<open>\<open>removed tr tr' n ks\<close>: the node \<open>n\<close> left the overlays \<open>ks\<close>, and emptied ones are gone.\<close>

definition removed :: "'r tracker \<Rightarrow> 'r tracker \<Rightarrow> node_id \<Rightarrow> stream_key list \<Rightarrow> bool" where
  "removed tr tr' n ks \<longleftrightarrow> tracker_max tr' = tracker_max tr \<and>
     set (keys_of (overlayPerStream tr')) =
       {k \<in> set (keys_of (overlayPerStream tr)). k \<in> set ks \<longrightarrow> (\<exists>m. member tr' k m)} \<and>
     (\<forall>k m. member tr' k m \<longleftrightarrow> member tr k m \<and> (k \<in> set ks \<longrightarrow> m \<noteq> n)) \<and>
     overlayConnectionRtts tr' = overlayConnectionRtts tr \<and> nodeLocations tr' = nodeLocations tr \<and>
     storageNodes tr' = storageNodes tr \<and>
     (ks \<noteq> [] \<longrightarrow> (\<forall>k. current (instructionCounters tr') n k = 0))"

locale tracker_surroundings = random_choices "env_shuffle env" "env_pick env" usable
  for env :: "'r surroundings" and usable :: "'r \<Rightarrow> bool"
begin

lemma formAndSendInstructions_ok:
  assumes "tracker_ok usable tr"
  shows "\<exists>tr'. formAndSendInstructions env n ks force tr = (tr', None) \<and> tracker_ok usable tr' \<and> rewires ks tr tr'"
  unfolding formAndSendInstructions_def
proof (rule for_each_related [where I = "tracker_ok usable" and R = "rewires ks", OF _ rewires_trans _ assms])
  fix k and tr :: "'r tracker"
  assume ok: "tracker_ok usable tr" and ks: "k \<in> set ks"
  show "\<exists>tr'. (case map_of (overlayPerStream tr) k of
         None \<Rightarrow> (tr, None)
       | Some t \<Rightarrow>
           (case formInstructions (env_shuffle env) (env_pick env) (random tr) t n force of
              Inl e \<Rightarrow> (tr, Some (TopologyFailure e))
            | Inr (t', ins, r') \<Rightarrow>
                (foldl (sendOne k) (tr\<lparr>overlayPerStream := AList.update k t' (overlayPerStream tr), random := r'\<rparr>) ins,
                 None))) = (tr', None) \<and> tracker_ok usable tr' \<and> rewires ks tr tr'"
  proof (cases "map_of (overlayPerStream tr) k")
    case None
    then show ?thesis using ok by simp
  next
    case (Some t)
    note t = tracker_ok_overlay [OF ok Some]
    have us: "usable (random tr)" using ok by (simp add: tracker_ok_def)
    obtain t' ins r' where f: "formInstructions (env_shuffle env) (env_pick env) (random tr) t n force = Inr (t', ins, r')"
      "usable r'" "instructions_ok t n t' ins"
      using formInstructions_ok [of t "random tr" n force] t us by metis
    define tr' where "tr' = foldl (sendOne k) (tr\<lparr>overlayPerStream := AList.update k t' (overlayPerStream tr), random := r'\<rparr>) ins"
    have t': "overlay_ok t'" "maxNeighborsPerNode t' = tracker_max tr" "\<And>m. hasNode t' m = hasNode t m"
      using f(3) t by (simp_all add: instructions_ok_def)
    have has: "k \<in> set (keys_of (overlayPerStream tr))" using Some has_key_iff [of "overlayPerStream tr" k] by simp
    have ok': "tracker_ok usable tr'"
      using ok f(2) t' by (auto simp: tr'_def tracker_ok_def counters_ok_foldl_sendOne intro!: dict_all_update)
    have "member tr' k' m = member tr k' m" for k' m
      using t'(3) Some by (simp add: member_def tr'_def)
    moreover have "current (instructionCounters tr') m k' = current (instructionCounters tr) m k'"
      if out: "k' \<notin> set ks \<or> \<not> member tr k' m" for k' m
    proof -
      have "m \<notin> set (map fst ins)" if "k' = k"
        using f(3) out ks that Some by (auto simp: instructions_ok_def member_def)
      then have "k' \<noteq> k \<or> m \<notin> set (map fst ins)" by blast
      then show ?thesis by (simp add: tr'_def current_foldl_sendOne)
    qed
    ultimately have "rewires ks tr tr'"
      by (simp add: rewires_def tr'_def keys_update [OF has])
    with ok' show ?thesis using Some f(1) by (simp add: tr'_def)
  qed
qed simp_all

lemma leaveAndCheckEmptyOverlay_ok:
  assumes ok: "tracker_ok usable tr" and has: "k \<in> set (keys_of (overlayPerStream tr))"
  shows "\<exists>tr'. leaveAndCheckEmptyOverlay env k n tr = (tr', None) \<and> tracker_ok usable tr' \<and> removed tr tr' n [k]"
proof -
  obtain t where t: "map_of (overlayPerStream tr) k = Some t"
    using has has_key_iff [of "overlayPerStream tr" k] by auto
  note t_ok = tracker_ok_overlay [OF ok t]
  obtain t' where l: "leave t n = Inr (t', getNeighbors t n)" "overlay_ok t'"
    "maxNeighborsPerNode t' = maxNeighborsPerNode t" "\<forall>m. hasNode t' m \<longleftrightarrow> m \<noteq> n \<and> hasNode t m"
    using leave_ok [of t n] t_ok by blast
  define tr1 where "tr1 = tr\<lparr>overlayPerStream := AList.update k t' (overlayPerStream tr),
    instructionCounters := counter_removeNode (instructionCounters tr) n\<rparr>"
  have ok1: "tracker_ok usable tr1"
    using ok l(2,3) t_ok by (auto simp: tr1_def tracker_ok_def counter_removeNode_ok intro!: dict_all_update)
  have mem1: "member tr1 k' m \<longleftrightarrow> member tr k' m \<and> (k' = k \<longrightarrow> m \<noteq> n)" for k' m
    using t l(4) by (auto simp: member_def tr1_def)
  have cur1: "current (instructionCounters tr1) n k' = 0" for k' by (simp add: tr1_def)
  have keys1: "keys_of (overlayPerStream tr1) = keys_of (overlayPerStream tr)"
    using has by (simp add: tr1_def keys_update)
  have empty: "overlay_isEmpty t' \<longleftrightarrow> (\<forall>m. \<not> member tr1 k m)"
    by (cases "nodes t'") (auto simp: overlay_isEmpty_def member_def tr1_def hasNode_def)
  show ?thesis
  proof (cases "overlay_isEmpty t'")
    case True
    define tr' where "tr' = tr1\<lparr>instructionCounters := counter_removeStream (instructionCounters tr1) k,
      overlayPerStream := AList.delete k (overlayPerStream tr1)\<rparr>"
    have "leaveAndCheckEmptyOverlay env k n tr = (tr', None)"
      using True by (simp add: leaveAndCheckEmptyOverlay_def t l(1) tr1_def tr'_def)
    moreover have "tracker_ok usable tr'"
      using ok1 by (auto simp: tr'_def tracker_ok_def counter_removeStream_ok intro!: dict_all_delete)
    moreover have "removed tr tr' n [k]"
    proof -
      have "member tr' k' m \<longleftrightarrow> k' \<noteq> k \<and> member tr1 k' m" for k' m
        by (simp add: member_def tr'_def)
      moreover have "\<not> member tr1 k m" for m using True empty by simp
      moreover have "set (keys_of (overlayPerStream tr')) = set (keys_of (overlayPerStream tr)) - {k}"
        using keys1 by (auto simp: tr'_def keys_delete)
      ultimately show ?thesis
        using mem1 cur1 by (auto simp: removed_def tr'_def tr1_def)
    qed
    ultimately show ?thesis by blast
  next
    case False
    have "\<exists>tr'. for_each (\<lambda>m. formAndSendInstructions env m [k] True) (getNeighbors t n) tr1 = (tr', None) \<and>
        tracker_ok usable tr' \<and> rewires [k] tr1 tr'"
      by (rule for_each_related [where I = "tracker_ok usable" and R = "rewires [k]", OF _ rewires_trans _ ok1])
        (simp_all add: formAndSendInstructions_ok)
    then obtain tr' where tr': "for_each (\<lambda>m. formAndSendInstructions env m [k] True) (getNeighbors t n) tr1 = (tr', None)"
      "tracker_ok usable tr'" "rewires [k] tr1 tr'" by blast
    have "leaveAndCheckEmptyOverlay env k n tr = (tr', None)"
      using False tr'(1) by (simp add: leaveAndCheckEmptyOverlay_def t l(1) tr1_def)
    moreover have "removed tr tr' n [k]"
    proof -
      have "k' \<notin> set [k] \<or> \<not> member tr1 k' n" for k' using mem1 by simp
      then have cur: "current (instructionCounters tr') n k' = 0" for k'
        using tr'(3) cur1 unfolding rewires_def by metis
      show ?thesis
        using tr'(3) mem1 cur keys1 False empty by (auto simp: removed_def rewires_def tr1_def)
    qed
    ultimately show ?thesis using tr'(2) by blast
  qed
qed

lemma leaveAll_ok:
  assumes "tracker_ok usable tr" and "distinct ks" and "set ks \<subseteq> set (keys_of (overlayPerStream tr))"
  shows "\<exists>tr'. for_each (\<lambda>k. leaveAndCheckEmptyOverlay env k n) ks tr = (tr', None) \<and> tracker_ok usable tr' \<and>
    removed tr tr' n ks"
  using assms
proof (induction ks arbitrary: tr)
  case Nil
  then show ?case by (simp add: removed_def)
next
  case (Cons k ks)
  obtain tr1 where 1: "leaveAndCheckEmptyOverlay env k n tr = (tr1, None)" "tracker_ok usable tr1" "removed tr tr1 n [k]"
    using leaveAndCheckEmptyOverlay_ok [of tr k n] Cons.prems by auto
  have sub: "set ks \<subseteq> set (keys_of (overlayPerStream tr1))"
    using Cons.prems 1(3) unfolding removed_def by auto
  have dist: "distinct ks" using Cons.prems by simp
  obtain tr2 where 2: "for_each (\<lambda>k. leaveAndCheckEmptyOverlay env k n) ks tr1 = (tr2, None)" "tracker_ok usable tr2"
    "removed tr1 tr2 n ks"
    using Cons.IH [OF 1(2) dist sub] by blast
  have "removed tr tr2 n (k # ks)"
    unfolding removed_def
  proof (intro conjI allI impI)
    have "k \<notin> set ks" using Cons.prems by simp
    then show "set (keys_of (overlayPerStream tr2)) =
        {k' \<in> set (keys_of (overlayPerStream tr)). k' \<in> set (k # ks) \<longrightarrow> (\<exists>m. member tr2 k' m)}"
      using 1(3) 2(3) unfolding removed_def by auto
    show "current (instructionCounters tr2) n k' = 0" for k'
      using 1(3) 2(1,3) unfolding removed_def by (cases ks) auto
  qed (use 1(3) 2(3) in \<open>auto simp: removed_def\<close>)
  then show ?case using 1(1) 2(1,2) by simp
qed

end

text \<open>Updating overlays and creating the missing ones needs no random choice.\<close>

lemma tracker_ok_put:
  "tracker_ok usable tr \<Longrightarrow> overlay_ok t \<Longrightarrow> maxNeighborsPerNode t = tracker_max tr \<Longrightarrow>
   tracker_ok usable (tr\<lparr>overlayPerStream := AList.update k t (overlayPerStream tr)\<rparr>)"
  by (auto simp: tracker_ok_def intro!: dict_all_update)

definition same_but_overlays :: "'r tracker \<Rightarrow> 'r tracker \<Rightarrow> bool" where
  "same_but_overlays tr tr' \<longleftrightarrow> (\<exists>d. tr' = tr\<lparr>overlayPerStream := d\<rparr>)"

lemma same_but_overlaysD:
  assumes "same_but_overlays tr tr'"
  shows "tracker_max tr' = tracker_max tr" "overlayConnectionRtts tr' = overlayConnectionRtts tr"
    "nodeLocations tr' = nodeLocations tr" "instructionCounters tr' = instructionCounters tr"
    "storageNodes tr' = storageNodes tr" "random tr' = random tr" "effects tr' = effects tr"
  using assms by (auto simp: same_but_overlays_def)

lemma updateOverlays_ok:
  assumes "tracker_ok usable tr" and "set (keys_of ss) \<subseteq> set (keys_of (overlayPerStream tr))"
  shows "\<exists>tr'. for_each (updateOverlay n) ss tr = (tr', None) \<and> tracker_ok usable tr' \<and> same_but_overlays tr tr' \<and>
    keys_of (overlayPerStream tr') = keys_of (overlayPerStream tr) \<and>
    (\<forall>k m. member tr' k m \<longleftrightarrow> member tr k m \<or> (m = n \<and> k \<in> set (keys_of ss)))"
  using assms
proof (induction ss arbitrary: tr)
  case Nil
  then show ?case by (auto simp: same_but_overlays_def intro: exI [of _ "overlayPerStream tr"])
next
  case (Cons e ss)
  then obtain t where t: "map_of (overlayPerStream tr) (fst e) = Some t"
    using has_key_iff [of "overlayPerStream tr" "fst e"] by auto
  have has: "fst e \<in> set (keys_of (overlayPerStream tr))" using Cons.prems(2) by simp
  define ns where "ns = set_of (rep_inboundNodes (snd e) @ rep_outboundNodes (snd e))"
  define tr1 where "tr1 = tr\<lparr>overlayPerStream := AList.update (fst e) (update t n ns) (overlayPerStream tr)\<rparr>"
  have step: "updateOverlay n e tr = (tr1, None)" by (simp add: updateOverlay_def t tr1_def ns_def)
  have ok1: "tracker_ok usable tr1"
    unfolding tr1_def using tracker_ok_overlay [OF Cons.prems(1) t] Cons.prems(1)
    by (intro tracker_ok_put overlay_ok_update) auto
  have keys1: "keys_of (overlayPerStream tr1) = keys_of (overlayPerStream tr)"
    by (simp add: tr1_def keys_update [OF has])
  have mem1: "member tr1 k m \<longleftrightarrow> member tr k m \<or> (m = n \<and> k = fst e)" for k m
    using t by (auto simp: member_def tr1_def)
  have sub1: "set (keys_of ss) \<subseteq> set (keys_of (overlayPerStream tr1))" using Cons.prems(2) keys1 by simp
  obtain tr2 where tr2: "for_each (updateOverlay n) ss tr1 = (tr2, None)" "tracker_ok usable tr2" "same_but_overlays tr1 tr2"
    "keys_of (overlayPerStream tr2) = keys_of (overlayPerStream tr1)"
    "\<forall>k m. member tr2 k m \<longleftrightarrow> member tr1 k m \<or> (m = n \<and> k \<in> set (keys_of ss))"
    using Cons.IH [OF ok1 sub1] by blast
  have "same_but_overlays tr tr2" using tr2(3) by (auto simp: same_but_overlays_def tr1_def)
  with tr2 step keys1 mem1 show ?case by auto
qed

lemma createNewOverlayTopologies_ok:
  assumes "tracker_ok usable tr"
  shows "tracker_ok usable (createNewOverlayTopologies ss tr) \<and> same_but_overlays tr (createNewOverlayTopologies ss tr) \<and>
    set (keys_of (overlayPerStream (createNewOverlayTopologies ss tr))) =
      set (keys_of (overlayPerStream tr)) \<union> set (keys_of ss) \<and>
    (\<forall>k m. member (createNewOverlayTopologies ss tr) k m = member tr k m)"
proof -
  let ?f = "\<lambda>tr k. if has_key (overlayPerStream tr) k then tr
       else tr\<lparr>overlayPerStream := AList.update k (new_overlay (tracker_max tr)) (overlayPerStream tr)\<rparr>"
  have "tracker_ok usable (foldl ?f tr ks) \<and> same_but_overlays tr (foldl ?f tr ks) \<and>
      set (keys_of (overlayPerStream (foldl ?f tr ks))) = set (keys_of (overlayPerStream tr)) \<union> set ks \<and>
      (\<forall>k m. member (foldl ?f tr ks) k m = member tr k m)" for ks
    using assms
  proof (induction ks arbitrary: tr)
    case Nil
    then show ?case by (auto simp: same_but_overlays_def intro: exI [of _ "overlayPerStream tr"])
  next
    case (Cons k ks)
    have ok1: "tracker_ok usable (?f tr k)"
      using Cons.prems tracker_ok_put [OF Cons.prems, of "new_overlay (tracker_max tr)" k]
      by (simp add: overlay_ok_def new_overlay_def)
    have "set (keys_of (overlayPerStream (?f tr k))) = insert k (set (keys_of (overlayPerStream tr)))"
      using has_key_iff [of "overlayPerStream tr" k] by auto
    moreover have "member (?f tr k) k' m = member tr k' m" for k' m
      by (auto simp: member_def hasNode_def new_overlay_def)
    moreover have "same_but_overlays tr tr2" if "same_but_overlays (?f tr k) tr2" for tr2
      using that by (auto simp: same_but_overlays_def split: if_splits)
    ultimately show ?case using Cons.IH [OF ok1] by auto
  qed
  then show ?thesis unfolding createNewOverlayTopologies_def by blast
qed

subsection \<open>The handlers, inside their surroundings\<close>

context tracker_surroundings
begin

lemma removeNode_ok:
  assumes "tracker_ok usable tr"
  shows "\<exists>tr'. removeNode env n tr = (tr', None) \<and> tracker_ok usable tr' \<and>
    (\<forall>k m. member tr' k m \<longleftrightarrow> member tr k m \<and> m \<noteq> n) \<and>
    (\<forall>k \<in> set (keys_of (overlayPerStream tr')). \<exists>m. member tr' k m) \<and>
    n \<notin> set (storageNodes tr') \<and> \<not> has_key (overlayConnectionRtts tr') n \<and> \<not> has_key (nodeLocations tr') n \<and>
    (overlayPerStream tr \<noteq> [] \<longrightarrow> (\<forall>k. current (instructionCounters tr') n k = 0))"
proof -
  define tr1 where "tr1 = (does (Recorded ''_removeNode'') tr)\<lparr>storageNodes := set_del n (storageNodes tr),
    overlayConnectionRtts := AList.delete n (overlayConnectionRtts tr),
    nodeLocations := location_removeNode (nodeLocations tr) n\<rparr>"
  have ok1: "tracker_ok usable tr1"
    using assms by (auto simp: tr1_def tracker_ok_def location_removeNode_def)
  then have "distinct (keys_of (overlayPerStream tr1))" by (simp add: tracker_ok_def)
  then obtain tr' where tr': "for_each (\<lambda>k. leaveAndCheckEmptyOverlay env k n) (keys_of (overlayPerStream tr1)) tr1 = (tr', None)"
    "tracker_ok usable tr'" "removed tr1 tr' n (keys_of (overlayPerStream tr1))"
    using leaveAll_ok [OF ok1] by blast
  have eq: "removeNode env n tr = (tr', None)"
    using tr'(1) by (simp add: removeNode_def tr1_def)
  have fields: "storageNodes tr' = set_del n (storageNodes tr)"
    "overlayConnectionRtts tr' = AList.delete n (overlayConnectionRtts tr)"
    "nodeLocations tr' = AList.delete n (nodeLocations tr)"
    using tr'(3) by (simp_all add: removed_def tr1_def location_removeNode_def)
  have mem1: "member tr1 k m = member tr k m" for k m by (simp add: tr1_def member_def)
  have mem: "member tr' k m \<longleftrightarrow> member tr k m \<and> m \<noteq> n" for k m
  proof -
    have "k \<in> set (keys_of (overlayPerStream tr1))" if "member tr k m"
      using that has_key_iff [of "overlayPerStream tr" k] by (auto simp: tr1_def member_def split: option.splits)
    then show ?thesis using tr'(3) mem1 unfolding removed_def by metis
  qed
  have full: "\<exists>m. member tr' k m" if "k \<in> set (keys_of (overlayPerStream tr'))" for k
    using tr'(3) that unfolding removed_def by blast
  have cur: "current (instructionCounters tr') n k = 0" if "overlayPerStream tr \<noteq> []" for k
    using tr'(3) that unfolding removed_def by (simp add: tr1_def)
  have "\<forall>k \<in> set (keys_of (overlayPerStream tr')). \<exists>m. member tr' k m" using full by blast
  moreover have "n \<notin> set (storageNodes tr') \<and> \<not> has_key (overlayConnectionRtts tr') n \<and> \<not> has_key (nodeLocations tr') n"
    by (simp add: fields)
  ultimately show ?thesis using eq tr'(2) mem cur by blast
qed

lemma updateNode_ok:
  assumes ok: "tracker_ok usable tr" and sub: "set (keys_of filtered) \<subseteq> set (keys_of ss)"
    and keys: "set (keys_of ss) \<subseteq> set (keys_of (overlayPerStream tr))"
  shows "\<exists>tr'. updateNode env n filtered ss tr = (tr', None) \<and> tracker_ok usable tr' \<and>
    (\<forall>k m. member tr' k m \<longleftrightarrow> (if m = n then k \<in> set (keys_of ss) \<and> (member tr k m \<or> k \<in> set (keys_of filtered))
       else member tr k m)) \<and>
    (set (keys_of (overlayPerStream tr)) - set (keys_of ss) \<noteq> {} \<longrightarrow> (\<forall>k. current (instructionCounters tr') n k = 0))"
proof -
  have "set (keys_of filtered) \<subseteq> set (keys_of (overlayPerStream tr))" using sub keys by blast
  then obtain tr1 where 1: "for_each (updateOverlay n) filtered tr = (tr1, None)" "tracker_ok usable tr1"
    "keys_of (overlayPerStream tr1) = keys_of (overlayPerStream tr)"
    "\<And>k m. member tr1 k m \<longleftrightarrow> member tr k m \<or> (m = n \<and> k \<in> set (keys_of filtered))"
    using updateOverlays_ok [OF ok] by blast
  define gone where "gone = filter (\<lambda>k. k \<notin> set (keys_of ss)) (keys_of (overlayPerStream tr1))"
  have "distinct gone" "set gone \<subseteq> set (keys_of (overlayPerStream tr1))"
    using 1(2) by (auto simp: gone_def tracker_ok_def)
  then obtain tr2 where 2: "for_each (\<lambda>k. leaveAndCheckEmptyOverlay env k n) gone tr1 = (tr2, None)" "tracker_ok usable tr2"
    "removed tr1 tr2 n gone"
    using leaveAll_ok [OF 1(2)] by blast
  have eq: "updateNode env n filtered ss tr = (tr2, None)"
    using 1(1) 2(1) by (simp add: updateNode_def gone_def)
  have gone: "k \<in> set gone \<longleftrightarrow> k \<in> set (keys_of (overlayPerStream tr)) \<and> k \<notin> set (keys_of ss)" for k
    unfolding gone_def 1(3) by simp
  have mem: "member tr2 k m \<longleftrightarrow>
      (if m = n then k \<in> set (keys_of ss) \<and> (member tr k m \<or> k \<in> set (keys_of filtered)) else member tr k m)" for k m
  proof -
    have a: "member tr k m \<Longrightarrow> k \<in> set (keys_of (overlayPerStream tr))"
      using has_key_iff [of "overlayPerStream tr" k] by (auto simp: member_def split: option.splits)
    have b: "member tr2 k m \<longleftrightarrow> member tr1 k m \<and> (k \<in> set gone \<longrightarrow> m \<noteq> n)"
      using 2(3) unfolding removed_def by blast
    have d: "k \<in> set (keys_of filtered) \<Longrightarrow> k \<in> set (keys_of ss)" using sub by blast
    show ?thesis
    proof (cases "m = n")
      case True
      show ?thesis unfolding b gone 1(4) if_P [OF True] using a d True by blast
    next
      case False
      show ?thesis unfolding b gone 1(4) if_not_P [OF False] using False by blast
    qed
  qed
  have "gone \<noteq> []" if "set (keys_of (overlayPerStream tr)) - set (keys_of ss) \<noteq> {}"
    using that gone by (metis Diff_eq_empty_iff empty_iff set_empty subsetI)
  then show ?thesis using eq 2(2,3) mem unfolding removed_def by blast
qed

lemma updateNodeOnStream_ok:
  assumes ok: "tracker_ok usable tr" and keys: "set (keys_of filtered) \<subseteq> set (keys_of (overlayPerStream tr))"
  shows "\<exists>tr'. updateNodeOnStream env n filtered tr = (tr', None) \<and> tracker_ok usable tr' \<and>
    (\<forall>k m. member tr' k m \<longleftrightarrow>
       (if m = n \<and> length filtered = 1 \<and> k = fst (hd filtered) then rep_counter (snd (hd filtered)) \<noteq> -1
        else member tr k m))"
proof (cases "length filtered = 1")
  case False
  then show ?thesis using ok by (simp add: updateNodeOnStream_def)
next
  case True
  then obtain e where e: "filtered = [e]" by (auto simp: length_Suc_conv)
  have has: "fst e \<in> set (keys_of (overlayPerStream tr))" using keys e by simp
  show ?thesis
  proof (cases "rep_counter (snd e) = -1")
    case True
    then obtain tr' where "updateNodeOnStream env n filtered tr = (tr', None)" "tracker_ok usable tr'" "removed tr tr' n [fst e]"
      using leaveAndCheckEmptyOverlay_ok [OF ok has] e by (auto simp: updateNodeOnStream_def)
    then show ?thesis using True e by (auto simp: removed_def)
  next
    case False
    have "\<exists>tr'. for_each (updateOverlay n) [e] tr = (tr', None) \<and> tracker_ok usable tr' \<and>
        (\<forall>k m. member tr' k m \<longleftrightarrow> member tr k m \<or> (m = n \<and> k = fst e))"
      using updateOverlays_ok [OF ok, of "[e]" n] has by auto
    moreover have "for_each (updateOverlay n) [e] tr = updateOverlay n e tr"
      by (simp add: and_then_def split: option.split) (metis prod.collapse)
    ultimately show ?thesis using False e by (auto simp: updateNodeOnStream_def)
  qed
qed

lemma processNodeStatus_ok:
  assumes ok: "tracker_ok usable tr" and res: "env_resolve env source = Some address"
    and filtered: "filtered = filter (fresh_entry (instructionCounters tr) source) (streams st)"
  shows "\<exists>tr'. processNodeStatus env st source tr = (tr', None) \<and> tracker_ok usable tr' \<and>
    (\<forall>k m. member tr' k m \<longleftrightarrow>
       (if m \<noteq> source then member tr k m
        else if \<not> singleStream st then k \<in> set (keys_of (streams st)) \<and> (member tr k m \<or> k \<in> set (keys_of filtered))
        else if length filtered = 1 \<and> k = fst (hd filtered) then rep_counter (snd (hd filtered)) \<noteq> -1
        else member tr k m))"
proof -
  define tr3 where "tr3 = (does (Recorded ''processNodeStatus'') tr)\<lparr>
    instructionCounters := fst (filterStatus (instructionCounters tr) (streams st) source),
    overlayConnectionRtts := AList.update source (status_rtts st) (overlayConnectionRtts tr),
    nodeLocations := updateLocation (env_lookup env) (nodeLocations tr) source (status_location st) address\<rparr>"
  define tr4 where "tr4 = createNewOverlayTopologies (streams st) tr3"
  have "dict_ok (nodeLocations tr3)"
    using ok by (auto simp: tr3_def tracker_ok_def updateLocation_def split: option.split)
  then have "tracker_ok usable tr3"
    using ok by (auto simp: tr3_def tracker_ok_def filterStatus_ok)
  note c = createNewOverlayTopologies_ok [OF this, of "streams st", folded tr4_def]
  have ok4: "tracker_ok usable tr4" using c by blast
  have "member tr3 k m = member tr k m" for k m by (simp add: member_def tr3_def)
  then have mem4: "member tr4 k m = member tr k m" for k m using c by blast
  have keys4: "set (keys_of (streams st)) \<subseteq> set (keys_of (overlayPerStream tr4))" using c by blast
  have sub: "set (keys_of filtered) \<subseteq> set (keys_of (streams st))" by (auto simp: filtered)
  then have sub4: "set (keys_of filtered) \<subseteq> set (keys_of (overlayPerStream tr4))" using keys4 by blast
  define upd where "upd = (if singleStream st then updateNodeOnStream env source filtered tr4
    else updateNode env source filtered (streams st) tr4)"
  have eq: "processNodeStatus env st source tr =
      and_then upd (formAndSendInstructions env source (keys_of (streams st)) False)"
    using res by (simp add: processNodeStatus_def case_prod_beta snd_filterStatus filtered tr4_def tr3_def upd_def Let_def)
  have "\<exists>tr5. upd = (tr5, None) \<and> tracker_ok usable tr5 \<and>
    (\<forall>k m. member tr5 k m \<longleftrightarrow>
       (if m \<noteq> source then member tr k m
        else if \<not> singleStream st then k \<in> set (keys_of (streams st)) \<and> (member tr k m \<or> k \<in> set (keys_of filtered))
        else if length filtered = 1 \<and> k = fst (hd filtered) then rep_counter (snd (hd filtered)) \<noteq> -1
        else member tr k m))"
  proof (cases "singleStream st")
    case True
    then show ?thesis using updateNodeOnStream_ok [OF ok4 sub4, of source] mem4 by (auto simp: upd_def)
  next
    case False
    obtain tr5 where "updateNode env source filtered (streams st) tr4 = (tr5, None)" "tracker_ok usable tr5"
      "\<forall>k m. member tr5 k m \<longleftrightarrow> (if m = source then k \<in> set (keys_of (streams st)) \<and>
         (member tr4 k m \<or> k \<in> set (keys_of filtered)) else member tr4 k m)"
      using updateNode_ok [OF ok4 sub keys4, of source] by blast
    then show ?thesis using False mem4 by (simp add: upd_def)
  qed
  then obtain tr5 where 5: "upd = (tr5, None)" "tracker_ok usable tr5" and mem5: "\<forall>k m. member tr5 k m \<longleftrightarrow>
       (if m \<noteq> source then member tr k m
        else if \<not> singleStream st then k \<in> set (keys_of (streams st)) \<and> (member tr k m \<or> k \<in> set (keys_of filtered))
        else if length filtered = 1 \<and> k = fst (hd filtered) then rep_counter (snd (hd filtered)) \<noteq> -1
        else member tr k m)" by blast
  obtain tr6 where "formAndSendInstructions env source (keys_of (streams st)) False tr5 = (tr6, None)"
    "tracker_ok usable tr6" "rewires (keys_of (streams st)) tr5 tr6"
    using formAndSendInstructions_ok [OF 5(2)] by blast
  with eq 5(1) mem5 show ?thesis by (simp add: rewires_def)
qed

lemma tracker_handle_ok:
  assumes ok: "tracker_ok usable tr"
  shows "\<exists>tr' err. tracker_handle env tr e = (tr', err) \<and> tracker_ok usable tr' \<and>
    (err = None \<or> (\<exists>st source. e = OnNodeStatus st source \<and> env_resolve env source = None \<and>
       err = Some (AddressNotResolved source)))"
proof (cases e)
  case (OnNodeConnected n storage)
  have "tracker_ok usable (onNodeConnected n storage tr)"
    using ok by (simp add: onNodeConnected_def tracker_ok_def)
  then show ?thesis by (simp add: OnNodeConnected)
next
  case (OnNodeDisconnected n)
  have "tracker_ok usable (does (Recorded ''onNodeDisconnected'') tr)" using ok by simp
  then show ?thesis
    using removeNode_ok [of "does (Recorded ''onNodeDisconnected'') tr" n]
    by (auto simp: OnNodeDisconnected onNodeDisconnected_def)
next
  case (OnNodeStatus st source)
  show ?thesis
  proof (cases "env_resolve env source")
    case None
    define tr2 where "tr2 = (does (Recorded ''processNodeStatus'') tr)\<lparr>
      instructionCounters := fst (filterStatus (instructionCounters tr) (streams st) source),
      overlayConnectionRtts := AList.update source (status_rtts st) (overlayConnectionRtts tr)\<rparr>"
    have "tracker_ok usable tr2" using ok by (auto simp: tr2_def tracker_ok_def filterStatus_ok)
    moreover have "tracker_handle env tr e = (tr2, Some (AddressNotResolved source))"
      using None by (simp add: OnNodeStatus processNodeStatus_def case_prod_beta Let_def tr2_def)
    ultimately show ?thesis using None OnNodeStatus by blast
  next
    case (Some address)
    then show ?thesis using processNodeStatus_ok [OF ok Some refl, of st] by (auto simp: OnNodeStatus)
  qed
next
  case (OnStorageNodesRequest s source)
  then show ?thesis using ok by (simp add: findStorageNodes_def)
qed

sublocale tracker: step_invariant "tracker_step env" "\<lambda>_. True" "tracker_ok usable"
proof
  show "tracker_ok usable (tracker_step env tr e)" if "tracker_ok usable tr" for tr e
    using tracker_handle_ok [OF that, of e] by (auto simp: tracker_step_def)
qed

lemma tracker_run_ok:
  assumes "usable r"
  shows "tracker_ok usable (foldl (tracker_step env) (new_tracker k r) es)"
  using assms by (intro tracker.run_inv) (simp_all add: tracker_ok_def new_tracker_def counters_ok_def)

end

subsection \<open>What one round of instructions sends\<close>

definition sends :: "stream_key \<Rightarrow> counters \<Rightarrow> instructions \<Rightarrow> tracker_effect list" where
  "sends k c ins = concat (map (\<lambda>(n, ns). [Recorded ''instructionsSent'',
     (case from_key k of Inl _ \<Rightarrow> InstructionFailed n k (current c n k + 1)
        | Inr s \<Rightarrow> SendInstruction n s ns (current c n k + 1))]) ins)"

lemma effects_foldl_sendOne:
  "distinct (map fst ins) \<Longrightarrow>
   effects (foldl (sendOne k) tr ins) = effects tr @ sends k (instructionCounters tr) ins"
proof (induction ins arbitrary: tr)
  case (Cons i ins)
  obtain n ns where i: "i = (n, ns)" by (cases i)
  have "current (instructionCounters (sendOne k tr i)) m k = current (instructionCounters tr) m k"
    if "(m, ms) \<in> set ins" for m ms
    using Cons.prems that by (force simp: i)
  then have "sends k (instructionCounters (sendOne k tr i)) ins = sends k (instructionCounters tr) ins"
    unfolding sends_def by (intro arg_cong [where f = concat] map_cong) (auto split: sum.split)
  moreover have "effects (sendOne k tr i) = effects tr @ sends k (instructionCounters tr) [i]"
    by (simp add: sends_def sendOne_def i Let_def split: sum.split)
  moreover have "sends k (instructionCounters tr) (i # ins) =
      sends k (instructionCounters tr) [i] @ sends k (instructionCounters tr) ins"
    by (simp add: sends_def)
  ultimately show ?case using Cons.IH [of "sendOne k tr i"] Cons.prems by (simp del: sendOne_fields)
qed (simp add: sends_def)

text \<open>The surroundings with the default random choices.\<close>

definition math_random_surroundings :: "(node_id \<Rightarrow> string option) \<Rightarrow> (string \<Rightarrow> geo_record option) \<Rightarrow> rng surroundings" where
  "math_random_surroundings resolve lookup =
     \<lparr>env_shuffle = shuffleArray, env_pick = pickRandomElement, env_resolve = resolve, env_lookup = lookup\<rparr>"

interpretation math_random_tracker: tracker_surroundings "math_random_surroundings resolve lookup" draws_ok
  for resolve lookup
  by unfold_locales
    (simp_all add: math_random_surroundings_def math_random.shuffle_perm math_random.shuffle_usable
      math_random.pick_member math_random.pick_usable)

subsection \<open>What the tracker promises\<close>

definition example_surroundings :: "rng surroundings" where
  "example_surroundings = math_random_surroundings (\<lambda>n. Some ''ws://1.2.3.4'') (\<lambda>_. None)"

lemma example_random_choices:
  "random_choices (env_shuffle example_surroundings) (env_pick example_surroundings) draws_ok"
  using math_random.random_choices_axioms by (simp add: example_surroundings_def math_random_surroundings_def)

definition example_status :: "stream_key list \<Rightarrow> status" where
  "example_status ks = \<lparr>streams = map (\<lambda>k. (k, \<lparr>rep_inboundNodes = [], rep_outboundNodes = [], rep_counter = 0\<rparr>)) ks,
     status_rtts = None, status_location = None, singleStream = False\<rparr>"

lemma example_tracker_ok: "tracker_ok draws_ok (new_tracker 2 example_rng)"
  using example_rng_ok by (simp add: tracker_ok_def new_tracker_def counters_ok_def)

text \<open>
  C38. Whatever events a tracker receives, with whatever random choices, no handler throws,
  except that a status from a node whose address the server does not know is given up; and
  after every event the tracker is well formed: each stream has one overlay, with the
  tracker's neighbour bound and a symmetric graph without self-links.
\<close>

theorem tracker_never_throws:
  assumes "random_choices (env_shuffle env) (env_pick env) usable" and "usable r"
    and "tr = foldl (tracker_step env) (new_tracker k r) es"
  shows "tracker_ok usable (fst (tracker_handle env tr e)) \<and>
    (snd (tracker_handle env tr e) = None \<or>
     (\<exists>st source. e = OnNodeStatus st source \<and> env_resolve env source = None \<and>
        snd (tracker_handle env tr e) = Some (AddressNotResolved source)))"
proof -
  have t: "tracker_surroundings env usable"
    using assms(1) by (simp add: tracker_surroundings_def)
  show ?thesis
    using tracker_surroundings.tracker_handle_ok [OF t, of tr e]
      tracker_surroundings.tracker_run_ok [OF t assms(2), of k es] assms(3) by auto
qed

theorem tracker_never_throws_witness:
  "snd (tracker_handle example_surroundings
     (foldl (tracker_step example_surroundings) (new_tracker 2 example_rng) [OnNodeStatus (example_status [''s::0'']) ''a''])
     (OnNodeDisconnected ''a'')) = None"
  using tracker_never_throws [OF example_random_choices example_rng_ok refl, of 2
      "[OnNodeStatus (example_status [''s::0'']) ''a'']" "OnNodeDisconnected ''a''"] by simp

text \<open>
  C39. After the status of a node, the node is a member of exactly the overlays it should be:
  a full status puts it into the overlays of the streams it lists (entries older than the
  last instruction change nothing, but the node stays where it was) and takes it out of all
  others; the status of a single stream touches that stream alone, where the counter -1
  takes the node out. The members of all overlays other than the sender never change.
\<close>

theorem status_places_node:
  assumes "random_choices (env_shuffle env) (env_pick env) usable" and "tracker_ok usable tr"
    and "env_resolve env source = Some address"
    and "filtered = filter (\<lambda>(k, e). rep_counter e \<ge> current (instructionCounters tr) source k \<or> rep_counter e = -1) (streams st)"
  shows "\<exists>tr'. processNodeStatus env st source tr = (tr', None) \<and>
    (\<forall>k m. member tr' k m \<longleftrightarrow>
       (if m \<noteq> source then member tr k m
        else if \<not> singleStream st then k \<in> set (keys_of (streams st)) \<and> (member tr k m \<or> k \<in> set (keys_of filtered))
        else if length filtered = 1 \<and> k = fst (hd filtered) then rep_counter (snd (hd filtered)) \<noteq> -1
        else member tr k m))"
proof -
  have t: "tracker_surroundings env usable"
    using assms(1) by (simp add: tracker_surroundings_def)
  have "filtered = filter (fresh_entry (instructionCounters tr) source) (streams st)"
    unfolding assms(4) by (rule filter_cong) (auto simp: fresh_entry_def)
  from tracker_surroundings.processNodeStatus_ok [OF t assms(2,3) this] show ?thesis by blast
qed

theorem status_places_node_witness:
  "\<exists>tr'. processNodeStatus example_surroundings (example_status [''s::0'']) ''a'' (new_tracker 2 example_rng) = (tr', None) \<and>
    member tr' ''s::0'' ''a'' \<and> \<not> member tr' ''t::0'' ''a''"
proof -
  have "env_resolve example_surroundings ''a'' = Some ''ws://1.2.3.4''"
    by (simp add: example_surroundings_def math_random_surroundings_def)
  from status_places_node [OF example_random_choices example_tracker_ok this refl, of "example_status [''s::0'']"]
  show ?thesis by (auto simp: example_status_def new_tracker_def current_def node_counters_def)
qed

text \<open>
  A node that disconnects is forgotten: it is in no overlay, it is no storage node and has
  no round-trip times and no location, all other members stay, and no empty overlay is left.
\<close>

theorem disconnect_forgets_node:
  assumes "random_choices (env_shuffle env) (env_pick env) usable" and "tracker_ok usable tr"
  shows "\<exists>tr'. onNodeDisconnected env n tr = (tr', None) \<and>
    (\<forall>k m. member tr' k m \<longleftrightarrow> member tr k m \<and> m \<noteq> n) \<and>
    (\<forall>k \<in> set (keys_of (overlayPerStream tr')). \<exists>m. member tr' k m) \<and>
    n \<notin> set (storageNodes tr') \<and> \<not> has_key (overlayConnectionRtts tr') n \<and> \<not> has_key (nodeLocations tr') n"
proof -
  have t: "tracker_surroundings env usable"
    using assms(1) by (simp add: tracker_surroundings_def)
  have "tracker_ok usable (does (Recorded ''onNodeDisconnected'') tr)" using assms(2) by simp
  from tracker_surroundings.removeNode_ok [OF t this, of n] show ?thesis
    unfolding onNodeDisconnected_def by (auto simp: member_def)
qed

theorem disconnect_forgets_node_witness:
  "\<exists>tr'. onNodeDisconnected example_surroundings ''a'' (onNodeConnected ''a'' True (new_tracker 2 example_rng)) = (tr', None) \<and>
    ''a'' \<notin> set (storageNodes tr')"
proof -
  have "tracker_ok draws_ok (onNodeConnected ''a'' True (new_tracker 2 example_rng))"
    using example_tracker_ok by (simp add: onNodeConnected_def tracker_ok_def)
  from disconnect_forgets_node [OF example_random_choices this, of "''a''"] show ?thesis by blast
qed

text \<open>
  One round of instructions for a stream sends to each node that was rewired its new
  neighbours, those of the overlay after the round, under the next number of that node on
  that stream, and sends nothing else.
\<close>

theorem instructions_sent:
  assumes "random_choices (env_shuffle env) (env_pick env) usable" and "tracker_ok usable tr"
    and "map_of (overlayPerStream tr) (stream_key s) = Some t" and "clean_id (sp_id s)"
  shows "\<exists>tr' t' ins. formAndSendInstructions env n [stream_key s] force tr = (tr', None) \<and>
    map_of (overlayPerStream tr') (stream_key s) = Some t' \<and> instructions_ok t n t' ins \<and>
    effects tr' = effects tr @ concat (map (\<lambda>(m, _). [Recorded ''instructionsSent'',
      SendInstruction m s (getNeighbors t' m) (current (instructionCounters tr) m (stream_key s) + 1)]) ins)"
proof -
  have us: "usable (random tr)" using assms(2) by (simp add: tracker_ok_def)
  have ok: "overlay_ok t" using tracker_ok_overlay [OF assms(2,3)] by simp
  obtain t' ins r' where f: "formInstructions (env_shuffle env) (env_pick env) (random tr) t n force = Inr (t', ins, r')"
    "instructions_ok t n t' ins" "distinct (map fst ins)"
    by (rule random_choices.formInstructions_ok [OF assms(1) ok us, of n force]) blast
  define tr1 where "tr1 = tr\<lparr>overlayPerStream := AList.update (stream_key s) t' (overlayPerStream tr), random := r'\<rparr>"
  have "formAndSendInstructions env n [stream_key s] force tr = (foldl (sendOne (stream_key s)) tr1 ins, None)"
    by (simp add: formAndSendInstructions_def assms(3) f(1) tr1_def)
  moreover have "effects (foldl (sendOne (stream_key s)) tr1 ins) =
      effects tr @ sends (stream_key s) (instructionCounters tr) ins"
    by (simp add: effects_foldl_sendOne [OF f(3)] tr1_def)
  moreover have "sends (stream_key s) (instructionCounters tr) ins = concat (map (\<lambda>(m, _). [Recorded ''instructionsSent'',
      SendInstruction m s (getNeighbors t' m) (current (instructionCounters tr) m (stream_key s) + 1)]) ins)"
    unfolding sends_def
    by (rule arg_cong [where f = concat], rule map_cong)
      (use f(2) in \<open>auto simp: from_key_clean [OF assms(4)] instructions_ok_def\<close>)
  moreover have "map_of (overlayPerStream (foldl (sendOne (stream_key s)) tr1 ins)) (stream_key s) = Some t'"
    by (simp add: tr1_def)
  ultimately show ?thesis
    using f(2) by (intro exI [of _ "foldl (sendOne (stream_key s)) tr1 ins"] exI [of _ t'] exI [of _ ins] conjI) simp_all
qed

definition example_tracker :: "rng tracker" where
  "example_tracker = (new_tracker 2 example_rng)\<lparr>overlayPerStream := [(''s::0'', example_overlay)]\<rparr>"

theorem instructions_sent_witness:
  "\<exists>tr' t' (ins :: instructions). formAndSendInstructions example_surroundings ''d'' [''s::0''] False example_tracker = (tr', None) \<and>
    map_of (overlayPerStream tr') ''s::0'' = Some t' \<and>
    effects tr' = concat (map (\<lambda>(m, _). [Recorded ''instructionsSent'',
      SendInstruction m \<lparr>sp_id = ''s'', sp_partition = 0\<rparr> (getNeighbors t' m) 1]) ins)"
proof -
  let ?s = "\<lparr>sp_id = ''s'', sp_partition = 0\<rparr>"
  have k: "stream_key ?s = ''s::0''"
    by code_simp
  have ok: "tracker_ok draws_ok example_tracker"
    using example_rng_ok example_overlay_ok
    by (auto simp: example_tracker_def tracker_ok_def new_tracker_def counters_ok_def dict_all_def example_overlay_def)
  have t: "map_of (overlayPerStream example_tracker) (stream_key ?s) = Some example_overlay"
    by (simp add: k example_tracker_def)
  have "clean_id (sp_id ?s)" by simp
  from instructions_sent [OF example_random_choices ok t this, of "''d''" False] obtain tr' t' and ins :: instructions where w:
    "formAndSendInstructions example_surroundings ''d'' [stream_key ?s] False example_tracker = (tr', None)"
    "map_of (overlayPerStream tr') (stream_key ?s) = Some t'"
    "effects tr' = effects example_tracker @ concat (map (\<lambda>(m, _). [Recorded ''instructionsSent'',
      SendInstruction m ?s (getNeighbors t' m) (current (instructionCounters example_tracker) m (stream_key ?s) + 1)]) ins)"
    by (elim exE conjE) (rule that)
  have e: "effects example_tracker = []" and c: "current (instructionCounters example_tracker) m (stream_key ?s) = 0" for m
    by (simp_all add: example_tracker_def new_tracker_def current_def node_counters_def)
  from w(3) have "effects tr' = concat (map (\<lambda>(m, _). [Recorded ''instructionsSent'', SendInstruction m ?s (getNeighbors t' m) 1]) ins)"
    unfolding e c by simp
  with w(1,2) show ?thesis unfolding k by blast
qed

text \<open>
  The numbering is not kept: a full status that leaves out any stream the tracker has an
  overlay for resets the counters of the node on all streams, also on those it lists, because
  leaving an overlay removes the node from the counter altogether.
\<close>

theorem full_status_resets_counters:
  assumes "random_choices (env_shuffle env) (env_pick env) usable" and "tracker_ok usable tr"
    and "set (keys_of filtered) \<subseteq> set (keys_of ss)" and "set (keys_of ss) \<subseteq> set (keys_of (overlayPerStream tr))"
    and "k' \<in> set (keys_of (overlayPerStream tr))" and "k' \<notin> set (keys_of ss)"
  shows "\<exists>tr'. updateNode env n filtered ss tr = (tr', None) \<and> (\<forall>k. current (instructionCounters tr') n k = 0)"
proof -
  have t: "tracker_surroundings env usable"
    using assms(1) by (simp add: tracker_surroundings_def)
  show ?thesis
    using tracker_surroundings.updateNode_ok [OF t assms(2-4), of n] assms(5,6) by blast
qed

theorem full_status_resets_counters_witness:
  "\<exists>tr'. updateNode example_surroundings ''a'' (streams (example_status [''s::0''])) (streams (example_status [''s::0'']))
     (example_tracker\<lparr>overlayPerStream := [(''s::0'', example_overlay), (''t::0'', example_overlay)],
        instructionCounters := [(''a'', [(''s::0'', 7)])]\<rparr>) = (tr', None) \<and>
   current (instructionCounters tr') ''a'' ''s::0'' = 0"
proof -
  let ?tr = "example_tracker\<lparr>overlayPerStream := [(''s::0'', example_overlay), (''t::0'', example_overlay)],
        instructionCounters := [(''a'', [(''s::0'', 7)])]\<rparr>"
  have "tracker_ok draws_ok ?tr"
    using example_rng_ok example_overlay_ok
    by (auto simp: example_tracker_def tracker_ok_def new_tracker_def counters_ok_def dict_all_def example_overlay_def)
  from full_status_resets_counters [OF example_random_choices this, of "streams (example_status [''s::0''])"
      "streams (example_status [''s::0''])" "''t::0''" "''a''"] show ?thesis
    by (auto simp: example_status_def)
qed

end
