(* ===== verification/TrackerSummary.thy ===== *)
theory TrackerSummary
  imports Tracker
begin

section \<open>Summaries of the tracker and their HTTP endpoints\<close>

text \<open>
  \<open>src/src/logic/trackerSummaryUtils.ts\<close> and the validation, routing and caching of
  \<open>src/src/helpers/trackerHttpEndpoints.ts\<close>. A response is a value: the status code with the
  error message, or the data that is rendered as JSON. A request carries its parameters
  already decoded (\<open>decodeURIComponent\<close>); headers, aborted requests and the metrics endpoint
  are input and output only and not modelled.
\<close>

type_synonym overlays = "(stream_key, overlay) dict"
type_synonym connection_rtts = "(node_id, rtts option) dict"

text \<open>\<open>s.includes(t)\<close>.\<close>

definition str_includes :: "string \<Rightarrow> string \<Rightarrow> bool" where
  "str_includes s t \<longleftrightarrow> list_ex (\<lambda>i. take (length t) (drop i s) = t) [0..<Suc (length s)]"

definition isSafeInteger :: "int \<Rightarrow> bool" where
  "isSafeInteger i \<longleftrightarrow> \<bar>i\<bar> \<le> 2 ^ 53 - 1"

definition findStreamKeys :: "overlays \<Rightarrow> string option \<Rightarrow> int option \<Rightarrow> stream_key list" where
  "findStreamKeys os sid part =
     (if truthy_string sid \<and> part = None then filter (\<lambda>k. str_includes k (the sid)) (keys_of os)
      else if truthy_string sid \<and> isSafeInteger (the part) \<and> the part \<ge> 0 then
        filter (\<lambda>k. k = stream_key \<lparr>sp_id = the sid, sp_partition = the part\<rparr>) (keys_of os)
      else keys_of os)"

text \<open>
  \<open>nodeOneRtts[nodeTwo] || nodeTwoRtts[nodeOne] || null\<close> inside a \<open>try\<close>: reading a property of
  \<open>undefined\<close> or \<open>null\<close> throws, and then the result is \<open>null\<close>. \<open>Some None\<close> is such a throw.
\<close>

definition getNodeToNodeConnectionRtts :: "node_id \<Rightarrow> node_id \<Rightarrow> rtts option \<Rightarrow> rtts option \<Rightarrow> int option" where
  "getNodeToNodeConnectionRtts one two oneRtts twoRtts =
     (case oneRtts of
        None \<Rightarrow> None
      | Some r1 \<Rightarrow>
          (case map_of r1 two of
             Some v \<Rightarrow> if v \<noteq> 0 then Some v
               else (case twoRtts of None \<Rightarrow> None
                 | Some r2 \<Rightarrow> (case map_of r2 one of None \<Rightarrow> None | Some w \<Rightarrow> if w \<noteq> 0 then Some w else None))
           | None \<Rightarrow> (case twoRtts of None \<Rightarrow> None
                 | Some r2 \<Rightarrow> (case map_of r2 one of None \<Rightarrow> None | Some w \<Rightarrow> if w \<noteq> 0 then Some w else None))))"

definition rtts_of :: "connection_rtts \<Rightarrow> node_id \<Rightarrow> rtts option" where
  "rtts_of c n = (case map_of c n of None \<Rightarrow> None | Some r \<Rightarrow> r)"

definition addRttsToNodeConnections ::
  "node_id \<Rightarrow> node_id list \<Rightarrow> connection_rtts \<Rightarrow> node_id \<times> (node_id \<times> int option) list" where
  "addRttsToNodeConnections n neighbors c =
     (n, map (\<lambda>m. (m, getNodeToNodeConnectionRtts n m (rtts_of c n) (rtts_of c m))) neighbors)"

type_synonym topology_summary = "(stream_key, (node_id, (node_id \<times> int option) list) dict) dict"

definition getTopology :: "overlays \<Rightarrow> connection_rtts \<Rightarrow> string option \<Rightarrow> int option \<Rightarrow> topology_summary" where
  "getTopology os c sid part =
     map (\<lambda>k. (k, map (\<lambda>(n, neighbors). addRttsToNodeConnections n neighbors c)
        (overlay_state (the (map_of os k))))) (findStreamKeys os sid part)"

record stream_size =
  size_streamId :: string
  size_partition :: int
  size_nodeCount :: nat

fun streamSizes :: "overlays \<Rightarrow> stream_key list \<Rightarrow> id_error + stream_size list" where
  "streamSizes os [] = Inr []"
| "streamSizes os (k # ks) =
     (case from_key k of
        Inl e \<Rightarrow> Inl e
      | Inr s \<Rightarrow>
          (case streamSizes os ks of
             Inl e \<Rightarrow> Inl e
           | Inr rest \<Rightarrow> Inr (\<lparr>size_streamId = sp_id s, size_partition = sp_partition s,
               size_nodeCount = getNumberOfNodes (the (map_of os k))\<rparr> # rest)))"

definition getStreamSizes :: "overlays \<Rightarrow> string option \<Rightarrow> int option \<Rightarrow> id_error + stream_size list" where
  "getStreamSizes os sid part = streamSizes os (findStreamKeys os sid part)"

definition getNodeConnections :: "node_id list \<Rightarrow> overlays \<Rightarrow> (node_id, node_id list) dict" where
  "getNodeConnections ns os =
     foldl (\<lambda>d n. foldl (\<lambda>d t. AList.update n (set_of (the (map_of d n) @ getNeighbors t n)) d) d (values_of os))
       (foldl (\<lambda>d n. AList.update n [] d) [] ns) ns"

subsection \<open>Endpoints\<close>

datatype 'a response = Unprocessable string | Ok 'a

definition trim :: "string \<Rightarrow> string" where
  "trim s = rev (dropWhile is_space (rev (dropWhile is_space s)))"

definition validateStreamId :: "string \<Rightarrow> string option" where
  "validateStreamId param = (let s = trim param in if length s = 0 then None else Some s)"

definition validatePartition :: "string \<Rightarrow> int option" where
  "validatePartition param = (case parseInt param of
       None \<Rightarrow> None
     | Some p \<Rightarrow> if \<not> isSafeInteger p \<or> p < 0 then None else Some p)"

definition streamId_message :: string where
  "streamId_message = ''streamId cannot be empty''"

definition partition_message :: "string \<Rightarrow> string" where
  "partition_message param = ''partition must be a positive integer (was '' @
     (case parseInt param of None \<Rightarrow> ''NaN'' | Some p \<Rightarrow> show_int p) @ '')''"

text \<open>
  The routes under \<open>/topology\<close>: no parameter, a stream, a stream and a part; the routes
  under \<open>/topology-size\<close> have the same shape.
\<close>

definition withStream :: "string option \<Rightarrow> string option \<Rightarrow> (string option \<Rightarrow> int option \<Rightarrow> 'a) \<Rightarrow> 'a response" where
  "withStream streamParam partitionParam answer =
     (case streamParam of
        None \<Rightarrow> Ok (answer None None)
      | Some sp \<Rightarrow>
          (case validateStreamId sp of
             None \<Rightarrow> Unprocessable streamId_message
           | Some sid \<Rightarrow>
               (case partitionParam of
                  None \<Rightarrow> Ok (answer (Some sid) None)
                | Some pp \<Rightarrow>
                    (case validatePartition pp of
                       None \<Rightarrow> Unprocessable (partition_message pp)
                     | Some p \<Rightarrow> Ok (answer (Some sid) (Some p))))))"

definition get_topology :: "'r tracker \<Rightarrow> string option \<Rightarrow> string option \<Rightarrow> topology_summary response" where
  "get_topology tr streamParam partitionParam =
     withStream streamParam partitionParam (getTopology (overlayPerStream tr) (overlayConnectionRtts tr))"

definition get_topology_size :: "'r tracker \<Rightarrow> string option \<Rightarrow> string option \<Rightarrow> (id_error + stream_size list) response" where
  "get_topology_size tr streamParam partitionParam =
     withStream streamParam partitionParam (getStreamSizes (overlayPerStream tr))"

definition get_node_connections :: "node_id list \<Rightarrow> 'r tracker \<Rightarrow> (node_id, (node_id \<times> int option) list) dict" where
  "get_node_connections ns tr =
     map (\<lambda>(n, neighbors). addRttsToNodeConnections n neighbors (overlayConnectionRtts tr))
       (getNodeConnections ns (overlayPerStream tr))"

text \<open>\<open>cachedJsonGet\<close>: the cache of one endpoint, the present time and the factory.\<close>

record 'a cached =
  cached_timestamp :: int
  cached_json :: 'a

definition cachedJsonGet :: "int \<Rightarrow> (int \<Rightarrow> 'a) \<Rightarrow> int \<Rightarrow> 'a cached option \<Rightarrow> 'a cached" where
  "cachedJsonGet maxAge jsonFactory now cache =
     (case cache of
        None \<Rightarrow> \<lparr>cached_timestamp = now, cached_json = jsonFactory now\<rparr>
      | Some c \<Rightarrow>
          if now > cached_timestamp c + maxAge then \<lparr>cached_timestamp = now, cached_json = jsonFactory now\<rparr> else c)"

text \<open>
  \<open>trackerHttpEndpoints\<close>: what each route answers. A request that is never answered is \<open>None\<close>: the
  handlers of the sizes are asynchronous, so what they throw answers nothing, and the metrics
  are not sent when the request was aborted meanwhile (\<open>report\<close> is \<open>None\<close>).
\<close>

datatype tracker_route = TopologyRoute "string option" "string option" | SizeRoute "string option" "string option"
  | ConnectionsRoute | LocationsRoute | LocationRoute string | MetricsRoute

datatype 'm tracker_body = ErrorBody string | TopologyBody topology_summary | SizesBody "stream_size list"
  | ConnectionsBody "(node_id, (node_id \<times> int option) list) dict" | LocationsBody locations | LocationBody "location option"
  | MetricsBody 'm

record 'm http_answer =
  ha_status :: "string option"
  ha_headers :: "(string \<times> string) list"
  ha_body :: "'m tracker_body"

definition writeCorsHeaders :: "string \<Rightarrow> (string \<times> string) list" where
  "writeCorsHeaders origin = [(''Access-Control-Allow-Origin'', origin), (''Access-Control-Allow-Credentials'', ''true'')]"

definition respondWithError :: "string \<Rightarrow> string \<Rightarrow> 'm http_answer" where
  "respondWithError origin e = \<lparr>ha_status = Some ''422 Unprocessable Entity'', ha_headers = writeCorsHeaders origin, ha_body = ErrorBody e\<rparr>"

definition respond :: "string \<Rightarrow> 'm tracker_body \<Rightarrow> 'm http_answer" where
  "respond origin b = \<lparr>ha_status = None, ha_headers = writeCorsHeaders origin, ha_body = b\<rparr>"

type_synonym connections_cache = "(node_id, (node_id \<times> int option) list) dict cached option"

fun serve ::
  "'r tracker \<Rightarrow> node_id list \<Rightarrow> int \<Rightarrow> string \<Rightarrow> 'm option \<Rightarrow> connections_cache \<Rightarrow> tracker_route \<Rightarrow>
   'm http_answer option \<times> connections_cache" where
  "serve tr ns now origin report c (TopologyRoute sp pp) = (Some (case get_topology tr sp pp of
       Unprocessable e \<Rightarrow> respondWithError origin e
     | Ok a \<Rightarrow> respond origin (TopologyBody a)), c)"
| "serve tr ns now origin report c (SizeRoute sp pp) = (case get_topology_size tr sp pp of
       Unprocessable e \<Rightarrow> Some (respondWithError origin e)
     | Ok (Inl e) \<Rightarrow> None
     | Ok (Inr a) \<Rightarrow> Some (respond origin (SizesBody a)), c)"
| "serve tr ns now origin report c ConnectionsRoute =
     (let c' = cachedJsonGet 15000 (\<lambda>_. get_node_connections ns tr) now c
      in (Some (respond origin (ConnectionsBody (cached_json c'))), Some c'))"
| "serve tr ns now origin report c LocationsRoute = (Some (respond origin (LocationsBody (nodeLocations tr))), c)"
| "serve tr ns now origin report c (LocationRoute n) =
     (Some (respond origin (LocationBody (getNodeLocation (nodeLocations tr) n))), c)"
| "serve tr ns now origin report c MetricsRoute = (map_option (\<lambda>m. respond origin (MetricsBody m)) report, c)"

subsection \<open>What the summaries say\<close>

lemma map_of_overlay_state: "map_of (overlay_state t) n = map_option sort (map_of (nodes t) n)"
  by (simp add: overlay_state_def map_of_mapk [where f = "\<lambda>_. sort"])

lemma filter_key: "dict_ok d \<Longrightarrow> filter (\<lambda>k. k = x) (keys_of d) = (if has_key d x then [x] else [])"
proof (induction d)
  case (Cons e d)
  then show ?case by (cases e) (auto simp: filter_empty_conv image_iff dest: map_of_SomeD)
qed simp

text \<open>
  A query for a stream and a partition reports exactly that stream, if the tracker has an
  overlay for it: every node of the overlay with its neighbours and no other node; in a
  well-formed tracker the report is symmetric.
\<close>

theorem topology_of_partition:
  assumes "tracker_ok usable tr" and "sid \<noteq> []" and "0 \<le> p" and "isSafeInteger p"
  shows "map fst (getTopology (overlayPerStream tr) c (Some sid) (Some p)) =
      (let k = stream_key \<lparr>sp_id = sid, sp_partition = p\<rparr> in if has_key (overlayPerStream tr) k then [k] else []) \<and>
    (\<forall>k d n l m. (k, d) \<in> set (getTopology (overlayPerStream tr) c (Some sid) (Some p)) \<longrightarrow>
       map_of d n = Some l \<longrightarrow> m \<in> set (map fst l) \<longrightarrow>
       member tr k n \<and> member tr k m \<and> (\<exists>l'. map_of d m = Some l' \<and> n \<in> set (map fst l')))"
proof (intro conjI allI impI)
  let ?k = "stream_key \<lparr>sp_id = sid, sp_partition = p\<rparr>"
  have d: "dict_ok (overlayPerStream tr)" using assms(1) by (simp add: tracker_ok_def)
  have find: "findStreamKeys (overlayPerStream tr) (Some sid) (Some p) =
      (if has_key (overlayPerStream tr) ?k then [?k] else [])"
    using assms(2-4) by (simp add: findStreamKeys_def truthy_string_def filter_key [OF d])
  then show "map fst (getTopology (overlayPerStream tr) c (Some sid) (Some p)) =
      (let k = ?k in if has_key (overlayPerStream tr) k then [k] else [])"
    by (simp add: getTopology_def comp_def)
  fix k d n l m
  assume "(k, d) \<in> set (getTopology (overlayPerStream tr) c (Some sid) (Some p))"
  then obtain t where t: "map_of (overlayPerStream tr) k = Some t"
    and dd: "d = map (\<lambda>(n, neighbors). addRttsToNodeConnections n neighbors c) (overlay_state t)"
    unfolding getTopology_def find by (auto split: if_splits)
  note ok = tracker_ok_overlay [OF assms(1) t]
  have look: "map_of d x = map_option (\<lambda>s. snd (addRttsToNodeConnections x (sort s) c)) (map_of (nodes t) x)" for x
  proof -
    have "d = map (\<lambda>(n, neighbors). (n, snd (addRttsToNodeConnections n neighbors c))) (overlay_state t)"
      unfolding dd by (simp add: addRttsToNodeConnections_def)
    then show ?thesis
      by (simp add: map_of_mapk map_of_overlay_state option.map_comp comp_def)
  qed
  assume l: "map_of d n = Some l" and "m \<in> set (map fst l)"
  then have m: "m \<in> set (getNeighbors t n)" and n: "hasNode t n"
    by (auto simp: look addRttsToNodeConnections_def getNeighbors_def hasNode_def)
  have hm: "hasNode t m" and sym: "n \<in> set (getNeighbors t m)"
    using overlay_okD(3,4) ok m by blast+
  show "member tr k n" "member tr k m" using n hm t by (simp_all add: member_def)
  show "\<exists>l'. map_of d m = Some l' \<and> n \<in> set (map fst l')"
    using hm sym by (auto simp: look addRttsToNodeConnections_def getNeighbors_def hasNode_def image_iff)
qed

theorem topology_of_partition_witness:
  "map fst (getTopology (overlayPerStream example_tracker) [] (Some ''s'') (Some 0)) =
     (let k = stream_key \<lparr>sp_id = ''s'', sp_partition = 0\<rparr> in if has_key (overlayPerStream example_tracker) k then [k] else [])"
proof -
  have "tracker_ok draws_ok example_tracker"
    using example_rng_ok example_overlay_ok
    by (auto simp: example_tracker_def tracker_ok_def new_tracker_def counters_ok_def dict_all_def example_overlay_def)
  from topology_of_partition [OF this, of "''s''" 0 "[]"] show ?thesis by (simp add: isSafeInteger_def)
qed

text \<open>A query for a stream alone matches substrings of keys: it also reports other streams.\<close>

lemma stream_query_matches_substrings:
  "findStreamKeys [(''abc::0'', t), (''x::1'', t')] (Some ''b'') None = [''abc::0'']"
  by (simp add: findStreamKeys_def truthy_string_def str_includes_def upt_rec)

text \<open>
  The round-trip time measured by the neighbour is not used when the node itself has reported
  none: reading a property of \<open>undefined\<close> throws before the fallback is tried.
\<close>

lemma rtt_fallback_lost:
  "getNodeToNodeConnectionRtts ''a'' ''b'' None (Some [(''a'', 5)]) = None \<and>
   getNodeToNodeConnectionRtts ''a'' ''b'' (Some []) (Some [(''a'', 5)]) = Some 5"
  by (simp add: getNodeToNodeConnectionRtts_def)

text \<open>
  Every answer carries the headers for its origin, an error exactly when a parameter is
  invalid; the routes but those of the sizes and the metrics always answer.
\<close>

lemma serve_answers:
  "fst (serve tr ns now origin report c r) = Some a \<Longrightarrow> ha_headers a = writeCorsHeaders origin \<and>
     (ha_status a \<noteq> None \<longleftrightarrow> (\<exists>e. ha_body a = ErrorBody e))"
  "(\<And>sp pp. r \<noteq> SizeRoute sp pp) \<Longrightarrow> r \<noteq> MetricsRoute \<Longrightarrow> fst (serve tr ns now origin report c r) \<noteq> None"
  by (cases r; auto simp: respond_def respondWithError_def Let_def split: response.splits sum.splits)+

text \<open>One stream whose id has a double colon, and the sizes of no stream are answered any more.\<close>

lemma sizes_never_answered:
  "fst (serve (tr\<lparr>overlayPerStream := [(stream_key \<lparr>sp_id = ''a::b'', sp_partition = 0\<rparr>, t)]\<rparr>) ns now origin report c
     (SizeRoute None None)) = None"
proof -
  let ?k = "stream_key \<lparr>sp_id = ''a::b'', sp_partition = 0\<rparr>"
  have "from_key ?k = Inl InvalidPartition"
    by (simp add: from_key_def stream_key_def show_int_def parseInt_def new_stream_id_def parse_digits_def is_digit_def is_space_def)
  moreover have "findStreamKeys [(?k, t)] None None = [?k]" by (simp add: findStreamKeys_def truthy_string_def)
  ultimately show ?thesis by (simp add: get_topology_size_def withStream_def getStreamSizes_def)
qed

subsection \<open>The cache\<close>

text \<open>Requests at given times against one cache, with what each is answered.\<close>

fun cache_run :: "int \<Rightarrow> (int \<Rightarrow> 'a) \<Rightarrow> 'a cached option \<Rightarrow> int list \<Rightarrow> 'a cached list" where
  "cache_run maxAge f c [] = []"
| "cache_run maxAge f c (t # ts) =
     (let c' = cachedJsonGet maxAge f t c in c' # cache_run maxAge f (Some c') ts)"

lemma cachedJsonGet_fresh:
  assumes "0 \<le> maxAge" and "\<And>c'. c = Some c' \<Longrightarrow> cached_timestamp c' \<le> now \<and> cached_json c' = f (cached_timestamp c')"
  shows "let r = cachedJsonGet maxAge f now c in
    cached_timestamp r \<le> now \<and> now \<le> cached_timestamp r + maxAge \<and> cached_json r = f (cached_timestamp r)"
  using assms by (cases c) (auto simp: cachedJsonGet_def Let_def)

lemma cache_run_fresh:
  assumes "0 \<le> maxAge" and "sorted ts"
    and "\<And>c'. c = Some c' \<Longrightarrow> (\<forall>t \<in> set ts. cached_timestamp c' \<le> t) \<and> cached_json c' = f (cached_timestamp c')"
    and "i < length ts"
  shows "let r = cache_run maxAge f c ts ! i in
    cached_timestamp r \<le> ts ! i \<and> ts ! i \<le> cached_timestamp r + maxAge \<and> cached_json r = f (cached_timestamp r)"
  using assms(2-4)
proof (induction ts arbitrary: c i)
  case (Cons t ts)
  let ?r = "cachedJsonGet maxAge f t c"
  have r: "let r = ?r in cached_timestamp r \<le> t \<and> t \<le> cached_timestamp r + maxAge \<and> cached_json r = f (cached_timestamp r)"
    by (rule cachedJsonGet_fresh [OF assms(1)]) (use Cons.prems(2) in auto)
  show ?case
  proof (cases i)
    case 0
    then show ?thesis using r by (simp add: Let_def)
  next
    case (Suc j)
    have "\<forall>u \<in> set ts. cached_timestamp ?r \<le> u" using r Cons.prems(1) by (auto simp: Let_def)
    then show ?thesis
      using Cons.IH [of "Some ?r" j] Cons.prems(1,3) r Suc by (auto simp: Let_def)
  qed
qed simp

text \<open>
  An endpoint behind the cache never answers with data older than \<open>maxAge\<close>: the answer
  to each of a sequence of requests is what the factory gave at some earlier time at most
  that long ago.
\<close>

theorem cache_never_stale:
  assumes "0 \<le> maxAge" and "sorted ts" and "i < length ts"
  shows "\<exists>t. t \<le> ts ! i \<and> ts ! i \<le> t + maxAge \<and> cached_json (cache_run maxAge f None ts ! i) = f t"
  using cache_run_fresh [OF assms(1,2) _ assms(3), of None f] by (auto simp: Let_def)

theorem cache_never_stale_witness:
  "\<exists>t. t \<le> 20 \<and> 20 \<le> t + 15 \<and> cached_json (cache_run 15 (\<lambda>t. t * t) None [0, 5, 20] ! 2) = t * t"
  using cache_never_stale [of 15 "[0, 5, 20]" 2 "\<lambda>t. t * t"] by simp

end
