(* ===== verification/InstructionThrottler.thy ===== *)
theory InstructionThrottler
  imports Messages
begin

section \<open>The instruction throttler\<close>

text \<open>
  \<open>src/src/logic/InstructionThrottler.ts\<close>: instructions of the trackers are handed to an
  asynchronous handler, one at a time per stream, and while a handler runs only the latest
  instruction of its stream is kept. The state holds the fields of the class; what
  JavaScript keeps for it is explicit: \<open>awaiting\<close> lists the handler invocations whose
  \<open>await\<close> is pending, by an identifier of the promise. A cancelled promise never continues
  (\<open>cancelable-promise\<close>), so cancelling removes it from the list. \<open>started\<close> records the
  handler invocations and \<open>rejections\<close> counts the \<open>TypeError\<close>s of reading a property of
  \<open>undefined\<close>. The handler is asynchronous and does not call the throttler synchronously.
\<close>

record instruction =
  im_streamId :: string
  im_partition :: int
  im_nodeIds :: "string list"
  im_counter :: int

definition im_stream :: "instruction \<Rightarrow> stream_id_and_partition" where
  "im_stream i = \<lparr>sp_id = im_streamId i, sp_partition = im_partition i\<rparr>"

abbreviation im_key :: "instruction \<Rightarrow> stream_key" where
  "im_key i \<equiv> stream_key (im_stream i)"

record ongoing_promise =
  promise :: "nat option"
  handling :: bool

record throttler =
  queue :: "(stream_key, instruction \<times> string) dict"
  latest :: "(stream_key, int) dict"
  ongoing :: "(stream_key, ongoing_promise) dict"
  awaiting :: "(nat \<times> stream_key) list"
  next_id :: nat
  started :: "(instruction \<times> string) list"
  rejections :: nat

definition new_throttler :: throttler where
  "new_throttler = \<lparr>queue = [], latest = [], ongoing = [], awaiting = [], next_id = 0, started = [], rejections = 0\<rparr>"

text \<open>The body of \<open>invokeHandleFnWithLock\<close> up to its \<open>await\<close>.\<close>

definition invokeHandleFnWithLock :: "stream_key \<Rightarrow> throttler \<Rightarrow> throttler" where
  "invokeHandleFnWithLock k s =
     (case map_of (ongoing s) k of
        None \<Rightarrow> s\<lparr>rejections := rejections s + 1\<rparr>
      | Some p \<Rightarrow>
          (case map_of (queue s) k of
             None \<Rightarrow> s\<lparr>ongoing := AList.update k (p\<lparr>handling := False\<rparr>) (ongoing s)\<rparr>
           | Some q \<Rightarrow>
               s\<lparr>ongoing := AList.update k (p\<lparr>handling := True, promise := Some (next_id s)\<rparr>) (ongoing s),
                 queue := AList.delete k (queue s), awaiting := awaiting s @ [(next_id s, k)],
                 next_id := next_id s + 1, started := started s @ [q]\<rparr>))"

definition throttler_add :: "instruction \<Rightarrow> string \<Rightarrow> throttler \<Rightarrow> throttler" where
  "throttler_add i tracker s =
     (let k = im_key i in
      if (case map_of (latest s) k of None \<Rightarrow> True | Some c \<Rightarrow> c = 0 \<or> c \<le> im_counter i) then
        (let s1 = s\<lparr>latest := AList.update k (im_counter i) (latest s),
               queue := AList.update k (i, tracker) (queue s)\<rparr>;
             s2 = (if has_key (ongoing s1) k then s1
               else s1\<lparr>ongoing := AList.update k \<lparr>promise = None, handling = False\<rparr> (ongoing s1)\<rparr>)
         in if \<not> handling (the (map_of (ongoing s2) k)) then invokeHandleFnWithLock k s2 else s2)
      else s)"

definition cancel :: "nat option \<Rightarrow> throttler \<Rightarrow> throttler" where
  "cancel p s = (case p of
       None \<Rightarrow> s\<lparr>rejections := rejections s + 1\<rparr>
     | Some i \<Rightarrow> s\<lparr>awaiting := filter (\<lambda>a. fst a \<noteq> i) (awaiting s)\<rparr>)"

definition throttler_removeStreamId :: "stream_key \<Rightarrow> throttler \<Rightarrow> throttler" where
  "throttler_removeStreamId k s =
     (let s1 = s\<lparr>queue := AList.delete k (queue s), latest := AList.delete k (latest s)\<rparr>;
          s2 = (case map_of (ongoing s1) k of None \<Rightarrow> s1 | Some p \<Rightarrow> cancel (promise p) s1)
      in s2\<lparr>ongoing := AList.delete k (ongoing s2)\<rparr>)"

definition isIdle :: "throttler \<Rightarrow> bool" where
  "isIdle s \<longleftrightarrow> \<not> list_ex handling (values_of (ongoing s))"

definition throttler_reset :: "throttler \<Rightarrow> throttler" where
  "throttler_reset s =
     (let s1 = s\<lparr>queue := [], latest := []\<rparr>;
          s2 = foldl (\<lambda>s k. (case map_of (ongoing s) k of None \<Rightarrow> s | Some p \<Rightarrow> cancel (promise p) s)
                 \<lparr>ongoing := AList.delete k (ongoing s)\<rparr>) s1 (keys_of (ongoing s1))
      in s2\<lparr>ongoing := []\<rparr>)"

text \<open>A handler settles, with a value or with an error that is logged: the \<open>finally\<close> block runs.\<close>

definition settled :: "nat \<Rightarrow> throttler \<Rightarrow> throttler" where
  "settled i s = (case map_of (awaiting s) i of
       None \<Rightarrow> s
     | Some k \<Rightarrow> invokeHandleFnWithLock k (s\<lparr>awaiting := filter (\<lambda>a. fst a \<noteq> i) (awaiting s)\<rparr>))"

datatype throttler_event =
    Add instruction string
  | Settled nat
  | RemoveStreamId stream_key
  | Reset

fun throttler_step :: "throttler \<Rightarrow> throttler_event \<Rightarrow> throttler" where
  "throttler_step s (Add i t) = throttler_add i t s"
| "throttler_step s (Settled i) = settled i s"
| "throttler_step s (RemoveStreamId k) = throttler_removeStreamId k s"
| "throttler_step s Reset = throttler_reset s"

subsection \<open>The invariant\<close>

definition last_started :: "throttler \<Rightarrow> stream_key \<Rightarrow> (instruction \<times> string) option" where
  "last_started s k = find (\<lambda>q. im_key (fst q) = k) (rev (started s))"

text \<open>Promises are numbered below \<open>next_id\<close>, and no two streams share one.\<close>

definition promises_ok :: "throttler \<Rightarrow> bool" where
  "promises_ok s \<longleftrightarrow> (\<forall>j k p p' i. map_of (ongoing s) j = Some p \<longrightarrow> map_of (ongoing s) k = Some p' \<longrightarrow>
     promise p = Some i \<longrightarrow> promise p' = Some i \<longrightarrow> j = k \<and> i < next_id s)"

definition throttler_ok :: "throttler \<Rightarrow> bool" where
  "throttler_ok s \<longleftrightarrow>
     rejections s = 0 \<and> dict_ok (ongoing s) \<and> dict_ok (awaiting s) \<and> promises_ok s \<and>
     (\<forall>i k. map_of (awaiting s) i = Some k \<longrightarrow>
        i < next_id s \<and> map_of (ongoing s) k = Some \<lparr>promise = Some i, handling = True\<rparr>) \<and>
     (\<forall>k p. map_of (ongoing s) k = Some p \<longrightarrow>
        promise p \<noteq> None \<and> (handling p \<longrightarrow> map_of (awaiting s) (the (promise p)) = Some k)) \<and>
     (\<forall>k q. map_of (queue s) k = Some q \<longrightarrow> im_key (fst q) = k \<and> map_of (latest s) k = Some (im_counter (fst q)) \<and>
        (\<exists>p. map_of (ongoing s) k = Some p \<and> handling p)) \<and>
     (\<forall>k c. map_of (latest s) k = Some c \<longrightarrow> map_of (queue s) k = None \<longrightarrow>
        (\<exists>q. last_started s k = Some q \<and> im_counter (fst q) = c))"

declare map_of_eq_Some_iff [simp del]

lemma promises_ok_congs [simp]:
  "promises_ok (s\<lparr>queue := q\<rparr>) = promises_ok s" "promises_ok (s\<lparr>latest := l\<rparr>) = promises_ok s"
  "promises_ok (s\<lparr>awaiting := a\<rparr>) = promises_ok s" "promises_ok (s\<lparr>started := b\<rparr>) = promises_ok s"
  by (simp_all add: promises_ok_def)

lemma promises_ok_start:
  assumes "promises_ok s" and "ongoing t = AList.update k \<lparr>promise = Some (next_id s), handling = True\<rparr> (ongoing s)"
    and "next_id t = next_id s + 1"
  shows "promises_ok t"
  unfolding promises_ok_def
proof (intro allI impI)
  fix j l p p' i
  assume a: "map_of (ongoing t) j = Some p" "map_of (ongoing t) l = Some p'" "promise p = Some i" "promise p' = Some i"
  have old: "i < next_id s" if "map_of (ongoing s) m = Some q" "promise q = Some i" for m q
    using assms(1) that unfolding promises_ok_def by blast
  show "j = l \<and> i < next_id t"
  proof (cases "j = k \<or> l = k")
    case True
    then show ?thesis using a old assms(2,3) by (auto split: if_splits)
  next
    case False
    then have "j = l \<and> i < next_id s" using a assms(1,2) unfolding promises_ok_def by simp
    then show ?thesis using assms(3) by simp
  qed
qed

lemma promises_ok_handling:
  "promises_ok s \<Longrightarrow> map_of (ongoing s) k = Some p \<Longrightarrow>
   promises_ok (s\<lparr>ongoing := AList.update k (p\<lparr>handling := False\<rparr>) (ongoing s)\<rparr>)"
  unfolding promises_ok_def by auto

lemma promises_ok_fresh:
  "promises_ok s \<Longrightarrow> promises_ok (s\<lparr>ongoing := AList.update k \<lparr>promise = None, handling = h\<rparr> (ongoing s)\<rparr>)"
  unfolding promises_ok_def by auto

lemma promises_ok_delete: "promises_ok s \<Longrightarrow> promises_ok (s\<lparr>ongoing := AList.delete k (ongoing s)\<rparr>)"
  unfolding promises_ok_def by auto

lemma map_of_filter_key: "map_of (filter (\<lambda>a. fst a \<noteq> i) d) j = (if j = i then None else map_of d j)"
  by (induction d) auto

lemma dict_ok_filter: "dict_ok d \<Longrightarrow> dict_ok (filter P d)"
  by (simp add: distinct_map_filter)

lemma map_of_snoc: "map_of (d @ [(i, k)]) j = (case map_of d j of Some v \<Rightarrow> Some v | None \<Rightarrow> if j = i then Some k else None)"
  by (simp add: map_add_def split: option.split)

lemma last_started_snoc: "last_started (s\<lparr>started := started s @ [q]\<rparr>) k =
    (if im_key (fst q) = k then Some q else last_started s k)"
  by (simp add: last_started_def)

lemma throttler_okD:
  assumes "throttler_ok s"
  shows "map_of (awaiting s) i = Some k \<Longrightarrow> map_of (ongoing s) k = Some \<lparr>promise = Some i, handling = True\<rparr>"
    "map_of (awaiting s) i = Some k \<Longrightarrow> i < next_id s"
    "map_of (ongoing s) k = Some p \<Longrightarrow> promise p \<noteq> None"
    "map_of (ongoing s) k = Some p \<Longrightarrow> handling p \<Longrightarrow> map_of (awaiting s) (the (promise p)) = Some k"
    "map_of (queue s) k = Some q \<Longrightarrow> im_key (fst q) = k"
    "map_of (queue s) k = Some q \<Longrightarrow> map_of (latest s) k = Some (im_counter (fst q))"
    "map_of (queue s) k = Some q \<Longrightarrow> \<exists>p. map_of (ongoing s) k = Some p \<and> handling p"
    "map_of (latest s) k = Some c \<Longrightarrow> map_of (queue s) k = None \<Longrightarrow>
      \<exists>q. last_started s k = Some q \<and> im_counter (fst q) = c"
    "rejections s = 0" "dict_ok (ongoing s)" "dict_ok (awaiting s)" "promises_ok s"
  using assms unfolding throttler_ok_def by blast+

lemma awaiting_unique:
  assumes "throttler_ok s" and "map_of (awaiting s) i = Some k" and "map_of (awaiting s) j = Some k"
  shows "i = j"
  using throttler_okD(1) [OF assms(1,2)] throttler_okD(1) [OF assms(1,3)] by simp

text \<open>\<open>waiting k\<close> is the invariant with the lock of stream \<open>k\<close> about to be given on.\<close>

definition waiting :: "stream_key \<Rightarrow> throttler \<Rightarrow> bool" where
  "waiting k s \<longleftrightarrow>
     rejections s = 0 \<and> dict_ok (ongoing s) \<and> dict_ok (awaiting s) \<and> promises_ok s \<and>
     (\<forall>i j. map_of (awaiting s) i = Some j \<longrightarrow>
        j \<noteq> k \<and> i < next_id s \<and> map_of (ongoing s) j = Some \<lparr>promise = Some i, handling = True\<rparr>) \<and>
     has_key (ongoing s) k \<and> (map_of (queue s) k = None \<longrightarrow> promise (the (map_of (ongoing s) k)) \<noteq> None) \<and>
     (\<forall>j p. map_of (ongoing s) j = Some p \<longrightarrow> j \<noteq> k \<longrightarrow>
        promise p \<noteq> None \<and> (handling p \<longrightarrow> map_of (awaiting s) (the (promise p)) = Some j)) \<and>
     (\<forall>j q. map_of (queue s) j = Some q \<longrightarrow> im_key (fst q) = j \<and> map_of (latest s) j = Some (im_counter (fst q)) \<and>
        (j \<noteq> k \<longrightarrow> (\<exists>p. map_of (ongoing s) j = Some p \<and> handling p))) \<and>
     (\<forall>j c. map_of (latest s) j = Some c \<longrightarrow> map_of (queue s) j = None \<longrightarrow>
        (\<exists>q. last_started s j = Some q \<and> im_counter (fst q) = c))"

lemma invoke_ok:
  assumes "waiting k s"
  shows "throttler_ok (invokeHandleFnWithLock k s)"
proof -
  obtain p where p: "map_of (ongoing s) k = Some p" using assms by (auto simp: waiting_def)
  note w = assms [unfolded waiting_def]
  show ?thesis
  proof (cases "map_of (queue s) k")
    case None
    then have "invokeHandleFnWithLock k s = s\<lparr>ongoing := AList.update k (p\<lparr>handling := False\<rparr>) (ongoing s)\<rparr>"
      by (simp add: invokeHandleFnWithLock_def p)
    then show ?thesis using w p None by (auto simp: throttler_ok_def last_started_def promises_ok_handling)
  next
    case (Some q)
    let ?s = "s\<lparr>ongoing := AList.update k (p\<lparr>handling := True, promise := Some (next_id s)\<rparr>) (ongoing s),
      queue := AList.delete k (queue s), awaiting := awaiting s @ [(next_id s, k)],
      next_id := next_id s + 1, started := started s @ [q]\<rparr>"
    have eq: "invokeHandleFnWithLock k s = ?s" by (simp add: invokeHandleFnWithLock_def p Some)
    have fresh: "map_of (awaiting s) (next_id s) = None"
      using w by (metis less_irrefl option.exhaust)
    then have fresh': "next_id s \<notin> fst ` set (awaiting s)" by (simp add: map_of_eq_None_iff)
    have p': "p\<lparr>handling := True, promise := Some (next_id s)\<rparr> = \<lparr>promise = Some (next_id s), handling = True\<rparr>"
      by (cases p) simp
    have key: "im_key (fst q) = k" "map_of (latest s) k = Some (im_counter (fst q))" using w Some by blast+
    have ls: "last_started ?s j = (if j = k then Some q else last_started s j)" for j
      using key(1) by (auto simp: last_started_def)
    show ?thesis
      unfolding eq throttler_ok_def ls
    proof (intro conjI allI impI)
      fix i j assume "map_of (awaiting ?s) i = Some j"
      then have "map_of (awaiting s) i = Some j \<or> (i = next_id s \<and> j = k)"
        by (auto simp: map_of_snoc simp del: map_of_append split: option.splits if_splits)
      then show "map_of (ongoing ?s) j = Some \<lparr>promise = Some i, handling = True\<rparr>"
        using w p' by auto
      have "i < next_id s \<or> i = next_id s" using w \<open>map_of (awaiting s) i = Some j \<or> (i = next_id s \<and> j = k)\<close> by blast
      then show "i < next_id ?s" by auto
    next
      fix j q' assume "map_of (queue ?s) j = Some q'"
      then have j: "j \<noteq> k" "map_of (queue s) j = Some q'" by (auto split: if_splits)
      then have "im_key (fst q') = j \<and> map_of (latest s) j = Some (im_counter (fst q')) \<and>
          (\<exists>p. map_of (ongoing s) j = Some p \<and> handling p)"
        using w by blast
      then show "im_key (fst q') = j" "map_of (latest ?s) j = Some (im_counter (fst q'))"
        "\<exists>p. map_of (ongoing ?s) j = Some p \<and> handling p"
        using j(1) by simp_all
    next
      fix j p1 assume "map_of (ongoing ?s) j = Some p1"
      then have j: "(j = k \<and> p1 = \<lparr>promise = Some (next_id s), handling = True\<rparr>) \<or> (j \<noteq> k \<and> map_of (ongoing s) j = Some p1)"
        by (auto simp: p' split: if_splits)
      then show "promise p1 \<noteq> None" using w by auto
      assume h: "handling p1"
      show "map_of (awaiting ?s) (the (promise p1)) = Some j"
      proof (cases "j = k")
        case True
        then show ?thesis using j fresh by (simp add: map_of_snoc del: map_of_append)
      next
        case False
        then have "map_of (awaiting s) (the (promise p1)) = Some j" using j w h by blast
        then show ?thesis by (simp add: map_of_snoc del: map_of_append)
      qed
    next
      fix j c assume c: "map_of (latest ?s) j = Some c" "map_of (queue ?s) j = None"
      show "\<exists>q'. (if j = k then Some q else last_started s j) = Some q' \<and> im_counter (fst q') = c"
      proof (cases "j = k")
        case True
        then show ?thesis using c(1) key(2) by simp
      next
        case False
        then have "map_of (latest s) j = Some c" "map_of (queue s) j = None" using c by simp_all
        then have "\<exists>q'. last_started s j = Some q' \<and> im_counter (fst q') = c" using w by blast
        with False show ?thesis by simp
      qed
    next
      have "promises_ok s" using w by blast
      then show "promises_ok ?s" by (rule promises_ok_start) (simp_all add: p')
    next
      show "rejections ?s = 0" "dict_ok (ongoing ?s)" using w by simp_all
      have "dict_ok (awaiting s)" using w by blast
      then show "dict_ok (awaiting ?s)" using fresh' by simp
    qed
  qed
qed

lemma add_ok:
  assumes ok: "throttler_ok s"
  shows "throttler_ok (throttler_add i t s)"
proof (cases "case map_of (latest s) (im_key i) of None \<Rightarrow> True | Some c \<Rightarrow> c = 0 \<or> c \<le> im_counter i")
  case False
  then show ?thesis using ok by (simp add: throttler_add_def)
next
  case True
  let ?k = "im_key i"
  define s1 where "s1 = s\<lparr>latest := AList.update ?k (im_counter i) (latest s), queue := AList.update ?k (i, t) (queue s)\<rparr>"
  define s2 where "s2 = (if has_key (ongoing s1) ?k then s1
    else s1\<lparr>ongoing := AList.update ?k \<lparr>promise = None, handling = False\<rparr> (ongoing s1)\<rparr>)"
  have eq: "throttler_add i t s =
      (if \<not> handling (the (map_of (ongoing s2) ?k)) then invokeHandleFnWithLock ?k s2 else s2)"
    using True by (simp add: throttler_add_def Let_def s1_def s2_def)
  note o = ok [unfolded throttler_ok_def]
  show ?thesis
  proof (cases "handling (the (map_of (ongoing s2) ?k))")
    case True
    then have "has_key (ongoing s) ?k" by (auto simp: s2_def s1_def split: if_splits)
    then have "s2 = s1" by (simp add: s2_def s1_def)
    moreover have "throttler_ok s1"
      using o True \<open>has_key (ongoing s) ?k\<close> \<open>s2 = s1\<close> by (auto simp: throttler_ok_def s1_def last_started_def)
    ultimately show ?thesis using eq True by simp
  next
    case False
    have "\<nexists>j. map_of (awaiting s) j = Some ?k"
      using o False by (auto simp: s2_def s1_def split: if_splits)
    moreover have "promises_ok s2"
      using promises_ok_fresh [of s1 ?k False] o by (simp add: s2_def s1_def)
    ultimately have "waiting ?k s2"
      using o False by (auto simp: waiting_def s2_def s1_def last_started_def promises_ok_fresh split: if_splits)
    then show ?thesis using eq False invoke_ok by simp
  qed
qed

lemma settled_ok:
  assumes ok: "throttler_ok s"
  shows "throttler_ok (settled i s)"
proof (cases "map_of (awaiting s) i")
  case None
  then show ?thesis using ok by (simp add: settled_def)
next
  case (Some k)
  let ?s = "s\<lparr>awaiting := filter (\<lambda>a. fst a \<noteq> i) (awaiting s)\<rparr>"
  note o = throttler_okD [OF ok]
  have k: "map_of (ongoing s) k = Some \<lparr>promise = Some i, handling = True\<rparr>" by (rule o(1) [OF Some])
  have "waiting k ?s"
    unfolding waiting_def
  proof (intro conjI allI impI)
    fix i' j assume "map_of (awaiting ?s) i' = Some j"
    then have a: "i' \<noteq> i" "map_of (awaiting s) i' = Some j" by (auto simp: map_of_filter_key split: if_splits)
    then show "j \<noteq> k" "i' < next_id ?s" "map_of (ongoing ?s) j = Some \<lparr>promise = Some i', handling = True\<rparr>"
      using awaiting_unique [OF ok Some] o(1,2) by auto
  next
    fix j p assume p: "map_of (ongoing ?s) j = Some p" and "j \<noteq> k"
    show "promise p \<noteq> None" using p o(3) by simp
    assume "handling p"
    with p have a: "map_of (awaiting s) (the (promise p)) = Some j" using o(4) by simp
    with Some \<open>j \<noteq> k\<close> have "the (promise p) \<noteq> i" by auto
    with a show "map_of (awaiting ?s) (the (promise p)) = Some j" by (simp add: map_of_filter_key)
  next
    fix j q assume "map_of (queue ?s) j = Some q"
    then show "im_key (fst q) = j" "map_of (latest ?s) j = Some (im_counter (fst q))"
      "\<exists>p. map_of (ongoing ?s) j = Some p \<and> handling p" using o(5-7) by simp_all
  next
    fix j c assume "map_of (latest ?s) j = Some c" "map_of (queue ?s) j = None"
    then show "\<exists>q. last_started ?s j = Some q \<and> im_counter (fst q) = c"
      using o(8) by (simp add: last_started_def)
  qed (use k o(9-12) in \<open>simp_all add: dict_ok_filter\<close>)
  then show ?thesis using Some by (simp add: settled_def invoke_ok)
qed

lemma throttler_removeStreamId_ok:
  assumes ok: "throttler_ok s"
  shows "throttler_ok (throttler_removeStreamId k s)"
proof -
  note o = throttler_okD [OF ok]
  define cut where "cut = (case map_of (ongoing s) k of None \<Rightarrow> None | Some p \<Rightarrow> promise p)"
  have eq: "throttler_removeStreamId k s = s\<lparr>queue := AList.delete k (queue s), latest := AList.delete k (latest s),
      awaiting := filter (\<lambda>a. Some (fst a) \<noteq> cut) (awaiting s), ongoing := AList.delete k (ongoing s)\<rparr>"
    (is "_ = ?s")
    using o(3) [of k] by (auto simp: throttler_removeStreamId_def cancel_def cut_def split: option.split)
  have keep: "map_of (awaiting ?s) i = (if Some i = cut then None else map_of (awaiting s) i)" for i
    by (cases cut) (auto simp: map_of_filter_key)
  have gone: "Some i = cut \<longleftrightarrow> map_of (awaiting s) i = Some k" if "map_of (awaiting s) i = Some j" for i j
  proof
    assume "Some i = cut"
    then obtain p where p: "map_of (ongoing s) k = Some p" "promise p = Some i"
      by (auto simp: cut_def split: option.splits)
    have "map_of (ongoing s) j = Some \<lparr>promise = Some i, handling = True\<rparr>" by (rule o(1) [OF that])
    then have "j = k" using p o(12) unfolding promises_ok_def by (metis ongoing_promise.select_convs(1))
    with that show "map_of (awaiting s) i = Some k" by simp
  next
    assume "map_of (awaiting s) i = Some k"
    then show "Some i = cut" using o(1) by (simp add: cut_def)
  qed
  show ?thesis
    unfolding eq throttler_ok_def
  proof (intro conjI allI impI)
    fix i j assume "map_of (awaiting ?s) i = Some j"
    then have a: "map_of (awaiting s) i = Some j" "Some i \<noteq> cut" unfolding keep by (auto split: if_splits)
    then have "j \<noteq> k" using gone by blast
    with a o(1,2) show "i < next_id ?s" "map_of (ongoing ?s) j = Some \<lparr>promise = Some i, handling = True\<rparr>"
      by auto
  next
    fix j p assume "map_of (ongoing ?s) j = Some p"
    then have p: "j \<noteq> k" "map_of (ongoing s) j = Some p" by (auto split: if_splits)
    show "promise p \<noteq> None" by (rule o(3) [OF p(2)])
    assume "handling p"
    then have "map_of (awaiting s) (the (promise p)) = Some j" by (rule o(4) [OF p(2)])
    with gone p(1) show "map_of (awaiting ?s) (the (promise p)) = Some j" unfolding keep by auto
  next
    fix j q assume "map_of (queue ?s) j = Some q"
    then show "im_key (fst q) = j" "map_of (latest ?s) j = Some (im_counter (fst q))"
      "\<exists>p. map_of (ongoing ?s) j = Some p \<and> handling p"
      using o(5-7) by (auto split: if_splits)
  next
    fix j c assume "map_of (latest ?s) j = Some c" "map_of (queue ?s) j = None"
    then show "\<exists>q. last_started ?s j = Some q \<and> im_counter (fst q) = c"
      using o(8) by (auto simp: last_started_def split: if_splits)
  qed (use o(9-12) in \<open>simp_all add: dict_ok_filter promises_ok_delete [of "s\<lparr>queue := q, latest := l, awaiting := a\<rparr>" for q l a, simplified]\<close>)
qed

lemma reset_as_removals:
  "throttler_reset s =
     (foldl (\<lambda>s k. throttler_removeStreamId k s) (s\<lparr>queue := [], latest := []\<rparr>) (keys_of (ongoing s)))\<lparr>ongoing := []\<rparr>"
proof -
  let ?f = "\<lambda>s k. (case map_of (ongoing s) k of None \<Rightarrow> s | Some p \<Rightarrow> cancel (promise p) s)\<lparr>ongoing := AList.delete k (ongoing s)\<rparr>"
  have same: "?f s k = throttler_removeStreamId k s \<and> queue (?f s k) = [] \<and> latest (?f s k) = []"
    if "queue s = [] \<and> latest s = []" for s :: throttler and k
    using that by (cases s) (auto simp: throttler_removeStreamId_def cancel_def split: option.split)
  have "foldl ?f s ks = foldl (\<lambda>s k. throttler_removeStreamId k s) s ks" if "queue s = [] \<and> latest s = []"
    for ks and s :: throttler
    using that
  proof (induction ks arbitrary: s)
    case (Cons k ks)
    then have eq: "?f s k = throttler_removeStreamId k s" and "queue (?f s k) = [] \<and> latest (?f s k) = []"
      using same [of s k] by blast+
    then have "queue (throttler_removeStreamId k s) = [] \<and> latest (throttler_removeStreamId k s) = []" by metis
    from Cons.IH [OF this] show ?case unfolding foldl_Cons eq .
  qed simp
  then show ?thesis by (simp add: throttler_reset_def Let_def)
qed

lemma ongoing_removeStreamId: "ongoing (throttler_removeStreamId k s) = AList.delete k (ongoing s)"
  by (auto simp: throttler_removeStreamId_def cancel_def Let_def split: option.split)

lemma throttler_reset_ok:
  assumes "throttler_ok s"
  shows "throttler_ok (throttler_reset s)"
proof -
  define s1 where "s1 = s\<lparr>queue := [], latest := []\<rparr>"
  have "throttler_ok s1"
    using throttler_okD [OF assms] unfolding throttler_ok_def by (simp add: s1_def)
  then have "throttler_ok (foldl (\<lambda>s k. throttler_removeStreamId k s) s1 ks) \<and>
      set (keys_of (ongoing (foldl (\<lambda>s k. throttler_removeStreamId k s) s1 ks))) = set (keys_of (ongoing s1)) - set ks" for ks
  proof (induction ks arbitrary: s1)
    case (Cons k ks)
    then show ?case
      using Cons.IH [of "throttler_removeStreamId k s1"] throttler_removeStreamId_ok
      by (auto simp: ongoing_removeStreamId keys_delete)
  qed simp
  from this [of "keys_of (ongoing s)"]
  have "throttler_ok (foldl (\<lambda>s k. throttler_removeStreamId k s) s1 (keys_of (ongoing s)))"
    "ongoing (foldl (\<lambda>s k. throttler_removeStreamId k s) s1 (keys_of (ongoing s))) = []"
    by (simp_all add: s1_def)
  moreover have "t\<lparr>ongoing := []\<rparr> = t" if "ongoing t = []" for t :: throttler
    using that by (cases t) simp
  ultimately show ?thesis unfolding reset_as_removals s1_def by metis
qed

interpretation throttlers: step_invariant throttler_step "\<lambda>_. True" throttler_ok
proof
  show "throttler_ok (throttler_step s e)" if "throttler_ok s" for s e
    using that by (cases e) (simp_all add: add_ok settled_ok throttler_removeStreamId_ok throttler_reset_ok)
qed

lemma new_throttler_ok: "throttler_ok new_throttler"
  by (simp add: throttler_ok_def new_throttler_def promises_ok_def)

subsection \<open>The order of the instructions of a stream\<close>

definition started_counters :: "stream_key \<Rightarrow> throttler \<Rightarrow> int list" where
  "started_counters k s = map (im_counter \<circ> fst) (filter (\<lambda>q. im_key (fst q) = k) (started s))"

definition ordered :: "stream_key \<Rightarrow> throttler \<Rightarrow> bool" where
  "ordered k s \<longleftrightarrow> throttler_ok s \<and> sorted (started_counters k s) \<and>
     (case map_of (latest s) k of
        None \<Rightarrow> started_counters k s = []
      | Some c \<Rightarrow> 0 \<le> c \<and> (\<forall>d \<in> set (started_counters k s). 0 \<le> d \<and> d \<le> c))"

text \<open>The events that keep the order of stream \<open>k\<close>: it is not removed, and counters are not negative.\<close>

fun keeps_order :: "stream_key \<Rightarrow> throttler_event \<Rightarrow> bool" where
  "keeps_order k (Add i t) \<longleftrightarrow> 0 \<le> im_counter i"
| "keeps_order k (Settled i) \<longleftrightarrow> True"
| "keeps_order k (RemoveStreamId j) \<longleftrightarrow> j \<noteq> k"
| "keeps_order k Reset \<longleftrightarrow> False"

lemma invoke_fields:
  "latest (invokeHandleFnWithLock j s) = latest s"
  "started (invokeHandleFnWithLock j s) = started s \<or>
   (\<exists>q. map_of (queue s) j = Some q \<and> started (invokeHandleFnWithLock j s) = started s @ [q])"
  by (auto simp: invokeHandleFnWithLock_def split: option.split)

lemma ordered_invoke:
  assumes "throttler_ok (invokeHandleFnWithLock j s)"
    and "\<And>q. map_of (queue s) j = Some q \<Longrightarrow> im_key (fst q) = j \<and> map_of (latest s) j = Some (im_counter (fst q))"
    and "sorted (started_counters k s)"
    and "case map_of (latest s) k of None \<Rightarrow> started_counters k s = []
      | Some c \<Rightarrow> 0 \<le> c \<and> (\<forall>d \<in> set (started_counters k s). 0 \<le> d \<and> d \<le> c)"
  shows "ordered k (invokeHandleFnWithLock j s)"
proof -
  let ?t = "invokeHandleFnWithLock j s"
  consider "started ?t = started s"
    | q where "map_of (queue s) j = Some q" "started ?t = started s @ [q]" using invoke_fields(2) [of j s] by auto
  then show ?thesis
  proof cases
    case 1
    then have "started_counters k ?t = started_counters k s" by (simp add: started_counters_def)
    then show ?thesis using assms(1,3,4) unfolding ordered_def invoke_fields(1) by metis
  next
    case 2
    have t: "started_counters k ?t = started_counters k s @ (if j = k then [im_counter (fst q)] else [])"
      using 2 assms(2) [OF 2(1)] by (simp add: started_counters_def)
    show ?thesis
      unfolding ordered_def t invoke_fields(1)
      using assms(1,3,4) assms(2) [OF 2(1)] by (auto simp: sorted_append split: option.splits)
  qed
qed

lemma ordered_step:
  assumes "ordered k s" and "keeps_order k e"
  shows "ordered k (throttler_step s e)"
proof -
  note o = assms(1) [unfolded ordered_def]
  have ok: "throttler_ok s" using o by simp
  have ok': "throttler_ok (throttler_step s e)" using throttlers.step_inv [OF ok] by simp
  show ?thesis
  proof (cases e)
    case (Add i t)
    let ?j = "im_key i"
    show ?thesis
    proof (cases "case map_of (latest s) ?j of None \<Rightarrow> True | Some c \<Rightarrow> c = 0 \<or> c \<le> im_counter i")
      case False
      then show ?thesis using assms(1) by (simp add: Add throttler_add_def)
    next
      case True
      define s1 where "s1 = s\<lparr>latest := AList.update ?j (im_counter i) (latest s), queue := AList.update ?j (i, t) (queue s)\<rparr>"
      define s2 where "s2 = (if has_key (ongoing s1) ?j then s1
        else s1\<lparr>ongoing := AList.update ?j \<lparr>promise = None, handling = False\<rparr> (ongoing s1)\<rparr>)"
      have eq: "throttler_step s e =
          (if \<not> handling (the (map_of (ongoing s2) ?j)) then invokeHandleFnWithLock ?j s2 else s2)"
        using True by (simp add: Add throttler_add_def Let_def s1_def s2_def)
      have fields: "started s2 = started s" "latest s2 = AList.update ?j (im_counter i) (latest s)"
        "queue s2 = AList.update ?j (i, t) (queue s)"
        by (simp_all add: s2_def s1_def)
      then have sc: "started_counters k s2 = started_counters k s" by (simp add: started_counters_def)
      have bound: "case map_of (latest s2) k of None \<Rightarrow> started_counters k s2 = []
          | Some c \<Rightarrow> 0 \<le> c \<and> (\<forall>d \<in> set (started_counters k s2). 0 \<le> d \<and> d \<le> c)"
        using o True assms(2) unfolding sc fields by (auto simp: Add split: option.splits)
      show ?thesis
      proof (cases "handling (the (map_of (ongoing s2) ?j))")
        case True
        then have st: "throttler_step s e = s2" using eq by simp
        moreover have "throttler_ok s2" using ok' st by simp
        moreover have "sorted (started_counters k s2)" using o unfolding sc by simp
        ultimately show ?thesis using bound unfolding st ordered_def by blast
      next
        case False
        have "ordered k (invokeHandleFnWithLock ?j s2)"
        proof (rule ordered_invoke)
          show "throttler_ok (invokeHandleFnWithLock ?j s2)" using ok' eq False by simp
          show "sorted (started_counters k s2)" using o unfolding sc by simp
        qed (use bound in \<open>simp_all add: fields\<close>)
        then show ?thesis using eq False by simp
      qed
    qed
  next
    case (Settled i)
    show ?thesis
    proof (cases "map_of (awaiting s) i")
      case None
      then show ?thesis using assms(1) by (simp add: Settled settled_def)
    next
      case (Some j)
      let ?s = "s\<lparr>awaiting := filter (\<lambda>a. fst a \<noteq> i) (awaiting s)\<rparr>"
      have "ordered k (invokeHandleFnWithLock j ?s)"
      proof (rule ordered_invoke)
        show "throttler_ok (invokeHandleFnWithLock j ?s)" using ok' by (simp add: Settled settled_def Some)
        have sc: "started_counters k ?s = started_counters k s" by (simp add: started_counters_def)
        show "sorted (started_counters k ?s)" using o unfolding sc by simp
        show "case map_of (latest ?s) k of None \<Rightarrow> started_counters k ?s = []
          | Some c \<Rightarrow> 0 \<le> c \<and> (\<forall>d \<in> set (started_counters k ?s). 0 \<le> d \<and> d \<le> c)"
          using o unfolding sc by simp
      qed (use throttler_okD(5,6) [OF ok] in simp)
      then show ?thesis by (simp add: Settled settled_def Some)
    qed
  next
    case (RemoveStreamId j)
    let ?t = "throttler_removeStreamId j s"
    have "started ?t = started s" and l: "latest ?t = AList.delete j (latest s)"
      by (auto simp: throttler_removeStreamId_def cancel_def Let_def split: option.split)
    then have sc: "started_counters k ?t = started_counters k s" by (simp add: started_counters_def)
    have "map_of (latest ?t) k = map_of (latest s) k" using assms(2) by (simp add: l RemoveStreamId)
    moreover have "throttler_ok ?t" using ok' by (simp add: RemoveStreamId)
    ultimately show ?thesis using o by (simp only: RemoveStreamId throttler_step.simps ordered_def sc)
  next
    case Reset
    then show ?thesis using assms(2) by simp
  qed
qed

subsection \<open>What the throttler promises the node\<close>

definition example_instruction :: "string \<Rightarrow> int \<Rightarrow> string list \<Rightarrow> instruction" where
  "example_instruction sid c ns = \<lparr>im_streamId = sid, im_partition = 0, im_nodeIds = ns, im_counter = c\<rparr>"

text \<open>
  In every run of arrivals, completions, removals and resets, at most one handler of each
  stream is running, no lock is ever missing, and nothing is lost: whenever the throttler is
  idle, the last instruction it accepted for a stream is the last one handed to the handler.
\<close>

theorem throttler_serializes:
  "let s = foldl throttler_step new_throttler es in
   rejections s = 0 \<and>
   (\<forall>i j k. map_of (awaiting s) i = Some k \<and> map_of (awaiting s) j = Some k \<longrightarrow> i = j) \<and>
   (isIdle s \<longrightarrow> (\<forall>k c. map_of (latest s) k = Some c \<longrightarrow>
      (\<exists>q. last_started s k = Some q \<and> im_counter (fst q) = c)))"
proof -
  let ?s = "foldl throttler_step new_throttler es"
  have ok: "throttler_ok ?s" using throttlers.run_inv [OF new_throttler_ok] by simp
  have "\<exists>q. last_started ?s k = Some q \<and> im_counter (fst q) = c"
    if idle: "isIdle ?s" and c: "map_of (latest ?s) k = Some c" for k c
  proof -
    have "map_of (queue ?s) k = None"
    proof (rule ccontr)
      assume "map_of (queue ?s) k \<noteq> None"
      then obtain p where "map_of (ongoing ?s) k = Some p" "handling p" using throttler_okD(7) [OF ok] by blast
      then show False using idle by (force simp: isIdle_def list_ex_iff dest: map_of_SomeD)
    qed
    with throttler_okD(8) [OF ok c] show ?thesis by blast
  qed
  then show ?thesis
    using throttler_okD(9) [OF ok] awaiting_unique [OF ok] by (auto simp: Let_def)
qed

theorem throttler_serializes_witness:
  "rejections (foldl throttler_step new_throttler
     [Add (example_instruction ''s'' 1 [''a'']) ''t'', Add (example_instruction ''s'' 2 [''b'']) ''t'', Settled 0]) = 0"
  using throttler_serializes [of "[Add (example_instruction ''s'' 1 [''a'']) ''t'',
      Add (example_instruction ''s'' 2 [''b'']) ''t'', Settled 0]"] by (simp only: Let_def)

text \<open>
  As long as a stream is not removed and the counters are not negative, the handler sees
  the instructions of the stream in the order of their counters: an instruction that is older
  than one already accepted is dropped.
\<close>

theorem throttler_keeps_order:
  assumes "\<forall>e \<in> set es. keeps_order k e"
  shows "sorted (started_counters k (foldl throttler_step new_throttler es))"
proof -
  have "ordered k new_throttler"
    using new_throttler_ok by (simp add: ordered_def started_counters_def new_throttler_def)
  then have "ordered k (foldl throttler_step new_throttler es)"
    using assms
  proof (induction es rule: rev_induct)
    case (snoc e es)
    then show ?case using ordered_step [of k _ e] by simp
  qed simp
  then show ?thesis by (simp add: ordered_def)
qed

theorem throttler_keeps_order_witness:
  "sorted (started_counters ''s::0'' (foldl throttler_step new_throttler
     [Add (example_instruction ''s'' 2 [''a'']) ''t'', Settled 0, Add (example_instruction ''s'' 1 [''b'']) ''t'']))"
  by (rule throttler_keeps_order) (simp add: example_instruction_def)

text \<open>
  The comment of the source promises more, that no more than one instruction is handled at a
  time; the lock is per stream, and instructions of two streams are handled concurrently.
\<close>

lemma two_streams_concurrently:
  "awaiting (foldl throttler_step new_throttler
     [Add (example_instruction ''s'' 1 []) ''t'', Add (example_instruction ''u'' 1 []) ''t'']) =
   [(0, ''s::0''), (1, ''u::0'')]"
  by code_simp

end
