(* ===== verification/InstructionRetry.thy ===== *)
theory InstructionRetry
  imports InstructionThrottler
begin

section \<open>The instruction retry manager\<close>

text \<open>
  \<open>src/src/logic/InstructionRetryManager.ts\<close>: the last instruction of each stream is handled
  again after a pause, again and again, until the stream is removed. The state holds the
  entry of each stream (its timer and its counter); \<open>timers\<close> lists the armed timers with
  what they will retry, \<open>pending\<close> the handler calls whose \<open>await\<close> is pending, and
  \<open>handled\<close> records the handler calls with the flag \<open>reattempt\<close>. Clearing a timer that has
  fired does nothing. A timer that fires and a handler that settles are events.
\<close>

record retry_entry =
  timer :: nat
  retry_counter :: nat

record retry_manager =
  instructionRetryIntervals :: "(stream_key, retry_entry) dict"
  timers :: "(nat \<times> (instruction \<times> string)) list"
  pending :: "(nat \<times> (instruction \<times> string)) list"
  next_timer :: nat
  handled :: "(instruction \<times> string \<times> bool) list"

definition statusSendCounterLimit :: nat where
  "statusSendCounterLimit = 9"

definition new_retry_manager :: retry_manager where
  "new_retry_manager = \<lparr>instructionRetryIntervals = [], timers = [], pending = [], next_timer = 0, handled = []\<rparr>"

definition clear_timer :: "stream_key \<Rightarrow> retry_manager \<Rightarrow> retry_manager" where
  "clear_timer k m = (case map_of (instructionRetryIntervals m) k of
       None \<Rightarrow> m
     | Some e \<Rightarrow> m\<lparr>timers := AList.delete (timer e) (timers m)\<rparr>)"

text \<open>\<open>setTimeout\<close> for the stream, with the entry it belongs to.\<close>

definition arm :: "instruction \<times> string \<Rightarrow> nat \<Rightarrow> retry_manager \<Rightarrow> retry_manager" where
  "arm q c m =
     m\<lparr>instructionRetryIntervals := AList.update (im_key (fst q)) \<lparr>timer = next_timer m, retry_counter = c\<rparr> (instructionRetryIntervals m),
       timers := AList.update (next_timer m) q (timers m), next_timer := next_timer m + 1\<rparr>"

definition retry_add :: "instruction \<Rightarrow> string \<Rightarrow> retry_manager \<Rightarrow> retry_manager" where
  "retry_add i tracker m = arm (i, tracker) 0 (clear_timer (im_key i) m)"

text \<open>A timer fires: \<open>retryFunction\<close> up to its \<open>await\<close>.\<close>

definition fire :: "nat \<Rightarrow> retry_manager \<Rightarrow> retry_manager" where
  "fire j m = (case map_of (timers m) j of
       None \<Rightarrow> m
     | Some q \<Rightarrow>
         (let m1 = m\<lparr>timers := AList.delete j (timers m)\<rparr> in
          case map_of (instructionRetryIntervals m) (im_key (fst q)) of
            None \<Rightarrow> m1
          | Some e \<Rightarrow> m1\<lparr>pending := AList.update j q (pending m1),
              handled := handled m1 @ [(fst q, snd q, retry_counter e \<noteq> 0)]\<rparr>))"

text \<open>The handler settles: \<open>retryFunction\<close> after its \<open>await\<close>.\<close>

definition retried :: "nat \<Rightarrow> retry_manager \<Rightarrow> retry_manager" where
  "retried j m = (case map_of (pending m) j of
       None \<Rightarrow> m
     | Some q \<Rightarrow>
         (let m1 = m\<lparr>pending := AList.delete j (pending m)\<rparr> in
          case map_of (instructionRetryIntervals m) (im_key (fst q)) of
            None \<Rightarrow> m1
          | Some e \<Rightarrow>
              arm q (if retry_counter e \<ge> statusSendCounterLimit then 0 else retry_counter e + 1)
                (clear_timer (im_key (fst q)) m1)))"

definition retry_removeStreamId :: "stream_key \<Rightarrow> retry_manager \<Rightarrow> retry_manager" where
  "retry_removeStreamId k m =
     (let m1 = clear_timer k m
      in m1\<lparr>instructionRetryIntervals := AList.delete k (instructionRetryIntervals m1)\<rparr>)"

definition retry_reset :: "retry_manager \<Rightarrow> retry_manager" where
  "retry_reset m =
     (let m1 = foldl (\<lambda>m k. clear_timer k m) m (keys_of (instructionRetryIntervals m))
      in m1\<lparr>instructionRetryIntervals := []\<rparr>)"

datatype retry_event =
    RetryAdd instruction string
  | Fire nat
  | Retried nat
  | RetryRemove stream_key
  | RetryReset

fun retry_step :: "retry_manager \<Rightarrow> retry_event \<Rightarrow> retry_manager" where
  "retry_step m (RetryAdd i t) = retry_add i t m"
| "retry_step m (Fire j) = fire j m"
| "retry_step m (Retried j) = retried j m"
| "retry_step m (RetryRemove k) = retry_removeStreamId k m"
| "retry_step m RetryReset = retry_reset m"

subsection \<open>The invariant: one timer for each stream\<close>

definition retry_ok :: "retry_manager \<Rightarrow> bool" where
  "retry_ok m \<longleftrightarrow>
     (\<forall>j q. map_of (timers m) j = Some q \<longrightarrow> j < next_timer m \<and>
        (\<exists>e. map_of (instructionRetryIntervals m) (im_key (fst q)) = Some e \<and> timer e = j)) \<and>
     (\<forall>k e. map_of (instructionRetryIntervals m) k = Some e \<longrightarrow>
        timer e < next_timer m \<and> retry_counter e \<le> statusSendCounterLimit)"

lemma retry_okD:
  assumes "retry_ok m"
  shows "map_of (timers m) j = Some q \<Longrightarrow> j < next_timer m"
    "map_of (timers m) j = Some q \<Longrightarrow> \<exists>e. map_of (instructionRetryIntervals m) (im_key (fst q)) = Some e \<and> timer e = j"
    "map_of (instructionRetryIntervals m) k = Some e \<Longrightarrow> timer e < next_timer m"
    "map_of (instructionRetryIntervals m) k = Some e \<Longrightarrow> retry_counter e \<le> statusSendCounterLimit"
  using assms unfolding retry_ok_def by blast+

text \<open>Once its timer is cleared, a stream has no armed timer.\<close>

lemma cleared:
  assumes "retry_ok m" and "map_of (timers (clear_timer k m)) j = Some q"
  shows "im_key (fst q) \<noteq> k \<and> map_of (timers m) j = Some q"
proof (cases "map_of (instructionRetryIntervals m) k")
  case None
  then have "map_of (timers m) j = Some q" using assms(2) by (simp add: clear_timer_def)
  with retry_okD(2) [OF assms(1) this] None show ?thesis by auto
next
  case (Some e)
  then have j: "j \<noteq> timer e" "map_of (timers m) j = Some q"
    using assms(2) by (auto simp: clear_timer_def split: if_splits)
  with retry_okD(2) [OF assms(1) j(2)] Some show ?thesis by auto
qed

lemma clear_timer_fields [simp]:
  "instructionRetryIntervals (clear_timer k m) = instructionRetryIntervals m" "pending (clear_timer k m) = pending m"
  "next_timer (clear_timer k m) = next_timer m" "handled (clear_timer k m) = handled m"
  by (simp_all add: clear_timer_def split: option.split)

lemma clear_timer_ok: "retry_ok m \<Longrightarrow> retry_ok (clear_timer k m)"
  using cleared [of m k] unfolding retry_ok_def clear_timer_fields by blast

lemma arm_ok:
  assumes ok: "retry_ok m" and c: "c \<le> statusSendCounterLimit"
  shows "retry_ok (arm q c (clear_timer (im_key (fst q)) m))"
proof -
  let ?m = "clear_timer (im_key (fst q)) m"
  note ok' = clear_timer_ok [OF ok, of "im_key (fst q)"]
  show ?thesis
    unfolding retry_ok_def
  proof (intro conjI allI impI)
    fix j r assume "map_of (timers (arm q c ?m)) j = Some r"
    then have j: "(j = next_timer m \<and> r = q) \<or> (j \<noteq> next_timer m \<and> map_of (timers ?m) j = Some r)"
      by (auto simp: arm_def split: if_splits)
    have "j < next_timer m" if "map_of (timers ?m) j = Some r" using retry_okD(1) [OF ok' that] by simp
    then show "j < next_timer (arm q c ?m)" using j by (auto simp: arm_def)
    show "\<exists>e. map_of (instructionRetryIntervals (arm q c ?m)) (im_key (fst r)) = Some e \<and> timer e = j"
      using j cleared [OF ok, of "im_key (fst q)" j r] retry_okD(2) [OF ok' , of j r] by (auto simp: arm_def)
  next
    fix k e assume "map_of (instructionRetryIntervals (arm q c ?m)) k = Some e"
    then show "timer e < next_timer (arm q c ?m)" "retry_counter e \<le> statusSendCounterLimit"
      using c retry_okD(3,4) [OF ok, of k e] by (auto simp: arm_def split: if_splits)
  qed
qed

lemma fire_ok:
  assumes "retry_ok m"
  shows "retry_ok (fire j m)"
  using retry_okD [OF assms] unfolding retry_ok_def
  by (auto simp: fire_def Let_def split: option.split if_splits)

lemma retry_ok_pending [simp]: "retry_ok (m\<lparr>pending := p\<rparr>) = retry_ok m"
  by (simp add: retry_ok_def)

lemma retried_ok:
  assumes "retry_ok m"
  shows "retry_ok (retried j m)"
proof (cases "map_of (pending m) j")
  case None
  then show ?thesis using assms by (simp add: retried_def)
next
  case (Some q)
  have ok: "retry_ok (m\<lparr>pending := AList.delete j (pending m)\<rparr>)" using assms by simp
  show ?thesis
    using assms retry_okD(4) [OF assms, of "im_key (fst q)"]
    by (auto simp: retried_def Some ok Let_def split: option.split intro!: arm_ok)
qed

lemma retry_removeStreamId_ok:
  assumes ok: "retry_ok m"
  shows "retry_ok (retry_removeStreamId k m)"
  unfolding retry_ok_def
proof (intro conjI allI impI)
  fix j q assume "map_of (timers (retry_removeStreamId k m)) j = Some q"
  then have t: "map_of (timers (clear_timer k m)) j = Some q" by (simp add: retry_removeStreamId_def Let_def)
  note c = cleared [OF ok t]
  then have q: "map_of (timers m) j = Some q" by blast
  show "j < next_timer (retry_removeStreamId k m)"
    using retry_okD(1) [OF ok q] by (simp add: retry_removeStreamId_def Let_def)
  show "\<exists>e. map_of (instructionRetryIntervals (retry_removeStreamId k m)) (im_key (fst q)) = Some e \<and> timer e = j"
    using retry_okD(2) [OF ok q] c by (simp add: retry_removeStreamId_def Let_def)
next
  fix l e assume "map_of (instructionRetryIntervals (retry_removeStreamId k m)) l = Some e"
  then have "map_of (instructionRetryIntervals m) l = Some e"
    by (simp add: retry_removeStreamId_def Let_def split: if_splits)
  then show "timer e < next_timer (retry_removeStreamId k m)" "retry_counter e \<le> statusSendCounterLimit"
    using retry_okD(3,4) [OF ok, of l e] by (simp_all add: retry_removeStreamId_def Let_def)
qed

lemma clear_all:
  assumes "retry_ok m"
  shows "retry_ok (foldl (\<lambda>m k. clear_timer k m) m ks)"
    "instructionRetryIntervals (foldl (\<lambda>m k. clear_timer k m) m ks) = instructionRetryIntervals m"
    "map_of (timers (foldl (\<lambda>m k. clear_timer k m) m ks)) j = Some q \<Longrightarrow>
       im_key (fst q) \<notin> set ks \<and> map_of (timers m) j = Some q"
  using assms
proof (induction ks arbitrary: m)
  case (Cons k ks)
  { case 1 from clear_timer_ok [OF 1, of k] Cons.IH(1) show ?case by simp }
  { case 2 from clear_timer_ok [OF 2, of k] Cons.IH(2) show ?case by simp }
  { case 3
    have "im_key (fst q) \<notin> set ks \<and> map_of (timers (clear_timer k m)) j = Some q"
      using 3 clear_timer_ok [OF 3(2), of k] Cons.IH(3) by simp
    with cleared [OF 3(2), of k j q] show ?case by auto }
qed simp_all

lemma reset_timers:
  assumes "retry_ok m"
  shows "map_of (timers (retry_reset m)) j = None"
proof (rule ccontr)
  assume "map_of (timers (retry_reset m)) j \<noteq> None"
  then obtain q where q: "map_of (timers (retry_reset m)) j = Some q" by blast
  let ?ks = "keys_of (instructionRetryIntervals m)"
  have "map_of (timers (foldl (\<lambda>m k. clear_timer k m) m ?ks)) j = Some q"
    using q by (simp add: retry_reset_def Let_def)
  from clear_all(3) [OF assms this] obtain e where
    "map_of (instructionRetryIntervals m) (im_key (fst q)) = Some e" "im_key (fst q) \<notin> set ?ks"
    using retry_okD(2) [OF assms, of j q] by blast
  then show False using has_key_iff [of "instructionRetryIntervals m" "im_key (fst q)"] by simp
qed

lemma retry_reset_ok: "retry_ok m \<Longrightarrow> retry_ok (retry_reset m)"
  using reset_timers [of m] unfolding retry_ok_def by (simp add: retry_reset_def Let_def)

interpretation retries: step_invariant retry_step "\<lambda>_. True" retry_ok
proof
  show "retry_ok (retry_step m e)" if "retry_ok m" for m e
  proof (cases e)
    case (RetryAdd i t)
    then show ?thesis using arm_ok [OF that, of 0 "(i, t)"] by (simp add: retry_add_def)
  qed (use that in \<open>simp_all add: fire_ok retried_ok retry_removeStreamId_ok retry_reset_ok\<close>)
qed

lemma new_retry_manager_ok: "retry_ok new_retry_manager"
  by (simp add: retry_ok_def new_retry_manager_def)

subsection \<open>The cadence of the retries\<close>

definition ready :: "instruction \<times> string \<Rightarrow> nat \<Rightarrow> retry_manager \<Rightarrow> bool" where
  "ready q c m \<longleftrightarrow> (\<exists>e. map_of (instructionRetryIntervals m) (im_key (fst q)) = Some e \<and> retry_counter e = c \<and>
     map_of (timers m) (timer e) = Some q)"

text \<open>
  One round: the timer of the stream fires and the handler settles. The handler of the node
  (\<open>handleTrackerInstruction\<close>) first adds the instruction again: \<open>node_retry\<close>.
\<close>

definition timer_of :: "stream_key \<Rightarrow> retry_manager \<Rightarrow> nat" where
  "timer_of k m = (case map_of (instructionRetryIntervals m) k of None \<Rightarrow> next_timer m | Some e \<Rightarrow> timer e)"

definition retry_once :: "stream_key \<Rightarrow> retry_manager \<Rightarrow> retry_manager" where
  "retry_once k m = retried (timer_of k m) (fire (timer_of k m) m)"

definition node_retry :: "instruction \<times> string \<Rightarrow> retry_manager \<Rightarrow> retry_manager" where
  "node_retry q m =
     (let k = im_key (fst q)
      in retried (timer_of k m) (retry_add (fst q) (snd q) (fire (timer_of k m) m)))"

definition flags :: "retry_manager \<Rightarrow> bool list" where
  "flags m = map (\<lambda>(_, _, b). b) (handled m)"

lemma ready_arm [simp]: "ready q c (arm q c m)"
  by (simp add: ready_def arm_def)

lemma handled_arm [simp]: "handled (arm q c m) = handled m" "pending (arm q c m) = pending m"
  by (simp_all add: arm_def)

lemma ready_add: "ready (i, t) 0 (retry_add i t m)" "handled (retry_add i t m) = handled m"
  by (simp_all add: retry_add_def)

lemma fire_ready:
  assumes "ready q c m"
  shows "map_of (pending (fire (timer_of (im_key (fst q)) m) m)) (timer_of (im_key (fst q)) m) = Some q"
    "handled (fire (timer_of (im_key (fst q)) m) m) = handled m @ [(fst q, snd q, c \<noteq> 0)]"
    "instructionRetryIntervals (fire (timer_of (im_key (fst q)) m) m) = instructionRetryIntervals m"
  using assms by (auto simp: ready_def fire_def timer_of_def)

lemma retry_once_ready:
  assumes "ready q c m"
  shows "ready q (if c \<ge> statusSendCounterLimit then 0 else c + 1) (retry_once (im_key (fst q)) m)"
    "flags (retry_once (im_key (fst q)) m) = flags m @ [c \<noteq> 0]"
  using assms fire_ready [OF assms]
  by (auto simp: ready_def [of q c m] retry_once_def retried_def flags_def)

lemma node_retry_ready:
  assumes "ready q c m"
  shows "ready q 1 (node_retry q m)" "flags (node_retry q m) = flags m @ [c \<noteq> 0]"
proof -
  let ?j = "timer_of (im_key (fst q)) m"
  let ?m = "retry_add (fst q) (snd q) (fire ?j m)"
  obtain e where e: "map_of (instructionRetryIntervals ?m) (im_key (fst q)) = Some e" "retry_counter e = 0"
    using ready_add(1) [of "fst q" "snd q" "fire ?j m"] by (auto simp: ready_def)
  have p: "map_of (pending ?m) ?j = Some q" using fire_ready(1) [OF assms] by (simp add: retry_add_def)
  show "ready q 1 (node_retry q m)"
    by (simp add: node_retry_def retried_def p e statusSendCounterLimit_def Let_def)
  show "flags (node_retry q m) = flags m @ [c \<noteq> 0]"
    using fire_ready(2) [OF assms]
    by (simp add: node_retry_def retried_def p e flags_def ready_add(2) Let_def)
qed

lemma retry_rounds:
  "ready q (n mod 10) m \<Longrightarrow> flags m = map (\<lambda>i. i mod 10 \<noteq> 0) [0..<n] \<Longrightarrow>
   flags ((retry_once (im_key (fst q)) ^^ r) m) = map (\<lambda>i. i mod 10 \<noteq> 0) [0..<n + r]"
proof (induction r arbitrary: m n)
  case (Suc r)
  have next_c: "(if n mod 10 \<ge> statusSendCounterLimit then 0 else n mod 10 + 1) = Suc n mod 10"
    using mod_less_divisor [of 10 n] by (auto simp: statusSendCounterLimit_def mod_Suc)
  have "flags ((retry_once (im_key (fst q)) ^^ r) (retry_once (im_key (fst q)) m)) =
      map (\<lambda>i. i mod 10 \<noteq> 0) [0..<Suc n + r]"
    using retry_once_ready [OF Suc.prems(1)] Suc.prems(2) by (intro Suc.IH) (simp_all add: next_c)
  then show ?case by (simp add: funpow_swap1)
qed simp

lemma node_rounds:
  "ready q 1 m \<Longrightarrow> flags ((node_retry q ^^ r) m) = flags m @ replicate r True"
proof (induction r arbitrary: m)
  case (Suc r)
  from Suc.IH [OF node_retry_ready(1) [OF Suc.prems]] node_retry_ready(2) [OF Suc.prems] show ?case
    by (simp add: funpow_swap1)
qed simp

subsection \<open>What the retry manager does\<close>

text \<open>
  In every run a stream has at most one armed timer, and only while the manager has an
  entry for it: removing the stream or resetting the manager leaves none, so nothing is
  retried for a stream the node has left.
\<close>

theorem one_timer_per_stream:
  "let m = foldl retry_step new_retry_manager es in
   (\<forall>i j q r. map_of (timers m) i = Some q \<and> map_of (timers m) j = Some r \<and> im_key (fst q) = im_key (fst r) \<longrightarrow> i = j) \<and>
   (\<forall>k j q. map_of (timers (retry_removeStreamId k m)) j = Some q \<longrightarrow> im_key (fst q) \<noteq> k) \<and>
   (\<forall>j. map_of (timers (retry_reset m)) j = None)"
proof -
  have ok: "retry_ok (foldl retry_step new_retry_manager es)" (is "retry_ok ?m")
    using retries.run_inv [OF new_retry_manager_ok] by simp
  have "i = j" if "map_of (timers ?m) i = Some q" "map_of (timers ?m) j = Some r" "im_key (fst q) = im_key (fst r)" for i j q r
    using retry_okD(2) [OF ok that(1)] retry_okD(2) [OF ok that(2)] that(3) by auto
  moreover have "im_key (fst q) \<noteq> k" if "map_of (timers (retry_removeStreamId k ?m)) j = Some q" for k j q
    using cleared [OF ok, of k j q] that by (simp add: retry_removeStreamId_def Let_def)
  ultimately show ?thesis using reset_timers [OF ok] unfolding Let_def by blast
qed

theorem one_timer_per_stream_witness:
  "let old = example_instruction ''s'' 1 [''a'']; new = example_instruction ''s'' 2 [''b''];
       m = foldl retry_step new_retry_manager [RetryAdd old ''t'', RetryAdd new ''t'']
   in map_of (timers m) 1 = Some (new, ''t'') \<and> map_of (timers m) 0 \<noteq> Some (old, ''t'') \<and>
      map_of (timers (retry_removeStreamId (im_key new) m)) 1 \<noteq> Some (new, ''t'')"
proof -
  let ?old = "example_instruction ''s'' 1 [''a'']" and ?new = "example_instruction ''s'' 2 [''b'']"
  let ?es = "[RetryAdd ?old ''t'', RetryAdd ?new ''t'']"
  note facts = one_timer_per_stream [of ?es, unfolded Let_def]
  have new: "map_of (timers (foldl retry_step new_retry_manager ?es)) 1 = Some (?new, ''t'')" by code_simp
  moreover have key: "im_key (fst (?old, ''t'')) = im_key (fst (?new, ''t''))" by code_simp
  moreover have "map_of (timers (foldl retry_step new_retry_manager ?es)) 0 \<noteq> Some (?old, ''t'')"
    using facts new key by (metis zero_neq_one)
  moreover have "map_of (timers (retry_removeStreamId (im_key ?new) (foldl retry_step new_retry_manager ?es))) 1 \<noteq> Some (?new, ''t'')"
    using facts by (metis fst_conv)
  ultimately show ?thesis unfolding Let_def by blast
qed

text \<open>
  The comment of the source holds for the manager on its own: the first retry and every
  tenth one after it are not marked as reattempts and so send a status. It does not hold in
  the node, whose handler adds the instruction again at the start of every retry and thereby
  resets the counter: there only the first retry sends a status unasked, and all later ones
  are reattempts for ever.
\<close>

theorem retry_cadence:
  "flags ((retry_once (im_key i) ^^ n) (retry_add i t new_retry_manager)) = map (\<lambda>r. r mod 10 \<noteq> 0) [0..<n] \<and>
   flags ((node_retry (i, t) ^^ n) (retry_add i t new_retry_manager)) = map (\<lambda>r. r \<noteq> 0) [0..<n]"
proof
  have start: "ready (i, t) 0 (retry_add i t new_retry_manager)" "flags (retry_add i t new_retry_manager) = []"
    by (simp_all add: ready_add flags_def) (simp add: new_retry_manager_def)
  show "flags ((retry_once (im_key i) ^^ n) (retry_add i t new_retry_manager)) = map (\<lambda>r. r mod 10 \<noteq> 0) [0..<n]"
    using retry_rounds [of "(i, t)" 0 "retry_add i t new_retry_manager" n] start by simp
  show "flags ((node_retry (i, t) ^^ n) (retry_add i t new_retry_manager)) = map (\<lambda>r. r \<noteq> 0) [0..<n]"
  proof (cases n)
    case (Suc r)
    have "map (\<lambda>r. r \<noteq> 0) [0..<Suc r] = False # replicate r True"
      by (rule nth_equalityI) (auto simp: nth_Cons' nth_append simp del: upt_Suc)
    then show ?thesis
      using node_rounds [OF node_retry_ready(1) [OF start(1)], of r] node_retry_ready(2) [OF start(1)] start(2) Suc
      by (simp add: funpow_swap1)
  qed (simp add: start(2))
qed

text \<open>
  A retry can bring back an older instruction. When a newer instruction of the stream is
  added while the handler of a retry is still running, the handler's end replaces the timer
  of the newer instruction by one for the older, and from then on the older is retried.
\<close>

theorem retry_reverts_to_older_instruction:
  "let old = example_instruction ''s'' 1 [''a'']; new = example_instruction ''s'' 2 [''b''];
       m = foldl retry_step new_retry_manager [RetryAdd old ''t'', Fire 0, RetryAdd new ''t'', Retried 0]
   in map snd (timers m) = [(old, ''t'')] \<and>
      map (\<lambda>(i, _, _). i) (handled (foldl retry_step m [Fire 2, Retried 2, Fire 3, Retried 3])) = [old, old, old]"
  by code_simp

end
