(* ===== verification/MessageBuffer.thy ===== *)
theory MessageBuffer
  imports Prelude
begin

section \<open>The message buffer\<close>

text \<open>
  \<open>src/src/helpers/MessageBuffer.ts\<close>: messages that wait for a neighbour, per stream, at
  most \<open>maxSize\<close> for each, each with a timeout after which the stream's oldest message is
  dropped. \<open>armed\<close> lists the timers that have not fired, by their number, in the order
  \<open>setTimeout\<close> made them; all have the same duration, so the first of the list is the next
  to fire. \<open>expired\<close> records the calls of \<open>onTimeout\<close>. Reading an element of \<open>undefined\<close>
  throws a \<open>TypeError\<close>; \<open>shift\<close> of an empty array and \<open>clearTimeout(undefined)\<close> do nothing.
\<close>

record 'm message_buffer =
  buffer :: "(string, 'm list) dict"
  timeoutRefs :: "(string, nat list) dict"
  armed :: "(nat \<times> string) list"
  next_ref :: nat
  expired :: "string list"

datatype buffer_error = BufferTypeError

definition new_buffer :: "'m message_buffer" where
  "new_buffer = \<lparr>buffer = [], timeoutRefs = [], armed = [], next_ref = 0, expired = []\<rparr>"

definition clear_ref :: "nat \<Rightarrow> (nat \<times> string) list \<Rightarrow> (nat \<times> string) list" where
  "clear_ref r a = filter (\<lambda>t. fst t \<noteq> r) a"

definition refs_at :: "'m message_buffer \<Rightarrow> string \<Rightarrow> nat list" where
  "refs_at b k = (case map_of (timeoutRefs b) k of None \<Rightarrow> [] | Some rs \<Rightarrow> rs)"

definition buffer_pop :: "string \<Rightarrow> 'm message_buffer \<Rightarrow> 'm message_buffer \<times> 'm option" where
  "buffer_pop k b = (case map_of (buffer b) k of
       None \<Rightarrow> (b, None)
     | Some ms \<Rightarrow>
         (b\<lparr>buffer := (if tl ms = [] then AList.delete k (buffer b) else AList.update k (tl ms) (buffer b)),
            timeoutRefs := AList.update k (tl (refs_at b k)) (timeoutRefs b),
            armed := (case refs_at b k of [] \<Rightarrow> armed b | r # _ \<Rightarrow> clear_ref r (armed b))\<rparr>,
          case ms of [] \<Rightarrow> None | m # _ \<Rightarrow> Some m))"

definition buffer_put :: "nat \<Rightarrow> string \<Rightarrow> 'm \<Rightarrow> 'm message_buffer \<Rightarrow> ('m message_buffer, buffer_error) outcome" where
  "buffer_put maxSize k m b =
     (let b1 = (if has_key (buffer b) k then b
                else b\<lparr>buffer := AList.update k [] (buffer b), timeoutRefs := AList.update k [] (timeoutRefs b)\<rparr>);
          b2 = (if length (the (map_of (buffer b1) k)) \<ge> maxSize then fst (buffer_pop k b1) else b1)
      in case map_of (buffer b2) k of
           None \<Rightarrow> (b2, Some BufferTypeError)
         | Some ms \<Rightarrow>
             (b2\<lparr>buffer := AList.update k (ms @ [m]) (buffer b2),
                 timeoutRefs := AList.update k (refs_at b2 k @ [next_ref b2]) (timeoutRefs b2),
                 armed := armed b2 @ [(next_ref b2, k)], next_ref := next_ref b2 + 1\<rparr>, None))"

text \<open>The timer \<open>i\<close> fires.\<close>

definition buffer_expire :: "nat \<Rightarrow> 'm message_buffer \<Rightarrow> 'm message_buffer" where
  "buffer_expire i b = (case map_of (armed b) i of
       None \<Rightarrow> b
     | Some k \<Rightarrow> (let b1 = fst (buffer_pop k (b\<lparr>armed := clear_ref i (armed b)\<rparr>)) in b1\<lparr>expired := expired b1 @ [k]\<rparr>))"

definition buffer_popAll :: "string \<Rightarrow> 'm message_buffer \<Rightarrow> 'm message_buffer \<times> 'm list" where
  "buffer_popAll k b = (case map_of (buffer b) k of
       None \<Rightarrow> (b, [])
     | Some ms \<Rightarrow>
         (b\<lparr>buffer := AList.delete k (buffer b), timeoutRefs := AList.delete k (timeoutRefs b),
            armed := foldl (\<lambda>a r. clear_ref r a) (armed b) (refs_at b k)\<rparr>, ms))"

definition buffer_clear :: "'m message_buffer \<Rightarrow> 'm message_buffer" where
  "buffer_clear b = foldl (\<lambda>b k. fst (buffer_popAll k b)) b (keys_of (buffer b))"

definition buffer_size :: "'m message_buffer \<Rightarrow> nat" where
  "buffer_size b = foldl (\<lambda>total ms. total + length ms) 0 (values_of (buffer b))"

subsection \<open>The messages with their timers\<close>

definition contents :: "'m message_buffer \<Rightarrow> string \<Rightarrow> 'm list" where
  "contents b k = (case map_of (buffer b) k of None \<Rightarrow> [] | Some ms \<Rightarrow> ms)"

definition timers_at :: "'m message_buffer \<Rightarrow> string \<Rightarrow> nat list" where
  "timers_at b k = map fst (filter (\<lambda>t. snd t = k) (armed b))"

definition entries :: "'m message_buffer \<Rightarrow> string \<Rightarrow> (nat \<times> 'm) list" where
  "entries b k = zip (timers_at b k) (contents b k)"

text \<open>
  The invariant: the references of a stream are its armed timers, in order, one for each
  message; a stream without messages has no array and no timer.
\<close>

definition buffer_ok :: "nat \<Rightarrow> 'm message_buffer \<Rightarrow> bool" where
  "buffer_ok n b \<longleftrightarrow>
     dict_ok (buffer b) \<and> dict_ok (armed b) \<and> (\<forall>t \<in> set (armed b). fst t < next_ref b) \<and>
     (\<forall>k. refs_at b k = timers_at b k \<and> length (timers_at b k) = length (contents b k) \<and>
          length (contents b k) \<le> n \<and> map_of (buffer b) k \<noteq> Some [])"

lemma buffer_okD:
  assumes "buffer_ok n b"
  shows "refs_at b k = timers_at b k" "length (timers_at b k) = length (contents b k)"
    "length (contents b k) \<le> n" "map_of (buffer b) k \<noteq> Some []" "dict_ok (buffer b)" "dict_ok (armed b)"
    "t \<in> set (armed b) \<Longrightarrow> fst t < next_ref b"
  using assms unfolding buffer_ok_def by blast+

lemma new_buffer_ok: "buffer_ok n new_buffer"
  by (simp add: buffer_ok_def new_buffer_def refs_at_def timers_at_def contents_def)

lemma clear_ref_distinct: "dict_ok a \<Longrightarrow> dict_ok (clear_ref r a)"
  by (simp add: clear_ref_def distinct_map_filter)

lemma filter_clear_ref:
  "map fst (filter (\<lambda>t. snd t = k) (clear_ref r a)) = filter (\<lambda>i. i \<noteq> r) (map fst (filter (\<lambda>t. snd t = k) a))"
  by (induction a) (auto simp: clear_ref_def)

lemma clear_refs:
  "foldl (\<lambda>a r. clear_ref r a) a rs = filter (\<lambda>t. fst t \<notin> set rs) a"
  by (induction rs arbitrary: a) (auto simp: clear_ref_def intro: filter_cong)

lemma timer_owner:
  assumes "dict_ok a" and "r \<in> set (map fst (filter (\<lambda>t. snd t = k) a))" and "j \<noteq> k"
  shows "r \<notin> set (map fst (filter (\<lambda>t. snd t = j) a))"
  using assms by (auto dest!: map_of_is_SomeI [rotated])

lemma distinct_timers_at: "buffer_ok n b \<Longrightarrow> distinct (timers_at b k)"
  using buffer_okD(6) [of n b] by (simp add: timers_at_def distinct_map_filter)

lemma filter_fst_hd:
  "distinct (r # rs) \<Longrightarrow> filter (\<lambda>i. i \<noteq> r) (r # rs) = rs"
  by (auto simp: filter_id_conv)

text \<open>Taking the oldest message, seen on messages and timers.\<close>

lemma pop_parts:
  assumes ok: "buffer_ok n b"
  shows "contents (fst (buffer_pop k b)) = (contents b)(k := tl (contents b k))"
    "timers_at (fst (buffer_pop k b)) = (timers_at b)(k := tl (timers_at b k))"
    "snd (buffer_pop k b) = (case contents b k of [] \<Rightarrow> None | m # _ \<Rightarrow> Some m)"
    "next_ref (fst (buffer_pop k b)) = next_ref b"
proof -
  show "contents (fst (buffer_pop k b)) = (contents b)(k := tl (contents b k))"
    by (auto simp: buffer_pop_def contents_def fun_eq_iff split: option.split)
  show "snd (buffer_pop k b) = (case contents b k of [] \<Rightarrow> None | m # _ \<Rightarrow> Some m)"
    by (simp add: buffer_pop_def contents_def split: option.split)
  show "next_ref (fst (buffer_pop k b)) = next_ref b"
    by (simp add: buffer_pop_def split: option.split)
  show "timers_at (fst (buffer_pop k b)) = (timers_at b)(k := tl (timers_at b k))"
  proof (cases "map_of (buffer b) k")
    case None
    then have "contents b k = []" by (simp add: contents_def)
    then have "timers_at b k = []" using buffer_okD(2) [OF ok, of k] by simp
    then show ?thesis by (simp add: buffer_pop_def None fun_eq_iff)
  next
    case (Some ms)
    then have "length (timers_at b k) > 0"
      using buffer_okD(2,4) [OF ok, of k] by (auto simp: contents_def)
    then obtain r rs where r: "timers_at b k = r # rs" by (cases "timers_at b k") auto
    have d: "distinct (r # rs)" using distinct_timers_at [OF ok, of k] r by simp
    have a: "timers_at (fst (buffer_pop k b)) j = filter (\<lambda>i. i \<noteq> r) (timers_at b j)" for j
      using buffer_okD(1) [OF ok, of k] r Some filter_clear_ref [of j r "armed b"]
      by (simp add: buffer_pop_def timers_at_def)
    have "filter (\<lambda>i. i \<noteq> r) (timers_at b j) = timers_at b j" if "j \<noteq> k" for j
    proof -
      have "r \<notin> set (timers_at b j)"
        using timer_owner [OF buffer_okD(6) [OF ok] _ that, of r] r
        unfolding timers_at_def by (metis list.set_intros(1))
      then show ?thesis by (simp add: filter_id_conv) metis
    qed
    then show ?thesis using a filter_fst_hd [OF d] r by (auto simp: fun_eq_iff)
  qed
qed

lemma pop_ok:
  assumes ok: "buffer_ok n b"
  shows "buffer_ok n (fst (buffer_pop k b))"
proof (cases "map_of (buffer b) k")
  case None
  then show ?thesis using ok by (simp add: buffer_pop_def)
next
  case (Some ms)
  let ?b = "fst (buffer_pop k b)"
  have armed: "set (armed ?b) \<subseteq> set (armed b)" "dict_ok (armed ?b)"
    using buffer_okD(6) [OF ok] clear_ref_distinct
    by (auto simp: buffer_pop_def Some clear_ref_def split: list.split)
  have refs: "refs_at ?b j = (if j = k then tl (refs_at b k) else refs_at b j)" for j
    by (simp add: buffer_pop_def Some refs_at_def [of _ j])
  have "map_of (buffer ?b) j \<noteq> Some []" for j
    using buffer_okD(4) [OF ok, of j] by (simp add: buffer_pop_def Some)
  moreover have "dict_ok (buffer ?b)" using buffer_okD(5) [OF ok] by (simp add: buffer_pop_def Some)
  moreover have "refs_at ?b j = timers_at ?b j \<and> length (timers_at ?b j) = length (contents ?b j) \<and> length (contents ?b j) \<le> n" for j
    using buffer_okD(1,2,3) [OF ok, of j] pop_parts(1,2) [OF ok, of k] refs [of j] by auto
  moreover have "fst t < next_ref ?b" if "t \<in> set (armed ?b)" for t
    using that armed(1) buffer_okD(7) [OF ok, of t] pop_parts(4) [OF ok] by auto
  ultimately show ?thesis unfolding buffer_ok_def using armed(2) by blast
qed

lemma entries_tl: "zip (tl xs) (tl ys) = tl (zip xs ys)"
  by (cases xs; cases ys) auto

lemma pop_entries:
  assumes "buffer_ok n b"
  shows "entries (fst (buffer_pop k b)) = (entries b)(k := tl (entries b k))"
  using pop_parts(1,2) [OF assms, of k] by (auto simp: entries_def fun_eq_iff entries_tl)

lemma entries_contents: "buffer_ok n b \<Longrightarrow> map snd (entries b k) = contents b k"
  using buffer_okD(2) [of n b k] by (simp add: entries_def)

subsection \<open>Putting, expiring, emptying\<close>

text \<open>A stream set up with two empty arrays: the state in which \<open>put\<close> may leave it for a moment.\<close>

lemma tl_append_length: "length xs \<ge> n \<Longrightarrow> length xs \<le> n \<Longrightarrow> 0 < n \<Longrightarrow> length (tl xs @ [x]) \<le> n"
  by simp

lemma timers_at_append: "timers_at (b\<lparr>armed := armed b @ [(i, k)]\<rparr>) = (timers_at b)(k := timers_at b k @ [i])"
  by (auto simp: timers_at_def fun_eq_iff)

lemma push_parts:
  fixes b :: "'m message_buffer"
  assumes ok: "buffer_ok n b" and room: "length (contents b k) < n" and ms: "contents b k = ms"
    and t: "buffer t = AList.update k (ms @ [m]) (buffer b)" "timeoutRefs t = AList.update k (timers_at b k @ [next_ref b]) (timeoutRefs b)"
      "armed t = armed b @ [(next_ref b, k)]" "next_ref t = next_ref b + 1"
  shows "buffer_ok n t" "entries t = (entries b)(k := entries b k @ [(next_ref b, m)])"
proof -
  have c: "contents t = (contents b)(k := ms @ [m])" by (auto simp: contents_def t fun_eq_iff)
  have ts: "timers_at t = (timers_at b)(k := timers_at b k @ [next_ref b])"
    by (auto simp: timers_at_def t fun_eq_iff)
  have rs: "refs_at t j = (if j = k then timers_at b k @ [next_ref b] else refs_at b j)" for j
    by (simp add: refs_at_def t)
  have "dict_ok (armed t)" using buffer_okD(6,7) [OF ok] by (force simp: t)
  moreover have "fst x < next_ref t" if "x \<in> set (armed t)" for x
    using that buffer_okD(7) [OF ok, of x] by (auto simp: t)
  moreover have "refs_at t j = timers_at t j \<and> length (timers_at t j) = length (contents t j) \<and>
      length (contents t j) \<le> n \<and> map_of (buffer t) j \<noteq> Some []" for j
    using buffer_okD(1-4) [OF ok, of j] buffer_okD(2) [OF ok, of k] room ms by (simp add: rs c ts t)
  moreover have "dict_ok (buffer t)" using buffer_okD(5) [OF ok] by (simp add: t)
  ultimately show "buffer_ok n t" unfolding buffer_ok_def by blast
  show "entries t = (entries b)(k := entries b k @ [(next_ref b, m)])"
    using buffer_okD(2) [OF ok, of k] ms by (auto simp: entries_def c ts fun_eq_iff)
qed

lemma put_new_stream:
  assumes ok: "buffer_ok n b" and none: "map_of (buffer b) k = None" and n: "0 < n"
  shows "\<exists>t. buffer_put n k m b = (t, None) \<and> buffer_ok n t \<and> entries t = (entries b)(k := entries b k @ [(next_ref b, m)])"
proof -
  let ?b = "b\<lparr>buffer := AList.update k [] (buffer b), timeoutRefs := AList.update k [] (timeoutRefs b)\<rparr>"
  have c: "contents b k = []" using none by (simp add: contents_def)
  have ts: "timers_at b k = []" using buffer_okD(2) [OF ok, of k] c by simp
  let ?t = "?b\<lparr>buffer := AList.update k [m] (buffer b), timeoutRefs := AList.update k [next_ref b] (timeoutRefs b),
    armed := armed b @ [(next_ref b, k)], next_ref := next_ref b + 1\<rparr>"
  have "buffer_put n k m b = (?t, None)"
    using n by (simp add: buffer_put_def none Let_def refs_at_def update_Some_unfold)
  moreover have "buffer_ok n ?t \<and> entries ?t = (entries b)(k := entries b k @ [(next_ref b, m)])"
    using push_parts [OF ok, of k "[]" ?t m] c ts n by simp
  ultimately show ?thesis by blast
qed

lemma put_old_stream:
  assumes ok: "buffer_ok n b" and some: "map_of (buffer b) k \<noteq> None" and n: "1 < n"
  shows "\<exists>t. buffer_put n k m b = (t, None) \<and> buffer_ok n t \<and>
    entries t = (entries b)(k := (if length (entries b k) < n then entries b k else tl (entries b k)) @ [(next_ref b, m)])"
proof -
  define b2 where "b2 = (if length (contents b k) \<ge> n then fst (buffer_pop k b) else b)"
  have ok2: "buffer_ok n b2" using pop_ok [OF ok] ok by (simp add: b2_def)
  have len: "length (contents b2 k) < n"
    using buffer_okD(3) [OF ok, of k] pop_parts(1) [OF ok, of k] n by (auto simp: b2_def)
  have next_ref: "next_ref b2 = next_ref b" using pop_parts(4) [OF ok] by (simp add: b2_def)
  have e: "entries b2 = (entries b)(k := if length (entries b k) < n then entries b k else tl (entries b k))"
  proof -
    have "length (entries b k) = length (contents b k)" using buffer_okD(2) [OF ok, of k] by (simp add: entries_def)
    then show ?thesis using pop_entries [OF ok, of k] by (simp add: b2_def)
  qed
  have ms: "map_of (buffer b2) k = Some (contents b2 k)"
  proof -
    obtain ms where "map_of (buffer b) k = Some ms" using some by blast
    moreover have "tl ms \<noteq> []" if "length ms \<ge> n" using that n by (cases ms) auto
    ultimately show ?thesis by (auto simp: b2_def contents_def buffer_pop_def)
  qed
  let ?t = "b2\<lparr>buffer := AList.update k (contents b2 k @ [m]) (buffer b2),
    timeoutRefs := AList.update k (refs_at b2 k @ [next_ref b2]) (timeoutRefs b2),
    armed := armed b2 @ [(next_ref b2, k)], next_ref := next_ref b2 + 1\<rparr>"
  have "length (the (map_of (buffer b) k)) = length (contents b k)" using some by (auto simp: contents_def)
  then have "buffer_put n k m b = (?t, None)"
    using some ms unfolding buffer_put_def Let_def b2_def by (cases "n \<le> length (contents b k)") simp_all
  moreover have "buffer_ok n ?t \<and> entries ?t = (entries b2)(k := entries b2 k @ [(next_ref b2, m)])"
    using push_parts [OF ok2 len refl, of ?t m] buffer_okD(1) [OF ok2, of k] by simp
  ultimately show ?thesis using next_ref e by (auto simp: fun_upd_upd)
qed

lemma put_effect:
  assumes ok: "buffer_ok n b" and n: "1 < n"
  obtains t where "buffer_put n k m b = (t, None)" "buffer_ok n t"
    "entries t = (entries b)(k := (if length (entries b k) < n then entries b k else tl (entries b k)) @ [(next_ref b, m)])"
proof (cases "map_of (buffer b) k")
  case None
  then have "entries b k = []" by (simp add: entries_def contents_def)
  then show ?thesis using put_new_stream [OF ok None, of m] n that by auto
next
  case (Some ms)
  then show ?thesis using put_old_stream [OF ok _ n, of k m] that by auto
qed

lemma popAll_effect:
  assumes ok: "buffer_ok n b"
  shows "buffer_ok n (fst (buffer_popAll k b))" "snd (buffer_popAll k b) = map snd (entries b k)"
    "entries (fst (buffer_popAll k b)) = (entries b)(k := [])"
proof -
  have k0: "entries b k = []" if "map_of (buffer b) k = None" using that by (simp add: entries_def contents_def)
  show "snd (buffer_popAll k b) = map snd (entries b k)"
    unfolding entries_contents [OF ok] by (simp add: buffer_popAll_def contents_def split: option.split)
  have armed: "armed (fst (buffer_popAll k b)) = filter (\<lambda>t. fst t \<notin> set (timers_at b k)) (armed b)"
    if "map_of (buffer b) k \<noteq> None"
    using that buffer_okD(1) [OF ok, of k] by (auto simp: buffer_popAll_def clear_refs)
  have c: "contents (fst (buffer_popAll k b)) = (contents b)(k := [])"
    by (auto simp: buffer_popAll_def contents_def fun_eq_iff split: option.split)
  have ts: "timers_at (fst (buffer_popAll k b)) = (timers_at b)(k := [])"
  proof (cases "map_of (buffer b) k")
    case None
    then have "timers_at b k = []" using buffer_okD(2) [OF ok, of k] by (simp add: contents_def)
    then show ?thesis using None by (simp add: buffer_popAll_def fun_eq_iff)
  next
    case (Some ms)
    have a: "timers_at (fst (buffer_popAll k b)) j = filter (\<lambda>i. i \<notin> set (timers_at b k)) (timers_at b j)" for j
    proof -
      have "map fst (filter (\<lambda>t. snd t = j) (filter (\<lambda>t. fst t \<notin> S) xs)) =
          filter (\<lambda>i. i \<notin> S) (map fst (filter (\<lambda>t. snd t = j) xs))" for S and xs :: "(nat \<times> string) list"
        by (induction xs) auto
      then show ?thesis using armed Some by (simp add: timers_at_def)
    qed
    have "filter (\<lambda>i. i \<notin> set (timers_at b k)) (timers_at b j) = timers_at b j" if "j \<noteq> k" for j
    proof -
      have "r \<notin> set (timers_at b j)" if "r \<in> set (timers_at b k)" for r
        using timer_owner [OF buffer_okD(6) [OF ok] _ \<open>j \<noteq> k\<close>, of r] that unfolding timers_at_def by blast
      then show ?thesis by (intro filter_True) blast
    qed
    then show ?thesis using a by (auto simp: fun_eq_iff)
  qed
  show "entries (fst (buffer_popAll k b)) = (entries b)(k := [])"
    by (auto simp: entries_def c ts fun_eq_iff)
  show "buffer_ok n (fst (buffer_popAll k b))"
  proof (cases "map_of (buffer b) k")
    case (Some ms)
    let ?b = "fst (buffer_popAll k b)"
    have "refs_at ?b j = (if j = k then [] else refs_at b j)" for j
      by (simp add: buffer_popAll_def Some refs_at_def [of _ j])
    moreover have "map_of (buffer ?b) j \<noteq> Some []" for j
      using buffer_okD(4) [OF ok, of j] by (simp add: buffer_popAll_def Some)
    moreover have "dict_ok (armed ?b)" "set (armed ?b) \<subseteq> set (armed b)"
      using armed Some buffer_okD(6) [OF ok] by (auto simp: distinct_map_filter)
    moreover have "dict_ok (buffer ?b)" "next_ref ?b = next_ref b"
      using buffer_okD(5) [OF ok] by (simp_all add: buffer_popAll_def Some)
    ultimately show ?thesis
      using buffer_okD(1,2,3,7) [OF ok] unfolding buffer_ok_def c ts by auto
  qed (use ok in \<open>simp add: buffer_popAll_def\<close>)
qed

lemma popAlls_effect:
  assumes "buffer_ok n b"
  shows "buffer_ok n (foldl (\<lambda>b k. fst (buffer_popAll k b)) b ks) \<and>
    entries (foldl (\<lambda>b k. fst (buffer_popAll k b)) b ks) = (\<lambda>k. if k \<in> set ks then [] else entries b k)"
  using assms
proof (induction ks arbitrary: b)
  case (Cons k ks)
  from Cons.IH [OF popAll_effect(1) [OF Cons.prems, of k]] popAll_effect(3) [OF Cons.prems, of k] show ?case
    by (auto simp: fun_eq_iff)
qed simp

lemma clear_effect:
  assumes "buffer_ok n b"
  shows "buffer_ok n (buffer_clear b)" "entries (buffer_clear b) = (\<lambda>k. [])"
proof -
  have "entries b k = []" if "k \<notin> set (keys_of (buffer b))" for k
    using that by (simp add: entries_def contents_def map_of_eq_None_iff [THEN iffD2])
  then show "buffer_ok n (buffer_clear b)" "entries (buffer_clear b) = (\<lambda>k. [])"
    using popAlls_effect [OF assms, of "keys_of (buffer b)"] by (auto simp: buffer_clear_def fun_eq_iff)
qed

text \<open>The first timer that fires belongs to the oldest message of its stream.\<close>

lemma expire_effect:
  assumes ok: "buffer_ok n b" and a: "armed b = (i, k) # rest"
  shows "buffer_ok n (buffer_expire i b)" "\<exists>m. entries b k = (i, m) # tl (entries b k)"
    "entries (buffer_expire i b) = (entries b)(k := tl (entries b k))" "expired (buffer_expire i b) = expired b @ [k]"
proof -
  have rest: "clear_ref i (armed b) = rest" "clear_ref i rest = rest"
    using buffer_okD(6) [OF ok] by (auto simp: a clear_ref_def filter_id_conv)
  have ts: "timers_at b k = i # map fst (filter (\<lambda>t. snd t = k) rest)" by (simp add: timers_at_def a)
  then obtain m ms where c: "contents b k = m # ms"
    using buffer_okD(2) [OF ok, of k] by (cases "contents b k") auto
  have "fst (buffer_pop k (b\<lparr>armed := rest\<rparr>)) = fst (buffer_pop k b)"
    using buffer_okD(1) [OF ok, of k] ts rest c
    by (simp add: buffer_pop_def refs_at_def contents_def split: option.splits)
  then have e: "buffer_expire i b = (fst (buffer_pop k b))\<lparr>expired := expired (fst (buffer_pop k b)) @ [k]\<rparr>"
    by (simp add: buffer_expire_def a rest Let_def) (simp add: a [symmetric] rest)
  show "buffer_ok n (buffer_expire i b)"
    using pop_ok [OF ok, of k] by (simp add: e buffer_ok_def refs_at_def timers_at_def contents_def)
  show "\<exists>m. entries b k = (i, m) # tl (entries b k)" by (simp add: entries_def ts c)
  show "entries (buffer_expire i b) = (entries b)(k := tl (entries b k))"
    using pop_entries [OF ok, of k] by (simp add: e entries_def [abs_def] timers_at_def contents_def)
  show "expired (buffer_expire i b) = expired b @ [k]"
    by (simp add: e buffer_pop_def split: option.split)
qed

text \<open>Each buffered message has a timer and each timer a message.\<close>

lemma length_by_class:
  "set (map f xs) \<subseteq> set ks \<Longrightarrow> distinct ks \<Longrightarrow> sum_list (map (\<lambda>k. length (filter (\<lambda>x. f x = k) xs)) ks) = length xs"
proof (induction xs)
  case (Cons x xs)
  have "sum_list (map (\<lambda>k. length (filter (\<lambda>x. f x = k) (x # xs))) ks) =
      sum_list (map (\<lambda>k. if f x = k then 1 else 0) ks) + sum_list (map (\<lambda>k. length (filter (\<lambda>x. f x = k) xs)) ks)"
    by (induction ks) auto
  moreover have "sum_list (map (\<lambda>k. if f x = k then 1 else 0) ks) = (1 :: nat)"
    using Cons.prems by (simp add: sum_list_distinct_conv_sum_set)
  ultimately show ?case using Cons by simp
qed simp

lemma size_is_timers:
  assumes ok: "buffer_ok n b"
  shows "buffer_size b = length (armed b)"
proof -
  have "foldl (\<lambda>t ms. t + length ms) a xs = a + sum_list (map length xs)" for a and xs :: "'a list list"
    by (induction xs arbitrary: a) auto
  then have "buffer_size b = sum_list (map length (values_of (buffer b)))" by (simp add: buffer_size_def)
  also have "map length (values_of (buffer b)) = map (\<lambda>k. length (timers_at b k)) (keys_of (buffer b))"
    using buffer_okD(2,5) [OF ok] by (auto simp: contents_def)
  also have "sum_list (map (\<lambda>k. length (timers_at b k)) (keys_of (buffer b))) = length (armed b)"
  proof -
    have "k \<in> set (keys_of (buffer b))" if "k \<in> set (map snd (armed b))" for k
    proof (rule ccontr)
      assume "k \<notin> set (keys_of (buffer b))"
      then have "contents b k = []" by (simp add: contents_def map_of_eq_None_iff [THEN iffD2])
      then have "timers_at b k = []" using buffer_okD(2) [OF ok, of k] by simp
      with that show False by (auto simp: timers_at_def filter_empty_conv)
    qed
    then show ?thesis
      using length_by_class [of snd "armed b" "keys_of (buffer b)"] buffer_okD(5) [OF ok]
      by (auto simp: timers_at_def)
  qed
  finally show ?thesis .
qed

subsection \<open>Runs of the buffer\<close>

datatype 'm buffer_call =
    BufferPut string 'm
  | BufferPop string
  | BufferPopAll string
  | BufferClear
  | NextTimer

fun buffer_step :: "nat \<Rightarrow> 'm message_buffer \<Rightarrow> 'm buffer_call \<Rightarrow> 'm message_buffer" where
  "buffer_step n b (BufferPut k m) = fst (buffer_put n k m b)"
| "buffer_step n b (BufferPop k) = fst (buffer_pop k b)"
| "buffer_step n b (BufferPopAll k) = fst (buffer_popAll k b)"
| "buffer_step n b BufferClear = buffer_clear b"
| "buffer_step n b NextTimer = (case armed b of [] \<Rightarrow> b | (i, _) # _ \<Rightarrow> buffer_expire i b)"

text \<open>The specification: a bounded queue for each stream, its elements tagged with their timers.\<close>

type_synonym 'm queues = "string \<Rightarrow> (nat \<times> 'm) list"

fun queues_step :: "nat \<Rightarrow> nat \<Rightarrow> string option \<Rightarrow> 'm queues \<Rightarrow> 'm buffer_call \<Rightarrow> 'm queues" where
  "queues_step n i owner q (BufferPut k m) = q(k := (if length (q k) < n then q k else tl (q k)) @ [(i, m)])"
| "queues_step n i owner q (BufferPop k) = q(k := tl (q k))"
| "queues_step n i owner q (BufferPopAll k) = q(k := [])"
| "queues_step n i owner q BufferClear = (\<lambda>k. [])"
| "queues_step n i owner q NextTimer = (case owner of None \<Rightarrow> q | Some k \<Rightarrow> q(k := tl (q k)))"

definition next_to_fire :: "'m message_buffer \<Rightarrow> string option" where
  "next_to_fire b = (case armed b of [] \<Rightarrow> None | (_, k) # _ \<Rightarrow> Some k)"

lemma buffer_step_effect:
  assumes ok: "buffer_ok n b" and n: "1 < n"
  shows "buffer_ok n (buffer_step n b e) \<and>
    entries (buffer_step n b e) = queues_step n (next_ref b) (next_to_fire b) (entries b) e"
proof (cases e)
  case (BufferPut k m)
  obtain t where "buffer_put n k m b = (t, None)" "buffer_ok n t"
    "entries t = (entries b)(k := (if length (entries b k) < n then entries b k else tl (entries b k)) @ [(next_ref b, m)])"
    using put_effect [OF ok n] by blast
  then show ?thesis by (simp add: BufferPut)
next
  case NextTimer
  then show ?thesis using ok expire_effect(1,3) [OF ok] by (auto simp: next_to_fire_def split: list.split)
qed (simp_all add: pop_ok [OF ok] pop_entries [OF ok] popAll_effect [OF ok] clear_effect [OF ok])

interpretation buffers: step_invariant "buffer_step (Suc (Suc n))" "\<lambda>_. True" "buffer_ok (Suc (Suc n))"
  by unfold_locales (use buffer_step_effect in auto)

subsection \<open>What the message buffer does\<close>

text \<open>
  C37. With a maximum of at least two, the buffer is a bounded queue for each stream. In every
  run each call does to the messages of every stream what the queues do (a full queue loses
  its oldest message, \<open>popAll\<close> hands over all of them in order, the next timer drops the
  oldest message of its stream), \<open>put\<close> never throws, no stream exceeds the maximum, every
  message has its timer, and no timer outlives its message.
\<close>

theorem buffer_refines_bounded_queues:
  "let b = foldl (buffer_step (n + 2)) new_buffer es in
   entries (buffer_step (n + 2) b e) = queues_step (n + 2) (next_ref b) (next_to_fire b) (entries b) e \<and>
   snd (buffer_put (n + 2) k m b) = None \<and>
   snd (buffer_pop k b) = (case entries b k of [] \<Rightarrow> None | (_, m) # _ \<Rightarrow> Some m) \<and>
   snd (buffer_popAll k b) = map snd (entries b k) \<and>
   length (entries b k) \<le> n + 2 \<and> map fst (entries b k) = timers_at b k \<and> buffer_size b = length (armed b)"
proof -
  define b where "b = foldl (buffer_step (n + 2)) new_buffer es"
  have ok: "buffer_ok (n + 2) b"
    using buffers.run_inv [OF new_buffer_ok, of es n] by (simp add: b_def)
  have "snd (buffer_put (n + 2) k m b) = None"
    using put_effect [OF ok, of k m] by (metis One_nat_def Suc_1 add_2_eq_Suc' less_Suc_eq_0_disj snd_conv zero_less_Suc Suc_less_eq)
  moreover have "snd (buffer_pop k b) = (case entries b k of [] \<Rightarrow> None | (_, m) # _ \<Rightarrow> Some m)"
    using pop_parts(3) [OF ok, of k] entries_contents [OF ok, of k]
    by (cases "entries b k") (auto split: list.split)
  moreover have "length (entries b k) \<le> n + 2" "map fst (entries b k) = timers_at b k"
    using buffer_okD(2,3) [OF ok, of k] by (simp_all add: entries_def)
  ultimately show ?thesis
    using buffer_step_effect [OF ok, of e] popAll_effect(2) [OF ok] size_is_timers [OF ok]
    unfolding b_def Let_def by simp
qed

text \<open>
  With a maximum of one or zero the buffer cannot be used: dropping the oldest message
  deletes the stream's array, and \<open>put\<close> then throws, losing the new message as well.
\<close>

theorem tiny_buffer_throws:
  "snd (buffer_put 0 k m (new_buffer :: 'm message_buffer)) = Some BufferTypeError \<and>
   (let b' = fst (buffer_put 1 k m new_buffer) in
    contents b' k = [m :: 'm] \<and> snd (buffer_put 1 k m' b') = Some BufferTypeError \<and>
    contents (fst (buffer_put 1 k m' b')) k = [])"
  by (simp add: buffer_put_def new_buffer_def buffer_pop_def contents_def Let_def)

end
