(* ===== verification/NodeMetrics.thy ===== *)
theory NodeMetrics
  imports Prelude
begin

section \<open>Metrics\<close>

text \<open>
  \<open>src/src/helpers/MetricsContext.ts\<close> and \<open>src/src/logic/PerStreamMetrics.ts\<close>. The package
  \<open>speedometer\<close> is not part of the repository: its meters are values of a type \<open>'r\<close> with the
  three operations of the record \<open>speedometer\<close>, which every definition takes as an
  argument. A queried metric is read in a world \<open>'w\<close>. Counts are integers; the value of a
  fixed metric is only stored and read back.
\<close>

record ('r, 'v) speedometer =
  speed_new :: "nat option \<Rightarrow> 'r"
  speed_add :: "int \<Rightarrow> 'r \<Rightarrow> 'r"
  speed_rate :: "'r \<Rightarrow> 'v"

record 'r recorded_metric =
  rate :: 'r
  last_count :: int
  total :: int

record ('r, 'v, 'w) metrics =
  metrics_name :: string
  queriedMetrics :: "(string, 'w \<Rightarrow> 'v) dict"
  recordedMetrics :: "(string, 'r recorded_metric) dict"
  fixedMetrics :: "(string, 'v) dict"

datatype metrics_error =
    NotARecordedMetric string
  | NotAFixedMetric string
  | AlreadyRegistered string
  | AlreadyCreated string

definition new_metrics :: "string \<Rightarrow> ('r, 'v, 'w) metrics" where
  "new_metrics name = \<lparr>metrics_name = name, queriedMetrics = [], recordedMetrics = [], fixedMetrics = []\<rparr>"

definition metric_label :: "('r, 'v, 'w) metrics \<Rightarrow> string \<Rightarrow> string" where
  "metric_label m name = metrics_name m @ ''.'' @ name"

definition verifyUniqueness :: "string \<Rightarrow> ('r, 'v, 'w) metrics \<Rightarrow> metrics_error option" where
  "verifyUniqueness name m =
     (if has_key (queriedMetrics m) name \<or> has_key (recordedMetrics m) name
      then Some (AlreadyRegistered (metric_label m name)) else None)"

definition addQueriedMetric :: "string \<Rightarrow> ('w \<Rightarrow> 'v) \<Rightarrow> ('r, 'v, 'w) metrics \<Rightarrow> metrics_error + ('r, 'v, 'w) metrics" where
  "addQueriedMetric name f m = (case verifyUniqueness name m of
       Some e \<Rightarrow> Inl e
     | None \<Rightarrow> Inr (m\<lparr>queriedMetrics := AList.update name f (queriedMetrics m)\<rparr>))"

definition addRecordedMetric ::
  "('r, 'v) speedometer \<Rightarrow> string \<Rightarrow> nat \<Rightarrow> ('r, 'v, 'w) metrics \<Rightarrow> metrics_error + ('r, 'v, 'w) metrics" where
  "addRecordedMetric sp name window m = (case verifyUniqueness name m of
       Some e \<Rightarrow> Inl e
     | None \<Rightarrow> Inr (m\<lparr>recordedMetrics :=
         AList.update name \<lparr>rate = speed_new sp (Some window), last_count = 0, total = 0\<rparr> (recordedMetrics m)\<rparr>))"

definition addFixedMetric :: "string \<Rightarrow> 'v \<Rightarrow> ('r, 'v, 'w) metrics \<Rightarrow> metrics_error + ('r, 'v, 'w) metrics" where
  "addFixedMetric name v m = (case verifyUniqueness name m of
       Some e \<Rightarrow> Inl e
     | None \<Rightarrow> Inr (m\<lparr>fixedMetrics := AList.update name v (fixedMetrics m)\<rparr>))"

definition bump :: "('r, 'v) speedometer \<Rightarrow> int \<Rightarrow> 'r recorded_metric \<Rightarrow> 'r recorded_metric" where
  "bump sp v r = \<lparr>rate = speed_add sp v (rate r), last_count = last_count r + v, total = total r + v\<rparr>"

definition metrics_record ::
  "('r, 'v) speedometer \<Rightarrow> string \<Rightarrow> int \<Rightarrow> ('r, 'v, 'w) metrics \<Rightarrow> metrics_error + ('r, 'v, 'w) metrics" where
  "metrics_record sp name v m = (case map_of (recordedMetrics m) name of
       None \<Rightarrow> Inl (NotARecordedMetric (metric_label m name))
     | Some r \<Rightarrow> Inr (m\<lparr>recordedMetrics := AList.update name (bump sp v r) (recordedMetrics m)\<rparr>))"

definition metrics_set :: "string \<Rightarrow> 'v \<Rightarrow> ('r, 'v, 'w) metrics \<Rightarrow> metrics_error + ('r, 'v, 'w) metrics" where
  "metrics_set name v m = (case map_of (fixedMetrics m) name of
       None \<Rightarrow> Inl (NotAFixedMetric (metric_label m name))
     | Some _ \<Rightarrow> Inr (m\<lparr>fixedMetrics := AList.update name v (fixedMetrics m)\<rparr>))"

datatype 'v reported = Plain 'v | Recorded 'v int int

text \<open>\<open>Object.fromEntries\<close>: a later entry of the same name replaces an earlier one.\<close>

definition from_entries :: "('k \<times> 'v) list \<Rightarrow> ('k, 'v) dict" where
  "from_entries es = foldl (\<lambda>d (k, v). AList.update k v d) [] es"

definition metrics_report :: "('r, 'v) speedometer \<Rightarrow> 'w \<Rightarrow> ('r, 'v, 'w) metrics \<Rightarrow> (string, 'v reported) dict" where
  "metrics_report sp w m = from_entries
     (map (\<lambda>(n, f). (n, Plain (f w))) (queriedMetrics m) @
      map (\<lambda>(n, r). (n, Recorded (speed_rate sp (rate r)) (total r) (last_count r))) (recordedMetrics m) @
      map (\<lambda>(n, v). (n, Plain v)) (fixedMetrics m))"

definition clearLast :: "('r, 'v, 'w) metrics \<Rightarrow> ('r, 'v, 'w) metrics" where
  "clearLast m = m\<lparr>recordedMetrics := map (\<lambda>(n, r). (n, r\<lparr>last_count := 0\<rparr>)) (recordedMetrics m)\<rparr>"

subsection \<open>The metrics context\<close>

type_synonym ('r, 'v, 'w) metrics_context = "(string, ('r, 'v, 'w) metrics) dict"

definition metrics_create :: "string \<Rightarrow> ('r, 'v, 'w) metrics_context \<Rightarrow> metrics_error + ('r, 'v, 'w) metrics_context" where
  "metrics_create name c =
     (if has_key c name then Inl (AlreadyCreated name) else Inr (AList.update name (new_metrics name) c))"

definition context_report ::
  "('r, 'v) speedometer \<Rightarrow> 'w \<Rightarrow> bool \<Rightarrow> ('r, 'v, 'w) metrics_context \<Rightarrow>
   (string, (string, 'v reported) dict) dict \<times> ('r, 'v, 'w) metrics_context" where
  "context_report sp w clear c =
     (from_entries (map (\<lambda>(n, m). (n, metrics_report sp w m)) c),
      if clear then map (\<lambda>(n, m). (n, clearLast m)) c else c)"

subsection \<open>Metrics of the streams\<close>

record 'r stream_metrics =
  resends :: "'r recorded_metric"
  trackerInstructions :: "'r recorded_metric"
  onDataReceived_count :: "'r recorded_metric"
  ignoredDuplicate :: "'r recorded_metric"
  propagateMessage_count :: "'r recorded_metric"

type_synonym 'r per_stream_metrics = "(string, 'r stream_metrics) dict"

datatype stream_metric = Resends | TrackerInstructions | OnDataReceived | IgnoredDuplicate | PropagateMessage

definition fresh_metric :: "('r, 'v) speedometer \<Rightarrow> 'r recorded_metric" where
  "fresh_metric sp = \<lparr>rate = speed_new sp None, last_count = 0, total = 0\<rparr>"

definition setUpIfNeeded :: "('r, 'v) speedometer \<Rightarrow> string \<Rightarrow> 'r per_stream_metrics \<Rightarrow> 'r per_stream_metrics" where
  "setUpIfNeeded sp sid p =
     (if has_key p sid then p
      else AList.update sid \<lparr>resends = fresh_metric sp, trackerInstructions = fresh_metric sp,
        onDataReceived_count = fresh_metric sp, ignoredDuplicate = fresh_metric sp,
        propagateMessage_count = fresh_metric sp\<rparr> p)"

fun bump_metric :: "('r, 'v) speedometer \<Rightarrow> stream_metric \<Rightarrow> 'r stream_metrics \<Rightarrow> 'r stream_metrics" where
  "bump_metric sp Resends s = s\<lparr>resends := bump sp 1 (resends s)\<rparr>"
| "bump_metric sp TrackerInstructions s = s\<lparr>trackerInstructions := bump sp 1 (trackerInstructions s)\<rparr>"
| "bump_metric sp OnDataReceived s = s\<lparr>onDataReceived_count := bump sp 1 (onDataReceived_count s)\<rparr>"
| "bump_metric sp IgnoredDuplicate s = s\<lparr>ignoredDuplicate := bump sp 1 (ignoredDuplicate s)\<rparr>"
| "bump_metric sp PropagateMessage s = s\<lparr>propagateMessage_count := bump sp 1 (propagateMessage_count s)\<rparr>"

text \<open>The five methods \<open>recordResend\<close> to \<open>recordPropagateMessage\<close>.\<close>

definition record_stream ::
  "('r, 'v) speedometer \<Rightarrow> stream_metric \<Rightarrow> string \<Rightarrow> 'r per_stream_metrics \<Rightarrow> 'r per_stream_metrics" where
  "record_stream sp k sid p =
     (let p1 = setUpIfNeeded sp sid p
      in case map_of p1 sid of None \<Rightarrow> p1 | Some s \<Rightarrow> AList.update sid (bump_metric sp k s) p1)"

fun metric_of :: "stream_metric \<Rightarrow> 'r stream_metrics \<Rightarrow> 'r recorded_metric" where
  "metric_of Resends s = resends s"
| "metric_of TrackerInstructions s = trackerInstructions s"
| "metric_of OnDataReceived s = onDataReceived_count s"
| "metric_of IgnoredDuplicate s = ignoredDuplicate s"
| "metric_of PropagateMessage s = propagateMessage_count s"

definition all_stream_metrics :: "stream_metric list" where
  "all_stream_metrics = [Resends, TrackerInstructions, OnDataReceived, IgnoredDuplicate, PropagateMessage]"

definition per_stream_report ::
  "('r, 'v) speedometer \<Rightarrow> 'r per_stream_metrics \<Rightarrow> (string, (stream_metric \<times> 'v \<times> int \<times> int) list) dict" where
  "per_stream_report sp p = map (\<lambda>(sid, s). (sid, map (\<lambda>k. let r = metric_of k s
      in (k, speed_rate sp (rate r), total r, last_count r)) all_stream_metrics)) p"

subsection \<open>Runs\<close>

datatype metrics_call = RecordMetric string int | ClearLast

text \<open>A call of \<open>record\<close> that throws leaves the metrics as they were.\<close>

fun metrics_step :: "('r, 'v) speedometer \<Rightarrow> ('r, 'v, 'w) metrics \<Rightarrow> metrics_call \<Rightarrow> ('r, 'v, 'w) metrics" where
  "metrics_step sp m (RecordMetric n v) = (case metrics_record sp n v m of Inl _ \<Rightarrow> m | Inr m' \<Rightarrow> m')"
| "metrics_step sp m ClearLast = clearLast m"

fun recorded_values :: "string \<Rightarrow> metrics_call list \<Rightarrow> int list" where
  "recorded_values n [] = []"
| "recorded_values n (RecordMetric k v # cs) = (if k = n then v # recorded_values n cs else recorded_values n cs)"
| "recorded_values n (ClearLast # cs) = recorded_values n cs"

definition is_record :: "metrics_call \<Rightarrow> bool" where
  "is_record c = (case c of RecordMetric _ _ \<Rightarrow> True | ClearLast \<Rightarrow> False)"

text \<open>The calls since the last \<open>clearLast\<close>.\<close>

definition since_clear :: "metrics_call list \<Rightarrow> metrics_call list" where
  "since_clear cs = rev (takeWhile is_record (rev cs))"

lemma recorded_values_append: "recorded_values n (xs @ ys) = recorded_values n xs @ recorded_values n ys"
  by (induction n xs rule: recorded_values.induct) auto

lemma metric_after_step:
  "map_of (recordedMetrics (metrics_step sp m c)) n =
     (case c of
        RecordMetric k v \<Rightarrow> if k = n then map_option (bump sp v) (map_of (recordedMetrics m) n) else map_of (recordedMetrics m) n
      | ClearLast \<Rightarrow> map_option (\<lambda>r. r\<lparr>last_count := 0\<rparr>) (map_of (recordedMetrics m) n))"
  by (cases c)
    (auto simp: metrics_record_def clearLast_def map_of_mapk [of "\<lambda>_ r. r\<lparr>last_count := 0\<rparr>", simplified] split: option.split)

lemma metrics_run:
  assumes "map_of (recordedMetrics m) n = Some \<lparr>rate = q, last_count = 0, total = 0\<rparr>"
  shows "\<exists>q'. map_of (recordedMetrics (foldl (metrics_step sp) m cs)) n =
    Some \<lparr>rate = q', last_count = sum_list (recorded_values n (since_clear cs)), total = sum_list (recorded_values n cs)\<rparr>"
proof (induction cs rule: rev_induct)
  case Nil
  then show ?case using assms by (simp add: since_clear_def)
next
  case (snoc c cs)
  then obtain q' where q': "map_of (recordedMetrics (foldl (metrics_step sp) m cs)) n =
    Some \<lparr>rate = q', last_count = sum_list (recorded_values n (since_clear cs)), total = sum_list (recorded_values n cs)\<rparr>"
    by blast
  show ?case
  proof (cases c)
    case (RecordMetric k v)
    have "since_clear (cs @ [c]) = since_clear cs @ [c]" by (simp add: since_clear_def is_record_def RecordMetric)
    then show ?thesis
      using metric_after_step [of sp "foldl (metrics_step sp) m cs" c n] q' RecordMetric
      by (auto simp: recorded_values_append bump_def)
  next
    case ClearLast
    then show ?thesis
      using metric_after_step [of sp "foldl (metrics_step sp) m cs" c n] q'
      by (auto simp: recorded_values_append since_clear_def is_record_def)
  qed
qed

text \<open>Recording a registered metric never throws, and registered names stay registered.\<close>

lemma metrics_record_known:
  "has_key (recordedMetrics m) n \<Longrightarrow> \<exists>m'. metrics_record sp n v m = Inr m' \<and> keys_of (recordedMetrics m') = keys_of (recordedMetrics m)"
  by (auto simp: metrics_record_def keys_update dest: map_of_SomeD intro!: keys_update split: option.split)
     (metis fst_conv image_eqI keys_update list.set_map map_of_SomeD)

lemma metrics_record_unknown:
  "\<not> has_key (recordedMetrics m) n \<Longrightarrow> metrics_record sp n v m = Inl (NotARecordedMetric (metric_label m n))"
  by (auto simp: metrics_record_def split: option.split)

subsection \<open>What the metrics show\<close>

text \<open>
  After any sequence of records and clearings, the total of a registered metric is the
  sum of everything recorded under its name and its \<open>last\<close> the sum since the last clearing;
  recording under an unregistered name throws.
\<close>

theorem metrics_count:
  assumes "addRecordedMetric sp n w (new_metrics label) = Inr m"
  shows "\<exists>q. map_of (recordedMetrics (foldl (metrics_step sp) m cs)) n =
      Some \<lparr>rate = q, last_count = sum_list (recorded_values n (since_clear cs)), total = sum_list (recorded_values n cs)\<rparr>"
  using assms metrics_run [of m n "speed_new sp (Some w)" sp cs]
  by (auto simp: addRecordedMetric_def verifyUniqueness_def new_metrics_def split: option.splits)

definition example_speedometer :: "(int, int) speedometer" where
  "example_speedometer = \<lparr>speed_new = (\<lambda>_. 0), speed_add = (+), speed_rate = id\<rparr>"

theorem metrics_count_witness:
  "\<exists>q. map_of (recordedMetrics (foldl (metrics_step example_speedometer)
       (case addRecordedMetric example_speedometer ''a'' 5 (new_metrics ''node'' :: (int, int, unit) metrics) of Inr m \<Rightarrow> m)
       [RecordMetric ''a'' 2, ClearLast, RecordMetric ''a'' 3, RecordMetric ''b'' 9])) ''a'' =
     Some \<lparr>rate = q, last_count = 3, total = 5\<rparr>"
proof -
  let ?new = "new_metrics ''node'' :: (int, int, unit) metrics"
  let ?m = "case addRecordedMetric example_speedometer ''a'' 5 ?new of Inr m \<Rightarrow> m"
  have "addRecordedMetric example_speedometer ''a'' 5 ?new = Inr ?m"
    by (simp add: addRecordedMetric_def verifyUniqueness_def new_metrics_def)
  from metrics_count [OF this, of "[RecordMetric ''a'' 2, ClearLast, RecordMetric ''a'' 3, RecordMetric ''b'' 9]"]
  show ?thesis by (simp add: since_clear_def is_record_def)
qed

text \<open>
  A name that is already a fixed metric is not refused: a recorded metric of the same name is
  registered as well and its reports are hidden by the fixed value.
\<close>

lemma fixed_name_hides_recorded:
  "let m = (case addFixedMetric ''x'' 7 (new_metrics ''node'' :: (int, int, unit) metrics) of Inr m \<Rightarrow> m)
   in (case addRecordedMetric example_speedometer ''x'' 5 m of
         Inl _ \<Rightarrow> False
       | Inr m' \<Rightarrow> metrics_report example_speedometer () m' = [(''x'', Plain 7)])"
  by code_simp

end
