(* ===== verification/NodeState.thy ===== *)
theory NodeState
  imports Tracker InstructionRetry MessageBuffer NodeMetrics StreamManager
begin

section \<open>The node: state and handlers\<close>

text \<open>
  \<open>src/src/logic/Node.ts\<close>: the state of a node and what it does on every event that reaches
  it. The state holds the fields of the class and, explicitly, what the JavaScript runtime
  keeps for it: the armed disconnection timers, the calls of \<open>handleTrackerInstruction\<close> that
  wait for their connections (\<open>n_handlings\<close>) and the calls that have returned and whose
  caller has not been resumed yet (\<open>n_done\<close>, in order). What a node sends, asks of its
  endpoints or emits is appended to \<open>n_out\<close>. The packages it uses are parameters of the
  environment: the cache behind the set of seen but not propagated messages, the meters,
  the registry that assigns a tracker to a stream, the addresses of the trackers.
  \<open>ne_resolve\<close> is \<open>resolveAddress\<close> of the endpoint of the trackers, which throws for a tracker that
  its peer book does not have. The running average of the latency is not modelled.
\<close>

subsection \<open>The set of seen but not propagated messages\<close>

text \<open>
  \<open>src/src/helpers/SeenButNotPropagatedSet.ts\<close> over the package \<open>lru-cache\<close>, a parameter: its
  operations on states of a type \<open>'c\<close>. \<open>lru_age\<close> is the passing of time and \<open>lru_lawful\<close> what is
  relied on: a key is present only if it was put there and not deleted since, and is present
  right after it was put.
\<close>

record 'c lru_cache =
  lru_set :: "string \<Rightarrow> 'c \<Rightarrow> 'c"
  lru_del :: "string \<Rightarrow> 'c \<Rightarrow> 'c"
  lru_has :: "'c \<Rightarrow> string \<Rightarrow> bool"
  lru_length :: "'c \<Rightarrow> nat"
  lru_age :: "nat \<Rightarrow> 'c \<Rightarrow> 'c"

definition lru_lawful :: "'c lru_cache \<Rightarrow> bool" where
  "lru_lawful l \<longleftrightarrow>
     (\<forall>k c. lru_has l (lru_set l k c) k) \<and>
     (\<forall>k c j. lru_has l (lru_set l k c) j \<longrightarrow> j = k \<or> lru_has l c j) \<and>
     (\<forall>k c j. lru_has l (lru_del l k c) j \<longrightarrow> j \<noteq> k \<and> lru_has l c j) \<and>
     (\<forall>t c j. lru_has l (lru_age l t c) j \<longrightarrow> lru_has l c j)"

definition seen_add :: "'c lru_cache \<Rightarrow> stream_message \<Rightarrow> 'c \<Rightarrow> 'c" where
  "seen_add l msg c = lru_set l (messageIdToStr (messageId msg)) c"

definition seen_delete :: "'c lru_cache \<Rightarrow> stream_message \<Rightarrow> 'c \<Rightarrow> 'c" where
  "seen_delete l msg c = lru_del l (messageIdToStr (messageId msg)) c"

definition seen_has :: "'c lru_cache \<Rightarrow> stream_message \<Rightarrow> 'c \<Rightarrow> bool" where
  "seen_has l msg c = lru_has l c (messageIdToStr (messageId msg))"

definition seen_size :: "'c lru_cache \<Rightarrow> 'c \<Rightarrow> nat" where
  "seen_size l c = lru_length l c"

subsection \<open>State\<close>

datatype node_error =
    ManagerError manager_error
  | MetricsError metrics_error
  | BufferError buffer_error
  | NotInPeerBook string

datatype node_effect =
    MessageReceived stream_message "string option"
  | UnseenMessageReceived stream_message "string option"
  | SendData string stream_message
  | MessagePropagated stream_message
  | PropagationFailed message_id string
  | SendStatus string status
  | ConnectToNode string string
  | DisconnectFromNode string
  | NodeSubscribed string stream_id_and_partition
  | NodeUnsubscribed string stream_id_and_partition
  | NodeConnectedEvent string
  | NodeDisconnectedEvent string
  | CancelResends string
  | PauseResends string
  | ResumeResends string
  | ResendRequestReceived string "string option"
  | HandleResend string "string option"
  | ConnectToTracker string
  | StopResends
  | StopProtocols

text \<open>The caller of a \<open>handleTrackerInstruction\<close>: the throttler or the retry manager.\<close>

datatype handling_source = ByThrottler nat | ByRetry nat

record instruction_handling =
  h_instruction :: instruction
  h_tracker :: string
  h_reattempt :: bool
  h_source :: handling_source
  h_waiting :: "(nat \<times> string) list"
  h_failed :: bool

record ('c, 'r, 'v) node =
  n_streams :: stream_manager
  n_buffer :: "(stream_message \<times> string option) message_buffer"
  n_seen :: 'c
  n_throttler :: throttler
  n_retry :: retry_manager
  n_book :: "(string, string) dict"
  n_failures :: "(string, nat) dict"
  n_disc :: "(string, nat) dict"
  n_disc_armed :: "(nat \<times> string) list"
  n_next :: nat
  n_handlings :: "(nat \<times> instruction_handling) list"
  n_done :: "handling_source list"
  n_metrics :: "('r, 'v, unit) metrics"
  n_perStream :: "'r per_stream_metrics"
  n_rtts :: rtts
  n_out :: "node_effect list"

record ('c, 'r, 'v) node_env =
  ne_lru :: "'c lru_cache"
  ne_speed :: "('r, 'v) speedometer"
  ne_tracker :: "string \<Rightarrow> int \<Rightarrow> string"
  ne_all_trackers :: "string list"
  ne_resolve :: "string \<Rightarrow> string option"
  ne_bufferMaxSize :: nat
  ne_location :: location
  ne_storage :: bool

type_synonym ('c, 'r, 'v) node_outcome = "(('c, 'r, 'v) node, node_error) outcome"

definition emits :: "node_effect \<Rightarrow> ('c, 'r, 'v) node \<Rightarrow> ('c, 'r, 'v) node" where
  "emits e s = s\<lparr>n_out := n_out s @ [e]\<rparr>"

definition recorded_names :: "string list" where
  "recorded_names = [''resendRequests'', ''unexpectedTrackerInstructions'', ''trackerInstructions'', ''onDataReceived'',
     ''onDataReceived:invalidNumbering'', ''onDataReceived:gapMismatch'', ''onDataReceived:ignoredDuplicate'',
     ''propagateMessage'', ''onSubscribeRequest'', ''onUnsubscribeRequest'', ''onNodeDisconnect'']"

text \<open>The constructor; the two queried metrics and the latency are not read by the node itself.\<close>

definition node_metrics :: "('c, 'r, 'v) node_env \<Rightarrow> ('r, 'v, unit) metrics" where
  "node_metrics env = foldl (\<lambda>m n. keep_on_error m (addRecordedMetric (ne_speed env) n 5 m)) (new_metrics ''node'') recorded_names"

definition new_node :: "('c, 'r, 'v) node_env \<Rightarrow> 'c \<Rightarrow> ('c, 'r, 'v) node" where
  "new_node env c = \<lparr>n_streams = [], n_buffer = new_buffer, n_seen = c, n_throttler = new_throttler,
     n_retry = new_retry_manager, n_book = [], n_failures = [], n_disc = [], n_disc_armed = [], n_next = 0,
     n_handlings = [], n_done = [], n_metrics = node_metrics env, n_perStream = [], n_rtts = [], n_out = []\<rparr>"

definition node_record :: "('c, 'r, 'v) node_env \<Rightarrow> string \<Rightarrow> ('c, 'r, 'v) node \<Rightarrow> ('c, 'r, 'v) node_outcome" where
  "node_record env name s = (case metrics_record (ne_speed env) name 1 (n_metrics s) of
       Inl e \<Rightarrow> (s, Some (MetricsError e))
     | Inr m \<Rightarrow> (s\<lparr>n_metrics := m\<rparr>, None))"

definition record_for_stream ::
  "('c, 'r, 'v) node_env \<Rightarrow> stream_metric \<Rightarrow> string \<Rightarrow> ('c, 'r, 'v) node \<Rightarrow> ('c, 'r, 'v) node" where
  "record_for_stream env k sid s = s\<lparr>n_perStream := record_stream (ne_speed env) k sid (n_perStream s)\<rparr>"

definition on_manager ::
  "(stream_manager \<Rightarrow> manager_error + stream_manager) \<Rightarrow> ('c, 'r, 'v) node \<Rightarrow> ('c, 'r, 'v) node_outcome" where
  "on_manager f s = (case f (n_streams s) of
       Inl e \<Rightarrow> (s, Some (ManagerError e))
     | Inr m \<Rightarrow> (s\<lparr>n_streams := m\<rparr>, None))"

subsection \<open>Statuses\<close>

text \<open>
  \<open>this.trackerBook[address] || null\<close>. The registry that gives the address is a class of the
  protocol package, not under \<open>src/\<close>: it is the parameter \<open>ne_tracker\<close>, and what is relied on is that
  it answers for every stream the node carries. The handlers do not catch an exception of it.
\<close>

definition getTrackerId :: "('c, 'r, 'v) node_env \<Rightarrow> ('c, 'r, 'v) node \<Rightarrow> stream_id_and_partition \<Rightarrow> string option" where
  "getTrackerId env s st = (case map_of (n_book s) (ne_tracker env (sp_id st) (sp_partition st)) of
       None \<Rightarrow> None
     | Some t \<Rightarrow> if t = [] then None else Some t)"

definition getStreamStatus :: "('c, 'r, 'v) node_env \<Rightarrow> ('c, 'r, 'v) node \<Rightarrow> stream_id_and_partition \<Rightarrow> status" where
  "getStreamStatus env s st = \<lparr>streams = getStreamState (n_streams s) st, status_rtts = Some (n_rtts s),
     status_location = Some (ne_location env), singleStream = True\<rparr>"

definition getFullStatus :: "('c, 'r, 'v) node_env \<Rightarrow> ('c, 'r, 'v) node \<Rightarrow> string \<Rightarrow> manager_error + status" where
  "getFullStatus env s tracker =
     (case getStreamsWithConnections (n_streams s)
          (\<lambda>k. case from_key k of Inl _ \<Rightarrow> Inl BadStreamKey | Inr st \<Rightarrow> Inr (getTrackerId env s st = Some tracker)) of
        Inl e \<Rightarrow> Inl e
      | Inr ss \<Rightarrow> Inr \<lparr>streams = ss, status_rtts = Some (n_rtts s), status_location = Some (ne_location env), singleStream = False\<rparr>)"

definition prepareAndSendStreamStatus ::
  "('c, 'r, 'v) node_env \<Rightarrow> stream_id_and_partition \<Rightarrow> ('c, 'r, 'v) node \<Rightarrow> ('c, 'r, 'v) node" where
  "prepareAndSendStreamStatus env st s = (case getTrackerId env s st of
       None \<Rightarrow> s
     | Some t \<Rightarrow> emits (SendStatus t (getStreamStatus env s st)) s)"

definition prepareAndSendFullStatus ::
  "('c, 'r, 'v) node_env \<Rightarrow> string \<Rightarrow> ('c, 'r, 'v) node \<Rightarrow> ('c, 'r, 'v) node_outcome" where
  "prepareAndSendFullStatus env tracker s = (case getFullStatus env s tracker of
       Inl e \<Rightarrow> (s, Some (ManagerError e))
     | Inr st \<Rightarrow> (emits (SendStatus tracker st) s, None))"

definition onConnectedToTracker ::
  "('c, 'r, 'v) node_env \<Rightarrow> string \<Rightarrow> ('c, 'r, 'v) node \<Rightarrow> ('c, 'r, 'v) node_outcome" where
  "onConnectedToTracker env tracker s = (case ne_resolve env tracker of
       None \<Rightarrow> (s, Some (NotInPeerBook tracker))
     | Some address \<Rightarrow> prepareAndSendFullStatus env tracker (s\<lparr>n_book := AList.update address tracker (n_book s)\<rparr>))"

definition connectToBootstrapTrackers :: "('c, 'r, 'v) node_env \<Rightarrow> ('c, 'r, 'v) node \<Rightarrow> ('c, 'r, 'v) node" where
  "connectToBootstrapTrackers env s = foldl (\<lambda>s a. emits (ConnectToTracker a) s) s (ne_all_trackers env)"

subsection \<open>Streams of the node\<close>

definition subscribeToStreamIfHaveNotYet ::
  "('c, 'r, 'v) node_env \<Rightarrow> stream_id_and_partition \<Rightarrow> bool \<Rightarrow> ('c, 'r, 'v) node \<Rightarrow> ('c, 'r, 'v) node_outcome" where
  "subscribeToStreamIfHaveNotYet env st sendStatus s =
     (if isSetUp (n_streams s) st then (s, None)
      else and_then (on_manager (\<lambda>m. setUpStream m st) s)
        (\<lambda>s1. (if sendStatus then prepareAndSendStreamStatus env st s1 else s1, None)))"

definition unsubscribeFromStream ::
  "('c, 'r, 'v) node_env \<Rightarrow> stream_id_and_partition \<Rightarrow> bool \<Rightarrow> ('c, 'r, 'v) node \<Rightarrow> ('c, 'r, 'v) node_outcome" where
  "unsubscribeFromStream env st sendStatus s =
     and_then (on_manager (\<lambda>m. map_sum id fst (removeStream m st)) s)
       (\<lambda>s1. let s2 = s1\<lparr>n_throttler := throttler_removeStreamId (stream_key st) (n_throttler s1),
                  n_retry := retry_removeStreamId (stream_key st) (n_retry s1)\<rparr>
              in (if sendStatus then prepareAndSendStreamStatus env st s2 else s2, None))"

text \<open>
  The request is an identifier and its stream; what the resend handler answers is its own
  component. When a response cannot be sent to the source, all resends of the source are
  cancelled: the event \<open>ResponseSendFailed\<close> below.
\<close>

definition requestResend ::
  "('c, 'r, 'v) node_env \<Rightarrow> string \<Rightarrow> stream_id_and_partition \<Rightarrow> string option \<Rightarrow> ('c, 'r, 'v) node \<Rightarrow> ('c, 'r, 'v) node_outcome" where
  "requestResend env requestId st source s =
     and_then (node_record env ''resendRequests'' s)
       (\<lambda>s1. let s2 = emits (ResendRequestReceived requestId source) (record_for_stream env Resends (sp_id st) s1) in
          and_then (if ne_storage env then subscribeToStreamIfHaveNotYet env st True s2 else (s2, None))
            (\<lambda>s3. (emits (HandleResend requestId source) s3, None)))"

subsection \<open>Messages\<close>

text \<open>\<open>propagateMessage\<close> after its metrics: to the neighbours, or into the buffer when there is none.\<close>

definition relay ::
  "('c, 'r, 'v) node_env \<Rightarrow> stream_message \<Rightarrow> string option \<Rightarrow> ('c, 'r, 'v) node \<Rightarrow> ('c, 'r, 'v) node_outcome" where
  "relay env msg source s =
     (case getOutboundNodesForStream (n_streams s) (message_stream msg) of
        Inl e \<Rightarrow> (s, Some (ManagerError e))
      | Inr outs \<Rightarrow>
          (let subscribers = filter (\<lambda>n. Some n \<noteq> source) outs in
           if subscribers = [] then
             (let s1 = s\<lparr>n_seen := seen_add (ne_lru env) msg (n_seen s)\<rparr>;
                  r = buffer_put (ne_bufferMaxSize env) (stream_key (message_stream msg)) (msg, source) (n_buffer s1)
              in (s1\<lparr>n_buffer := fst r\<rparr>, map_option BufferError (snd r)))
           else
             (let s1 = foldl (\<lambda>s n. emits (SendData n msg) s) s subscribers
              in (emits (MessagePropagated msg) (s1\<lparr>n_seen := seen_delete (ne_lru env) msg (n_seen s1)\<rparr>), None))))"

definition propagateMessage ::
  "('c, 'r, 'v) node_env \<Rightarrow> stream_message \<Rightarrow> string option \<Rightarrow> ('c, 'r, 'v) node \<Rightarrow> ('c, 'r, 'v) node_outcome" where
  "propagateMessage env msg source s =
     and_then (node_record env ''propagateMessage'' s)
       (\<lambda>s1. relay env msg source (record_for_stream env PropagateMessage (streamId (messageId msg)) s1))"

text \<open>\<open>onDataReceived\<close> once the stream is set up: the check for duplicates and what follows.\<close>

definition checkAndPropagate ::
  "('c, 'r, 'v) node_env \<Rightarrow> stream_message \<Rightarrow> string option \<Rightarrow> ('c, 'r, 'v) node \<Rightarrow> ('c, 'r, 'v) node_outcome" where
  "checkAndPropagate env msg source s =
     (let r = markNumbersAndCheckThatIsNotDuplicate (n_streams s) (messageId msg) (prevMsgRef msg);
          s1 = s\<lparr>n_streams := fst r\<rparr>
      in case snd r of
           Inl (DetectorError InvalidNumberingError) \<Rightarrow> node_record env ''onDataReceived:invalidNumber'' s1
         | Inl (DetectorError (GapMisMatchError _ _ _)) \<Rightarrow> node_record env ''onDataReceived:gapMismatch'' s1
         | Inl e \<Rightarrow> (s1, Some (ManagerError e))
         | Inr isUnseen \<Rightarrow>
             (let s2 = (if isUnseen then emits (UnseenMessageReceived msg source) s1 else s1) in
              if isUnseen \<or> seen_has (ne_lru env) msg (n_seen s2) then propagateMessage env msg source s2
              else and_then (node_record env ''onDataReceived:ignoredDuplicate'' s2)
                (\<lambda>s3. (record_for_stream env IgnoredDuplicate (streamId (messageId msg)) s3, None))))"

definition onDataReceived ::
  "('c, 'r, 'v) node_env \<Rightarrow> stream_message \<Rightarrow> string option \<Rightarrow> ('c, 'r, 'v) node \<Rightarrow> ('c, 'r, 'v) node_outcome" where
  "onDataReceived env msg source s =
     and_then (node_record env ''onDataReceived'' s)
       (\<lambda>s1. and_then (subscribeToStreamIfHaveNotYet env (message_stream msg) True
                  (emits (MessageReceived msg source) (record_for_stream env OnDataReceived (streamId (messageId msg)) s1)))
         (checkAndPropagate env msg source))"

definition handleBufferedMessages ::
  "('c, 'r, 'v) node_env \<Rightarrow> stream_id_and_partition \<Rightarrow> ('c, 'r, 'v) node \<Rightarrow> ('c, 'r, 'v) node_outcome" where
  "handleBufferedMessages env st s =
     (let r = buffer_popAll (stream_key st) (n_buffer s)
      in for_each (\<lambda>(msg, source). onDataReceived env msg source) (snd r) (s\<lparr>n_buffer := fst r\<rparr>))"

subsection \<open>Neighbours\<close>

definition forgetDisconnectionTimer :: "nat \<Rightarrow> string \<Rightarrow> ('c, 'r, 'v) node \<Rightarrow> ('c, 'r, 'v) node" where
  "forgetDisconnectionTimer i n s =
     s\<lparr>n_disc_armed := filter (\<lambda>t. fst t \<noteq> i) (n_disc_armed s), n_disc := AList.delete n (n_disc s)\<rparr>"

definition clearDisconnectionTimer :: "string \<Rightarrow> ('c, 'r, 'v) node \<Rightarrow> ('c, 'r, 'v) node" where
  "clearDisconnectionTimer n s = (case map_of (n_disc s) n of
       None \<Rightarrow> s
     | Some i \<Rightarrow> forgetDisconnectionTimer i n s)"

definition armDisconnectionTimer :: "string \<Rightarrow> ('c, 'r, 'v) node \<Rightarrow> ('c, 'r, 'v) node" where
  "armDisconnectionTimer n s = s\<lparr>n_disc := AList.update n (n_next s) (n_disc s),
     n_disc_armed := n_disc_armed s @ [(n_next s, n)], n_next := n_next s + 1\<rparr>"

definition subscribeToStreamOnNode ::
  "('c, 'r, 'v) node_env \<Rightarrow> string \<Rightarrow> stream_id_and_partition \<Rightarrow> bool \<Rightarrow> ('c, 'r, 'v) node \<Rightarrow> ('c, 'r, 'v) node_outcome" where
  "subscribeToStreamOnNode env n st sendStatus s =
     and_then (on_manager (\<lambda>m. addInboundNode m st n) s)
       (\<lambda>s1. and_then (on_manager (\<lambda>m. addOutboundNode m st n) s1)
         (\<lambda>s2. and_then (handleBufferedMessages env st s2)
           (\<lambda>s3. (emits (NodeSubscribed n st) (if sendStatus then prepareAndSendStreamStatus env st s3 else s3), None))))"

definition unsubscribeFromStreamOnNode ::
  "('c, 'r, 'v) node_env \<Rightarrow> string \<Rightarrow> stream_id_and_partition \<Rightarrow> bool \<Rightarrow> ('c, 'r, 'v) node \<Rightarrow> ('c, 'r, 'v) node_outcome" where
  "unsubscribeFromStreamOnNode env n st sendStatus s =
     and_then (on_manager (\<lambda>m. removeNodeFromStream m st n) s)
       (\<lambda>s1. let s2 = emits (NodeUnsubscribed n st) s1;
                 s3 = (if isNodePresent (n_streams s2) n then s2
                       else armDisconnectionTimer n (clearDisconnectionTimer n s2))
             in (if sendStatus then prepareAndSendStreamStatus env st s3 else s3, None))"

text \<open>A disconnection timer fires: the node disconnects if nothing is shared.\<close>

definition disconnectionTimeout :: "nat \<Rightarrow> ('c, 'r, 'v) node \<Rightarrow> ('c, 'r, 'v) node" where
  "disconnectionTimeout i s = (case map_of (n_disc_armed s) i of
       None \<Rightarrow> s
     | Some n \<Rightarrow>
         (let s1 = forgetDisconnectionTimer i n s
          in if isNodePresent (n_streams s1) n then s1 else emits (DisconnectFromNode n) s1))"

definition node_onNodeDisconnected ::
  "('c, 'r, 'v) node_env \<Rightarrow> string \<Rightarrow> ('c, 'r, 'v) node \<Rightarrow> ('c, 'r, 'v) node_outcome" where
  "node_onNodeDisconnected env n s =
     and_then (node_record env ''onNodeDisconnect'' s)
       (\<lambda>s1. let s2 = emits (CancelResends n) s1;
                 r = removeNodeFromAllStreams (n_streams s2) n;
                 s3 = s2\<lparr>n_streams := fst r\<rparr>
             in case snd r of
                  Inl e \<Rightarrow> (s3, Some (ManagerError e))
                | Inr sts \<Rightarrow>
                    and_then
                      (for_each (\<lambda>t s. case t of None \<Rightarrow> (s, None) | Some t \<Rightarrow> prepareAndSendFullStatus env t s)
                        (set_of (map (getTrackerId env s3) sts)) s3)
                      (\<lambda>s4. (emits (NodeDisconnectedEvent n) s4, None)))"

text \<open>What the two continuations of \<open>sendData\<close> do.\<close>

definition failures_of :: "('c, 'r, 'v) node \<Rightarrow> string \<Rightarrow> nat" where
  "failures_of s n = (case map_of (n_failures s) n of None \<Rightarrow> 0 | Some c \<Rightarrow> c)"

definition deliverySucceeded :: "string \<Rightarrow> ('c, 'r, 'v) node \<Rightarrow> ('c, 'r, 'v) node" where
  "deliverySucceeded n s = s\<lparr>n_failures := AList.update n 0 (n_failures s)\<rparr>"

definition deliveryFailed ::
  "('c, 'r, 'v) node_env \<Rightarrow> string \<Rightarrow> message_id \<Rightarrow> ('c, 'r, 'v) node \<Rightarrow> ('c, 'r, 'v) node_outcome" where
  "deliveryFailed env n mid s =
     (let s1 = emits (PropagationFailed mid n) s;
          s2 = s1\<lparr>n_failures := AList.update n (failures_of s1 n + 1) (n_failures s1)\<rparr>
      in if failures_of s2 n \<ge> 100 then
           and_then (node_onNodeDisconnected env n s2) (\<lambda>s3. (s3\<lparr>n_failures := AList.update n 0 (n_failures s3)\<rparr>, None))
         else (s2, None))"

subsection \<open>Instructions of the trackers\<close>

text \<open>
  \<open>handleTrackerInstruction\<close> up to its \<open>await\<close>, between the check of the tracker and the
  waiting: the stream is set up, every named node is connected to (its promise waits, so this
  only asks the endpoint), and the other neighbours are unsubscribed from.
\<close>

definition instruction_setup ::
  "('c, 'r, 'v) node_env \<Rightarrow> instruction \<Rightarrow> string \<Rightarrow> ('c, 'r, 'v) node \<Rightarrow> ('c, 'r, 'v) node_outcome" where
  "instruction_setup env i tracker s =
     and_then (node_record env ''trackerInstructions'' s)
       (\<lambda>s1. and_then (subscribeToStreamIfHaveNotYet env (im_stream i) False (record_for_stream env TrackerInstructions (im_streamId i) s1))
         (\<lambda>s2. case getAllNodesForStream (n_streams s2) (im_stream i) of
              Inl e \<Rightarrow> (s2, Some (ManagerError e))
            | Inr currentNodes \<Rightarrow>
                for_each (\<lambda>n. unsubscribeFromStreamOnNode env n (im_stream i) False)
                  (filter (\<lambda>n. n \<notin> set (im_nodeIds i)) currentNodes)
                  (foldl (\<lambda>s n. emits (ConnectToNode n tracker) s) s2 (im_nodeIds i))))"

definition start_handling ::
  "('c, 'r, 'v) node_env \<Rightarrow> instruction \<Rightarrow> string \<Rightarrow> bool \<Rightarrow> handling_source \<Rightarrow> ('c, 'r, 'v) node \<Rightarrow> ('c, 'r, 'v) node" where
  "start_handling env i tracker reattempt src s =
     (let s1 = s\<lparr>n_retry := retry_add i tracker (n_retry s)\<rparr> in
      if getTrackerId env s1 (im_stream i) \<noteq> Some tracker then
        (let s2 = fst (node_record env ''unexpectedTrackerInstructions'' s1) in s2\<lparr>n_done := n_done s2 @ [src]\<rparr>)
      else case instruction_setup env i tracker s1 of
          (s2, Some e) \<Rightarrow> s2\<lparr>n_done := n_done s2 @ [src]\<rparr>
        | (s2, None) \<Rightarrow>
            s2\<lparr>n_handlings := n_handlings s2 @
                 [(n_next s2, \<lparr>h_instruction = i, h_tracker = tracker, h_reattempt = reattempt, h_source = src,
                    h_waiting = enumerate 0 (im_nodeIds i), h_failed = False\<rparr>)],
               n_next := n_next s2 + 1\<rparr>)"

text \<open>The promise of connection number \<open>j\<close> of a handling settles.\<close>

definition set_handling :: "nat \<Rightarrow> instruction_handling \<Rightarrow> ('c, 'r, 'v) node \<Rightarrow> ('c, 'r, 'v) node" where
  "set_handling h g s = s\<lparr>n_handlings := AList.update h g (n_handlings s)\<rparr>"

definition connectionSettled ::
  "('c, 'r, 'v) node_env \<Rightarrow> nat \<Rightarrow> nat \<Rightarrow> bool \<Rightarrow> ('c, 'r, 'v) node \<Rightarrow> ('c, 'r, 'v) node" where
  "connectionSettled env h j opened s = (case map_of (n_handlings s) h of
       None \<Rightarrow> s
     | Some g \<Rightarrow>
         (case map_of (h_waiting g) j of
            None \<Rightarrow> s
          | Some n \<Rightarrow>
              (let g' = g\<lparr>h_waiting := AList.delete j (h_waiting g)\<rparr> in
               if \<not> opened then set_handling h (g'\<lparr>h_failed := True\<rparr>) s
               else
                 (let r = subscribeToStreamOnNode env n (im_stream (h_instruction g)) False (clearDisconnectionTimer n s)
                  in set_handling h (if snd r = None then g' else g'\<lparr>h_failed := True\<rparr>) (fst r)))))"

text \<open>All promises of a handling have settled: the rest of \<open>handleTrackerInstruction\<close>.\<close>

definition allSettled :: "('c, 'r, 'v) node_env \<Rightarrow> nat \<Rightarrow> ('c, 'r, 'v) node \<Rightarrow> ('c, 'r, 'v) node" where
  "allSettled env h s = (case map_of (n_handlings s) h of
       None \<Rightarrow> s
     | Some g \<Rightarrow>
         if h_waiting g \<noteq> [] then s
         else
           (let st = im_stream (h_instruction g);
                s1 = (if isSetUp (n_streams s) st
                      then fst (on_manager (\<lambda>m. updateCounter m st (im_counter (h_instruction g))) s) else s);
                s2 = (if \<not> h_reattempt g \<or> h_failed g then prepareAndSendStreamStatus env st s1 else s1)
            in s2\<lparr>n_handlings := AList.delete h (n_handlings s2), n_done := n_done s2 @ [h_source g]\<rparr>))"

text \<open>
  An operation of the throttler, which may start a handling: then the throttler has logged
  one more start, under the next identifier of a promise.
\<close>

definition run_throttler ::
  "('c, 'r, 'v) node_env \<Rightarrow> (throttler \<Rightarrow> throttler) \<Rightarrow> ('c, 'r, 'v) node \<Rightarrow> ('c, 'r, 'v) node" where
  "run_throttler env f s =
     (let t = f (n_throttler s); s1 = s\<lparr>n_throttler := t\<rparr>
      in if length (started t) = length (started (n_throttler s)) then s1
         else start_handling env (fst (last (started t))) (snd (last (started t))) False
                (ByThrottler (next_id (n_throttler s))) s1)"

definition onTrackerInstructionReceived ::
  "('c, 'r, 'v) node_env \<Rightarrow> string \<Rightarrow> instruction \<Rightarrow> ('c, 'r, 'v) node \<Rightarrow> ('c, 'r, 'v) node" where
  "onTrackerInstructionReceived env tracker i s = run_throttler env (throttler_add i tracker) s"

text \<open>A timer of the retry manager fires and calls the handler, unless its stream is gone.\<close>

definition retryTimeout :: "('c, 'r, 'v) node_env \<Rightarrow> nat \<Rightarrow> ('c, 'r, 'v) node \<Rightarrow> ('c, 'r, 'v) node" where
  "retryTimeout env j s =
     (let r = fire j (n_retry s); s1 = s\<lparr>n_retry := r\<rparr>
      in if length (handled r) = length (handled (n_retry s)) then s1
         else case last (handled r) of (i, tracker, reattempt) \<Rightarrow> start_handling env i tracker reattempt (ByRetry j) s1)"

text \<open>The caller of the oldest handling that has returned continues.\<close>

definition handlerReturned :: "('c, 'r, 'v) node_env \<Rightarrow> ('c, 'r, 'v) node \<Rightarrow> ('c, 'r, 'v) node" where
  "handlerReturned env s = (case n_done s of
       [] \<Rightarrow> s
     | src # rest \<Rightarrow>
         (let s1 = s\<lparr>n_done := rest\<rparr>
          in case src of
               ByThrottler p \<Rightarrow> run_throttler env (settled p) s1
             | ByRetry j \<Rightarrow> s1\<lparr>n_retry := retried j (n_retry s1)\<rparr>))"

definition node_stop :: "('c, 'r, 'v) node \<Rightarrow> ('c, 'r, 'v) node" where
  "node_stop s =
     (let s1 = emits StopResends s;
          s2 = s1\<lparr>n_throttler := throttler_reset (n_throttler s1), n_retry := retry_reset (n_retry s1),
            n_disc_armed := filter (\<lambda>t. fst t \<notin> set (values_of (n_disc s1))) (n_disc_armed s1), n_buffer := buffer_clear (n_buffer s1)\<rparr>
      in emits StopProtocols s2)"

definition node_getStreams :: "('c, 'r, 'v) node \<Rightarrow> stream_key list" where
  "node_getStreams s = getStreamsAsKeys (n_streams s)"

definition node_getNeighbors :: "('c, 'r, 'v) node \<Rightarrow> string list" where
  "node_getNeighbors s = getAllNodes (n_streams s)"

subsection \<open>Events\<close>

datatype node_event =
    Start
  | TrackerConnected string
  | InstructionReceived string instruction
  | DataReceived stream_message "string option"
  | NeighbourConnected string
  | NeighbourDisconnected string
  | ConnectionSettled nat nat bool
  | AllSettled nat
  | HandlerReturned
  | DeliverySucceeded string
  | DeliveryFailed string message_id
  | DisconnectionTimeout nat
  | BufferTimeout
  | RetryTimeout nat
  | TimePasses nat
  | RttsMeasured rtts
  | Subscribe stream_id_and_partition
  | Unsubscribe stream_id_and_partition
  | RequestResend string stream_id_and_partition "string option"
  | ResponseSendFailed string
  | BackPressure string bool
  | Stop

fun node_handle :: "('c, 'r, 'v) node_env \<Rightarrow> ('c, 'r, 'v) node \<Rightarrow> node_event \<Rightarrow> ('c, 'r, 'v) node_outcome" where
  "node_handle env s Start = (connectToBootstrapTrackers env s, None)"
| "node_handle env s (TrackerConnected t) = onConnectedToTracker env t s"
| "node_handle env s (InstructionReceived t i) = (onTrackerInstructionReceived env t i s, None)"
| "node_handle env s (DataReceived msg source) = onDataReceived env msg source s"
| "node_handle env s (NeighbourConnected n) = (emits (NodeConnectedEvent n) s, None)"
| "node_handle env s (NeighbourDisconnected n) = node_onNodeDisconnected env n s"
| "node_handle env s (ConnectionSettled h j b) = (connectionSettled env h j b s, None)"
| "node_handle env s (AllSettled h) = (allSettled env h s, None)"
| "node_handle env s HandlerReturned = (handlerReturned env s, None)"
| "node_handle env s (DeliverySucceeded n) = (deliverySucceeded n s, None)"
| "node_handle env s (DeliveryFailed n mid) = deliveryFailed env n mid s"
| "node_handle env s (DisconnectionTimeout i) = (disconnectionTimeout i s, None)"
| "node_handle env s BufferTimeout = (s\<lparr>n_buffer := buffer_step (ne_bufferMaxSize env) (n_buffer s) NextTimer\<rparr>, None)"
| "node_handle env s (RetryTimeout j) = (retryTimeout env j s, None)"
| "node_handle env s (TimePasses t) = (s\<lparr>n_seen := lru_age (ne_lru env) t (n_seen s)\<rparr>, None)"
| "node_handle env s (RttsMeasured r) = (s\<lparr>n_rtts := r\<rparr>, None)"
| "node_handle env s (Subscribe st) = subscribeToStreamIfHaveNotYet env st True s"
| "node_handle env s (Unsubscribe st) = unsubscribeFromStream env st True s"
| "node_handle env s (RequestResend q st source) = requestResend env q st source s"
| "node_handle env s (ResponseSendFailed n) = (emits (CancelResends n) s, None)"
| "node_handle env s (BackPressure n high) = (emits (if high then PauseResends n else ResumeResends n) s, None)"
| "node_handle env s Stop = (node_stop s, None)"

definition node_step :: "('c, 'r, 'v) node_env \<Rightarrow> ('c, 'r, 'v) node \<Rightarrow> node_event \<Rightarrow> ('c, 'r, 'v) node" where
  "node_step env s e = fst (node_handle env s e)"

end
