(* ===== verification/NodeInvariant.thy ===== *)
theory NodeInvariant
  imports NodeState
begin

section \<open>Invariants of the node\<close>

text \<open>
  Every handler of the node is put together from a few primitive changes of its state. The
  locale \<open>node_invariant\<close> names them: a property that each of them keeps is kept by every
  event. The development uses it for the well-formedness of the node, the relay of messages,
  the storages of a node and what a node passes on in a network.
\<close>

named_theorems node_fields \<open>what an operation leaves unchanged\<close>

lemma and_then_inv: "P (fst r) \<Longrightarrow> (\<And>s. P s \<Longrightarrow> P (fst (f s))) \<Longrightarrow> P (fst (and_then r f))"
  by (simp add: and_then_def split: option.split)

lemma for_each_inv: "(\<And>x s. P s \<Longrightarrow> P (fst (f x s))) \<Longrightarrow> P s \<Longrightarrow> P (fst (for_each f xs s))"
  by (induction xs arbitrary: s) (auto intro: and_then_inv)

lemma foldl_inv: "(\<And>x s. P s \<Longrightarrow> P (f s x)) \<Longrightarrow> P s \<Longrightarrow> P (foldl f s xs)"
  by (induction xs arbitrary: s) auto

fun data_effect :: "node_effect \<Rightarrow> bool" where
  "data_effect (MessageReceived _ _) = True"
| "data_effect (UnseenMessageReceived _ _) = True"
| "data_effect (SendData _ _) = True"
| "data_effect (MessagePropagated _) = True"
| "data_effect _ = False"

fun is_mark :: "manager_call \<Rightarrow> bool" where
  "is_mark (Mark _ _) = True"
| "is_mark _ = False"

fun is_put :: "'m buffer_call \<Rightarrow> bool" where
  "is_put (BufferPut _ _) = True"
| "is_put _ = False"

text \<open>The events a property allows: which streams may be removed, which messages may arrive.\<close>

fun event_legal :: "(stream_id_and_partition \<Rightarrow> bool) \<Rightarrow> (stream_message \<Rightarrow> bool) \<Rightarrow> node_event \<Rightarrow> bool" where
  "event_legal removable good (Unsubscribe st) = removable st"
| "event_legal removable good (DataReceived msg source) = good msg"
| "event_legal removable good _ = True"

locale node_invariant =
  fixes env :: "('c, 'r, 'v) node_env"
    and removable :: "stream_id_and_partition \<Rightarrow> bool"
    and good :: "stream_message \<Rightarrow> bool"
    and P :: "('c, 'r, 'v) node \<Rightarrow> bool"
  assumes data: "P s \<Longrightarrow> good msg \<Longrightarrow> P (fst (onDataReceived env msg source s))"
    and good_buffer: "P s \<Longrightarrow> (msg, source) \<in> set (contents (n_buffer s) bk) \<Longrightarrow> good msg"
    and emit: "\<not> data_effect e \<Longrightarrow> P s \<Longrightarrow> P (emits e s)"
    and metric: "P s \<Longrightarrow> P (fst (node_record env name s))"
    and per_stream: "P s \<Longrightarrow> P (record_for_stream env k sid s)"
    and manager: "P s \<Longrightarrow> \<not> is_mark c \<Longrightarrow> (\<And>st. c = RemoveStream st \<Longrightarrow> removable st) \<Longrightarrow>
      P (s\<lparr>n_streams := manager_step (n_streams s) c\<rparr>)"
    and buffered: "P s \<Longrightarrow> \<not> is_put b \<Longrightarrow> P (s\<lparr>n_buffer := buffer_step (ne_bufferMaxSize env) (n_buffer s) b\<rparr>)"
    and aged: "P s \<Longrightarrow> P (s\<lparr>n_seen := lru_age (ne_lru env) t (n_seen s)\<rparr>)"
    and throttle: "P s \<Longrightarrow> P (s\<lparr>n_throttler := throttler_step (n_throttler s) te\<rparr>)"
    and retry: "P s \<Longrightarrow> P (s\<lparr>n_retry := retry_step (n_retry s) re\<rparr>)"
    and book: "P s \<Longrightarrow> P (s\<lparr>n_book := tb\<rparr>)"
    and failures: "P s \<Longrightarrow> P (s\<lparr>n_failures := fs\<rparr>)"
    and forget_timer: "P s \<Longrightarrow> map_of (n_disc s) n = Some i \<or> map_of (n_disc_armed s) i = Some n \<Longrightarrow>
      P (forgetDisconnectionTimer i n s)"
    and arm_timer: "P s \<Longrightarrow> map_of (n_disc s) n = None \<Longrightarrow> P (armDisconnectionTimer n s)"
    and stop_timers: "P s \<Longrightarrow> P (s\<lparr>n_disc_armed := filter Q (n_disc_armed s)\<rparr>)"
    and handlings: "P s \<Longrightarrow> n_next s \<le> k' \<Longrightarrow> P (s\<lparr>n_handlings := hs, n_next := k'\<rparr>)"
    and handled_calls: "P s \<Longrightarrow> P (s\<lparr>n_done := ds\<rparr>)"
    and rtts: "P s \<Longrightarrow> P (s\<lparr>n_rtts := rt\<rparr>)"
begin

lemmas seq = and_then_inv [where P = P]
lemmas loop = for_each_inv [where P = P]
lemmas fold = foldl_inv [where P = P]

lemma handlings_only: "P s \<Longrightarrow> P (s\<lparr>n_handlings := hs\<rparr>)"
  using handlings [of s "n_next s" hs] by simp

lemma stream_status: "P s \<Longrightarrow> P (prepareAndSendStreamStatus env st s)"
  by (auto simp: prepareAndSendStreamStatus_def intro: emit split: option.split)

lemma full_status: "P s \<Longrightarrow> P (fst (prepareAndSendFullStatus env t s))"
  by (auto simp: prepareAndSendFullStatus_def intro: emit split: sum.split)

lemma on_manager_step:
  assumes "P s" and "\<not> is_mark c" and "\<And>st. c = RemoveStream st \<Longrightarrow> removable st"
    and "manager_step (n_streams s) c = keep_on_error (n_streams s) (f (n_streams s))"
  shows "P (fst (on_manager f s))"
  using manager [of s c] assms by (auto simp: on_manager_def split: sum.split)

lemma subscribe_stream: "P s \<Longrightarrow> P (fst (subscribeToStreamIfHaveNotYet env st b s))"
  unfolding subscribeToStreamIfHaveNotYet_def
  by (auto intro!: seq stream_status on_manager_step [where c = "SetUp st"])

lemma unsubscribe_stream:
  assumes "P s" "removable st"
  shows "P (fst (unsubscribeFromStream env st b s))"
proof -
  have "P (u\<lparr>n_throttler := throttler_removeStreamId k (n_throttler u), n_retry := retry_removeStreamId k (n_retry u)\<rparr>)"
    if "P u" for u k
    using retry [OF throttle [OF that, of "RemoveStreamId k"], of "RetryRemove k"] by simp
  then show ?thesis
    using assms unfolding unsubscribeFromStream_def
    by (auto simp: Let_def intro!: seq stream_status on_manager_step [where c = "RemoveStream st"])
qed

lemma buffered_messages:
  assumes "P s"
  shows "P (fst (handleBufferedMessages env st s))"
proof -
  have each: "P (fst (for_each (\<lambda>(msg, source). onDataReceived env msg source) ms u))"
    if "P u" "\<forall>(msg, source) \<in> set ms. good msg" for ms u
    using that
  proof (induction ms arbitrary: u)
    case (Cons m ms)
    then show ?case by (cases m) (auto intro!: seq data)
  qed simp
  have "snd (buffer_popAll k b) = contents b k" for k and b :: "(stream_message \<times> string option) message_buffer"
    by (simp add: buffer_popAll_def contents_def split: option.split)
  moreover have "\<forall>(msg, source) \<in> set (contents (n_buffer s) (stream_key st)). good msg"
    using good_buffer [OF assms] by blast
  from each [OF buffered [OF assms, of "BufferPopAll (stream_key st)"] this] show ?thesis
    unfolding handleBufferedMessages_def Let_def calculation by simp
qed

lemma clear_timer_inv: "P s \<Longrightarrow> P (clearDisconnectionTimer n s)"
  by (auto simp: clearDisconnectionTimer_def intro: forget_timer split: option.split)

lemma subscribe_node:
  assumes "P s"
  shows "P (fst (subscribeToStreamOnNode env n st b s))"
proof -
  have i: "P (fst (on_manager (\<lambda>m. addInboundNode m st n) u))" if "P u" for u
    using that by (rule on_manager_step [where c = "AddInbound st n"]) simp_all
  have out: "P (fst (on_manager (\<lambda>m. addOutboundNode m st n) u))" if "P u" for u
    using that by (rule on_manager_step [where c = "AddOutbound st n"]) simp_all
  show ?thesis
    using assms unfolding subscribeToStreamOnNode_def
    by (auto intro!: seq i out buffered_messages emit stream_status)
qed

lemma clear_arm:
  assumes "P s"
  shows "P (armDisconnectionTimer n (clearDisconnectionTimer n s))"
proof (rule arm_timer [OF clear_timer_inv [OF assms]])
  show "map_of (n_disc (clearDisconnectionTimer n s)) n = None"
    by (simp add: clearDisconnectionTimer_def forgetDisconnectionTimer_def split: option.split)
qed

lemma unsubscribe_node: "P s \<Longrightarrow> P (fst (unsubscribeFromStreamOnNode env n st b s))"
  unfolding unsubscribeFromStreamOnNode_def Let_def
  by (auto intro!: seq clear_arm emit stream_status on_manager_step [where c = "RemoveNode st n"])

lemma timeout: "P s \<Longrightarrow> P (disconnectionTimeout i s)"
  by (auto simp: disconnectionTimeout_def Let_def intro!: emit forget_timer split: option.split)

lemma disconnected:
  assumes "P s"
  shows "P (fst (node_onNodeDisconnected env n s))"
proof -
  have removed: "P (u\<lparr>n_streams := fst (removeNodeFromAllStreams (n_streams u) n)\<rparr>)" if "P u" for u
    using manager [OF that, of "RemoveNodeFromAll n"] by simp
  have "P (u\<lparr>n_streams := fst (removeNodeFromAllStreams (n_streams u) n)\<rparr>)" if "P w" "u = emits (CancelResends n) w" for u w
    using that by (simp add: removed emit)
  then show ?thesis
    using assms unfolding node_onNodeDisconnected_def Let_def
    by (auto intro!: seq metric loop full_status emit split: sum.split option.split)
qed

lemma delivery_failed: "P s \<Longrightarrow> P (fst (deliveryFailed env n mid s))"
  unfolding deliveryFailed_def Let_def by (auto intro!: seq disconnected failures emit)

lemma setup_inv: "P s \<Longrightarrow> P (fst (instruction_setup env i t s))"
  unfolding instruction_setup_def
  by (auto intro!: seq metric subscribe_stream per_stream loop unsubscribe_node fold emit
      split: sum.split)

lemma start_handling_inv: "P s \<Longrightarrow> P (start_handling env i t b src s)"
proof -
  assume "P s"
  then have P1: "P (s\<lparr>n_retry := retry_add i t (n_retry s)\<rparr>)" (is "P ?s") using retry [of s "RetryAdd i t"] by simp
  note P2 = setup_inv [OF P1, of i t]
  show ?thesis
    using handled_calls [OF metric [OF P1]] P2
    by (auto simp: start_handling_def Let_def split: prod.split option.split intro: handled_calls handlings)
qed

lemma connection_settled: "P s \<Longrightarrow> P (connectionSettled env h j b s)"
  unfolding connectionSettled_def Let_def set_handling_def
  by (auto intro!: handlings_only subscribe_node clear_timer_inv split: option.split)

lemma all_settled: "P s \<Longrightarrow> P (allSettled env h s)"
proof -
  have c: "P (fst (on_manager (\<lambda>m. updateCounter m st k) u))" if "P u" for u st k
    using that by (rule on_manager_step [where c = "UpdateCounter st k"]) simp_all
  have h: "P (u\<lparr>n_handlings := hs, n_done := ds\<rparr>)" if "P u" for u hs ds
    using handled_calls [OF handlings_only [OF that, of hs], of ds] by simp
  show ?thesis if "P s"
    using that unfolding allSettled_def Let_def by (auto intro!: h c stream_status split: option.split)
qed

lemma throttler_run: "P s \<Longrightarrow> P (run_throttler env (\<lambda>t. throttler_step t e) s)"
  using throttle [of s e] unfolding run_throttler_def Let_def by (auto intro: start_handling_inv)

lemma retry_timeout: "P s \<Longrightarrow> P (retryTimeout env j s)"
  using retry [of s "Fire j"] unfolding retryTimeout_def Let_def
  by (auto intro: start_handling_inv split: prod.split)

lemma handler_returned: "P s \<Longrightarrow> P (handlerReturned env s)"
proof -
  have t: "P (run_throttler env (settled p) u)" if "P u" for p u
    using throttler_run [OF that, of "Settled p"] by simp
  have r: "P (u\<lparr>n_retry := retried j (n_retry u)\<rparr>)" if "P u" for j u
    using retry [OF that, of "Retried j"] by simp
  show ?thesis if "P s"
    using that handled_calls [OF that] t r [OF handled_calls [OF that]] unfolding handlerReturned_def Let_def
    by (simp split: list.split handling_source.split)
qed

lemma stopped: "P s \<Longrightarrow> P (node_stop s)"
proof -
  assume "P s"
  then have 1: "P (emits StopResends s)" (is "P ?s") by (simp add: emit)
  from retry [OF throttle [OF 1, of Reset], of RetryReset] have
    "P (?s\<lparr>n_throttler := throttler_reset (n_throttler ?s), n_retry := retry_reset (n_retry ?s)\<rparr>)" by simp
  from buffered [OF stop_timers [OF this], of BufferClear] show ?thesis
    unfolding node_stop_def Let_def by (auto intro: emit)
qed

lemma connected_to_tracker: "P s \<Longrightarrow> P (fst (onConnectedToTracker env t s))"
  by (auto simp: onConnectedToTracker_def intro: full_status book split: option.split)

theorem event_keeps: "P s \<Longrightarrow> event_legal removable good e \<Longrightarrow> P (node_step env s e)"
  by (cases e)
    (auto simp: node_step_def connectToBootstrapTrackers_def onTrackerInstructionReceived_def
      requestResend_def deliverySucceeded_def Let_def simp del: buffer_step.simps
      intro!: fold emit connected_to_tracker data disconnected connection_settled all_settled handler_returned failures
        delivery_failed timeout buffered retry_timeout aged rtts subscribe_stream unsubscribe_stream seq metric
        per_stream stopped throttler_run [where e = "Add i t" for i t, simplified])

end

sublocale node_invariant \<subseteq> node_run: step_invariant "node_step env" "event_legal removable good" P
  by unfold_locales (rule event_keeps)

end
