(* ===== verification/NodeWellFormed.thy ===== *)
theory NodeWellFormed
  imports NodeInvariant
begin

section \<open>The node stays well formed and relays messages\<close>

text \<open>
  \<open>node_ok\<close>, that the components of a node are well formed and its timers agree with its
  books, is the first use of the locale \<open>node_invariant\<close>.
\<close>

declare map_of_eq_Some_iff [simp del]

subsection \<open>Well-formedness\<close>

definition timers_ok :: "('c, 'r, 'v) node \<Rightarrow> bool" where
  "timers_ok s \<longleftrightarrow> dict_ok (n_disc_armed s) \<and>
     (\<forall>i n. map_of (n_disc_armed s) i = Some n \<longrightarrow> i < n_next s \<and> map_of (n_disc s) n = Some i) \<and>
     (\<forall>n i. map_of (n_disc s) n = Some i \<longrightarrow> i < n_next s)"

definition metrics_ok :: "('c, 'r, 'v) node \<Rightarrow> bool" where
  "metrics_ok s \<longleftrightarrow> keys_of (recordedMetrics (n_metrics s)) = recorded_names \<and> metrics_name (n_metrics s) = ''node''"

definition node_ok :: "('c, 'r, 'v) node_env \<Rightarrow> ('c, 'r, 'v) node \<Rightarrow> bool" where
  "node_ok env s \<longleftrightarrow> 1 < ne_bufferMaxSize env \<and> manager_ok (n_streams s) \<and>
     buffer_ok (ne_bufferMaxSize env) (n_buffer s) \<and> throttler_ok (n_throttler s) \<and> retry_ok (n_retry s) \<and>
     timers_ok s \<and> metrics_ok s"

lemma node_okD:
  assumes "node_ok env s"
  shows "1 < ne_bufferMaxSize env" "manager_ok (n_streams s)" "buffer_ok (ne_bufferMaxSize env) (n_buffer s)"
    "throttler_ok (n_throttler s)" "retry_ok (n_retry s)" "timers_ok s" "metrics_ok s"
  using assms by (simp_all add: node_ok_def)

lemma emits_fields [simp, node_fields]:
  "n_streams (emits e s) = n_streams s" "n_buffer (emits e s) = n_buffer s" "n_seen (emits e s) = n_seen s"
  "n_throttler (emits e s) = n_throttler s" "n_retry (emits e s) = n_retry s" "n_book (emits e s) = n_book s"
  "n_failures (emits e s) = n_failures s" "n_disc (emits e s) = n_disc s" "n_disc_armed (emits e s) = n_disc_armed s"
  "n_next (emits e s) = n_next s" "n_handlings (emits e s) = n_handlings s" "n_done (emits e s) = n_done s"
  "n_metrics (emits e s) = n_metrics s" "n_perStream (emits e s) = n_perStream s" "n_rtts (emits e s) = n_rtts s"
  "n_out (emits e s) = n_out s @ [e]"
  by (simp_all add: emits_def)

lemma record_for_stream_fields [simp, node_fields]:
  "n_streams (record_for_stream env k i s) = n_streams s" "n_buffer (record_for_stream env k i s) = n_buffer s"
  "n_seen (record_for_stream env k i s) = n_seen s" "n_throttler (record_for_stream env k i s) = n_throttler s"
  "n_retry (record_for_stream env k i s) = n_retry s" "n_book (record_for_stream env k i s) = n_book s"
  "n_disc (record_for_stream env k i s) = n_disc s" "n_disc_armed (record_for_stream env k i s) = n_disc_armed s"
  "n_next (record_for_stream env k i s) = n_next s" "n_handlings (record_for_stream env k i s) = n_handlings s"
  "n_done (record_for_stream env k i s) = n_done s" "n_metrics (record_for_stream env k i s) = n_metrics s"
  "n_out (record_for_stream env k i s) = n_out s" "n_rtts (record_for_stream env k i s) = n_rtts s"
  "n_failures (record_for_stream env k i s) = n_failures s"
  by (simp_all add: record_for_stream_def)

lemma node_ok_emits [simp]: "node_ok env (emits e s) = node_ok env s"
  by (simp add: node_ok_def timers_ok_def metrics_ok_def)

lemma node_ok_record_for_stream [simp]: "node_ok env (record_for_stream env' k i s) = node_ok env s"
  by (simp add: node_ok_def timers_ok_def metrics_ok_def)

lemma node_ok_streams:
  "node_ok env s \<Longrightarrow> manager_ok m \<Longrightarrow> node_ok env (s\<lparr>n_streams := m\<rparr>)"
  by (simp add: node_ok_def timers_ok_def metrics_ok_def)

lemma node_ok_seen [simp]: "node_ok env (s\<lparr>n_seen := c\<rparr>) = node_ok env s"
  by (simp add: node_ok_def timers_ok_def metrics_ok_def)

lemma node_ok_buffer:
  "node_ok env s \<Longrightarrow> buffer_ok (ne_bufferMaxSize env) b \<Longrightarrow> node_ok env (s\<lparr>n_buffer := b\<rparr>)"
  by (simp add: node_ok_def timers_ok_def metrics_ok_def)

text \<open>Recording one of the registered metrics never throws; recording another always does.\<close>

lemma metrics_record_name: "metrics_record sp k v m = Inr m' \<Longrightarrow> metrics_name m' = metrics_name m"
  by (auto simp: metrics_record_def split: option.splits)

lemma node_record_effect:
  assumes "k \<in> set recorded_names" "metrics_ok s"
  obtains m where "node_record env k s = (s\<lparr>n_metrics := m\<rparr>, None)" "metrics_ok (s\<lparr>n_metrics := m\<rparr>)"
proof -
  have "has_key (recordedMetrics (n_metrics s)) k" using assms unfolding metrics_ok_def has_key_iff by simp
  then obtain m where m: "metrics_record (ne_speed env) k 1 (n_metrics s) = Inr m"
    "keys_of (recordedMetrics m) = keys_of (recordedMetrics (n_metrics s))"
    using metrics_record_known [of "n_metrics s" k "ne_speed env" 1] by blast
  then show ?thesis
    using that [of m] assms(2) metrics_record_name [OF m(1)] by (simp add: node_record_def metrics_ok_def)
qed

lemma node_record_no_error:
  assumes "k \<in> set recorded_names" "metrics_ok s"
  shows "snd (node_record env k s) = None"
proof -
  obtain m where "node_record env k s = (s\<lparr>n_metrics := m\<rparr>, None)" using node_record_effect [OF assms] by blast
  then show ?thesis by simp
qed

lemma node_record_throws:
  assumes "k \<notin> set recorded_names" "metrics_ok s"
  shows "node_record env k s = (s, Some (MetricsError (NotARecordedMetric (''node.'' @ k))))"
proof -
  have "\<not> has_key (recordedMetrics (n_metrics s)) k" using assms unfolding metrics_ok_def has_key_iff by simp
  then show ?thesis
    using assms(2) by (simp add: node_record_def metrics_record_unknown metrics_ok_def metric_label_def)
qed

lemma node_ok_metrics: "node_ok env s \<Longrightarrow> metrics_ok (s\<lparr>n_metrics := m\<rparr>) \<Longrightarrow> node_ok env (s\<lparr>n_metrics := m\<rparr>)"
  by (simp add: node_ok_def timers_ok_def)

lemma node_ok_record:
  assumes "node_ok env s"
  shows "node_ok env (fst (node_record env k s))"
proof (cases "k \<in> set recorded_names")
  case True
  from node_record_effect [OF this node_okD(7) [OF assms], of env] obtain m where
    "node_record env k s = (s\<lparr>n_metrics := m\<rparr>, None)" "metrics_ok (s\<lparr>n_metrics := m\<rparr>)" by blast
  then show ?thesis using assms by (simp add: node_ok_metrics)
next
  case False
  then show ?thesis using node_record_throws [OF False node_okD(7) [OF assms]] assms by simp
qed

lemma manager_ok_mark:
  "manager_ok m \<Longrightarrow> manager_ok (fst (markNumbersAndCheckThatIsNotDuplicate m i p))"
  using manager_ok_step [of m "Mark i p"] by simp

lemma buffer_ok_step: "1 < n \<Longrightarrow> buffer_ok n b \<Longrightarrow> buffer_ok n (buffer_step n b c)"
  using buffer_step_effect by blast

lemma node_ok_send: "node_ok env s \<Longrightarrow> node_ok env (foldl (\<lambda>s n. emits (SendData n msg) s) s ns)"
  by (rule foldl_inv) simp_all

lemma node_ok_put:
  assumes "node_ok env s"
  shows "node_ok env (s\<lparr>n_buffer := fst (buffer_put (ne_bufferMaxSize env) k m (n_buffer s))\<rparr>)"
  using node_ok_buffer [OF assms] buffer_ok_step [OF node_okD(1,3) [OF assms], of "BufferPut k m"] by simp

lemma node_ok_relay:
  assumes "node_ok env s"
  shows "node_ok env (fst (relay env msg source s))"
proof -
  have "node_ok env (s\<lparr>n_seen := c\<rparr>)" for c using assms by simp
  from node_ok_put [OF this, of "stream_key (message_stream msg)" "(msg, source)"] node_ok_send [OF assms] assms
  show ?thesis by (auto simp: relay_def Let_def split: sum.split)
qed

lemma node_ok_propagate:
  assumes "node_ok env s"
  shows "node_ok env (fst (propagateMessage env msg source s))"
  unfolding propagateMessage_def
  by (rule and_then_inv [where P = "node_ok env"]) (simp_all add: node_ok_record node_ok_relay assms)

lemma node_ok_ignore:
  assumes "node_ok env s"
  shows "node_ok env (fst (and_then (node_record env k s) (\<lambda>t. (record_for_stream env m i t, None))))"
  by (rule and_then_inv [where P = "node_ok env"]) (simp_all add: node_ok_record assms)

lemma node_ok_check:
  assumes "node_ok env s"
  shows "node_ok env (fst (checkAndPropagate env msg source s))"
proof -
  have m: "node_ok env (s\<lparr>n_streams := fst (markNumbersAndCheckThatIsNotDuplicate (n_streams s) (messageId msg) (prevMsgRef msg))\<rparr>)"
    using node_ok_streams [OF assms manager_ok_mark [OF node_okD(2) [OF assms]]] .
  show ?thesis
    unfolding checkAndPropagate_def Let_def using m
    by (auto intro!: node_ok_record node_ok_propagate node_ok_ignore
        split: sum.split manager_error.split detector_error.split)
qed

lemma node_ok_data:
  assumes "node_ok env s"
  shows "node_ok env (fst (onDataReceived env msg source s))"
proof -
  have set_up: "node_ok env (fst (on_manager (\<lambda>m. setUpStream m st) t))" if "node_ok env t" for t st
    using that manager_ok_step [OF node_okD(2) [OF that], of "SetUp st"]
    by (auto simp: on_manager_def intro: node_ok_streams split: sum.split)
  have status: "node_ok env (prepareAndSendStreamStatus env st t)" if "node_ok env t" for t st
    using that by (simp add: prepareAndSendStreamStatus_def split: option.split)
  show ?thesis
    using assms unfolding onDataReceived_def subscribeToStreamIfHaveNotYet_def
    by (auto intro!: and_then_inv [where P = "node_ok env"] node_ok_record node_ok_check set_up status)
qed

lemma timers_ok_forget:
  assumes "timers_ok s" and "map_of (n_disc s) n = Some i \<or> map_of (n_disc_armed s) i = Some n"
  shows "timers_ok (forgetDisconnectionTimer i n s)"
proof -
  have f: "map_of (filter (\<lambda>t. fst t \<noteq> i) xs) j = (if j = i then None else map_of xs j)" for j and xs :: "(nat \<times> string) list"
    by (induction xs) auto
  show ?thesis
    using assms unfolding timers_ok_def
    by (auto simp: forgetDisconnectionTimer_def f distinct_map_filter) (metis option.inject)
qed

lemma timers_ok_arm:
  assumes "timers_ok s" and "map_of (n_disc s) n = None"
  shows "timers_ok (armDisconnectionTimer n s)"
proof -
  have new: "map_of (n_disc_armed s) (n_next s) = None"
    using assms(1) by (cases "map_of (n_disc_armed s) (n_next s)") (auto simp: timers_ok_def)
  then have "dict_ok (n_disc_armed s @ [(n_next s, n)])"
    using assms(1) has_key_iff [of "n_disc_armed s" "n_next s"] by (simp add: timers_ok_def)
  moreover have "map_of (n_disc_armed s @ [(n_next s, n)]) j = (if j = n_next s then Some n else map_of (n_disc_armed s) j)" for j
    using new by (auto simp: map_add_def split: option.split)
  ultimately show ?thesis
    using assms unfolding timers_ok_def armDisconnectionTimer_def by (auto simp: less_Suc_eq)
qed

lemma timers_ok_filter:
  assumes "timers_ok s"
  shows "timers_ok (s\<lparr>n_disc_armed := filter Q (n_disc_armed s)\<rparr>)"
proof -
  have d: "dict_ok (n_disc_armed s)" using assms by (simp add: timers_ok_def)
  then have "dict_ok (filter Q (n_disc_armed s))" by (simp add: distinct_map_filter)
  moreover have "map_of (n_disc_armed s) i = Some n" if "map_of (filter Q (n_disc_armed s)) i = Some n" for i n
    using map_of_SomeD [OF that] d by simp
  ultimately show ?thesis using assms unfolding timers_ok_def by auto
qed

interpretation nodes: node_invariant env "\<lambda>_. True" "\<lambda>_. True" "node_ok env" for env :: "('c, 'r, 'v) node_env"
proof
  fix s :: "('c, 'r, 'v) node" assume ok: "node_ok env s"
  note parts = node_okD [OF ok]
  note defs = node_ok_def timers_ok_def metrics_ok_def
  show "node_ok env (fst (onDataReceived env msg source s))" for msg source by (rule node_ok_data [OF ok])
  show "(msg, source) \<in> set (contents (n_buffer s) k) \<Longrightarrow> True" for msg source k by simp
  show "node_ok env (fst (node_record env name s))" for name by (rule node_ok_record [OF ok])
  show "node_ok env (emits e s)" "node_ok env (record_for_stream env k sid s)" for e k sid using ok by simp_all
  show "node_ok env (s\<lparr>n_streams := manager_step (n_streams s) c\<rparr>)" for c
    by (rule node_ok_streams [OF ok manager_ok_step [OF parts(2)]])
  show "node_ok env (s\<lparr>n_buffer := buffer_step (ne_bufferMaxSize env) (n_buffer s) b\<rparr>)" for b
    by (rule node_ok_buffer [OF ok buffer_ok_step [OF parts(1,3)]])
  show "node_ok env (s\<lparr>n_seen := lru_age (ne_lru env) t (n_seen s)\<rparr>)" for t using ok by simp
  show "node_ok env (s\<lparr>n_throttler := throttler_step (n_throttler s) te\<rparr>)" for te
    using ok throttlers.step_inv [OF parts(4)] by (simp add: defs)
  show "node_ok env (s\<lparr>n_retry := retry_step (n_retry s) re\<rparr>)" for re
    using ok retries.step_inv [OF parts(5)] by (simp add: defs)
  show "node_ok env (s\<lparr>n_book := bk\<rparr>)" "node_ok env (s\<lparr>n_failures := fs\<rparr>)" "node_ok env (s\<lparr>n_done := ds\<rparr>)"
    "node_ok env (s\<lparr>n_rtts := rt\<rparr>)" for bk fs ds rt
    using ok by (simp_all add: defs)
  show "node_ok env (forgetDisconnectionTimer i n s)" if "map_of (n_disc s) n = Some i \<or> map_of (n_disc_armed s) i = Some n" for n i
    using timers_ok_forget [OF parts(6) that] ok by (simp add: node_ok_def metrics_ok_def forgetDisconnectionTimer_def)
  show "node_ok env (armDisconnectionTimer n s)" if "map_of (n_disc s) n = None" for n
    using timers_ok_arm [OF parts(6) that] ok by (simp add: node_ok_def metrics_ok_def armDisconnectionTimer_def)
  show "node_ok env (s\<lparr>n_disc_armed := filter Q (n_disc_armed s)\<rparr>)" for Q
    using timers_ok_filter [OF parts(6)] ok by (simp add: node_ok_def metrics_ok_def)
  show "node_ok env (s\<lparr>n_handlings := hs, n_next := k'\<rparr>)" if "n_next s \<le> k'" for hs k'
    using ok that by (fastforce simp: defs)
qed

lemma node_ok_new:
  assumes "1 < ne_bufferMaxSize env"
  shows "node_ok env (new_node env c)"
proof -
  have "metrics_ok (new_node env c)"
    by (simp add: metrics_ok_def new_node_def node_metrics_def recorded_names_def keep_on_error_def addRecordedMetric_def
        verifyUniqueness_def new_metrics_def)
  then show ?thesis
    using assms new_buffer_ok new_throttler_ok new_retry_manager_ok
    by (simp add: node_ok_def timers_ok_def new_node_def)
qed

end
