(* ===== verification/NodeRelay.thy ===== *)
theory NodeRelay
  imports NodeWellFormed
begin

section \<open>A node relays each message once\<close>

text \<open>
  The second use of \<open>node_invariant\<close>: over every run of events, duplicates and retries a
  message is propagated at most once and a neighbour is sent it at most once. What makes it
  hold is the interplay of three components: the duplicate detector says \<open>new\<close> once, a message
  that found no neighbour is remembered in the set of seen but not propagated messages, and
  propagating it takes it out of that set.
\<close>

subsection \<open>What the detectors know of a message\<close>

definition seen_number :: "stream_manager \<Rightarrow> message_id \<Rightarrow> bool" where
  "seen_number m mid \<longleftrightarrow>
     (let d = chain_detector m (stream_key (from_message mid)) (keyForDetector mid)
      in gaps d \<noteq> [] \<and> message_number mid \<notin> unseen (gaps d))"

lemma chain_detector_ok:
  assumes "manager_ok m"
  shows "detector_ok (chain_detector m sk dk)"
proof -
  have "detector_ok d" if "map_of m sk = Some st" "map_of (detectors st) dk = Some d" for st d
    using manager_okD [OF assms that(1)] that(2) by (auto simp: stream_ok_def dest: dict_allD)
  then show ?thesis
    by (auto simp: chain_detector_def default_max_gaps_def detector_ok_new split: option.split)
qed

lemma seen_number_not_new:
  assumes "manager_ok m" "seen_number m mid" "has_key m (stream_key (from_message mid))"
  shows "snd (markNumbersAndCheckThatIsNotDuplicate m mid p) \<noteq> Inr True"
proof -
  let ?d = "chain_detector m (stream_key (from_message mid)) (keyForDetector mid)"
  have "snd (markAndCheck ?d q (message_number mid)) \<noteq> Inr True" for q
    using det.unseen_check [OF chain_detector_ok [OF assms(1)] is_number_message] assms(2)
    by (auto simp: seen_number_def Let_def)
  then show ?thesis
    using mark_in_chain(1) [of "stream_key (from_message mid)" "keyForDetector mid" mid m p] assms(3)
    by (auto simp: in_chain_def lift_verdict_def split: sum.splits)
qed

lemma marked_seen:
  assumes "manager_ok m" "has_key m (stream_key (from_message mid))"
    and "snd (markNumbersAndCheckThatIsNotDuplicate m mid p) = Inr True"
  shows "seen_number (fst (markNumbersAndCheckThatIsNotDuplicate m mid p)) mid"
proof -
  let ?d = "chain_detector m (stream_key (from_message mid)) (keyForDetector mid)"
  let ?q = "map_option ref_number p"
  have c: "in_chain (stream_key (from_message mid)) (keyForDetector mid) mid" by (simp add: in_chain_def)
  have "snd (markAndCheck ?d ?q (message_number mid)) = Inr True"
    using mark_in_chain(1) [OF c assms(2), of p] assms(3) by (auto simp: lift_verdict_def split: sum.splits)
  from det.marked_check [OF chain_detector_ok [OF assms(1)] is_number_message this]
  show ?thesis using mark_in_chain(2) [OF c assms(2), of p] by (simp add: seen_number_def Let_def)
qed

lemma seen_number_step:
  assumes ok: "manager_ok m" and seen: "seen_number m mid"
    and c: "\<not> removes_stream (stream_key (from_message mid)) c"
  shows "seen_number (manager_step m c) mid"
proof (cases "\<exists>i p. c = Mark i p \<and> in_chain (stream_key (from_message mid)) (keyForDetector mid) i")
  case True
  let ?sk = "stream_key (from_message mid)" and ?dk = "keyForDetector mid"
  obtain i p where i: "c = Mark i p" "in_chain ?sk ?dk i" using True by blast
  have "has_key m ?sk"
    using seen by (auto simp: seen_number_def chain_detector_def new_detector_def split: option.splits)
  note d = mark_in_chain(2) [OF i(2) this, of p]
  note ok' = chain_detector_ok [OF ok, of ?sk ?dk]
  show ?thesis
    using seen det.started_check [OF ok' is_number_message [of i]] det.pending_check [OF ok' is_number_message [of i]]
    unfolding seen_number_def Let_def i(1) d by blast
next
  case False
  then have "chain_detector (manager_step m c) (stream_key (from_message mid)) (keyForDetector mid) =
      chain_detector m (stream_key (from_message mid)) (keyForDetector mid)"
    using step_off_chain [of c "stream_key (from_message mid)" "keyForDetector mid" m] c by blast
  then show ?thesis using seen by (simp add: seen_number_def)
qed

lemma seen_number_set_up: "seen_number m mid \<Longrightarrow> has_key m (stream_key (from_message mid))"
  by (auto simp: seen_number_def chain_detector_def new_detector_def split: option.splits)

subsection \<open>What the buffer holds\<close>

lemma set_tl: "set (tl xs) \<subseteq> set xs"
  by (cases xs) auto

lemma contents_put:
  assumes "buffer_ok n b" "1 < n"
  shows "set (contents (fst (buffer_put n k m b)) j) \<subseteq> insert m (set (contents b j))"
    "snd (buffer_put n k m b) = None"
proof -
  obtain t where t: "buffer_put n k m b = (t, None)" "buffer_ok n t"
    "entries t = (entries b)(k := (if length (entries b k) < n then entries b k else tl (entries b k)) @ [(next_ref b, m)])"
    using put_effect [OF assms] by blast
  show "snd (buffer_put n k m b) = None" by (simp add: t)
  have "contents t j = map snd (entries t j)" "contents b j = map snd (entries b j)"
    using entries_contents t(2) assms(1) by metis+
  then show "set (contents (fst (buffer_put n k m b)) j) \<subseteq> insert m (set (contents b j))"
    using set_tl [of "entries b k"] by (auto simp: t(1,3))
qed

lemma contents_step:
  assumes "buffer_ok n b" "1 < n" "\<not> is_put c"
  shows "set (contents (buffer_step n b c) k) \<subseteq> set (contents b k)"
proof -
  have "set (entries (buffer_step n b c) k) \<subseteq> set (entries b k)"
    using buffer_step_effect [OF assms(1,2), of c] assms(3) set_tl [of "entries b k"]
    by (cases c) (auto split: option.splits)
  moreover have "contents (buffer_step n b c) k = map snd (entries (buffer_step n b c) k)" "contents b k = map snd (entries b k)"
    using entries_contents buffer_step_effect [OF assms(1,2), of c] assms(1) by metis+
  ultimately show ?thesis by auto
qed

subsection \<open>The invariant of one message\<close>

definition deliveries :: "message_id \<Rightarrow> string \<Rightarrow> node_effect list \<Rightarrow> nat" where
  "deliveries mid n out = length (filter (\<lambda>e. case e of SendData m msg \<Rightarrow> m = n \<and> messageId msg = mid | _ \<Rightarrow> False) out)"

definition propagations :: "message_id \<Rightarrow> node_effect list \<Rightarrow> nat" where
  "propagations mid out = length (filter (\<lambda>e. case e of MessagePropagated msg \<Rightarrow> messageId msg = mid | _ \<Rightarrow> False) out)"

lemma deliveries_append [simp]: "deliveries mid n (xs @ ys) = deliveries mid n xs + deliveries mid n ys"
  by (simp add: deliveries_def)

lemma propagations_append [simp]: "propagations mid (xs @ ys) = propagations mid xs + propagations mid ys"
  by (simp add: propagations_def)

lemma deliveries_one [simp]:
  "deliveries mid n [SendData m msg] = (if m = n \<and> messageId msg = mid then 1 else 0)"
  "propagations mid [SendData m msg] = 0"
  "propagations mid [MessagePropagated msg] = (if messageId msg = mid then 1 else 0)"
  "deliveries mid n [MessagePropagated msg] = 0"
  "deliveries mid n [] = 0" "propagations mid [] = 0"
  by (simp_all add: deliveries_def propagations_def)

lemma neither [simp]:
  "deliveries mid n [MessageReceived msg source] = 0" "propagations mid [MessageReceived msg source] = 0"
  "deliveries mid n [UnseenMessageReceived msg source] = 0" "propagations mid [UnseenMessageReceived msg source] = 0"
  "\<not> data_effect e \<Longrightarrow> deliveries mid n [e] = 0" "\<not> data_effect e \<Longrightarrow> propagations mid [e] = 0"
  by (cases e; simp add: deliveries_def propagations_def)+

lemma send_all:
  "n_out (foldl (\<lambda>s n. emits (SendData n msg) s) s ns) = n_out s @ map (\<lambda>n. SendData n msg) ns"
  by (induction ns arbitrary: s) auto

lemma send_all_fields [simp]:
  "n_streams (foldl (\<lambda>s n. emits (SendData n msg) s) s ns) = n_streams s"
  "n_buffer (foldl (\<lambda>s n. emits (SendData n msg) s) s ns) = n_buffer s"
  "n_seen (foldl (\<lambda>s n. emits (SendData n msg) s) s ns) = n_seen s"
  by (induction ns arbitrary: s) auto

lemma deliveries_all:
  "distinct ns \<Longrightarrow> deliveries mid n (map (\<lambda>n. SendData n msg) ns) = (if n \<in> set ns \<and> messageId msg = mid then 1 else 0)"
  by (induction ns) (auto simp: deliveries_def)

lemma propagations_all [simp]: "propagations mid (map (\<lambda>n. SendData n msg) ns) = 0"
  by (simp add: propagations_def filter_empty_conv)

definition own_key :: "message_id \<Rightarrow> stream_message \<Rightarrow> bool" where
  "own_key mid msg \<longleftrightarrow> (messageIdToStr (messageId msg) = messageIdToStr mid \<longrightarrow> messageId msg = mid)"

definition once :: "('c, 'r, 'v) node_env \<Rightarrow> message_id \<Rightarrow> ('c, 'r, 'v) node \<Rightarrow> bool" where
  "once env mid s \<longleftrightarrow> node_ok env s \<and> lru_lawful (ne_lru env) \<and>
     (\<forall>k msg source. (msg, source) \<in> set (contents (n_buffer s) k) \<longrightarrow> own_key mid msg) \<and>
     (\<forall>n. deliveries mid n (n_out s) \<le> propagations mid (n_out s)) \<and> propagations mid (n_out s) \<le> 1 \<and>
     (propagations mid (n_out s) = 1 \<longrightarrow>
        \<not> lru_has (ne_lru env) (n_seen s) (messageIdToStr mid) \<and> seen_number (n_streams s) mid) \<and>
     (lru_has (ne_lru env) (n_seen s) (messageIdToStr mid) \<longrightarrow> seen_number (n_streams s) mid)"

lemma onceD:
  assumes "once env mid s"
  shows "node_ok env s" "lru_lawful (ne_lru env)" "(msg, source) \<in> set (contents (n_buffer s) k) \<Longrightarrow> own_key mid msg"
    "deliveries mid n (n_out s) \<le> propagations mid (n_out s)" "propagations mid (n_out s) \<le> 1"
    "propagations mid (n_out s) = 1 \<Longrightarrow> \<not> lru_has (ne_lru env) (n_seen s) (messageIdToStr mid)"
    "propagations mid (n_out s) = 1 \<Longrightarrow> seen_number (n_streams s) mid"
    "lru_has (ne_lru env) (n_seen s) (messageIdToStr mid) \<Longrightarrow> seen_number (n_streams s) mid"
  using assms unfolding once_def by blast+

lemma onceI:
  assumes "node_ok env s" "lru_lawful (ne_lru env)"
    and "\<And>k msg source. (msg, source) \<in> set (contents (n_buffer s) k) \<Longrightarrow> own_key mid msg"
    and "\<And>n. deliveries mid n (n_out s) \<le> propagations mid (n_out s)" "propagations mid (n_out s) \<le> 1"
    and "propagations mid (n_out s) = 1 \<Longrightarrow> \<not> lru_has (ne_lru env) (n_seen s) (messageIdToStr mid)"
    and "propagations mid (n_out s) = 1 \<Longrightarrow> seen_number (n_streams s) mid"
    and "lru_has (ne_lru env) (n_seen s) (messageIdToStr mid) \<Longrightarrow> seen_number (n_streams s) mid"
  shows "once env mid s"
  using assms unfolding once_def by blast

text \<open>A change that leaves the effects, the buffer and the set alone, and keeps what was seen.\<close>

lemma once_change:
  assumes o: "once env mid s" and "node_ok env t" and out: "n_out t = n_out s"
    and b: "\<And>k. set (contents (n_buffer t) k) \<subseteq> set (contents (n_buffer s) k)"
    and has: "lru_has (ne_lru env) (n_seen t) (messageIdToStr mid) \<Longrightarrow> lru_has (ne_lru env) (n_seen s) (messageIdToStr mid)"
    and seen: "seen_number (n_streams s) mid \<Longrightarrow> seen_number (n_streams t) mid"
  shows "once env mid t"
proof (rule onceI)
  show "(msg, source) \<in> set (contents (n_buffer t) k) \<Longrightarrow> own_key mid msg" for k msg source
    using onceD(3) [OF o, of msg source k] b by blast
  show "propagations mid (n_out t) = 1 \<Longrightarrow> \<not> lru_has (ne_lru env) (n_seen t) (messageIdToStr mid)"
    using onceD(6) [OF o] has unfolding out by blast
  show "lru_has (ne_lru env) (n_seen t) (messageIdToStr mid) \<Longrightarrow> seen_number (n_streams t) mid"
    using onceD(8) [OF o] has seen by blast
  show "propagations mid (n_out t) = 1 \<Longrightarrow> seen_number (n_streams t) mid"
    using onceD(7) [OF o] seen unfolding out by blast
qed (use assms(2) onceD(2,4,5) [OF o] out in simp_all)

lemma once_emit:
  "once env mid s \<Longrightarrow> (\<And>n. deliveries mid n [e] = 0) \<Longrightarrow> propagations mid [e] = 0 \<Longrightarrow>
   once env mid (emits e s)"
  unfolding once_def by simp

lemma once_relay:
  assumes o: "once env mid s" and good: "own_key mid msg"
    and new: "messageId msg = mid \<Longrightarrow> seen_number (n_streams s) mid \<and> propagations mid (n_out s) = 0"
  shows "once env mid (fst (relay env msg source s))"
proof -
  note lru = onceD(2) [OF o, unfolded lru_lawful_def]
  note ok = node_okD [OF onceD(1) [OF o]]
  have relay_ok: "node_ok env (fst (relay env msg source s))" by (rule node_ok_relay [OF onceD(1) [OF o]])
  show ?thesis
  proof (cases "getOutboundNodesForStream (n_streams s) (message_stream msg)")
    case (Inl e)
    then show ?thesis using o by (simp add: relay_def)
  next
    case (Inr outs)
    let ?subs = "filter (\<lambda>n. Some n \<noteq> source) outs"
    show ?thesis
    proof (cases "?subs = []")
      case True
      let ?b = "fst (buffer_put (ne_bufferMaxSize env) (stream_key (message_stream msg)) (msg, source) (n_buffer s))"
      have eq: "fst (relay env msg source s) = s\<lparr>n_seen := seen_add (ne_lru env) msg (n_seen s), n_buffer := ?b\<rparr>"
        by (simp add: relay_def Inr True Let_def)
      let ?t = "fst (relay env msg source s)"
      have t: "n_out ?t = n_out s" "n_streams ?t = n_streams s" "n_buffer ?t = ?b"
        "n_seen ?t = lru_set (ne_lru env) (messageIdToStr (messageId msg)) (n_seen s)"
        unfolding eq by (simp_all add: seen_add_def)
      have has: "messageId msg = mid \<or> lru_has (ne_lru env) (n_seen s) (messageIdToStr mid)"
        if "lru_has (ne_lru env) (n_seen ?t) (messageIdToStr mid)"
        using that lru good unfolding t(4) own_key_def by metis
      show ?thesis
      proof (rule onceI)
        show "own_key mid m" if "(m, src) \<in> set (contents (n_buffer ?t) k)" for m src k
          using that contents_put(1) [OF ok(3,1)] onceD(3) [OF o] good unfolding t(3) by blast
        show "propagations mid (n_out ?t) = 1 \<Longrightarrow> \<not> lru_has (ne_lru env) (n_seen ?t) (messageIdToStr mid)"
          using onceD(6) [OF o] has new unfolding t(1) by (metis zero_neq_one)
        show "propagations mid (n_out ?t) = 1 \<Longrightarrow> seen_number (n_streams ?t) mid"
          using onceD(7) [OF o] unfolding t(1,2) .
        show "lru_has (ne_lru env) (n_seen ?t) (messageIdToStr mid) \<Longrightarrow> seen_number (n_streams ?t) mid"
          using onceD(8) [OF o] has new unfolding t(2) by blast
      qed (use relay_ok onceD(2,4,5) [OF o] t(1) in simp_all)
    next
      case False
      have outs: "distinct ?subs"
      proof -
        obtain st where "map_of (n_streams s) (stream_key (message_stream msg)) = Some st" "outboundNodes st = outs"
          using Inr by (auto simp: getOutboundNodesForStream_def verifyThatIsSetUp_def split: option.splits)
        then show ?thesis using manager_okD [OF ok(2)] by (auto simp: stream_ok_def)
      qed
      let ?t = "fst (relay env msg source s)"
      have t: "n_out ?t = n_out s @ map (\<lambda>n. SendData n msg) ?subs @ [MessagePropagated msg]"
        "n_seen ?t = lru_del (ne_lru env) (messageIdToStr (messageId msg)) (n_seen s)"
        "n_streams ?t = n_streams s" "n_buffer ?t = n_buffer s"
        using False by (simp_all add: relay_def Inr Let_def send_all seen_delete_def)
      have d: "deliveries mid n (n_out ?t) \<le> propagations mid (n_out ?t)" for n
        using onceD(4) [OF o, of n] deliveries_all [OF outs, of mid n msg] unfolding t(1) by simp
      have p: "propagations mid (n_out ?t) = propagations mid (n_out s) + (if messageId msg = mid then 1 else 0)"
        unfolding t(1) by simp
      have seen: "lru_has (ne_lru env) (n_seen ?t) (messageIdToStr mid) \<Longrightarrow>
          lru_has (ne_lru env) (n_seen s) (messageIdToStr mid) \<and> messageId msg \<noteq> mid"
        using lru unfolding t(2) by metis
      show ?thesis
      proof (rule onceI)
        show "(m, src) \<in> set (contents (n_buffer ?t) k) \<Longrightarrow> own_key mid m" for k m src
          using onceD(3) [OF o] unfolding t(4) .
        show "propagations mid (n_out ?t) = 1 \<Longrightarrow> \<not> lru_has (ne_lru env) (n_seen ?t) (messageIdToStr mid)"
          using onceD(6) [OF o] seen p by (auto split: if_splits)
        show "propagations mid (n_out ?t) = 1 \<Longrightarrow> seen_number (n_streams ?t) mid"
          using onceD(7) [OF o] new p unfolding t(3) by (auto split: if_splits)
        show "lru_has (ne_lru env) (n_seen ?t) (messageIdToStr mid) \<Longrightarrow> seen_number (n_streams ?t) mid"
          using onceD(8) [OF o] seen unfolding t(3) by blast
        show "propagations mid (n_out ?t) \<le> 1" using onceD(5) [OF o] new p by auto
      qed (use relay_ok onceD(2) [OF o] d in simp_all)
    qed
  qed
qed

subsection \<open>Receiving data keeps it\<close>

lemma lru_present: "lru_lawful l \<Longrightarrow> lru_has l (lru_set l k c) k"
  unfolding lru_lawful_def by blast

lemma lru_gone: "lru_lawful l \<Longrightarrow> \<not> lru_has l (lru_del l k c) k"
  unfolding lru_lawful_def by blast

lemma lru_aged: "lru_lawful l \<Longrightarrow> lru_has l (lru_age l t c) k \<Longrightarrow> lru_has l c k"
  unfolding lru_lawful_def by blast

lemma node_record_fields [simp]:
  "n_streams (fst (node_record env k s)) = n_streams s" "n_buffer (fst (node_record env k s)) = n_buffer s"
  "n_seen (fst (node_record env k s)) = n_seen s" "n_out (fst (node_record env k s)) = n_out s"
  "n_book (fst (node_record env k s)) = n_book s" "n_retry (fst (node_record env k s)) = n_retry s"
  "n_failures (fst (node_record env k s)) = n_failures s" "n_done (fst (node_record env k s)) = n_done s"
  "n_next (fst (node_record env k s)) = n_next s" "n_handlings (fst (node_record env k s)) = n_handlings s"
  by (simp_all add: node_record_def split: sum.split)

lemma once_record: "once env mid s \<Longrightarrow> once env mid (fst (node_record env k s))"
  by (rule once_change) (simp_all add: node_ok_record onceD(1))

lemma once_for_stream: "once env mid s \<Longrightarrow> once env mid (record_for_stream env k i s)"
  by (rule once_change) (simp_all add: onceD(1))

lemma once_manager:
  assumes "once env mid s" "\<not> removes_stream (stream_key (from_message mid)) c"
  shows "once env mid (s\<lparr>n_streams := manager_step (n_streams s) c\<rparr>)"
proof (rule once_change [OF assms(1)])
  note ok = onceD(1) [OF assms(1)]
  show "node_ok env (s\<lparr>n_streams := manager_step (n_streams s) c\<rparr>)"
    by (rule node_ok_streams [OF ok manager_ok_step [OF node_okD(2) [OF ok]]])
qed (use seen_number_step [OF node_okD(2) [OF onceD(1) [OF assms(1)]] _ assms(2)] in simp_all)

lemma once_propagate:
  assumes "once env mid s" "own_key mid msg"
    and "messageId msg = mid \<Longrightarrow> seen_number (n_streams s) mid \<and> propagations mid (n_out s) = 0"
  shows "once env mid (fst (propagateMessage env msg source s))"
proof (cases "snd (node_record env ''propagateMessage'' s)")
  case None
  let ?t = "record_for_stream env PropagateMessage (streamId (messageId msg)) (fst (node_record env ''propagateMessage'' s))"
  have "once env mid ?t" using assms(1) by (intro once_for_stream once_record)
  from once_relay [OF this assms(2)] assms(3) None show ?thesis by (simp add: propagateMessage_def and_then_def)
next
  case (Some e)
  then show ?thesis using once_record [OF assms(1)] by (simp add: propagateMessage_def and_then_def)
qed

lemma once_ignore:
  "once env mid s \<Longrightarrow> once env mid (fst (and_then (node_record env k s) (\<lambda>t. (record_for_stream env m i t, None))))"
  by (rule and_then_inv [where P = "once env mid"]) (simp_all add: once_record once_for_stream)

lemma once_check:
  assumes o: "once env mid s" and good: "own_key mid msg" and up: "isSetUp (n_streams s) (message_stream msg)"
  shows "once env mid (fst (checkAndPropagate env msg source s))"
proof -
  let ?r = "markNumbersAndCheckThatIsNotDuplicate (n_streams s) (messageId msg) (prevMsgRef msg)"
  let ?s = "s\<lparr>n_streams := fst ?r\<rparr>"
  note ok = node_okD(2) [OF onceD(1) [OF o]]
  have up': "has_key (n_streams s) (stream_key (from_message (messageId msg)))" using up by (simp add: isSetUp_def)
  have o1: "once env mid ?s" using once_manager [OF o, of "Mark (messageId msg) (prevMsgRef msg)"] by simp
  then have o2: "once env mid (emits (UnseenMessageReceived msg source) ?s)" by (rule once_emit) simp_all
  have new: "seen_number (fst ?r) mid \<and> propagations mid (n_out s) = 0" if "messageId msg = mid" "snd ?r = Inr True"
  proof -
    have "\<not> seen_number (n_streams s) mid" using seen_number_not_new [OF ok] up' that by blast
    then have "propagations mid (n_out s) \<noteq> 1" using onceD(7) [OF o] by blast
    then show ?thesis using marked_seen [OF ok up' that(2)] that(1) onceD(5) [OF o] by simp
  qed
  have old: "seen_number (fst ?r) mid \<and> propagations mid (n_out s) = 0"
    if "messageId msg = mid" "seen_has (ne_lru env) msg (n_seen s)"
  proof -
    have has: "lru_has (ne_lru env) (n_seen s) (messageIdToStr mid)" using that by (simp add: seen_has_def)
    then have "propagations mid (n_out s) \<noteq> 1" using onceD(6) [OF o] by blast
    moreover have "seen_number (fst ?r) mid" using onceD(8) [OF o1] has by simp
    ultimately show ?thesis using onceD(5) [OF o] by simp
  qed
  have p1: "once env mid (fst (propagateMessage env msg source (emits (UnseenMessageReceived msg source) ?s)))"
    if "snd ?r = Inr True"
  proof (rule once_propagate [OF o2 good])
    assume "messageId msg = mid"
    from new [OF this that] show "seen_number (n_streams (emits (UnseenMessageReceived msg source) ?s)) mid \<and>
        propagations mid (n_out (emits (UnseenMessageReceived msg source) ?s)) = 0" by simp
  qed
  have p2: "once env mid (fst (propagateMessage env msg source ?s))" if "seen_has (ne_lru env) msg (n_seen s)"
  proof (rule once_propagate [OF o1 good])
    assume "messageId msg = mid"
    from old [OF this that] show "seen_number (n_streams ?s) mid \<and> propagations mid (n_out ?s) = 0" by simp
  qed
  show ?thesis
    unfolding checkAndPropagate_def Let_def
    using p1 p2 o1 by (auto intro: once_record once_ignore split: sum.split manager_error.split detector_error.split)
qed

lemma subscribe_sets_up:
  "snd (subscribeToStreamIfHaveNotYet env st b s) = None \<Longrightarrow>
   isSetUp (n_streams (fst (subscribeToStreamIfHaveNotYet env st b s))) st"
  by (auto simp: subscribeToStreamIfHaveNotYet_def on_manager_def setUpStream_def isSetUp_def
      prepareAndSendStreamStatus_def split: option.split)

lemma once_status: "once env mid s \<Longrightarrow> once env mid (prepareAndSendStreamStatus env st s)"
  unfolding prepareAndSendStreamStatus_def by (auto intro: once_emit split: option.split)

lemma once_subscribe:
  assumes "once env mid s"
  shows "once env mid (fst (subscribeToStreamIfHaveNotYet env st b s))"
proof -
  have "once env mid (fst (on_manager (\<lambda>m. setUpStream m st) s))"
    using once_manager [OF assms, of "SetUp st"] assms by (auto simp: on_manager_def split: sum.split)
  then show ?thesis
    unfolding subscribeToStreamIfHaveNotYet_def using assms
    by (auto intro!: and_then_inv [where P = "once env mid"] once_status)
qed

lemma once_set_up_check:
  assumes "once env mid s" "own_key mid msg"
  shows "once env mid (fst (and_then (subscribeToStreamIfHaveNotYet env (message_stream msg) True s) (checkAndPropagate env msg source)))"
proof (cases "subscribeToStreamIfHaveNotYet env (message_stream msg) True s")
  case (Pair t e)
  note o = once_subscribe [OF assms(1), of "message_stream msg" True, unfolded Pair fst_conv]
  show ?thesis
  proof (cases e)
    case None
    then have "isSetUp (n_streams t) (message_stream msg)"
      using subscribe_sets_up [of env "message_stream msg" True s] by (simp add: Pair)
    from once_check [OF o assms(2) this] show ?thesis unfolding Pair None and_then_simps .
  next
    case (Some x)
    then show ?thesis unfolding Pair Some and_then_simps using o by simp
  qed
qed

lemma once_received:
  "once env mid s \<Longrightarrow> once env mid (emits (MessageReceived msg source) (record_for_stream env k i s))"
  by (rule once_emit [OF once_for_stream]) simp_all

lemma once_data:
  assumes "once env mid s" "own_key mid msg"
  shows "once env mid (fst (onDataReceived env msg source s))"
  unfolding onDataReceived_def
  by (rule and_then_inv [where P = "once env mid"], rule once_record [OF assms(1)],
      rule once_set_up_check [OF once_received assms(2)], assumption)

interpretation relay_once: node_invariant env "\<lambda>st. st \<noteq> from_message mid" "own_key mid" "once env mid"
  for env :: "('c, 'r, 'v) node_env" and mid
proof
  fix s :: "('c, 'r, 'v) node" assume o: "once env mid s"
  note ok = onceD(1) [OF o]
  show "once env mid (fst (onDataReceived env msg source s))" if "own_key mid msg" for msg source
    by (rule once_data [OF o that])
  show "own_key mid msg" if "(msg, source) \<in> set (contents (n_buffer s) k)" for msg source k
    using onceD(3) [OF o that] .
  show "once env mid (emits e s)" if "\<not> data_effect e" for e
    using o that by (intro once_emit) simp_all
  show "once env mid (fst (node_record env name s))" "once env mid (record_for_stream env k sid s)" for name k sid
    using o by (simp_all add: once_record once_for_stream)
  show "once env mid (s\<lparr>n_streams := manager_step (n_streams s) c\<rparr>)"
    if "\<not> is_mark c" "\<And>st. c = RemoveStream st \<Longrightarrow> st \<noteq> from_message mid" for c
  proof (rule once_manager [OF o])
    show "\<not> removes_stream (stream_key (from_message mid)) c"
      using that(2) stream_key_inj by (cases c) auto
  qed
  show "once env mid (s\<lparr>n_buffer := buffer_step (ne_bufferMaxSize env) (n_buffer s) b\<rparr>)" if "\<not> is_put b" for b
    by (rule once_change [OF o nodes.buffered [OF ok that]])
      (use contents_step [OF node_okD(3,1) [OF ok] that] in simp_all)
  show "once env mid (s\<lparr>n_seen := lru_age (ne_lru env) t (n_seen s)\<rparr>)" for t
    by (rule once_change [OF o nodes.aged [OF ok]]) (simp_all add: lru_aged [OF onceD(2) [OF o]])
  show "once env mid (s\<lparr>n_throttler := throttler_step (n_throttler s) te\<rparr>)" for te
    by (rule once_change [OF o nodes.throttle [OF ok]]) simp_all
  show "once env mid (s\<lparr>n_retry := retry_step (n_retry s) re\<rparr>)" for re
    by (rule once_change [OF o nodes.retry [OF ok]]) simp_all
  show "once env mid (s\<lparr>n_book := bk\<rparr>)" for bk by (rule once_change [OF o nodes.book [OF ok]]) simp_all
  show "once env mid (s\<lparr>n_failures := fs\<rparr>)" for fs by (rule once_change [OF o nodes.failures [OF ok]]) simp_all
  show "once env mid (s\<lparr>n_done := ds\<rparr>)" for ds by (rule once_change [OF o nodes.handled_calls [OF ok]]) simp_all
  show "once env mid (s\<lparr>n_rtts := rt\<rparr>)" for rt by (rule once_change [OF o nodes.rtts [OF ok]]) simp_all
  show "once env mid (forgetDisconnectionTimer i n s)"
    if "map_of (n_disc s) n = Some i \<or> map_of (n_disc_armed s) i = Some n" for n i
    by (rule once_change [OF o nodes.forget_timer [OF ok that]]) (simp_all add: forgetDisconnectionTimer_def)
  show "once env mid (armDisconnectionTimer n s)" if "map_of (n_disc s) n = None" for n
    by (rule once_change [OF o nodes.arm_timer [OF ok that]]) (simp_all add: armDisconnectionTimer_def)
  show "once env mid (s\<lparr>n_disc_armed := filter Q (n_disc_armed s)\<rparr>)" for Q
    by (rule once_change [OF o nodes.stop_timers [OF ok]]) simp_all
  show "once env mid (s\<lparr>n_handlings := hs, n_next := k'\<rparr>)" if "n_next s \<le> k'" for hs k'
    by (rule once_change [OF o nodes.handlings [OF ok that]]) simp_all
qed

lemma once_new:
  assumes "1 < ne_bufferMaxSize env" "lru_lawful (ne_lru env)" "\<not> lru_has (ne_lru env) c (messageIdToStr mid)"
  shows "once env mid (new_node env c)"
  using node_ok_new [OF assms(1)] assms
  by (simp add: once_def new_node_def new_buffer_def contents_def deliveries_def propagations_def)

subsection \<open>What receiving a message does\<close>

lemma outbound_set_up:
  "isSetUp m st \<Longrightarrow> \<exists>outs. getOutboundNodesForStream m st = Inr outs"
  by (auto simp: isSetUp_def getOutboundNodesForStream_def verifyThatIsSetUp_def)

lemma mark_set_up:
  "isSetUp m st \<Longrightarrow> isSetUp (fst (markNumbersAndCheckThatIsNotDuplicate m i p)) st"
  by (simp add: isSetUp_def markNumbersAndCheckThatIsNotDuplicate_def verifyThatIsSetUp_def Let_def case_prod_beta split: option.split)

lemma mark_outbound [simp]:
  "getOutboundNodesForStream (fst (markNumbersAndCheckThatIsNotDuplicate m i p)) st = getOutboundNodesForStream m st"
  by (auto simp: getOutboundNodesForStream_def markNumbersAndCheckThatIsNotDuplicate_def verifyThatIsSetUp_def Let_def
      case_prod_beta dest: stream_key_inj split: option.splits)

text \<open>Where a message goes when the stream's outbound neighbours are \<open>outs\<close>.\<close>

definition targets :: "string list \<Rightarrow> string option \<Rightarrow> string list" where
  "targets outs source = filter (\<lambda>n. Some n \<noteq> source) outs"

definition relayed :: "string list \<Rightarrow> stream_message \<Rightarrow> node_effect list" where
  "relayed ns msg = (if ns = [] then [] else map (\<lambda>n. SendData n msg) ns @ [MessagePropagated msg])"

lemma relay_effect:
  assumes ok: "node_ok env s" and outs: "getOutboundNodesForStream (n_streams s) (message_stream msg) = Inr outs"
  shows "snd (relay env msg source s) = None" "n_out (fst (relay env msg source s)) = n_out s @ relayed (targets outs source) msg"
    "n_streams (fst (relay env msg source s)) = n_streams s"
    "targets outs source = [] \<Longrightarrow> n_seen (fst (relay env msg source s)) = seen_add (ne_lru env) msg (n_seen s)"
    "targets outs source = [] \<Longrightarrow> n_buffer (fst (relay env msg source s)) =
       fst (buffer_put (ne_bufferMaxSize env) (stream_key (message_stream msg)) (msg, source) (n_buffer s))"
    "targets outs source \<noteq> [] \<Longrightarrow> n_buffer (fst (relay env msg source s)) = n_buffer s"
    "targets outs source \<noteq> [] \<Longrightarrow> n_seen (fst (relay env msg source s)) = seen_delete (ne_lru env) msg (n_seen s)"
  using contents_put(2) [OF node_okD(3,1) [OF ok]]
  by (auto simp: relay_def outs Let_def targets_def [symmetric] relayed_def send_all)

lemma propagate_effect:
  assumes ok: "node_ok env s" and outs: "getOutboundNodesForStream (n_streams s) (message_stream msg) = Inr outs"
  shows "\<exists>t. propagateMessage env msg source s = relay env msg source t \<and> node_ok env t \<and> n_streams t = n_streams s \<and>
    n_seen t = n_seen s \<and> n_buffer t = n_buffer s \<and> n_out t = n_out s"
proof -
  obtain m where "node_record env ''propagateMessage'' s = (s\<lparr>n_metrics := m\<rparr>, None)" "metrics_ok (s\<lparr>n_metrics := m\<rparr>)"
    using node_record_effect [of "''propagateMessage''" s env] node_okD(7) [OF ok] by (auto simp: recorded_names_def)
  then show ?thesis
    using node_ok_metrics [OF ok] by (auto simp: propagateMessage_def intro!: exI)
qed

definition data_effects :: "stream_message \<Rightarrow> string option \<Rightarrow> bool \<Rightarrow> bool \<Rightarrow> string list \<Rightarrow> node_effect list" where
  "data_effects msg source isUnseen again ns =
     (if isUnseen then [UnseenMessageReceived msg source] else []) @ (if isUnseen \<or> again then relayed ns msg else [])"

lemma check_effect:
  assumes ok: "node_ok env s" and outs: "getOutboundNodesForStream (n_streams s) (message_stream msg) = Inr outs"
    and verdict: "snd (markNumbersAndCheckThatIsNotDuplicate (n_streams s) (messageId msg) (prevMsgRef msg)) = Inr isUnseen"
  shows "snd (checkAndPropagate env msg source s) = None \<and>
    n_out (fst (checkAndPropagate env msg source s)) =
      n_out s @ data_effects msg source isUnseen (seen_has (ne_lru env) msg (n_seen s)) (targets outs source) \<and>
    n_streams (fst (checkAndPropagate env msg source s)) =
      fst (markNumbersAndCheckThatIsNotDuplicate (n_streams s) (messageId msg) (prevMsgRef msg)) \<and>
    ((isUnseen \<or> seen_has (ne_lru env) msg (n_seen s)) \<and> targets outs source \<noteq> [] \<longrightarrow>
       n_seen (fst (checkAndPropagate env msg source s)) = seen_delete (ne_lru env) msg (n_seen s) \<and>
       n_buffer (fst (checkAndPropagate env msg source s)) = n_buffer s) \<and>
    ((isUnseen \<or> seen_has (ne_lru env) msg (n_seen s)) \<and> targets outs source = [] \<longrightarrow>
       n_seen (fst (checkAndPropagate env msg source s)) = seen_add (ne_lru env) msg (n_seen s) \<and>
       n_buffer (fst (checkAndPropagate env msg source s)) =
         fst (buffer_put (ne_bufferMaxSize env) (stream_key (message_stream msg)) (msg, source) (n_buffer s)))"
proof -
  define s1 where "s1 = s\<lparr>n_streams := fst (markNumbersAndCheckThatIsNotDuplicate (n_streams s) (messageId msg) (prevMsgRef msg))\<rparr>"
  define s2 where "s2 = (if isUnseen then emits (UnseenMessageReceived msg source) s1 else s1)"
  have ok1: "node_ok env s1"
    unfolding s1_def by (rule node_ok_streams [OF ok manager_ok_mark [OF node_okD(2) [OF ok]]])
  then have ok2: "node_ok env s2" by (simp add: s2_def)
  have fields: "n_seen s2 = n_seen s" "n_buffer s2 = n_buffer s"
    "n_out s2 = n_out s @ (if isUnseen then [UnseenMessageReceived msg source] else [])"
    "n_streams s2 = fst (markNumbersAndCheckThatIsNotDuplicate (n_streams s) (messageId msg) (prevMsgRef msg))"
    "getOutboundNodesForStream (n_streams s2) (message_stream msg) = Inr outs"
    using outs by (simp_all add: s2_def s1_def)
  have eq: "checkAndPropagate env msg source s =
      (if isUnseen \<or> seen_has (ne_lru env) msg (n_seen s) then propagateMessage env msg source s2
       else and_then (node_record env ''onDataReceived:ignoredDuplicate'' s2)
         (\<lambda>s3. (record_for_stream env IgnoredDuplicate (streamId (messageId msg)) s3, None)))"
    using fields(1) unfolding checkAndPropagate_def Let_def verdict by (simp add: s1_def s2_def)
  show ?thesis
  proof (cases "isUnseen \<or> seen_has (ne_lru env) msg (n_seen s)")
    case True
    obtain t where t: "propagateMessage env msg source s2 = relay env msg source t" "node_ok env t"
      "n_streams t = n_streams s2" "n_seen t = n_seen s2" "n_buffer t = n_buffer s2" "n_out t = n_out s2"
      using propagate_effect [OF ok2 fields(5)] by blast
    have "getOutboundNodesForStream (n_streams t) (message_stream msg) = Inr outs" using fields(5) t(3) by simp
    from relay_effect [OF t(2) this, of source] show ?thesis
      using True by (simp add: eq t fields data_effects_def)
  next
    case False
    obtain m where "node_record env ''onDataReceived:ignoredDuplicate'' s2 = (s2\<lparr>n_metrics := m\<rparr>, None)"
      using node_record_effect [of "''onDataReceived:ignoredDuplicate''" s2 env] node_okD(7) [OF ok2]
      by (auto simp: recorded_names_def)
    then show ?thesis using False by (simp add: eq fields data_effects_def)
  qed
qed

text \<open>Up to the check: the metrics, the first event, the stream set up.\<close>

lemma data_start:
  assumes ok: "node_ok env s"
  obtains t where "onDataReceived env msg source s = checkAndPropagate env msg source t" "node_ok env t"
    "isSetUp (n_streams t) (message_stream msg)" "n_seen t = n_seen s" "n_buffer t = n_buffer s"
    "isSetUp (n_streams s) (message_stream msg) \<Longrightarrow> n_streams t = n_streams s \<and> n_out t = n_out s @ [MessageReceived msg source]"
    "\<not> isSetUp (n_streams s) (message_stream msg) \<Longrightarrow>
       n_streams t = AList.update (stream_key (message_stream msg)) new_stream_state (n_streams s)"
proof -
  obtain m where m: "node_record env ''onDataReceived'' s = (s\<lparr>n_metrics := m\<rparr>, None)" "metrics_ok (s\<lparr>n_metrics := m\<rparr>)"
    using node_record_effect [of "''onDataReceived''" s env] node_okD(7) [OF ok] by (auto simp: recorded_names_def)
  define u where "u = emits (MessageReceived msg source) (record_for_stream env OnDataReceived (streamId (messageId msg)) (s\<lparr>n_metrics := m\<rparr>))"
  have u: "node_ok env u" "n_streams u = n_streams s" "n_seen u = n_seen s" "n_buffer u = n_buffer s"
    "n_out u = n_out s @ [MessageReceived msg source]"
    using node_ok_metrics [OF ok m(2)] by (simp_all add: u_def)
  have "snd (subscribeToStreamIfHaveNotYet env (message_stream msg) True u) = None"
    by (simp add: subscribeToStreamIfHaveNotYet_def on_manager_def setUpStream_def)
  then obtain t where t: "subscribeToStreamIfHaveNotYet env (message_stream msg) True u = (t, None)"
    by (cases "subscribeToStreamIfHaveNotYet env (message_stream msg) True u") auto
  have "node_ok env t" using nodes.subscribe_stream [OF u(1), of "message_stream msg" True] t by simp
  moreover have "isSetUp (n_streams t) (message_stream msg)" using subscribe_sets_up [of env "message_stream msg" True u] t by simp
  moreover have "n_seen t = n_seen s" "n_buffer t = n_buffer s"
    "isSetUp (n_streams s) (message_stream msg) \<Longrightarrow> n_streams t = n_streams s \<and> n_out t = n_out s @ [MessageReceived msg source]"
    "\<not> isSetUp (n_streams s) (message_stream msg) \<Longrightarrow>
       n_streams t = AList.update (stream_key (message_stream msg)) new_stream_state (n_streams s)"
    using t u(2-5)
    by (auto simp: subscribeToStreamIfHaveNotYet_def on_manager_def setUpStream_def prepareAndSendStreamStatus_def
        split: if_splits option.splits)
  moreover have "onDataReceived env msg source s = checkAndPropagate env msg source t"
    by (simp add: onDataReceived_def m(1) u_def [symmetric] t)
  ultimately show ?thesis using that by blast
qed

subsection \<open>The same message again\<close>

lemma markAndCheck_again:
  assumes d: "detector_ok d" and n: "is_number n" and new: "snd (markAndCheck d p n) = Inr True"
  shows "snd (markAndCheck (fst (markAndCheck d p n)) p n) = Inr False"
proof -
  let ?d = "fst (markAndCheck d p n)"
  have ok: "detector_ok ?d" by (rule detector_ok_markAndCheck [OF d n])
  have ne: "gaps ?d \<noteq> []" using det.marked_check [OF d n new] by blast
  show ?thesis
  proof (cases p)
    case None
    have "fst (last (gaps ?d)) = n"
    proof (cases "gaps d = []")
      case True
      then show ?thesis by (simp add: None markAndCheck_first)
    next
      case False
      then show ?thesis using new by (simp add: None markAndCheck_None split: if_splits)
    qed
    then show ?thesis using ne by (simp add: None markAndCheck_None)
  next
    case (Some q)
    have qn: "q < n" using new by (cases "n \<le> q") (auto simp: Some markAndCheck_invalid)
    have "{q<..n} \<inter> unseen (gaps ?d) = {}"
    proof (cases "gaps d = []")
      case True
      then have "gaps ?d = [(n, infinity_pair)]" using new by (rule markAndCheck_True_first)
      then show ?thesis by auto
    next
      case False
      then show ?thesis
        using markAndCheck_prev [OF d False qn n] new by (auto simp: Some split: prod.splits)
    qed
    then show ?thesis using markAndCheck_disjoint [OF ok ne qn n] by (simp add: Some)
  qed
qed

lemma verdict_again:
  assumes ok: "manager_ok m" and up: "has_key m (stream_key (from_message mid))"
    and new: "snd (markNumbersAndCheckThatIsNotDuplicate m mid p) = Inr True"
    and up': "has_key m' (stream_key (from_message mid))"
    and same: "chain_detector m' (stream_key (from_message mid)) (keyForDetector mid) =
      chain_detector (fst (markNumbersAndCheckThatIsNotDuplicate m mid p)) (stream_key (from_message mid)) (keyForDetector mid)"
  shows "snd (markNumbersAndCheckThatIsNotDuplicate m' mid p) = Inr False"
proof -
  let ?d = "chain_detector m (stream_key (from_message mid)) (keyForDetector mid)"
  have c: "in_chain (stream_key (from_message mid)) (keyForDetector mid) mid" by (simp add: in_chain_def)
  have "snd (markAndCheck ?d (map_option ref_number p) (message_number mid)) = Inr True"
    using mark_in_chain(1) [OF c up, of p] new by (auto simp: lift_verdict_def split: sum.splits)
  from markAndCheck_again [OF chain_detector_ok [OF ok] is_number_message this] show ?thesis
    using mark_in_chain(1) [OF c up', of p] mark_in_chain(2) [OF c up, of p] same by (simp add: lift_verdict_def)
qed

lemma contents_put_new:
  assumes "buffer_ok n b" "1 < n" "contents b k = []"
  shows "contents (fst (buffer_put n k m b)) k = [m]"
proof -
  obtain t where t: "buffer_put n k m b = (t, None)" "buffer_ok n t"
    "entries t = (entries b)(k := (if length (entries b k) < n then entries b k else tl (entries b k)) @ [(next_ref b, m)])"
    using put_effect [OF assms(1,2)] by blast
  have "entries b k = []" using assms(3) by (simp add: entries_def)
  then show ?thesis using entries_contents [OF t(2), of k] t assms(2) by simp
qed

text \<open>A new neighbour of a stream whose buffer holds one message.\<close>

lemma neighbour_added:
  assumes ok: "node_ok env s" and up: "isSetUp (n_streams s) st" and outs: "getOutboundNodesForStream (n_streams s) st = Inr outs"
  obtains u where "node_ok env u" "n_buffer u = fst (buffer_popAll (stream_key st) (n_buffer s))" "n_seen u = n_seen s"
    "n_out u = n_out s" "getOutboundNodesForStream (n_streams u) st = Inr (set_add n outs)" "isSetUp (n_streams u) st"
    "\<And>sk dk. chain_detector (n_streams u) sk dk = chain_detector (n_streams s) sk dk"
    "subscribeToStreamOnNode env n st False s =
       and_then (for_each (\<lambda>(msg, source). onDataReceived env msg source) (contents (n_buffer s) (stream_key st)) u)
         (\<lambda>v. (emits (NodeSubscribed n st) v, None))"
proof -
  obtain x where x: "map_of (n_streams s) (stream_key st) = Some x" using up by (auto simp: isSetUp_def)
  have xo: "outboundNodes x = outs" using outs x by (simp add: getOutboundNodesForStream_def verifyThatIsSetUp_def)
  let ?m1 = "AList.update (stream_key st) (x\<lparr>inboundNodes := set_add n (inboundNodes x)\<rparr>) (n_streams s)"
  let ?m2 = "AList.update (stream_key st) (x\<lparr>inboundNodes := set_add n (inboundNodes x), outboundNodes := set_add n outs\<rparr>) ?m1"
  let ?u = "s\<lparr>n_streams := ?m2, n_buffer := fst (buffer_popAll (stream_key st) (n_buffer s))\<rparr>"
  have m1: "manager_step (n_streams s) (AddInbound st n) = ?m1" by (simp add: addInboundNode_def verifyThatIsSetUp_def x)
  have m2: "manager_step ?m1 (AddOutbound st n) = ?m2" by (simp add: addOutboundNode_def verifyThatIsSetUp_def xo)
  have "manager_ok ?m2" using manager_ok_step manager_ok_step [OF node_okD(2) [OF ok]] m1 m2 by metis
  moreover have "snd (buffer_popAll (stream_key st) (n_buffer s)) = contents (n_buffer s) (stream_key st)"
    by (simp add: buffer_popAll_def contents_def split: option.split)
  ultimately show ?thesis
  proof (intro that [of ?u])
    show "node_ok env ?u" if "manager_ok ?m2"
      using node_ok_buffer [OF node_ok_streams [OF ok that] popAll_effect(1) [OF node_okD(3) [OF ok]]] by simp
    show "chain_detector (n_streams ?u) sk dk = chain_detector (n_streams s) sk dk" for sk dk
      using step_off_chain [of "AddInbound st n" sk dk "n_streams s"] step_off_chain [of "AddOutbound st n" sk dk ?m1] m1 m2 by simp
    show "subscribeToStreamOnNode env n st False s =
       and_then (for_each (\<lambda>(msg, source). onDataReceived env msg source) (contents (n_buffer s) (stream_key st)) ?u)
         (\<lambda>v. (emits (NodeSubscribed n st) v, None))"
      if "snd (buffer_popAll (stream_key st) (n_buffer s)) = contents (n_buffer s) (stream_key st)"
      using that
      by (simp add: subscribeToStreamOnNode_def on_manager_def addInboundNode_def addOutboundNode_def verifyThatIsSetUp_def x xo
          handleBufferedMessages_def Let_def)
  qed (simp_all add: getOutboundNodesForStream_def verifyThatIsSetUp_def isSetUp_def)
qed

subsection \<open>What the node promises its neighbours\<close>

definition example_lru :: "nat \<Rightarrow> string list lru_cache" where
  "example_lru k = \<lparr>lru_set = (\<lambda>x c. x # take k (removeAll x c)), lru_del = removeAll, lru_has = (\<lambda>c x. x \<in> set c),
     lru_length = length, lru_age = (\<lambda>t c. take (length c - t) c)\<rparr>"

lemma example_lru_lawful: "lru_lawful (example_lru k)"
  by (auto simp: lru_lawful_def example_lru_def dest: in_set_takeD)

definition example_env :: "(string list, int, int) node_env" where
  "example_env = \<lparr>ne_lru = example_lru 3, ne_speed = example_speedometer, ne_tracker = (\<lambda>_ _. ''ws://t''),
     ne_all_trackers = [''ws://t''], ne_resolve = (\<lambda>t. if t = ''t'' then Some ''ws://t'' else None), ne_bufferMaxSize = 2,
     ne_location = \<lparr>latitude = None, longitude = None, country = None, city = None\<rparr>, ne_storage = False\<rparr>"

definition example_message :: "int \<Rightarrow> message_ref option \<Rightarrow> stream_message" where
  "example_message t prev = \<lparr>messageId = example_id ''p'' ''c'' t, prevMsgRef = prev, payload = ''hello''\<rparr>"

text \<open>
  C4. Over every run of events of a node (data, instructions, connections that settle or
  fail, lost neighbours, timers, retries) in which the node does not unsubscribe from the
  message's stream and no other message has the same key in the set of seen messages, the
  message is propagated at most once and each neighbour is sent it at most once. (Unsubscribing
  makes the node forget what it has seen, so that the same data is propagated again.)
\<close>

theorem relayed_at_most_once:
  assumes "1 < ne_bufferMaxSize env" "lru_lawful (ne_lru env)" "\<not> lru_has (ne_lru env) c (messageIdToStr mid)"
    and "\<forall>e \<in> set es. event_legal (\<lambda>st. st \<noteq> from_message mid) (own_key mid) e"
  shows "propagations mid (n_out (foldl (node_step env) (new_node env c) es)) \<le> 1 \<and>
    deliveries mid n (n_out (foldl (node_step env) (new_node env c) es)) \<le> 1"
proof -
  have "once env mid (foldl (node_step env) (new_node env c) es)"
    using relay_once.node_run.run_inv [OF once_new [OF assms(1-3)] assms(4)] .
  from onceD(4) [OF this, of n] onceD(5) [OF this] show ?thesis by simp
qed

definition example_events :: "node_event list" where
  "example_events = [TrackerConnected ''t'', InstructionReceived ''t'' (example_instruction ''s'' 1 [''n'']),
     ConnectionSettled 0 0 True, DataReceived (example_message 1 None) None,
     DataReceived (example_message 1 None) (Some ''x'')]"

theorem relayed_at_most_once_witness:
  "let s = foldl (node_step example_env) (new_node example_env []) example_events
   in propagations (example_id ''p'' ''c'' 1) (n_out s) \<le> 1 \<and> deliveries (example_id ''p'' ''c'' 1) ''n'' (n_out s) \<le> 1"
  using relayed_at_most_once [of example_env "[]" "example_id ''p'' ''c'' 1" example_events "''n''"]
  by (simp add: example_env_def example_lru_lawful example_events_def own_key_def example_message_def)
     (simp add: example_lru_def)

text \<open>
  C5. What receiving a message does, on a stream that is set up: an unseen message, or one
  that was seen and is still to be propagated, is sent once to each outbound neighbour but
  the one it came from, in order; without such a neighbour it is put in the buffer and
  remembered; any other message is dropped. Nothing throws.
\<close>

theorem message_is_relayed:
  assumes ok: "node_ok env s" and up: "isSetUp (n_streams s) (message_stream msg)"
    and outs: "getOutboundNodesForStream (n_streams s) (message_stream msg) = Inr outs"
    and verdict: "snd (markNumbersAndCheckThatIsNotDuplicate (n_streams s) (messageId msg) (prevMsgRef msg)) = Inr isUnseen"
  shows "let r = onDataReceived env msg source s; again = seen_has (ne_lru env) msg (n_seen s) in
    snd r = None \<and>
    n_out (fst r) = n_out s @ [MessageReceived msg source] @ data_effects msg source isUnseen again (targets outs source) \<and>
    ((isUnseen \<or> again) \<and> targets outs source = [] \<longrightarrow>
       n_seen (fst r) = seen_add (ne_lru env) msg (n_seen s) \<and>
       n_buffer (fst r) = fst (buffer_put (ne_bufferMaxSize env) (stream_key (message_stream msg)) (msg, source) (n_buffer s)))"
proof -
  obtain t where t: "onDataReceived env msg source s = checkAndPropagate env msg source t" "node_ok env t"
    "n_seen t = n_seen s" "n_buffer t = n_buffer s" "n_streams t = n_streams s"
    "n_out t = n_out s @ [MessageReceived msg source]"
    using data_start [OF ok, of msg source] up by metis
  have "getOutboundNodesForStream (n_streams t) (message_stream msg) = Inr outs" using outs t(5) by simp
  from check_effect [OF t(2) this, of isUnseen source] verdict show ?thesis
    unfolding t(1) Let_def by (simp add: t(3-6))
qed

definition example_node :: "string list \<Rightarrow> (string list, int, int) node" where
  "example_node outs = (new_node example_env [])
     \<lparr>n_streams := [(stream_key example_stream, new_stream_state\<lparr>outboundNodes := outs\<rparr>)]\<rparr>"

lemma example_node_ok: "distinct outs \<Longrightarrow> node_ok example_env (example_node outs)"
  unfolding example_node_def
  by (rule node_ok_streams [OF node_ok_new])
    (auto simp: example_env_def manager_ok_def stream_ok_def new_stream_state_def dict_all_def)

lemma example_node_stream:
  "isSetUp (n_streams (example_node outs)) (message_stream (example_message t p))"
  "getOutboundNodesForStream (n_streams (example_node outs)) (message_stream (example_message t p)) = Inr outs"
  by (simp_all add: example_node_def isSetUp_def getOutboundNodesForStream_def verifyThatIsSetUp_def example_stream_def
      example_message_def example_id_def from_message_def)

lemma example_node_verdict:
  "snd (markNumbersAndCheckThatIsNotDuplicate (n_streams (example_node outs)) (messageId (example_message t None)) None) = Inr True"
  using example_node_stream(1) [of outs t None]
  by (simp add: markNumbersAndCheckThatIsNotDuplicate_def verifyThatIsSetUp_def isSetUp_def example_node_def
      new_stream_state_def markAndCheck_def new_detector_def example_message_def example_stream_def example_id_def
      from_message_def Let_def)

theorem message_is_relayed_witness:
  "n_out (fst (onDataReceived example_env (example_message 1 None) (Some ''a'') (example_node [''a'', ''b'']))) =
     [MessageReceived (example_message 1 None) (Some ''a''), UnseenMessageReceived (example_message 1 None) (Some ''a''),
      SendData ''b'' (example_message 1 None), MessagePropagated (example_message 1 None)]"
proof -
  have p: "prevMsgRef (example_message 1 None) = None" by (simp add: example_message_def)
  have "n_out (example_node [''a'', ''b'']) = []" by (simp add: example_node_def new_node_def)
  then show ?thesis
    using message_is_relayed [OF example_node_ok example_node_stream, of "[''a'', ''b'']" 1 None True "Some ''a''"]
      example_node_verdict [of "[''a'', ''b'']" 1]
    by (simp add: Let_def p data_effects_def targets_def relayed_def)
qed

text \<open>The node after a message that found no neighbour, and the message when it is tried again.\<close>

lemma message_waits:
  assumes ok: "node_ok env s" and up: "isSetUp (n_streams s) (message_stream msg)"
    and outs: "getOutboundNodesForStream (n_streams s) (message_stream msg) = Inr outs" "targets outs source = []"
    and empty: "contents (n_buffer s) (stream_key (message_stream msg)) = []"
    and new: "snd (markNumbersAndCheckThatIsNotDuplicate (n_streams s) (messageId msg) (prevMsgRef msg)) = Inr True"
  defines "t \<equiv> fst (onDataReceived env msg source s)"
  shows "node_ok env t" "isSetUp (n_streams t) (message_stream msg)" "n_seen t = seen_add (ne_lru env) msg (n_seen s)"
    "n_streams t = fst (markNumbersAndCheckThatIsNotDuplicate (n_streams s) (messageId msg) (prevMsgRef msg))"
    "getOutboundNodesForStream (n_streams t) (message_stream msg) = Inr outs"
    "contents (n_buffer t) (stream_key (message_stream msg)) = [(msg, source)]"
proof -
  obtain t0 where t0: "onDataReceived env msg source s = checkAndPropagate env msg source t0" "node_ok env t0"
    "n_seen t0 = n_seen s" "n_buffer t0 = n_buffer s" "n_streams t0 = n_streams s"
    using data_start [OF ok, of msg source] up by metis
  have outs0: "getOutboundNodesForStream (n_streams t0) (message_stream msg) = Inr outs" using outs(1) t0(5) by simp
  have t: "n_buffer t = fst (buffer_put (ne_bufferMaxSize env) (stream_key (message_stream msg)) (msg, source) (n_buffer s))"
    and "n_seen t = seen_add (ne_lru env) msg (n_seen s)"
    and streams: "n_streams t = fst (markNumbersAndCheckThatIsNotDuplicate (n_streams s) (messageId msg) (prevMsgRef msg))"
    using check_effect [OF t0(2) outs0, of True source] new outs(2) unfolding t_def t0(1) by (simp_all add: t0(3-5))
  then show "n_seen t = seen_add (ne_lru env) msg (n_seen s)"
    "n_streams t = fst (markNumbersAndCheckThatIsNotDuplicate (n_streams s) (messageId msg) (prevMsgRef msg))" by simp_all
  show "node_ok env t" using node_ok_data [OF ok] by (simp add: t_def)
  show "isSetUp (n_streams t) (message_stream msg)" using mark_set_up [OF up] by (simp add: streams)
  show "getOutboundNodesForStream (n_streams t) (message_stream msg) = Inr outs" using outs(1) by (simp add: streams)
  show "contents (n_buffer t) (stream_key (message_stream msg)) = [(msg, source)]"
    using contents_put_new [OF node_okD(3,1) [OF ok] empty] by (simp add: t)
qed

lemma waiting_message_relayed:
  assumes ok: "node_ok env u" and up: "isSetUp (n_streams u) (message_stream msg)"
    and outs: "getOutboundNodesForStream (n_streams u) (message_stream msg) = Inr outs"
    and old: "snd (markNumbersAndCheckThatIsNotDuplicate (n_streams u) (messageId msg) (prevMsgRef msg)) = Inr False"
    and seen: "seen_has (ne_lru env) msg (n_seen u)"
  shows "\<exists>w. onDataReceived env msg source u = (w, None) \<and>
    n_buffer w = (if targets outs source = [] then fst (buffer_put (ne_bufferMaxSize env) (stream_key (message_stream msg)) (msg, source) (n_buffer u))
      else n_buffer u) \<and>
    n_seen w = (if targets outs source = [] then seen_add (ne_lru env) msg (n_seen u) else seen_delete (ne_lru env) msg (n_seen u)) \<and>
    n_out w = n_out u @ [MessageReceived msg source] @ relayed (targets outs source) msg"
proof -
  obtain v where v: "onDataReceived env msg source u = checkAndPropagate env msg source v" "node_ok env v"
    "n_seen v = n_seen u" "n_buffer v = n_buffer u" "n_streams v = n_streams u"
    "n_out v = n_out u @ [MessageReceived msg source]"
    using data_start [OF ok, of msg source] up by metis
  note c = check_effect [OF v(2) outs [folded v(5)] old [folded v(5)], of source]
  obtain w where w: "checkAndPropagate env msg source v = (w, None)"
    using c by (cases "checkAndPropagate env msg source v") auto
  have "n_out w = n_out u @ [MessageReceived msg source] @ relayed (targets outs source) msg"
    using c seen by (simp add: w data_effects_def v(3,6))
  moreover have "n_seen w = (if targets outs source = [] then seen_add (ne_lru env) msg (n_seen u) else seen_delete (ne_lru env) msg (n_seen u))"
    "n_buffer w = (if targets outs source = [] then fst (buffer_put (ne_bufferMaxSize env) (stream_key (message_stream msg)) (msg, source) (n_buffer u))
      else n_buffer u)"
    using c seen by (simp_all add: w v(3,4))
  ultimately show ?thesis using v(1) w by simp
qed

text \<open>
  C12. A message that found no neighbour, in an otherwise empty buffer of its stream, when the next
  thing is that a node is added to the stream, before the timer of the buffer fires. If the
  message did not come from that node it is sent to it, taken out of the buffer and no longer
  remembered. If it did come from there nothing is sent, and it is put back to wait for another
  node.
\<close>

theorem buffered_message_reaches_neighbour:
  assumes ok: "node_ok env s" and lawful: "lru_lawful (ne_lru env)"
    and up: "isSetUp (n_streams s) (message_stream msg)"
    and outs: "getOutboundNodesForStream (n_streams s) (message_stream msg) = Inr outs" "targets outs source = []"
    and empty: "contents (n_buffer s) (stream_key (message_stream msg)) = []"
    and new: "snd (markNumbersAndCheckThatIsNotDuplicate (n_streams s) (messageId msg) (prevMsgRef msg)) = Inr True"
  shows "let t = fst (onDataReceived env msg source s); r = subscribeToStreamOnNode env n (message_stream msg) False t in
    snd r = None \<and>
    n_out (fst r) = n_out t @ [MessageReceived msg source] @ relayed (targets (set_add n outs) source) msg @
      [NodeSubscribed n (message_stream msg)] \<and>
    (if source = Some n then targets (set_add n outs) source = [] \<and>
       contents (n_buffer (fst r)) (stream_key (message_stream msg)) = [(msg, source)] \<and> seen_has (ne_lru env) msg (n_seen (fst r))
     else n \<in> set (targets (set_add n outs) source) \<and>
       contents (n_buffer (fst r)) (stream_key (message_stream msg)) = [] \<and> \<not> seen_has (ne_lru env) msg (n_seen (fst r)))"
proof -
  let ?st = "message_stream msg" and ?k = "stream_key (message_stream msg)"
  define t where "t = fst (onDataReceived env msg source s)"
  note t = message_waits [OF ok up outs empty new, folded t_def]
  obtain u where u: "node_ok env u" "n_buffer u = fst (buffer_popAll ?k (n_buffer t))" "n_seen u = n_seen t"
    "n_out u = n_out t" "getOutboundNodesForStream (n_streams u) ?st = Inr (set_add n outs)" "isSetUp (n_streams u) ?st"
    "\<And>sk dk. chain_detector (n_streams u) sk dk = chain_detector (n_streams t) sk dk"
    "subscribeToStreamOnNode env n ?st False t =
       and_then (for_each (\<lambda>(msg, source). onDataReceived env msg source) (contents (n_buffer t) ?k) u)
         (\<lambda>v. (emits (NodeSubscribed n ?st) v, None))"
    using neighbour_added [OF t(1,2,5), of n] by blast
  have r: "subscribeToStreamOnNode env n ?st False t =
      and_then (onDataReceived env msg source u) (\<lambda>v. (emits (NodeSubscribed n ?st) v, None))"
    unfolding u(8) t(6) by (simp add: and_then_def split: option.split)
  have verdict: "snd (markNumbersAndCheckThatIsNotDuplicate (n_streams u) (messageId msg) (prevMsgRef msg)) = Inr False"
    by (rule verdict_again [OF node_okD(2) [OF ok] _ new]) (use up u(6,7) t(4) in \<open>simp_all add: isSetUp_def\<close>)
  have present: "seen_has (ne_lru env) msg (seen_add (ne_lru env) msg x)" for x
    by (simp add: seen_has_def seen_add_def lru_present [OF lawful])
  have gone: "\<not> seen_has (ne_lru env) msg (seen_delete (ne_lru env) msg x)" for x
    by (simp add: seen_has_def seen_delete_def lru_gone [OF lawful])
  have popped: "contents (n_buffer u) ?k = []"
    using popAll_effect(1,3) [OF node_okD(3) [OF t(1)], of ?k] u(2) entries_contents
    by (metis fun_upd_same list.simps(8))
  have "seen_has (ne_lru env) msg (n_seen u)" using present by (simp add: u(3) t(3))
  then obtain w where w: "onDataReceived env msg source u = (w, None)"
    "n_buffer w = (if targets (set_add n outs) source = [] then fst (buffer_put (ne_bufferMaxSize env) ?k (msg, source) (n_buffer u)) else n_buffer u)"
    "n_seen w = (if targets (set_add n outs) source = [] then seen_add (ne_lru env) msg (n_seen u) else seen_delete (ne_lru env) msg (n_seen u))"
    "n_out w = n_out t @ [MessageReceived msg source] @ relayed (targets (set_add n outs) source) msg"
    using waiting_message_relayed [OF u(1,6,5) verdict] u(4) by auto
  have "targets (set_add n outs) source = [] \<longleftrightarrow> source = Some n" "source \<noteq> Some n \<Longrightarrow> n \<in> set (targets (set_add n outs) source)"
    using outs(2) by (auto simp: targets_def filter_empty_conv)
  then show ?thesis
    unfolding Let_def t_def [symmetric] r w(1) and_then_simps
    using gone [of "n_seen u"] present [of "n_seen u"] popped w(2-4) contents_put_new [OF node_okD(3,1) [OF u(1)] popped, of "(msg, source)"]
    by (cases "source = Some n") simp_all
qed

theorem buffered_message_reaches_neighbour_witness:
  "SendData ''b'' (example_message 1 None) \<in> set (n_out (fst (subscribeToStreamOnNode example_env ''b''
     (message_stream (example_message 1 None)) False
     (fst (onDataReceived example_env (example_message 1 None) (Some ''a'') (example_node [''a'']))))))"
proof -
  have p: "prevMsgRef (example_message 1 None) = None" by (simp add: example_message_def)
  have "lru_lawful (ne_lru example_env)" by (simp add: example_env_def example_lru_lawful)
  moreover have "targets [''a''] (Some ''a'') = []" by (simp add: targets_def)
  moreover have "contents (n_buffer (example_node [''a''])) k = []" for k
    by (simp add: example_node_def new_node_def new_buffer_def contents_def)
  ultimately show ?thesis
    using buffered_message_reaches_neighbour [OF example_node_ok _ example_node_stream, of "[''a'']" "Some ''a''" 1 None "''b''"]
      example_node_verdict [of "[''a'']" 1]
    by (simp add: Let_def p targets_def relayed_def set_add_def)
qed

text \<open>
  A message whose predecessor is not before it makes the handler throw: it records a
  metric under a name (\<open>invalidNumber\<close>) that was never registered (\<open>invalidNumbering\<close> was).
\<close>

theorem invalid_numbering_throws:
  assumes "node_ok env s" "prevMsgRef msg = Some q" "message_number (messageId msg) \<le> ref_number q"
  shows "snd (onDataReceived env msg source s) =
    Some (MetricsError (NotARecordedMetric ''node.onDataReceived:invalidNumber''))"
proof -
  obtain t where t: "onDataReceived env msg source s = checkAndPropagate env msg source t" "node_ok env t"
    "isSetUp (n_streams t) (message_stream msg)"
    using data_start [OF assms(1), of msg source] by metis
  have "markAndCheck d (Some (ref_number q)) (message_number (messageId msg)) = (d, Inl InvalidNumberingError)" for d
    using assms(3) by (rule markAndCheck_invalid)
  then have verdict: "snd (markNumbersAndCheckThatIsNotDuplicate (n_streams t) (messageId msg) (prevMsgRef msg)) =
      Inl (DetectorError InvalidNumberingError)"
    using t(3) assms(2)
    by (auto simp: markNumbersAndCheckThatIsNotDuplicate_def verifyThatIsSetUp_def isSetUp_def Let_def)
  have "metrics_ok (t\<lparr>n_streams := x\<rparr>)" for x using node_okD(7) [OF t(2)] by (simp add: metrics_ok_def)
  from node_record_throws [OF _ this] show ?thesis
    unfolding t(1) checkAndPropagate_def Let_def verdict by (simp add: recorded_names_def)
qed

theorem invalid_numbering_throws_witness:
  "snd (onDataReceived example_env (example_message 1 (Some (1, 0))) None (example_node [''a''])) =
    Some (MetricsError (NotARecordedMetric ''node.onDataReceived:invalidNumber''))"
  by (rule invalid_numbering_throws [OF example_node_ok], simp, simp add: example_message_def, rule eq_refl)
    (simp add: example_message_def example_id_def message_number_def ref_number_def)

end
