(* ===== verification/NodeInstructions.thy ===== *)
theory NodeInstructions
  imports NodeRelay
begin

section \<open>The node carries out the instructions of its trackers\<close>

text \<open>
  From an instruction that reaches the node, through the throttler and the connections it asks
  for, to the neighbours the node ends up with and the status it reports; and what it does
  with instructions of a tracker that is not responsible for the stream.
\<close>

subsection \<open>What messages leave alone\<close>

text \<open>The nodes of a stream that is set up, the handlings and the tracker book.\<close>

definition stream_rep :: "('c, 'r, 'v) node \<Rightarrow> stream_id_and_partition \<Rightarrow> stream_state_representation option" where
  "stream_rep s st = map_option represent (map_of (n_streams s) (stream_key st))"

definition apart_from_data ::
  "('c, 'r, 'v) node_env \<Rightarrow> stream_id_and_partition \<Rightarrow> stream_state_representation \<Rightarrow> (nat \<times> instruction_handling) list \<Rightarrow>
   (string, string) dict \<Rightarrow> handling_source list \<Rightarrow> ('c, 'r, 'v) node \<Rightarrow> bool" where
  "apart_from_data env st r hs bk ds s \<longleftrightarrow>
     node_ok env s \<and> stream_rep s st = Some r \<and> n_handlings s = hs \<and> n_book s = bk \<and> n_done s = ds"

lemma apart_ok: "apart_from_data env st r hs bk ds s \<Longrightarrow> node_ok env s"
  by (simp add: apart_from_data_def)

lemma apart_record: "apart_from_data env st r hs bk ds s \<Longrightarrow> apart_from_data env st r hs bk ds (fst (node_record env k s))"
  using node_ok_record [of env s k] by (simp add: apart_from_data_def stream_rep_def)

lemma apart_emits: "apart_from_data env st r hs bk ds s \<Longrightarrow> apart_from_data env st r hs bk ds (emits e s)"
  by (simp add: apart_from_data_def stream_rep_def)

lemma apart_for_stream: "apart_from_data env st r hs bk ds s \<Longrightarrow> apart_from_data env st r hs bk ds (record_for_stream env k i s)"
  by (simp add: apart_from_data_def stream_rep_def)

lemma apart_subscribe:
  assumes "apart_from_data env st r hs bk ds s"
  shows "apart_from_data env st r hs bk ds (fst (subscribeToStreamIfHaveNotYet env st' b s))"
proof -
  have ok: "node_ok env (fst (subscribeToStreamIfHaveNotYet env st' b s))"
    by (rule nodes.subscribe_stream [OF apart_ok [OF assms]])
  show ?thesis
    using assms ok
    by (auto simp: apart_from_data_def stream_rep_def subscribeToStreamIfHaveNotYet_def on_manager_def setUpStream_def
        prepareAndSendStreamStatus_def isSetUp_def split: option.splits)
qed

lemma stream_rep_mark:
  "map_option represent (map_of (fst (markNumbersAndCheckThatIsNotDuplicate m i p)) k) = map_option represent (map_of m k)"
  by (auto simp: markNumbersAndCheckThatIsNotDuplicate_def verifyThatIsSetUp_def Let_def case_prod_beta represent_def
      split: option.splits)

lemma apart_relay:
  assumes "apart_from_data env st r hs bk ds s"
  shows "apart_from_data env st r hs bk ds (fst (relay env msg source s))"
proof -
  have ok: "node_ok env (fst (relay env msg source s))" by (rule node_ok_relay [OF apart_ok [OF assms]])
  have f: "n_handlings (foldl (\<lambda>s n. emits (SendData n msg) s) u ns) = n_handlings u"
    "n_book (foldl (\<lambda>s n. emits (SendData n msg) s) u ns) = n_book u"
    "n_done (foldl (\<lambda>s n. emits (SendData n msg) s) u ns) = n_done u" for u :: "('a, 'b, 'c) node" and ns
    by (induction ns arbitrary: u) auto
  show ?thesis
    using assms ok by (auto simp: apart_from_data_def stream_rep_def relay_def Let_def f split: sum.splits)
qed

lemma apart_check:
  assumes "apart_from_data env st r hs bk ds s"
  shows "apart_from_data env st r hs bk ds (fst (checkAndPropagate env msg source s))"
proof -
  let ?P = "apart_from_data env st r hs bk ds"
  let ?s = "s\<lparr>n_streams := fst (markNumbersAndCheckThatIsNotDuplicate (n_streams s) (messageId msg) (prevMsgRef msg))\<rparr>"
  have m: "?P ?s"
    using assms node_ok_streams [OF apart_ok [OF assms] manager_ok_mark [OF node_okD(2) [OF apart_ok [OF assms]]]]
    by (simp add: apart_from_data_def stream_rep_def stream_rep_mark)
  have p: "?P (fst (propagateMessage env msg source u))" if "?P u" for u
    unfolding propagateMessage_def
    by (rule and_then_inv [where P = ?P], rule apart_record [OF that], rule apart_relay, rule apart_for_stream, assumption)
  have i: "?P (fst (and_then (node_record env k u) (\<lambda>t. (record_for_stream env x y t, None))))" if "?P u" for k x y u
    by (rule and_then_inv [where P = ?P], rule apart_record [OF that]) (simp add: apart_for_stream)
  show ?thesis
    unfolding checkAndPropagate_def Let_def
    using m p [OF m] p [OF apart_emits [OF m]] i [OF m] apart_record [OF m]
    by (simp split: sum.split manager_error.split detector_error.split)
qed

lemma apart_data:
  assumes "apart_from_data env st r hs bk ds s"
  shows "apart_from_data env st r hs bk ds (fst (onDataReceived env msg source s))"
  unfolding onDataReceived_def
  by (rule and_then_inv [where P = "apart_from_data env st r hs bk ds"], rule apart_record [OF assms],
      rule and_then_inv [where P = "apart_from_data env st r hs bk ds"], rule apart_subscribe, rule apart_emits,
      rule apart_for_stream, assumption, rule apart_check, assumption)

lemma apart_buffered:
  assumes "apart_from_data env st r hs bk ds s"
  shows "apart_from_data env st r hs bk ds (fst (handleBufferedMessages env st' s))"
proof -
  have ok: "node_ok env (s\<lparr>n_buffer := fst (buffer_popAll k (n_buffer s))\<rparr>)" for k
    by (rule node_ok_buffer [OF apart_ok [OF assms] popAll_effect(1) [OF node_okD(3) [OF apart_ok [OF assms]]]])
  have b: "apart_from_data env st r hs bk ds (s\<lparr>n_buffer := fst (buffer_popAll k (n_buffer s))\<rparr>)" for k
    using assms ok [of k] by (simp add: apart_from_data_def stream_rep_def)
  show ?thesis
    unfolding handleBufferedMessages_def Let_def
    by (rule for_each_inv [where P = "apart_from_data env st r hs bk ds"])
      (simp_all add: b apart_data split: prod.split)
qed

subsection \<open>A neighbour is added, a neighbour is removed\<close>

definition add_both :: "string \<Rightarrow> stream_state_representation \<Rightarrow> stream_state_representation" where
  "add_both n r = r\<lparr>rep_inboundNodes := set_add n (rep_inboundNodes r), rep_outboundNodes := set_add n (rep_outboundNodes r)\<rparr>"

lemma subscribe_node_effect:
  assumes "node_ok env s" "stream_rep s st = Some r"
  shows "apart_from_data env st (add_both n r) (n_handlings s) (n_book s) (n_done s) (fst (subscribeToStreamOnNode env n st False s))"
proof -
  have up: "isSetUp (n_streams s) st" using assms(2) by (auto simp: stream_rep_def isSetUp_def)
  obtain x where x: "map_of (n_streams s) (stream_key st) = Some x" "r = represent x"
    using assms(2) by (auto simp: stream_rep_def)
  let ?m = "AList.update (stream_key st) (x\<lparr>inboundNodes := set_add n (inboundNodes x), outboundNodes := set_add n (outboundNodes x)\<rparr>)
      (AList.update (stream_key st) (x\<lparr>inboundNodes := set_add n (inboundNodes x)\<rparr>) (n_streams s))"
  let ?u = "s\<lparr>n_streams := ?m\<rparr>"
  have m: "manager_step (manager_step (n_streams s) (AddInbound st n)) (AddOutbound st n) = ?m"
    by (simp add: addInboundNode_def addOutboundNode_def verifyThatIsSetUp_def x)
  have "manager_ok ?m" using manager_ok_step [OF manager_ok_step [OF node_okD(2) [OF assms(1)]]] m by metis
  then have "apart_from_data env st (add_both n r) (n_handlings s) (n_book s) (n_done s) ?u"
    using node_ok_streams [OF assms(1)]
    by (simp add: apart_from_data_def stream_rep_def x add_both_def represent_def)
  from apart_buffered [OF this, of st] show ?thesis
    by (simp add: subscribeToStreamOnNode_def on_manager_def addInboundNode_def addOutboundNode_def verifyThatIsSetUp_def x
        and_then_def apart_emits split: option.split)
qed

lemma node_timer_fields [simp]:
  "stream_rep (clearDisconnectionTimer n s) st = stream_rep s st"
  "n_streams (clearDisconnectionTimer n s) = n_streams s" "n_handlings (clearDisconnectionTimer n s) = n_handlings s"
  "n_book (clearDisconnectionTimer n s) = n_book s" "n_done (clearDisconnectionTimer n s) = n_done s"
  "n_out (clearDisconnectionTimer n s) = n_out s" "n_next (clearDisconnectionTimer n s) = n_next s"
  "n_retry (clearDisconnectionTimer n s) = n_retry s" "n_throttler (clearDisconnectionTimer n s) = n_throttler s"
  by (simp_all add: stream_rep_def clearDisconnectionTimer_def forgetDisconnectionTimer_def split: option.split)

lemma unsubscribe_node_effect:
  assumes "map_of (n_streams s) (stream_key st) = Some x"
  shows "\<exists>t. unsubscribeFromStreamOnNode env n st False s = (t, None) \<and>
    n_streams t = AList.update (stream_key st) (without_node n x) (n_streams s) \<and> n_handlings t = n_handlings s \<and>
    n_book t = n_book s \<and> n_done t = n_done s \<and> n_next s \<le> n_next t"
  using assms
  by (simp add: unsubscribeFromStreamOnNode_def on_manager_def removeNodeFromStream_def verifyThatIsSetUp_def Let_def
      armDisconnectionTimer_def)

text \<open>Every neighbour of a list is removed.\<close>

lemma unsubscribe_all:
  assumes "node_ok env s" "map_of (n_streams s) (stream_key st) = Some x"
  shows "\<exists>t y. for_each (\<lambda>n. unsubscribeFromStreamOnNode env n st False) ns s = (t, None) \<and> node_ok env t \<and>
    map_of (n_streams t) (stream_key st) = Some y \<and>
    set (inboundNodes y) = set (inboundNodes x) - set ns \<and> set (outboundNodes y) = set (outboundNodes x) - set ns \<and>
    n_handlings t = n_handlings s \<and> n_book t = n_book s \<and> n_done t = n_done s \<and> n_next s \<le> n_next t"
  using assms
proof (induction ns arbitrary: s x)
  case Nil
  then show ?case by simp
next
  case (Cons n ns)
  obtain t where t: "unsubscribeFromStreamOnNode env n st False s = (t, None)"
    "n_streams t = AList.update (stream_key st) (without_node n x) (n_streams s)" "n_handlings t = n_handlings s"
    "n_book t = n_book s" "n_done t = n_done s" "n_next s \<le> n_next t"
    using unsubscribe_node_effect [OF Cons.prems(2)] by blast
  have ok: "node_ok env t" using nodes.unsubscribe_node [OF Cons.prems(1), of n st False] t(1) by simp
  have "map_of (n_streams t) (stream_key st) = Some (without_node n x)" by (simp add: t(2))
  from Cons.IH [OF ok this] obtain u y where u: "for_each (\<lambda>n. unsubscribeFromStreamOnNode env n st False) ns t = (u, None)"
    "node_ok env u" "map_of (n_streams u) (stream_key st) = Some y"
    "set (inboundNodes y) = set (inboundNodes (without_node n x)) - set ns"
    "set (outboundNodes y) = set (outboundNodes (without_node n x)) - set ns"
    "n_handlings u = n_handlings t" "n_book u = n_book t" "n_done u = n_done t" "n_next t \<le> n_next u" by blast
  then show ?case using t by (auto simp: without_node_def)
qed

subsection \<open>From an instruction to its neighbours\<close>

lemma connect_all:
  "n_streams (foldl (\<lambda>s n. emits (ConnectToNode n t) s) s ns) = n_streams s \<and>
   n_handlings (foldl (\<lambda>s n. emits (ConnectToNode n t) s) s ns) = n_handlings s \<and>
   n_book (foldl (\<lambda>s n. emits (ConnectToNode n t) s) s ns) = n_book s \<and>
   n_done (foldl (\<lambda>s n. emits (ConnectToNode n t) s) s ns) = n_done s \<and>
   n_next (foldl (\<lambda>s n. emits (ConnectToNode n t) s) s ns) = n_next s \<and>
   (node_ok env s \<longrightarrow> node_ok env (foldl (\<lambda>s n. emits (ConnectToNode n t) s) s ns))"
  by (induction ns arbitrary: s) auto

text \<open>The neighbours of a stream, in one direction; a stream that is not set up has none.\<close>

definition stream_nodes ::
  "(stream_state \<Rightarrow> string list) \<Rightarrow> ('c, 'r, 'v) node \<Rightarrow> stream_id_and_partition \<Rightarrow> string set" where
  "stream_nodes dir s st = (case map_of (n_streams s) (stream_key st) of None \<Rightarrow> {} | Some x \<Rightarrow> set (dir x))"

lemma setup_effect:
  assumes ok: "node_ok env s"
  shows "\<exists>t y. instruction_setup env i tracker s = (t, None) \<and> node_ok env t \<and>
    map_of (n_streams t) (stream_key (im_stream i)) = Some y \<and>
    set (inboundNodes y) = stream_nodes inboundNodes s (im_stream i) \<inter> set (im_nodeIds i) \<and>
    set (outboundNodes y) = stream_nodes outboundNodes s (im_stream i) \<inter> set (im_nodeIds i) \<and>
    n_handlings t = n_handlings s \<and> n_book t = n_book s \<and> n_done t = n_done s \<and> n_next s \<le> n_next t"
proof -
  obtain m where m: "node_record env ''trackerInstructions'' s = (s\<lparr>n_metrics := m\<rparr>, None)" "metrics_ok (s\<lparr>n_metrics := m\<rparr>)"
    using node_record_effect [of "''trackerInstructions''" s env] node_okD(7) [OF ok] by (auto simp: recorded_names_def)
  define s1 where "s1 = record_for_stream env TrackerInstructions (im_streamId i) (s\<lparr>n_metrics := m\<rparr>)"
  have s1: "node_ok env s1" using node_ok_metrics [OF ok m(2)] by (simp add: s1_def)
  define s2 where "s2 = fst (subscribeToStreamIfHaveNotYet env (im_stream i) False s1)"
  have s2: "subscribeToStreamIfHaveNotYet env (im_stream i) False s1 = (s2, None)"
    "n_handlings s2 = n_handlings s" "n_book s2 = n_book s" "n_done s2 = n_done s" "n_next s2 = n_next s"
    by (simp_all add: s2_def subscribeToStreamIfHaveNotYet_def on_manager_def setUpStream_def s1_def)
  have ok2: "node_ok env s2" using nodes.subscribe_stream [OF s1, of "im_stream i" False] s2(1) by simp
  obtain x where x: "map_of (n_streams s2) (stream_key (im_stream i)) = Some x"
    using subscribe_sets_up [of env "im_stream i" False s1] s2(1) by (auto simp: isSetUp_def)
  have before: "set (inboundNodes x) = stream_nodes inboundNodes s (im_stream i)" "set (outboundNodes x) = stream_nodes outboundNodes s (im_stream i)"
    using x by (auto simp: stream_nodes_def s2_def s1_def subscribeToStreamIfHaveNotYet_def on_manager_def setUpStream_def isSetUp_def
        new_stream_state_def split: option.splits if_splits)
  define s3 where "s3 = foldl (\<lambda>s n. emits (ConnectToNode n tracker) s) s2 (im_nodeIds i)"
  have s3: "node_ok env s3" "n_streams s3 = n_streams s2" "n_handlings s3 = n_handlings s" "n_book s3 = n_book s"
    "n_done s3 = n_done s" "n_next s3 = n_next s"
    using connect_all [of tracker s2 "im_nodeIds i" env] ok2 s2 by (simp_all add: s3_def)
  let ?ns = "sort (set_of (inboundNodes x @ outboundNodes x))"
  have cur: "getAllNodesForStream (n_streams s2) (im_stream i) = Inr ?ns"
    by (simp add: getAllNodesForStream_def getInboundNodesForStream_def getOutboundNodesForStream_def verifyThatIsSetUp_def x)
  have "map_of (n_streams s3) (stream_key (im_stream i)) = Some x" using x s3(2) by simp
  from unsubscribe_all [OF s3(1) this, of "filter (\<lambda>n. n \<notin> set (im_nodeIds i)) ?ns"] obtain t y where
    t: "for_each (\<lambda>n. unsubscribeFromStreamOnNode env n (im_stream i) False) (filter (\<lambda>n. n \<notin> set (im_nodeIds i)) ?ns) s3 = (t, None)"
    "node_ok env t" "map_of (n_streams t) (stream_key (im_stream i)) = Some y"
    "set (inboundNodes y) = set (inboundNodes x) - set (filter (\<lambda>n. n \<notin> set (im_nodeIds i)) ?ns)"
    "set (outboundNodes y) = set (outboundNodes x) - set (filter (\<lambda>n. n \<notin> set (im_nodeIds i)) ?ns)"
    "n_handlings t = n_handlings s3" "n_book t = n_book s3" "n_done t = n_done s3" "n_next s3 \<le> n_next t" by blast
  have "instruction_setup env i tracker s = (t, None)"
    using t(1) by (simp add: instruction_setup_def m(1) s1_def [symmetric] s2(1) cur s3_def [symmetric])
  then show ?thesis using t(2-9) s3(3-6) before by auto
qed

text \<open>
  The state while the connections of one instruction settle: \<open>D\<close> are the ones that have and \<open>A\<close>
  those of them that opened. \<open>I\<close> and \<open>U\<close> are the neighbours that were there before and stay.
\<close>

definition connecting ::
  "('c, 'r, 'v) node_env \<Rightarrow> instruction \<Rightarrow> nat \<Rightarrow> bool \<Rightarrow> handling_source \<Rightarrow> string set \<Rightarrow> string set \<Rightarrow> nat set \<Rightarrow> nat set \<Rightarrow>
   ('c, 'r, 'v) node \<Rightarrow> bool" where
  "connecting env i h reattempt src I U D A s \<longleftrightarrow> node_ok env s \<and>
     (\<exists>g. map_of (n_handlings s) h = Some g \<and> h_instruction g = i \<and> h_reattempt g = reattempt \<and> h_source g = src \<and>
        h_waiting g = filter (\<lambda>w. fst w \<notin> D) (enumerate 0 (im_nodeIds i)) \<and> (\<not> D \<subseteq> A \<longrightarrow> h_failed g)) \<and>
     (\<exists>r. stream_rep s (im_stream i) = Some r \<and>
        set (rep_inboundNodes r) = I \<union> (!) (im_nodeIds i) ` A \<and> set (rep_outboundNodes r) = U \<union> (!) (im_nodeIds i) ` A)"

lemma waiting_lookup:
  "map_of (filter (\<lambda>w. fst w \<notin> D) (enumerate k xs)) j =
     (if k \<le> j \<and> j < k + length xs \<and> j \<notin> D then Some (xs ! (j - k)) else None)"
proof (induction xs arbitrary: k)
  case (Cons x xs)
  show ?case
  proof (cases "j = k")
    case True
    then show ?thesis using Cons.IH [of "Suc k"] by auto
  next
    case False
    then have "(x # xs) ! (j - k) = xs ! (j - Suc k)" if "k \<le> j" using that by (simp add: nth_Cons')
    then show ?thesis using Cons.IH [of "Suc k"] False by auto
  qed
qed simp

lemma delete_waiting:
  "AList.delete j (filter (\<lambda>w. fst w \<notin> D) xs) = filter (\<lambda>w. fst w \<notin> insert j D) xs"
  by (auto simp: AList.delete_eq intro: filter_cong)

lemma connecting_step:
  assumes c: "connecting env i h reattempt src I U D A s" and j: "j < length (im_nodeIds i)" "j \<notin> D"
  shows "connecting env i h reattempt src I U (insert j D) (if b then insert j A else A) (connectionSettled env h j b s)"
    "n_book (connectionSettled env h j b s) = n_book s" "n_done (connectionSettled env h j b s) = n_done s"
proof -
  let ?n = "im_nodeIds i ! j"
  obtain g r where g: "map_of (n_handlings s) h = Some g" "h_instruction g = i" "h_reattempt g = reattempt" "h_source g = src"
    "h_waiting g = filter (\<lambda>w. fst w \<notin> D) (enumerate 0 (im_nodeIds i))" "\<not> D \<subseteq> A \<longrightarrow> h_failed g"
    and r: "stream_rep s (im_stream i) = Some r" "set (rep_inboundNodes r) = I \<union> (!) (im_nodeIds i) ` A"
      "set (rep_outboundNodes r) = U \<union> (!) (im_nodeIds i) ` A"
    and ok: "node_ok env s"
    using c unfolding connecting_def by blast
  have w: "map_of (h_waiting g) j = Some ?n" using j unfolding g(5) waiting_lookup by simp
  let ?u = "if b then subscribeToStreamOnNode env ?n (im_stream i) False (clearDisconnectionTimer ?n s) else (s, None)"
  let ?g = "g\<lparr>h_waiting := AList.delete j (h_waiting g)\<rparr>"
  let ?g' = "if b \<and> snd ?u = None then ?g else ?g\<lparr>h_failed := True\<rparr>" and ?r' = "if b then add_both ?n r else r"
  have eq: "connectionSettled env h j b s = set_handling h ?g' (fst ?u)"
    by (simp add: connectionSettled_def g(1,2) w Let_def)
  have u: "apart_from_data env (im_stream i) ?r' (n_handlings s) (n_book s) (n_done s) (fst ?u)"
  proof (cases b)
    case True
    then show ?thesis
      using subscribe_node_effect [OF nodes.clear_timer_inv [OF ok, of ?n], of "im_stream i" r ?n] r(1) by simp
  next
    case False
    then show ?thesis using ok r(1) by (simp add: apart_from_data_def)
  qed
  note u = u [unfolded apart_from_data_def]
  have g': "h_instruction ?g' = i" "h_reattempt ?g' = reattempt" "h_source ?g' = src"
    "h_waiting ?g' = filter (\<lambda>w. fst w \<notin> insert j D) (enumerate 0 (im_nodeIds i))"
    "\<not> insert j D \<subseteq> (if b then insert j A else A) \<longrightarrow> h_failed ?g'"
    using g(2-4,6) by (simp_all add: g(5) delete_waiting) auto
  have "node_ok env (set_handling h ?g' (fst ?u))"
    using u nodes.handlings_only unfolding set_handling_def by blast
  moreover have "stream_rep (set_handling h ?g' (fst ?u)) (im_stream i) = Some ?r'"
    using u by (simp add: stream_rep_def set_handling_def)
  moreover have "set (rep_inboundNodes ?r') = I \<union> (!) (im_nodeIds i) ` (if b then insert j A else A)"
    "set (rep_outboundNodes ?r') = U \<union> (!) (im_nodeIds i) ` (if b then insert j A else A)"
    using r(2,3) by (auto simp: add_both_def)
  moreover have "map_of (n_handlings (set_handling h ?g' (fst ?u))) h = Some ?g'" by (simp add: set_handling_def)
  ultimately show "connecting env i h reattempt src I U (insert j D) (if b then insert j A else A) (connectionSettled env h j b s)"
    unfolding connecting_def eq using g' by blast
  show "n_book (connectionSettled env h j b s) = n_book s" "n_done (connectionSettled env h j b s) = n_done s"
    using u by (simp_all add: eq set_handling_def)
qed

text \<open>
  What may happen meanwhile: connections of this instruction settle, messages arrive, and the
  events that concern neither the streams nor the instructions of the node.
\<close>

fun meanwhile :: "nat \<Rightarrow> node_event \<Rightarrow> bool" where
  "meanwhile h (ConnectionSettled h' j b) = (h' = h)"
| "meanwhile h (DataReceived msg source) = True"
| "meanwhile h (NeighbourConnected n) = True"
| "meanwhile h (DeliverySucceeded n) = True"
| "meanwhile h (DisconnectionTimeout k) = True"
| "meanwhile h BufferTimeout = True"
| "meanwhile h (TimePasses t) = True"
| "meanwhile h (RttsMeasured r) = True"
| "meanwhile h (ResponseSendFailed n) = True"
| "meanwhile h (BackPressure n high) = True"
| "meanwhile h _ = False"

fun outcomes :: "node_event list \<Rightarrow> (nat \<times> bool) list" where
  "outcomes [] = []"
| "outcomes (ConnectionSettled h j b # es) = (j, b) # outcomes es"
| "outcomes (e # es) = outcomes es"

fun settles :: "node_event \<Rightarrow> bool" where
  "settles (ConnectionSettled h j b) = True"
| "settles _ = False"

lemma settlesE: assumes "settles e" obtains h j b where "e = ConnectionSettled h j b"
  using assms by (cases e) simp_all

lemma outcomes_other: "\<not> settles e \<Longrightarrow> outcomes (e # es) = outcomes es"
  by (cases e) simp_all

lemma apart_event:
  assumes a: "apart_from_data env st r hs bk ds s" and e: "meanwhile h e" "\<not> settles e"
  shows "apart_from_data env st r hs bk ds (node_step env s e)"
proof (cases "\<exists>msg source. e = DataReceived msg source")
  case True
  then show ?thesis using apart_data [OF a] by (auto simp: node_step_def)
next
  case False
  have "event_legal (\<lambda>_. True) (\<lambda>_. True) e" using e by (cases e) simp_all
  then have "node_ok env (node_step env s e)" using nodes.event_keeps apart_ok [OF a] by blast
  then show ?thesis
    using a e False by (cases e) (simp_all add: apart_from_data_def stream_rep_def node_step_def deliverySucceeded_def
        disconnectionTimeout_def forgetDisconnectionTimer_def Let_def split: option.split)
qed

lemma connecting_other:
  assumes c: "connecting env i h reattempt src I U D A s" and e: "meanwhile h e" "\<not> settles e"
  shows "connecting env i h reattempt src I U D A (node_step env s e)"
    "n_book (node_step env s e) = n_book s" "n_done (node_step env s e) = n_done s"
proof -
  obtain r where r: "stream_rep s (im_stream i) = Some r" using c unfolding connecting_def by blast
  then have "apart_from_data env (im_stream i) r (n_handlings s) (n_book s) (n_done s) s"
    using c by (simp add: apart_from_data_def connecting_def)
  from apart_event [OF this e] r c show "connecting env i h reattempt src I U D A (node_step env s e)"
    "n_book (node_step env s e) = n_book s" "n_done (node_step env s e) = n_done s"
    by (simp_all add: apart_from_data_def connecting_def)
qed

lemma connecting_all:
  assumes "connecting env i h reattempt src I U D A s" and "list_all (meanwhile h) es"
    and "set (map fst (outcomes es)) \<subseteq> {..<length (im_nodeIds i)}" "distinct (map fst (outcomes es))" "set (map fst (outcomes es)) \<inter> D = {}"
  shows "connecting env i h reattempt src I U (D \<union> set (map fst (outcomes es))) (A \<union> {j. (j, True) \<in> set (outcomes es)})
      (foldl (node_step env) s es) \<and>
    n_book (foldl (node_step env) s es) = n_book s \<and> n_done (foldl (node_step env) s es) = n_done s"
  using assms
proof (induction es arbitrary: D A s)
  case (Cons e es)
  show ?case
  proof (cases "settles e")
    case True
    then obtain j b where e: "e = ConnectionSettled h j b" using Cons.prems(2) by (auto elim: settlesE)
    have j: "j < length (im_nodeIds i)" "j \<notin> D" using Cons.prems(3,5) by (auto simp: e)
    note step = connecting_step [OF Cons.prems(1) j, of b]
    have "set (map fst (outcomes es)) \<inter> insert j D = {}" using Cons.prems(4,5) by (auto simp: e)
    moreover have "insert j D \<union> set (map fst (outcomes es)) = D \<union> set (map fst (outcomes (e # es)))" by (simp add: e)
    moreover have "(if b then insert j A else A) \<union> {j. (j, True) \<in> set (outcomes es)} = A \<union> {j. (j, True) \<in> set (outcomes (e # es))}"
      by (auto simp: e)
    ultimately show ?thesis
      using Cons.IH [OF step(1)] Cons.prems(2-4) step(2,3) by (simp add: e node_step_def)
  next
    case False
    then have o: "outcomes (e # es) = outcomes es" by (rule outcomes_other)
    have "meanwhile h e" "list_all (meanwhile h) es" using Cons.prems(2) by simp_all
    then show ?thesis
      using Cons.IH [OF connecting_other(1) [OF Cons.prems(1)]] connecting_other(2,3) [OF Cons.prems(1)] Cons.prems(3-5) False
      unfolding o by simp
  qed
qed simp

lemma start_connecting:
  assumes ok: "node_ok env s" and tracker: "getTrackerId env s (im_stream i) = Some tracker"
    and fresh: "\<forall>h \<ge> n_next s. map_of (n_handlings s) h = None"
    and t_def: "t = start_handling env i tracker reattempt src s"
  shows "connecting env i (fst (last (n_handlings t))) reattempt src (stream_nodes inboundNodes s (im_stream i) \<inter> set (im_nodeIds i))
      (stream_nodes outboundNodes s (im_stream i) \<inter> set (im_nodeIds i)) {} {} t" "n_book t = n_book s" "n_done t = n_done s"
proof -
  let ?s = "s\<lparr>n_retry := retry_add i tracker (n_retry s)\<rparr>"
  have ok1: "node_ok env ?s" using nodes.retry [OF ok, of "RetryAdd i tracker"] by simp
  have tr: "getTrackerId env ?s (im_stream i) = Some tracker" using tracker by (simp add: getTrackerId_def)
  obtain u y where u: "instruction_setup env i tracker ?s = (u, None)" "node_ok env u"
    "map_of (n_streams u) (stream_key (im_stream i)) = Some y"
    "set (inboundNodes y) = stream_nodes inboundNodes s (im_stream i) \<inter> set (im_nodeIds i)"
    "set (outboundNodes y) = stream_nodes outboundNodes s (im_stream i) \<inter> set (im_nodeIds i)"
    "n_handlings u = n_handlings s" "n_book u = n_book s" "n_done u = n_done s" "n_next s \<le> n_next u"
    using setup_effect [OF ok1, of i tracker] by (auto simp: stream_nodes_def)
  let ?g = "\<lparr>h_instruction = i, h_tracker = tracker, h_reattempt = reattempt, h_source = src,
    h_waiting = enumerate 0 (im_nodeIds i), h_failed = False\<rparr>"
  have t: "t = u\<lparr>n_handlings := n_handlings u @ [(n_next u, ?g)], n_next := n_next u + 1\<rparr>"
    by (simp add: t_def start_handling_def Let_def tr u(1))
  have "map_of (n_handlings s) (n_next u) = None" using fresh u(9) by blast
  then have "map_of (n_handlings t) (n_next u) = Some ?g" by (simp add: t u(6) map_add_def)
  moreover have "node_ok env t" unfolding t by (rule nodes.handlings [OF u(2)]) simp
  ultimately show "connecting env i (fst (last (n_handlings t))) reattempt src (stream_nodes inboundNodes s (im_stream i) \<inter> set (im_nodeIds i))
      (stream_nodes outboundNodes s (im_stream i) \<inter> set (im_nodeIds i)) {} {} t"
    using u(3-5) by (simp add: connecting_def t stream_rep_def represent_def)
  show "n_book t = n_book s" "n_done t = n_done s" using u(7,8) by (simp_all add: t)
qed

lemma settled_effect:
  assumes c: "connecting env i h reattempt src I U D A s" and all: "{..<length (im_nodeIds i)} \<subseteq> D"
    and tracker: "getTrackerId env s (im_stream i) = Some tracker"
  defines "t \<equiv> allSettled env h s"
  shows "\<exists>x. map_of (n_streams t) (stream_key (im_stream i)) = Some x \<and> set (inboundNodes x) = I \<union> (!) (im_nodeIds i) ` A \<and>
    set (outboundNodes x) = U \<union> (!) (im_nodeIds i) ` A \<and> counter x = im_counter i \<and> n_done t = n_done s @ [src] \<and>
    map_of (n_handlings t) h = None \<and>
    (\<not> reattempt \<or> \<not> D \<subseteq> A \<longrightarrow>
       (\<exists>st. last (n_out t) = SendStatus tracker st \<and> streams st = [(stream_key (im_stream i), represent x)]))"
proof -
  obtain g r where g: "map_of (n_handlings s) h = Some g" "h_instruction g = i" "h_reattempt g = reattempt" "h_source g = src"
    "h_waiting g = filter (\<lambda>w. fst w \<notin> D) (enumerate 0 (im_nodeIds i))" "\<not> D \<subseteq> A \<longrightarrow> h_failed g"
    and r: "stream_rep s (im_stream i) = Some r" "set (rep_inboundNodes r) = I \<union> (!) (im_nodeIds i) ` A"
      "set (rep_outboundNodes r) = U \<union> (!) (im_nodeIds i) ` A"
    using c unfolding connecting_def by blast
  have w: "h_waiting g = []"
  proof (rule ccontr)
    assume "h_waiting g \<noteq> []"
    then have "map_of (h_waiting g) (fst (hd (h_waiting g))) \<noteq> None" by (cases "h_waiting g") auto
    then show False using all unfolding g(5) waiting_lookup by (auto split: if_splits)
  qed
  obtain x where x: "map_of (n_streams s) (stream_key (im_stream i)) = Some x" "r = represent x"
    using r(1) by (auto simp: stream_rep_def)
  have sets: "set (inboundNodes x) = I \<union> (!) (im_nodeIds i) ` A" "set (outboundNodes x) = U \<union> (!) (im_nodeIds i) ` A"
    using r(2,3) by (simp_all add: x(2) represent_def)
  let ?x = "x\<lparr>counter := im_counter i\<rparr>"
  let ?s = "s\<lparr>n_streams := AList.update (stream_key (im_stream i)) ?x (n_streams s)\<rparr>"
  have "getTrackerId env ?s (im_stream i) = Some tracker" using tracker by (simp add: getTrackerId_def)
  then have "t = (let s2 = (if \<not> reattempt \<or> h_failed g then emits (SendStatus tracker (getStreamStatus env ?s (im_stream i))) ?s else ?s)
      in s2\<lparr>n_handlings := AList.delete h (n_handlings s2), n_done := n_done s2 @ [src]\<rparr>)"
    by (simp add: t_def allSettled_def g(1-4) w isSetUp_def x(1) on_manager_def updateCounter_def Let_def prepareAndSendStreamStatus_def)
  then show ?thesis
    using sets g(6) by (auto simp: Let_def getStreamStatus_def getStreamState_def)
qed

subsection \<open>What the node promises its trackers\<close>

text \<open>
  C6. What becomes of an instruction of the right tracker, from the start of its handler to its
  end, when each of its connections settles once, in any order, opened or failed, and meanwhile
  messages may arrive and other events that concern neither the streams nor the instructions of
  the node (no other instruction, disconnection, unsubscription, retry or stop). The neighbours
  of the stream, in each direction, are then those it had and the instruction names, and those
  whose connection opened; so when all connections opened they are exactly the named ones. The
  stream carries the number of the instruction, the handler has returned to its caller, and the
  last thing sent is the new status of the stream, unless this was a reattempt all of whose
  connections opened. (\<open>fresh\<close>: the number that the handling gets is not in use.)
\<close>

theorem instruction_fulfilled:
  assumes ok: "node_ok env s" and tracker: "getTrackerId env s (im_stream i) = Some tracker"
    and fresh: "\<forall>h \<ge> n_next s. map_of (n_handlings s) h = None"
    and s1: "s1 = start_handling env i tracker reattempt src s" and h: "h = fst (last (n_handlings s1))"
    and es: "list_all (meanwhile h) es" "distinct (map fst (outcomes es))" "set (map fst (outcomes es)) = {..<length (im_nodeIds i)}"
  shows "let t = allSettled env h (foldl (node_step env) s1 es); opened = {im_nodeIds i ! j | j. (j, True) \<in> set (outcomes es)} in
    \<exists>x. map_of (n_streams t) (stream_key (im_stream i)) = Some x \<and>
      set (inboundNodes x) = stream_nodes inboundNodes s (im_stream i) \<inter> set (im_nodeIds i) \<union> opened \<and>
      set (outboundNodes x) = stream_nodes outboundNodes s (im_stream i) \<inter> set (im_nodeIds i) \<union> opened \<and>
      (list_all snd (outcomes es) \<longrightarrow> set (inboundNodes x) = set (im_nodeIds i) \<and> set (outboundNodes x) = set (im_nodeIds i)) \<and>
      counter x = im_counter i \<and> n_done t = n_done s @ [src] \<and> map_of (n_handlings t) h = None \<and>
      (\<not> reattempt \<or> \<not> list_all snd (outcomes es) \<longrightarrow>
         (\<exists>st. last (n_out t) = SendStatus tracker st \<and> streams st = [(stream_key (im_stream i), represent x)]))"
proof -
  define s2 where "s2 = foldl (node_step env) s1 es"
  define A where "A = {j. (j, True) \<in> set (outcomes es)}"
  let ?I = "stream_nodes inboundNodes s (im_stream i) \<inter> set (im_nodeIds i)"
  let ?U = "stream_nodes outboundNodes s (im_stream i) \<inter> set (im_nodeIds i)"
  note c1 = start_connecting [OF ok tracker fresh s1]
  have c2: "connecting env i h reattempt src ?I ?U {..<length (im_nodeIds i)} A s2" "n_book s2 = n_book s" "n_done s2 = n_done s"
    using connecting_all [OF c1(1) [folded h] es(1) eq_refl [OF es(3)] es(2)] es(3) c1(2,3) by (simp_all add: s2_def A_def)
  have "getTrackerId env s2 (im_stream i) = Some tracker" using tracker c2(2) by (simp add: getTrackerId_def)
  note t = settled_effect [OF c2(1) order_refl this, unfolded c2(3)]
  have opened: "{im_nodeIds i ! j | j. (j, True) \<in> set (outcomes es)} = (!) (im_nodeIds i) ` A" by (auto simp: A_def)
  have every: "list_all snd (outcomes es) \<longleftrightarrow> {..<length (im_nodeIds i)} \<subseteq> A"
  proof
    assume "list_all snd (outcomes es)"
    then show "{..<length (im_nodeIds i)} \<subseteq> A" unfolding es(3) [symmetric] A_def by (auto simp: list_all_iff)
  next
    assume a: "{..<length (im_nodeIds i)} \<subseteq> A"
    have "b" if m: "(j, b) \<in> set (outcomes es)" for j b
    proof -
      have "j \<in> set (map fst (outcomes es))" using m by force
      then have "(j, True) \<in> set (outcomes es)" using a unfolding es(3) A_def by blast
      then show ?thesis using m es(2) eq_key_imp_eq_value by metis
    qed
    then show "list_all snd (outcomes es)" by (auto simp: list_all_iff)
  qed
  have named: "(!) (im_nodeIds i) ` {..<length (im_nodeIds i)} = set (im_nodeIds i)" by (auto simp: in_set_conv_nth)
  have "A \<subseteq> {..<length (im_nodeIds i)}" unfolding es(3) [symmetric] A_def by force
  then have "{..<length (im_nodeIds i)} \<subseteq> A \<longrightarrow> (!) (im_nodeIds i) ` A = set (im_nodeIds i)" using named by (metis subset_antisym)
  then have all: "list_all snd (outcomes es) \<longrightarrow> ?I \<union> (!) (im_nodeIds i) ` A = set (im_nodeIds i) \<and> ?U \<union> (!) (im_nodeIds i) ` A = set (im_nodeIds i)"
    unfolding every by blast
  obtain x where x: "map_of (n_streams (allSettled env h s2)) (stream_key (im_stream i)) = Some x"
    "set (inboundNodes x) = ?I \<union> (!) (im_nodeIds i) ` A" "set (outboundNodes x) = ?U \<union> (!) (im_nodeIds i) ` A"
    "counter x = im_counter i \<and> n_done (allSettled env h s2) = n_done s @ [src] \<and> map_of (n_handlings (allSettled env h s2)) h = None \<and>
    (\<not> reattempt \<or> \<not> list_all snd (outcomes es) \<longrightarrow>
       (\<exists>st. last (n_out (allSettled env h s2)) = SendStatus tracker st \<and> streams st = [(stream_key (im_stream i), represent x)]))"
    using t unfolding every by blast
  show ?thesis
    unfolding Let_def s2_def [symmetric] opened
    by (rule exI [of _ x]) (use x all in simp)
qed

text \<open>One connection opens, the other fails, and a message arrives in between.\<close>

theorem instruction_fulfilled_witness:
  "let i = example_instruction ''s'' 7 [''c'', ''b'']; s = (example_node [''a'', ''c''])\<lparr>n_book := [(''ws://t'', ''t'')]\<rparr>;
       s1 = start_handling example_env i ''t'' False (ByThrottler 0) s; h = fst (last (n_handlings s1));
       es = [ConnectionSettled h 1 True, DataReceived (example_message 1 None) None, ConnectionSettled h 0 False];
       t = allSettled example_env h (foldl (node_step example_env) s1 es)
   in \<exists>x. map_of (n_streams t) (stream_key (im_stream i)) = Some x \<and> set (outboundNodes x) = {''b'', ''c''} \<and>
     set (inboundNodes x) = {''b''} \<and> counter x = 7"
proof -
  define i where "i = example_instruction ''s'' 7 [''c'', ''b'']"
  define s where "s = (example_node [''a'', ''c''])\<lparr>n_book := [(''ws://t'', ''t'')]\<rparr>"
  define s1 where "s1 = start_handling example_env i ''t'' False (ByThrottler 0) s"
  define h where "h = fst (last (n_handlings s1))"
  define es where "es = [ConnectionSettled h 1 True, DataReceived (example_message 1 None) None, ConnectionSettled h 0 False]"
  have nodes: "im_nodeIds i = [''c'', ''b'']" "im_counter i = 7" "im_stream i = example_stream"
    by (simp_all add: i_def example_instruction_def im_stream_def example_stream_def)
  have "node_ok example_env s" unfolding s_def by (rule nodes.book [OF example_node_ok]) simp
  moreover have "getTrackerId example_env s (im_stream i) = Some ''t''"
    by (simp add: getTrackerId_def example_env_def s_def)
  moreover have "\<forall>h \<ge> n_next s. map_of (n_handlings s) h = None"
    by (simp add: example_node_def new_node_def s_def)
  moreover have es': "list_all (meanwhile h) es" "outcomes es = [(1, True), (0, False)]" by (simp_all add: es_def)
  moreover have "{..<length (im_nodeIds i)} = set (map fst (outcomes es))" by (auto simp: nodes es')
  ultimately obtain x where x: "map_of (n_streams (allSettled example_env h (foldl (node_step example_env) s1 es))) (stream_key (im_stream i)) = Some x"
    "set (inboundNodes x) = stream_nodes inboundNodes s (im_stream i) \<inter> set (im_nodeIds i) \<union> {im_nodeIds i ! j | j. (j, True) \<in> set (outcomes es)}"
    "set (outboundNodes x) = stream_nodes outboundNodes s (im_stream i) \<inter> set (im_nodeIds i) \<union> {im_nodeIds i ! j | j. (j, True) \<in> set (outcomes es)}"
    "counter x = im_counter i"
    using instruction_fulfilled [OF _ _ _ s1_def h_def, of es] by (auto simp: Let_def)
  have "{im_nodeIds i ! j | j. (j, True) \<in> set (outcomes es)} = {''b''}" by (simp add: es' nodes)
  moreover have "stream_nodes inboundNodes s (im_stream i) = {}" "stream_nodes outboundNodes s (im_stream i) = {''a'', ''c''}"
    by (simp_all add: stream_nodes_def s_def example_node_def nodes new_stream_state_def)
  ultimately have "set (outboundNodes x) = {''b'', ''c''}" "set (inboundNodes x) = {''b''}" using x(2,3) by (auto simp: nodes)
  then show ?thesis
    using x(1,4) unfolding Let_def i_def [symmetric] s_def [symmetric] s1_def [symmetric] h_def [symmetric] es_def [symmetric]
    by (simp add: nodes)
qed

text \<open>
  An instruction of the wrong tracker changes no stream and sends nothing, as intended,
  but it is recorded for retries before its tracker is checked: it takes the place of the
  instruction of the right tracker, which is not retried any more.
\<close>

theorem unexpected_instruction_displaces_retry:
  assumes ok: "node_ok env s" and wrong: "getTrackerId env s (im_stream i) \<noteq> Some tracker"
  shows "let t = start_handling env i tracker reattempt src s in
    n_streams t = n_streams s \<and> n_out t = n_out s \<and>
    (\<exists>j. map_of (timers (n_retry t)) j = Some (i, tracker)) \<and>
    (\<forall>j q. map_of (timers (n_retry t)) j = Some q \<longrightarrow> im_key (fst q) = im_key i \<longrightarrow> q = (i, tracker))"
proof -
  let ?s = "s\<lparr>n_retry := retry_add i tracker (n_retry s)\<rparr>"
  let ?t = "start_handling env i tracker reattempt src s"
  have "getTrackerId env ?s (im_stream i) \<noteq> Some tracker" using wrong by (simp add: getTrackerId_def)
  then have t: "n_streams ?t = n_streams s" "n_out ?t = n_out s" "n_retry ?t = retry_add i tracker (n_retry s)"
    by (simp_all add: start_handling_def Let_def)
  have ready: "ready (i, tracker) 0 (retry_add i tracker (n_retry s))" by (rule ready_add(1))
  then obtain e where e: "map_of (instructionRetryIntervals (n_retry ?t)) (im_key i) = Some e"
    "map_of (timers (n_retry ?t)) (timer e) = Some (i, tracker)"
    unfolding t(3) ready_def by auto
  have "retry_ok (n_retry ?t)"
    using retries.step_inv [OF node_okD(5) [OF ok], of "RetryAdd i tracker"] unfolding t(3) by simp
  then have "q = (i, tracker)" if "map_of (timers (n_retry ?t)) j = Some q" "im_key (fst q) = im_key i" for j q
    using retry_okD(2) [OF _ that(1)] that e by auto
  then show ?thesis using t(1,2) e(2) unfolding Let_def by blast
qed

theorem unexpected_instruction_displaces_retry_witness:
  "let right = example_instruction ''s'' 1 [''a'']; rogue = example_instruction ''s'' 9 [''z''];
       s = (example_node [])\<lparr>n_book := [(''ws://t'', ''t'')], n_retry := retry_add right ''t'' new_retry_manager\<rparr>;
       t = start_handling example_env rogue ''u'' False (ByThrottler 0) s
   in map_of (timers (n_retry s)) 0 = Some (right, ''t'') \<and> map_of (timers (n_retry t)) 0 \<noteq> Some (right, ''t'') \<and>
      n_streams t = n_streams s"
proof -
  let ?right = "example_instruction ''s'' 1 [''a'']" and ?rogue = "example_instruction ''s'' 9 [''z'']"
  let ?s = "(example_node [])\<lparr>n_book := [(''ws://t'', ''t'')], n_retry := retry_add ?right ''t'' new_retry_manager\<rparr>"
  have "node_ok example_env ((example_node [])\<lparr>n_book := [(''ws://t'', ''t'')]\<rparr>)" by (rule nodes.book [OF example_node_ok]) simp
  from nodes.retry [OF this, of "RetryAdd ?right ''t''"] have ok: "node_ok example_env ?s"
    by (simp add: example_node_def new_node_def)
  have wrong: "getTrackerId example_env ?s (im_stream ?rogue) \<noteq> Some ''u''"
    by (simp add: getTrackerId_def example_env_def)
  have key: "im_key (fst (?right, ''t'')) = im_key ?rogue" by (simp add: example_instruction_def im_stream_def)
  have "map_of (timers (n_retry ?s)) 0 = Some (?right, ''t'')"
    by (simp add: retry_add_def arm_def clear_timer_def new_retry_manager_def)
  moreover have "(?right, ''t'') \<noteq> (?rogue, ''u'')" by simp
  ultimately show ?thesis
    using unexpected_instruction_displaces_retry [OF ok wrong, of False "ByThrottler 0"] key unfolding Let_def by metis
qed

end
