(* ===== verification/NodeNeighbours.thy ===== *)
theory NodeNeighbours
  imports NodeRelay
begin

section \<open>The node and its neighbours: failures, timers, errors\<close>

text \<open>
  When a full status is sent, the invariant of the node over runs, which events make a handler
  throw, and what becomes of neighbours: those no delivery reaches are dropped, those without
  a stream in common are disconnected.
\<close>

subsection \<open>Statuses are sent when every stream key parses\<close>

lemma full_status_sent:
  assumes "keys_parse (n_streams s)"
  obtains st where "getFullStatus env s t = Inr st" "prepareAndSendFullStatus env t s = (emits (SendStatus t st) s, None)"
proof -
  have "\<exists>r. getStreamsWithConnections m
      (\<lambda>k. case from_key k of Inl _ \<Rightarrow> Inl BadStreamKey | Inr st \<Rightarrow> Inr (getTrackerId env s st = Some t)) = Inr r"
    if "keys_parse m" for m
    using that
  proof (induction m)
    case (Cons e m)
    obtain k x where e: "e = (k, x)" by force
    then obtain r where r: "getStreamsWithConnections m
        (\<lambda>k. case from_key k of Inl _ \<Rightarrow> Inl BadStreamKey | Inr st \<Rightarrow> Inr (getTrackerId env s st = Some t)) = Inr r"
      using Cons by (auto simp: keys_parse_def)
    obtain st where "from_key k = Inr st" using Cons.prems by (cases "from_key k") (auto simp: keys_parse_def e)
    then show ?case by (simp add: e r)
  qed simp
  from this [OF assms] obtain r where "getStreamsWithConnections (n_streams s)
      (\<lambda>k. case from_key k of Inl _ \<Rightarrow> Inl BadStreamKey | Inr st \<Rightarrow> Inr (getTrackerId env s st = Some t)) = Inr r" ..
  then have "\<exists>st. getFullStatus env s t = Inr st" by (simp add: getFullStatus_def)
  then show ?thesis using that by (auto simp: prepareAndSendFullStatus_def)
qed

lemma statuses_sent:
  assumes "keys_parse (n_streams s)"
  shows "\<exists>t. for_each (\<lambda>t s. case t of None \<Rightarrow> (s, None) | Some t \<Rightarrow> prepareAndSendFullStatus env t s) ts s = (t, None) \<and>
    n_streams t = n_streams s \<and> n_failures t = n_failures s \<and> (\<exists>es. n_out t = n_out s @ es)"
  using assms
proof (induction ts arbitrary: s)
  case (Cons a ts)
  show ?case
  proof (cases a)
    case None
    then show ?thesis using Cons by simp
  next
    case (Some x)
    obtain st where st: "prepareAndSendFullStatus env x s = (emits (SendStatus x st) s, None)"
      using full_status_sent [OF Cons.prems] by blast
    have "keys_parse (n_streams (emits (SendStatus x st) s))" using Cons.prems by simp
    from Cons.IH [OF this] show ?thesis by (auto simp: Some st)
  qed
qed simp

lemma keys_parse_removed: "keys_parse m \<Longrightarrow> keys_parse (fst (removeNodeFromAllStreams m n))"
  by (simp add: keys_parse_def)

lemma disconnected_effect:
  assumes ok: "node_ok env s" and keys: "keys_parse (n_streams s)"
  shows "\<exists>t. node_onNodeDisconnected env n s = (t, None) \<and> n_streams t = fst (removeNodeFromAllStreams (n_streams s) n) \<and>
    n_failures t = n_failures s \<and> last (n_out t) = NodeDisconnectedEvent n"
proof -
  obtain m where m: "node_record env ''onNodeDisconnect'' s = (s\<lparr>n_metrics := m\<rparr>, None)"
    using node_record_effect [of "''onNodeDisconnect''" s env] node_okD(7) [OF ok] by (auto simp: recorded_names_def)
  define u where "u = (emits (CancelResends n) (s\<lparr>n_metrics := m\<rparr>))\<lparr>n_streams := fst (removeNodeFromAllStreams (n_streams s) n)\<rparr>"
  have u: "keys_parse (n_streams u)" using keys_parse_removed [OF keys] by (simp add: u_def)
  obtain sts where sts: "snd (removeNodeFromAllStreams (n_streams s) n) = Inr sts"
    using removeNodeFromAllStreams_eq [OF keys] by auto
  obtain t where t: "for_each (\<lambda>t s. case t of None \<Rightarrow> (s, None) | Some t \<Rightarrow> prepareAndSendFullStatus env t s)
      (set_of (map (getTrackerId env u) sts)) u = (t, None)" "n_streams t = n_streams u" "n_failures t = n_failures u"
    using statuses_sent [OF u] by blast
  have "node_onNodeDisconnected env n s = (emits (NodeDisconnectedEvent n) t, None)"
    using t(1) sts by (simp add: node_onNodeDisconnected_def m Let_def u_def)
  then show ?thesis using t(2,3) by (simp add: u_def)
qed

subsection \<open>A neighbour that cannot be reached\<close>

definition fail_delivery :: "('c, 'r, 'v) node_env \<Rightarrow> string \<Rightarrow> message_id \<Rightarrow> ('c, 'r, 'v) node \<Rightarrow> ('c, 'r, 'v) node" where
  "fail_delivery env n mid s = fst (deliveryFailed env n mid s)"

lemma few_failures:
  assumes "failures_of s n < 99"
  shows "failures_of (fail_delivery env n mid s) n = failures_of s n + 1"
    "n_streams (fail_delivery env n mid s) = n_streams s"
proof -
  have f: "failures_of (emits e s) n = failures_of s n" for e by (simp add: failures_of_def)
  show "failures_of (fail_delivery env n mid s) n = failures_of s n + 1"
    "n_streams (fail_delivery env n mid s) = n_streams s"
    using assms by (simp_all add: fail_delivery_def deliveryFailed_def Let_def f) (simp_all add: failures_of_def)
qed

lemma failures_count:
  "failures_of s n = 0 \<Longrightarrow> k < 100 \<Longrightarrow>
   failures_of ((fail_delivery env n mid ^^ k) s) n = k \<and> n_streams ((fail_delivery env n mid ^^ k) s) = n_streams s"
proof (induction k)
  case (Suc k)
  then have IH: "failures_of ((fail_delivery env n mid ^^ k) s) n = k"
    "n_streams ((fail_delivery env n mid ^^ k) s) = n_streams s" by auto
  then have "failures_of ((fail_delivery env n mid ^^ k) s) n < 99" using Suc.prems by simp
  from few_failures(1,2) [OF this, of env mid] IH show ?case by simp
qed simp

lemma node_ok_failures: "node_ok env s \<Longrightarrow> node_ok env ((fail_delivery env n mid ^^ k) s)"
  by (induction k) (simp_all add: fail_delivery_def nodes.delivery_failed)

subsection \<open>Properties\<close>

text \<open>
  A neighbour is dropped after exactly a hundred deliveries to it have failed in a row:
  up to then no stream changes, and at the hundredth the neighbour is removed from every
  stream, the node reports it as disconnected, and the count starts again.
\<close>

theorem unreachable_neighbour_dropped:
  assumes ok: "node_ok env s" and keys: "keys_parse (n_streams s)" and zero: "failures_of s n = 0"
  shows "(\<forall>k < 100. n_streams ((fail_delivery env n mid ^^ k) s) = n_streams s) \<and>
    (let t = (fail_delivery env n mid ^^ 100) s in
      \<not> isNodePresent (n_streams t) n \<and> last (n_out t) = NodeDisconnectedEvent n \<and> failures_of t n = 0)"
proof
  show "\<forall>k < 100. n_streams ((fail_delivery env n mid ^^ k) s) = n_streams s" using failures_count [OF zero] by blast
  define u where "u = (fail_delivery env n mid ^^ 99) s"
  have u: "failures_of u n = 99" "n_streams u = n_streams s" using failures_count [OF zero, of 99 env mid] by (simp_all add: u_def)
  let ?u = "(emits (PropagationFailed mid n) u)\<lparr>n_failures := AList.update n 100 (n_failures u)\<rparr>"
  have ok': "node_ok env ?u"
    by (rule nodes.failures, rule nodes.emit) (simp_all add: u_def node_ok_failures ok)
  obtain t where t: "node_onNodeDisconnected env n ?u = (t, None)" "n_streams t = fst (removeNodeFromAllStreams (n_streams s) n)"
    "last (n_out t) = NodeDisconnectedEvent n"
    using disconnected_effect [OF ok', of n] keys u(2) by auto
  have "failures_of (emits e u) n = 99" for e using u(1) by (simp add: failures_of_def)
  then have "fail_delivery env n mid u = t\<lparr>n_failures := AList.update n 0 (n_failures t)\<rparr>"
    using t(1) by (simp add: fail_delivery_def deliveryFailed_def Let_def failures_of_def)
  moreover have "(fail_delivery env n mid ^^ 100) s = fail_delivery env n mid u"
    using funpow.simps(2) [of 99 "fail_delivery env n mid"] by (simp add: u_def)
  moreover have "\<not> isNodePresent (n_streams t) n"
    using t(2) removeNodeFromAllStreams_eq [OF keys, of n] isNodePresent_without by simp
  ultimately show "let t = (fail_delivery env n mid ^^ 100) s in
      \<not> isNodePresent (n_streams t) n \<and> last (n_out t) = NodeDisconnectedEvent n \<and> failures_of t n = 0"
    using t(3) by (simp add: Let_def failures_of_def)
qed

lemma example_node_keys: "keys_parse (n_streams (example_node outs))"
proof -
  have "from_key (stream_key example_stream) = Inr example_stream"
    by (rule from_key_clean) (simp add: example_stream_def)
  then show ?thesis by (simp add: example_node_def keys_parse_def)
qed

theorem unreachable_neighbour_dropped_witness:
  "isNodePresent (n_streams ((fail_delivery example_env ''a'' (example_id ''p'' ''c'' 1) ^^ 99) (example_node [''a'']))) ''a'' \<and>
   \<not> isNodePresent (n_streams ((fail_delivery example_env ''a'' (example_id ''p'' ''c'' 1) ^^ 100) (example_node [''a'']))) ''a''"
proof -
  have ok: "node_ok example_env (example_node [''a''])" by (rule example_node_ok) simp
  have "failures_of (example_node [''a'']) ''a'' = 0" by (simp add: failures_of_def example_node_def new_node_def)
  moreover have "isNodePresent (n_streams (example_node [''a''])) ''a''"
    by (simp add: example_node_def isNodePresent_def stream_has_node_def)
  moreover note dropped = unreachable_neighbour_dropped [OF ok example_node_keys calculation(1), of "example_id ''p'' ''c'' 1", unfolded Let_def]
  have "n_streams ((fail_delivery example_env ''a'' (example_id ''p'' ''c'' 1) ^^ 99) (example_node [''a''])) = n_streams (example_node [''a''])"
    by (rule dropped [THEN conjunct1, rule_format]) simp
  ultimately show ?thesis using dropped [THEN conjunct2] by simp
qed

text \<open>
  A neighbour with which the last shared stream has just ended is disconnected when its
  timer fires, unless it has become a neighbour of some stream again in the meantime; a
  neighbour that still shares a stream gets no timer.
\<close>

theorem idle_neighbour_disconnected:
  fixes s :: "('c, 'r, 'v) node"
  assumes ok: "node_ok env s" and st: "map_of (n_streams s) (stream_key st) = Some x"
  shows "let t = fst (unsubscribeFromStreamOnNode env n st False s) in
    (isNodePresent (n_streams t) n \<longrightarrow> n_disc t = n_disc s) \<and>
    (\<not> isNodePresent (n_streams t) n \<longrightarrow>
       (\<exists>i. map_of (n_disc t) n = Some i \<and> map_of (n_disc_armed t) i = Some n \<and>
        (\<forall>u :: ('c, 'r, 'v) node. map_of (n_disc_armed u) i = Some n \<longrightarrow>
           n_out (disconnectionTimeout i u) =
             n_out u @ (if isNodePresent (n_streams u) n then [] else [DisconnectFromNode n]))))"
proof -
  let ?m = "AList.update (stream_key st) (without_node n x) (n_streams s)"
  let ?u = "emits (NodeUnsubscribed n st) (s\<lparr>n_streams := ?m\<rparr>)"
  have eq: "fst (unsubscribeFromStreamOnNode env n st False s) =
      (if isNodePresent ?m n then ?u else armDisconnectionTimer n (clearDisconnectionTimer n ?u))"
    by (simp add: unsubscribeFromStreamOnNode_def on_manager_def removeNodeFromStream_def verifyThatIsSetUp_def st Let_def)
  have "node_ok env (clearDisconnectionTimer n ?u)"
  proof (rule nodes.clear_timer_inv, rule nodes.emit)
    have "manager_ok ?m" using manager_ok_step [OF node_okD(2) [OF ok], of "RemoveNode st n"]
      by (simp add: removeNodeFromStream_def verifyThatIsSetUp_def st)
    then show "node_ok env (s\<lparr>n_streams := ?m\<rparr>)" by (rule node_ok_streams [OF ok])
  qed simp
  then have "timers_ok (clearDisconnectionTimer n ?u)" by (rule node_okD(6))
  then have "map_of (n_disc_armed (clearDisconnectionTimer n ?u)) (n_next (clearDisconnectionTimer n ?u)) = None"
    unfolding timers_ok_def by (cases "map_of (n_disc_armed (clearDisconnectionTimer n ?u)) (n_next (clearDisconnectionTimer n ?u))") auto
  then have armed: "map_of (n_disc (armDisconnectionTimer n (clearDisconnectionTimer n ?u))) n = Some (n_next (clearDisconnectionTimer n ?u))"
    "map_of (n_disc_armed (armDisconnectionTimer n (clearDisconnectionTimer n ?u))) (n_next (clearDisconnectionTimer n ?u)) = Some n"
    by (simp_all add: armDisconnectionTimer_def map_add_def)
  have fires: "n_out (disconnectionTimeout i u) = n_out u @ (if isNodePresent (n_streams u) n then [] else [DisconnectFromNode n])"
    if "map_of (n_disc_armed u) i = Some n" for i and u :: "('c, 'r, 'v) node"
    using that by (simp add: disconnectionTimeout_def forgetDisconnectionTimer_def Let_def)
  have streams: "n_streams (armDisconnectionTimer n (clearDisconnectionTimer n ?u)) = ?m"
    by (simp add: armDisconnectionTimer_def clearDisconnectionTimer_def forgetDisconnectionTimer_def split: option.split)
  show ?thesis
    unfolding Let_def eq using armed fires streams by (cases "isNodePresent ?m n") auto
qed

theorem idle_neighbour_disconnected_witness:
  "\<exists>i. map_of (n_disc_armed (fst (unsubscribeFromStreamOnNode example_env ''a'' example_stream False (example_node [''a''])))) i = Some ''a''"
proof -
  have ok: "node_ok example_env (example_node [''a''])" by (rule example_node_ok) simp
  have st: "map_of (n_streams (example_node [''a''])) (stream_key example_stream) =
      Some (new_stream_state\<lparr>outboundNodes := [''a'']\<rparr>)" by (simp add: example_node_def)
  have "\<not> isNodePresent (n_streams (fst (unsubscribeFromStreamOnNode example_env ''a'' example_stream False (example_node [''a''])))) ''a''"
    by (simp add: unsubscribeFromStreamOnNode_def on_manager_def removeNodeFromStream_def verifyThatIsSetUp_def example_node_def
        without_node_def set_del_def new_stream_state_def isNodePresent_def stream_has_node_def armDisconnectionTimer_def
        clearDisconnectionTimer_def new_node_def Let_def)
  then show ?thesis using idle_neighbour_disconnected [OF ok st, of "''a''"] unfolding Let_def by blast
qed

subsection \<open>What can throw\<close>

definition invalid_numbering :: "stream_message \<Rightarrow> bool" where
  "invalid_numbering msg \<longleftrightarrow> (case prevMsgRef msg of None \<Rightarrow> False | Some q \<Rightarrow> message_number (messageId msg) \<le> ref_number q)"

text \<open>The verdicts on a stream that is set up.\<close>

lemma markAndCheck_errors:
  "snd (markAndCheck d p n) = Inl e \<Longrightarrow> e = InvalidNumberingError \<longleftrightarrow> (\<exists>q. p = Some q \<and> n \<le> q)"
proof (cases "\<exists>q. p = Some q \<and> n \<le> q")
  case True
  assume "snd (markAndCheck d p n) = Inl e"
  with True show ?thesis by (auto simp: markAndCheck_invalid)
next
  case False
  have scan: "scan_gaps gs q n k = Inl f \<Longrightarrow> f = GapMisMatchError gs q n" for gs q k f
    by (induction gs q n k rule: scan_gaps.induct) (auto simp: Let_def split: if_splits)
  assume "snd (markAndCheck d p n) = Inl e"
  with False show ?thesis
    using scan by (fastforce simp: markAndCheck_def pair_order Let_def split: option.splits sum.splits if_splits)
qed

lemma data_error:
  assumes ok: "node_ok env s"
  shows "snd (onDataReceived env msg source s) =
    (if invalid_numbering msg then Some (MetricsError (NotARecordedMetric ''node.onDataReceived:invalidNumber'')) else None)"
proof (cases "invalid_numbering msg")
  case True
  obtain t where t: "onDataReceived env msg source s = checkAndPropagate env msg source t" "node_ok env t"
    "isSetUp (n_streams t) (message_stream msg)"
    using data_start [OF ok, of msg source] by metis
  obtain q where q: "prevMsgRef msg = Some q" "message_number (messageId msg) \<le> ref_number q"
    using True by (auto simp: invalid_numbering_def split: option.splits)
  have "snd (markNumbersAndCheckThatIsNotDuplicate (n_streams t) (messageId msg) (prevMsgRef msg)) =
      Inl (DetectorError InvalidNumberingError)"
    using t(3) q(1) markAndCheck_invalid [OF q(2)]
    by (auto simp: markNumbersAndCheckThatIsNotDuplicate_def verifyThatIsSetUp_def isSetUp_def Let_def)
  moreover have "metrics_ok (t\<lparr>n_streams := x\<rparr>)" for x using node_okD(7) [OF t(2)] by (simp add: metrics_ok_def)
  from node_record_throws [OF _ this] calculation show ?thesis
    using True unfolding t(1) checkAndPropagate_def Let_def by (simp add: recorded_names_def)
next
  case False
  obtain t where t: "onDataReceived env msg source s = checkAndPropagate env msg source t" "node_ok env t"
    "isSetUp (n_streams t) (message_stream msg)"
    using data_start [OF ok, of msg source] by metis
  let ?r = "snd (markNumbersAndCheckThatIsNotDuplicate (n_streams t) (messageId msg) (prevMsgRef msg))"
  let ?d = "chain_detector (n_streams t) (stream_key (message_stream msg)) (keyForDetector (messageId msg))"
  have r: "?r = lift_verdict (snd (markAndCheck ?d (map_option ref_number (prevMsgRef msg)) (message_number (messageId msg))))"
    using mark_in_chain(1) [of "stream_key (message_stream msg)" "keyForDetector (messageId msg)" "messageId msg"] t(3)
    by (simp add: in_chain_def isSetUp_def)
  show ?thesis
  proof (cases ?r)
    case (Inr b)
    obtain outs where "getOutboundNodesForStream (n_streams t) (message_stream msg) = Inr outs"
      using outbound_set_up [OF t(3)] by blast
    from check_effect [OF t(2) this Inr, of source] False show ?thesis by (simp add: t(1))
  next
    case (Inl e)
    then obtain f where f: "e = DetectorError f"
      "snd (markAndCheck ?d (map_option ref_number (prevMsgRef msg)) (message_number (messageId msg))) = Inl f"
      using r by (auto simp: lift_verdict_def split: sum.splits)
    have "f \<noteq> InvalidNumberingError"
      using markAndCheck_errors [OF f(2)] False by (auto simp: invalid_numbering_def)
    then obtain g p n where "f = GapMisMatchError g p n" by (cases f) auto
    moreover have "metrics_ok (t\<lparr>n_streams := x\<rparr>)" for x using node_okD(7) [OF t(2)] by (simp add: metrics_ok_def)
    then have "snd (node_record env ''onDataReceived:gapMismatch'' (t\<lparr>n_streams := x\<rparr>)) = None" for x
      by (intro node_record_no_error) (simp_all add: recorded_names_def)
    ultimately show ?thesis using False Inl f(1) unfolding t(1) checkAndPropagate_def Let_def by simp
  qed
qed

lemma subscribe_no_error: "snd (subscribeToStreamIfHaveNotYet env st b s) = None"
  by (simp add: subscribeToStreamIfHaveNotYet_def on_manager_def setUpStream_def)

text \<open>
  C13. From the start and over every run of events the node stays well formed: its streams,
  detectors, buffer, throttler and retries keep their invariants, every armed disconnection
  timer is the one on record for its neighbour, and all metrics stay registered.
\<close>

theorem node_stays_well_formed:
  assumes "1 < ne_bufferMaxSize env"
  shows "node_ok env (foldl (node_step env) (new_node env c) es)"
proof (rule nodes.node_run.run_inv [OF node_ok_new [OF assms]])
  have "event_legal (\<lambda>_. True) (\<lambda>_. True) e" for e by (cases e) simp_all
  then show "\<forall>e \<in> set es. event_legal (\<lambda>_. True) (\<lambda>_. True) e" by blast
qed

text \<open>
  C14. When every stream key parses, exactly three events make a handler of the node throw: the
  connection of a tracker whose address the peer book does not have, a message with invalid
  numbering, and unsubscribing from a stream that is not set up. (The tracker registry, a
  package, is taken to answer for every stream. With a key that does not parse, the handlers
  that go through all streams throw too.)
\<close>

theorem handlers_that_throw:
  assumes ok: "node_ok env s" and keys: "keys_parse (n_streams s)"
  shows "snd (node_handle env s e) =
    (case e of
       TrackerConnected t \<Rightarrow> (if ne_resolve env t = None then Some (NotInPeerBook t) else None)
     | DataReceived msg source \<Rightarrow>
         (if invalid_numbering msg then Some (MetricsError (NotARecordedMetric ''node.onDataReceived:invalidNumber'')) else None)
     | Unsubscribe st \<Rightarrow>
         (if isSetUp (n_streams s) st then None else Some (ManagerError (NotSetUp (stream_key st))))
     | _ \<Rightarrow> None)"
proof (cases e)
  case (TrackerConnected t)
  have "snd (prepareAndSendFullStatus env t (s\<lparr>n_book := b\<rparr>)) = None" for b
  proof -
    have "keys_parse (n_streams (s\<lparr>n_book := b\<rparr>))" using keys by simp
    then obtain st where "prepareAndSendFullStatus env t (s\<lparr>n_book := b\<rparr>) = (emits (SendStatus t st) (s\<lparr>n_book := b\<rparr>), None)"
      by (rule full_status_sent)
    then show ?thesis by simp
  qed
  then show ?thesis using TrackerConnected by (simp add: onConnectedToTracker_def split: option.split)
next
  case (DataReceived msg source)
  then show ?thesis using data_error [OF ok] by simp
next
  case (NeighbourDisconnected n)
  then show ?thesis using disconnected_effect [OF ok keys, of n] by auto
next
  case (DeliveryFailed n mid)
  let ?u = "(emits (PropagationFailed mid n) s)\<lparr>n_failures := AList.update n (Suc (failures_of (emits (PropagationFailed mid n) s) n)) (n_failures s)\<rparr>"
  have "node_ok env ?u" by (rule nodes.failures, rule nodes.emit) (simp_all add: ok)
  from disconnected_effect [OF this, of n] keys obtain t where "node_onNodeDisconnected env n ?u = (t, None)" by auto
  then show ?thesis by (simp add: DeliveryFailed deliveryFailed_def Let_def)
next
  case (Unsubscribe st)
  then show ?thesis
    by (auto simp: unsubscribeFromStream_def on_manager_def removeStream_def verifyThatIsSetUp_def isSetUp_def and_then_def
        Let_def split: option.split)
next
  case (RequestResend q st source)
  obtain m where m: "node_record env ''resendRequests'' s = (s\<lparr>n_metrics := m\<rparr>, None)"
    using node_record_effect [of "''resendRequests''" s env] node_okD(7) [OF ok] by (auto simp: recorded_names_def)
  show ?thesis by (simp add: RequestResend requestResend_def m Let_def and_then_def subscribe_no_error split: option.split)
qed (simp_all add: subscribe_no_error)

theorem handlers_that_throw_witness:
  "snd (node_handle example_env (example_node []) (Unsubscribe \<lparr>sp_id = ''q'', sp_partition = 0\<rparr>)) =
     Some (ManagerError (NotSetUp (stream_key \<lparr>sp_id = ''q'', sp_partition = 0\<rparr>))) \<and>
   snd (node_handle example_env (example_node []) (TrackerConnected ''u'')) = Some (NotInPeerBook ''u'')"
proof -
  have ok: "node_ok example_env (example_node [])" by (rule example_node_ok) simp
  have "\<not> isSetUp (n_streams (example_node [])) \<lparr>sp_id = ''q'', sp_partition = 0\<rparr>"
    by (auto simp: isSetUp_def example_node_def example_stream_def dest: stream_key_inj)
  moreover have "ne_resolve example_env ''u'' = None" by (simp add: example_env_def)
  ultimately show ?thesis
    using handlers_that_throw [OF ok example_node_keys, of "Unsubscribe \<lparr>sp_id = ''q'', sp_partition = 0\<rparr>"]
      handlers_that_throw [OF ok example_node_keys, of "TrackerConnected ''u''"] by simp
qed

theorem node_stays_well_formed_witness:
  "node_ok example_env (foldl (node_step example_env) (new_node example_env []) example_events)"
  by (rule node_stays_well_formed) (simp add: example_env_def)

end
