(* ===== verification/WsEndpoint.thy ===== *)
theory WsEndpoint
  imports Identifiers Peers
begin

section \<open>The websocket endpoint\<close>

text \<open>
  \<open>src/src/connection/WsEndpoint.ts\<close>: the sockets between nodes and trackers, by the address
  of the other side. A socket is either outgoing, of the library \<open>ws\<close>, or incoming, of the
  server \<open>uWebSockets.js\<close>; neither library is modelled. Sockets are objects, given by numbers;
  \<open>we_sockets\<close> holds the properties the code puts on them, \<open>we_calls\<close> logs what it asks of
  the libraries, and what they report are inputs of the step function. What they answer
  (whether a call throws, how much is buffered) is an argument of each operation. Closing
  an incoming socket may call its close handler before it returns: \<open>end_calls_back\<close> says
  whether \<open>end\<close> does, \<open>close_calls_back\<close> with which reason \<open>close\<close> does, if at all.

  A promise is a number; \<open>we_promises\<close> has those that have settled, first settling first, and
  \<open>we_pending\<close> is the map \<open>pendingConnections\<close>. Settling a promise only queues the callback of
  its \<open>finally\<close>; \<open>we_reactions\<close> has the addresses whose callback is queued. An input runs its
  handler (\<open>ws_handle\<close>) and then the queue (\<open>run_reactions\<close>), as the event loop empties the
  queue of microtasks before it takes the next input.
  In the version headers, pieces that are not numbers are left out: they match no version.
\<close>

record ws_socket =
  outgoing :: bool
  sock_target :: string
  client_listeners :: "(string \<times> peer_info) option"
  sock_address :: "string option"
  sock_peer :: "peer_info option"
  upgraded_peer :: "peer_info option"
  highBackPressure :: bool
  respondedPong :: "bool option"
  sock_rttStart :: "int option"
  sock_rtt :: "int option"

datatype ws_event =
    WsPeerConnected peer_info
  | WsPeerDisconnected "peer_info option" string
  | WsMessageReceived "peer_info option" string
  | WsHighBackPressure "peer_info option"
  | WsLowBackPressure "peer_info option"
  | WsClosed nat string

datatype ws_call =
    CallClose nat string
  | CallTerminate nat
  | CallSend nat string
  | CallPing nat
  | CallOpen string

datatype promise_result = Resolved string | RejectedPromise

record ws_endpoint =
  we_connections :: "(string, nat) dict"
  we_pending :: "(string, nat) dict"
  we_book :: peer_book
  we_sockets :: "(nat, ws_socket) dict"
  we_calls :: "ws_call list"
  we_events :: "ws_event list"
  we_metrics :: "(string \<times> nat) list"
  we_promises :: "(nat \<times> promise_result) list"
  we_reactions :: "string list"
  we_next :: nat

record ws_env =
  we_address :: string
  we_localeCompare :: "string \<Rightarrow> string \<Rightarrow> int"
  end_calls_back :: bool
  close_calls_back :: "string option"

datatype ws_error = WsPeerNotFound string | WsTypeError

type_synonym ws_outcome = "(ws_endpoint, ws_error) outcome"

definition DUPLICATE_SOCKET :: string where
  "DUPLICATE_SOCKET = ''streamr:endpoint:duplicate-connection''"

definition DEAD_CONNECTION :: string where
  "DEAD_CONNECTION = ''streamr:endpoint:dead-connection''"

definition GRACEFUL_SHUTDOWN :: string where
  "GRACEFUL_SHUTDOWN = ''streamr:node:graceful-shutdown''"

definition HIGH_BACK_PRESSURE :: nat where
  "HIGH_BACK_PRESSURE = 1024 * 1024 * 2"

definition LOW_BACK_PRESSURE :: nat where
  "LOW_BACK_PRESSURE = 1024 * 1024"

definition new_ws_endpoint :: ws_endpoint where
  "new_ws_endpoint = \<lparr>we_connections = [], we_pending = [], we_book = [], we_sockets = [], we_calls = [], we_events = [],
     we_metrics = [], we_promises = [], we_reactions = [], we_next = 0\<rparr>"

definition new_socket :: "bool \<Rightarrow> string \<Rightarrow> ws_socket" where
  "new_socket out a = \<lparr>outgoing = out, sock_target = a, client_listeners = None, sock_address = None, sock_peer = None, upgraded_peer = None,
     highBackPressure = False, respondedPong = None, sock_rttStart = None, sock_rtt = None\<rparr>"

definition ws_record :: "(string \<times> nat) list \<Rightarrow> ws_endpoint \<Rightarrow> ws_endpoint" where
  "ws_record ms w = w\<lparr>we_metrics := we_metrics w @ ms\<rparr>"

definition ws_emit :: "ws_event \<Rightarrow> ws_endpoint \<Rightarrow> ws_endpoint" where
  "ws_emit e w = w\<lparr>we_events := we_events w @ [e]\<rparr>"

definition ws_call_lib :: "ws_call \<Rightarrow> ws_endpoint \<Rightarrow> ws_endpoint" where
  "ws_call_lib c w = w\<lparr>we_calls := we_calls w @ [c]\<rparr>"

definition socket_at :: "ws_endpoint \<Rightarrow> nat \<Rightarrow> ws_socket" where
  "socket_at w i = (case map_of (we_sockets w) i of None \<Rightarrow> new_socket True [] | Some s \<Rightarrow> s)"

definition set_socket :: "nat \<Rightarrow> (ws_socket \<Rightarrow> ws_socket) \<Rightarrow> ws_endpoint \<Rightarrow> ws_endpoint" where
  "set_socket i f w = w\<lparr>we_sockets := AList.update i (f (socket_at w i)) (we_sockets w)\<rparr>"

text \<open>
  The promise \<open>p\<close> of a call of \<open>connect\<close> to the address \<open>a\<close> settles: \<open>resolve\<close> or \<open>reject\<close> is
  called. The first call settles it and queues the callback of \<open>finally\<close>; later ones do nothing.
\<close>

definition settle_promise :: "string \<Rightarrow> nat \<Rightarrow> promise_result \<Rightarrow> ws_endpoint \<Rightarrow> ws_endpoint" where
  "settle_promise a p r w =
     (if has_key (we_promises w) p then w
      else w\<lparr>we_promises := we_promises w @ [(p, r)], we_reactions := we_reactions w @ [a]\<rparr>)"

text \<open>The queued callbacks run: each deletes the entry of its address.\<close>

definition run_reactions :: "ws_endpoint \<Rightarrow> ws_endpoint" where
  "run_reactions w = w\<lparr>we_pending := foldl (\<lambda>d a. AList.delete a d) (we_pending w) (we_reactions w), we_reactions := []\<rparr>"

subsection \<open>Closing\<close>

definition isConnected :: "ws_endpoint \<Rightarrow> string \<Rightarrow> bool" where
  "isConnected w a \<longleftrightarrow> has_key (we_connections w) a"

definition onClose :: "string \<Rightarrow> peer_info option \<Rightarrow> string \<Rightarrow> ws_endpoint \<Rightarrow> ws_endpoint" where
  "onClose a p reason w =
     (if reason = DUPLICATE_SOCKET then ws_record [(''open:duplicateSocket'', 1)] w
      else ws_emit (WsPeerDisconnected p reason)
        ((ws_record [(''close'', 1)] w)\<lparr>we_connections := AList.delete a (we_connections w)\<rparr>))"

text \<open>The close handler of the server and the close listener of an outgoing socket.\<close>

definition server_close :: "nat \<Rightarrow> string \<Rightarrow> ws_endpoint \<Rightarrow> ws_endpoint" where
  "server_close i reason w = (case sock_address (socket_at w i) of
       None \<Rightarrow> w
     | Some a \<Rightarrow> if isConnected w a then onClose a (getPeerInfo (we_book w) a) reason (ws_emit (WsClosed i reason) w) else w)"

definition client_close :: "nat \<Rightarrow> string \<Rightarrow> string \<Rightarrow> ws_endpoint \<Rightarrow> ws_endpoint" where
  "client_close i a reason w =
     (if reason = DUPLICATE_SOCKET then ws_record [(''open:duplicateSocket'', 1)] w
      else onClose a (getPeerInfo (we_book w) a) reason w)"

definition closeWs :: "ws_env \<Rightarrow> nat \<Rightarrow> string \<Rightarrow> ws_endpoint \<Rightarrow> ws_endpoint" where
  "closeWs env i reason w =
     (let w1 = ws_call_lib (CallClose i reason) w
      in if outgoing (socket_at w i) \<or> \<not> end_calls_back env then w1 else server_close i reason w1)"

text \<open>\<open>close\<close> of an incoming socket.\<close>

definition drop_incoming :: "ws_env \<Rightarrow> nat \<Rightarrow> ws_endpoint \<Rightarrow> ws_endpoint" where
  "drop_incoming env i w =
     (let w1 = ws_call_lib (CallTerminate i) w
      in case close_calls_back env of None \<Rightarrow> w1 | Some reason \<Rightarrow> server_close i reason w1)"

definition terminateWs :: "ws_env \<Rightarrow> nat \<Rightarrow> ws_endpoint \<Rightarrow> ws_endpoint" where
  "terminateWs env i w =
     (if outgoing (socket_at w i) then ws_call_lib (CallTerminate i) w else drop_incoming env i w)"

subsection \<open>Pings\<close>

text \<open>
  \<open>throws\<close> says which sockets' \<open>ping\<close> throws. An address whose connection went in the same
  round throws too, as does \<open>terminateWs\<close> on it, which catches that.
\<close>

definition ping_address :: "ws_env \<Rightarrow> int \<Rightarrow> (nat \<Rightarrow> bool) \<Rightarrow> ws_endpoint \<Rightarrow> string \<Rightarrow> ws_endpoint" where
  "ping_address env now throws w a = (case map_of (we_connections w) a of
       None \<Rightarrow> onClose a (getPeerInfo (we_book w) a) DEAD_CONNECTION w
     | Some i \<Rightarrow>
         let silent = (respondedPong (socket_at w i) = Some False);
             w1 = (if silent then w
                   else ws_call_lib (CallPing i) (set_socket i (\<lambda>s. s\<lparr>respondedPong := Some False, sock_rttStart := Some now\<rparr>) w))
         in if silent \<or> throws i
            then (let w2 = terminateWs env i w1 in onClose a (getPeerInfo (we_book w2) a) DEAD_CONNECTION w2)
            else w1)"

definition pingConnections :: "ws_env \<Rightarrow> int \<Rightarrow> (nat \<Rightarrow> bool) \<Rightarrow> ws_endpoint \<Rightarrow> ws_endpoint" where
  "pingConnections env now throws w = foldl (ping_address env now throws) w (keys_of (we_connections w))"

definition on_pong :: "int \<Rightarrow> nat \<Rightarrow> ws_endpoint \<Rightarrow> ws_endpoint" where
  "on_pong now i w = set_socket i (\<lambda>s. s\<lparr>respondedPong := Some True,
     sock_rtt := Some (now - (case sock_rttStart s of None \<Rightarrow> 0 | Some t \<Rightarrow> t))\<rparr>) w"

text \<open>The server looks the connection of the address up, which may be another socket.\<close>

definition server_pong :: "int \<Rightarrow> nat \<Rightarrow> ws_endpoint \<Rightarrow> ws_endpoint" where
  "server_pong now i w = (case Option.bind (sock_address (socket_at w i)) (map_of (we_connections w)) of
       None \<Rightarrow> w
     | Some j \<Rightarrow> on_pong now j w)"

subsection \<open>Sending\<close>

definition evaluateBackPressure :: "nat \<Rightarrow> nat \<Rightarrow> ws_endpoint \<Rightarrow> ws_endpoint" where
  "evaluateBackPressure buffered i w =
     (let s = socket_at w i in
      if \<not> highBackPressure s \<and> buffered > HIGH_BACK_PRESSURE then
        set_socket i (\<lambda>s. s\<lparr>highBackPressure := True\<rparr>) (ws_emit (WsHighBackPressure (sock_peer s)) w)
      else if highBackPressure s \<and> buffered < LOW_BACK_PRESSURE then
        set_socket i (\<lambda>s. s\<lparr>highBackPressure := False\<rparr>) (ws_emit (WsLowBackPressure (sock_peer s)) w)
      else w)"

definition resolveAddress :: "ws_endpoint \<Rightarrow> string \<Rightarrow> book_error + string" where
  "resolveAddress w pid = getAddress (we_book w) pid"

datatype send_result = SendSettled promise_result | SendOutstanding | SendThrew

definition sent_metrics :: "string \<Rightarrow> (string \<times> nat) list" where
  "sent_metrics m = [(''outSpeed'', length m), (''msgSpeed'', 1), (''msgOutSpeed'', 1)]"

text \<open>
  \<open>socketSend\<close>, told whether the library's \<open>send\<close> throws. The promise of an outgoing socket
  settles with the library's callback, that of one whose \<open>send\<close> throws never.
\<close>

definition socketSend :: "ws_env \<Rightarrow> bool \<Rightarrow> nat \<Rightarrow> nat \<Rightarrow> string \<Rightarrow> string \<Rightarrow> ws_endpoint \<Rightarrow> ws_endpoint \<times> send_result" where
  "socketSend env throws buffered i m pid w =
     (let w1 = ws_call_lib (CallSend i m) w in
      if throws then (terminateWs env i (ws_record [(''sendFailed'', 1)] w1), SendOutstanding)
      else if outgoing (socket_at w i) then (evaluateBackPressure buffered i w1, SendOutstanding)
      else (evaluateBackPressure buffered i (ws_record (sent_metrics m) w1), SendSettled (Resolved pid)))"

definition ws_send :: "ws_env \<Rightarrow> bool \<Rightarrow> nat \<Rightarrow> string \<Rightarrow> string \<Rightarrow> ws_endpoint \<Rightarrow> ws_endpoint \<times> send_result" where
  "ws_send env throws buffered pid m w = (case resolveAddress w pid of
       Inl _ \<Rightarrow> (w, SendThrew)
     | Inr a \<Rightarrow>
         (case map_of (we_connections w) a of
            None \<Rightarrow> (ws_record [(''sendFailed'', 1)] w, SendSettled RejectedPromise)
          | Some i \<Rightarrow> socketSend env throws buffered i m pid w))"

text \<open>The callback of an outgoing socket's \<open>send\<close>.\<close>

definition send_callback :: "bool \<Rightarrow> string \<Rightarrow> ws_endpoint \<Rightarrow> ws_endpoint" where
  "send_callback failed m w = ws_record (if failed then [(''sendFailed'', 1)] else sent_metrics m) w"

definition onReceive :: "peer_info option \<Rightarrow> string \<Rightarrow> ws_endpoint \<Rightarrow> ws_endpoint" where
  "onReceive p m w = ws_emit (WsMessageReceived p m) w"

definition server_message :: "nat \<Rightarrow> string \<Rightarrow> ws_endpoint \<Rightarrow> ws_endpoint" where
  "server_message i m w = (case sock_address (socket_at w i) of
       None \<Rightarrow> w
     | Some a \<Rightarrow> if isConnected w a then onReceive (sock_peer (socket_at w i)) m w else w)"

definition client_message :: "peer_info \<Rightarrow> string \<Rightarrow> ws_endpoint \<Rightarrow> ws_endpoint" where
  "client_message p m w =
     onReceive (Some p) m (ws_record [(''inSpeed'', length m), (''msgSpeed'', 1), (''msgInSpeed'', 1)] w)"

definition ws_close :: "ws_env \<Rightarrow> string \<Rightarrow> string \<Rightarrow> ws_endpoint \<Rightarrow> ws_outcome" where
  "ws_close env pid reason w = (case resolveAddress w pid of
       Inl _ \<Rightarrow> (w, Some (WsPeerNotFound pid))
     | Inr a \<Rightarrow>
         let w1 = ws_record [(''close'', 1)] w in
         (case map_of (we_connections w1) a of
            None \<Rightarrow> (w1, None)
          | Some i \<Rightarrow> (closeWs env i reason w1, None)))"

subsection \<open>New connections\<close>

definition onNewConnection :: "ws_env \<Rightarrow> nat \<Rightarrow> string \<Rightarrow> peer_info \<Rightarrow> ws_endpoint \<Rightarrow> ws_endpoint \<times> bool" where
  "onNewConnection env i a p w =
     (if isConnected w a \<and> we_localeCompare env (we_address env) a = 1
      then (closeWs env i DUPLICATE_SOCKET (ws_record [(''open:duplicateSocket'', 1)] w), False)
      else let w1 = set_socket i (\<lambda>s. s\<lparr>sock_peer := Some p, sock_address := Some a\<rparr>) w;
               w2 = ws_record [(''open'', 1)] (w1\<lparr>we_book := book_add (we_book w1) a p,
                      we_connections := AList.update a i (we_connections w1)\<rparr>)
           in (ws_emit (WsPeerConnected p) w2, True))"

fun split_comma :: "string \<Rightarrow> string list" where
  "split_comma [] = [[]]"
| "split_comma (c # s) = (if c = CHR '','' then [] # split_comma s
     else case split_comma s of [] \<Rightarrow> [[c]] | p # ps \<Rightarrow> (c # p) # ps)"

fun join_comma :: "string list \<Rightarrow> string" where
  "join_comma [] = []"
| "join_comma [p] = p"
| "join_comma (p # q # ps) = p @ CHR '','' # join_comma (q # ps)"

definition parse_versions :: "string \<Rightarrow> int list" where
  "parse_versions s = List.map_filter parseInt (split_comma s)"

record ws_headers =
  hdr_peerId :: string
  hdr_peerType :: string
  hdr_control :: string
  hdr_message :: string

definition toHeaders :: "peer_info \<Rightarrow> ws_headers" where
  "toHeaders p = \<lparr>hdr_peerId = peerId p, hdr_peerType = peer_type_name (peerType p),
     hdr_control = join_comma (map show_int (controlLayerVersions p)),
     hdr_message = join_comma (map show_int (messageLayerVersions p))\<rparr>"

text \<open>
  \<open>new PeerInfo\<close> with what the headers say. A split header has at least one piece, so the
  constructor gets two arrays that are not empty, whatever the pieces are.
\<close>

definition peer_of_headers :: "ws_headers \<Rightarrow> peer_error + peer_info" where
  "peer_of_headers h =
     (case new_peer_info (hdr_peerId h) (hdr_peerType h) (Some [0]) (Some [0]) None None of
        Inl e \<Rightarrow> Inl e
      | Inr p \<Rightarrow> Inr (p\<lparr>controlLayerVersions := parse_versions (hdr_control h),
                       messageLayerVersions := parse_versions (hdr_message h)\<rparr>))"

text \<open>An incoming socket opens, with the address of its query and its headers.\<close>

definition onIncomingConnection :: "ws_env \<Rightarrow> string \<Rightarrow> ws_headers \<Rightarrow> ws_endpoint \<Rightarrow> ws_endpoint" where
  "onIncomingConnection env a h w =
     (let i = we_next w;
          w1 = set_socket i (\<lambda>_. (new_socket False a)\<lparr>sock_address := Some a\<rparr>) (w\<lparr>we_next := i + 1\<rparr>);
          refuse = closeWs env i ''missing parameter'' (ws_record [(''open:missingParameter'', 1)] w1)
      in if a = [] \<or> hdr_peerId h = [] \<or> hdr_peerType h = [] \<or> hdr_control h = [] \<or> hdr_message h = [] then refuse
         else case peer_of_headers h of
           Inl _ \<Rightarrow> refuse
         | Inr p \<Rightarrow>
             if isConnected w1 a then drop_incoming env i (ws_record [(''open:duplicateSocket'', 1)] w1)
             else fst (onNewConnection env i a p w1))"

text \<open>
  \<open>connect\<close>, told whether the existing socket is open and whether the constructor of the new
  one throws. It returns a promise: a number, or one that has settled. A socket of the server
  has neither \<open>readyState\<close> nor \<open>OPEN\<close>, and counts as open.
\<close>

datatype connect_result = ConnectSettled promise_result | ConnectPromise nat | ConnectThrew

definition new_outgoing :: "ws_env \<Rightarrow> bool \<Rightarrow> string \<Rightarrow> ws_endpoint \<Rightarrow> ws_endpoint \<times> connect_result" where
  "new_outgoing env throws a w =
     (if a = we_address env then (ws_record [(''open:ownAddress'', 1)] w, ConnectSettled RejectedPromise)
      else case map_of (we_pending w) a of
        Some p \<Rightarrow> (w, ConnectPromise p)
      | None \<Rightarrow>
          let p = we_next w; w1 = w\<lparr>we_next := p + 1, we_pending := AList.update a p (we_pending w)\<rparr> in
          if throws then (settle_promise a p RejectedPromise (ws_record [(''open:failedException'', 1)] w1), ConnectPromise p)
          else (ws_call_lib (CallOpen a) (set_socket p (\<lambda>_. new_socket True a) w1), ConnectPromise p))"

definition ws_connect :: "ws_env \<Rightarrow> bool \<Rightarrow> bool \<Rightarrow> string \<Rightarrow> ws_endpoint \<Rightarrow> ws_endpoint \<times> connect_result" where
  "ws_connect env is_open throws a w = (case map_of (we_connections w) a of
       None \<Rightarrow> new_outgoing env throws a w
     | Some i \<Rightarrow>
        (case getPeerId (we_book w) a of
           Inl _ \<Rightarrow> (w, ConnectThrew)
         | Inr pid \<Rightarrow>
             if is_open \<or> \<not> outgoing (socket_at w i) then (w, ConnectSettled (Resolved pid))
             else (case ws_close env pid GRACEFUL_SHUTDOWN w of
                 (w1, None) \<Rightarrow> new_outgoing env throws a w1
               | (w1, Some _) \<Rightarrow> (w1, ConnectThrew))))"

text \<open>
  The listeners of an outgoing socket: the upgrade response, the opening, an error. The number
  of the socket is that of the promise, \<open>sock_target\<close> the address they captured, and
  \<open>client_listeners\<close> what the listeners of \<open>addListeners\<close> captured, once they are there.
\<close>

definition on_upgrade :: "nat \<Rightarrow> ws_headers \<Rightarrow> ws_endpoint \<Rightarrow> ws_endpoint" where
  "on_upgrade i h w =
     (if hdr_peerId h \<noteq> [] \<and> hdr_peerType h \<noteq> [] \<and> hdr_control h \<noteq> [] \<and> hdr_message h \<noteq> []
      then (case peer_of_headers h of Inl _ \<Rightarrow> w | Inr p \<Rightarrow> set_socket i (\<lambda>s. s\<lparr>upgraded_peer := Some p\<rparr>) w)
      else w)"

definition addListeners :: "nat \<Rightarrow> string \<Rightarrow> peer_info \<Rightarrow> ws_endpoint \<Rightarrow> ws_endpoint" where
  "addListeners i a p w = set_socket i (\<lambda>s. s\<lparr>client_listeners := Some (a, p)\<rparr>) w"

definition on_open :: "ws_env \<Rightarrow> nat \<Rightarrow> ws_endpoint \<Rightarrow> ws_endpoint" where
  "on_open env i w = (let a = sock_target (socket_at w i) in
     case upgraded_peer (socket_at w i) of
       None \<Rightarrow> settle_promise a i RejectedPromise (ws_record [(''open:headersNotReceived'', 1)] (terminateWs env i w))
     | Some p \<Rightarrow>
         (case onNewConnection env i a p (addListeners i a p w) of
            (w1, True) \<Rightarrow> (case getPeerId (we_book w1) a of
               Inl _ \<Rightarrow> w1
             | Inr pid \<Rightarrow> settle_promise a i (Resolved pid) w1)
          | (w1, False) \<Rightarrow> settle_promise a i RejectedPromise w1))"

definition on_error :: "ws_env \<Rightarrow> nat \<Rightarrow> ws_endpoint \<Rightarrow> ws_endpoint" where
  "on_error env i w = settle_promise (sock_target (socket_at w i)) i RejectedPromise (terminateWs env i (ws_record [(''webSocketError'', 1)] w))"

subsection \<open>Stopping and reading\<close>

definition ws_stop :: "ws_env \<Rightarrow> ws_endpoint \<Rightarrow> ws_endpoint" where
  "ws_stop env w = foldl (\<lambda>w i. closeWs env i GRACEFUL_SHUTDOWN w) w (values_of (we_connections w))"

definition add_rtt :: "ws_endpoint \<Rightarrow> book_error + (string, int) dict \<Rightarrow> string \<times> nat \<Rightarrow> book_error + (string, int) dict" where
  "add_rtt w d x = (case d of
       Inl e \<Rightarrow> Inl e
     | Inr d \<Rightarrow> (case getPeerId (we_book w) (fst x) of
         Inl e \<Rightarrow> Inl e
       | Inr pid \<Rightarrow> (case sock_rtt (socket_at w (snd x)) of None \<Rightarrow> Inr d | Some r \<Rightarrow> Inr (AList.update pid r d))))"

definition ws_getRtts :: "ws_endpoint \<Rightarrow> book_error + (string, int) dict" where
  "ws_getRtts w = foldl (add_rtt w) (Inr []) (we_connections w)"

definition getPeerInfos :: "ws_endpoint \<Rightarrow> peer_info list" where
  "getPeerInfos w = List.map_filter (getPeerInfo (we_book w)) (keys_of (we_connections w))"

subsection \<open>Inputs\<close>

datatype ws_input =
    WsConnect bool bool string
  | WsSend bool nat string string
  | WsClose string string
  | WsStop
  | PingInterval int "nat \<Rightarrow> bool"
  | Incoming string ws_headers
  | ServerMessage nat string
  | ServerDrain nat nat
  | ServerClose nat string
  | ServerPong nat int
  | Upgraded nat ws_headers
  | Opened nat
  | SocketError nat
  | ClientMessage nat string
  | ClientPong nat int
  | ClientClose nat string
  | SendCallback bool string

text \<open>Only sockets that exist report, each to the listeners of its own library.\<close>

definition exists_socket :: "bool \<Rightarrow> nat \<Rightarrow> ws_endpoint \<Rightarrow> bool" where
  "exists_socket out i w \<longleftrightarrow> (case map_of (we_sockets w) i of None \<Rightarrow> False | Some s \<Rightarrow> outgoing s = out)"

fun ws_handle :: "ws_env \<Rightarrow> ws_endpoint \<Rightarrow> ws_input \<Rightarrow> ws_endpoint" where
  "ws_handle env w (WsConnect is_open throws a) = fst (ws_connect env is_open throws a w)"
| "ws_handle env w (WsSend throws buffered pid m) = fst (ws_send env throws buffered pid m w)"
| "ws_handle env w (WsClose pid reason) = fst (ws_close env pid reason w)"
| "ws_handle env w WsStop = ws_stop env w"
| "ws_handle env w (PingInterval now throws) = pingConnections env now throws w"
| "ws_handle env w (Incoming a h) = onIncomingConnection env a h w"
| "ws_handle env w (ServerMessage i m) = (if exists_socket False i w then server_message i m w else w)"
| "ws_handle env w (ServerDrain i buffered) = (if exists_socket False i w then evaluateBackPressure buffered i w else w)"
| "ws_handle env w (ServerClose i reason) = (if exists_socket False i w then server_close i reason w else w)"
| "ws_handle env w (ServerPong i now) = (if exists_socket False i w then server_pong now i w else w)"
| "ws_handle env w (Upgraded i h) = (if exists_socket True i w then on_upgrade i h w else w)"
| "ws_handle env w (Opened i) = (if exists_socket True i w then on_open env i w else w)"
| "ws_handle env w (SocketError i) = (if exists_socket True i w then on_error env i w else w)"
| "ws_handle env w (ClientMessage i m) =
     (case client_listeners (socket_at w i) of None \<Rightarrow> w | Some (_, p) \<Rightarrow> client_message p m w)"
| "ws_handle env w (ClientPong i now) =
     (case client_listeners (socket_at w i) of None \<Rightarrow> w | Some _ \<Rightarrow> on_pong now i w)"
| "ws_handle env w (ClientClose i reason) =
     (case client_listeners (socket_at w i) of None \<Rightarrow> w | Some (a, _) \<Rightarrow> client_close i a reason w)"
| "ws_handle env w (SendCallback failed m) = send_callback failed m w"

text \<open>One input: its handler, then the callbacks it queued.\<close>

definition ws_step :: "ws_env \<Rightarrow> ws_endpoint \<Rightarrow> ws_input \<Rightarrow> ws_endpoint" where
  "ws_step env w x = run_reactions (ws_handle env w x)"

end
