(* ===== verification/WsPromises.thy ===== *)
theory WsPromises
  imports WsEndpoint
begin

section \<open>What the websocket endpoint promises\<close>

text \<open>
  The invariant \<open>ws_ok\<close>: every address with a connection is in the peer book with the
  description its socket carries, and every promise that \<open>pendingConnections\<close> holds has not
  settled and belongs to the outgoing socket that connects to its address, or its entry is
  about to be deleted by a queued callback.
\<close>

definition socket_ok :: "ws_endpoint \<Rightarrow> nat \<Rightarrow> ws_socket \<Rightarrow> bool" where
  "socket_ok w i s \<longleftrightarrow> i < we_next w \<and> (\<forall>a. sock_address s = Some a \<longrightarrow> sock_target s = a) \<and>
     (\<forall>a p. client_listeners s = Some (a, p) \<longrightarrow> sock_target s = a)"

definition pending_for :: "ws_endpoint \<Rightarrow> string \<Rightarrow> nat \<Rightarrow> bool" where
  "pending_for w a p \<longleftrightarrow> (if has_key (we_promises w) p then a \<in> set (we_reactions w)
     else \<exists>s. map_of (we_sockets w) p = Some s \<and> outgoing s \<and> sock_target s = a)"

definition ws_ok :: "ws_endpoint \<Rightarrow> bool" where
  "ws_ok w \<longleftrightarrow> dict_ok (we_connections w) \<and> dict_ok (we_pending w) \<and>
     (\<forall>i s. map_of (we_sockets w) i = Some s \<longrightarrow> socket_ok w i s) \<and>
     (\<forall>a i. map_of (we_connections w) a = Some i \<longrightarrow>
        (\<exists>s p. map_of (we_sockets w) i = Some s \<and> sock_address s = Some a \<and> sock_peer s = Some p \<and>
           map_of (we_book w) a = Some p)) \<and>
     (\<forall>a p. map_of (we_pending w) a = Some p \<longrightarrow> pending_for w a p) \<and>
     (\<forall>p. has_key (we_promises w) p \<longrightarrow> p < we_next w) \<and> dict_ok (we_promises w)"

lemma ws_okD:
  assumes "ws_ok w"
  shows "dict_ok (we_connections w)" "dict_ok (we_pending w)"
    "map_of (we_sockets w) i = Some s \<Longrightarrow> socket_ok w i s"
    "map_of (we_connections w) a = Some i \<Longrightarrow> \<exists>s p. map_of (we_sockets w) i = Some s \<and> sock_address s = Some a \<and>
       sock_peer s = Some p \<and> map_of (we_book w) a = Some p"
    "map_of (we_pending w) a = Some q \<Longrightarrow> pending_for w a q"
    "has_key (we_promises w) q \<Longrightarrow> q < we_next w" "dict_ok (we_promises w)"
  using assms unfolding ws_ok_def by blast+

subsection \<open>Changes that the invariant does not see\<close>

definition same_socket :: "ws_socket \<Rightarrow> ws_socket \<Rightarrow> bool" where
  "same_socket s t \<longleftrightarrow> outgoing t = outgoing s \<and> sock_target t = sock_target s \<and> sock_address t = sock_address s \<and>
     sock_peer t = sock_peer s \<and> client_listeners t = client_listeners s"

text \<open>Connections may go, but the sockets, the book and the promises stay.\<close>

definition fewer :: "ws_endpoint \<Rightarrow> ws_endpoint \<Rightarrow> bool" where
  "fewer w v \<longleftrightarrow> we_book v = we_book w \<and> we_pending v = we_pending w \<and> we_promises v = we_promises w \<and>
     we_reactions v = we_reactions w \<and> we_next v = we_next w \<and> (dict_ok (we_connections w) \<longrightarrow> dict_ok (we_connections v)) \<and>
     (\<forall>a i. map_of (we_connections v) a = Some i \<longrightarrow> map_of (we_connections w) a = Some i) \<and>
     (\<forall>i. rel_option same_socket (map_of (we_sockets w) i) (map_of (we_sockets v) i))"

lemma fewerD:
  assumes "fewer w v"
  shows "we_book v = we_book w" "we_pending v = we_pending w" "we_promises v = we_promises w" "we_next v = we_next w"
    "dict_ok (we_connections w) \<Longrightarrow> dict_ok (we_connections v)"
    "map_of (we_connections v) a = Some i \<Longrightarrow> map_of (we_connections w) a = Some i"
    "rel_option same_socket (map_of (we_sockets w) i) (map_of (we_sockets v) i)" "we_reactions v = we_reactions w"
  using assms unfolding fewer_def by blast+

lemma same_socket_refl: "same_socket s s" by (simp add: same_socket_def)

lemma same_socket_trans: "same_socket r s \<Longrightarrow> same_socket s t \<Longrightarrow> same_socket r t" by (simp add: same_socket_def)

lemma fewer_refl: "fewer w w" by (simp add: fewer_def same_socket_refl option.rel_refl)

lemma fewer_trans:
  assumes "fewer u v" "fewer v w" shows "fewer u w"
proof -
  have "rel_option same_socket (map_of (we_sockets u) i) (map_of (we_sockets w) i)" for i
    using fewerD(7) [OF assms(1), of i] fewerD(7) [OF assms(2), of i]
    by (cases "map_of (we_sockets u) i"; cases "map_of (we_sockets v) i"; cases "map_of (we_sockets w) i")
      (auto intro: same_socket_trans)
  then show ?thesis
    using fewerD(1-5,8) [OF assms(1)] fewerD(1-5,8) [OF assms(2)] fewerD(6) [OF assms(1)] fewerD(6) [OF assms(2)]
    unfolding fewer_def by simp
qed

lemma fewer_socket:
  assumes "fewer w v" "map_of (we_sockets w) i = Some s"
  shows "\<exists>t. map_of (we_sockets v) i = Some t \<and> same_socket s t"
  using fewerD(7) [OF assms(1), of i] assms(2) by (cases "map_of (we_sockets v) i") auto

lemma fewer_socket':
  assumes "fewer w v" "map_of (we_sockets v) i = Some t"
  shows "\<exists>s. map_of (we_sockets w) i = Some s \<and> same_socket s t"
  using fewerD(7) [OF assms(1), of i] assms(2) by (cases "map_of (we_sockets w) i") auto

lemma fewer_ok:
  assumes f: "fewer w v" and ok: "ws_ok w" shows "ws_ok v"
proof -
  note e = fewerD(1-4,8) [OF f]
  have "socket_ok v i t" if m: "map_of (we_sockets v) i = Some t" for i t
  proof -
    obtain s where "map_of (we_sockets w) i = Some s" "same_socket s t" using fewer_socket' [OF f m] by blast
    with ws_okD(3) [OF ok, of i s] e show ?thesis unfolding socket_ok_def same_socket_def by simp
  qed
  moreover have "\<exists>t p. map_of (we_sockets v) i = Some t \<and> sock_address t = Some a \<and> sock_peer t = Some p \<and>
      map_of (we_book v) a = Some p" if "map_of (we_connections v) a = Some i" for a i
    using ws_okD(4) [OF ok fewerD(6) [OF f that]] fewer_socket [OF f, of i] e by (auto simp: same_socket_def)
  moreover have "pending_for v a p" if m: "map_of (we_pending v) a = Some p" for a p
    using ws_okD(5) [OF ok, of a p] m e fewer_socket [OF f, of p]
    by (fastforce simp: pending_for_def same_socket_def split: if_splits)
  ultimately show ?thesis
    using fewerD(5) [OF f ws_okD(1) [OF ok]] ws_okD(2,6,7) [OF ok] unfolding ws_ok_def e by blast
qed

lemma fewer_logs:
  "fewer w (ws_record ms w)" "fewer w (ws_emit e w)" "fewer w (ws_call_lib c w)"
  "fewer w (w\<lparr>we_connections := AList.delete a (we_connections w)\<rparr>)"
  by (simp_all add: fewer_def ws_record_def ws_emit_def ws_call_lib_def same_socket_refl option.rel_refl)

lemma fewer_set:
  assumes "map_of (we_sockets w) i = Some s" "same_socket s (f s)" shows "fewer w (set_socket i f w)"
  using assms by (auto simp: fewer_def set_socket_def socket_at_def same_socket_refl intro!: option.rel_refl)

lemma fewer_onClose: "fewer w (onClose a p r w)"
proof -
  have "fewer w ((ws_record [(''close'', 1)] w)\<lparr>we_connections := AList.delete a (we_connections w)\<rparr>)"
    by (simp add: fewer_def ws_record_def same_socket_refl option.rel_refl)
  then show ?thesis using fewer_logs(1) fewer_trans [OF _ fewer_logs(2)] by (simp add: onClose_def)
qed

lemma fewer_server_close: "fewer w (server_close i r w)"
  using fewer_trans [OF fewer_logs(2) fewer_onClose] fewer_refl
  by (auto simp: server_close_def split: option.split)

lemma fewer_client_close: "fewer w (client_close i a r w)"
  using fewer_onClose fewer_logs(1) by (simp add: client_close_def)

lemma fewer_closeWs: "fewer w (closeWs env i r w)"
  using fewer_logs(3) fewer_trans [OF fewer_logs(3) fewer_server_close] by (simp add: closeWs_def Let_def)

lemma fewer_drop: "fewer w (drop_incoming env i w)"
  using fewer_logs(3) fewer_trans [OF fewer_logs(3) fewer_server_close]
  by (simp add: drop_incoming_def Let_def split: option.split)

lemma fewer_terminate: "fewer w (terminateWs env i w)"
  using fewer_drop fewer_logs(3) by (simp add: terminateWs_def)

lemma connected_socket:
  "ws_ok w \<Longrightarrow> map_of (we_connections w) a = Some i \<Longrightarrow> \<exists>s. map_of (we_sockets w) i = Some s"
  using ws_okD(4) by blast

lemma fewer_ping:
  assumes ok: "ws_ok w" shows "fewer w (ping_address env now throws w a)"
proof (cases "map_of (we_connections w) a")
  case (Some i)
  obtain s where "map_of (we_sockets w) i = Some s" using connected_socket [OF ok Some] by blast
  then have "fewer w (set_socket i (\<lambda>s. s\<lparr>respondedPong := Some False, sock_rttStart := Some now\<rparr>) w)"
    by (rule fewer_set) (simp add: same_socket_def)
  then have "fewer w (ws_call_lib c (set_socket i (\<lambda>s. s\<lparr>respondedPong := Some False, sock_rttStart := Some now\<rparr>) w))" for c
    using fewer_trans [OF _ fewer_logs(3)] by blast
  note this fewer_trans [OF this fewer_trans [OF fewer_terminate fewer_onClose]]
    fewer_trans [OF fewer_terminate fewer_onClose]
  then show ?thesis by (simp add: ping_address_def Some Let_def)
qed (simp add: ping_address_def fewer_onClose)

lemma fewer_pings:
  assumes ok: "ws_ok w" shows "fewer w (pingConnections env now throws w)"
proof -
  have "fewer w (foldl (ping_address env now throws) v as)" if "fewer w v" for v as
    using that
  proof (induction as arbitrary: v)
    case (Cons a as)
    then show ?case using fewer_trans [OF Cons.prems fewer_ping [OF fewer_ok [OF Cons.prems ok]]] by simp
  qed simp
  then show ?thesis using fewer_refl by (simp add: pingConnections_def)
qed

lemma fewer_pong: "map_of (we_sockets w) i = Some s \<Longrightarrow> fewer w (on_pong now i w)"
  unfolding on_pong_def by (rule fewer_set) (simp_all add: same_socket_def)

lemma fewer_pressure:
  assumes s: "map_of (we_sockets w) i = Some s" shows "fewer w (evaluateBackPressure b i w)"
proof -
  have "map_of (we_sockets (ws_emit e w)) i = Some s" for e using s by (simp add: ws_emit_def)
  then have "fewer w (set_socket i (\<lambda>s. s\<lparr>highBackPressure := x\<rparr>) (ws_emit e w))" for e x
    using fewer_trans [OF fewer_logs(2) fewer_set, of e w i s "\<lambda>s. s\<lparr>highBackPressure := x\<rparr>"]
    by (simp add: same_socket_def)
  then show ?thesis using fewer_refl by (simp add: evaluateBackPressure_def Let_def)
qed

lemma fewer_send:
  assumes ok: "ws_ok w" shows "fewer w (fst (ws_send env throws b pid m w))"
proof (cases "resolveAddress w pid")
  case (Inr a)
  show ?thesis
  proof (cases "map_of (we_connections w) a")
    case None
    then show ?thesis using Inr fewer_logs(1) by (simp add: ws_send_def)
  next
    case (Some i)
    obtain s where s: "map_of (we_sockets w) i = Some s" using connected_socket [OF ok Some] by blast
    let ?w = "ws_call_lib (CallSend i m) w"
    have s1: "map_of (we_sockets ?w) i = Some s" "map_of (we_sockets (ws_record ms ?w)) i = Some s" for ms
      using s by (simp_all add: ws_call_lib_def ws_record_def)
    have c: "fewer w ?w" "fewer w (ws_record ms ?w)" for ms
      using fewer_logs(3) fewer_trans [OF fewer_logs(3) fewer_logs(1)] by blast+
    show ?thesis
      using fewer_trans [OF c(2) fewer_terminate] fewer_trans [OF c(1) fewer_pressure [OF s1(1)]]
        fewer_trans [OF c(2) fewer_pressure [OF s1(2)]] Inr Some
      by (simp add: ws_send_def socketSend_def Let_def)
  qed
qed (simp add: ws_send_def fewer_refl)

lemma fewer_close: "fewer w (fst (ws_close env pid r w))"
  using fewer_trans [OF fewer_logs(1) fewer_closeWs] fewer_logs(1) fewer_refl
  by (simp add: ws_close_def Let_def split: sum.split option.split)

lemma fewer_stop: "fewer w (ws_stop env w)"
proof -
  have "fewer w (foldl (\<lambda>w i. closeWs env i r w) v is)" if "fewer w v" for v "is" r
    using that by (induction "is" arbitrary: v) (auto intro: fewer_trans [OF _ fewer_closeWs])
  then show ?thesis using fewer_refl by (simp add: ws_stop_def)
qed

subsection \<open>Changes that the invariant sees\<close>

lemma socket_at_eq [simp]: "map_of (we_sockets w) i = Some s \<Longrightarrow> socket_at w i = s"
  by (simp add: socket_at_def)

lemma set_socket_fields [simp]:
  "we_connections (set_socket i f w) = we_connections w" "we_pending (set_socket i f w) = we_pending w"
  "we_book (set_socket i f w) = we_book w" "we_promises (set_socket i f w) = we_promises w"
  "we_next (set_socket i f w) = we_next w" "we_reactions (set_socket i f w) = we_reactions w"
  "map_of (we_sockets (set_socket i f w)) = (map_of (we_sockets w))(i \<mapsto> f (socket_at w i))"
  by (simp_all add: set_socket_def AList.update_conv')

lemma set_listeners_ok:
  assumes ok: "ws_ok w" and s: "map_of (we_sockets w) i = Some s"
  shows "ws_ok (addListeners i (sock_target s) p w)"
proof -
  let ?v = "addListeners i (sock_target s) p w"
  have "socket_ok ?v j t" if m: "map_of (we_sockets ?v) j = Some t" for j t
    using m s ws_okD(3) [OF ok s] ws_okD(3) [OF ok, of j t] unfolding addListeners_def socket_ok_def
    by (auto split: if_splits)
  moreover have "\<exists>t p'. map_of (we_sockets ?v) j = Some t \<and> sock_address t = Some a \<and> sock_peer t = Some p' \<and>
      map_of (we_book w) a = Some p'" if "map_of (we_connections w) a = Some j" for a j
    using ws_okD(4) [OF ok that] s by (auto simp: addListeners_def)
  moreover have "pending_for ?v a q" if "map_of (we_pending w) a = Some q" for a q
    using ws_okD(5) [OF ok that] s by (auto simp: pending_for_def addListeners_def)
  ultimately show ?thesis using ws_okD(1,2,6,7) [OF ok] by (simp add: ws_ok_def addListeners_def)
qed

text \<open>Registering the socket \<open>i\<close> under the address it was opened for.\<close>

definition registered :: "nat \<Rightarrow> peer_info \<Rightarrow> ws_endpoint \<Rightarrow> ws_endpoint" where
  "registered i p w = (let a = sock_target (socket_at w i);
       w1 = set_socket i (\<lambda>s. s\<lparr>sock_peer := Some p, sock_address := Some a\<rparr>) w
     in w1\<lparr>we_book := book_add (we_book w1) a p, we_connections := AList.update a i (we_connections w1)\<rparr>)"

lemma registered_ws_ok:
  assumes ok: "ws_ok w" and s: "map_of (we_sockets w) i = Some s"
  shows "ws_ok (registered i p w)"
proof -
  let ?v = "registered i p w" and ?a = "sock_target s"
  have f: "we_connections ?v = AList.update ?a i (we_connections w)" "we_pending ?v = we_pending w"
    "map_of (we_book ?v) = (map_of (we_book w))(?a \<mapsto> p)" "we_promises ?v = we_promises w" "we_next ?v = we_next w"
    "we_reactions ?v = we_reactions w" "map_of (we_sockets ?v) = (map_of (we_sockets w))(i \<mapsto> s\<lparr>sock_peer := Some p, sock_address := Some ?a\<rparr>)"
    using s by (simp_all add: registered_def Let_def book_add_def AList.update_conv')
  have "socket_ok ?v j t" if m: "map_of (we_sockets ?v) j = Some t" for j t
    using m s ws_okD(3) [OF ok s] ws_okD(3) [OF ok, of j t] unfolding f socket_ok_def
    by (auto split: if_splits)
  moreover have "\<exists>t p'. map_of (we_sockets ?v) j = Some t \<and> sock_address t = Some a \<and> sock_peer t = Some p' \<and>
      map_of (we_book ?v) a = Some p'" if m: "map_of (we_connections ?v) a = Some j" for a j
  proof (cases "a = ?a")
    case True
    then show ?thesis using m unfolding f by simp
  next
    case False
    then have "map_of (we_connections w) a = Some j" using m unfolding f by simp
    then obtain t p' where t: "map_of (we_sockets w) j = Some t" "sock_address t = Some a" "sock_peer t = Some p'"
      "map_of (we_book w) a = Some p'" using ws_okD(4) [OF ok] by blast
    have "j \<noteq> i" using ws_okD(3) [OF ok t(1)] t(1,2) s False by (auto simp: socket_ok_def)
    then show ?thesis using t False unfolding f by simp
  qed
  moreover have "pending_for ?v a q" if "map_of (we_pending w) a = Some q" for a q
    using ws_okD(5) [OF ok that] s unfolding pending_for_def f by auto
  ultimately show ?thesis using ws_okD(1,2,6,7) [OF ok] unfolding ws_ok_def f by simp
qed

lemma onNewConnection_parts:
  assumes ok: "ws_ok w" and s: "map_of (we_sockets w) i = Some s"
  shows "ws_ok (fst (onNewConnection env i (sock_target s) p w))"
    "we_next (fst (onNewConnection env i (sock_target s) p w)) = we_next w"
    "\<exists>t. map_of (we_sockets (fst (onNewConnection env i (sock_target s) p w))) i = Some t \<and> sock_target t = sock_target s"
proof -
  let ?w = "ws_record [(''open'', 1)] (registered i p w)"
  have e: "onNewConnection env i (sock_target s) p w =
      (if isConnected w (sock_target s) \<and> we_localeCompare env (we_address env) (sock_target s) = 1
       then (closeWs env i DUPLICATE_SOCKET (ws_record [(''open:duplicateSocket'', 1)] w), False)
       else (ws_emit (WsPeerConnected p) ?w, True))"
    using s by (simp add: onNewConnection_def registered_def Let_def)
  have c: "fewer w (closeWs env i DUPLICATE_SOCKET (ws_record ms w))" for ms
    using fewer_trans [OF fewer_logs(1) fewer_closeWs] by blast
  have o: "fewer (registered i p w) (ws_emit x ?w)" for x using fewer_trans [OF fewer_logs(1) fewer_logs(2)] by blast
  show "ws_ok (fst (onNewConnection env i (sock_target s) p w))"
    using fewer_ok [OF c ok] fewer_ok [OF o registered_ws_ok [OF ok s]] by (simp add: e)
  show "we_next (fst (onNewConnection env i (sock_target s) p w)) = we_next w"
    using fewerD(4) [OF c] fewerD(4) [OF o] by (simp add: e registered_def Let_def)
  have r: "map_of (we_sockets (registered i p w)) i = Some (s\<lparr>sock_peer := Some p, sock_address := Some (sock_target s)\<rparr>)"
    using s by (simp add: registered_def Let_def)
  show "\<exists>t. map_of (we_sockets (fst (onNewConnection env i (sock_target s) p w))) i = Some t \<and> sock_target t = sock_target s"
    using fewer_socket [OF c s] fewer_socket [OF o r] by (auto simp: e same_socket_def)
qed

lemma settle_ok:
  assumes ok: "ws_ok w" and s: "map_of (we_sockets w) p = Some s"
  shows "ws_ok (settle_promise (sock_target s) p r w)"
proof (cases "has_key (we_promises w) p")
  case False
  define a where a: "a = sock_target s"
  let ?v = "settle_promise a p r w"
  have f: "we_connections ?v = we_connections w" "we_sockets ?v = we_sockets w" "we_book ?v = we_book w"
    "we_next ?v = we_next w" "we_pending ?v = we_pending w" "we_promises ?v = we_promises w @ [(p, r)]"
    "we_reactions ?v = we_reactions w @ [a]" using False by (simp_all add: settle_promise_def)
  have d: "dict_ok (we_promises ?v)" using ws_okD(7) [OF ok] False by (auto simp: f map_of_eq_None_iff)
  have k: "has_key (we_promises ?v) q \<longleftrightarrow> has_key (we_promises w) q \<or> q = p" for q
    by (auto simp: f has_key_iff)
  have "pending_for ?v b q" if "map_of (we_pending w) b = Some q" for b q
    using ws_okD(5) [OF ok that] s a False unfolding pending_for_def k f by (auto split: if_splits)
  moreover have "q < we_next w" if "has_key (we_promises ?v) q" for q
    using that ws_okD(6) [OF ok, of q] ws_okD(3) [OF ok s] unfolding k socket_ok_def by blast
  moreover have "socket_ok ?v j t" if "map_of (we_sockets w) j = Some t" for j t
    using ws_okD(3) [OF ok that] by (simp add: f socket_ok_def)
  ultimately show ?thesis using d ws_okD(1,2) [OF ok] ws_okD(4) [OF ok]
    unfolding ws_ok_def f a [symmetric] by blast
qed (simp add: settle_promise_def ok)

lemma settle_fewer:
  assumes ok: "ws_ok w" and s: "map_of (we_sockets w) i = Some s" and f: "fewer w v"
  shows "ws_ok (settle_promise (sock_target s) i r v)"
proof -
  obtain t where "map_of (we_sockets v) i = Some t" "same_socket s t" using fewer_socket [OF f s] by blast
  then show ?thesis using settle_ok [OF fewer_ok [OF f ok], of i t r] by (simp add: same_socket_def)
qed

lemma reactions_ok:
  assumes ok: "ws_ok w" shows "ws_ok (run_reactions w)" "we_reactions (run_reactions w) = []"
proof -
  let ?v = "run_reactions w"
  show "we_reactions ?v = []" by (simp add: run_reactions_def)
  have f: "we_connections ?v = we_connections w" "we_sockets ?v = we_sockets w" "we_book ?v = we_book w"
    "we_next ?v = we_next w" "we_promises ?v = we_promises w"
    "we_pending ?v = foldl (\<lambda>d a. AList.delete a d) (we_pending w) (we_reactions w)" by (simp_all add: run_reactions_def)
  have del: "map_of (foldl (\<lambda>d a. AList.delete a d) d as) b = (if b \<in> set as then None else map_of d b)"
    "dict_ok d \<Longrightarrow> dict_ok (foldl (\<lambda>d a. AList.delete a d) d as)" for d :: "(string, nat) dict" and as b
    by (induction as arbitrary: d) (auto simp: distinct_delete)
  have "pending_for ?v a q" if "map_of (we_pending ?v) a = Some q" for a q
    using that ws_okD(5) [OF ok, of a q] unfolding pending_for_def f del by (auto split: if_splits)
  moreover have "socket_ok ?v j t" if "map_of (we_sockets w) j = Some t" for j t
    using ws_okD(3) [OF ok that] by (simp add: f socket_ok_def)
  moreover have "dict_ok (we_pending ?v)" using del(2) [OF ws_okD(2) [OF ok]] by (simp add: f)
  ultimately show "ws_ok ?v" using ws_okD(1,6,7) [OF ok] ws_okD(4) [OF ok] unfolding ws_ok_def f(1-5) by blast
qed

lemma open_socket_ok:
  assumes ok: "ws_ok w" and i: "i = we_next w" and a: "\<And>b. sock_address s = Some b \<Longrightarrow> b = sock_target s"
    and l: "client_listeners s = None"
  shows "ws_ok (set_socket i (\<lambda>_. s) (w\<lparr>we_next := i + 1\<rparr>))"
proof -
  let ?v = "set_socket i (\<lambda>_. s) (w\<lparr>we_next := i + 1\<rparr>)"
  have f: "we_connections ?v = we_connections w" "we_pending ?v = we_pending w" "we_book ?v = we_book w"
    "we_promises ?v = we_promises w" "we_next ?v = we_next w + 1" "we_reactions ?v = we_reactions w"
    "map_of (we_sockets ?v) = (map_of (we_sockets w))(we_next w \<mapsto> s)" by (simp_all add: i)
  have new: "map_of (we_sockets w) j = Some t \<Longrightarrow> j \<noteq> we_next w" for j t
    using ws_okD(3) [OF ok, of j t] by (auto simp: socket_ok_def)
  have "socket_ok ?v j t" if m: "map_of (we_sockets ?v) j = Some t" for j t
    using m ws_okD(3) [OF ok, of j t] a l unfolding f socket_ok_def by (auto split: if_splits)
  moreover have "\<exists>t p. map_of (we_sockets ?v) j = Some t \<and> sock_address t = Some b \<and> sock_peer t = Some p \<and>
      map_of (we_book ?v) b = Some p" if "map_of (we_connections w) b = Some j" for b j
    using ws_okD(4) [OF ok that] new [of j] unfolding f by auto
  moreover have "pending_for ?v b q" if "map_of (we_pending w) b = Some q" for b q
    using ws_okD(5) [OF ok that] new [of q] unfolding pending_for_def f by (auto split: if_splits)
  moreover have "q < we_next w + 1" if "has_key (we_promises w) q" for q
    using ws_okD(6) [OF ok, of q] that by simp
  ultimately show ?thesis using ws_okD(1,2,7) [OF ok] unfolding ws_ok_def f by blast
qed

lemma pending_ok:
  assumes ok: "ws_ok w" and s: "map_of (we_sockets w) p = Some s" "outgoing s" and k: "\<not> has_key (we_promises w) p"
  shows "ws_ok (w\<lparr>we_pending := AList.update (sock_target s) p (we_pending w)\<rparr>)"
proof -
  let ?v = "w\<lparr>we_pending := AList.update (sock_target s) p (we_pending w)\<rparr>"
  have f: "we_connections ?v = we_connections w" "we_sockets ?v = we_sockets w" "we_book ?v = we_book w"
    "we_promises ?v = we_promises w" "we_next ?v = we_next w" "we_reactions ?v = we_reactions w"
    "we_pending ?v = AList.update (sock_target s) p (we_pending w)" by simp_all
  have "socket_ok ?v j t" if "map_of (we_sockets w) j = Some t" for j t
    using ws_okD(3) [OF ok that] by (simp add: socket_ok_def)
  moreover have "pending_for ?v a q" if "map_of (we_pending ?v) a = Some q" for a q
    using that s k ws_okD(5) [OF ok, of a q] unfolding pending_for_def f by (auto split: if_splits)
  ultimately show ?thesis
    using ws_okD(1) [OF ok] ws_okD(4) [OF ok] ws_okD(6,7) [OF ok] dict_ok_update [OF ws_okD(2) [OF ok]]
    unfolding ws_ok_def f by blast
qed

lemma incoming_ok: assumes ok: "ws_ok w" shows "ws_ok (onIncomingConnection env a h w)"
proof -
  define i where "i = we_next w"
  define s where "s = (new_socket False a)\<lparr>sock_address := Some a\<rparr>"
  define v where "v = set_socket i (\<lambda>_. s) (w\<lparr>we_next := i + 1\<rparr>)"
  have v: "ws_ok v" unfolding v_def by (rule open_socket_ok [OF ok i_def]) (simp_all add: s_def new_socket_def)
  have m: "map_of (we_sockets v) i = Some s" "sock_target s = a" by (simp_all add: v_def s_def new_socket_def)
  have refuse: "ws_ok (closeWs env i r (ws_record ms v))" "ws_ok (drop_incoming env i (ws_record ms v))" for r ms
    using fewer_ok [OF fewer_trans [OF fewer_logs(1) fewer_closeWs] v] fewer_ok [OF fewer_trans [OF fewer_logs(1) fewer_drop] v]
    by blast+
  have new: "ws_ok (fst (onNewConnection env i a p v))" for p using onNewConnection_parts(1) [OF v m(1)] m(2) by simp
  show ?thesis using refuse new
    unfolding onIncomingConnection_def Let_def i_def [symmetric] s_def [symmetric] v_def [symmetric]
    by (simp split: sum.split)
qed

lemma fresh_promise: "ws_ok w \<Longrightarrow> map_of (we_promises w) (we_next w) = None"
  using ws_okD(6) [of w "we_next w"] by (cases "map_of (we_promises w) (we_next w)") auto

lemma failed_promise_ok:
  assumes ok: "ws_ok w" and n: "map_of (we_pending w) a = None"
  shows "ws_ok (settle_promise a (we_next w) r
    (ws_record ms (w\<lparr>we_next := we_next w + 1, we_pending := AList.update a (we_next w) (we_pending w)\<rparr>)))"
proof -
  let ?p = "we_next w"
  let ?v = "settle_promise a ?p r (ws_record ms (w\<lparr>we_next := ?p + 1, we_pending := AList.update a ?p (we_pending w)\<rparr>))"
  have fresh: "\<not> has_key (we_promises w) ?p" using fresh_promise [OF ok] by simp
  then have f: "we_connections ?v = we_connections w" "we_sockets ?v = we_sockets w" "we_book ?v = we_book w"
    "we_next ?v = ?p + 1" "we_pending ?v = AList.update a ?p (we_pending w)" "we_promises ?v = we_promises w @ [(?p, r)]"
    "we_reactions ?v = we_reactions w @ [a]" by (simp_all add: settle_promise_def ws_record_def)
  have d: "dict_ok (we_promises ?v)" using ws_okD(7) [OF ok] fresh unfolding f by (auto simp: map_of_eq_None_iff)
  have k: "has_key (we_promises ?v) q \<longleftrightarrow> has_key (we_promises w) q \<or> q = ?p" for q
    unfolding f by (auto simp: has_key_iff)
  have "pending_for ?v b q" if "map_of (we_pending ?v) b = Some q" for b q
    using that ws_okD(5) [OF ok, of b q] ws_okD(3) [OF ok, of q] unfolding pending_for_def k f
    by (auto simp: socket_ok_def split: if_splits)
  moreover have "q < ?p + 1" if "has_key (we_promises ?v) q" for q
    using that ws_okD(6) [OF ok, of q] unfolding k by auto
  moreover have "socket_ok ?v j t" if "map_of (we_sockets w) j = Some t" for j t
    using ws_okD(3) [OF ok that] unfolding socket_ok_def f by simp
  ultimately show ?thesis using d ws_okD(1) [OF ok] ws_okD(4) [OF ok] dict_ok_update [OF ws_okD(2) [OF ok]]
    unfolding ws_ok_def f(1-5) by blast
qed

lemma outgoing_ok: assumes ok: "ws_ok w" shows "ws_ok (fst (new_outgoing env throws a w))"
proof (cases "a = we_address env")
  case True
  then show ?thesis using fewer_ok [OF fewer_logs(1) ok] by (simp add: new_outgoing_def)
next
  case own: False
  show ?thesis
  proof (cases "map_of (we_pending w) a")
    case (Some p)
    then show ?thesis using own ok by (simp add: new_outgoing_def)
  next
    case None
    define v where "v = set_socket (we_next w) (\<lambda>_. new_socket True a) (w\<lparr>we_next := we_next w + 1\<rparr>)"
    have v: "ws_ok v" unfolding v_def by (rule open_socket_ok [OF ok refl]) (simp_all add: new_socket_def)
    have m: "map_of (we_sockets v) (we_next w) = Some (new_socket True a)" "sock_target (new_socket True a) = a"
      "outgoing (new_socket True a)" "\<not> has_key (we_promises v) (we_next w)"
      using fresh_promise [OF ok] by (simp_all add: v_def new_socket_def)
    have "set_socket (we_next w) (\<lambda>_. new_socket True a)
        (w\<lparr>we_next := we_next w + 1, we_pending := AList.update a (we_next w) (we_pending w)\<rparr>) =
      v\<lparr>we_pending := AList.update a (we_next w) (we_pending v)\<rparr>" by (simp add: v_def set_socket_def)
    then have "ws_ok (ws_call_lib c (set_socket (we_next w) (\<lambda>_. new_socket True a)
        (w\<lparr>we_next := we_next w + 1, we_pending := AList.update a (we_next w) (we_pending w)\<rparr>)))" for c
      using fewer_ok [OF fewer_logs(3) pending_ok [OF v m(1,3,4)]] m(2) by simp
    then show ?thesis using own None failed_promise_ok [OF ok None]
      unfolding new_outgoing_def Let_def by simp
  qed
qed

lemma ws_connect_ok: assumes ok: "ws_ok w" shows "ws_ok (fst (ws_connect env is_open throws a w))"
proof -
  have "ws_ok w1" if "ws_close env pid r w = (w1, e)" for pid r w1 e
    using fewer_ok [OF fewer_close [of w env pid r] ok] that by simp
  then show ?thesis using ok outgoing_ok
    by (auto simp: ws_connect_def split: option.split sum.split prod.split)
qed

lemma opened_ok:
  assumes ok: "ws_ok w" and s: "map_of (we_sockets w) i = Some s" shows "ws_ok (on_open env i w)"
proof (cases "upgraded_peer s")
  case None
  have f: "fewer w (ws_record ms (terminateWs env i w))" for ms using fewer_trans [OF fewer_terminate fewer_logs(1)] by blast
  show ?thesis using settle_fewer [OF ok s f] s None by (simp add: on_open_def Let_def)
next
  case (Some p)
  let ?v = "addListeners i (sock_target s) p w"
  have m: "map_of (we_sockets ?v) i = Some (s\<lparr>client_listeners := Some (sock_target s, p)\<rparr>)" using s by (simp add: addListeners_def)
  obtain v1 b where v1: "onNewConnection env i (sock_target s) p ?v = (v1, b)" by (cases "onNewConnection env i (sock_target s) p ?v")
  have "ws_ok v1" "\<exists>t. map_of (we_sockets v1) i = Some t \<and> sock_target t = sock_target s"
    using onNewConnection_parts(1,3) [OF set_listeners_ok [OF ok s] m, of env p] v1 by simp_all
  then have "ws_ok v1" "ws_ok (settle_promise (sock_target s) i r v1)" for r using settle_ok [of v1 i _ r] by auto
  then show ?thesis using s Some v1
    by (simp add: on_open_def Let_def split: bool.split sum.split)
qed

lemma error_ok:
  assumes ok: "ws_ok w" and s: "map_of (we_sockets w) i = Some s" shows "ws_ok (on_error env i w)"
proof -
  have f: "fewer w (terminateWs env i (ws_record ms w))" for ms using fewer_trans [OF fewer_logs(1) fewer_terminate] by blast
  show ?thesis using settle_fewer [OF ok s f] s by (simp add: on_error_def)
qed

lemma upgrade_ok:
  assumes ok: "ws_ok w" and s: "map_of (we_sockets w) i = Some s" shows "ws_ok (on_upgrade i h w)"
proof -
  have "fewer w (set_socket i (\<lambda>s. s\<lparr>upgraded_peer := Some p\<rparr>) w)" for p
    by (rule fewer_set [OF s]) (simp add: same_socket_def)
  note fewer_ok [OF this ok]
  then show ?thesis using ok by (simp add: on_upgrade_def split: sum.split)
qed

subsection \<open>The invariant of every step\<close>

lemma existing_socket: "exists_socket out i w \<Longrightarrow> \<exists>s. map_of (we_sockets w) i = Some s"
  by (auto simp: exists_socket_def split: option.splits)

lemma listening_socket: "client_listeners (socket_at w i) = Some l \<Longrightarrow> \<exists>s. map_of (we_sockets w) i = Some s"
  by (auto simp: socket_at_def new_socket_def split: option.splits)

lemma message_ok:
  assumes ok: "ws_ok w"
  shows "ws_ok (server_message i m w)" "ws_ok (client_message p m w)" "ws_ok (send_callback failed m w)"
  using fewer_ok [OF fewer_logs(2) ok] fewer_ok [OF fewer_trans [OF fewer_logs(1) fewer_logs(2)] ok] fewer_ok [OF fewer_logs(1) ok] ok
  by (simp_all add: server_message_def client_message_def onReceive_def send_callback_def split: option.split)

lemma server_pong_ok:
  assumes ok: "ws_ok w" shows "ws_ok (server_pong now i w)"
proof (cases "Option.bind (sock_address (socket_at w i)) (map_of (we_connections w))")
  case (Some j)
  then obtain a where "map_of (we_connections w) a = Some j" by (auto simp: bind_eq_Some_conv)
  then obtain s where "map_of (we_sockets w) j = Some s" using connected_socket [OF ok] by blast
  then show ?thesis using fewer_ok [OF fewer_pong ok] Some by (simp add: server_pong_def)
qed (simp add: server_pong_def ok)

theorem ws_handle_ok: assumes ok: "ws_ok w" shows "ws_ok (ws_handle env w x)"
proof (cases x)
  case (WsConnect is_open throws a) then show ?thesis using ws_connect_ok [OF ok] by simp
next
  case (WsSend throws b pid m) then show ?thesis using fewer_ok [OF fewer_send [OF ok] ok] by simp
next
  case (WsClose pid reason) then show ?thesis using fewer_ok [OF fewer_close ok] by simp
next
  case WsStop then show ?thesis using fewer_ok [OF fewer_stop ok] by simp
next
  case (PingInterval now throws) then show ?thesis using fewer_ok [OF fewer_pings [OF ok] ok] by simp
next
  case (Incoming a h) then show ?thesis using incoming_ok [OF ok] by simp
next
  case (ServerMessage i m) then show ?thesis using message_ok(1) [OF ok] ok by simp
next
  case (ServerDrain i b)
  then show ?thesis using fewer_ok [OF fewer_pressure ok] existing_socket [of False i w] ok by auto
next
  case (ServerClose i reason) then show ?thesis using fewer_ok [OF fewer_server_close ok] ok by simp
next
  case (ServerPong i now) then show ?thesis using server_pong_ok [OF ok] ok by simp
next
  case (Upgraded i h) then show ?thesis using upgrade_ok [OF ok] existing_socket [of True i w] ok by auto
next
  case (Opened i) then show ?thesis using opened_ok [OF ok] existing_socket [of True i w] ok by auto
next
  case (SocketError i) then show ?thesis using error_ok [OF ok] existing_socket [of True i w] ok by auto
next
  case (ClientMessage i m) then show ?thesis using message_ok(2) [OF ok] ok by (simp split: option.split)
next
  case (ClientPong i now)
  then show ?thesis using fewer_ok [OF fewer_pong ok] listening_socket [of w i] ok by (auto split: option.split)
next
  case (ClientClose i reason)
  then show ?thesis using fewer_ok [OF fewer_client_close ok] ok by (simp split: option.split)
next
  case (SendCallback failed m) then show ?thesis using message_ok(3) [OF ok] by simp
qed

text \<open>Between two inputs no callback is queued.\<close>

definition ws_rest :: "ws_endpoint \<Rightarrow> bool" where
  "ws_rest w \<longleftrightarrow> ws_ok w \<and> we_reactions w = []"

theorem ws_step_ok: "ws_ok w \<Longrightarrow> ws_rest (ws_step env w x)"
  using reactions_ok [OF ws_handle_ok] by (simp add: ws_step_def ws_rest_def)

lemma run_reactions_fields [simp]:
  "we_connections (run_reactions w) = we_connections w" "we_book (run_reactions w) = we_book w"
  "we_sockets (run_reactions w) = we_sockets w" "we_calls (run_reactions w) = we_calls w"
  "we_events (run_reactions w) = we_events w" "we_metrics (run_reactions w) = we_metrics w"
  "we_promises (run_reactions w) = we_promises w" "we_next (run_reactions w) = we_next w"
  by (simp_all add: run_reactions_def)

lemma run_reactions_idle: "we_reactions w = [] \<Longrightarrow> run_reactions w = w"
  by (simp add: run_reactions_def)

lemma ping_step: "ws_rest w \<Longrightarrow> ws_step env w (PingInterval t throws) = pingConnections env t throws w"
  using fewerD(8) [OF fewer_pings, of w env t throws] by (simp add: ws_step_def ws_rest_def run_reactions_idle)

end
