(* ===== verification/WsPings.thy ===== *)
theory WsPings
  imports WsPromises
begin

section \<open>Ping rounds of the websocket endpoint\<close>

text \<open>
  What one call of \<open>pingConnections\<close> does to one connection, whatever the other sockets do:
  \<open>ping_round\<close> says that it stays exactly when its socket does not still owe the answer to
  the last ping and its own \<open>ping\<close> does not throw, and \<open>silent_step\<close> that between two rounds only
  a pong of the socket settles that debt.
\<close>

definition silent :: "ws_endpoint \<Rightarrow> nat \<Rightarrow> bool" where
  "silent w i \<longleftrightarrow> respondedPong (socket_at w i) = Some False"

text \<open>From \<open>w\<close> to \<open>v\<close>, the address \<open>a\<close> lost its connection and its peer was reported dead.\<close>

definition reported_dead :: "ws_endpoint \<Rightarrow> string \<Rightarrow> ws_endpoint \<Rightarrow> bool" where
  "reported_dead w a v \<longleftrightarrow> map_of (we_connections v) a = None \<and>
     (\<exists>es. we_events v = we_events w @ es \<and> WsPeerDisconnected (getPeerInfo (we_book w) a) DEAD_CONNECTION \<in> set es)"

definition events_grow :: "ws_endpoint \<Rightarrow> ws_endpoint \<Rightarrow> bool" where
  "events_grow w v \<longleftrightarrow> (\<exists>es. we_events v = we_events w @ es)"

lemma events_grow_refl [simp]: "events_grow w w" by (simp add: events_grow_def)

lemma events_grow_trans: "events_grow u v \<Longrightarrow> events_grow v w \<Longrightarrow> events_grow u w"
  by (auto simp: events_grow_def)

lemma reported_dead_trans:
  "events_grow u v \<Longrightarrow> we_book v = we_book u \<Longrightarrow> reported_dead v a w \<Longrightarrow> reported_dead u a w"
  "reported_dead u a v \<Longrightarrow> events_grow v w \<Longrightarrow> map_of (we_connections w) a = None \<Longrightarrow> reported_dead u a w"
  by (auto simp: reported_dead_def events_grow_def)

subsection \<open>Closing leaves the sockets alone\<close>

lemma onClose_fields [simp]:
  "we_sockets (onClose a p r w) = we_sockets w" "we_book (onClose a p r w) = we_book w"
  by (simp_all add: onClose_def ws_record_def ws_emit_def)

lemma server_close_fields [simp]:
  "we_sockets (server_close i r w) = we_sockets w" "we_book (server_close i r w) = we_book w"
  by (simp_all add: server_close_def ws_emit_def split: option.split)

lemma terminateWs_fields [simp]:
  "we_sockets (terminateWs env i w) = we_sockets w" "we_book (terminateWs env i w) = we_book w"
  by (simp_all add: terminateWs_def drop_incoming_def ws_call_lib_def Let_def split: option.split)

lemma closing_events [simp]:
  "events_grow w (onClose a p r w)" "events_grow w (server_close i r w)" "events_grow w (terminateWs env i w)"
  by (auto simp: events_grow_def onClose_def server_close_def terminateWs_def drop_incoming_def Let_def
      ws_record_def ws_emit_def ws_call_lib_def split: option.split)

lemma onClose_connections [simp]:
  "map_of (we_connections (onClose c p DEAD_CONNECTION w)) c = None"
  "a \<noteq> c \<Longrightarrow> map_of (we_connections (onClose c p r w)) a = map_of (we_connections w) a"
  by (simp_all add: onClose_def DEAD_CONNECTION_def DUPLICATE_SOCKET_def ws_record_def ws_emit_def)

lemma closing_reports:
  assumes "we_book v = we_book w" "events_grow w v"
  shows "reported_dead w a (onClose a (getPeerInfo (we_book v) a) DEAD_CONNECTION v)"
  using assms by (auto simp: reported_dead_def events_grow_def onClose_def DEAD_CONNECTION_def DUPLICATE_SOCKET_def
      ws_record_def ws_emit_def)

lemma closing_other:
  assumes "sock_address (socket_at w i) = Some c" "a \<noteq> c"
  shows "map_of (we_connections (onClose c p r (terminateWs env i w))) a = map_of (we_connections w) a"
proof -
  let ?w = "ws_call_lib (CallTerminate i) w"
  have "sock_address (socket_at ?w i) = Some c" using assms(1) by (simp add: socket_at_def ws_call_lib_def)
  then have "map_of (we_connections (server_close i r ?w)) a = map_of (we_connections w) a" for r
    using assms(2) by (simp add: server_close_def ws_emit_def ws_call_lib_def)
  then show ?thesis
    using assms(2) by (simp add: terminateWs_def drop_incoming_def Let_def ws_call_lib_def split: option.split)
qed

subsection \<open>One ping\<close>

lemma socket_at_ignores [simp]:
  "socket_at (ws_call_lib c v) j = socket_at v j" "socket_at (onClose a p r v) j = socket_at v j"
  "socket_at (terminateWs env i v) j = socket_at v j" "socket_at (closeWs env i r v) j = socket_at v j"
  "socket_at (ws_record ms v) j = socket_at v j" "socket_at (ws_emit e v) j = socket_at v j"
  "socket_at (settle_promise t q x v) j = socket_at v j" "socket_at (server_close i r v) j = socket_at v j"
  by (simp_all add: socket_at_def ws_call_lib_def ws_record_def ws_emit_def settle_promise_def closeWs_def Let_def)

lemma socket_at_set [simp]:
  "socket_at (set_socket i f w) j = (if j = i then f (socket_at w i) else socket_at w j)"
  by (simp add: socket_at_def)

text \<open>The ping of one address does not concern the connection and the socket of another.\<close>

lemma ping_other:
  assumes ok: "ws_ok w" and "a \<noteq> c"
  shows "map_of (we_connections (ping_address env now throws w c)) a = map_of (we_connections w) a"
    "events_grow w (ping_address env now throws w c)"
    "sock_address (socket_at w i) = Some a \<Longrightarrow> socket_at (ping_address env now throws w c) i = socket_at w i"
proof -
  let ?set = "\<lambda>j. set_socket j (\<lambda>s. s\<lparr>respondedPong := Some False, sock_rttStart := Some now\<rparr>) w"
  let ?drop = "\<lambda>j v. onClose c (getPeerInfo (we_book w) c) DEAD_CONNECTION (terminateWs env j v)"
  have e: "events_grow w (ws_call_lib x (?set j))" for x j
    by (auto simp: events_grow_def ws_call_lib_def set_socket_def)
  have g: "events_grow w (?drop j v)" if "events_grow w v" for j v
    using events_grow_trans [OF that events_grow_trans [OF closing_events(3) closing_events(1)]] .
  have "map_of (we_connections v) a = map_of (we_connections w) a \<and> events_grow w v \<and>
      (sock_address (socket_at w i) = Some a \<longrightarrow> socket_at v i = socket_at w i)"
    if that: "v = ping_address env now throws w c" for v
  proof (cases "map_of (we_connections w) c")
    case None
    then show ?thesis using that assms(2) by (simp add: ping_address_def)
  next
    case (Some j)
    let ?w = "ws_call_lib (CallPing j) (?set j)"
    have j: "sock_address (socket_at w j) = Some c" "sock_address (socket_at ?w j) = Some c"
      using ws_okD(4) [OF ok Some] by auto
    have "i \<noteq> j" if l: "sock_address (socket_at w i) = Some a" using l j(1) assms(2) by auto
    then show ?thesis
      using that Some e g j [THEN closing_other [OF _ assms(2)]] g [OF events_grow_refl]
      by (simp add: ping_address_def Let_def) (auto simp: ws_call_lib_def)
  qed
  from this [OF refl]
  show "map_of (we_connections (ping_address env now throws w c)) a = map_of (we_connections w) a"
    "events_grow w (ping_address env now throws w c)"
    "sock_address (socket_at w i) = Some a \<Longrightarrow> socket_at (ping_address env now throws w c) i = socket_at w i" by blast+
qed

lemma ping_this:
  assumes "map_of (we_connections w) a = Some i"
  shows "silent (ping_address env now throws w a) i"
    "if silent w i \<or> throws i then reported_dead w a (ping_address env now throws w a)
     else map_of (we_connections (ping_address env now throws w a)) a = Some i \<and>
       events_grow w (ping_address env now throws w a)"
proof -
  let ?set = "set_socket i (\<lambda>s. s\<lparr>respondedPong := Some False, sock_rttStart := Some now\<rparr>) w"
  have e: "events_grow w (ws_call_lib x ?set)" "we_book (ws_call_lib x ?set) = we_book w" for x
    by (auto simp: events_grow_def ws_call_lib_def set_socket_def)
  have "reported_dead w a (onClose a (getPeerInfo (we_book w) a) DEAD_CONNECTION (terminateWs env i v))"
    if "we_book v = we_book w" "events_grow w v" for v
    using closing_reports [of "terminateWs env i v" w a] that events_grow_trans [OF that(2) closing_events(3)] by simp
  from this [OF refl events_grow_refl] this [OF e(2,1)]
  show "if silent w i \<or> throws i then reported_dead w a (ping_address env now throws w a)
     else map_of (we_connections (ping_address env now throws w a)) a = Some i \<and>
       events_grow w (ping_address env now throws w a)"
    using assms e by (auto simp: ping_address_def Let_def silent_def ws_call_lib_def)
  show "silent (ping_address env now throws w a) i"
    using assms by (simp add: ping_address_def Let_def silent_def)
qed

subsection \<open>One round\<close>

lemma pings_others:
  assumes "ws_ok w" "a \<notin> set as"
  shows "ws_ok (foldl (ping_address env now throws) w as) \<and> we_book (foldl (ping_address env now throws) w as) = we_book w \<and>
    map_of (we_connections (foldl (ping_address env now throws) w as)) a = map_of (we_connections w) a \<and>
    events_grow w (foldl (ping_address env now throws) w as) \<and>
    (sock_address (socket_at w i) = Some a \<longrightarrow> socket_at (foldl (ping_address env now throws) w as) i = socket_at w i)"
  using assms
proof (induction as arbitrary: w)
  case (Cons c as)
  let ?v = "ping_address env now throws w c"
  have f: "fewer w ?v" by (rule fewer_ping [OF Cons.prems(1)])
  have ok: "ws_ok ?v" by (rule fewer_ok [OF f Cons.prems(1)])
  have c: "a \<noteq> c" using Cons.prems(2) by simp
  note o = ping_other [OF Cons.prems(1) c]
  show ?case using Cons.IH [OF ok] Cons.prems(2) fewerD(1) [OF f] o(1) o(3) events_grow_trans [OF o(2)] by auto
qed simp

theorem ping_round:
  assumes ok: "ws_ok w" and a: "map_of (we_connections w) a = Some i" and v_def: "v = pingConnections env now throws w"
  shows "silent v i"
    "if silent w i \<or> throws i then reported_dead w a v else map_of (we_connections v) a = Some i"
proof -
  let ?f = "foldl (ping_address env now throws)"
  have "has_key (we_connections w) a" using a by simp
  then have "a \<in> set (keys_of (we_connections w))" unfolding has_key_iff .
  then obtain as bs where k: "keys_of (we_connections w) = as @ a # bs" "a \<notin> set as" by (metis split_list_first)
  have b: "a \<notin> set bs" using k ws_okD(1) [OF ok] by simp
  define u where "u = ?f w as"
  define u' where "u' = ping_address env now throws u a"
  have v: "v = ?f u' bs" by (simp add: v_def pingConnections_def k(1) u_def u'_def)
  have i: "sock_address (socket_at w i) = Some a" using ws_okD(4) [OF ok a] by auto
  have u: "ws_ok u" "we_book u = we_book w" "map_of (we_connections u) a = Some i" "events_grow w u" "socket_at u i = socket_at w i"
    using pings_others [OF ok k(2), of env now throws i] a i unfolding u_def by simp_all
  have f: "fewer u u'" unfolding u'_def by (rule fewer_ping [OF u(1)])
  have ok': "ws_ok u'" by (rule fewer_ok [OF f u(1)])
  have i': "sock_address (socket_at u' i) = Some a"
    using fewer_socket [OF f] ws_okD(4) [OF u(1,3)] by (fastforce simp: same_socket_def)
  note o = pings_others [OF ok' b, of env now throws i]
  show "silent v i" using ping_this(1) [OF u(3), of env now throws] o i' by (simp add: v u'_def silent_def)
  have s: "silent u i = silent w i" by (simp add: silent_def u(5))
  note t = ping_this(2) [OF u(3), of throws env now, unfolded s, folded u'_def]
  show "if silent w i \<or> throws i then reported_dead w a v else map_of (we_connections v) a = Some i"
  proof (cases "silent w i \<or> throws i")
    case True
    then have "reported_dead w a u'" using t reported_dead_trans(1) [OF u(4,2)] by simp
    then show ?thesis using True o reported_dead_trans(2) [of w a u' v] by (simp add: v reported_dead_def)
  next
    case False
    then show ?thesis using t o by (simp add: v)
  qed
qed

subsection \<open>Between two rounds\<close>

text \<open>
  The input \<open>x\<close> brings a pong of the socket \<open>i\<close>: its library reports it, to the listener
  of an outgoing socket or to the server's handler, which takes the socket that is registered
  for the address.
\<close>

fun pong_of :: "ws_endpoint \<Rightarrow> nat \<Rightarrow> ws_input \<Rightarrow> bool" where
  "pong_of w i (ServerPong j t) \<longleftrightarrow> exists_socket False j w \<and>
     Option.bind (sock_address (socket_at w j)) (map_of (we_connections w)) = Some i"
| "pong_of w i (ClientPong j t) \<longleftrightarrow> j = i \<and> client_listeners (socket_at w j) \<noteq> None"
| "pong_of w i _ \<longleftrightarrow> False"

fun answered :: "ws_env \<Rightarrow> ws_endpoint \<Rightarrow> nat \<Rightarrow> ws_input list \<Rightarrow> bool" where
  "answered env w i [] \<longleftrightarrow> False"
| "answered env w i (x # xs) \<longleftrightarrow> pong_of w i x \<or> answered env (ws_step env w x) i xs"

fun is_round :: "ws_input \<Rightarrow> bool" where
  "is_round (PingInterval t throws) \<longleftrightarrow> True"
| "is_round _ \<longleftrightarrow> False"

lemma socket_at_fields [simp]:
  "socket_at (w\<lparr>we_next := n\<rparr>) j = socket_at w j" "socket_at (w\<lparr>we_pending := d\<rparr>) j = socket_at w j"
  "socket_at (w\<lparr>we_connections := c\<rparr>) j = socket_at w j" "socket_at (w\<lparr>we_book := b\<rparr>) j = socket_at w j"
  by (simp_all add: socket_at_def)

lemma new_not_silent [simp]: "respondedPong (new_socket out a) = None"
  by (simp add: new_socket_def)

lemma fresh_not_silent: "ws_ok w \<Longrightarrow> \<not> silent w (we_next w)"
  using ws_okD(3) [of w "we_next w"] by (cases "map_of (we_sockets w) (we_next w)") (auto simp: silent_def socket_at_def socket_ok_def)

text \<open>The operations that neither ping nor open a socket leave every answer alone.\<close>

lemma silent_kept [simp]:
  "silent (ws_call_lib c w) j = silent w j" "silent (ws_record ms w) j = silent w j" "silent (ws_emit e w) j = silent w j"
  "silent (onClose a p r w) j = silent w j" "silent (server_close i r w) j = silent w j"
  "silent (closeWs env i r w) j = silent w j" "silent (terminateWs env i w) j = silent w j"
  "silent (settle_promise t q x w) j = silent w j" "silent (addListeners i a pr w) j = silent w j"
  "silent (client_close i a r w) j = silent w j" "silent (evaluateBackPressure b i w) j = silent w j"
  "silent (on_upgrade i h w) j = silent w j" "silent (fst (onNewConnection env i a pr w)) j = silent w j"
  by (simp_all add: silent_def addListeners_def client_close_def evaluateBackPressure_def Let_def on_upgrade_def
      onNewConnection_def split: sum.split)

lemma silent_operations [simp]:
  "silent (fst (ws_send env throws b pid m w)) j = silent w j"
  "silent (fst (ws_close env pid r w)) j = silent w j"
  "silent (ws_stop env w) j = silent w j"
  "silent (on_open env i w) j = silent w j"
  "silent (on_error env i w) j = silent w j"
proof -
  show "silent (fst (ws_send env throws b pid m w)) j = silent w j"
    by (simp add: ws_send_def socketSend_def Let_def split: sum.split option.split)
  show "silent (fst (ws_close env pid r w)) j = silent w j"
    by (simp add: ws_close_def Let_def split: sum.split option.split)
  have "silent (foldl (\<lambda>w i. closeWs env i GRACEFUL_SHUTDOWN w) v is) j = silent v j" for v "is"
    by (induction "is" arbitrary: v) simp_all
  then show "silent (ws_stop env w) j = silent w j" by (simp add: ws_stop_def)
  have "silent v j = silent u j" if "onNewConnection env i a p u = (v, b)" for u v a p b
    using silent_kept(13) [of env i a p u j] that by simp
  from this [of _ _ "addListeners i _ _ w"] show "silent (on_open env i w) j = silent w j"
    by (auto simp: on_open_def Let_def split: option.split prod.split bool.split sum.split)
  show "silent (on_error env i w) j = silent w j" by (simp add: on_error_def)
qed

lemma silent_incoming: "ws_ok w \<Longrightarrow> silent (onIncomingConnection env a h w) j = silent w j"
proof -
  assume ok: "ws_ok w"
  let ?w = "set_socket (we_next w) (\<lambda>_. (new_socket False a)\<lparr>sock_address := Some a\<rparr>) (w\<lparr>we_next := we_next w + 1\<rparr>)"
  have "silent ?w j = silent w j" using fresh_not_silent [OF ok] by (auto simp: silent_def)
  moreover have "silent (drop_incoming env i v) j = silent v j" for i v
    by (simp add: drop_incoming_def Let_def split: option.split)
  ultimately show ?thesis by (simp add: onIncomingConnection_def Let_def split: sum.split)
qed

lemma silent_outgoing: "ws_ok w \<Longrightarrow> silent (fst (new_outgoing env throws a w)) j = silent w j"
proof -
  assume ok: "ws_ok w"
  have p: "silent (w\<lparr>we_next := n, we_pending := d\<rparr>) j = silent w j" for n d by (simp add: silent_def)
  let ?w = "\<lambda>d. set_socket (we_next w) (\<lambda>_. new_socket True a) (w\<lparr>we_next := we_next w + 1, we_pending := d\<rparr>)"
  have "silent (?w d) j = silent w j" for d using fresh_not_silent [OF ok] by (auto simp: silent_def)
  then show ?thesis by (simp add: new_outgoing_def Let_def p split: option.split)
qed

lemma silent_connect: "ws_ok w \<Longrightarrow> silent (fst (ws_connect env is_open throws a w)) j = silent w j"
proof -
  assume ok: "ws_ok w"
  have c: "silent w1 j = silent w j \<and> ws_ok w1" if "ws_close env pid r w = (w1, e)" for pid r w1 e
    using that silent_operations(2) [of env pid r w j] fewer_ok [OF fewer_close ok, of env pid r] by simp
  show ?thesis using silent_outgoing [OF ok] c [THEN conjunct1] c [THEN conjunct2, THEN silent_outgoing]
    by (auto simp: ws_connect_def split: option.split sum.split prod.split)
qed

lemma silent_pong: "silent (on_pong now i w) j \<longleftrightarrow> silent w j \<and> j \<noteq> i"
  by (simp add: silent_def on_pong_def)

lemma silent_reactions [simp]: "silent (run_reactions w) j = silent w j"
  by (simp add: silent_def socket_at_def run_reactions_def)

theorem silent_step:
  assumes ok: "ws_ok w" and r: "\<not> is_round x"
  shows "silent (ws_step env w x) i \<longleftrightarrow> silent w i \<and> \<not> pong_of w i x"
  using r silent_connect [OF ok] silent_incoming [OF ok]
  by (cases x) (auto simp: silent_pong server_pong_def server_message_def client_message_def onReceive_def send_callback_def
      ws_step_def split: option.split)

lemma silent_between:
  assumes "ws_ok w" "\<forall>x \<in> set xs. \<not> is_round x"
  shows "silent (foldl (ws_step env) w xs) i \<longleftrightarrow> silent w i \<and> \<not> answered env w i xs"
  using assms
proof (induction xs arbitrary: w)
  case (Cons x xs)
  then show ?case using ws_step_ok silent_step by (simp add: ws_rest_def)
qed simp

end
