(* ===== verification/WsClaims.thy ===== *)
theory WsClaims
  imports WsPings
begin

section \<open>Runs of the websocket endpoint\<close>

text \<open>
  The properties of whole runs of \<open>src/src/connection/WsEndpoint.ts\<close>: its registry stays
  consistent, what the headers carry arrives, silent peers are dropped in the second interval,
  and two things that a reader of the code would not expect: a duplicate socket takes the live
  connection with it, and a peer that moves to a new address cannot be reached.
\<close>

interpretation sockets: step_invariant "ws_step env" "\<lambda>_. True" ws_rest
  by unfold_locales (simp add: ws_rest_def ws_step_ok [unfolded ws_rest_def])

definition ws_run :: "ws_env \<Rightarrow> ws_input list \<Rightarrow> ws_endpoint" where
  "ws_run env xs = foldl (ws_step env) new_ws_endpoint xs"

lemma new_ws_rest: "ws_rest new_ws_endpoint"
  by (simp add: ws_rest_def ws_ok_def new_ws_endpoint_def)

lemma new_ws_ok: "ws_ok new_ws_endpoint"
  using new_ws_rest by (simp add: ws_rest_def)

lemma ws_run_rest: "ws_rest (ws_run env xs)"
  using sockets.run_inv [OF new_ws_rest, of xs env] by (simp add: ws_run_def)

lemma ws_run_ok: "ws_ok (ws_run env xs)"
  using ws_run_rest by (simp add: ws_rest_def)

lemma length_map_filter: "(\<And>x. x \<in> set xs \<Longrightarrow> f x \<noteq> None) \<Longrightarrow> length (List.map_filter f xs) = length xs"
proof (induction xs)
  case (Cons x xs)
  then show ?case by (cases "f x") (fastforce simp: map_filter_simps)+
qed simp

lemma rtts_never_throw:
  assumes "\<And>x. x \<in> set cs \<Longrightarrow> has_key (we_book w) (fst x)"
  shows "\<exists>d'. foldl (add_rtt w) (Inr d) cs = Inr d'"
  using assms
proof (induction cs arbitrary: d)
  case (Cons x cs)
  obtain p where "map_of (we_book w) (fst x) = Some p" using Cons.prems [of x] by auto
  then obtain d' where "add_rtt w (Inr d) x = Inr d'" by (cases "sock_rtt (socket_at w (snd x))") (auto simp: add_rtt_def getPeerId_def)
  then show ?case using Cons.IH Cons.prems by simp
qed simp

text \<open>
  C21. After any run, every connection of the endpoint is a socket that carries the address it
  is registered under and the very description the peer book has for that address, so
  \<open>getRtts\<close> never throws and \<open>getPeerInfos\<close> describes every connection; a promise that
  \<open>pendingConnections\<close> holds has not settled and is that of an outgoing socket to its address;
  and no promise settles twice.
\<close>

theorem websocket_registry_consistent:
  "let w = ws_run env xs in
   (\<forall>a i. map_of (we_connections w) a = Some i \<longrightarrow>
      sock_address (socket_at w i) = Some a \<and> sock_peer (socket_at w i) = getPeerInfo (we_book w) a \<and>
      getPeerInfo (we_book w) a \<noteq> None) \<and>
   length (getPeerInfos w) = length (we_connections w) \<and> (\<exists>d. ws_getRtts w = Inr d) \<and>
   (\<forall>a q. map_of (we_pending w) a = Some q \<longrightarrow>
      q \<notin> set (keys_of (we_promises w)) \<and> outgoing (socket_at w q) \<and> sock_target (socket_at w q) = a) \<and>
   distinct (keys_of (we_promises w))"
proof -
  define w where "w = ws_run env xs"
  have ok: "ws_ok w" by (simp add: w_def ws_run_ok)
  have c: "sock_address (socket_at w i) = Some a \<and> sock_peer (socket_at w i) = getPeerInfo (we_book w) a \<and>
      getPeerInfo (we_book w) a \<noteq> None" if "map_of (we_connections w) a = Some i" for a i
    using ws_okD(4) [OF ok that] by (auto simp: getPeerInfo_def)
  have k: "has_key (we_book w) a" if "a \<in> set (keys_of (we_connections w))" for a
    using that c [of a] unfolding has_key_iff [symmetric] by (auto simp: getPeerInfo_def)
  then have "length (getPeerInfos w) = length (keys_of (we_connections w))"
    unfolding getPeerInfos_def by (intro length_map_filter) (simp add: getPeerInfo_def)
  moreover have "\<exists>d. ws_getRtts w = Inr d"
    unfolding ws_getRtts_def by (rule rtts_never_throw) (use k in simp)
  moreover have "q \<notin> set (keys_of (we_promises w)) \<and> outgoing (socket_at w q) \<and> sock_target (socket_at w q) = a"
    if "map_of (we_pending w) a = Some q" for a q
    using ws_okD(5) [OF ok that] ws_run_rest [of env xs] has_key_iff [of "we_promises w" q]
    by (auto simp: pending_for_def ws_rest_def w_def split: if_splits)
  ultimately show ?thesis using c ws_okD(7) [OF ok] unfolding Let_def w_def [symmetric] length_map by blast
qed

definition example_headers :: "string \<Rightarrow> ws_headers" where
  "example_headers pid = \<lparr>hdr_peerId = pid, hdr_peerType = ''node'', hdr_control = ''1,2'', hdr_message = ''31,32''\<rparr>"

definition example_ws_env :: ws_env where
  "example_ws_env = \<lparr>we_address = ''ws://t'', we_localeCompare = \<lambda>_ _. 0, end_calls_back = False, close_calls_back = Some []\<rparr>"

lemma example_peer_of_headers:
  "\<exists>p. peer_of_headers (example_headers pid) = Inr p \<and> peerId p = pid" if "pid \<noteq> []"
  using that by (simp add: peer_of_headers_def example_headers_def new_peer_info_def peer_types_def peer_type_name_def)

lemma incoming_connects:
  assumes "a \<noteq> []" "pid \<noteq> []" "\<not> isConnected w a"
  shows "map_of (we_connections (onIncomingConnection env a (example_headers pid) w)) a = Some (we_next w)"
    "\<exists>p. peerId p = pid \<and> we_book (onIncomingConnection env a (example_headers pid) w) = book_add (we_book w) a p"
proof -
  obtain p where "peer_of_headers (example_headers pid) = Inr p" "peerId p = pid"
    using example_peer_of_headers [OF assms(2)] by blast
  then show "map_of (we_connections (onIncomingConnection env a (example_headers pid) w)) a = Some (we_next w)"
    "\<exists>p. peerId p = pid \<and> we_book (onIncomingConnection env a (example_headers pid) w) = book_add (we_book w) a p"
    using assms by (auto simp: onIncomingConnection_def Let_def example_headers_def isConnected_def onNewConnection_def
        ws_emit_def ws_record_def)
qed

theorem websocket_registry_consistent_witness:
  "map_of (we_connections (ws_run example_ws_env [Incoming ''ws://a'' (example_headers ''n'')])) ''ws://a'' = Some 0 \<and>
   sock_address (socket_at (ws_run example_ws_env [Incoming ''ws://a'' (example_headers ''n'')]) 0) = Some ''ws://a''"
proof -
  have "map_of (we_connections (ws_run example_ws_env [Incoming ''ws://a'' (example_headers ''n'')])) ''ws://a'' = Some 0"
    using incoming_connects(1) [of "''ws://a''" "''n''" new_ws_endpoint example_ws_env]
    by (simp add: ws_run_def ws_step_def isConnected_def new_ws_endpoint_def)
  then show ?thesis
    using websocket_registry_consistent [of example_ws_env "[Incoming ''ws://a'' (example_headers ''n'')]"] by (simp add: Let_def)
qed

subsection \<open>What the headers carry\<close>

lemma show_int_no_comma: "CHR '','' \<notin> set (show_int i)"
proof -
  have "\<not> is_digit CHR '',''" by (simp add: is_digit_def)
  then show ?thesis using show_nat_digits by (auto simp: show_int_def)
qed

lemma split_no_comma: "CHR '','' \<notin> set s \<Longrightarrow> split_comma s = [s]"
  by (induction s) auto

lemma split_first: "CHR '','' \<notin> set s \<Longrightarrow> split_comma (s @ CHR '','' # t) = s # split_comma t"
  by (induction s) auto

lemma split_join: "ps \<noteq> [] \<Longrightarrow> \<forall>p \<in> set ps. CHR '','' \<notin> set p \<Longrightarrow> split_comma (join_comma ps) = ps"
  by (induction ps rule: join_comma.induct) (simp_all add: split_no_comma split_first)

lemma parse_shown: "vs \<noteq> [] \<Longrightarrow> parse_versions (join_comma (map show_int vs)) = vs"
proof -
  assume "vs \<noteq> []"
  then have "split_comma (join_comma (map show_int vs)) = map show_int vs" by (intro split_join) (auto simp: show_int_no_comma)
  moreover have "List.map_filter parseInt (map show_int vs) = vs" by (induction vs) simp_all
  ultimately show ?thesis by (simp add: parse_versions_def)
qed

text \<open>
  What a peer says of itself in the headers of a connection arrives: the constructor run on
  the headers of a well-formed description succeeds and gives the same id, type and versions,
  whatever the version numbers are; name and location do not travel.
\<close>

theorem headers_roundtrip:
  assumes "peer_ok p"
  shows "peer_of_headers (toHeaders p) = Inr (p\<lparr>peerName := None, peerLocation := no_location\<rparr>)"
  using assms by (simp add: peer_ok_def peer_of_headers_def toHeaders_def new_peer_info_def parse_shown truthy_string_def)
    (cases "peerType p"; simp add: peer_type_name_def)

theorem headers_roundtrip_witness: "peer_of_headers (toHeaders example_peer) = Inr example_peer"
  using headers_roundtrip [of example_peer] by (simp add: peer_ok_def example_peer_def)

subsection \<open>Silent peers\<close>

lemma ws_run_append: "ws_run env (xs @ ys) = foldl (ws_step env) (ws_run env xs) ys"
  by (simp add: ws_run_def)

text \<open>
  C22. What two successive rounds of pings do to one connection, whatever the other sockets do.
  Take any run, with a round of pings, any other inputs, and the next round; and a socket that
  is registered for an address before the first of the two rounds and still before the second. The second
  keeps it when a pong of this socket came in between and its own \<open>ping\<close> does not throw;
  otherwise the second leaves the address without a connection and reports its peer dead. And
  a socket that was not pinged before the first round, and whose \<open>ping\<close> does not throw in it,
  keeps its connection in the first.
\<close>

theorem silent_peers_dropped:
  assumes "\<forall>x \<in> set es. \<not> is_round x"
    and "map_of (we_connections (ws_run env xs)) a = Some i"
    and "map_of (we_connections (ws_run env (xs @ PingInterval t1 throws1 # es))) a = Some i"
  shows "let w = ws_run env xs; w1 = ws_run env (xs @ [PingInterval t1 throws1]);
      v = ws_run env (xs @ PingInterval t1 throws1 # es);
      w2 = ws_run env (xs @ PingInterval t1 throws1 # es @ [PingInterval t2 throws2]) in
    (if answered env w1 i es \<and> \<not> throws2 i then map_of (we_connections w2) a = Some i else reported_dead v a w2) \<and>
    (respondedPong (socket_at w i) = None \<and> \<not> throws1 i \<longrightarrow> map_of (we_connections w1) a = Some i)"
proof -
  define w where "w = ws_run env xs"
  define w1 where "w1 = pingConnections env t1 throws1 w"
  define v where "v = foldl (ws_step env) w1 es"
  define w2 where "w2 = pingConnections env t2 throws2 v"
  have "ws_rest w" "ws_rest (ws_run env (xs @ PingInterval t1 throws1 # es))" by (simp_all add: w_def ws_run_rest)
  then have runs: "ws_run env (xs @ [PingInterval t1 throws1]) = w1" "ws_run env (xs @ PingInterval t1 throws1 # es) = v"
    "ws_run env (xs @ PingInterval t1 throws1 # es @ [PingInterval t2 throws2]) = w2"
    by (simp_all add: ws_run_append ping_step w_def w1_def v_def w2_def)
  have ok: "ws_ok w" "ws_ok w1" "ws_ok v" using ws_run_ok [of env] unfolding w_def runs [symmetric] by blast+
  have a: "map_of (we_connections w) a = Some i" "map_of (we_connections v) a = Some i"
    using assms(2,3) unfolding runs w_def by simp_all
  note first = ping_round [OF ok(1) a(1) w1_def]
  have "silent v i \<longleftrightarrow> \<not> answered env w1 i es"
    using silent_between [OF ok(2) assms(1)] first(1) by (simp add: v_def)
  then show ?thesis
    using ping_round(2) [OF ok(3) a(2) w2_def] first(2) unfolding Let_def runs w_def [symmetric]
    by (auto simp: silent_def)
qed

definition example_pings :: "ws_input list" where
  "example_pings = [Incoming ''ws://a'' (example_headers ''n''), Incoming ''ws://b'' (example_headers ''m'')]"

lemma example_pings_run:
  "we_connections (ws_run example_ws_env example_pings) = [(''ws://a'', 0), (''ws://b'', 1)]"
  "we_connections (ws_run example_ws_env (example_pings @ [PingInterval 1 (\<lambda>_. False), ServerPong 0 2])) =
     [(''ws://a'', 0), (''ws://b'', 1)]"
  "answered example_ws_env (ws_run example_ws_env (example_pings @ [PingInterval 1 (\<lambda>_. False)])) 0 [ServerPong 0 2]"
  "\<not> answered example_ws_env (ws_run example_ws_env (example_pings @ [PingInterval 1 (\<lambda>_. False)])) 1 [ServerPong 0 2]"
  by code_simp+

theorem silent_peers_dropped_witness:
  "let v = ws_run example_ws_env (example_pings @ [PingInterval 1 (\<lambda>_. False), ServerPong 0 2]);
       w = ws_run example_ws_env (example_pings @ [PingInterval 1 (\<lambda>_. False), ServerPong 0 2, PingInterval 3 (\<lambda>_. False)]) in
     map_of (we_connections w) ''ws://a'' = Some 0 \<and> reported_dead v ''ws://b'' w"
  using silent_peers_dropped [of "[ServerPong 0 2]" example_ws_env example_pings "''ws://a''" 0 1 "\<lambda>_. False" 3 "\<lambda>_. False"]
    silent_peers_dropped [of "[ServerPong 0 2]" example_ws_env example_pings "''ws://b''" 1 1 "\<lambda>_. False" 3 "\<lambda>_. False"]
  by (simp only: Let_def example_pings_run append_Cons append_Nil) (simp add: example_pings_run)

subsection \<open>Duplicate sockets and moving peers\<close>

text \<open>
  A duplicate socket takes the live connection with it. When a peer that is connected
  opens another socket from its address, the endpoint closes the new socket only; but the
  close handler of the server, when \<open>close\<close> calls it with another reason than the duplicate
  one (\<open>uWebSockets.js\<close> reports an empty one), looks its address up, finds the connection that
  was there, removes it and announces that the peer has disconnected, while the socket of
  that connection is left open.
\<close>

theorem duplicate_socket_removes_connection:
  assumes "map_of (we_connections (ws_run env xs)) a = Some i" "a \<noteq> []"
    and "peer_of_headers h = Inr p" "hdr_control h \<noteq> []" "hdr_message h \<noteq> []"
    and "close_calls_back env = Some r" "r \<noteq> DUPLICATE_SOCKET"
  shows "let w = ws_run env xs; w' = ws_run env (xs @ [Incoming a h]) in
    we_connections w' = AList.delete a (we_connections w) \<and>
    we_events w' = we_events w @ [WsClosed (we_next w) r, WsPeerDisconnected (getPeerInfo (we_book w) a) r] \<and>
    we_calls w' = we_calls w @ [CallTerminate (we_next w)] \<and> i \<noteq> we_next w"
proof -
  define w where "w = ws_run env xs"
  have ok: "ws_ok w" by (simp add: w_def ws_run_ok)
  have i: "i \<noteq> we_next w" using ws_okD(4) [OF ok, of a i] ws_okD(3) [OF ok, of i] assms(1) by (auto simp: w_def socket_ok_def)
  have "hdr_peerId h \<noteq> [] \<and> hdr_peerType h \<noteq> []"
    using assms(3) by (auto simp: peer_of_headers_def new_peer_info_def split: sum.splits if_splits)
  then have "ws_handle env w (Incoming a h) = drop_incoming env (we_next w)
      (ws_record [(''open:duplicateSocket'', 1)] (set_socket (we_next w) (\<lambda>_. (new_socket False a)\<lparr>sock_address := Some a\<rparr>)
        (w\<lparr>we_next := we_next w + 1\<rparr>)))"
    using assms(1-5) by (simp add: onIncomingConnection_def Let_def isConnected_def w_def)
  moreover have "ws_run env (xs @ [Incoming a h]) = run_reactions (ws_handle env w (Incoming a h))"
    by (simp add: w_def ws_run_def ws_step_def)
  ultimately show ?thesis using assms(1,6,7) i unfolding Let_def w_def [symmetric]
    by (simp add: drop_incoming_def ws_call_lib_def ws_record_def set_socket_def server_close_def socket_at_def
        isConnected_def onClose_def ws_emit_def)
qed

theorem duplicate_socket_removes_connection_witness:
  "we_connections (ws_run example_ws_env [Incoming ''ws://a'' (example_headers ''n''), Incoming ''ws://a'' (example_headers ''n'')]) = []"
proof -
  obtain p where p: "peer_of_headers (example_headers ''n'') = Inr p" using example_peer_of_headers [of "''n''"] by auto
  have w: "we_connections (ws_run example_ws_env [Incoming ''ws://a'' (example_headers ''n'')]) = [(''ws://a'', 0)]"
    using p by (simp add: ws_run_def ws_step_def onIncomingConnection_def Let_def new_ws_endpoint_def isConnected_def
        onNewConnection_def ws_emit_def ws_record_def set_socket_def socket_at_def new_socket_def)
      (simp add: example_headers_def)
  then show ?thesis
    using duplicate_socket_removes_connection [of example_ws_env "[Incoming ''ws://a'' (example_headers ''n'')]" "''ws://a''" 0
        "example_headers ''n''" p "[]"] p
    by (simp add: Let_def example_ws_env_def example_headers_def DUPLICATE_SOCKET_def)
qed

lemma find_append_first: "find P xs = Some x \<Longrightarrow> find P (xs @ ys) = Some x"
  by (induction xs) auto

lemma find_same: "(\<And>x. x \<in> set xs \<Longrightarrow> P x = Q x) \<Longrightarrow> find P xs = find Q xs"
  by (induction xs) auto

lemma book_keeps_first_address:
  assumes "getAddress b pid = Inr a" "map_of b c = None"
  shows "getAddress (book_add b c p) pid = Inr a"
proof -
  let ?P = "\<lambda>b x. map_option peerId (map_of b x) = Some pid"
  have c: "c \<notin> set (keys_of b)" using assms(2) by (simp add: map_of_eq_None_iff)
  then have k: "keys_of (AList.update c p b) = keys_of b @ [c]" by (rule keys_update_new)
  have "find (?P (AList.update c p b)) (keys_of b) = find (?P b) (keys_of b)" by (rule find_same) (use c in auto)
  moreover have "find (?P b) (keys_of b) = Some a" "a \<noteq> []"
    using assms(1) by (simp_all add: getAddress_def split: option.splits if_splits)
  ultimately have "find (?P (AList.update c p b)) (keys_of b @ [c]) = Some a" by (intro find_append_first) simp
  then show ?thesis using \<open>a \<noteq> []\<close> unfolding getAddress_def book_add_def k by simp
qed

text \<open>
  A peer that comes back from another address cannot be reached. The peer book never
  forgets an address, and the first one it has for a peer wins: when a known peer connects from
  an address the book does not have, while its first address has no connection, the new
  connection is registered and announced, but every \<open>send\<close> to the peer's id is rejected
  without a call of the library, for as long as the first address stays unconnected.
\<close>

theorem moved_peer_is_unreachable:
  assumes "getAddress (we_book (ws_run env xs)) (hdr_peerId h) = Inr a" "\<not> isConnected (ws_run env xs) a"
    and "map_of (we_book (ws_run env xs)) c = None" "c \<noteq> []"
    and "peer_of_headers h = Inr p" "hdr_control h \<noteq> []" "hdr_message h \<noteq> []"
  shows "let w = ws_run env (xs @ [Incoming c h]) in
    isConnected w c \<and> getPeerId (we_book w) c = Inr (hdr_peerId h) \<and> WsPeerConnected p \<in> set (we_events w) \<and>
    snd (ws_send env throws b (hdr_peerId h) m w) = SendSettled RejectedPromise \<and>
    we_calls (fst (ws_send env throws b (hdr_peerId h) m w)) = we_calls w"
proof -
  define w where "w = ws_run env xs"
  define w' where "w' = ws_run env (xs @ [Incoming c h])"
  have ok: "ws_ok w" by (simp add: w_def ws_run_ok)
  have p: "hdr_peerId h \<noteq> []" "hdr_peerType h \<noteq> []" "peerId p = hdr_peerId h"
    using assms(5) by (auto simp: peer_of_headers_def new_peer_info_def split: sum.splits if_splits option.splits)
  have n: "map_of (we_connections w) c = None"
    using ws_okD(4) [OF ok, of c] assms(3) by (cases "map_of (we_connections w) c") (auto simp: w_def)
  have w': "w' = run_reactions (onIncomingConnection env c h w)" by (simp add: w'_def w_def ws_run_def ws_step_def)
  have f: "we_connections w' = AList.update c (we_next w) (we_connections w)" "we_book w' = book_add (we_book w) c p"
    "we_events w' = we_events w @ [WsPeerConnected p]"
    using assms(4-7) p n unfolding w'
    by (simp_all add: onIncomingConnection_def Let_def isConnected_def onNewConnection_def ws_emit_def ws_record_def)
      (simp_all add: set_socket_def)
  have "a \<noteq> c" using assms(1,3) getAddress_sound [OF assms(1)] by (auto simp: getPeerId_def)
  then have a: "map_of (we_connections w') a = None" using assms(2) by (simp add: f isConnected_def w_def)
  have "resolveAddress w' (hdr_peerId h) = Inr a"
    using book_keeps_first_address [OF assms(1,3), of p] by (simp add: resolveAddress_def f w_def)
  then have "ws_send env throws b (hdr_peerId h) m w' = (ws_record [(''sendFailed'', 1)] w', SendSettled RejectedPromise)"
    by (simp add: ws_send_def a)
  then show ?thesis using p(3) unfolding Let_def w'_def [symmetric]
    by (simp add: f isConnected_def getPeerId_def book_add_def ws_record_def)
qed

theorem moved_peer_is_unreachable_witness:
  "snd (ws_send example_ws_env False 0 ''n'' ''m'' (ws_run example_ws_env
     [Incoming ''ws://a'' (example_headers ''n''), ServerClose 0 [], Incoming ''ws://b'' (example_headers ''n'')])) =
   SendSettled RejectedPromise"
proof -
  obtain p where p: "peer_of_headers (example_headers ''n'') = Inr p" "peerId p = ''n''"
    using example_peer_of_headers [of "''n''"] by auto
  have w: "we_connections (ws_run example_ws_env [Incoming ''ws://a'' (example_headers ''n''), ServerClose 0 []]) = []"
    "we_book (ws_run example_ws_env [Incoming ''ws://a'' (example_headers ''n''), ServerClose 0 []]) = [(''ws://a'', p)]"
    using p by (simp_all add: ws_run_def ws_step_def onIncomingConnection_def Let_def new_ws_endpoint_def isConnected_def book_add_def
        onNewConnection_def ws_emit_def ws_record_def set_socket_def socket_at_def new_socket_def
        exists_socket_def server_close_def onClose_def DUPLICATE_SOCKET_def)
      (simp_all add: example_headers_def)
  have a: "getAddress [(''ws://a'', p)] ''n'' = Inr ''ws://a''" using p by (simp add: getAddress_def)
  show ?thesis
    using moved_peer_is_unreachable [of example_ws_env "[Incoming ''ws://a'' (example_headers ''n''), ServerClose 0 []]"
        "example_headers ''n''" "''ws://a''" "''ws://b''" p False 0 "''m''"] w a p(1)
    by (simp add: Let_def isConnected_def example_headers_def)
qed

end
