(* ===== verification/MessageQueue.thy ===== *)
theory MessageQueue
  imports Prelude
begin

section \<open>The queue of messages to one neighbour\<close>

text \<open>
  \<open>src/src/connection/MessageQueue.ts\<close>. The queue keeps its items in a heap of the package
  \<open>heap\<close>, ordered by the number each item takes from the static counter
  \<open>QueueItem.nextNumber\<close>. The package is a parameter: a record of its operations over an
  unknown type of heaps, with the documented laws of a priority queue as the predicate
  \<open>heap_lawful\<close>. A heap holds references, so an item is its number, and the objects they
  refer to are in \<open>items\<close>: \<open>incrementTries\<close> on what \<open>peek\<close> returned changes the item the
  heap still holds. \<open>settled\<close> lists the calls of \<open>resolve\<close> and \<open>reject\<close> of the promises
  that \<open>add\<close> returned. The text of an error is the constructor of a datatype.
\<close>

record 'h heap_ops =
  heap_new :: 'h
  heap_push :: "nat \<Rightarrow> 'h \<Rightarrow> 'h"
  heap_peek :: "'h \<Rightarrow> nat option"
  heap_pop :: "'h \<Rightarrow> nat option \<times> 'h"
  heap_size :: "'h \<Rightarrow> nat"
  heap_is_empty :: "'h \<Rightarrow> bool"
  heap_clear :: "'h \<Rightarrow> 'h"

text \<open>What the heap contains, in ascending order.\<close>

definition heap_lawful :: "'h heap_ops \<Rightarrow> ('h \<Rightarrow> nat list) \<Rightarrow> bool" where
  "heap_lawful H content \<longleftrightarrow>
     content (heap_new H) = [] \<and>
     (\<forall>n h. content (heap_push H n h) = insort n (content h)) \<and>
     (\<forall>h. heap_peek H h = (case content h of [] \<Rightarrow> None | n # _ \<Rightarrow> Some n)) \<and>
     (\<forall>h. fst (heap_pop H h) = heap_peek H h) \<and>
     (\<forall>h. content (snd (heap_pop H h)) = tl (content h)) \<and>
     (\<forall>h. heap_size H h = length (content h)) \<and>
     (\<forall>h. heap_is_empty H h = (content h = [])) \<and>
     (\<forall>h. content (heap_clear H h) = [])"

datatype delivery_error = QueueFull | TooLarge | GaveUp

datatype delivery = Delivered | Rejected delivery_error

type_synonym error_info = "string \<times> string option \<times> string option"

record 'm queue_item =
  item_message :: 'm
  errorInfos :: "error_info list"
  tries :: nat
  failed :: bool

record ('m, 'h) message_queue =
  queue_heap :: 'h
  items :: "(nat, 'm queue_item) dict"
  settled :: "(nat \<times> delivery) list"

datatype queue_error = QueueTypeError

definition MAX_TRIES :: nat where
  "MAX_TRIES = 10"

definition new_item :: "'m \<Rightarrow> 'm queue_item" where
  "new_item m = \<lparr>item_message = m, errorInfos = [], tries = 0, failed = False\<rparr>"

definition new_queue :: "'h heap_ops \<Rightarrow> ('m, 'h) message_queue" where
  "new_queue H = \<lparr>queue_heap = heap_new H, items = [], settled = []\<rparr>"

text \<open>The object an item's number refers to.\<close>

definition item_at :: "('m, 'h) message_queue \<Rightarrow> nat \<Rightarrow> 'm queue_item" where
  "item_at q n = the (map_of (items q) n)"

definition item_isFailed :: "nat \<Rightarrow> ('m, 'h) message_queue \<Rightarrow> bool" where
  "item_isFailed n q = failed (item_at q n)"

definition item_delivered :: "nat \<Rightarrow> ('m, 'h) message_queue \<Rightarrow> ('m, 'h) message_queue" where
  "item_delivered n q = q\<lparr>settled := settled q @ [(n, Delivered)]\<rparr>"

definition item_incrementTries :: "error_info \<Rightarrow> nat \<Rightarrow> ('m, 'h) message_queue \<Rightarrow> ('m, 'h) message_queue" where
  "item_incrementTries info n q =
     (let it = item_at q n;
          it1 = it\<lparr>tries := tries it + 1, errorInfos := errorInfos it @ [info]\<rparr>;
          it2 = (if tries it1 \<ge> MAX_TRIES then it1\<lparr>failed := True\<rparr> else it1);
          q1 = q\<lparr>items := AList.update n it2 (items q)\<rparr>
      in if failed it2 then q1\<lparr>settled := settled q1 @ [(n, Rejected GaveUp)]\<rparr> else q1)"

definition item_immediateFail :: "delivery_error \<Rightarrow> nat \<Rightarrow> ('m, 'h) message_queue \<Rightarrow> ('m, 'h) message_queue" where
  "item_immediateFail e n q =
     q\<lparr>items := AList.update n ((item_at q n)\<lparr>failed := True\<rparr>) (items q),
       settled := settled q @ [(n, Rejected e)]\<rparr>"

definition queue_size :: "'h heap_ops \<Rightarrow> ('m, 'h) message_queue \<Rightarrow> nat" where
  "queue_size H q = heap_size H (queue_heap q)"

definition queue_peek :: "'h heap_ops \<Rightarrow> ('m, 'h) message_queue \<Rightarrow> nat option" where
  "queue_peek H q = heap_peek H (queue_heap q)"

definition queue_pop :: "'h heap_ops \<Rightarrow> ('m, 'h) message_queue \<Rightarrow> ('m, 'h) message_queue \<times> nat option" where
  "queue_pop H q = (q\<lparr>queue_heap := snd (heap_pop H (queue_heap q))\<rparr>, fst (heap_pop H (queue_heap q)))"

definition queue_empty :: "'h heap_ops \<Rightarrow> ('m, 'h) message_queue \<Rightarrow> bool" where
  "queue_empty H q = heap_is_empty H (queue_heap q)"

definition queue_clear :: "'h heap_ops \<Rightarrow> ('m, 'h) message_queue \<Rightarrow> ('m, 'h) message_queue" where
  "queue_clear H q = q\<lparr>queue_heap := heap_clear H (queue_heap q)\<rparr>"

text \<open>\<open>no\<close> is the value of \<open>QueueItem.nextNumber\<close>, which the constructor of the item increments.\<close>

definition queue_add ::
    "'h heap_ops \<Rightarrow> nat \<Rightarrow> nat \<Rightarrow> 'm \<Rightarrow> ('m, 'h) message_queue \<Rightarrow> (('m, 'h) message_queue, queue_error) outcome" where
  "queue_add H maxSize no m q =
     and_then
       (if queue_size H q = maxSize
        then (case queue_pop H q of
                (q1, None) \<Rightarrow> (q1, Some QueueTypeError)
              | (q1, Some n) \<Rightarrow> (item_immediateFail QueueFull n q1, None))
        else (q, None))
       (\<lambda>q1. (q1\<lparr>queue_heap := heap_push H no (queue_heap q1), items := AList.update no (new_item m) (items q1)\<rparr>,
              None))"

subsection \<open>The queue over a lawful heap\<close>

lemma heap_laws:
  assumes "heap_lawful H content"
  shows "content (heap_new H) = []" "content (heap_push H n h) = insort n (content h)"
    "heap_peek H h = (case content h of [] \<Rightarrow> None | n # _ \<Rightarrow> Some n)"
    "fst (heap_pop H h) = (case content h of [] \<Rightarrow> None | n # _ \<Rightarrow> Some n)"
    "content (snd (heap_pop H h)) = tl (content h)" "heap_size H h = length (content h)"
    "heap_is_empty H h = (content h = [])" "content (heap_clear H h) = []"
  using assms unfolding heap_lawful_def by auto

text \<open>The items that wait, oldest first.\<close>

definition queue_waiting :: "('h \<Rightarrow> nat list) \<Rightarrow> ('m, 'h) message_queue \<Rightarrow> nat list" where
  "queue_waiting content q = content (queue_heap q)"

text \<open>
  \<open>queue_ok content no added q\<close>: \<open>added\<close> are the numbers of the items ever added, in order,
  all below the counter \<open>no\<close>; the promises settle in that order, the items that still
  wait are the rest, and a waiting item has not failed and has tries left.
\<close>

definition item_ok :: "'m queue_item \<Rightarrow> bool" where
  "item_ok it \<longleftrightarrow> \<not> failed it \<and> tries it < MAX_TRIES \<and> length (errorInfos it) = tries it"

definition queue_ok :: "('h \<Rightarrow> nat list) \<Rightarrow> nat \<Rightarrow> nat list \<Rightarrow> ('m, 'h) message_queue \<Rightarrow> bool" where
  "queue_ok content no added q \<longleftrightarrow>
     added = map fst (settled q) @ queue_waiting content q \<and> sorted added \<and> distinct added \<and>
     (\<forall>n \<in> set added. n < no) \<and>
     (\<forall>n \<in> set (queue_waiting content q). \<exists>it. map_of (items q) n = Some it \<and> item_ok it)"

lemma queue_okD:
  assumes "queue_ok content no added q"
  shows "added = map fst (settled q) @ queue_waiting content q" "sorted added" "distinct added"
    "n \<in> set added \<Longrightarrow> n < no"
    "n \<in> set (queue_waiting content q) \<Longrightarrow> \<exists>it. map_of (items q) n = Some it \<and> item_ok it"
  using assms unfolding queue_ok_def by blast+

lemma new_queue_ok: "heap_lawful H content \<Longrightarrow> queue_ok content no [] (new_queue H)"
  by (simp add: queue_ok_def new_queue_def queue_waiting_def heap_laws)

lemma queue_ok_later: "queue_ok content no added q \<Longrightarrow> no \<le> no' \<Longrightarrow> queue_ok content no' added q"
  unfolding queue_ok_def by (meson less_le_trans)

lemma queue_reads:
  assumes "heap_lawful H content"
  shows "queue_size H q = length (queue_waiting content q)"
    "queue_empty H q \<longleftrightarrow> queue_waiting content q = []"
    "queue_peek H q = (case queue_waiting content q of [] \<Rightarrow> None | n # _ \<Rightarrow> Some n)"
    "snd (queue_pop H q) = queue_peek H q"
    "queue_waiting content (fst (queue_pop H q)) = tl (queue_waiting content q)"
    "items (fst (queue_pop H q)) = items q" "settled (fst (queue_pop H q)) = settled q"
  using heap_laws [OF assms]
  by (simp_all add: queue_size_def queue_empty_def queue_peek_def queue_pop_def queue_waiting_def)

text \<open>The item at the head leaves the queue and its promise settles, in either order.\<close>

lemma settle_head:
  assumes ok: "queue_ok content no added q" and w: "queue_waiting content q = n # ns"
    and s: "settled q' = settled q @ [(n, d)]" and w': "queue_waiting content q' = ns"
    and i: "\<And>k. k \<noteq> n \<Longrightarrow> map_of (items q') k = map_of (items q) k"
  shows "queue_ok content no added q'"
proof -
  have "distinct (queue_waiting content q)"
    using queue_okD(3) [OF ok] unfolding queue_okD(1) [OF ok] distinct_append by blast
  then have n: "n \<notin> set ns" using w by simp
  have "added = map fst (settled q') @ queue_waiting content q'"
    using queue_okD(1) [OF ok] w s w' by simp
  moreover have "\<exists>it. map_of (items q') k = Some it \<and> item_ok it" if "k \<in> set (queue_waiting content q')" for k
  proof -
    have "k \<noteq> n" using that n w' by blast
    moreover have "\<exists>it. map_of (items q) k = Some it \<and> item_ok it"
      using queue_okD(5) [OF ok, of k] that w w' by simp
    ultimately show ?thesis using i by simp
  qed
  ultimately show ?thesis using queue_okD(2,3,4) [OF ok] unfolding queue_ok_def by blast
qed

lemma add_effect:
  assumes H: "heap_lawful H content" and ok: "queue_ok content no added q"
    and len: "length (queue_waiting content q) \<le> maxSize" and pos: "0 < maxSize"
  shows "\<exists>q'. queue_add H maxSize no m q = (q', None) \<and> queue_ok content (no + 1) (added @ [no]) q' \<and>
    settled q' = settled q @
      (if length (queue_waiting content q) = maxSize then [(hd (queue_waiting content q), Rejected QueueFull)] else []) \<and>
    queue_waiting content q' =
      (if length (queue_waiting content q) = maxSize then tl (queue_waiting content q) else queue_waiting content q) @ [no] \<and>
    map_of (items q') no = Some (new_item m)"
proof -
  define q1 where "q1 = (if length (queue_waiting content q) = maxSize
      then item_immediateFail QueueFull (hd (queue_waiting content q)) (fst (queue_pop H q)) else q)"
  have q1: "queue_ok content no added q1 \<and> settled q1 = settled q @
      (if length (queue_waiting content q) = maxSize then [(hd (queue_waiting content q), Rejected QueueFull)] else []) \<and>
      queue_waiting content q1 =
      (if length (queue_waiting content q) = maxSize then tl (queue_waiting content q) else queue_waiting content q)"
  proof (cases "length (queue_waiting content q) = maxSize")
    case True
    then obtain n ns where w: "queue_waiting content q = n # ns" using pos by (cases "queue_waiting content q") auto
    have "queue_waiting content q1 = ns" "settled q1 = settled q @ [(n, Rejected QueueFull)]"
      "\<And>k. k \<noteq> n \<Longrightarrow> map_of (items q1) k = map_of (items q) k"
      using True w queue_reads(5,6,7) [OF H, of q]
      by (simp_all add: q1_def item_immediateFail_def queue_waiting_def)
    then show ?thesis using settle_head [OF ok w, of q1 "Rejected QueueFull"] True w by simp
  qed (use ok in \<open>simp add: q1_def\<close>)
  then have ok1: "queue_ok content no added q1" by blast
  define q2 where "q2 = q1\<lparr>queue_heap := heap_push H no (queue_heap q1), items := AList.update no (new_item m) (items q1)\<rparr>"
  have add: "queue_add H maxSize no m q = (q2, None)"
  proof (cases "length (queue_waiting content q) = maxSize")
    case True
    then obtain n ns where w: "queue_waiting content q = n # ns" using pos by (cases "queue_waiting content q") auto
    obtain p where "queue_pop H q = (p, Some n)" using queue_reads(3,4) [OF H, of q] w by (cases "queue_pop H q") auto
    then show ?thesis using True w queue_reads(1) [OF H, of q] by (simp add: queue_add_def q2_def q1_def)
  next
    case False
    then show ?thesis using queue_reads(1) [OF H, of q] by (simp add: queue_add_def q2_def q1_def)
  qed
  have w1: "queue_waiting content q1 = drop (length (settled q1)) added"
    using queue_okD(1) [OF ok1] by simp
  have lt: "\<forall>n \<in> set (queue_waiting content q1). n < no" using queue_okD(1,4) [OF ok1] by auto
  have "sorted (queue_waiting content q1)" using queue_okD(1,2) [OF ok1] by (simp add: sorted_append)
  then have ins: "insort no (queue_waiting content q1) = queue_waiting content q1 @ [no]"
    using lt sorted_insort_is_snoc [of "queue_waiting content q1" no] by (simp add: less_imp_le)
  have w2: "queue_waiting content q2 = queue_waiting content q1 @ [no]"
    using heap_laws(2) [OF H] ins by (simp add: q2_def queue_waiting_def)
  have "queue_ok content (no + 1) (added @ [no]) q2"
  proof -
    have "added @ [no] = map fst (settled q2) @ queue_waiting content q2"
      using queue_okD(1) [OF ok1] w2 by (simp add: q2_def)
    moreover have "sorted (added @ [no])" "distinct (added @ [no])" "\<forall>n \<in> set (added @ [no]). n < no + 1"
      using queue_okD(2,3,4) [OF ok1] by (auto simp: sorted_append less_Suc_eq less_imp_le)
    moreover have "\<forall>n \<in> set (queue_waiting content q2). \<exists>it. map_of (items q2) n = Some it \<and> item_ok it"
    proof -
      have "item_ok (new_item m)" by (simp add: item_ok_def new_item_def MAX_TRIES_def)
      moreover have "map_of (items q2) k = (if k = no then Some (new_item m) else map_of (items q1) k)" for k
        by (simp add: q2_def)
      ultimately show ?thesis using queue_okD(5) [OF ok1] lt unfolding w2 by auto
    qed
    ultimately show ?thesis by (simp add: queue_ok_def)
  qed
  then show ?thesis using add q1 w2 by (simp add: q2_def)
qed

text \<open>A heap for examples: the ascending list itself.\<close>

definition list_heap :: "nat list heap_ops" where
  "list_heap = \<lparr>heap_new = [], heap_push = insort, heap_peek = (\<lambda>h. case h of [] \<Rightarrow> None | n # _ \<Rightarrow> Some n),
     heap_pop = (\<lambda>h. (case h of [] \<Rightarrow> None | n # _ \<Rightarrow> Some n, tl h)), heap_size = length,
     heap_is_empty = (\<lambda>h. h = []), heap_clear = (\<lambda>_. [])\<rparr>"

lemma list_heap_lawful: "heap_lawful list_heap id"
  by (simp add: heap_lawful_def list_heap_def)

end
