(* ===== verification/ConnectionState.thy ===== *)
theory ConnectionState
  imports MessageQueue Peers
begin

section \<open>A connection between two nodes\<close>

text \<open>
  The class \<open>Connection\<close> of \<open>src/src/connection/Connection.ts\<close>: a WebRTC peer connection
  and its data channel, the queue of messages that wait for it, its timers and its pings.

  The package \<open>node-datachannel\<close> is not modelled. What the code asks of it is answered by
  the record \<open>dc_answers\<close>, an argument of each operation that asks (\<open>None\<close> and
  \<open>SendThrows\<close> are exceptions); what the code tells it is logged in \<open>native_calls\<close>; what it
  reports, asynchronously, are inputs of the step function. Peer connections and data
  channels are numbers; \<open>pc_listening\<close> and \<open>dc_listening\<close> are those whose emitters have the
  connection's listeners. A timer is a number too, \<open>timers\<close> holds those that are armed.
  Events for the connection's own listeners are logged in \<open>emitted\<close>. The loop that empties
  the queue asks the channel again in each round, so its answers are a function of the round.
\<close>

datatype send_answer = SendReturns bool | SendThrows string

record dc_answers =
  ans_send :: send_answer
  ans_isOpen :: "bool option"
  ans_bufferedAmount :: "nat option"
  ans_maxMessageSize :: "nat option"

datatype conn_timer = FlushImmediate | FlushTimeout | ConnectionTimeout | PingTimeout

datatype conn_event =
    EmitLocalDescription string string
  | EmitLocalCandidate string string
  | EmitOpen
  | EmitMessage string
  | EmitClose
  | EmitError string
  | EmitBufferLow
  | EmitBufferHigh

datatype native_call =
    CreatePeerConnection nat
  | CreateDataChannel nat nat
  | NativeSetRemoteDescription nat string string
  | NativeAddRemoteCandidate nat string string
  | SendMessage nat string
  | CloseDataChannel nat
  | ClosePeerConnection nat

record conn_config =
  isOffering :: bool
  bufferThresholdHigh :: nat
  maxPingPongAttempts :: nat
  queueMaxSize :: nat

record 'h connection =
  peerInfo :: peer_info
  isFinished :: bool
  remoteDescriptionSet :: bool
  messageQueue :: "(string, 'h) message_queue"
  pc :: "nat option"
  dataChannel :: "nat option"
  pc_emitter :: "nat option"
  dc_emitter :: "nat option"
  pc_listening :: "nat list"
  dc_listening :: "nat list"
  paused :: bool
  lastState :: "string option"
  lastGatheringState :: "string option"
  flushTimeoutRef :: "nat option"
  connectionTimeoutRef :: "nat option"
  pingTimeoutRef :: "nat option"
  flushRef :: "nat option"
  pingAttempts :: nat
  rtt :: "int option"
  rttStart :: "int option"
  enqueuedRemoteCandidate :: "(string \<times> string) option"
  timers :: "(nat \<times> conn_timer) list"
  next_timer :: nat
  emitted :: "conn_event list"
  native_calls :: "native_call list"

datatype conn_error = ConnectionAlreadyClosed | ConnectionTypeError

type_synonym 'h conn_outcome = "('h connection, conn_error) outcome"

subsection \<open>Timers and logs\<close>

definition start_timer :: "conn_timer \<Rightarrow> 'h connection \<Rightarrow> 'h connection" where
  "start_timer k s = s\<lparr>timers := timers s @ [(next_timer s, k)], next_timer := next_timer s + 1\<rparr>"

definition stop_timer :: "nat option \<Rightarrow> 'h connection \<Rightarrow> 'h connection" where
  "stop_timer r s = (case r of None \<Rightarrow> s | Some i \<Rightarrow> s\<lparr>timers := filter (\<lambda>t. fst t \<noteq> i) (timers s)\<rparr>)"

definition conn_emit :: "conn_event \<Rightarrow> 'h connection \<Rightarrow> 'h connection" where
  "conn_emit e s = s\<lparr>emitted := emitted s @ [e]\<rparr>"

definition call_native :: "native_call \<Rightarrow> 'h connection \<Rightarrow> 'h connection" where
  "call_native c s = s\<lparr>native_calls := native_calls s @ [c]\<rparr>"

definition new_connection :: "'h heap_ops \<Rightarrow> peer_info \<Rightarrow> (string, 'h) message_queue \<Rightarrow> 'h connection" where
  "new_connection H p q =
     (let s = \<lparr>peerInfo = p, isFinished = False, remoteDescriptionSet = False, messageQueue = q,
          pc = None, dataChannel = None, pc_emitter = None, dc_emitter = None, pc_listening = [], dc_listening = [],
          paused = False, lastState = None, lastGatheringState = None, flushTimeoutRef = None,
          connectionTimeoutRef = None, pingTimeoutRef = Some 0, flushRef = None, pingAttempts = 0,
          rtt = None, rttStart = None, enqueuedRemoteCandidate = None, timers = [], next_timer = 0,
          emitted = [], native_calls = []\<rparr>
      in start_timer PingTimeout s)"

subsection \<open>What it reads from the channel\<close>

definition isOpen :: "dc_answers \<Rightarrow> 'h connection \<Rightarrow> bool" where
  "isOpen a s = (case dataChannel s of None \<Rightarrow> False
     | Some _ \<Rightarrow> (case ans_isOpen a of None \<Rightarrow> False | Some b \<Rightarrow> b))"

definition getBufferedAmount :: "dc_answers \<Rightarrow> 'h connection \<Rightarrow> nat" where
  "getBufferedAmount a s = (case dataChannel s of None \<Rightarrow> 0
     | Some _ \<Rightarrow> (case ans_bufferedAmount a of None \<Rightarrow> 0 | Some n \<Rightarrow> n))"

definition getMaxMessageSize :: "dc_answers \<Rightarrow> 'h connection \<Rightarrow> nat" where
  "getMaxMessageSize a s = (case dataChannel s of None \<Rightarrow> 1024 * 1024
     | Some _ \<Rightarrow> (case ans_maxMessageSize a of None \<Rightarrow> 1024 * 1024 | Some n \<Rightarrow> n))"

definition getQueueSize :: "'h heap_ops \<Rightarrow> 'h connection \<Rightarrow> nat" where
  "getQueueSize H s = queue_size H (messageQueue s)"

definition setPeerInfo :: "peer_info \<Rightarrow> 'h connection \<Rightarrow> 'h connection" where
  "setPeerInfo p s = s\<lparr>peerInfo := p\<rparr>"

definition conn_getPeerId :: "'h connection \<Rightarrow> string" where
  "conn_getPeerId s = peerId (peerInfo s)"

subsection \<open>Closing\<close>

definition set_aside :: "nat option \<Rightarrow> nat list \<Rightarrow> nat list" where
  "set_aside r xs = (case r of None \<Rightarrow> xs | Some i \<Rightarrow> set_del i xs)"

definition conn_close :: "string option \<Rightarrow> 'h connection \<Rightarrow> 'h connection" where
  "conn_close err s =
     (if isFinished s then s
      else let
        s1 = s\<lparr>isFinished := True, pc_listening := set_aside (pc_emitter s) (pc_listening s),
               dc_listening := set_aside (dc_emitter s) (dc_listening s)\<rparr>;
        s2 = (case pc s1 of None \<Rightarrow> s1 | Some p \<Rightarrow> call_native (ClosePeerConnection p) s1);
        s3 = (case dataChannel s2 of None \<Rightarrow> s2 | Some d \<Rightarrow> call_native (CloseDataChannel d) s2);
        s4 = stop_timer (pingTimeoutRef s) (stop_timer (connectionTimeoutRef s)
               (stop_timer (flushTimeoutRef s) (stop_timer (flushRef s) s3)));
        s5 = s4\<lparr>dataChannel := None, pc := None, enqueuedRemoteCandidate := None, flushTimeoutRef := None,
                connectionTimeoutRef := None, pingTimeoutRef := None, flushRef := None\<rparr>;
        s6 = (case err of None \<Rightarrow> s5 | Some e \<Rightarrow> conn_emit (EmitError e) s5)
      in conn_emit EmitClose s6)"

subsection \<open>Pings\<close>

definition conn_ping :: "conn_config \<Rightarrow> int \<Rightarrow> dc_answers \<Rightarrow> 'h connection \<Rightarrow> 'h connection" where
  "conn_ping cfg now a s =
     (let s1 = (if isOpen a s then
                  (if pingAttempts s \<ge> maxPingPongAttempts cfg then conn_close (Some ''pong not received'') s
                   else (call_native (SendMessage (the (dataChannel s)) ''ping'') (s\<lparr>rttStart := Some now\<rparr>))
                          \<lparr>pingAttempts := pingAttempts s + 1\<rparr>)
                else s);
          s2 = stop_timer (pingTimeoutRef s1) s1
      in start_timer PingTimeout (s2\<lparr>pingTimeoutRef := Some (next_timer s2)\<rparr>))"

definition conn_pong :: "'h connection \<Rightarrow> 'h connection" where
  "conn_pong s = (case dataChannel s of None \<Rightarrow> s | Some d \<Rightarrow> call_native (SendMessage d ''pong'') s)"

subsection \<open>Sending\<close>

definition setFlushRef :: "'h connection \<Rightarrow> 'h connection" where
  "setFlushRef s = (if flushRef s = None then start_timer FlushImmediate (s\<lparr>flushRef := Some (next_timer s)\<rparr>) else s)"

definition conn_send :: "'h heap_ops \<Rightarrow> conn_config \<Rightarrow> nat \<Rightarrow> string \<Rightarrow> 'h connection \<Rightarrow> 'h conn_outcome" where
  "conn_send H cfg no m s =
     (let s1 = setFlushRef s in
      case queue_add H (queueMaxSize cfg) no m (messageQueue s1) of
        (q, None) \<Rightarrow> (s1\<lparr>messageQueue := q\<rparr>, None)
      | (q, Some _) \<Rightarrow> (s1\<lparr>messageQueue := q\<rparr>, Some ConnectionTypeError))"

definition pop_item :: "'h heap_ops \<Rightarrow> 'h connection \<Rightarrow> 'h connection" where
  "pop_item H s = s\<lparr>messageQueue := fst (queue_pop H (messageQueue s))\<rparr>"

definition processFailedMessage :: "'h heap_ops \<Rightarrow> nat \<Rightarrow> string \<Rightarrow> 'h connection \<Rightarrow> 'h connection" where
  "processFailedMessage H n e s =
     (let s1 = s\<lparr>messageQueue := item_incrementTries (e, lastGatheringState s, lastState s) n (messageQueue s)\<rparr>;
          s2 = (if item_isFailed n (messageQueue s1) then pop_item H s1 else s1)
      in if flushTimeoutRef s2 = None
         then start_timer FlushTimeout (s2\<lparr>flushTimeoutRef := Some (next_timer s2)\<rparr>) else s2)"

text \<open>One round of the loop, and whether the loop goes on, and with which count of successes.\<close>

datatype flush_next = FlushReturns | FlushContinues nat | FlushThrows

definition flush_round ::
    "'h heap_ops \<Rightarrow> conn_config \<Rightarrow> dc_answers \<Rightarrow> nat \<Rightarrow> 'h connection \<Rightarrow> 'h connection \<times> flush_next" where
  "flush_round H cfg a sends s =
     (if sends \<ge> 10 then (setFlushRef s, FlushReturns)
      else case queue_peek H (messageQueue s) of
        None \<Rightarrow> (s, FlushThrows)
      | Some n \<Rightarrow>
          if item_isFailed n (messageQueue s) then (pop_item H s, FlushContinues sends)
          else let m = item_message (item_at (messageQueue s) n) in
          if length m > getMaxMessageSize a s then
            (pop_item H (s\<lparr>messageQueue := item_immediateFail TooLarge n (messageQueue s)\<rparr>), FlushContinues sends)
          else if paused s \<or> getBufferedAmount a s \<ge> bufferThresholdHigh cfg then
            (if paused s then s else conn_emit EmitBufferHigh (s\<lparr>paused := True\<rparr>), FlushReturns)
          else let s1 = call_native (SendMessage (the (dataChannel s)) m) s in
          case ans_send a of
            SendThrows e \<Rightarrow> (processFailedMessage H n e s1, FlushReturns)
          | SendReturns b \<Rightarrow>
              if b \<and> isOpen a s1 then
                (let s2 = pop_item H s1
                 in (s2\<lparr>messageQueue := item_delivered n (messageQueue s2)\<rparr>, FlushContinues (sends + 1)))
              else (processFailedMessage H n ''Error: sendMessage returned false'' s1, FlushContinues sends))"

definition flush_goes_on :: "'h heap_ops \<Rightarrow> 'h connection \<Rightarrow> bool" where
  "flush_goes_on H s \<longleftrightarrow> \<not> isFinished s \<and> \<not> queue_empty H (messageQueue s) \<and> dataChannel s \<noteq> None"

partial_function (option) flush_loop ::
    "'h heap_ops \<Rightarrow> conn_config \<Rightarrow> (nat \<Rightarrow> dc_answers) \<Rightarrow> nat \<Rightarrow> nat \<Rightarrow> 'h connection \<Rightarrow> 'h conn_outcome option" where
  "flush_loop H cfg env i sends s =
     (if flush_goes_on H s then
        (case flush_round H cfg (env i) sends s of
           (t, FlushReturns) \<Rightarrow> Some (t, None)
         | (t, FlushThrows) \<Rightarrow> Some (t, Some ConnectionTypeError)
         | (t, FlushContinues k) \<Rightarrow> flush_loop H cfg env (i + 1) k t)
      else Some (s, None))"

definition attemptToFlushMessages ::
    "'h heap_ops \<Rightarrow> conn_config \<Rightarrow> (nat \<Rightarrow> dc_answers) \<Rightarrow> 'h connection \<Rightarrow> 'h conn_outcome option" where
  "attemptToFlushMessages H cfg env s = flush_loop H cfg env 0 0 s"

subsection \<open>Set-up and signalling\<close>

definition setupDataChannel :: "nat \<Rightarrow> 'h connection \<Rightarrow> 'h connection" where
  "setupDataChannel d s = s\<lparr>paused := False, dc_emitter := Some d, dc_listening := set_add d (dc_listening s)\<rparr>"

definition openDataChannel :: "nat \<Rightarrow> 'h connection \<Rightarrow> 'h connection" where
  "openDataChannel d s =
     conn_emit EmitOpen (setFlushRef ((stop_timer (connectionTimeoutRef s) s)\<lparr>dataChannel := Some d\<rparr>))"

definition arm_connection_timeout :: "'h connection \<Rightarrow> 'h connection" where
  "arm_connection_timeout s = start_timer ConnectionTimeout (s\<lparr>connectionTimeoutRef := Some (next_timer s)\<rparr>)"

text \<open>\<open>connect\<close>, with the peer connection and the data channel that the package makes.\<close>

definition conn_connect :: "conn_config \<Rightarrow> nat \<Rightarrow> nat \<Rightarrow> 'h connection \<Rightarrow> 'h conn_outcome" where
  "conn_connect cfg p d s =
     (if isFinished s then (s, Some ConnectionAlreadyClosed)
      else let s1 = (call_native (CreatePeerConnection p) s)
                 \<lparr>pc := Some p, pc_emitter := Some p, pc_listening := set_add p (pc_listening s)\<rparr>;
               s2 = (if isOffering cfg then setupDataChannel d (call_native (CreateDataChannel p d) s1) else s1)
           in (arm_connection_timeout s2, None))"

text \<open>Whether the two calls of the package throw is an argument.\<close>

definition setRemoteDescription :: "string \<Rightarrow> string \<Rightarrow> bool \<Rightarrow> bool \<Rightarrow> 'h connection \<Rightarrow> 'h connection" where
  "setRemoteDescription desc ty throws1 throws2 s = (case pc s of
       None \<Rightarrow> s
     | Some p \<Rightarrow>
         let s1 = call_native (NativeSetRemoteDescription p desc ty) s in
         if throws1 then s1
         else let s2 = s1\<lparr>remoteDescriptionSet := True\<rparr> in
         case enqueuedRemoteCandidate s2 of
           None \<Rightarrow> s2
         | Some (candidate, mid) \<Rightarrow>
             let s3 = call_native (NativeAddRemoteCandidate p candidate mid) s2
             in if throws2 then s3 else s3\<lparr>enqueuedRemoteCandidate := None\<rparr>)"

definition addRemoteCandidate :: "string \<Rightarrow> string \<Rightarrow> 'h connection \<Rightarrow> 'h connection" where
  "addRemoteCandidate candidate mid s = (case pc s of
       None \<Rightarrow> s
     | Some p \<Rightarrow> call_native (NativeAddRemoteCandidate p candidate mid) s)"

definition enqueueRemoteCandidate :: "string \<Rightarrow> string \<Rightarrow> 'h connection \<Rightarrow> 'h connection" where
  "enqueueRemoteCandidate candidate mid s = s\<lparr>enqueuedRemoteCandidate := Some (candidate, mid)\<rparr>"

subsection \<open>What the package reports\<close>

definition onStateChange :: "string \<Rightarrow> 'h connection \<Rightarrow> 'h connection" where
  "onStateChange st s =
     (let s1 = s\<lparr>lastState := Some st\<rparr> in
      if st = ''disconnected'' \<or> st = ''closed'' then conn_close None s1
      else if st = ''failed'' then conn_close (Some ''connection failed'') s1
      else if st = ''connecting'' then arm_connection_timeout (stop_timer (connectionTimeoutRef s1) s1)
      else s1)"

definition onGatheringStateChange :: "string \<Rightarrow> 'h connection \<Rightarrow> 'h connection" where
  "onGatheringStateChange st s = s\<lparr>lastGatheringState := Some st\<rparr>"

definition onDataChannel :: "nat \<Rightarrow> 'h connection \<Rightarrow> 'h connection" where
  "onDataChannel d s = openDataChannel d (setupDataChannel d s)"

definition onLocalDescription :: "string \<Rightarrow> string \<Rightarrow> 'h connection \<Rightarrow> 'h connection" where
  "onLocalDescription desc ty s = conn_emit (EmitLocalDescription ty desc) s"

definition onLocalCandidate :: "string \<Rightarrow> string \<Rightarrow> 'h connection \<Rightarrow> 'h connection" where
  "onLocalCandidate candidate mid s = conn_emit (EmitLocalCandidate candidate mid) s"

definition on_bufferedAmountLow :: "'h connection \<Rightarrow> 'h connection" where
  "on_bufferedAmountLow s =
     (if \<not> paused s then s else conn_emit EmitBufferLow (setFlushRef (s\<lparr>paused := False\<rparr>)))"

text \<open>Subtracting \<open>null\<close> subtracts zero.\<close>

definition on_channel_message :: "int \<Rightarrow> string \<Rightarrow> 'h connection \<Rightarrow> 'h connection" where
  "on_channel_message now msg s =
     (if msg = ''ping'' then conn_pong s
      else if msg = ''pong'' then
        s\<lparr>pingAttempts := 0, rtt := Some (now - (case rttStart s of None \<Rightarrow> 0 | Some t \<Rightarrow> t))\<rparr>
      else conn_emit (EmitMessage msg) s)"

definition connection_timed_out :: "'h connection \<Rightarrow> 'h connection" where
  "connection_timed_out s = (if isFinished s then s else conn_close (Some ''timed out'') s)"

subsection \<open>Inputs\<close>

datatype conn_input =
    Connect nat nat
  | SetRemoteDescription string string bool bool
  | AddRemoteCandidate string string
  | EnqueueRemoteCandidate string string
  | SetPeerInfo peer_info
  | Send nat string
  | Close "string option"
  | Ping int dc_answers
  | TimerFires nat int "nat \<Rightarrow> dc_answers"
  | StateChange nat string
  | GatheringStateChange nat string
  | LocalDescription nat string string
  | LocalCandidate nat string string
  | DataChannelArrives nat nat
  | ChannelOpen nat
  | ChannelClosed nat
  | ChannelError nat
  | BufferedAmountLow nat
  | ChannelMessage nat string int

definition when_listening :: "nat \<Rightarrow> nat list \<Rightarrow> ('h connection \<Rightarrow> 'h connection) \<Rightarrow> 'h connection \<Rightarrow> 'h conn_outcome option" where
  "when_listening d ds f s = Some (if d \<in> set ds then f s else s, None)"

definition timer_fires ::
    "'h heap_ops \<Rightarrow> conn_config \<Rightarrow> nat \<Rightarrow> int \<Rightarrow> (nat \<Rightarrow> dc_answers) \<Rightarrow> 'h connection \<Rightarrow> 'h conn_outcome option" where
  "timer_fires H cfg i now env s =
     (let s1 = stop_timer (Some i) s in
      case map_of (timers s) i of
        None \<Rightarrow> Some (s, None)
      | Some FlushImmediate \<Rightarrow> attemptToFlushMessages H cfg env (s1\<lparr>flushRef := None\<rparr>)
      | Some FlushTimeout \<Rightarrow> attemptToFlushMessages H cfg env (s1\<lparr>flushTimeoutRef := None\<rparr>)
      | Some ConnectionTimeout \<Rightarrow> Some (connection_timed_out s1, None)
      | Some PingTimeout \<Rightarrow> Some (conn_ping cfg now (env 0) s1, None))"

fun conn_handle :: "'h heap_ops \<Rightarrow> conn_config \<Rightarrow> 'h connection \<Rightarrow> conn_input \<Rightarrow> 'h conn_outcome option" where
  "conn_handle H cfg s (Connect p d) = Some (conn_connect cfg p d s)"
| "conn_handle H cfg s (SetRemoteDescription desc ty t1 t2) = Some (setRemoteDescription desc ty t1 t2 s, None)"
| "conn_handle H cfg s (AddRemoteCandidate c mid) = Some (addRemoteCandidate c mid s, None)"
| "conn_handle H cfg s (EnqueueRemoteCandidate c mid) = Some (enqueueRemoteCandidate c mid s, None)"
| "conn_handle H cfg s (SetPeerInfo p) = Some (setPeerInfo p s, None)"
| "conn_handle H cfg s (Send no m) = Some (conn_send H cfg no m s)"
| "conn_handle H cfg s (Close err) = Some (conn_close err s, None)"
| "conn_handle H cfg s (Ping now a) = Some (conn_ping cfg now a s, None)"
| "conn_handle H cfg s (TimerFires i now env) = timer_fires H cfg i now env s"
| "conn_handle H cfg s (StateChange p st) = when_listening p (pc_listening s) (onStateChange st) s"
| "conn_handle H cfg s (GatheringStateChange p st) = when_listening p (pc_listening s) (onGatheringStateChange st) s"
| "conn_handle H cfg s (LocalDescription p desc ty) = when_listening p (pc_listening s) (onLocalDescription desc ty) s"
| "conn_handle H cfg s (LocalCandidate p c mid) = when_listening p (pc_listening s) (onLocalCandidate c mid) s"
| "conn_handle H cfg s (DataChannelArrives p d) =
     when_listening p (if isOffering cfg then [] else pc_listening s) (onDataChannel d) s"
| "conn_handle H cfg s (ChannelOpen d) = when_listening d (dc_listening s) (openDataChannel d) s"
| "conn_handle H cfg s (ChannelClosed d) = when_listening d (dc_listening s) (conn_close None) s"
| "conn_handle H cfg s (ChannelError d) = Some (s, None)"
| "conn_handle H cfg s (BufferedAmountLow d) = when_listening d (dc_listening s) on_bufferedAmountLow s"
| "conn_handle H cfg s (ChannelMessage d msg now) = when_listening d (dc_listening s) (on_channel_message now msg) s"

text \<open>The state after an input, whether or not its handler threw.\<close>

definition conn_step :: "'h heap_ops \<Rightarrow> conn_config \<Rightarrow> 'h connection \<Rightarrow> conn_input \<Rightarrow> 'h connection" where
  "conn_step H cfg s e = (case conn_handle H cfg s e of None \<Rightarrow> s | Some r \<Rightarrow> fst r)"

end
