(* ===== verification/ConnectionFlush.thy ===== *)
theory ConnectionFlush
  imports ConnectionState
begin

section \<open>Emptying the queue\<close>

text \<open>
  The loop \<open>attemptToFlushMessages\<close> over a lawful heap: each round that goes on uses up
  some of the tries left to the items that wait, so the loop returns; what every round keeps
  or relates is lifted to the loop by \<open>flush_loop_related\<close>.
\<close>

definition tries_left :: "('h \<Rightarrow> nat list) \<Rightarrow> ('m, 'h) message_queue \<Rightarrow> nat" where
  "tries_left content q = sum_list (map (\<lambda>n. MAX_TRIES - tries (item_at q n)) (queue_waiting content q))"

lemma tries_left_bound: "tries_left content q \<le> MAX_TRIES * length (queue_waiting content q)"
proof -
  have "sum_list (map (\<lambda>n. MAX_TRIES - f n) ns) \<le> MAX_TRIES * length ns" for f :: "nat \<Rightarrow> nat" and ns
  proof (induction ns)
    case (Cons n ns)
    have "MAX_TRIES - f n \<le> MAX_TRIES" by simp
    then show ?case using Cons by simp
  qed simp
  then show ?thesis by (simp add: tries_left_def)
qed

text \<open>What one round does, written over the head of the queue.\<close>

definition settles_head ::
    "('h \<Rightarrow> nat list) \<Rightarrow> delivery \<Rightarrow> 'h connection \<Rightarrow> 'h connection \<Rightarrow> bool" where
  "settles_head content d s t \<longleftrightarrow> (\<exists>n ns. queue_waiting content (messageQueue s) = n # ns \<and>
     queue_waiting content (messageQueue t) = ns \<and> settled (messageQueue t) = settled (messageQueue s) @ [(n, d)] \<and>
     (\<forall>k. k \<noteq> n \<longrightarrow> map_of (items (messageQueue t)) k = map_of (items (messageQueue s)) k))"

lemma settles_head_effect:
  assumes ok: "queue_ok content no added (messageQueue s)" and st: "settles_head content d s t"
  shows "queue_ok content no added (messageQueue t)"
    "tries_left content (messageQueue t) < tries_left content (messageQueue s)"
    "length (queue_waiting content (messageQueue t)) < length (queue_waiting content (messageQueue s))"
proof -
  obtain n ns where w: "queue_waiting content (messageQueue s) = n # ns" and t: "queue_waiting content (messageQueue t) = ns"
    "settled (messageQueue t) = settled (messageQueue s) @ [(n, d)]"
    "\<And>k. k \<noteq> n \<Longrightarrow> map_of (items (messageQueue t)) k = map_of (items (messageQueue s)) k"
    using st unfolding settles_head_def by blast
  show "queue_ok content no added (messageQueue t)" by (rule settle_head [OF ok w t(2,1,3)])
  show "length (queue_waiting content (messageQueue t)) < length (queue_waiting content (messageQueue s))" by (simp add: w t(1))
  obtain it where it: "map_of (items (messageQueue s)) n = Some it" "item_ok it"
    using queue_okD(5) [OF ok, of n] w by auto
  have "distinct (n # ns)"
    using queue_okD(3) [OF ok] unfolding queue_okD(1) [OF ok] distinct_append w by blast
  then have "item_at (messageQueue t) k = item_at (messageQueue s) k" if "k \<in> set ns" for k
    using t(3) [of k] that by (cases "k = n") (simp_all add: item_at_def)
  then have "(\<Sum>k\<leftarrow>ns. MAX_TRIES - tries (item_at (messageQueue t) k)) =
      (\<Sum>k\<leftarrow>ns. MAX_TRIES - tries (item_at (messageQueue s) k))"
    by (intro arg_cong [where f = sum_list] map_cong) simp_all
  moreover have "MAX_TRIES - tries (item_at (messageQueue s) n) > 0"
    using it by (simp add: item_at_def item_ok_def)
  ultimately show "tries_left content (messageQueue t) < tries_left content (messageQueue s)"
    by (simp add: tries_left_def w t(1))
qed

lemma pop_item_reads:
  assumes "heap_lawful H content"
  shows "queue_waiting content (messageQueue (pop_item H s)) = tl (queue_waiting content (messageQueue s))"
    "items (messageQueue (pop_item H s)) = items (messageQueue s)"
    "settled (messageQueue (pop_item H s)) = settled (messageQueue s)"
  using queue_reads(5,6,7) [OF assms] by (simp_all add: pop_item_def)

lemma waiting_same [simp]:
  "queue_waiting content (item_delivered n q) = queue_waiting content q"
  "queue_waiting content (item_immediateFail e n q) = queue_waiting content q"
  "queue_waiting content (item_incrementTries i n q) = queue_waiting content q"
  by (simp_all add: queue_waiting_def item_delivered_def item_immediateFail_def item_incrementTries_def Let_def)

text \<open>The three ways in which an item leaves the queue in the loop.\<close>

lemma too_large_settles:
  assumes H: "heap_lawful H content" and w: "queue_waiting content (messageQueue s) = n # ns"
  shows "settles_head content (Rejected TooLarge) s
    (pop_item H (s\<lparr>messageQueue := item_immediateFail TooLarge n (messageQueue s)\<rparr>))"
  using pop_item_reads [OF H] w
  by (simp add: settles_head_def) (simp add: item_immediateFail_def)

lemma delivered_settles:
  assumes H: "heap_lawful H content" and w: "queue_waiting content (messageQueue s) = n # ns"
  shows "settles_head content Delivered s
    ((pop_item H s)\<lparr>messageQueue := item_delivered n (messageQueue (pop_item H s))\<rparr>)"
  using pop_item_reads [OF H] w
  by (simp add: settles_head_def) (simp add: item_delivered_def)

lemma failed_item_cases:
  assumes H: "heap_lawful H content" and ok: "queue_ok content no added (messageQueue s)"
    and w: "queue_waiting content (messageQueue s) = n # ns"
    and tdef: "t = processFailedMessage H n e s"
  shows "queue_ok content no added (messageQueue t) \<and>
    tries_left content (messageQueue t) < tries_left content (messageQueue s) \<and>
    length (queue_waiting content (messageQueue t)) \<le> length (queue_waiting content (messageQueue s)) \<and>
    (tries (item_at (messageQueue s) n) + 1 < MAX_TRIES \<longrightarrow>
       queue_waiting content (messageQueue t) = n # ns \<and> settled (messageQueue t) = settled (messageQueue s) \<and>
       tries (item_at (messageQueue t) n) = tries (item_at (messageQueue s) n) + 1 \<and>
       (\<forall>k. k \<noteq> n \<longrightarrow> item_at (messageQueue t) k = item_at (messageQueue s) k)) \<and>
    (tries (item_at (messageQueue s) n) + 1 = MAX_TRIES \<longrightarrow> settles_head content (Rejected GaveUp) s t)"
proof -
  obtain it where it: "map_of (items (messageQueue s)) n = Some it" "item_ok it"
    using queue_okD(5) [OF ok, of n] w by auto
  have at: "item_at (messageQueue s) n = it" using it(1) by (simp add: item_at_def)
  have less: "tries it < MAX_TRIES" and nf: "\<not> failed it" "length (errorInfos it) = tries it"
    using it(2) by (auto simp: item_ok_def)
  define q where "q = item_incrementTries (e, lastGatheringState s, lastState s) n (messageQueue s)"
  define it1 where "it1 = it\<lparr>tries := tries it + 1, errorInfos := errorInfos it @ [(e, lastGatheringState s, lastState s)]\<rparr>"
  have mq: "messageQueue t = (if item_isFailed n q then fst (queue_pop H q) else q)"
    by (simp add: tdef processFailedMessage_def Let_def q_def pop_item_def start_timer_def)
  show ?thesis
  proof (cases "tries it + 1 = MAX_TRIES")
    case False
    then have lt: "tries it + 1 < MAX_TRIES" using less by simp
    have q: "q = (messageQueue s)\<lparr>items := AList.update n it1 (items (messageQueue s))\<rparr>"
      using lt nf by (simp add: q_def item_incrementTries_def at it1_def Let_def)
    have "\<not> item_isFailed n q" using nf by (simp add: q item_isFailed_def item_at_def it1_def)
    then have t: "messageQueue t = q" by (simp add: mq)
    have items: "map_of (items q) k = (if k = n then Some it1 else map_of (items (messageQueue s)) k)" for k
      by (simp add: q)
    have wq: "queue_waiting content q = n # ns" "settled q = settled (messageQueue s)"
      using w by (simp_all add: q queue_waiting_def)
    have "item_ok it1" using lt nf by (simp add: item_ok_def it1_def)
    then have okq: "queue_ok content no added q"
      using queue_okD [OF ok] w items unfolding queue_ok_def wq by auto
    have "distinct (n # ns)"
      using queue_okD(3) [OF ok] unfolding queue_okD(1) [OF ok] distinct_append w by blast
    then have "item_at q k = item_at (messageQueue s) k" if "k \<in> set ns" for k
      using that by (cases "k = n") (simp_all add: item_at_def items)
    then have "(\<Sum>k\<leftarrow>ns. MAX_TRIES - tries (item_at q k)) = (\<Sum>k\<leftarrow>ns. MAX_TRIES - tries (item_at (messageQueue s) k))"
      by (intro arg_cong [where f = sum_list] map_cong) simp_all
    moreover have "tries (item_at q n) = Suc (tries it)" by (simp add: item_at_def items it1_def)
    ultimately have "tries_left content q < tries_left content (messageQueue s)"
      using less by (simp add: tries_left_def wq w at)
    moreover have "tries (item_at q n) = tries it + 1" "\<forall>k. k \<noteq> n \<longrightarrow> item_at q k = item_at (messageQueue s) k"
      by (simp_all add: item_at_def items it1_def)
    ultimately show ?thesis using False wq w okq by (simp add: t at)
  next
    case True
    have q: "q = (messageQueue s)\<lparr>items := AList.update n (it1\<lparr>failed := True\<rparr>) (items (messageQueue s)),
        settled := settled (messageQueue s) @ [(n, Rejected GaveUp)]\<rparr>"
      using True by (simp add: q_def item_incrementTries_def at it1_def Let_def)
    have "item_isFailed n q" by (simp add: q item_isFailed_def item_at_def)
    then have t: "messageQueue t = fst (queue_pop H q)" by (simp add: mq)
    have "settles_head content (Rejected GaveUp) s t"
      using w queue_reads(5,6,7) [OF H, of q] by (simp add: settles_head_def t) (simp add: q queue_waiting_def)
    then show ?thesis using settles_head_effect [OF ok] True by (simp add: at less_imp_le)
  qed
qed

text \<open>What the loop leaves alone, and what it adds to the logs.\<close>

definition ping_timers :: "'h connection \<Rightarrow> nat list" where
  "ping_timers s = map fst (filter (\<lambda>t. snd t = PingTimeout) (timers s))"

definition same_link :: "'h connection \<Rightarrow> 'h connection \<Rightarrow> bool" where
  "same_link s t \<longleftrightarrow> isFinished t = isFinished s \<and> dataChannel t = dataChannel s \<and> pc t = pc s \<and>
     pingTimeoutRef t = pingTimeoutRef s \<and> ping_timers t = ping_timers s \<and> pingAttempts t = pingAttempts s \<and>
     next_timer s \<le> next_timer t \<and> dc_listening t = dc_listening s \<and> pc_listening t = pc_listening s \<and>
     dc_emitter t = dc_emitter s \<and> pc_emitter t = pc_emitter s"

lemma same_link_refl: "same_link s s" by (simp add: same_link_def)

lemma same_link_trans: "same_link s t \<Longrightarrow> same_link t u \<Longrightarrow> same_link s u"
  unfolding same_link_def by simp

lemma same_link_setFlushRef: "same_link s (setFlushRef s)"
  by (simp add: same_link_def setFlushRef_def start_timer_def ping_timers_def)

lemma same_link_failed: "same_link s (processFailedMessage H n e s)"
  by (simp add: same_link_def processFailedMessage_def pop_item_def start_timer_def ping_timers_def Let_def)

definition flush_logs :: "('h \<Rightarrow> nat list) \<Rightarrow> 'h connection \<Rightarrow> 'h connection \<Rightarrow> bool" where
  "flush_logs content s t \<longleftrightarrow>
     (\<exists>ms. native_calls t = native_calls s @ map (SendMessage (the (dataChannel s))) ms \<and>
        length ms + tries_left content (messageQueue t) \<le> tries_left content (messageQueue s)) \<and>
     (\<exists>k. emitted t = emitted s @ replicate k EmitBufferHigh) \<and>
     length (queue_waiting content (messageQueue t)) \<le> length (queue_waiting content (messageQueue s))"

lemma flush_logs_refl: "flush_logs content s s"
  by (auto simp: flush_logs_def intro: exI [of _ "[]"] exI [of _ 0])

lemma flush_logs_trans:
  assumes "flush_logs content s t" "flush_logs content t u" "dataChannel t = dataChannel s"
  shows "flush_logs content s u"
proof -
  obtain ms where ms: "native_calls t = native_calls s @ map (SendMessage (the (dataChannel s))) ms"
      "length ms + tries_left content (messageQueue t) \<le> tries_left content (messageQueue s)"
    using assms(1) unfolding flush_logs_def by blast
  obtain ns where ns: "native_calls u = native_calls t @ map (SendMessage (the (dataChannel s))) ns"
      "length ns + tries_left content (messageQueue u) \<le> tries_left content (messageQueue t)"
    using assms(2,3) unfolding flush_logs_def by auto
  obtain j where j: "emitted t = emitted s @ replicate j EmitBufferHigh"
    using assms(1) unfolding flush_logs_def by blast
  obtain k where k: "emitted u = emitted t @ replicate k EmitBufferHigh"
    using assms(2) unfolding flush_logs_def by blast
  have "native_calls u = native_calls s @ map (SendMessage (the (dataChannel s))) (ms @ ns)"
    "length (ms @ ns) + tries_left content (messageQueue u) \<le> tries_left content (messageQueue s)"
    using ms ns by simp_all
  moreover have "emitted u = emitted s @ replicate (j + k) EmitBufferHigh"
    by (simp add: j k replicate_add)
  moreover have "length (queue_waiting content (messageQueue u)) \<le> length (queue_waiting content (messageQueue s))"
    using assms(1,2) unfolding flush_logs_def by linarith
  ultimately show ?thesis unfolding flush_logs_def by blast
qed

text \<open>A round, by the branch it takes.\<close>

lemma round_effect:
  assumes H: "heap_lawful H content" and ok: "queue_ok content no added (messageQueue s)"
    and on: "flush_goes_on H s" and r: "flush_round H cfg a sends s = (t, nxt)"
  shows "queue_ok content no added (messageQueue t) \<and> same_link s t \<and> flush_logs content s t \<and> nxt \<noteq> FlushThrows \<and>
    (\<forall>k. nxt = FlushContinues k \<longrightarrow> tries_left content (messageQueue t) < tries_left content (messageQueue s))"
proof (cases "sends \<ge> 10")
  case True
  then have "t = setFlushRef s" "nxt = FlushReturns" using r by (simp_all add: flush_round_def)
  moreover have "messageQueue (setFlushRef s) = messageQueue s" "native_calls (setFlushRef s) = native_calls s"
    "emitted (setFlushRef s) = emitted s"
    by (simp_all add: setFlushRef_def start_timer_def)
  ultimately show ?thesis
    using ok same_link_setFlushRef [of s] flush_logs_refl [of content s] by (simp add: flush_logs_def)
next
  case False
  obtain n ns where w: "queue_waiting content (messageQueue s) = n # ns"
    using on queue_reads(2) [OF H] unfolding flush_goes_on_def by (cases "queue_waiting content (messageQueue s)") auto
  define m where "m = item_message (item_at (messageQueue s) n)"
  define s1 where "s1 = call_native (SendMessage (the (dataChannel s)) m) s"
  have s1: "messageQueue s1 = messageQueue s" "same_link s s1" "emitted s1 = emitted s" "dataChannel s1 = dataChannel s"
      "native_calls s1 = native_calls s @ [SendMessage (the (dataChannel s)) m]"
    by (simp_all add: s1_def call_native_def same_link_def ping_timers_def)
  have "\<not> item_isFailed n (messageQueue s)"
    using queue_okD(5) [OF ok, of n] w by (auto simp: item_isFailed_def item_at_def item_ok_def)
  then have round: "flush_round H cfg a sends s =
      (if length m > getMaxMessageSize a s then
         (pop_item H (s\<lparr>messageQueue := item_immediateFail TooLarge n (messageQueue s)\<rparr>), FlushContinues sends)
       else if paused s \<or> getBufferedAmount a s \<ge> bufferThresholdHigh cfg then
         (if paused s then s else conn_emit EmitBufferHigh (s\<lparr>paused := True\<rparr>), FlushReturns)
       else case ans_send a of
         SendThrows e \<Rightarrow> (processFailedMessage H n e s1, FlushReturns)
       | SendReturns b \<Rightarrow>
           if b \<and> isOpen a s1 then
             ((pop_item H s1)\<lparr>messageQueue := item_delivered n (messageQueue (pop_item H s1))\<rparr>, FlushContinues (sends + 1))
           else (processFailedMessage H n ''Error: sendMessage returned false'' s1, FlushContinues sends))"
    using False w queue_reads(3) [OF H, of "messageQueue s"]
    unfolding flush_round_def m_def s1_def Let_def by simp
  have failed_case: "queue_ok content no added (messageQueue u) \<and> same_link s u \<and> flush_logs content s u \<and>
      tries_left content (messageQueue u) < tries_left content (messageQueue s)"
    if u: "u = processFailedMessage H n e s1" for u e
  proof -
    have f: "queue_ok content no added (messageQueue u)" "tries_left content (messageQueue u) < tries_left content (messageQueue s)"
      "length (queue_waiting content (messageQueue u)) \<le> length (queue_waiting content (messageQueue s))"
      using failed_item_cases [OF H, of no added s1 n ns u e] ok w u by (simp_all add: s1(1))
    moreover have "same_link s u"
      using same_link_trans [OF s1(2) same_link_failed [of s1 H n e]] u by simp
    moreover have "native_calls u = native_calls s1" "emitted u = emitted s1"
      by (simp_all add: u processFailedMessage_def pop_item_def start_timer_def Let_def)
    ultimately show ?thesis
      unfolding flush_logs_def using s1(3,5) by (auto intro!: exI [of _ "[m]"] exI [of _ 0])
  qed
  consider "length m > getMaxMessageSize a s"
    | "\<not> length m > getMaxMessageSize a s" "paused s \<or> getBufferedAmount a s \<ge> bufferThresholdHigh cfg"
    | e where "\<not> length m > getMaxMessageSize a s" "\<not> (paused s \<or> getBufferedAmount a s \<ge> bufferThresholdHigh cfg)"
        "ans_send a = SendThrows e"
    | b where "\<not> length m > getMaxMessageSize a s" "\<not> (paused s \<or> getBufferedAmount a s \<ge> bufferThresholdHigh cfg)"
        "ans_send a = SendReturns b" "b \<and> isOpen a s1"
    | b where "\<not> length m > getMaxMessageSize a s" "\<not> (paused s \<or> getBufferedAmount a s \<ge> bufferThresholdHigh cfg)"
        "ans_send a = SendReturns b" "\<not> (b \<and> isOpen a s1)"
    by (cases "ans_send a") blast+
  then show ?thesis
  proof cases
    case 1
    then have t: "t = pop_item H (s\<lparr>messageQueue := item_immediateFail TooLarge n (messageQueue s)\<rparr>)" "nxt \<noteq> FlushThrows"
      using r round by auto
    have "same_link s t" "native_calls t = native_calls s" "emitted t = emitted s"
      by (simp_all add: t(1) pop_item_def same_link_def ping_timers_def)
    then show ?thesis
      using settles_head_effect [OF ok too_large_settles [OF H w], folded t(1)] t(2)
      unfolding flush_logs_def by (auto intro!: exI [of _ "[]"] exI [of _ 0])
  next
    case 2
    then have t: "t = (if paused s then s else conn_emit EmitBufferHigh (s\<lparr>paused := True\<rparr>))" "nxt = FlushReturns"
      using r round by auto
    have "same_link s t" "native_calls t = native_calls s" "messageQueue t = messageQueue s"
      by (simp_all add: t conn_emit_def same_link_def ping_timers_def)
    moreover have "emitted t = emitted s @ replicate (if paused s then 0 else 1) EmitBufferHigh"
      by (simp add: t conn_emit_def)
    ultimately show ?thesis
      using ok t(2) unfolding flush_logs_def by (auto intro!: exI [of _ "[]"])
  next
    case 3
    then have "t = processFailedMessage H n e s1" "nxt = FlushReturns" using r round by auto
    then show ?thesis using failed_case by simp
  next
    case 4
    then have t: "t = (pop_item H s1)\<lparr>messageQueue := item_delivered n (messageQueue (pop_item H s1))\<rparr>" "nxt \<noteq> FlushThrows"
      using r round by auto
    have "settles_head content Delivered s1 t" using delivered_settles [OF H, of s1 n ns] w s1(1) t(1) by simp
    then have st: "settles_head content Delivered s t" by (simp add: settles_head_def s1(1))
    have "same_link s t"
      using s1(2) by (simp add: t(1) pop_item_def same_link_def ping_timers_def)
    moreover have "native_calls t = native_calls s1" "emitted t = emitted s1"
      by (simp_all add: t(1) pop_item_def)
    ultimately show ?thesis
      using settles_head_effect [OF ok st] s1(3,5) t(2)
      unfolding flush_logs_def by (auto intro!: exI [of _ "[m]"] exI [of _ 0])
  next
    case 5
    then have "t = processFailedMessage H n ''Error: sendMessage returned false'' s1" "nxt = FlushContinues sends"
      using r round by auto
    then show ?thesis using failed_case by simp
  qed
qed

text \<open>The loop returns, and what each round keeps holds at the end.\<close>

lemma flush_loop_keeps:
  assumes H: "heap_lawful H content" and "queue_ok content no added (messageQueue s)" and "P s"
    and keep: "\<And>a sends s. queue_ok content no added (messageQueue s) \<Longrightarrow> flush_goes_on H s \<Longrightarrow> P s \<Longrightarrow>
      P (fst (flush_round H cfg a sends s))"
  shows "\<exists>t. flush_loop H cfg env i sends s = Some (t, None) \<and> queue_ok content no added (messageQueue t) \<and>
    same_link s t \<and> flush_logs content s t \<and> P t"
  using assms(2,3)
proof (induction "tries_left content (messageQueue s)" arbitrary: s i sends rule: less_induct)
  case less
  show ?case
  proof (cases "flush_goes_on H s")
    case False
    then show ?thesis
      using less.prems same_link_refl [of s] flush_logs_refl [of content s] by (subst flush_loop.simps) simp
  next
    case True
    obtain t nxt where r: "flush_round H cfg (env i) sends s = (t, nxt)" by fastforce
    note eff = round_effect [OF H less.prems(1) True r]
    have P: "P t" using keep [OF less.prems(1) True less.prems(2), of "env i" sends] r by simp
    show ?thesis
    proof (cases nxt)
      case FlushReturns
      then show ?thesis using eff P True r by (subst flush_loop.simps) simp
    next
      case (FlushContinues k)
      then obtain u where u: "flush_loop H cfg env (i + 1) k t = Some (u, None)"
          "queue_ok content no added (messageQueue u)" "same_link t u" "flush_logs content t u" "P u"
        using less.hyps [of t "i + 1" k] eff P by blast
      have "same_link s u" using eff u(3) same_link_trans by blast
      moreover have "flush_logs content s u"
        using flush_logs_trans [of content s t u] eff u(4) by (simp add: same_link_def)
      ultimately show ?thesis
        using u(1,2,5) True r FlushContinues by (subst flush_loop.simps) simp
    qed (use eff in simp)
  qed
qed

lemmas flush_loop_effect = flush_loop_keeps [where P = "\<lambda>_. True", simplified]

end
