(* ===== verification/ConnectionRuns.thy ===== *)
theory ConnectionRuns
  imports ConnectionFlush
begin

section \<open>Runs of a connection\<close>

text \<open>
  Invariants of the runs of a connection: of its queue (\<open>conn_queue_ok\<close>), of its timers
  (\<open>conn_timers_ok\<close>) and of what it emits. The numbers of the items added in a run ascend, as
  those of a static counter do, whatever other queues took in between.
\<close>

subsection \<open>The queue\<close>

lemma stop_timer_eq: "stop_timer r s = s\<lparr>timers := filter (\<lambda>t. r \<noteq> Some (fst t)) (timers s)\<rparr>"
  by (cases r) (simp_all add: stop_timer_def eq_commute [of "fst _"])

lemma primitives_keep_queue [simp]:
  "messageQueue (start_timer k s) = messageQueue s" "messageQueue (stop_timer r s) = messageQueue s"
  "messageQueue (conn_emit e s) = messageQueue s" "messageQueue (call_native c s) = messageQueue s"
  by (simp_all add: start_timer_def stop_timer_def conn_emit_def call_native_def split: option.split)

lemma small_steps_keep_queue [simp]:
  "messageQueue (setFlushRef s) = messageQueue s" "messageQueue (setupDataChannel d s) = messageQueue s"
  "messageQueue (arm_connection_timeout s) = messageQueue s" "messageQueue (conn_pong s) = messageQueue s"
  "messageQueue (openDataChannel d s) = messageQueue s" "messageQueue (setPeerInfo info s) = messageQueue s"
  by (simp_all add: setFlushRef_def setupDataChannel_def arm_connection_timeout_def conn_pong_def openDataChannel_def
      setPeerInfo_def split: option.split)

lemma close_keeps_queue [simp]: "messageQueue (conn_close err s) = messageQueue s"
  by (simp add: conn_close_def Let_def split: option.split)

lemma handlers_keep_queue [simp]:
  "messageQueue (fst (conn_connect cfg p d s)) = messageQueue s"
  "messageQueue (setRemoteDescription desc ty t1 t2 s) = messageQueue s"
  "messageQueue (addRemoteCandidate c mid s) = messageQueue s"
  "messageQueue (enqueueRemoteCandidate c mid s) = messageQueue s"
  "messageQueue (conn_ping cfg now a s) = messageQueue s"
  "messageQueue (onStateChange st s) = messageQueue s"
  "messageQueue (onGatheringStateChange st s) = messageQueue s"
  "messageQueue (onLocalDescription desc ty s) = messageQueue s"
  "messageQueue (onLocalCandidate c mid s) = messageQueue s"
  "messageQueue (onDataChannel d s) = messageQueue s"
  "messageQueue (on_bufferedAmountLow s) = messageQueue s"
  "messageQueue (on_channel_message now msg s) = messageQueue s"
  "messageQueue (connection_timed_out s) = messageQueue s"
  by (simp_all add: conn_connect_def setRemoteDescription_def addRemoteCandidate_def enqueueRemoteCandidate_def
      conn_ping_def onStateChange_def onGatheringStateChange_def onLocalDescription_def onLocalCandidate_def
      onDataChannel_def on_bufferedAmountLow_def on_channel_message_def connection_timed_out_def Let_def
      split: option.split prod.split)

fun send_numbers :: "conn_input list \<Rightarrow> nat list" where
  "send_numbers [] = []"
| "send_numbers (Send no m # es) = no # send_numbers es"
| "send_numbers (e # es) = send_numbers es"

definition conn_queue_ok :: "('h \<Rightarrow> nat list) \<Rightarrow> conn_config \<Rightarrow> nat \<Rightarrow> nat list \<Rightarrow> 'h connection \<Rightarrow> bool" where
  "conn_queue_ok content cfg no added s \<longleftrightarrow>
     queue_ok content no added (messageQueue s) \<and> length (queue_waiting content (messageQueue s)) \<le> queueMaxSize cfg"

lemma new_connection_queue:
  "heap_lawful H content \<Longrightarrow> conn_queue_ok content cfg no [] (new_connection H p (new_queue H))"
  using new_queue_ok [of H content no]
  by (simp add: conn_queue_ok_def new_connection_def start_timer_def Let_def) (simp add: new_queue_def queue_waiting_def heap_laws)

lemma fires_queue:
  assumes H: "heap_lawful H content" and ok: "conn_queue_ok content cfg no added s"
  shows "conn_queue_ok content cfg no added (conn_step H cfg s (TimerFires i now env))"
proof -
  have flush: "\<exists>t. attemptToFlushMessages H cfg env u = Some (t, None) \<and> conn_queue_ok content cfg no added t"
    if "messageQueue u = messageQueue s" for u
    using flush_loop_effect [OF H, of no added u cfg env 0 0] ok that
    unfolding conn_queue_ok_def attemptToFlushMessages_def flush_logs_def by force
  show ?thesis
  proof (cases "map_of (timers s) i")
    case None
    then show ?thesis using ok by (simp add: conn_step_def timer_fires_def)
  next
    case (Some k)
    let ?s1 = "stop_timer (Some i) s"
    have "messageQueue (?s1\<lparr>flushRef := None\<rparr>) = messageQueue s" "messageQueue (?s1\<lparr>flushTimeoutRef := None\<rparr>) = messageQueue s"
      by simp_all
    from flush [OF this(1)] flush [OF this(2)] Some show ?thesis
      using ok by (cases k)
        (auto simp: conn_step_def timer_fires_def Let_def connection_timed_out_def conn_queue_ok_def)
  qed
qed

lemma send_queue:
  assumes H: "heap_lawful H content" and ok: "conn_queue_ok content cfg no added s" and le: "no \<le> k"
    and pos: "0 < queueMaxSize cfg"
  shows "conn_queue_ok content cfg (k + 1) (added @ [k]) (conn_step H cfg s (Send k m))"
    "snd (conn_send H cfg k m s) = None"
proof -
  define q where "q = messageQueue s"
  have "queue_ok content k added q" "length (queue_waiting content q) \<le> queueMaxSize cfg"
    using ok le unfolding conn_queue_ok_def q_def by (auto intro: queue_ok_later)
  from add_effect [OF H this pos, of m] obtain q' where q': "queue_add H (queueMaxSize cfg) k m q = (q', None)"
    "queue_ok content (k + 1) (added @ [k]) q'" and w': "queue_waiting content q' =
      (if length (queue_waiting content q) = queueMaxSize cfg then tl (queue_waiting content q) else queue_waiting content q) @ [k]"
    by blast
  have "length (queue_waiting content q') \<le> queueMaxSize cfg"
    using w' \<open>length (queue_waiting content q) \<le> queueMaxSize cfg\<close> pos by simp
  then show "conn_queue_ok content cfg (k + 1) (added @ [k]) (conn_step H cfg s (Send k m))"
    "snd (conn_send H cfg k m s) = None"
    using q' by (simp_all add: conn_step_def conn_send_def Let_def conn_queue_ok_def q_def [symmetric])
qed

lemma other_step_queue:
  assumes H: "heap_lawful H content" and ok: "conn_queue_ok content cfg no added s" and e: "send_numbers [e] = []"
  shows "conn_queue_ok content cfg no added (conn_step H cfg s e)"
proof (cases e)
  case (TimerFires i now env)
  then show ?thesis using fires_queue [OF H ok] by simp
qed (use ok e in \<open>auto simp: conn_step_def when_listening_def conn_queue_ok_def\<close>)

lemma run_queue:
  assumes H: "heap_lawful H content" and pos: "0 < queueMaxSize cfg"
    and "conn_queue_ok content cfg no added s" and "sorted_wrt (<) (send_numbers es)"
    and "\<forall>k \<in> set (send_numbers es). no \<le> k"
  shows "\<exists>no'. conn_queue_ok content cfg no' (added @ send_numbers es) (foldl (conn_step H cfg) s es)"
  using assms(3-)
proof (induction es arbitrary: no added s)
  case (Cons e es)
  show ?case
  proof (cases "send_numbers [e] = []")
    case True
    then have "send_numbers (e # es) = send_numbers es" by (cases e) auto
    then show ?thesis using Cons.IH [OF other_step_queue [OF H Cons.prems(1) True]] Cons.prems(2,3) by simp
  next
    case False
    then obtain k m where e: "e = Send k m" by (cases e) auto
    have "no \<le> k" using Cons.prems(3) e by simp
    moreover have "\<forall>j \<in> set (send_numbers es). k + 1 \<le> j" using Cons.prems(2) e by auto
    ultimately show ?thesis
      using Cons.IH [OF send_queue(1) [OF H Cons.prems(1) _ pos]] Cons.prems(2) e by simp
  qed
qed auto

end
