(* ===== verification/ConnectionLife.thy ===== *)
theory ConnectionLife
  imports ConnectionRuns
begin

section \<open>The timers and the end of a connection\<close>

text \<open>
  \<open>conn_timers_ok\<close> is the invariant of the timers: the references the connection holds are to
  timers of their kind, and exactly the timer \<open>pingTimeoutRef\<close> refers to is armed for the
  next ping. It fails only while that timer's own callback runs (\<open>timers_weak\<close>).
\<close>

definition ref_ok :: "conn_timer \<Rightarrow> nat option \<Rightarrow> nat \<Rightarrow> (nat \<times> conn_timer) list \<Rightarrow> bool" where
  "ref_ok k r n ts \<longleftrightarrow> (\<forall>i. r = Some i \<longrightarrow> i < n \<and> (\<forall>k'. (i, k') \<in> set ts \<longrightarrow> k' = k))"

definition armed_ok :: "nat \<Rightarrow> (nat \<times> conn_timer) list \<Rightarrow> bool" where
  "armed_ok n ts \<longleftrightarrow> dict_ok ts \<and> (\<forall>t \<in> set ts. fst t < n)"

definition timers_weak :: "'h connection \<Rightarrow> bool" where
  "timers_weak s \<longleftrightarrow> armed_ok (next_timer s) (timers s) \<and>
     ref_ok FlushImmediate (flushRef s) (next_timer s) (timers s) \<and>
     ref_ok FlushTimeout (flushTimeoutRef s) (next_timer s) (timers s) \<and>
     ref_ok ConnectionTimeout (connectionTimeoutRef s) (next_timer s) (timers s) \<and>
     ref_ok PingTimeout (pingTimeoutRef s) (next_timer s) (timers s) \<and>
     (\<forall>i. (i, PingTimeout) \<in> set (timers s) \<longrightarrow> pingTimeoutRef s = Some i)"

definition conn_timers_ok :: "'h connection \<Rightarrow> bool" where
  "conn_timers_ok s \<longleftrightarrow> timers_weak s \<and> (\<forall>i. pingTimeoutRef s = Some i \<longrightarrow> (i, PingTimeout) \<in> set (timers s)) \<and>
     (pingTimeoutRef s = None \<longrightarrow> isFinished s)"

lemma ref_ok_rules:
  "ref_ok k None n ts"
  "armed_ok n ts \<Longrightarrow> ref_ok k (Some n) (Suc n) (ts @ [(n, k)])"
  "ref_ok k r n ts \<Longrightarrow> ref_ok k r (Suc n) (ts @ [(n, k')])"
  "ref_ok k r n ts \<Longrightarrow> ref_ok k r n (filter P ts)"
  "armed_ok n ts \<Longrightarrow> armed_ok (Suc n) (ts @ [(n, k)])"
  "armed_ok n ts \<Longrightarrow> armed_ok n (filter P ts)"
proof -
  show "ref_ok k None n ts" by (simp add: ref_ok_def)
  show "armed_ok n ts \<Longrightarrow> ref_ok k (Some n) (Suc n) (ts @ [(n, k)])" by (auto simp: ref_ok_def armed_ok_def)
  show "ref_ok k r n ts \<Longrightarrow> ref_ok k r (Suc n) (ts @ [(n, k')])" by (auto simp: ref_ok_def)
  show "ref_ok k r n ts \<Longrightarrow> ref_ok k r n (filter P ts)" by (simp add: ref_ok_def)
  show "armed_ok n ts \<Longrightarrow> armed_ok (Suc n) (ts @ [(n, k)])" unfolding armed_ok_def by fastforce
  show "armed_ok n ts \<Longrightarrow> armed_ok n (filter P ts)" by (simp add: armed_ok_def distinct_map_filter)
qed

lemma timers_weakD:
  assumes "timers_weak s"
  shows "armed_ok (next_timer s) (timers s)" "ref_ok FlushImmediate (flushRef s) (next_timer s) (timers s)"
    "ref_ok FlushTimeout (flushTimeoutRef s) (next_timer s) (timers s)"
    "ref_ok ConnectionTimeout (connectionTimeoutRef s) (next_timer s) (timers s)"
    "ref_ok PingTimeout (pingTimeoutRef s) (next_timer s) (timers s)"
    "(i, PingTimeout) \<in> set (timers s) \<Longrightarrow> pingTimeoutRef s = Some i"
  using assms unfolding timers_weak_def by blast+

lemma conn_timers_okD:
  assumes "conn_timers_ok s"
  shows "timers_weak s" "pingTimeoutRef s = Some i \<Longrightarrow> (i, PingTimeout) \<in> set (timers s)"
    "pingTimeoutRef s = None \<Longrightarrow> isFinished s"
  using assms unfolding conn_timers_ok_def by blast+

lemma ping_timers_ok:
  assumes ok: "conn_timers_ok s"
  shows "ping_timers s = (case pingTimeoutRef s of None \<Rightarrow> [] | Some i \<Rightarrow> [i])"
proof -
  have d: "distinct (ping_timers s)"
    using timers_weakD(1) [OF conn_timers_okD(1) [OF ok]] by (simp add: armed_ok_def ping_timers_def distinct_map_filter)
  have e: "set (ping_timers s) = {i. (i, PingTimeout) \<in> set (timers s)}"
    by (force simp: ping_timers_def)
  have one: "xs = [i]" if "set xs = {i}" "distinct xs" for xs and i :: nat
    using that by (cases xs; cases "tl xs") auto
  show ?thesis
  proof (cases "pingTimeoutRef s")
    case None
    have "(i, PingTimeout) \<notin> set (timers s)" for i
    proof
      assume "(i, PingTimeout) \<in> set (timers s)"
      from timers_weakD(6) [OF conn_timers_okD(1) [OF ok] this] show False by (simp add: None)
    qed
    with e have "set (ping_timers s) = {}" by simp
    then show ?thesis using None by simp
  next
    case (Some i)
    have "j \<in> set (ping_timers s) \<longleftrightarrow> j = i" for j
      using timers_weakD(6) [OF conn_timers_okD(1) [OF ok], of j] conn_timers_okD(2) [OF ok, of i] Some e by auto
    then have "set (ping_timers s) = {i}" by blast
    then show ?thesis using one d Some by simp
  qed
qed

text \<open>The invariant reads only the timers, the references and \<open>isFinished\<close>.\<close>

definition same_timers :: "'h connection \<Rightarrow> 'h connection \<Rightarrow> bool" where
  "same_timers s t \<longleftrightarrow> timers t = timers s \<and> next_timer t = next_timer s \<and> flushRef t = flushRef s \<and>
     flushTimeoutRef t = flushTimeoutRef s \<and> connectionTimeoutRef t = connectionTimeoutRef s \<and>
     pingTimeoutRef t = pingTimeoutRef s \<and> isFinished t = isFinished s"

lemma same_timers_ok: "same_timers s t \<Longrightarrow> conn_timers_ok s \<Longrightarrow> conn_timers_ok t"
proof -
  assume "same_timers s t"
  then have e: "timers t = timers s" "next_timer t = next_timer s" "flushRef t = flushRef s"
    "flushTimeoutRef t = flushTimeoutRef s" "connectionTimeoutRef t = connectionTimeoutRef s"
    "pingTimeoutRef t = pingTimeoutRef s" "isFinished t = isFinished s"
    unfolding same_timers_def by blast+
  show "conn_timers_ok s \<Longrightarrow> conn_timers_ok t" unfolding conn_timers_ok_def timers_weak_def e .
qed

text \<open>Arming a timer of the connection, other than the one for pings, and stopping it.\<close>

definition armed_by :: "conn_timer \<Rightarrow> 'h connection \<Rightarrow> 'h connection \<Rightarrow> bool" where
  "armed_by k s t \<longleftrightarrow> k \<noteq> PingTimeout \<and> timers t = timers s @ [(next_timer s, k)] \<and> next_timer t = Suc (next_timer s) \<and>
     pingTimeoutRef t = pingTimeoutRef s \<and> isFinished t = isFinished s \<and>
     flushRef t = (if k = FlushImmediate then Some (next_timer s) else flushRef s) \<and>
     flushTimeoutRef t = (if k = FlushTimeout then Some (next_timer s) else flushTimeoutRef s) \<and>
     connectionTimeoutRef t = (if k = ConnectionTimeout then Some (next_timer s) else connectionTimeoutRef s)"

lemma armed_by_ok:
  assumes ok: "conn_timers_ok s" and a: "armed_by k s t" shows "conn_timers_ok t"
proof -
  note w = timers_weakD [OF conn_timers_okD(1) [OF ok]] and a = a [unfolded armed_by_def]
  have "ref_ok FlushImmediate (flushRef t) (next_timer t) (timers t)"
    using a ref_ok_rules(2,3) w(1,2) by (cases "k = FlushImmediate") simp_all
  moreover have "ref_ok FlushTimeout (flushTimeoutRef t) (next_timer t) (timers t)"
    using a ref_ok_rules(2,3) w(1,3) by (cases "k = FlushTimeout") simp_all
  moreover have "ref_ok ConnectionTimeout (connectionTimeoutRef t) (next_timer t) (timers t)"
    using a ref_ok_rules(2,3) w(1,4) by (cases "k = ConnectionTimeout") simp_all
  moreover have "ref_ok PingTimeout (pingTimeoutRef t) (next_timer t) (timers t)" "armed_ok (next_timer t) (timers t)"
    using a ref_ok_rules(3,5) w(1,5) by simp_all
  moreover have "pingTimeoutRef t = Some i" if "(i, PingTimeout) \<in> set (timers t)" for i
    using that a w(6) [of i] by auto
  ultimately have "timers_weak t" unfolding timers_weak_def by blast
  then show ?thesis
    using a conn_timers_okD(2,3) [OF ok] unfolding conn_timers_ok_def by auto
qed

lemma arm_flush: "conn_timers_ok s \<Longrightarrow> conn_timers_ok (setFlushRef s)"
proof (cases "flushRef s")
  case None
  then have "armed_by FlushImmediate s (setFlushRef s)"
    by (simp add: armed_by_def setFlushRef_def start_timer_def)
  then show "conn_timers_ok s \<Longrightarrow> conn_timers_ok (setFlushRef s)" using armed_by_ok by blast
qed (simp add: setFlushRef_def)

lemma arm_flush_timeout:
  "conn_timers_ok s \<Longrightarrow> conn_timers_ok (start_timer FlushTimeout (s\<lparr>flushTimeoutRef := Some (next_timer s)\<rparr>))"
  by (erule armed_by_ok [of _ FlushTimeout]) (simp add: armed_by_def start_timer_def)

lemma arm_timeout: "conn_timers_ok s \<Longrightarrow> conn_timers_ok (arm_connection_timeout s)"
  by (erule armed_by_ok [of _ ConnectionTimeout]) (simp add: armed_by_def start_timer_def arm_connection_timeout_def)

text \<open>A timer other than the one for pings leaves the list, and possibly its reference.\<close>

definition disarmed :: "nat option \<Rightarrow> 'h connection \<Rightarrow> 'h connection \<Rightarrow> bool" where
  "disarmed r s t \<longleftrightarrow> timers t = filter (\<lambda>x. Some (fst x) \<noteq> r) (timers s) \<and> next_timer t = next_timer s \<and>
     pingTimeoutRef t = pingTimeoutRef s \<and> isFinished t = isFinished s \<and>
     flushRef t \<in> {None, flushRef s} \<and> flushTimeoutRef t \<in> {None, flushTimeoutRef s} \<and>
     connectionTimeoutRef t \<in> {None, connectionTimeoutRef s}"

lemma disarmed_weak:
  assumes ok: "timers_weak s" and a: "disarmed r s t" shows "timers_weak t"
  using timers_weakD [OF ok] a ref_ok_rules(1,4,6)
  unfolding disarmed_def timers_weak_def by (elim conjE insertE) (simp_all; blast)+

lemma disarmed_ok:
  assumes ok: "conn_timers_ok s" and a: "disarmed r s t" and np: "\<And>i. r = Some i \<Longrightarrow> (i, PingTimeout) \<notin> set (timers s)"
  shows "conn_timers_ok t"
  using disarmed_weak [OF conn_timers_okD(1) [OF ok] a] a np conn_timers_okD(2,3) [OF ok]
  unfolding conn_timers_ok_def disarmed_def by auto

lemma ref_not_ping:
  "ref_ok k r n ts \<Longrightarrow> k \<noteq> PingTimeout \<Longrightarrow> r = Some i \<Longrightarrow> (i, PingTimeout) \<notin> set ts"
  unfolding ref_ok_def by blast

lemma stop_connection_timeout:
  assumes "conn_timers_ok s" shows "conn_timers_ok (stop_timer (connectionTimeoutRef s) s)"
proof (rule disarmed_ok [OF assms, of "connectionTimeoutRef s"])
  show "disarmed (connectionTimeoutRef s) s (stop_timer (connectionTimeoutRef s) s)"
    by (auto simp: disarmed_def stop_timer_def intro!: filter_cong split: option.split)
qed (use ref_not_ping [OF timers_weakD(4) [OF conn_timers_okD(1) [OF assms]]] in simp)

lemma timers_of_processFailed:
  assumes "conn_timers_ok s" shows "conn_timers_ok (processFailedMessage H n e s)"
proof -
  define s2 where "s2 = (let s1 = s\<lparr>messageQueue := item_incrementTries (e, lastGatheringState s, lastState s) n (messageQueue s)\<rparr>
      in if item_isFailed n (messageQueue s1) then pop_item H s1 else s1)"
  have "same_timers s s2" by (simp add: s2_def same_timers_def pop_item_def Let_def)
  then have "conn_timers_ok s2" using assms same_timers_ok by blast
  moreover have "processFailedMessage H n e s = (if flushTimeoutRef s2 = None
      then start_timer FlushTimeout (s2\<lparr>flushTimeoutRef := Some (next_timer s2)\<rparr>) else s2)"
    unfolding processFailedMessage_def s2_def Let_def ..
  ultimately show ?thesis using arm_flush_timeout [of s2] by simp
qed

lemma round_timers:
  assumes ok: "conn_timers_ok s" shows "conn_timers_ok (fst (flush_round H cfg a sends s))"
proof -
  have same: "conn_timers_ok t" if "same_timers s t" for t using same_timers_ok [OF that ok] .
  have p: "conn_timers_ok (pop_item H s)" "conn_timers_ok (pop_item H (s\<lparr>messageQueue := q\<rparr>))"
    "conn_timers_ok ((pop_item H (call_native c s))\<lparr>messageQueue := q\<rparr>)" "conn_timers_ok (call_native c s)"
    "conn_timers_ok (conn_emit e (s\<lparr>paused := True\<rparr>))" for q c e
    by (rule same, simp add: same_timers_def pop_item_def call_native_def conn_emit_def)+
  show ?thesis
    unfolding flush_round_def Let_def
    using ok arm_flush [OF ok] timers_of_processFailed [OF p(4)] p
    by (simp split: option.split send_answer.split)
qed

lemma close_timers:
  assumes w: "timers_weak s" and f: "\<not> isFinished s"
  shows "conn_timers_ok (conn_close err s)" "pingTimeoutRef (conn_close err s) = None" "isFinished (conn_close err s)"
proof -
  define keep where "keep = (\<lambda>t :: nat \<times> conn_timer.
      pingTimeoutRef s \<noteq> Some (fst t) \<and> connectionTimeoutRef s \<noteq> Some (fst t) \<and> flushTimeoutRef s \<noteq> Some (fst t) \<and>
      flushRef s \<noteq> Some (fst t))"
  have t: "timers (conn_close err s) = filter keep (timers s)"
    using f by (cases err; cases "pc s"; cases "dataChannel s")
      (simp_all add: conn_close_def Let_def stop_timer_eq conn_emit_def call_native_def keep_def conj_ac)
  have r: "next_timer (conn_close err s) = next_timer s" "flushRef (conn_close err s) = None"
    "flushTimeoutRef (conn_close err s) = None" "connectionTimeoutRef (conn_close err s) = None"
    "pingTimeoutRef (conn_close err s) = None" "isFinished (conn_close err s)"
    using f by (cases err; cases "pc s"; cases "dataChannel s";
      simp add: conn_close_def Let_def stop_timer_eq call_native_def conn_emit_def)+
  have "(i, PingTimeout) \<notin> set (timers (conn_close err s))" for i
    using timers_weakD(6) [OF w, of i] by (auto simp: t keep_def)
  then show "conn_timers_ok (conn_close err s)"
    using ref_ok_rules(6) [OF timers_weakD(1) [OF w], of keep] ref_ok_rules(1) r(6)
    unfolding conn_timers_ok_def timers_weak_def t r by simp
  show "pingTimeoutRef (conn_close err s) = None" "isFinished (conn_close err s)" by (rule r)+
qed

lemma close_finished: "isFinished s \<Longrightarrow> conn_close err s = s"
  by (simp add: conn_close_def)

lemma close_timers_ok: "conn_timers_ok s \<Longrightarrow> conn_timers_ok (conn_close err s)"
  using close_timers(1) [OF conn_timers_okD(1), of s err] close_finished [of s err] by (cases "isFinished s") simp_all

lemma ping_timers_again:
  assumes w: "timers_weak s" shows "conn_timers_ok (conn_ping cfg now a s)"
proof -
  define s1 where "s1 = (if isOpen a s then
                  (if pingAttempts s \<ge> maxPingPongAttempts cfg then conn_close (Some ''pong not received'') s
                   else (call_native (SendMessage (the (dataChannel s)) ''ping'') (s\<lparr>rttStart := Some now\<rparr>))
                          \<lparr>pingAttempts := pingAttempts s + 1\<rparr>)
                else s)"
  define s2 where "s2 = stop_timer (pingTimeoutRef s1) s1"
  have "timers_weak (conn_close (Some ''pong not received'') s)"
    using conn_timers_okD(1) [OF close_timers(1) [OF w]] w close_finished [of s] by (cases "isFinished s") auto
  then have "timers_weak s1"
    using w by (simp add: s1_def call_native_def timers_weak_def)
  moreover have d: "disarmed (pingTimeoutRef s1) s1 s2"
    by (auto simp: disarmed_def s2_def stop_timer_def intro!: filter_cong split: option.split)
  ultimately have s2: "timers_weak s2" using disarmed_weak by blast
  have "(i, PingTimeout) \<notin> set (timers s2)" for i
  proof
    assume "(i, PingTimeout) \<in> set (timers s2)"
    then have "pingTimeoutRef s1 = Some i" "Some i \<noteq> pingTimeoutRef s1"
      using timers_weakD(6) [OF s2, of i] d by (simp_all add: disarmed_def)
    then show False by simp
  qed
  moreover have p: "conn_ping cfg now a s = start_timer PingTimeout (s2\<lparr>pingTimeoutRef := Some (next_timer s2)\<rparr>)"
    unfolding conn_ping_def s2_def s1_def Let_def ..
  ultimately show ?thesis
    using timers_weakD [OF s2] ref_ok_rules(2,3,5)
    unfolding p start_timer_def conn_timers_ok_def timers_weak_def by simp
qed

subsection \<open>Every input keeps the timers in order\<close>

lemma same_timers_handlers:
  "same_timers s (setRemoteDescription desc ty t1 t2 s)" "same_timers s (addRemoteCandidate c mid s)"
  "same_timers s (enqueueRemoteCandidate c mid s)" "same_timers s (setPeerInfo info s)" "same_timers s (conn_pong s)"
  "same_timers s (onGatheringStateChange st s)" "same_timers s (onLocalDescription desc ty s)"
  "same_timers s (onLocalCandidate c mid s)" "same_timers s (setupDataChannel d s)"
  "same_timers s (call_native x s)" "same_timers s (conn_emit e s)"
  by (simp_all add: same_timers_def setRemoteDescription_def addRemoteCandidate_def enqueueRemoteCandidate_def
      setPeerInfo_def conn_pong_def onGatheringStateChange_def onLocalDescription_def onLocalCandidate_def
      setupDataChannel_def call_native_def conn_emit_def Let_def split: option.split)

lemmas handlers_keep_timers = same_timers_handlers [THEN same_timers_ok]

lemma connect_timers:
  assumes ok: "conn_timers_ok s" shows "conn_timers_ok (fst (conn_connect cfg p d s))"
proof (cases "isFinished s")
  case False
  define s1 where "s1 = (call_native (CreatePeerConnection p) s)
      \<lparr>pc := Some p, pc_emitter := Some p, pc_listening := set_add p (pc_listening s)\<rparr>"
  have "same_timers s s1" by (simp add: s1_def same_timers_def call_native_def)
  then have s1: "conn_timers_ok s1" using ok same_timers_ok by blast
  have "fst (conn_connect cfg p d s) = arm_connection_timeout
      (if isOffering cfg then setupDataChannel d (call_native (CreateDataChannel p d) s1) else s1)"
    using False unfolding conn_connect_def s1_def Let_def by simp
  then show ?thesis
    using arm_timeout [OF s1] arm_timeout [OF handlers_keep_timers(9) [OF handlers_keep_timers(10) [OF s1]]] by simp
qed (use ok in \<open>simp add: conn_connect_def\<close>)

lemma open_timers:
  assumes ok: "conn_timers_ok s" shows "conn_timers_ok (openDataChannel d s)"
proof -
  have "same_timers (stop_timer (connectionTimeoutRef s) s)
      ((stop_timer (connectionTimeoutRef s) s)\<lparr>dataChannel := Some d\<rparr>)" by (simp add: same_timers_def)
  then have "conn_timers_ok ((stop_timer (connectionTimeoutRef s) s)\<lparr>dataChannel := Some d\<rparr>)"
    using same_timers_ok stop_connection_timeout [OF ok] by blast
  then show ?thesis unfolding openDataChannel_def using arm_flush handlers_keep_timers(11) by blast
qed

lemma state_change_timers:
  assumes ok: "conn_timers_ok s" shows "conn_timers_ok (onStateChange st s)"
proof -
  have "conn_timers_ok (s\<lparr>lastState := Some st\<rparr>)"
    by (rule same_timers_ok [OF _ ok]) (simp add: same_timers_def)
  note this close_timers_ok [OF this, of None] close_timers_ok [OF this, of "Some ''connection failed''"]
    arm_timeout [OF stop_connection_timeout [OF this]]
  then show ?thesis unfolding onStateChange_def Let_def by (auto split: if_splits)
qed

lemma low_timers:
  assumes ok: "conn_timers_ok s" shows "conn_timers_ok (on_bufferedAmountLow s)"
proof -
  have "conn_timers_ok (s\<lparr>paused := False\<rparr>)" by (rule same_timers_ok [OF _ ok]) (simp add: same_timers_def)
  from handlers_keep_timers(11) [OF arm_flush [OF this]] ok show ?thesis by (simp add: on_bufferedAmountLow_def)
qed

lemma message_timers:
  assumes ok: "conn_timers_ok s" shows "conn_timers_ok (on_channel_message now msg s)"
proof -
  have "conn_timers_ok (s\<lparr>pingAttempts := 0, rtt := x\<rparr>)" for x
    by (rule same_timers_ok [OF _ ok]) (simp add: same_timers_def)
  with handlers_keep_timers(5,11) [OF ok] show ?thesis by (simp add: on_channel_message_def)
qed

lemma fired_timers:
  assumes ok: "conn_timers_ok s" and i: "map_of (timers s) i = Some k"
  shows "k = FlushImmediate \<Longrightarrow> conn_timers_ok ((stop_timer (Some i) s)\<lparr>flushRef := None\<rparr>)"
    "k = FlushTimeout \<Longrightarrow> conn_timers_ok ((stop_timer (Some i) s)\<lparr>flushTimeoutRef := None\<rparr>)"
    "k = ConnectionTimeout \<Longrightarrow> conn_timers_ok (stop_timer (Some i) s)"
    "timers_weak (stop_timer (Some i) s)"
proof -
  have at: "(i, k') \<in> set (timers s) \<longleftrightarrow> k' = k" for k'
    using timers_weakD(1) [OF conn_timers_okD(1) [OF ok]] i map_of_eq_Some_iff [of "timers s" i k'] by (auto simp: armed_ok_def)
  have f: "disarmed (Some i) s ((stop_timer (Some i) s)\<lparr>flushRef := None\<rparr>)"
    "disarmed (Some i) s ((stop_timer (Some i) s)\<lparr>flushTimeoutRef := None\<rparr>)" "disarmed (Some i) s (stop_timer (Some i) s)"
    by (simp_all add: disarmed_def stop_timer_def)
  show "k = FlushImmediate \<Longrightarrow> conn_timers_ok ((stop_timer (Some i) s)\<lparr>flushRef := None\<rparr>)"
    by (rule disarmed_ok [OF ok f(1)]) (auto simp: at)
  show "k = FlushTimeout \<Longrightarrow> conn_timers_ok ((stop_timer (Some i) s)\<lparr>flushTimeoutRef := None\<rparr>)"
    by (rule disarmed_ok [OF ok f(2)]) (auto simp: at)
  show "k = ConnectionTimeout \<Longrightarrow> conn_timers_ok (stop_timer (Some i) s)"
    by (rule disarmed_ok [OF ok f(3)]) (auto simp: at)
  show "timers_weak (stop_timer (Some i) s)" by (rule disarmed_weak [OF conn_timers_okD(1) [OF ok] f(3)])
qed

lemma flush_timers:
  assumes H: "heap_lawful H content" and q: "queue_ok content no added (messageQueue s)" and ok: "conn_timers_ok s"
  shows "\<exists>t. attemptToFlushMessages H cfg env s = Some (t, None) \<and> conn_timers_ok t \<and> same_link s t \<and> flush_logs content s t"
  using flush_loop_keeps [where P = conn_timers_ok, OF H q ok round_timers]
  unfolding attemptToFlushMessages_def by blast

definition conn_ok :: "('h \<Rightarrow> nat list) \<Rightarrow> 'h connection \<Rightarrow> bool" where
  "conn_ok content s \<longleftrightarrow> conn_timers_ok s \<and> (\<exists>no added. queue_ok content no added (messageQueue s))"

lemma step_timers:
  assumes H: "heap_lawful H content" and ok: "conn_ok content s"
  shows "conn_timers_ok (conn_step H cfg s e)"
proof -
  have t: "conn_timers_ok s" using ok by (simp add: conn_ok_def)
  obtain no added where q: "queue_ok content no added (messageQueue s)" using ok unfolding conn_ok_def by blast
  show ?thesis
  proof (cases e)
    case (Send no m)
    have "conn_timers_ok ((setFlushRef s)\<lparr>messageQueue := q\<rparr>)" for q
      by (rule same_timers_ok [OF _ arm_flush [OF t]]) (simp add: same_timers_def)
    then show ?thesis by (simp add: Send conn_step_def conn_send_def Let_def split: prod.split option.split)
  next
    case (TimerFires i now env)
    show ?thesis
    proof (cases "map_of (timers s) i")
      case None
      then show ?thesis using t by (simp add: TimerFires conn_step_def timer_fires_def)
    next
      case (Some k)
      note f = fired_timers [OF t Some]
      have q': "queue_ok content no added (messageQueue (stop_timer (Some i) s))" using q by simp
      show ?thesis
        using f(1,2,3) close_timers_ok [OF f(3)] ping_timers_again [OF f(4)] Some
          flush_timers [OF H, of no added "(stop_timer (Some i) s)\<lparr>flushRef := None\<rparr>" cfg env]
          flush_timers [OF H, of no added "(stop_timer (Some i) s)\<lparr>flushTimeoutRef := None\<rparr>" cfg env] q'
        by (cases k) (auto simp: TimerFires conn_step_def timer_fires_def Let_def connection_timed_out_def)
    qed
  qed (use t in \<open>simp_all add: conn_step_def when_listening_def handlers_keep_timers connect_timers close_timers_ok
      ping_timers_again conn_timers_okD(1) state_change_timers open_timers onDataChannel_def low_timers message_timers\<close>)
qed

lemma new_connection_timers: "conn_timers_ok (new_connection H p q)"
  by (simp add: new_connection_def start_timer_def Let_def conn_timers_ok_def timers_weak_def ref_ok_def armed_ok_def)

lemma run_timers:
  assumes H: "heap_lawful H content" and pos: "0 < queueMaxSize cfg"
    and "conn_queue_ok content cfg no added s" and "conn_timers_ok s" and "sorted_wrt (<) (send_numbers es)"
    and "\<forall>k \<in> set (send_numbers es). no \<le> k"
  shows "conn_timers_ok (foldl (conn_step H cfg) s es)"
  using assms(3-)
proof (induction es rule: rev_induct)
  case (snoc e es)
  have app: "send_numbers (es @ fs) = send_numbers es @ send_numbers fs" for es fs
    by (induction es rule: send_numbers.induct) auto
  have "sorted_wrt (<) (send_numbers es)" "\<forall>k \<in> set (send_numbers es). no \<le> k"
    using snoc.prems(3,4) by (simp_all add: app sorted_wrt_append)
  then obtain no' where "conn_queue_ok content cfg no' (added @ send_numbers es) (foldl (conn_step H cfg) s es)"
      and "conn_timers_ok (foldl (conn_step H cfg) s es)"
    using run_queue [OF H pos snoc.prems(1), of es] snoc.IH snoc.prems(1,2) by blast
  then have "conn_ok content (foldl (conn_step H cfg) s es)" unfolding conn_ok_def conn_queue_ok_def by blast
  then show ?case using step_timers [OF H] by simp
qed simp

subsection \<open>The end of a connection\<close>

definition closes :: "'h connection \<Rightarrow> nat" where
  "closes s = length (filter (\<lambda>e. e = EmitClose) (emitted s))"

definition end_ok :: "'h connection \<Rightarrow> bool" where
  "end_ok s \<longleftrightarrow> closes s = (if isFinished s then 1 else 0) \<and> (isFinished s \<longrightarrow> pc s = None)"

definition same_end :: "'h connection \<Rightarrow> 'h connection \<Rightarrow> bool" where
  "same_end s t \<longleftrightarrow> closes t = closes s \<and> isFinished t = isFinished s \<and> (pc t = pc s)"

lemma same_end_ok: "same_end s t \<Longrightarrow> end_ok s \<Longrightarrow> end_ok t"
  by (simp add: same_end_def end_ok_def)

lemma close_end:
  assumes "\<not> isFinished s"
  shows "isFinished (conn_close err s)" "pc (conn_close err s) = None" "dataChannel (conn_close err s) = None"
    "emitted (conn_close err s) = emitted s @ (case err of None \<Rightarrow> [] | Some e \<Rightarrow> [EmitError e]) @ [EmitClose]"
    "messageQueue (conn_close err s) = messageQueue s"
  using assms by (cases err; cases "pc s"; cases "dataChannel s";
    simp add: conn_close_def Let_def stop_timer_eq call_native_def conn_emit_def)+

lemma close_end_ok: "end_ok s \<Longrightarrow> end_ok (conn_close err s)"
  using close_end [of s err] close_finished [of s err]
  by (cases "isFinished s") (auto simp: end_ok_def closes_def split: option.split)

lemma same_end_primitives:
  "same_end s (start_timer k s)" "same_end s (stop_timer r s)" "same_end s (call_native c s)"
  "same_end s (setFlushRef s)" "same_end s (setupDataChannel d s)" "same_end s (arm_connection_timeout s)"
  "same_end s (pop_item H s)"
  by (simp_all add: same_end_def closes_def start_timer_def stop_timer_eq call_native_def setFlushRef_def
      setupDataChannel_def arm_connection_timeout_def pop_item_def split: option.split)

lemma same_end_handlers:
  "same_end s (setRemoteDescription desc ty t1 t2 s)" "same_end s (addRemoteCandidate c mid s)"
  "same_end s (enqueueRemoteCandidate c mid s)" "same_end s (setPeerInfo info s)" "same_end s (conn_pong s)"
  "same_end s (onGatheringStateChange st s)" "same_end s (onLocalDescription desc ty s)"
  "same_end s (onLocalCandidate c mid s)" "same_end s (openDataChannel d s)" "same_end s (onDataChannel d s)"
  "same_end s (on_bufferedAmountLow s)" "same_end s (on_channel_message now msg s)"
  by (simp_all add: same_end_def closes_def setRemoteDescription_def addRemoteCandidate_def enqueueRemoteCandidate_def
      setPeerInfo_def conn_pong_def onGatheringStateChange_def onLocalDescription_def onLocalCandidate_def
      openDataChannel_def onDataChannel_def on_bufferedAmountLow_def on_channel_message_def setupDataChannel_def
      setFlushRef_def start_timer_def stop_timer_eq call_native_def conn_emit_def Let_def split: option.split)

lemmas primitives_keep_end = same_end_primitives [THEN same_end_ok]
lemmas handlers_keep_end = same_end_handlers [THEN same_end_ok]

lemma flush_keeps_end:
  assumes "same_link s t" "flush_logs content s t" "end_ok s" shows "end_ok t"
proof -
  obtain k where "emitted t = emitted s @ replicate k EmitBufferHigh" using assms(2) unfolding flush_logs_def by blast
  then have "closes t = closes s" by (simp add: closes_def)
  then show ?thesis using assms(1,3) by (simp add: same_link_def end_ok_def)
qed

lemma connect_end:
  assumes "end_ok s" shows "end_ok (fst (conn_connect cfg p d s))"
proof (cases "isFinished s")
  case False
  then have "\<not> isFinished (fst (conn_connect cfg p d s)) \<and> closes (fst (conn_connect cfg p d s)) = closes s"
    by (simp add: conn_connect_def Let_def arm_connection_timeout_def start_timer_def setupDataChannel_def
        call_native_def closes_def)
  then show ?thesis using assms False by (simp add: end_ok_def)
qed (use assms in \<open>simp add: conn_connect_def\<close>)

lemma ping_end:
  assumes "end_ok s" shows "end_ok (conn_ping cfg now a s)"
proof -
  have "same_end (if isOpen a s then
                  (if pingAttempts s \<ge> maxPingPongAttempts cfg then conn_close (Some ''pong not received'') s
                   else (call_native (SendMessage (the (dataChannel s)) ''ping'') (s\<lparr>rttStart := Some now\<rparr>))
                          \<lparr>pingAttempts := pingAttempts s + 1\<rparr>)
                else s) (conn_ping cfg now a s)"
    unfolding conn_ping_def Let_def
    by (simp add: same_end_def closes_def start_timer_def stop_timer_eq split: option.split)
  moreover have "same_end s ((call_native (SendMessage (the (dataChannel s)) ''ping'') (s\<lparr>rttStart := Some now\<rparr>))
                          \<lparr>pingAttempts := pingAttempts s + 1\<rparr>)"
    by (simp add: same_end_def closes_def call_native_def)
  ultimately show ?thesis
    using assms same_end_ok close_end_ok [OF assms] by (auto split: if_splits)
qed

lemma state_change_end:
  assumes "end_ok s" shows "end_ok (onStateChange st s)"
proof -
  have "same_end s (s\<lparr>lastState := Some st\<rparr>)" by (simp add: same_end_def closes_def)
  then have l: "end_ok (s\<lparr>lastState := Some st\<rparr>)" using assms same_end_ok by blast
  note l close_end_ok [OF l, of None] close_end_ok [OF l, of "Some ''connection failed''"]
    primitives_keep_end(6) [OF primitives_keep_end(2) [OF l]]
  then show ?thesis unfolding onStateChange_def Let_def by (auto split: if_splits)
qed

lemma step_end:
  assumes H: "heap_lawful H content" and ok: "conn_ok content s" and e0: "end_ok s"
  shows "end_ok (conn_step H cfg s e)"
proof (cases e)
  case (Send no m)
  have "end_ok ((setFlushRef s)\<lparr>messageQueue := q\<rparr>)" for q
    by (rule same_end_ok [OF _ primitives_keep_end(4) [OF e0]]) (simp add: same_end_def closes_def)
  then show ?thesis by (simp add: Send conn_step_def conn_send_def Let_def split: prod.split option.split)
next
  case (TimerFires i now env)
  obtain no added where q: "queue_ok content no added (messageQueue s)" using ok unfolding conn_ok_def by blast
  let ?s1 = "stop_timer (Some i) s"
  have s1: "end_ok ?s1" by (rule primitives_keep_end(2) [OF e0])
  have flush: "\<exists>t. attemptToFlushMessages H cfg env u = Some (t, None) \<and> end_ok t"
    if "messageQueue u = messageQueue s" "same_end ?s1 u" for u
    using flush_loop_effect [OF H, of no added u cfg env 0 0] q that(1) same_end_ok [OF that(2) s1] flush_keeps_end
    unfolding attemptToFlushMessages_def by metis
  have "messageQueue (?s1\<lparr>flushRef := None\<rparr>) = messageQueue s" "same_end ?s1 (?s1\<lparr>flushRef := None\<rparr>)"
    "messageQueue (?s1\<lparr>flushTimeoutRef := None\<rparr>) = messageQueue s" "same_end ?s1 (?s1\<lparr>flushTimeoutRef := None\<rparr>)"
    by (simp_all add: same_end_def closes_def)
  note f = flush [OF this(1,2)] flush [OF this(3,4)]
  show ?thesis
  proof (cases "map_of (timers s) i")
    case None
    then show ?thesis using e0 by (simp add: TimerFires conn_step_def timer_fires_def)
  next
    case (Some k)
    then show ?thesis using f s1 close_end_ok [OF s1] ping_end [OF s1]
      by (cases k) (auto simp: TimerFires conn_step_def timer_fires_def Let_def connection_timed_out_def)
  qed
qed (use e0 in \<open>simp_all add: conn_step_def when_listening_def handlers_keep_end connect_end close_end_ok ping_end
    state_change_end\<close>)

end
