(* ===== verification/ConnectionPromises.thy ===== *)
theory ConnectionPromises
  imports ConnectionLife
begin

section \<open>What a connection promises\<close>

text \<open>
  The properties of a connection, of every run from a new connection with an empty queue:
  messages settle in the order they were sent, one call of the flush loop returns after a
  bounded number of sends, a closed connection is over, and an unresponsive peer is closed.
\<close>

definition conn_run :: "'h heap_ops \<Rightarrow> conn_config \<Rightarrow> peer_info \<Rightarrow> conn_input list \<Rightarrow> 'h connection" where
  "conn_run H cfg p es = foldl (conn_step H cfg) (new_connection H p (new_queue H)) es"

lemma send_numbers_append: "send_numbers (es @ fs) = send_numbers es @ send_numbers fs"
  by (induction es rule: send_numbers.induct) auto

lemma run_facts:
  assumes H: "heap_lawful H content" and pos: "0 < queueMaxSize cfg" and asc: "sorted_wrt (<) (send_numbers es)"
  shows "\<exists>no. conn_queue_ok content cfg no (send_numbers es) (conn_run H cfg p es)"
    "conn_timers_ok (conn_run H cfg p es)" "end_ok (conn_run H cfg p es)"
proof -
  note q0 = new_connection_queue [OF H, of cfg 0 p]
  show q: "\<exists>no. conn_queue_ok content cfg no (send_numbers es) (conn_run H cfg p es)"
    using run_queue [OF H pos q0 asc] by (simp add: conn_run_def)
  show "conn_timers_ok (conn_run H cfg p es)"
    using run_timers [OF H pos q0 new_connection_timers asc] by (simp add: conn_run_def)
  have "end_ok (foldl (conn_step H cfg) (new_connection H p (new_queue H)) es)"
    using asc
  proof (induction es rule: rev_induct)
    case Nil
    show ?case by (simp add: end_ok_def closes_def new_connection_def start_timer_def Let_def)
  next
    case (snoc e es)
    have asc': "sorted_wrt (<) (send_numbers es)" using snoc.prems by (simp add: send_numbers_append sorted_wrt_append)
    have "conn_ok content (foldl (conn_step H cfg) (new_connection H p (new_queue H)) es)"
      using run_queue [OF H pos q0 asc'] run_timers [OF H pos q0 new_connection_timers asc']
      unfolding conn_ok_def conn_queue_ok_def by auto
    then show ?case using step_end [OF H] snoc.IH asc' by simp
  qed
  then show "end_ok (conn_run H cfg p es)" by (simp add: conn_run_def)
qed

text \<open>
  C16. \<open>attemptToFlushMessages\<close> returns, whatever the channel answers, and without an error. It
  calls nothing but \<open>sendMessage\<close> of the current channel, at most ten times for each message
  in the queue; it neither closes nor opens anything, and does nothing when the connection is
  finished.
\<close>

theorem flush_returns:
  assumes "heap_lawful H content" and "0 < queueMaxSize cfg" and "sorted_wrt (<) (send_numbers es)"
  shows "let s = conn_run H cfg p es in
    \<exists>t ms. attemptToFlushMessages H cfg env s = Some (t, None) \<and>
      native_calls t = native_calls s @ map (SendMessage (the (dataChannel s))) ms \<and>
      length ms \<le> 10 * getQueueSize H s \<and> getQueueSize H t \<le> getQueueSize H s \<and>
      isFinished t = isFinished s \<and> dataChannel t = dataChannel s \<and> (isFinished s \<longrightarrow> t = s)"
proof -
  define s where "s = conn_run H cfg p es"
  obtain no where q: "queue_ok content no (send_numbers es) (messageQueue s)"
    using run_facts(1) [OF assms] unfolding conn_queue_ok_def s_def by blast
  obtain t where t: "attemptToFlushMessages H cfg env s = Some (t, None)" "same_link s t" "flush_logs content s t"
    using flush_loop_effect [OF assms(1) q] unfolding attemptToFlushMessages_def by blast
  obtain ms where ms: "native_calls t = native_calls s @ map (SendMessage (the (dataChannel s))) ms"
    "length ms + tries_left content (messageQueue t) \<le> tries_left content (messageQueue s)"
    using t(3) unfolding flush_logs_def by blast
  have "length ms \<le> 10 * getQueueSize H s"
    using ms(2) tries_left_bound [of content "messageQueue s"] queue_reads(1) [OF assms(1), of "messageQueue s"]
    by (simp add: getQueueSize_def MAX_TRIES_def)
  moreover have "getQueueSize H t \<le> getQueueSize H s"
    using t(3) queue_reads(1) [OF assms(1), of "messageQueue s"] queue_reads(1) [OF assms(1), of "messageQueue t"]
    by (simp add: flush_logs_def getQueueSize_def)
  moreover have "t = s" if "isFinished s"
    using t(1) that unfolding attemptToFlushMessages_def by (simp add: flush_loop.simps flush_goes_on_def)
  ultimately show ?thesis
    unfolding Let_def s_def [symmetric] using t(1,2) ms(1) unfolding same_link_def by blast
qed

text \<open>An offering connection with a queue of five thousand messages, and its peer.\<close>

definition example_cfg :: conn_config where
  "example_cfg = \<lparr>isOffering = True, bufferThresholdHigh = 131072, maxPingPongAttempts = 5, queueMaxSize = 5000\<rparr>"

definition example_neighbour :: peer_info where
  "example_neighbour = \<lparr>peerId = ''peer'', peerType = NodePeer, controlLayerVersions = [2], messageLayerVersions = [32],
     peerName = None, peerLocation = no_location\<rparr>"

definition example_inputs :: "conn_input list" where
  "example_inputs = [Connect 0 0, Send 4 ''hello'', ChannelOpen 0, Send 7 ''world'']"

lemma example_sends: "send_numbers example_inputs = [4, 7]"
  by (simp add: example_inputs_def)

theorem flush_returns_witness:
  "\<exists>t. attemptToFlushMessages list_heap example_cfg
      (\<lambda>_. \<lparr>ans_send = SendReturns True, ans_isOpen = Some True, ans_bufferedAmount = Some 0, ans_maxMessageSize = None\<rparr>)
      (conn_run list_heap example_cfg example_neighbour example_inputs) = Some (t, None)"
  using flush_returns [OF list_heap_lawful, of example_cfg example_inputs example_neighbour
      "\<lambda>_. \<lparr>ans_send = SendReturns True, ans_isOpen = Some True, ans_bufferedAmount = Some 0, ans_maxMessageSize = None\<rparr>"]
  by (auto simp: example_sends example_cfg_def Let_def)

text \<open>
  C15. Of the messages sent on a connection, in every run, the promises settle in the order of
  the calls of \<open>send\<close>, each at most once, and those that have not settled are exactly what
  the queue holds, oldest first; so none is lost, delivered twice or overtaken. A message
  that waits has been tried fewer than ten times, with a record of each failure, and the
  queue never exceeds its maximum.
\<close>

theorem messages_settle_in_order:
  assumes "heap_lawful H content" and "0 < queueMaxSize cfg" and "sorted_wrt (<) (send_numbers es)"
  shows "let q = messageQueue (conn_run H cfg p es) in
    map fst (settled q) @ queue_waiting content q = send_numbers es \<and> distinct (send_numbers es) \<and>
    length (queue_waiting content q) \<le> queueMaxSize cfg \<and>
    (\<forall>n \<in> set (queue_waiting content q). tries (item_at q n) < 10 \<and> length (errorInfos (item_at q n)) = tries (item_at q n))"
proof -
  define q where "q = messageQueue (conn_run H cfg p es)"
  obtain no where q: "queue_ok content no (send_numbers es) q" "length (queue_waiting content q) \<le> queueMaxSize cfg"
    using run_facts(1) [OF assms] unfolding conn_queue_ok_def q_def by blast
  have "tries (item_at q n) < 10 \<and> length (errorInfos (item_at q n)) = tries (item_at q n)"
    if "n \<in> set (queue_waiting content q)" for n
    using queue_okD(5) [OF q(1) that] by (auto simp: item_at_def item_ok_def MAX_TRIES_def)
  then show ?thesis
    using queue_okD(1) [OF q(1), symmetric] queue_okD(3) [OF q(1)] q(2)
    unfolding Let_def q_def [symmetric] by blast
qed

theorem messages_settle_in_order_witness:
  "map fst (settled (messageQueue (conn_run list_heap example_cfg example_neighbour example_inputs))) @
     queue_waiting id (messageQueue (conn_run list_heap example_cfg example_neighbour example_inputs)) = [4, 7]"
  using messages_settle_in_order [OF list_heap_lawful, of example_cfg example_inputs example_neighbour]
  by (simp add: example_sends example_cfg_def Let_def)

subsection \<open>A closed connection\<close>

lemma finished_ping:
  "isFinished s \<Longrightarrow> isFinished (conn_ping cfg now a s) \<and>
     (\<exists>cs. native_calls (conn_ping cfg now a s) = native_calls s @ cs \<and> set cs \<subseteq> {SendMessage (the (dataChannel s)) ''ping''})"
  by (simp add: conn_ping_def Let_def close_finished stop_timer_eq start_timer_def call_native_def)

lemma finished_step:
  assumes f: "isFinished s" and e: "end_ok s"
  shows "isFinished (conn_step H cfg s x) \<and>
    (send_numbers [x] = [] \<longrightarrow> messageQueue (conn_step H cfg s x) = messageQueue s) \<and>
    (\<exists>cs. native_calls (conn_step H cfg s x) = native_calls s @ cs \<and>
      (\<forall>c \<in> set cs. \<exists>d. c = SendMessage d ''ping'' \<or> c = SendMessage d ''pong''))"
proof -
  have p: "pc s = None" using f e by (simp add: end_ok_def)
  show ?thesis
  proof (cases x)
    case (Ping now a)
    then show ?thesis using finished_ping [OF f, of cfg now a] by (auto simp: conn_step_def)
  next
    case (TimerFires i now env)
    have flush: "attemptToFlushMessages H cfg env u = Some (u, None)" if "isFinished u" for u
      using that by (simp add: attemptToFlushMessages_def flush_loop.simps flush_goes_on_def)
    show ?thesis
    proof (cases "map_of (timers s) i")
      case None
      then show ?thesis using f by (simp add: TimerFires conn_step_def timer_fires_def)
    next
      case (Some k)
      then show ?thesis
        using f finished_ping [of "stop_timer (Some i) s" cfg now "env 0"]
        by (cases k) (auto simp: TimerFires conn_step_def timer_fires_def flush stop_timer_eq connection_timed_out_def Let_def)
    qed
  qed (use f p in \<open>simp_all add: conn_step_def when_listening_def conn_connect_def setRemoteDescription_def
      addRemoteCandidate_def enqueueRemoteCandidate_def setPeerInfo_def conn_send_def close_finished onStateChange_def
      arm_connection_timeout_def onGatheringStateChange_def onLocalDescription_def onLocalCandidate_def onDataChannel_def
      openDataChannel_def setupDataChannel_def on_bufferedAmountLow_def on_channel_message_def conn_pong_def
      setFlushRef_def start_timer_def stop_timer_eq call_native_def conn_emit_def Let_def
      split: prod.split option.split\<close>)
qed

text \<open>
  A connection closes once. In every run \<open>close\<close> is emitted once if the connection is
  finished and never otherwise, and after that, whatever comes, it stays finished, emits no
  second \<open>close\<close>, takes no message off its queue, and calls nothing of the package but
  \<open>sendMessage\<close> with a ping or a pong.
\<close>

theorem closed_connection_is_over:
  assumes "heap_lawful H content" and "0 < queueMaxSize cfg" and "sorted_wrt (<) (send_numbers (es @ [x]))"
  shows "let s = conn_run H cfg p es; t = conn_run H cfg p (es @ [x]) in
    closes s = (if isFinished s then 1 else 0) \<and>
    (isFinished s \<longrightarrow> isFinished t \<and> closes t = 1 \<and>
      (send_numbers [x] = [] \<longrightarrow> messageQueue t = messageQueue s) \<and>
      (\<exists>cs. native_calls t = native_calls s @ cs \<and>
        (\<forall>c \<in> set cs. \<exists>d. c = SendMessage d ''ping'' \<or> c = SendMessage d ''pong'')))"
proof -
  define s where "s = conn_run H cfg p es"
  have t: "conn_run H cfg p (es @ [x]) = conn_step H cfg s x" by (simp add: conn_run_def s_def)
  have "end_ok s"
    using run_facts(3) [OF assms(1,2), of es p] assms(3) by (simp add: s_def send_numbers_append sorted_wrt_append)
  moreover have "end_ok (conn_step H cfg s x)"
    using run_facts(3) [OF assms, of p] unfolding t .
  ultimately have e: "end_ok s" "end_ok (conn_step H cfg s x)" .
  then show ?thesis
    unfolding Let_def t s_def [symmetric] using finished_step [OF _ e(1), of H cfg x] unfolding end_ok_def by auto
qed

theorem closed_connection_is_over_witness:
  "closes (conn_run list_heap example_cfg example_neighbour [Connect 0 0, Close None]) = 1 \<and>
   isFinished (conn_run list_heap example_cfg example_neighbour [Connect 0 0, Close None, Close (Some ''again'')])"
  using closed_connection_is_over [OF list_heap_lawful, of example_cfg "[Connect 0 0, Close None]" "Close (Some ''again'')"
      example_neighbour]
  by (simp add: example_cfg_def Let_def conn_run_def conn_step_def conn_connect_def new_connection_def start_timer_def
      arm_connection_timeout_def setupDataChannel_def call_native_def conn_close_def conn_emit_def stop_timer_def)

subsection \<open>Pings\<close>

text \<open>The ping timer fires at each of the times, the channel giving the same answers.\<close>

definition ping_ticks :: "'h heap_ops \<Rightarrow> conn_config \<Rightarrow> dc_answers \<Rightarrow> int list \<Rightarrow> 'h connection \<Rightarrow> 'h connection" where
  "ping_ticks H cfg a nows s =
     foldl (\<lambda>s now. conn_step H cfg s (TimerFires (the (pingTimeoutRef s)) now (\<lambda>_. a))) s nows"

lemma tick_is_ping:
  assumes ok: "conn_timers_ok s" and p: "pingTimeoutRef s = Some i"
  shows "conn_step H cfg s (TimerFires (the (pingTimeoutRef s)) now (\<lambda>_. a)) = conn_ping cfg now a (stop_timer (Some i) s)"
    "conn_timers_ok (conn_ping cfg now a (stop_timer (Some i) s))"
proof -
  have m: "map_of (timers s) i = Some PingTimeout"
    using conn_timers_okD(2) [OF ok p] timers_weakD(1) [OF conn_timers_okD(1) [OF ok]] by (simp add: armed_ok_def)
  then show "conn_step H cfg s (TimerFires (the (pingTimeoutRef s)) now (\<lambda>_. a)) = conn_ping cfg now a (stop_timer (Some i) s)"
    by (simp add: p conn_step_def timer_fires_def Let_def)
  show "conn_timers_ok (conn_ping cfg now a (stop_timer (Some i) s))"
    by (rule ping_timers_again [OF fired_timers(4) [OF ok m]])
qed

lemma ping_always_rearms: "\<exists>i. pingTimeoutRef (conn_ping cfg now a s) = Some i"
  by (simp add: conn_ping_def Let_def start_timer_def)

lemma ping_once:
  assumes ok: "conn_timers_ok s" and f: "\<not> isFinished s" and d: "dataChannel s = Some d" and a: "ans_isOpen a = Some True"
    and t_def: "t = conn_step H cfg s (TimerFires (the (pingTimeoutRef s)) now (\<lambda>_. a))"
  shows "conn_timers_ok t" "\<exists>i. pingTimeoutRef t = Some i"
    "pingAttempts s < maxPingPongAttempts cfg \<Longrightarrow>
       \<not> isFinished t \<and> dataChannel t = Some d \<and> pingAttempts t = pingAttempts s + 1 \<and> emitted t = emitted s"
    "maxPingPongAttempts cfg \<le> pingAttempts s \<Longrightarrow>
       isFinished t \<and> emitted t = emitted s @ [EmitError ''pong not received'', EmitClose]"
proof -
  obtain i where i: "pingTimeoutRef s = Some i" using conn_timers_okD(3) [OF ok] f by auto
  have t: "t = conn_ping cfg now a (stop_timer (Some i) s)" unfolding t_def by (rule tick_is_ping(1) [OF ok i])
  have open': "isOpen a (stop_timer (Some i) s)" using d a by (simp add: isOpen_def stop_timer_eq)
  show "conn_timers_ok t" unfolding t by (rule tick_is_ping(2) [OF ok i])
  show "\<exists>i. pingTimeoutRef t = Some i" unfolding t by (rule ping_always_rearms)
  show "\<not> isFinished t \<and> dataChannel t = Some d \<and> pingAttempts t = pingAttempts s + 1 \<and> emitted t = emitted s"
    if "pingAttempts s < maxPingPongAttempts cfg"
    using that f d open' unfolding t conn_ping_def Let_def
    by (simp add: stop_timer_eq start_timer_def call_native_def)
  show "isFinished t \<and> emitted t = emitted s @ [EmitError ''pong not received'', EmitClose]"
    if "maxPingPongAttempts cfg \<le> pingAttempts s"
    using that open' close_end(1,4) [of "stop_timer (Some i) s" "Some ''pong not received''"] f
    unfolding t conn_ping_def Let_def by (simp add: stop_timer_eq start_timer_def)
qed

lemma ping_many:
  assumes "conn_timers_ok s" "\<not> isFinished s" "dataChannel s = Some d" "ans_isOpen a = Some True"
    and "pingAttempts s + length nows \<le> maxPingPongAttempts cfg"
  shows "let t = ping_ticks H cfg a nows s in conn_timers_ok t \<and> \<not> isFinished t \<and> dataChannel t = Some d \<and>
    pingAttempts t = pingAttempts s + length nows \<and> emitted t = emitted s"
  using assms
proof (induction nows arbitrary: s)
  case (Cons now nows)
  note p = ping_once [OF Cons.prems(1-4) refl, where H = H and cfg = cfg and now = now]
  from Cons.prems(5) have "pingAttempts s < maxPingPongAttempts cfg" by simp
  from Cons.IH [OF p(1) _ _ Cons.prems(4)] p(3) [OF this] Cons.prems(5) show ?case
    by (simp add: ping_ticks_def Let_def)
qed (simp add: ping_ticks_def)

lemma finished_ticks:
  assumes "conn_timers_ok s" "isFinished s" "\<exists>i. pingTimeoutRef s = Some i"
  shows "let t = ping_ticks H cfg a nows s in isFinished t \<and> length (ping_timers t) = 1"
  using assms
proof (induction nows arbitrary: s)
  case Nil
  then show ?case using ping_timers_ok [OF Nil.prems(1)] by (auto simp: ping_ticks_def)
next
  case (Cons now nows)
  then obtain i where i: "pingTimeoutRef s = Some i" by blast
  note t1 = tick_is_ping(1) [OF Cons.prems(1) i, of H cfg now a] and t2 = tick_is_ping(2) [OF Cons.prems(1) i, of cfg now a]
  have "isFinished (conn_ping cfg now a (stop_timer (Some i) s))"
    using finished_ping [of "stop_timer (Some i) s" cfg now a] Cons.prems(2) by (simp add: stop_timer_eq)
  from Cons.IH [OF t2 this ping_always_rearms] show ?case by (simp add: ping_ticks_def t1)
qed

text \<open>
  C17. A peer that stops answering is dropped. From every state a run reaches in which the
  connection has a channel and is not finished, as long as the channel stays open and no pong
  arrives, each firing of the ping timer sends one more ping while fewer than the maximum are
  unanswered, and the next firing closes the connection, with the error and then the close
  event. The timer is armed all that time.
\<close>

theorem unanswered_pings_close:
  assumes "heap_lawful H content" and "0 < queueMaxSize cfg" and "sorted_wrt (<) (send_numbers es)"
    and "\<not> isFinished (conn_run H cfg p es)" and "dataChannel (conn_run H cfg p es) \<noteq> None"
    and "ans_isOpen a = Some True" and "pingAttempts (conn_run H cfg p es) + length nows = maxPingPongAttempts cfg"
  shows "let s = conn_run H cfg p es; t = ping_ticks H cfg a nows s; u = ping_ticks H cfg a (nows @ [now]) s in
    \<not> isFinished t \<and> emitted t = emitted s \<and> isFinished u \<and>
    emitted u = emitted s @ [EmitError ''pong not received'', EmitClose]"
proof -
  define s where "s = conn_run H cfg p es"
  define t where "t = ping_ticks H cfg a nows s"
  obtain d where d: "dataChannel s = Some d" using assms(5) s_def by auto
  have "conn_timers_ok s" "\<not> isFinished s" using run_facts(2) [OF assms(1-3)] assms(4) by (simp_all add: s_def)
  then have t: "conn_timers_ok t" "\<not> isFinished t" "dataChannel t = Some d" "pingAttempts t = maxPingPongAttempts cfg"
    "emitted t = emitted s"
    using ping_many [OF _ _ d assms(6), of nows cfg H] assms(7) by (simp_all add: s_def [symmetric] t_def Let_def)
  have "ping_ticks H cfg a (nows @ [now]) s = conn_step H cfg t (TimerFires (the (pingTimeoutRef t)) now (\<lambda>_. a))"
    by (simp add: ping_ticks_def t_def)
  then show ?thesis
    using ping_once(4) [OF t(1,2,3) assms(6) refl, where H = H and cfg = cfg and now = now] t
    unfolding Let_def s_def [symmetric] t_def [symmetric] by simp
qed

definition open_channel :: dc_answers where
  "open_channel = \<lparr>ans_send = SendReturns True, ans_isOpen = Some True, ans_bufferedAmount = Some 0, ans_maxMessageSize = None\<rparr>"

lemma example_open:
  "\<not> isFinished (conn_run list_heap example_cfg p [Connect 0 0, ChannelOpen 0]) \<and>
   dataChannel (conn_run list_heap example_cfg p [Connect 0 0, ChannelOpen 0]) = Some 0 \<and>
   pingAttempts (conn_run list_heap example_cfg p [Connect 0 0, ChannelOpen 0]) = 0"
  by (simp add: conn_run_def conn_step_def conn_connect_def new_connection_def start_timer_def example_cfg_def
      arm_connection_timeout_def setupDataChannel_def call_native_def conn_emit_def stop_timer_def Let_def
      when_listening_def set_add_def openDataChannel_def setFlushRef_def)

theorem unanswered_pings_close_witness:
  "isFinished (ping_ticks list_heap example_cfg open_channel [2, 4, 6, 8, 10, 12]
     (conn_run list_heap example_cfg example_neighbour [Connect 0 0, ChannelOpen 0]))"
  using unanswered_pings_close [OF list_heap_lawful, of example_cfg "[Connect 0 0, ChannelOpen 0]" example_neighbour
      open_channel "[2, 4, 6, 8, 10]" 12]
  by (simp add: example_open Let_def) (simp add: example_cfg_def open_channel_def)

text \<open>
  The ping timer of a connection that closed because of unanswered pings is never
  stopped: \<open>ping\<close> arms it again after \<open>close\<close> has cleared it, and then after every ping, so
  that a finished connection keeps one timer for ever. Any other call of \<open>close\<close> leaves no
  ping timer.
\<close>

theorem ping_timer_outlives_connection:
  assumes "heap_lawful H content" and "0 < queueMaxSize cfg" and "sorted_wrt (<) (send_numbers es)"
    and "\<not> isFinished (conn_run H cfg p es)" and "dataChannel (conn_run H cfg p es) \<noteq> None"
    and "ans_isOpen a = Some True" and "maxPingPongAttempts cfg \<le> pingAttempts (conn_run H cfg p es)"
  shows "let s = conn_run H cfg p es in
    (\<forall>nows now. let t = ping_ticks H cfg a (now # nows) s in isFinished t \<and> length (ping_timers t) = 1) \<and>
    ping_timers (conn_close err s) = []"
proof -
  define s where "s = conn_run H cfg p es"
  obtain d where d: "dataChannel s = Some d" using assms(5) s_def by auto
  have s: "conn_timers_ok s" "\<not> isFinished s" "maxPingPongAttempts cfg \<le> pingAttempts s"
    using run_facts(2) [OF assms(1-3)] assms(4,7) by (simp_all add: s_def)
  have "let t = ping_ticks H cfg a (now # nows) s in isFinished t \<and> length (ping_timers t) = 1" for nows now
  proof -
    note p = ping_once [OF s(1,2) d assms(6) refl, where H = H and cfg = cfg and now = now]
    from finished_ticks [OF p(1) _ p(2), of H cfg a nows] p(4) [OF s(3)] show ?thesis
      by (simp add: ping_ticks_def Let_def)
  qed
  moreover have "ping_timers (conn_close err s) = []"
    using close_timers(1,2) [OF conn_timers_okD(1) [OF s(1)] s(2), of err] ping_timers_ok [of "conn_close err s"] by simp
  ultimately show ?thesis unfolding Let_def s_def [symmetric] by blast
qed

lemma example_pinged:
  "\<not> isFinished (conn_run list_heap example_cfg p ([Connect 0 0, ChannelOpen 0] @ replicate 5 (Ping 9 open_channel))) \<and>
   dataChannel (conn_run list_heap example_cfg p ([Connect 0 0, ChannelOpen 0] @ replicate 5 (Ping 9 open_channel))) = Some 0 \<and>
   pingAttempts (conn_run list_heap example_cfg p ([Connect 0 0, ChannelOpen 0] @ replicate 5 (Ping 9 open_channel))) = 5"
proof -
  have step: "\<not> isFinished (conn_step list_heap example_cfg s (Ping 9 open_channel)) \<and>
      dataChannel (conn_step list_heap example_cfg s (Ping 9 open_channel)) = Some 0 \<and>
      pingAttempts (conn_step list_heap example_cfg s (Ping 9 open_channel)) = pingAttempts s + 1"
    if "\<not> isFinished s" "dataChannel s = Some 0" "pingAttempts s < 5" for s :: "nat list connection"
    using that by (simp add: conn_step_def conn_ping_def isOpen_def open_channel_def example_cfg_def call_native_def
        stop_timer_eq start_timer_def)
  have "k \<le> 5 \<Longrightarrow> \<not> isFinished (foldl (conn_step list_heap example_cfg) s (replicate k (Ping 9 open_channel))) \<and>
      dataChannel (foldl (conn_step list_heap example_cfg) s (replicate k (Ping 9 open_channel))) = Some 0 \<and>
      pingAttempts (foldl (conn_step list_heap example_cfg) s (replicate k (Ping 9 open_channel))) = k"
    if "\<not> isFinished s" "dataChannel s = Some 0" "pingAttempts s = 0" for s :: "nat list connection" and k
  proof (induction k)
    case (Suc k)
    then show ?case using step by (simp add: replicate_append_same [symmetric])
  qed (use that in simp)
  then show ?thesis using example_open unfolding conn_run_def by (simp del: replicate.simps)
qed

theorem ping_timer_outlives_connection_witness:
  "length (ping_timers (ping_ticks list_heap example_cfg open_channel [12, 14, 16]
     (conn_run list_heap example_cfg example_neighbour
       ([Connect 0 0, ChannelOpen 0] @ replicate 5 (Ping 9 open_channel))))) = 1"
proof -
  have "send_numbers ([Connect 0 0, ChannelOpen 0] @ replicate 5 (Ping 9 open_channel)) = []"
    by (simp add: eval_nat_numeral)
  then show ?thesis
    using ping_timer_outlives_connection [OF list_heap_lawful, of example_cfg
      "[Connect 0 0, ChannelOpen 0] @ replicate 5 (Ping 9 open_channel)" example_neighbour open_channel None] example_pinged
    by (simp add: Let_def open_channel_def example_cfg_def del: replicate.simps replicate_Suc)
qed

subsection \<open>Sends the channel refuses\<close>

lemma processFailed_keeps:
  "item_message (item_at (messageQueue (processFailedMessage H n e s)) k) = item_message (item_at (messageQueue s) k)"
  "paused (processFailedMessage H n e s) = paused s"
  "native_calls (processFailedMessage H n e s) = native_calls s"
proof -
  have "item_message (item_at (item_incrementTries i n q) k) = item_message (item_at q k)" for i and q :: "(string, 'a) message_queue"
    by (simp add: item_incrementTries_def Let_def item_at_def)
  moreover have "items (messageQueue (pop_item H s)) = items (messageQueue s)" for s
    by (simp add: pop_item_def queue_pop_def)
  ultimately show
    "item_message (item_at (messageQueue (processFailedMessage H n e s)) k) = item_message (item_at (messageQueue s) k)"
    by (simp add: processFailedMessage_def Let_def) (simp add: item_at_def)
  show "paused (processFailedMessage H n e s) = paused s" "native_calls (processFailedMessage H n e s) = native_calls s"
    by (simp_all add: processFailedMessage_def Let_def start_timer_def pop_item_def)
qed

definition refused :: "('h \<Rightarrow> nat list) \<Rightarrow> conn_config \<Rightarrow> dc_answers \<Rightarrow> 'h connection \<Rightarrow> bool" where
  "refused content cfg a s \<longleftrightarrow> \<not> isFinished s \<and> dataChannel s \<noteq> None \<and> \<not> paused s \<and>
     getBufferedAmount a s < bufferThresholdHigh cfg \<and> ans_send a = SendReturns False \<and>
     (\<forall>n \<in> set (queue_waiting content (messageQueue s)).
        length (item_message (item_at (messageQueue s) n)) \<le> getMaxMessageSize a s)"

lemma refused_round:
  assumes H: "heap_lawful H content" and ok: "queue_ok content no added (messageQueue s)"
    and r: "refused content cfg a s" and w: "queue_waiting content (messageQueue s) = n # ns"
  shows "\<exists>t. flush_round H cfg a 0 s = (t, FlushContinues 0) \<and> refused content cfg a t \<and>
    queue_ok content no added (messageQueue t) \<and> tries_left content (messageQueue t) < tries_left content (messageQueue s) \<and>
    map fst (settled (messageQueue t)) @ queue_waiting content (messageQueue t) =
      map fst (settled (messageQueue s)) @ queue_waiting content (messageQueue s) \<and>
    (\<exists>ds. settled (messageQueue t) = settled (messageQueue s) @ ds \<and> snd ` set ds \<subseteq> {Rejected GaveUp})"
proof -
  define m where "m = item_message (item_at (messageQueue s) n)"
  define s1 where "s1 = call_native (SendMessage (the (dataChannel s)) m) s"
  define t where "t = processFailedMessage H n ''Error: sendMessage returned false'' s1"
  have s1: "messageQueue s1 = messageQueue s" "same_link s s1" "paused s1 = paused s"
    by (simp_all add: s1_def call_native_def same_link_def ping_timers_def)
  have "\<not> item_isFailed n (messageQueue s)"
    using queue_okD(5) [OF ok, of n] w by (auto simp: item_isFailed_def item_at_def item_ok_def)
  then have round: "flush_round H cfg a 0 s = (t, FlushContinues 0)"
    using r w queue_reads(3) [OF H, of "messageQueue s"]
    unfolding flush_round_def t_def s1_def m_def refused_def Let_def by auto
  have f: "queue_ok content no added (messageQueue t)" "tries_left content (messageQueue t) < tries_left content (messageQueue s)"
    "tries (item_at (messageQueue s) n) + 1 < MAX_TRIES \<Longrightarrow>
       queue_waiting content (messageQueue t) = n # ns \<and> settled (messageQueue t) = settled (messageQueue s)"
    "tries (item_at (messageQueue s) n) + 1 = MAX_TRIES \<Longrightarrow> settles_head content (Rejected GaveUp) s1 t"
    using failed_item_cases [OF H, of no added s1 n ns t] ok w by (simp_all add: s1(1) t_def)
  have "tries (item_at (messageQueue s) n) < MAX_TRIES"
    using queue_okD(5) [OF ok, of n] w by (auto simp: item_at_def item_ok_def)
  then consider "tries (item_at (messageQueue s) n) + 1 < MAX_TRIES" | "tries (item_at (messageQueue s) n) + 1 = MAX_TRIES"
    by linarith
  then have st: "(queue_waiting content (messageQueue t) = n # ns \<and> settled (messageQueue t) = settled (messageQueue s)) \<or>
      (queue_waiting content (messageQueue t) = ns \<and> settled (messageQueue t) = settled (messageQueue s) @ [(n, Rejected GaveUp)])"
    by cases (use f(3,4) w in \<open>auto simp: settles_head_def s1(1)\<close>)
  have "same_link s t" using same_link_trans [OF s1(2) same_link_failed] unfolding t_def .
  then have l: "isFinished t = isFinished s" "dataChannel t = dataChannel s" by (simp_all add: same_link_def)
  have "refused content cfg a t"
    using r w st processFailed_keeps(1,2) [of H n _ s1]
    unfolding refused_def getBufferedAmount_def getMaxMessageSize_def l
    by (auto simp: t_def s1)
  then show ?thesis
    using round f(1,2) st w by (elim disjE) auto
qed

text \<open>
  A channel whose \<open>sendMessage\<close> returns false, without an exception, loses the whole
  queue in one call of the loop. The loop does not return after such a failure, so each
  message that waits is tried again at once until its ten tries are used up, and every
  message ends as given up, although the retry timeout has not passed once.
\<close>

theorem refused_sends_give_up_at_once:
  assumes "heap_lawful H content" and "0 < queueMaxSize cfg" and "sorted_wrt (<) (send_numbers es)"
    and "refused content cfg a (conn_run H cfg p es)"
  shows "let s = conn_run H cfg p es in
    \<exists>t. attemptToFlushMessages H cfg (\<lambda>_. a) s = Some (t, None) \<and> queue_waiting content (messageQueue t) = [] \<and>
      settled (messageQueue t) =
        settled (messageQueue s) @ map (\<lambda>n. (n, Rejected GaveUp)) (queue_waiting content (messageQueue s))"
proof -
  define s where "s = conn_run H cfg p es"
  obtain no where q: "queue_ok content no (send_numbers es) (messageQueue s)"
    using run_facts(1) [OF assms(1-3)] unfolding conn_queue_ok_def s_def by blast
  have "\<exists>t. flush_loop H cfg (\<lambda>_. a) i 0 s = Some (t, None) \<and> queue_waiting content (messageQueue t) = [] \<and>
      map fst (settled (messageQueue t)) = map fst (settled (messageQueue s)) @ queue_waiting content (messageQueue s) \<and>
      (\<exists>ds. settled (messageQueue t) = settled (messageQueue s) @ ds \<and> snd ` set ds \<subseteq> {Rejected GaveUp})"
    if "queue_ok content no (send_numbers es) (messageQueue s)" "refused content cfg a s" for s i
    using that
  proof (induction "tries_left content (messageQueue s)" arbitrary: s i rule: less_induct)
    case less
    show ?case
    proof (cases "queue_waiting content (messageQueue s)")
      case Nil
      then show ?thesis
        using queue_reads(2) [OF assms(1), of "messageQueue s"] by (subst flush_loop.simps) (simp add: flush_goes_on_def)
    next
      case (Cons n ns)
      obtain t where t: "flush_round H cfg a 0 s = (t, FlushContinues 0)" "refused content cfg a t"
        "queue_ok content no (send_numbers es) (messageQueue t)"
        "tries_left content (messageQueue t) < tries_left content (messageQueue s)"
        "map fst (settled (messageQueue t)) @ queue_waiting content (messageQueue t) =
          map fst (settled (messageQueue s)) @ queue_waiting content (messageQueue s)"
        "\<exists>ds. settled (messageQueue t) = settled (messageQueue s) @ ds \<and> snd ` set ds \<subseteq> {Rejected GaveUp}"
        using refused_round [OF assms(1) less.prems Cons] by blast
      obtain u where u: "flush_loop H cfg (\<lambda>_. a) (i + 1) 0 t = Some (u, None)" "queue_waiting content (messageQueue u) = []"
        "map fst (settled (messageQueue u)) = map fst (settled (messageQueue t)) @ queue_waiting content (messageQueue t)"
        "\<exists>ds. settled (messageQueue u) = settled (messageQueue t) @ ds \<and> snd ` set ds \<subseteq> {Rejected GaveUp}"
        using less.hyps [OF t(4,3,2), of "i + 1"] by blast
      have "flush_goes_on H s"
        using less.prems(2) Cons queue_reads(2) [OF assms(1), of "messageQueue s"] by (simp add: refused_def flush_goes_on_def)
      then have "flush_loop H cfg (\<lambda>_. a) i 0 s = Some (u, None)"
        using t(1) u(1) by (subst flush_loop.simps) simp
      moreover have "\<exists>ds. settled (messageQueue u) = settled (messageQueue s) @ ds \<and> snd ` set ds \<subseteq> {Rejected GaveUp}"
      proof -
        obtain ds es where "settled (messageQueue t) = settled (messageQueue s) @ ds" "snd ` set ds \<subseteq> {Rejected GaveUp}"
          "settled (messageQueue u) = settled (messageQueue t) @ es" "snd ` set es \<subseteq> {Rejected GaveUp}"
          using t(6) u(4) by blast
        then show ?thesis by (intro exI [of _ "ds @ es"]) (simp add: image_Un)
      qed
      ultimately show ?thesis using u(2,3) t(5) by auto
    qed
  qed
  from this [OF q, of 0] assms(4) obtain t ds where t: "attemptToFlushMessages H cfg (\<lambda>_. a) s = Some (t, None)"
    "queue_waiting content (messageQueue t) = []" "settled (messageQueue t) = settled (messageQueue s) @ ds"
    "map fst ds = queue_waiting content (messageQueue s)" "snd ` set ds \<subseteq> {Rejected GaveUp}"
    unfolding attemptToFlushMessages_def s_def by auto
  have "ds = map (\<lambda>n. (n, Rejected GaveUp)) (map fst ds)"
    using t(5) by (induction ds) auto
  then show ?thesis using t unfolding Let_def s_def [symmetric] by metis
qed

definition refusing_channel :: dc_answers where
  "refusing_channel = open_channel\<lparr>ans_send := SendReturns False\<rparr>"

lemma example_refused:
  "refused id example_cfg refusing_channel (conn_run list_heap example_cfg p [Connect 0 0, ChannelOpen 0, Send 4 ''hello'']) \<and>
   queue_waiting id (messageQueue (conn_run list_heap example_cfg p [Connect 0 0, ChannelOpen 0, Send 4 ''hello''])) = [4] \<and>
   settled (messageQueue (conn_run list_heap example_cfg p [Connect 0 0, ChannelOpen 0, Send 4 ''hello''])) = []"
  by (simp add: conn_run_def conn_step_def conn_connect_def new_connection_def start_timer_def example_cfg_def
      arm_connection_timeout_def setupDataChannel_def call_native_def conn_emit_def stop_timer_def Let_def
      when_listening_def set_add_def openDataChannel_def setFlushRef_def conn_send_def queue_add_def queue_size_def
      list_heap_def new_queue_def queue_waiting_def refused_def refusing_channel_def open_channel_def getBufferedAmount_def
      getMaxMessageSize_def new_item_def item_at_def)

theorem refused_sends_give_up_at_once_witness:
  "\<exists>t. attemptToFlushMessages list_heap example_cfg (\<lambda>_. refusing_channel)
      (conn_run list_heap example_cfg example_neighbour [Connect 0 0, ChannelOpen 0, Send 4 ''hello'']) = Some (t, None) \<and>
    settled (messageQueue t) = [(4, Rejected GaveUp)]"
  using refused_sends_give_up_at_once [OF list_heap_lawful, of example_cfg "[Connect 0 0, ChannelOpen 0, Send 4 ''hello'']"
      refusing_channel example_neighbour] example_refused [of example_neighbour]
  by (simp add: Let_def) (auto simp: example_cfg_def)

end
