(* ===== verification/WebRtcEndpoint.thy ===== *)
theory WebRtcEndpoint
  imports ConnectionPromises
begin

section \<open>The endpoint of the connections between nodes\<close>

text \<open>
  \<open>src/src/connection/WebRtcEndpoint.ts\<close>: the connections of a node to its neighbours, by
  peer, and the queues of messages to them, which outlive the connections.

  Connections are objects: \<open>ep_connections\<close> maps a peer to the number of its connection and
  \<open>ep_objects\<close> a number to the object, with what the closures of its listeners captured and
  which of the \<open>once\<close> listeners are left. A queue belongs to a peer and is shared by the
  peer's successive connections, so it is put into the connection object before each of its
  operations and taken out after. The events a connection emits in an operation are handled
  at its end: each is the last thing its emitter does, or precedes only the re-arming of the
  ping timer. What the endpoint tells the signaller and its own listeners, and the metrics it
  records, are logs; a call of \<open>connect\<close> is an entry of \<open>ep_connects\<close> with the state of its
  promise. \<open>ep_no\<close> is the static counter of the queue items.
\<close>

record 'h conn_entry =
  ce_conn :: "'h connection"
  ce_target :: string
  ce_router :: string
  ce_offering :: bool
  ce_listening :: bool
  ce_description_left :: bool
  ce_candidate_left :: bool
  ce_open_left :: bool

datatype endpoint_event =
    PeerConnected peer_info
  | PeerDisconnected peer_info
  | MessageFrom peer_info string
  | LowBackPressure peer_info
  | HighBackPressure peer_info

datatype signal =
    SignalLocalDescription string string string string
  | SignalLocalCandidate string string string string
  | SignalConnectionNeeded string string

datatype connect_state = Connecting nat | Connected string | ConnectFailed

record 'h endpoint =
  ep_connections :: "(string, nat) dict"
  ep_objects :: "(nat, 'h conn_entry) dict"
  ep_queues :: "(string, (string, 'h) message_queue) dict"
  ep_versions :: negotiated
  ep_stopped :: bool
  ep_events :: "endpoint_event list"
  ep_signals :: "signal list"
  ep_recorded :: "(string \<times> nat) list"
  ep_connects :: "connect_state list"
  ep_next :: nat
  ep_no :: nat

record 'h endpoint_env =
  ee_heap :: "'h heap_ops"
  ee_self :: peer_info
  ee_supported :: supported
  ee_bufferThresholdHigh :: nat
  ee_maxMessageSize :: nat

definition new_endpoint :: "'h endpoint" where
  "new_endpoint = \<lparr>ep_connections = [], ep_objects = [], ep_queues = [], ep_versions = [], ep_stopped = False,
     ep_events = [], ep_signals = [], ep_recorded = [], ep_connects = [], ep_next = 0, ep_no = 0\<rparr>"

text \<open>
  The configuration of a connection: the default of five pings, and the maximum size of a
  message as the maximum size of the queue.
\<close>

definition entry_config :: "'h endpoint_env \<Rightarrow> 'h conn_entry \<Rightarrow> conn_config" where
  "entry_config env en = \<lparr>isOffering = ce_offering en, bufferThresholdHigh = ee_bufferThresholdHigh env,
     maxPingPongAttempts = 5, queueMaxSize = ee_maxMessageSize env\<rparr>"

definition ep_record :: "(string \<times> nat) list \<Rightarrow> 'h endpoint \<Rightarrow> 'h endpoint" where
  "ep_record ms ep = ep\<lparr>ep_recorded := ep_recorded ep @ ms\<rparr>"

text \<open>\<open>removeAllListeners\<close> in \<open>stop\<close> leaves nobody to hear an event.\<close>

definition ep_emit :: "endpoint_event \<Rightarrow> 'h endpoint \<Rightarrow> 'h endpoint" where
  "ep_emit e ep = (if ep_stopped ep then ep else ep\<lparr>ep_events := ep_events ep @ [e]\<rparr>)"

definition ep_signal :: "signal \<Rightarrow> 'h endpoint \<Rightarrow> 'h endpoint" where
  "ep_signal x ep = ep\<lparr>ep_signals := ep_signals ep @ [x]\<rparr>"

definition update_entry :: "nat \<Rightarrow> ('h conn_entry \<Rightarrow> 'h conn_entry) \<Rightarrow> 'h endpoint \<Rightarrow> 'h endpoint" where
  "update_entry c f ep = (case map_of (ep_objects ep) c of
       None \<Rightarrow> ep
     | Some en \<Rightarrow> ep\<lparr>ep_objects := AList.update c (f en) (ep_objects ep)\<rparr>)"

text \<open>The promises of \<open>connect\<close> that wait for the connection \<open>c\<close>.\<close>

definition settle_connects :: "nat \<Rightarrow> connect_state \<Rightarrow> 'h endpoint \<Rightarrow> 'h endpoint" where
  "settle_connects c r ep = ep\<lparr>ep_connects := map (\<lambda>x. if x = Connecting c then r else x) (ep_connects ep)\<rparr>"

text \<open>What \<open>send\<close> records when the promises of its messages settle.\<close>

definition settle_metrics :: "(string, 'h) message_queue \<Rightarrow> (string, 'h) message_queue \<Rightarrow> (string \<times> nat) list" where
  "settle_metrics q q' = concat (map
     (\<lambda>(n, d). case d of
        Delivered \<Rightarrow> [(''outSpeed'', length (item_message (item_at q' n))), (''msgSpeed'', 1), (''msgOutSpeed'', 1)]
      | Rejected _ \<Rightarrow> [(''sendFailed'', 1)])
     (drop (length (settled q)) (settled q')))"

text \<open>An operation of the connection \<open>c\<close>, and the events it emits.\<close>

definition conn_apply :: "'h endpoint_env \<Rightarrow> nat \<Rightarrow> conn_input \<Rightarrow> 'h endpoint \<Rightarrow> 'h endpoint \<times> conn_event list" where
  "conn_apply env c x ep = (case map_of (ep_objects ep) c of
       None \<Rightarrow> (ep, [])
     | Some en \<Rightarrow>
         let s0 = ce_conn en;
             s = (case map_of (ep_queues ep) (ce_target en) of None \<Rightarrow> s0 | Some q \<Rightarrow> s0\<lparr>messageQueue := q\<rparr>);
             t = conn_step (ee_heap env) (entry_config env en) s x
         in (ep_record (settle_metrics (messageQueue s) (messageQueue t))
              (ep\<lparr>ep_objects := AList.update c (en\<lparr>ce_conn := t\<rparr>) (ep_objects ep),
                  ep_queues := (if has_key (ep_queues ep) (ce_target en)
                    then AList.update (ce_target en) (messageQueue t) (ep_queues ep) else ep_queues ep)\<rparr>),
             drop (length (emitted s)) (emitted t)))"

subsection \<open>The listeners of a connection\<close>

definition on_conn_close :: "nat \<Rightarrow> 'h endpoint \<Rightarrow> 'h endpoint" where
  "on_conn_close c ep = (case map_of (ep_objects ep) c of
       None \<Rightarrow> ep
     | Some en \<Rightarrow>
         let ep1 = (if map_of (ep_connections ep) (ce_target en) = Some c
                    then ep\<lparr>ep_connections := AList.delete (ce_target en) (ep_connections ep)\<rparr> else ep);
             ep2 = ep1\<lparr>ep_versions := removeNegotiatedProtocolVersion (ep_versions ep1) (ce_target en)\<rparr>;
             ep3 = ep_emit (PeerDisconnected (peerInfo (ce_conn en))) ep2;
             ep4 = update_entry c (\<lambda>en. en\<lparr>ce_listening := False\<rparr>) ep3
         in settle_connects c ConnectFailed (ep_record [(''close'', 1)] ep4))"

text \<open>\<open>close\<close> of the endpoint; a connection that was open emits its close event.\<close>

definition ep_close :: "'h endpoint_env \<Rightarrow> string \<Rightarrow> 'h endpoint \<Rightarrow> 'h endpoint" where
  "ep_close env target ep = (case map_of (ep_connections ep) target of
       None \<Rightarrow> ep
     | Some c \<Rightarrow>
         let (ep1, es) = conn_apply env c (Close None) (ep\<lparr>ep_connections := AList.delete target (ep_connections ep)\<rparr>)
         in if EmitClose \<in> set es then on_conn_close c ep1 else ep1)"

definition attemptProtocolVersionValidation :: "'h endpoint_env \<Rightarrow> nat \<Rightarrow> 'h endpoint \<Rightarrow> 'h endpoint" where
  "attemptProtocolVersionValidation env c ep = (case map_of (ep_objects ep) c of
       None \<Rightarrow> ep
     | Some en \<Rightarrow>
         let p = peerInfo (ce_conn en) in
         case negotiateProtocolVersion (ee_self env) (ep_versions ep) (peerId p)
                (Some (controlLayerVersions p)) (Some (messageLayerVersions p)) of
           Inr vs \<Rightarrow> ep\<lparr>ep_versions := vs\<rparr>
         | Inl _ \<Rightarrow> ep_close env (peerId p) ep)"

definition on_conn_event :: "'h endpoint_env \<Rightarrow> nat \<Rightarrow> conn_event \<Rightarrow> 'h endpoint \<Rightarrow> 'h endpoint" where
  "on_conn_event env c e ep = (case map_of (ep_objects ep) c of
       None \<Rightarrow> ep
     | Some en \<Rightarrow>
         if \<not> ce_listening en then ep
         else let p = peerInfo (ce_conn en) in
         case e of
           EmitLocalDescription ty desc \<Rightarrow>
             if ce_description_left en
             then attemptProtocolVersionValidation env c
               (ep_signal (SignalLocalDescription (ce_router en) (peerId p) ty desc)
                 (update_entry c (\<lambda>en. en\<lparr>ce_description_left := False\<rparr>) ep))
             else ep
         | EmitLocalCandidate cand mid \<Rightarrow>
             if ce_candidate_left en
             then ep_signal (SignalLocalCandidate (ce_router en) (peerId p) cand mid)
               (update_entry c (\<lambda>en. en\<lparr>ce_candidate_left := False\<rparr>) ep)
             else ep
         | EmitOpen \<Rightarrow>
             settle_connects c (Connected (peerId p))
               (if ce_open_left en
                then ep_record [(''open'', 1)] (ep_emit (PeerConnected p) (update_entry c (\<lambda>en. en\<lparr>ce_open_left := False\<rparr>) ep))
                else ep)
         | EmitMessage m \<Rightarrow>
             ep_record [(''inSpeed'', length m), (''msgSpeed'', 1), (''msgInSpeed'', 1)] (ep_emit (MessageFrom p m) ep)
         | EmitClose \<Rightarrow> on_conn_close c ep
         | EmitError _ \<Rightarrow> settle_connects c ConnectFailed ep
         | EmitBufferLow \<Rightarrow> ep_emit (LowBackPressure p) ep
         | EmitBufferHigh \<Rightarrow> ep_emit (HighBackPressure p) ep)"

definition conn_operation :: "'h endpoint_env \<Rightarrow> nat \<Rightarrow> conn_input \<Rightarrow> 'h endpoint \<Rightarrow> 'h endpoint" where
  "conn_operation env c x ep =
     (let (ep1, es) = conn_apply env c x ep in foldl (\<lambda>ep e. on_conn_event env c e ep) ep1 es)"

subsection \<open>Connecting and sending\<close>

definition conn_at :: "'h endpoint \<Rightarrow> nat \<Rightarrow> 'h connection option" where
  "conn_at ep c = map_option ce_conn (map_of (ep_objects ep) c)"

definition ep_connect :: "'h endpoint_env \<Rightarrow> string \<Rightarrow> string \<Rightarrow> bool \<Rightarrow> 'h endpoint \<Rightarrow> 'h endpoint" where
  "ep_connect env target router offering ep =
     (if ep_stopped ep then ep\<lparr>ep_connects := ep_connects ep @ [ConnectFailed]\<rparr>
      else case map_of (ep_connections ep) target of
        Some c \<Rightarrow>
          (if Option.bind (conn_at ep c) lastState \<in> {Some ''connected'', Some ''failed'', Some ''closed''}
           then ep\<lparr>ep_connects := ep_connects ep @ [Connected target]\<rparr>
           else ep\<lparr>ep_connects := ep_connects ep @ [Connecting c]\<rparr>)
      | None \<Rightarrow>
          let q = (case map_of (ep_queues ep) target of None \<Rightarrow> new_queue (ee_heap env) | Some q \<Rightarrow> q);
              ep1 = ep\<lparr>ep_queues := AList.update target q (ep_queues ep)\<rparr>
          in case newUnknown (ee_supported env) target of
            Inl _ \<Rightarrow> ep1\<lparr>ep_connects := ep_connects ep1 @ [ConnectFailed]\<rparr>
          | Inr info \<Rightarrow>
              let c = ep_next ep1;
                  en = \<lparr>ce_conn = new_connection (ee_heap env) info q, ce_target = target, ce_router = router,
                        ce_offering = offering, ce_listening = True, ce_description_left = True,
                        ce_candidate_left = True, ce_open_left = True\<rparr>;
                  ep2 = ep1\<lparr>ep_objects := AList.update c en (ep_objects ep1), ep_next := c + 1,
                            ep_connections := AList.update target c (ep_connections ep1)\<rparr>;
                  ep3 = conn_operation env c (Connect c c) ep2;
                  ep4 = (if offering then ep3 else ep_signal (SignalConnectionNeeded router target) ep3)
              in ep4\<lparr>ep_connects := ep_connects ep4 @ [Connecting c]\<rparr>)"

text \<open>The default of \<open>isOffering\<close>.\<close>

definition ep_connect_default :: "'h endpoint_env \<Rightarrow> string \<Rightarrow> string \<Rightarrow> 'h endpoint \<Rightarrow> 'h endpoint" where
  "ep_connect_default env target router ep = ep_connect env target router (peerId (ee_self env) < target) ep"

datatype endpoint_error = NotConnected string

definition ep_send :: "'h endpoint_env \<Rightarrow> string \<Rightarrow> string \<Rightarrow> 'h endpoint \<Rightarrow> ('h endpoint, endpoint_error) outcome" where
  "ep_send env target m ep = (case map_of (ep_connections ep) target of
       None \<Rightarrow> (ep, Some (NotConnected target))
     | Some c \<Rightarrow> (conn_operation env c (Send (ep_no ep) m) (ep\<lparr>ep_no := ep_no ep + 1\<rparr>), None))"

subsection \<open>The listeners of the signaller\<close>

definition remote_description_set :: "'h endpoint \<Rightarrow> nat \<Rightarrow> bool" where
  "remote_description_set ep c = (case conn_at ep c of None \<Rightarrow> False | Some s \<Rightarrow> remoteDescriptionSet s)"

text \<open>Whether the calls of the package throw is an argument of the three that make them.\<close>

definition on_rtc_offer ::
    "'h endpoint_env \<Rightarrow> string \<Rightarrow> peer_info \<Rightarrow> string \<Rightarrow> bool \<Rightarrow> bool \<Rightarrow> 'h endpoint \<Rightarrow> 'h endpoint" where
  "on_rtc_offer env router info desc throws1 throws2 ep =
     (let ep1 = ep_connect_default env (peerId info) router ep in
      case map_of (ep_connections ep1) (peerId info) of
        None \<Rightarrow> ep1
      | Some c \<Rightarrow>
          let ep2 = (if remote_description_set ep1 c
                     then ep_connect_default env (peerId info) router (ep_close env (peerId info) ep1) else ep1)
          in conn_operation env c (SetRemoteDescription desc ''offer'' throws1 throws2)
               (conn_operation env c (SetPeerInfo info) ep2))"

definition on_rtc_answer ::
    "'h endpoint_env \<Rightarrow> peer_info \<Rightarrow> string \<Rightarrow> bool \<Rightarrow> bool \<Rightarrow> 'h endpoint \<Rightarrow> 'h endpoint" where
  "on_rtc_answer env info desc throws1 throws2 ep = (case map_of (ep_connections ep) (peerId info) of
       None \<Rightarrow> ep
     | Some c \<Rightarrow> attemptProtocolVersionValidation env c
         (conn_operation env c (SetRemoteDescription desc ''answer'' throws1 throws2)
           (conn_operation env c (SetPeerInfo info) ep)))"

definition on_remote_candidate :: "'h endpoint_env \<Rightarrow> string \<Rightarrow> string \<Rightarrow> string \<Rightarrow> 'h endpoint \<Rightarrow> 'h endpoint" where
  "on_remote_candidate env pid cand mid ep = (case map_of (ep_connections ep) pid of
       None \<Rightarrow> ep
     | Some c \<Rightarrow>
         if remote_description_set ep c then conn_operation env c (AddRemoteCandidate cand mid) ep
         else conn_operation env c (EnqueueRemoteCandidate cand mid) ep)"

definition on_rtc_connect :: "'h endpoint_env \<Rightarrow> string \<Rightarrow> string \<Rightarrow> 'h endpoint \<Rightarrow> 'h endpoint" where
  "on_rtc_connect env pid router ep =
     (let ep1 = (case map_of (ep_connections ep) pid of
          None \<Rightarrow> ep
        | Some c \<Rightarrow> if remote_description_set ep c then ep_close env pid ep else ep)
      in ep_connect_default env pid router ep1)"

definition on_rtc_error :: "'h endpoint_env \<Rightarrow> string \<Rightarrow> 'h endpoint \<Rightarrow> 'h endpoint" where
  "on_rtc_error env pid ep = (case map_of (ep_connections ep) pid of
       None \<Rightarrow> ep
     | Some c \<Rightarrow> conn_operation env c (Close (Some ''RTC error'')) ep)"

definition getRtts :: "'h endpoint \<Rightarrow> (string, int) dict" where
  "getRtts ep = foldl (\<lambda>d (target, c). case Option.bind (conn_at ep c) rtt of None \<Rightarrow> d | Some r \<Rightarrow> AList.update target r d)
     [] (ep_connections ep)"

subsection \<open>Stopping\<close>

definition ep_stop :: "'h endpoint_env \<Rightarrow> 'h endpoint \<Rightarrow> 'h endpoint" where
  "ep_stop env ep =
     (let ep1 = ep\<lparr>ep_stopped := True, ep_connections := [], ep_queues := []\<rparr>
      in foldl (\<lambda>ep c. conn_operation env c (Close None) ep) ep1 (values_of (ep_connections ep)))"

subsection \<open>Inputs\<close>

text \<open>
  The calls of the upper layer, the signaller's messages (ignored after \<open>stop\<close>, which replaces
  the listeners), and what the package and the timers do to a connection.
\<close>

datatype endpoint_input =
    EpConnect string string bool
  | EpSend string string
  | EpClose string
  | EpStop
  | RtcOffer string peer_info string bool bool
  | RtcAnswer peer_info string bool bool
  | RemoteCandidateReceived string string string
  | RtcConnect string string
  | RtcError string
  | ConnReport nat conn_input

text \<open>What the package and the timers may do to a connection.\<close>

fun is_report :: "conn_input \<Rightarrow> bool" where
  "is_report (TimerFires _ _ _) = True"
| "is_report (StateChange _ _) = True"
| "is_report (GatheringStateChange _ _) = True"
| "is_report (LocalDescription _ _ _) = True"
| "is_report (LocalCandidate _ _ _) = True"
| "is_report (DataChannelArrives _ _) = True"
| "is_report (ChannelOpen _) = True"
| "is_report (ChannelClosed _) = True"
| "is_report (ChannelError _) = True"
| "is_report (BufferedAmountLow _) = True"
| "is_report (ChannelMessage _ _ _) = True"
| "is_report _ = False"

fun endpoint_step :: "'h endpoint_env \<Rightarrow> 'h endpoint \<Rightarrow> endpoint_input \<Rightarrow> 'h endpoint" where
  "endpoint_step env ep (EpConnect target router offering) = ep_connect env target router offering ep"
| "endpoint_step env ep (EpSend target m) = fst (ep_send env target m ep)"
| "endpoint_step env ep (EpClose target) = ep_close env target ep"
| "endpoint_step env ep EpStop = ep_stop env ep"
| "endpoint_step env ep (RtcOffer router info desc t1 t2) =
     (if ep_stopped ep then ep else on_rtc_offer env router info desc t1 t2 ep)"
| "endpoint_step env ep (RtcAnswer info desc t1 t2) = (if ep_stopped ep then ep else on_rtc_answer env info desc t1 t2 ep)"
| "endpoint_step env ep (RemoteCandidateReceived pid cand mid) =
     (if ep_stopped ep then ep else on_remote_candidate env pid cand mid ep)"
| "endpoint_step env ep (RtcConnect pid router) = (if ep_stopped ep then ep else on_rtc_connect env pid router ep)"
| "endpoint_step env ep (RtcError pid) = (if ep_stopped ep then ep else on_rtc_error env pid ep)"
| "endpoint_step env ep (ConnReport c x) = (if is_report x then conn_operation env c x ep else ep)"

end
