(* ===== verification/TrackerProtocol.thy ===== *)
theory TrackerProtocol
  imports Tracker InstructionThrottler WsClaims WebRtcEndpoint
begin

section \<open>The protocol between nodes and trackers\<close>

text \<open>
  \<open>src/src/helpers/MessageEncoder.ts\<close>, \<open>src/src/protocol/TrackerServer.ts\<close>,
  \<open>src/src/protocol/TrackerNode.ts\<close>, \<open>src/src/logic/RtcSignaller.ts\<close> and
  \<open>src/src/logic/rtcSignallingHandlers.ts\<close>, over the websocket endpoint. The messages are those
  of the protocol package, with the fields these files read and write; how the package turns
  a message into a string and back is a parameter, as is the code of its error for an
  unknown peer. The fresh request ids are arguments. What the websocket library answers to a
  \<open>send\<close> (whether it throws, how much is buffered then) is given by receiver and message.
\<close>

subsection \<open>Messages\<close>

datatype relay_content =
    RelayLocalDescription string string
  | RelayLocalCandidate string string
  | RelayRtcConnect
  | RelayRtcOffer string
  | RelayRtcAnswer string
  | RelayRemoteCandidate string string
  | RelayOther string

record relay_message =
  relay_requestId :: string
  relay_originator :: peer_info
  relay_targetNode :: string
  relay_content :: relay_content

datatype tracker_message =
    StatusMessage string status
  | StorageNodesRequestMessage string stream_id_and_partition
  | RelayMessage relay_message
  | InstructionMessage string instruction
  | StorageNodesResponseMessage string stream_id_and_partition "string list"
  | ErrorMessage string string string

text \<open>An exception, as far as \<open>decode\<close> looks at it: its name and whether it has the two fields.\<close>

record thrown =
  thrown_name :: string
  thrown_version :: bool
  thrown_type :: bool

definition decode :: "('m \<Rightarrow> thrown + 'r) \<Rightarrow> 'm \<Rightarrow> thrown + 'r option" where
  "decode deserializeFn m = (case deserializeFn m of
       Inr r \<Rightarrow> Inr (Some r)
     | Inl e \<Rightarrow> if thrown_name e = ''SyntaxError'' \<or> thrown_version e \<or> thrown_type e then Inr None else Inl e)"

record tracker_wire =
  tw_serialize :: "tracker_message \<Rightarrow> string"
  tw_deserialize :: "string \<Rightarrow> thrown + tracker_message"
  tw_unknownPeer :: string

definition wire_ok :: "tracker_wire \<Rightarrow> bool" where
  "wire_ok wire \<longleftrightarrow> (\<forall>m. tw_deserialize wire (tw_serialize wire m) = Inr m)"

record proto_env =
  pe_ws :: ws_env
  pe_wire :: tracker_wire
  pe_answer :: "string \<Rightarrow> string \<Rightarrow> bool \<times> nat"

text \<open>\<open>send\<close> of both classes.\<close>

definition proto_send :: "proto_env \<Rightarrow> string \<Rightarrow> tracker_message \<Rightarrow> ws_endpoint \<Rightarrow> ws_endpoint \<times> send_result" where
  "proto_send pe receiver m w =
     (let raw = tw_serialize (pe_wire pe) m; a = pe_answer pe receiver raw
      in ws_send (pe_ws pe) (fst a) (snd a) receiver raw w)"

subsection \<open>The tracker's side\<close>

definition sendInstruction ::
    "proto_env \<Rightarrow> string \<Rightarrow> string \<Rightarrow> stream_id_and_partition \<Rightarrow> string list \<Rightarrow> int \<Rightarrow> ws_endpoint \<Rightarrow> ws_endpoint \<times> send_result" where
  "sendInstruction pe req receiver s nodeIds c = proto_send pe receiver (InstructionMessage req
     \<lparr>im_streamId = sp_id s, im_partition = sp_partition s, im_nodeIds = nodeIds, im_counter = c\<rparr>)"

definition sendStorageNodesResponse ::
    "proto_env \<Rightarrow> string \<Rightarrow> stream_id_and_partition \<Rightarrow> string list \<Rightarrow> ws_endpoint \<Rightarrow> ws_endpoint \<times> send_result" where
  "sendStorageNodesResponse pe receiver s nodeIds = proto_send pe receiver (StorageNodesResponseMessage [] s nodeIds)"

definition sendRtcOffer :: "proto_env \<Rightarrow> string \<Rightarrow> string \<Rightarrow> peer_info \<Rightarrow> string \<Rightarrow> ws_endpoint \<Rightarrow> ws_endpoint \<times> send_result" where
  "sendRtcOffer pe receiver req originator description = proto_send pe receiver (RelayMessage
     \<lparr>relay_requestId = req, relay_originator = originator, relay_targetNode = receiver,
      relay_content = RelayRtcOffer description\<rparr>)"

definition sendRtcAnswer :: "proto_env \<Rightarrow> string \<Rightarrow> string \<Rightarrow> peer_info \<Rightarrow> string \<Rightarrow> ws_endpoint \<Rightarrow> ws_endpoint \<times> send_result" where
  "sendRtcAnswer pe receiver req originator description = proto_send pe receiver (RelayMessage
     \<lparr>relay_requestId = req, relay_originator = originator, relay_targetNode = receiver,
      relay_content = RelayRtcAnswer description\<rparr>)"

definition server_sendRtcConnect :: "proto_env \<Rightarrow> string \<Rightarrow> string \<Rightarrow> peer_info \<Rightarrow> ws_endpoint \<Rightarrow> ws_endpoint \<times> send_result" where
  "server_sendRtcConnect pe receiver req originator = proto_send pe receiver (RelayMessage
     \<lparr>relay_requestId = req, relay_originator = originator, relay_targetNode = receiver, relay_content = RelayRtcConnect\<rparr>)"

definition sendRemoteCandidate ::
    "proto_env \<Rightarrow> string \<Rightarrow> string \<Rightarrow> peer_info \<Rightarrow> string \<Rightarrow> string \<Rightarrow> ws_endpoint \<Rightarrow> ws_endpoint \<times> send_result" where
  "sendRemoteCandidate pe receiver req originator candidate mid = proto_send pe receiver (RelayMessage
     \<lparr>relay_requestId = req, relay_originator = originator, relay_targetNode = receiver,
      relay_content = RelayRemoteCandidate candidate mid\<rparr>)"

definition sendUnknownPeerRtcError :: "proto_env \<Rightarrow> string \<Rightarrow> string \<Rightarrow> string \<Rightarrow> ws_endpoint \<Rightarrow> ws_endpoint \<times> send_result" where
  "sendUnknownPeerRtcError pe receiver req target =
     proto_send pe receiver (ErrorMessage req (tw_unknownPeer (pe_wire pe)) target)"

definition getNodeIds :: "ws_endpoint \<Rightarrow> string list" where
  "getNodeIds w = map peerId (filter isNode (getPeerInfos w))"

datatype server_event =
    ServerNodeConnected string bool
  | ServerNodeDisconnected string bool
  | NodeStatusReceived status string
  | StorageNodesRequested stream_id_and_partition string
  | ServerRelayReceived relay_message string

definition server_onPeerConnected :: "peer_info \<Rightarrow> server_event option" where
  "server_onPeerConnected p = (if isNode p then Some (ServerNodeConnected (peerId p) (isStorage p)) else None)"

definition server_onPeerDisconnected :: "peer_info \<Rightarrow> server_event option" where
  "server_onPeerDisconnected p = (if isNode p then Some (ServerNodeDisconnected (peerId p) (isStorage p)) else None)"

text \<open>\<open>eventPerType\<close>; a type it does not have emits an event nobody listens to.\<close>

fun server_event_of :: "tracker_message \<Rightarrow> string \<Rightarrow> server_event option" where
  "server_event_of (StatusMessage _ st) source = Some (NodeStatusReceived st source)"
| "server_event_of (StorageNodesRequestMessage _ s) source = Some (StorageNodesRequested s source)"
| "server_event_of (RelayMessage r) source = Some (ServerRelayReceived r source)"
| "server_event_of _ source = None"

definition server_onMessageReceived :: "tracker_wire \<Rightarrow> peer_info \<Rightarrow> string \<Rightarrow> thrown + server_event option" where
  "server_onMessageReceived wire p raw =
     (if isNode p then (case decode (tw_deserialize wire) raw of
          Inl e \<Rightarrow> Inl e
        | Inr None \<Rightarrow> Inr None
        | Inr (Some m) \<Rightarrow> Inr (server_event_of m (peerId p)))
      else Inr None)"

subsection \<open>The signalling of the tracker\<close>

datatype relay_error = PeerUnreachable string

definition handleLocalDescription ::
    "proto_env \<Rightarrow> relay_message \<Rightarrow> string \<Rightarrow> string \<Rightarrow> ws_endpoint \<Rightarrow> ws_endpoint \<times> send_result option" where
  "handleLocalDescription pe r ty description w =
     (if ty = ''answer'' then
        map_prod id Some (sendRtcAnswer pe (relay_targetNode r) (relay_requestId r) (relay_originator r) description w)
      else if ty = ''offer'' then
        map_prod id Some (sendRtcOffer pe (relay_targetNode r) (relay_requestId r) (relay_originator r) description w)
      else (w, None))"

definition handleLocalCandidate ::
    "proto_env \<Rightarrow> relay_message \<Rightarrow> string \<Rightarrow> string \<Rightarrow> ws_endpoint \<Rightarrow> ws_endpoint \<times> send_result option" where
  "handleLocalCandidate pe r candidate mid w =
     map_prod id Some (sendRemoteCandidate pe (relay_targetNode r) (relay_requestId r) (relay_originator r) candidate mid w)"

definition handleRtcConnect :: "proto_env \<Rightarrow> relay_message \<Rightarrow> ws_endpoint \<Rightarrow> ws_endpoint \<times> send_result option" where
  "handleRtcConnect pe r w =
     map_prod id Some (server_sendRtcConnect pe (relay_targetNode r) (relay_requestId r) (relay_originator r) w)"

definition handle_relay :: "proto_env \<Rightarrow> relay_message \<Rightarrow> ws_endpoint \<Rightarrow> ws_endpoint \<times> send_result option" where
  "handle_relay pe r w = (case relay_content r of
       RelayLocalDescription ty description \<Rightarrow> handleLocalDescription pe r ty description w
     | RelayLocalCandidate candidate mid \<Rightarrow> handleLocalCandidate pe r candidate mid w
     | RelayRtcConnect \<Rightarrow> handleRtcConnect pe r w
     | _ \<Rightarrow> (w, None))"

text \<open>The listener; an originator that is not in the peer book makes its \<open>catch\<close> throw.\<close>

definition attachRtcSignalling :: "proto_env \<Rightarrow> relay_message \<Rightarrow> ws_endpoint \<Rightarrow> (ws_endpoint, relay_error) outcome" where
  "attachRtcSignalling pe r w = (case handle_relay pe r w of
       (w1, Some SendThrew) \<Rightarrow>
         (case sendUnknownPeerRtcError pe (peerId (relay_originator r)) (relay_requestId r) (relay_targetNode r) w1 of
            (w2, SendThrew) \<Rightarrow> (w2, Some (PeerUnreachable (peerId (relay_originator r))))
          | (w2, _) \<Rightarrow> (w2, None))
     | (w1, _) \<Rightarrow> (w1, None))"

subsection \<open>The node's side\<close>

definition proto_sendStatus :: "proto_env \<Rightarrow> string \<Rightarrow> string \<Rightarrow> status \<Rightarrow> ws_endpoint \<Rightarrow> ws_endpoint \<times> send_result" where
  "proto_sendStatus pe req tracker st = proto_send pe tracker (StatusMessage req st)"

definition sendStorageNodesRequest ::
    "proto_env \<Rightarrow> string \<Rightarrow> string \<Rightarrow> stream_id_and_partition \<Rightarrow> ws_endpoint \<Rightarrow> ws_endpoint \<times> send_result" where
  "sendStorageNodesRequest pe req tracker s = proto_send pe tracker (StorageNodesRequestMessage req s)"

definition sendLocalDescription ::
    "proto_env \<Rightarrow> string \<Rightarrow> string \<Rightarrow> string \<Rightarrow> peer_info \<Rightarrow> string \<Rightarrow> string \<Rightarrow> ws_endpoint \<Rightarrow> ws_endpoint \<times> send_result" where
  "sendLocalDescription pe req tracker target originator ty description = proto_send pe tracker (RelayMessage
     \<lparr>relay_requestId = req, relay_originator = originator, relay_targetNode = target,
      relay_content = RelayLocalDescription ty description\<rparr>)"

definition sendLocalCandidate ::
    "proto_env \<Rightarrow> string \<Rightarrow> string \<Rightarrow> string \<Rightarrow> peer_info \<Rightarrow> string \<Rightarrow> string \<Rightarrow> ws_endpoint \<Rightarrow> ws_endpoint \<times> send_result" where
  "sendLocalCandidate pe req tracker target originator candidate mid = proto_send pe tracker (RelayMessage
     \<lparr>relay_requestId = req, relay_originator = originator, relay_targetNode = target,
      relay_content = RelayLocalCandidate candidate mid\<rparr>)"

definition node_sendRtcConnect ::
    "proto_env \<Rightarrow> string \<Rightarrow> string \<Rightarrow> string \<Rightarrow> peer_info \<Rightarrow> ws_endpoint \<Rightarrow> ws_endpoint \<times> send_result" where
  "node_sendRtcConnect pe req tracker target originator = proto_send pe tracker (RelayMessage
     \<lparr>relay_requestId = req, relay_originator = originator, relay_targetNode = target, relay_content = RelayRtcConnect\<rparr>)"

datatype tracker_node_event =
    ConnectedToTracker string
  | TrackerDisconnected string
  | TrackerInstruction instruction string
  | StorageNodesReceived stream_id_and_partition "string list" string
  | NodeRelayReceived relay_message string
  | RtcErrorReceived string string string

definition node_onPeerConnected :: "peer_info \<Rightarrow> tracker_node_event option" where
  "node_onPeerConnected p = (if isTracker p then Some (ConnectedToTracker (peerId p)) else None)"

definition node_onPeerDisconnected :: "peer_info \<Rightarrow> tracker_node_event option" where
  "node_onPeerDisconnected p = (if isTracker p then Some (TrackerDisconnected (peerId p)) else None)"

fun node_event_of :: "tracker_message \<Rightarrow> string \<Rightarrow> tracker_node_event option" where
  "node_event_of (InstructionMessage _ i) source = Some (TrackerInstruction i source)"
| "node_event_of (StorageNodesResponseMessage _ s ns) source = Some (StorageNodesReceived s ns source)"
| "node_event_of (RelayMessage r) source = Some (NodeRelayReceived r source)"
| "node_event_of (ErrorMessage _ code target) source = Some (RtcErrorReceived target code source)"
| "node_event_of _ source = None"

definition node_onMessageReceived :: "tracker_wire \<Rightarrow> peer_info \<Rightarrow> string \<Rightarrow> thrown + tracker_node_event option" where
  "node_onMessageReceived wire p raw =
     (if isTracker p then (case decode (tw_deserialize wire) raw of
          Inl e \<Rightarrow> Inl e
        | Inr None \<Rightarrow> Inr None
        | Inr (Some m) \<Rightarrow> Inr (node_event_of m (peerId p)))
      else Inr None)"

subsection \<open>The signaller of the node\<close>

text \<open>What the WebRTC endpoint asks the signaller for is sent to the tracker that routes.\<close>

fun signaller_send :: "proto_env \<Rightarrow> string \<Rightarrow> peer_info \<Rightarrow> signal \<Rightarrow> ws_endpoint \<Rightarrow> ws_endpoint \<times> send_result" where
  "signaller_send pe req self (SignalLocalDescription router target ty description) =
     sendLocalDescription pe req router target self ty description"
| "signaller_send pe req self (SignalLocalCandidate router target candidate mid) =
     sendLocalCandidate pe req router target self candidate mid"
| "signaller_send pe req self (SignalConnectionNeeded router target) = node_sendRtcConnect pe req router target self"

text \<open>
  What the signaller calls of the WebRTC endpoint's listeners when the node hears from its
  tracker; whether the calls of the WebRTC package throw is up to the package.
\<close>

fun signaller_hears :: "bool \<Rightarrow> bool \<Rightarrow> tracker_node_event \<Rightarrow> endpoint_input option" where
  "signaller_hears t1 t2 (NodeRelayReceived r source) = (case relay_content r of
       RelayRtcOffer description \<Rightarrow> Some (RtcOffer source (relay_originator r) description t1 t2)
     | RelayRtcAnswer description \<Rightarrow> Some (RtcAnswer (relay_originator r) description t1 t2)
     | RelayRemoteCandidate candidate mid \<Rightarrow> Some (RemoteCandidateReceived (peerId (relay_originator r)) candidate mid)
     | RelayRtcConnect \<Rightarrow> Some (RtcConnect (peerId (relay_originator r)) source)
     | _ \<Rightarrow> None)"
| "signaller_hears t1 t2 (RtcErrorReceived target code source) = Some (RtcError target)"
| "signaller_hears t1 t2 _ = None"

end
