(* ===== verification/WireExample.thy ===== *)
theory WireExample
  imports TrackerProtocol "HOL-Library.Countable"
begin

section \<open>A wire format\<close>

text \<open>
  The protocol package is a parameter of the model, of which only the round trip is relied on.
  That there is such a format at all, with strings for messages, is shown here: messages are
  countable, and a message can be sent as the decimal digits of its number.
\<close>

instance stream_id_and_partition_ext :: (countable) countable
  by (rule countable_classI [of "\<lambda>r. to_nat (sp_id r, sp_partition r, stream_id_and_partition.more r)"]) simp

instance location_ext :: (countable) countable
  by (rule countable_classI [of "\<lambda>r. to_nat (latitude r, longitude r, country r, city r, location.more r)"]) simp

instance peer_type :: countable by countable_datatype

instance peer_info_ext :: (countable) countable
  by (rule countable_classI [of "\<lambda>r. to_nat (peerId r, peerType r, controlLayerVersions r, messageLayerVersions r,
      peerName r, peerLocation r, peer_info.more r)"]) simp

instance stream_state_representation_ext :: (countable) countable
  by (rule countable_classI [of "\<lambda>r. to_nat (rep_inboundNodes r, rep_outboundNodes r, rep_counter r,
      stream_state_representation.more r)"]) simp

instance status_ext :: (countable) countable
  by (rule countable_classI [of "\<lambda>r. to_nat (streams r, status_rtts r, status_location r, singleStream r, status.more r)"]) simp

instance instruction_ext :: (countable) countable
  by (rule countable_classI [of "\<lambda>r. to_nat (im_streamId r, im_partition r, im_nodeIds r, im_counter r, instruction.more r)"]) simp

instance relay_content :: countable by countable_datatype

instance relay_message_ext :: (countable) countable
  by (rule countable_classI [of "\<lambda>r. to_nat (relay_requestId r, relay_originator r, relay_targetNode r, relay_content r,
      relay_message.more r)"]) simp

instance tracker_message :: countable by countable_datatype

definition example_wire :: tracker_wire where
  "example_wire = \<lparr>tw_serialize = \<lambda>m. show_nat (to_nat m), tw_deserialize = \<lambda>s. Inr (from_nat (decimal_value s)),
     tw_unknownPeer = ''RTC_UNKNOWN_PEER''\<rparr>"

lemma example_wire_ok: "wire_ok example_wire"
  by (simp add: wire_ok_def example_wire_def decimal_value_show)

end
