(* ===== verification/Signalling.thy ===== *)
theory Signalling
  imports WireExample
begin

section \<open>Signalling from node to node\<close>

text \<open>
  What becomes of a signal of one node's WebRTC endpoint: it is sent to a tracker, which
  turns it around and sends it to the node it names, whose signaller passes it to the listener
  of that node's WebRTC endpoint.
\<close>

text \<open>What a signal of the node \<open>self\<close> should be at the other end.\<close>

fun signalled :: "peer_info \<Rightarrow> string \<Rightarrow> bool \<Rightarrow> bool \<Rightarrow> signal \<Rightarrow> endpoint_input option" where
  "signalled self tracker t1 t2 (SignalLocalDescription router target ty description) =
     (if ty = ''offer'' then Some (RtcOffer tracker self description t1 t2)
      else if ty = ''answer'' then Some (RtcAnswer self description t1 t2) else None)"
| "signalled self tracker t1 t2 (SignalLocalCandidate router target candidate mid) =
     Some (RemoteCandidateReceived (peerId self) candidate mid)"
| "signalled self tracker t1 t2 (SignalConnectionNeeded router target) = Some (RtcConnect (peerId self) tracker)"

fun signal_target :: "signal \<Rightarrow> string" where
  "signal_target (SignalLocalDescription router target ty description) = target"
| "signal_target (SignalLocalCandidate router target candidate mid) = target"
| "signal_target (SignalConnectionNeeded router target) = target"

text \<open>The tracker and the node on a message: what they emit, handled by the listeners.\<close>

definition tracker_relays :: "proto_env \<Rightarrow> peer_info \<Rightarrow> string \<Rightarrow> ws_endpoint \<Rightarrow> (ws_endpoint, relay_error) outcome" where
  "tracker_relays pe p raw w = (case server_onMessageReceived (pe_wire pe) p raw of
       Inr (Some (ServerRelayReceived r source)) \<Rightarrow> attachRtcSignalling pe r w
     | _ \<Rightarrow> (w, None))"

definition node_hears :: "tracker_wire \<Rightarrow> bool \<Rightarrow> bool \<Rightarrow> peer_info \<Rightarrow> string \<Rightarrow> endpoint_input option" where
  "node_hears wire t1 t2 p raw = (case node_onMessageReceived wire p raw of
       Inr (Some e) \<Rightarrow> signaller_hears t1 t2 e
     | _ \<Rightarrow> None)"

fun signal_router :: "signal \<Rightarrow> string" where
  "signal_router (SignalLocalDescription router target ty description) = router"
| "signal_router (SignalLocalCandidate router target candidate mid) = router"
| "signal_router (SignalConnectionNeeded router target) = router"

subsection \<open>Sending\<close>

text \<open>What the library is asked and what the caller gets, by the state of the receiver.\<close>

lemma proto_send_connected:
  assumes "resolveAddress w receiver = Inr a" "map_of (we_connections w) a = Some i"
    and "\<not> fst (pe_answer pe receiver (tw_serialize (pe_wire pe) m))"
  shows "we_calls (fst (proto_send pe receiver m w)) = we_calls w @ [CallSend i (tw_serialize (pe_wire pe) m)]"
    "snd (proto_send pe receiver m w) \<noteq> SendThrew"
  using assms by (simp_all add: proto_send_def Let_def ws_send_def socketSend_def evaluateBackPressure_def ws_call_lib_def
      ws_record_def ws_emit_def set_socket_def)

lemma proto_send_disconnected:
  assumes "resolveAddress w receiver = Inr a" "map_of (we_connections w) a = None"
  shows "we_calls (fst (proto_send pe receiver m w)) = we_calls w" "snd (proto_send pe receiver m w) \<noteq> SendThrew"
  using assms by (simp_all add: proto_send_def Let_def ws_send_def ws_record_def)

lemma proto_send_unknown: "resolveAddress w receiver = Inl e \<Longrightarrow> proto_send pe receiver m w = (w, SendThrew)"
  by (simp add: proto_send_def Let_def ws_send_def)

text \<open>What the tracker turns a request into.\<close>

fun turned_around :: "relay_content \<Rightarrow> relay_content option" where
  "turned_around (RelayLocalDescription ty description) =
     (if ty = ''answer'' then Some (RelayRtcAnswer description)
      else if ty = ''offer'' then Some (RelayRtcOffer description) else None)"
| "turned_around (RelayLocalCandidate candidate mid) = Some (RelayRemoteCandidate candidate mid)"
| "turned_around RelayRtcConnect = Some RelayRtcConnect"
| "turned_around _ = None"

lemma handle_relay_sends:
  "handle_relay pe r w = (case turned_around (relay_content r) of
     None \<Rightarrow> (w, None)
   | Some c \<Rightarrow> map_prod id Some (proto_send pe (relay_targetNode r)
       (RelayMessage \<lparr>relay_requestId = relay_requestId r, relay_originator = relay_originator r,
          relay_targetNode = relay_targetNode r, relay_content = c\<rparr>) w))"
  by (cases "relay_content r") (simp_all add: handle_relay_def handleLocalDescription_def handleLocalCandidate_def
      handleRtcConnect_def sendRtcAnswer_def sendRtcOffer_def sendRemoteCandidate_def server_sendRtcConnect_def)

lemma decode_serialized [simp]: "wire_ok wire \<Longrightarrow> decode (tw_deserialize wire) (tw_serialize wire m) = Inr (Some m)"
  by (simp add: decode_def wire_ok_def)

lemma tracker_relays_request:
  assumes "wire_ok (pe_wire pe)" "isNode p"
  shows "tracker_relays pe p (tw_serialize (pe_wire pe) (RelayMessage r)) w = attachRtcSignalling pe r w"
  using assms by (simp add: tracker_relays_def server_onMessageReceived_def)

text \<open>The request that a signal becomes.\<close>

definition signal_request :: "string \<Rightarrow> peer_info \<Rightarrow> signal \<Rightarrow> relay_message" where
  "signal_request req self x = \<lparr>relay_requestId = req, relay_originator = self, relay_targetNode = signal_target x,
     relay_content = (case x of
         SignalLocalDescription router target ty description \<Rightarrow> RelayLocalDescription ty description
       | SignalLocalCandidate router target candidate mid \<Rightarrow> RelayLocalCandidate candidate mid
       | SignalConnectionNeeded router target \<Rightarrow> RelayRtcConnect)\<rparr>"

lemma signaller_sends_request:
  "signaller_send pe req self x w = proto_send pe (signal_router x) (RelayMessage (signal_request req self x)) w"
  by (cases x) (simp_all add: signal_request_def sendLocalDescription_def sendLocalCandidate_def node_sendRtcConnect_def)

lemma heard_signal:
  assumes "signalled self tracker t1 t2 x = Some input"
  shows "\<exists>c. turned_around (relay_content (signal_request req self x)) = Some c \<and>
    signaller_hears t1 t2 (NodeRelayReceived \<lparr>relay_requestId = req, relay_originator = self,
      relay_targetNode = signal_target x, relay_content = c\<rparr> tracker) = Some input"
  using assms by (cases x) (auto simp: signal_request_def split: if_splits)

text \<open>
  C23. A signal reaches its peer. When the WebRTC endpoint of a node has an offer, an answer, a
  candidate or the wish to be connected to signal, the node is connected to the tracker and
  the tracker to the other node, then the node asks for one message to be sent, the tracker
  on that message asks for one message to be sent to the other node, and that node on that
  message calls the listener of its own WebRTC endpoint with exactly the description, the
  candidate or the request, the sender's description of itself and the tracker as router.
\<close>

theorem signal_reaches_peer:
  assumes "wire_ok (pe_wire pe)" "\<forall>receiver raw. \<not> fst (pe_answer pe receiver raw)"
    and "resolveAddress wn (signal_router x) = Inr ta" "map_of (we_connections wn) ta = Some i"
    and "resolveAddress wt (signal_target x) = Inr a" "map_of (we_connections wt) a = Some j"
    and "isNode p" "isTracker tracker" "signalled self (peerId tracker) t1 t2 x = Some input"
  shows "\<exists>raw raw'. we_calls (fst (signaller_send pe req self x wn)) = we_calls wn @ [CallSend i raw] \<and>
    snd (tracker_relays pe p raw wt) = None \<and>
    we_calls (fst (tracker_relays pe p raw wt)) = we_calls wt @ [CallSend j raw'] \<and>
    node_hears (pe_wire pe) t1 t2 tracker raw' = Some input"
proof -
  let ?r = "signal_request req self x" and ?ser = "tw_serialize (pe_wire pe)"
  obtain c where c: "turned_around (relay_content ?r) = Some c"
    "signaller_hears t1 t2 (NodeRelayReceived \<lparr>relay_requestId = req, relay_originator = self,
      relay_targetNode = signal_target x, relay_content = c\<rparr> (peerId tracker)) = Some input"
    using heard_signal [OF assms(9)] by blast
  define m where "m = RelayMessage \<lparr>relay_requestId = req, relay_originator = self, relay_targetNode = signal_target x, relay_content = c\<rparr>"
  have n: "we_calls (fst (signaller_send pe req self x wn)) = we_calls wn @ [CallSend i (?ser (RelayMessage ?r))]"
    unfolding signaller_sends_request using proto_send_connected(1) [OF assms(3,4)] assms(2) by simp
  have "handle_relay pe ?r wt = map_prod id Some (proto_send pe (signal_target x) m wt)"
    using c(1) by (simp add: handle_relay_sends m_def) (simp add: signal_request_def)
  moreover have s: "we_calls (fst (proto_send pe (signal_target x) m wt)) = we_calls wt @ [CallSend j (?ser m)]"
    "snd (proto_send pe (signal_target x) m wt) \<noteq> SendThrew"
    using proto_send_connected [OF assms(5,6)] assms(2) by simp_all
  moreover obtain w1 res where "proto_send pe (signal_target x) m wt = (w1, res)" by fastforce
  ultimately have t: "tracker_relays pe p (?ser (RelayMessage ?r)) wt = (w1, None)" "we_calls w1 = we_calls wt @ [CallSend j (?ser m)]"
    by (cases res; simp add: tracker_relays_request [OF assms(1,7)] attachRtcSignalling_def)+
  have "node_hears (pe_wire pe) t1 t2 tracker (?ser m) = Some input"
    using assms(1,8) c(2) by (simp add: node_hears_def node_onMessageReceived_def m_def)
  then show ?thesis using n t by (intro exI [of _ "?ser (RelayMessage ?r)"] exI [of _ "?ser m"]) simp
qed

text \<open>
  A peer that is gone is not reported. When a node asks the tracker to signal to a node the
  tracker has never seen, it is told so, and its WebRTC endpoint gets the error for that node;
  but when the other node is merely not connected any more, the tracker, whose peer book keeps
  its address, sends nothing to anyone, so that the asking node waits for its own timeout.
\<close>

theorem missing_peer_is_reported_only_if_unknown:
  assumes "wire_ok (pe_wire pe)" "\<forall>receiver raw. \<not> fst (pe_answer pe receiver raw)"
    and "isNode p" "isTracker tracker" "turned_around (relay_content r) \<noteq> None"
  shows "(\<forall>e a j. resolveAddress wt (relay_targetNode r) = Inl e \<longrightarrow>
       resolveAddress wt (peerId (relay_originator r)) = Inr a \<longrightarrow> map_of (we_connections wt) a = Some j \<longrightarrow>
       (\<exists>raw w'. tracker_relays pe p (tw_serialize (pe_wire pe) (RelayMessage r)) wt = (w', None) \<and>
          we_calls w' = we_calls wt @ [CallSend j raw] \<and>
          node_hears (pe_wire pe) t1 t2 tracker raw = Some (RtcError (relay_targetNode r)))) \<and>
    (\<forall>a. resolveAddress wt (relay_targetNode r) = Inr a \<longrightarrow> map_of (we_connections wt) a = None \<longrightarrow>
       (\<exists>w'. tracker_relays pe p (tw_serialize (pe_wire pe) (RelayMessage r)) wt = (w', None) \<and> we_calls w' = we_calls wt))"
proof (intro conjI allI impI)
  let ?ser = "tw_serialize (pe_wire pe)"
  obtain c where c: "turned_around (relay_content r) = Some c" using assms(5) by blast
  note relay = tracker_relays_request [OF assms(1,3)] attachRtcSignalling_def handle_relay_sends c
  fix e a j
  assume e: "resolveAddress wt (relay_targetNode r) = Inl e"
    and a: "resolveAddress wt (peerId (relay_originator r)) = Inr a" "map_of (we_connections wt) a = Some j"
  define m where "m = ErrorMessage (relay_requestId r) (tw_unknownPeer (pe_wire pe)) (relay_targetNode r)"
  obtain w' res where w': "proto_send pe (peerId (relay_originator r)) m wt = (w', res)" by fastforce
  have s: "we_calls w' = we_calls wt @ [CallSend j (?ser m)]" "res \<noteq> SendThrew"
    using proto_send_connected [OF a, of pe m] assms(2) w' by simp_all
  have "tracker_relays pe p (?ser (RelayMessage r)) wt = (w', None)"
    using s(2) w' by (cases res) (simp_all add: relay proto_send_unknown [OF e] sendUnknownPeerRtcError_def m_def)
  moreover have "node_hears (pe_wire pe) t1 t2 tracker (?ser m) = Some (RtcError (relay_targetNode r))"
    using assms(1,4) by (simp add: node_hears_def node_onMessageReceived_def m_def)
  ultimately show "\<exists>raw w'. tracker_relays pe p (?ser (RelayMessage r)) wt = (w', None) \<and>
      we_calls w' = we_calls wt @ [CallSend j raw] \<and>
      node_hears (pe_wire pe) t1 t2 tracker raw = Some (RtcError (relay_targetNode r))" using s(1) by blast
next
  let ?ser = "tw_serialize (pe_wire pe)"
  obtain c where c: "turned_around (relay_content r) = Some c" using assms(5) by blast
  fix a
  assume a: "resolveAddress wt (relay_targetNode r) = Inr a" "map_of (we_connections wt) a = None"
  define m where "m = RelayMessage \<lparr>relay_requestId = relay_requestId r, relay_originator = relay_originator r,
    relay_targetNode = relay_targetNode r, relay_content = c\<rparr>"
  obtain w' res where w': "proto_send pe (relay_targetNode r) m wt = (w', res)" by fastforce
  have s: "we_calls w' = we_calls wt" "res \<noteq> SendThrew"
    using proto_send_disconnected [OF a, of pe m] w' by simp_all
  have "tracker_relays pe p (?ser (RelayMessage r)) wt = (w', None)"
    using s(2) w' by (cases res) (simp_all add: tracker_relays_request [OF assms(1,3)] attachRtcSignalling_def handle_relay_sends c m_def)
  then show "\<exists>w'. tracker_relays pe p (?ser (RelayMessage r)) wt = (w', None) \<and> we_calls w' = we_calls wt" using s(1) by blast
qed

subsection \<open>An example\<close>

definition example_proto_env :: proto_env where
  "example_proto_env = \<lparr>pe_ws = example_ws_env, pe_wire = example_wire, pe_answer = \<lambda>_ _. (False, 0)\<rparr>"

lemma one_connection:
  assumes "a \<noteq> []" "pid \<noteq> []"
  shows "resolveAddress (ws_run example_ws_env [Incoming a (example_headers pid)]) pid = Inr a \<and>
    map_of (we_connections (ws_run example_ws_env [Incoming a (example_headers pid)])) a = Some 0 \<and>
    (q \<noteq> pid \<longrightarrow> (\<exists>e. resolveAddress (ws_run example_ws_env [Incoming a (example_headers pid)]) q = Inl e))"
proof -
  obtain p where "peerId p = pid"
    "we_book (ws_run example_ws_env [Incoming a (example_headers pid)]) = book_add [] a p"
    "map_of (we_connections (ws_run example_ws_env [Incoming a (example_headers pid)])) a = Some 0"
    using incoming_connects [OF assms, of new_ws_endpoint example_ws_env]
    by (auto simp: ws_run_def ws_step_def isConnected_def new_ws_endpoint_def)
  then show ?thesis using assms by (simp add: resolveAddress_def getAddress_def book_add_def)
qed

definition example_tracker_peer :: peer_info where
  "example_tracker_peer = example_peer\<lparr>peerId := ''t'', peerType := TrackerPeer\<rparr>"

theorem signal_reaches_peer_witness:
  "\<exists>raw raw'. we_calls (fst (signaller_send example_proto_env ''q'' example_peer (SignalLocalCandidate ''t'' ''n'' ''c'' ''m'')
       (ws_run example_ws_env [Incoming ''ws://t'' (example_headers ''t'')]))) =
     we_calls (ws_run example_ws_env [Incoming ''ws://t'' (example_headers ''t'')]) @ [CallSend 0 raw] \<and>
   node_hears example_wire False False example_tracker_peer raw' = Some (RemoteCandidateReceived ''p'' ''c'' ''m'')"
proof -
  have e: "pe_wire example_proto_env = example_wire" "\<forall>r m. \<not> fst (pe_answer example_proto_env r m)"
    by (simp_all add: example_proto_env_def)
  show ?thesis
    using signal_reaches_peer [of example_proto_env "ws_run example_ws_env [Incoming ''ws://t'' (example_headers ''t'')]"
        "SignalLocalCandidate ''t'' ''n'' ''c'' ''m''" "''ws://t''" 0
        "ws_run example_ws_env [Incoming ''ws://a'' (example_headers ''n'')]" "''ws://a''" 0 example_peer example_tracker_peer
        example_peer False False "RemoteCandidateReceived ''p'' ''c'' ''m''" "''q''"]
      one_connection [of "''ws://t''" "''t''"] one_connection [of "''ws://a''" "''n''"] example_wire_ok e
    by (auto simp: example_tracker_peer_def example_peer_def isNode_def isTracker_def)
qed

theorem missing_peer_is_reported_only_if_unknown_witness:
  "\<exists>raw. node_hears example_wire False False example_tracker_peer raw = Some (RtcError ''b'')"
proof -
  define r where "r = \<lparr>relay_requestId = ''q'', relay_originator = example_peer\<lparr>peerId := ''n''\<rparr>, relay_targetNode = ''b'',
    relay_content = RelayRtcConnect\<rparr>"
  have e: "pe_wire example_proto_env = example_wire" "\<forall>r m. \<not> fst (pe_answer example_proto_env r m)"
    by (simp_all add: example_proto_env_def)
  obtain e where "resolveAddress (ws_run example_ws_env [Incoming ''ws://a'' (example_headers ''n'')]) ''b'' = Inl e"
    using one_connection [of "''ws://a''" "''n''" "''b''"] by auto
  moreover have "isNode example_peer" "isTracker example_tracker_peer" "turned_around (relay_content r) \<noteq> None"
    by (simp_all add: r_def example_tracker_peer_def example_peer_def isNode_def isTracker_def)
  ultimately show ?thesis
    using missing_peer_is_reported_only_if_unknown [of example_proto_env example_peer example_tracker_peer r
        "ws_run example_ws_env [Incoming ''ws://a'' (example_headers ''n'')]" False False]
      one_connection [of "''ws://a''" "''n''"] example_wire_ok e
    by (auto simp: r_def)
qed

end
