(* ===== verification/TrackerProcess.thy ===== *)
theory TrackerProcess
  imports Signalling
begin

section \<open>The tracker as a process\<close>

text \<open>
  The tracker, its server and its websocket endpoint put together the way
  \<open>src/src/composition.ts\<close> (\<open>startTracker\<close>) and the constructors of \<open>TrackerServer\<close> and \<open>Tracker\<close>
  do: the endpoint's events go to the server, the server's to the tracker and to the
  signalling, and what those send goes back to the endpoint.

  The server listens on uWebSockets, whose \<open>send\<close> throws on a socket that has been closed; the
  close handler of a socket takes it out of the registry, and the endpoint sends to registered
  sockets only. So the sends of the library are taken not to throw here, and what a send emits
  is back pressure only, which the server does not listen to. (Were it to throw, \<open>socketSend\<close> would
  close the socket and the tracker be told of the loss in the middle of its own handler; the
  endpoint alone is modelled with sends that throw, in \<open>WsEndpoint\<close>.) The events of one step of the endpoint
  are handled at its end, in their order. A handler that throws leaves what it did; the errors
  of a run are collected in \<open>tp_errors\<close>. The library calls only those handlers that belong to
  the server, since a tracker opens no connection.
\<close>

record process_env =
  pr_ws :: ws_env
  pr_wire :: tracker_wire
  pr_buffered :: "string \<Rightarrow> string \<Rightarrow> nat"
  pr_uuid :: "nat \<Rightarrow> string"
  pr_lookup :: "string \<Rightarrow> geo_record option"

datatype process_error =
    ProtocolThrew thrown
  | NoPeerInfo
  | RelayThrew relay_error
  | TrackerThrew tracker_error
  | ResponseThrew string

record 'r tracker_process =
  tp_ws :: ws_endpoint
  tp_tracker :: "'r tracker"
  tp_errors :: "process_error list"

definition new_process :: "nat \<Rightarrow> 'r \<Rightarrow> 'r tracker_process" where
  "new_process k r = \<lparr>tp_ws = new_ws_endpoint, tp_tracker = new_tracker k r, tp_errors = []\<rparr>"

definition process_proto :: "process_env \<Rightarrow> proto_env" where
  "process_proto env = \<lparr>pe_ws = pr_ws env, pe_wire = pr_wire env, pe_answer = \<lambda>receiver raw. (False, pr_buffered env receiver raw)\<rparr>"

definition process_surroundings ::
    "process_env \<Rightarrow> 'r shuffler \<Rightarrow> 'r picker \<Rightarrow> ws_endpoint \<Rightarrow> 'r surroundings" where
  "process_surroundings env shuffle pick w = \<lparr>env_shuffle = shuffle, env_pick = pick,
     env_resolve = \<lambda>n. (case resolveAddress w n of Inl _ \<Rightarrow> None | Inr a \<Rightarrow> Some a), env_lookup = pr_lookup env\<rparr>"

definition fails :: "process_error \<Rightarrow> 'r tracker_process \<Rightarrow> 'r tracker_process" where
  "fails e s = s\<lparr>tp_errors := tp_errors s @ [e]\<rparr>"

text \<open>
  What the tracker sends. \<open>sendInstruction\<close> is awaited inside a \<open>try\<close>; the \<open>catch\<close> of the
  response is that of its promise, which a \<open>send\<close> that throws does not return.
\<close>

definition perform :: "process_env \<Rightarrow> 'r tracker_process \<Rightarrow> nat \<times> tracker_effect \<Rightarrow> 'r tracker_process" where
  "perform env s x = (case snd x of
       SendInstruction n st ns c \<Rightarrow>
         s\<lparr>tp_ws := fst (sendInstruction (process_proto env) (pr_uuid env (fst x)) n st ns c (tp_ws s))\<rparr>
     | SendStorageNodesResponse n st ns \<Rightarrow>
         (case sendStorageNodesResponse (process_proto env) n st ns (tp_ws s) of
            (w, SendThrew) \<Rightarrow> fails (ResponseThrew n) (s\<lparr>tp_ws := w\<rparr>)
          | (w, _) \<Rightarrow> s\<lparr>tp_ws := w\<rparr>)
     | _ \<Rightarrow> s)"

definition run_tracker ::
    "process_env \<Rightarrow> 'r shuffler \<Rightarrow> 'r picker \<Rightarrow> tracker_event \<Rightarrow> 'r tracker_process \<Rightarrow> 'r tracker_process" where
  "run_tracker env shuffle pick e s =
     (case tracker_handle (process_surroundings env shuffle pick (tp_ws s)) (tp_tracker s) e of
        (tr, err) \<Rightarrow>
          let k = length (effects (tp_tracker s));
              s1 = foldl (perform env) (s\<lparr>tp_tracker := tr\<rparr>) (List.enumerate k (drop k (effects tr)))
          in (case err of None \<Rightarrow> s1 | Some e \<Rightarrow> fails (TrackerThrew e) s1))"

definition on_server_event ::
    "process_env \<Rightarrow> 'r shuffler \<Rightarrow> 'r picker \<Rightarrow> server_event \<Rightarrow> 'r tracker_process \<Rightarrow> 'r tracker_process" where
  "on_server_event env shuffle pick e s = (case e of
       ServerNodeConnected n storage \<Rightarrow> run_tracker env shuffle pick (OnNodeConnected n storage) s
     | ServerNodeDisconnected n storage \<Rightarrow> run_tracker env shuffle pick (OnNodeDisconnected n) s
     | NodeStatusReceived st n \<Rightarrow> run_tracker env shuffle pick (OnNodeStatus st n) s
     | StorageNodesRequested st n \<Rightarrow> run_tracker env shuffle pick (OnStorageNodesRequest st n) s
     | ServerRelayReceived r n \<Rightarrow>
         (case attachRtcSignalling (process_proto env) r (tp_ws s) of
            (w, None) \<Rightarrow> s\<lparr>tp_ws := w\<rparr>
          | (w, Some err) \<Rightarrow> fails (RelayThrew err) (s\<lparr>tp_ws := w\<rparr>)))"

definition on_ws_event ::
    "process_env \<Rightarrow> 'r shuffler \<Rightarrow> 'r picker \<Rightarrow> 'r tracker_process \<Rightarrow> ws_event \<Rightarrow> 'r tracker_process" where
  "on_ws_event env shuffle pick s e =
     (let go = (\<lambda>x. case x of None \<Rightarrow> s | Some e \<Rightarrow> on_server_event env shuffle pick e s) in
      case e of
        WsPeerConnected p \<Rightarrow> go (server_onPeerConnected p)
      | WsPeerDisconnected None _ \<Rightarrow> fails NoPeerInfo s
      | WsPeerDisconnected (Some p) _ \<Rightarrow> go (server_onPeerDisconnected p)
      | WsMessageReceived None _ \<Rightarrow> fails NoPeerInfo s
      | WsMessageReceived (Some p) raw \<Rightarrow>
          (case server_onMessageReceived (pr_wire env) p raw of
             Inl t \<Rightarrow> fails (ProtocolThrew t) s
           | Inr x \<Rightarrow> go x)
      | _ \<Rightarrow> s)"

text \<open>The inputs of a server.\<close>

fun server_input :: "ws_input \<Rightarrow> bool" where
  "server_input (Incoming a h) = True"
| "server_input (ServerMessage i m) = True"
| "server_input (ServerDrain i b) = True"
| "server_input (ServerClose i r) = True"
| "server_input (ServerPong i t) = True"
| "server_input (PingInterval t throws) = True"
| "server_input WsStop = True"
| "server_input _ = False"

text \<open>
  An input of the server settles no promise, so no callback is queued after its handler
  (\<open>server_reactions\<close>), and the events of the endpoint are those of the handler.
\<close>

definition process_step ::
    "process_env \<Rightarrow> 'r shuffler \<Rightarrow> 'r picker \<Rightarrow> 'r tracker_process \<Rightarrow> ws_input \<Rightarrow> 'r tracker_process" where
  "process_step env shuffle pick s x =
     (let w = ws_handle (pr_ws env) (tp_ws s) x
      in foldl (on_ws_event env shuffle pick) (s\<lparr>tp_ws := w\<rparr>) (drop (length (we_events (tp_ws s))) (we_events w)))"

subsection \<open>What the events of the endpoint carry\<close>

definition carries_peer :: "ws_event \<Rightarrow> bool" where
  "carries_peer e \<longleftrightarrow> (case e of WsPeerDisconnected None _ \<Rightarrow> False | WsMessageReceived _ _ \<Rightarrow> False | _ \<Rightarrow> True)"

text \<open>A step from \<open>w\<close> to \<open>v\<close> that emits such events only.\<close>

definition speaks :: "ws_endpoint \<Rightarrow> ws_endpoint \<Rightarrow> bool" where
  "speaks w v \<longleftrightarrow> (\<exists>es. we_events v = we_events w @ es \<and> list_all carries_peer es)"

lemma speaks_refl: "speaks w w" by (simp add: speaks_def)

lemma speaks_trans: "speaks u v \<Longrightarrow> speaks v w \<Longrightarrow> speaks u w"
  unfolding speaks_def by force

lemma speaks_logs:
  "speaks w (ws_record ms w)" "speaks w (ws_call_lib c w)" "speaks w (set_socket i f w)"
  "carries_peer e \<Longrightarrow> speaks w (ws_emit e w)"
  by (simp_all add: speaks_def ws_record_def ws_call_lib_def set_socket_def ws_emit_def)

lemma speaks_onClose: "has_key (we_book w) a \<Longrightarrow> speaks w (onClose a (getPeerInfo (we_book w) a) r w)"
  by (auto simp: onClose_def speaks_def ws_record_def ws_emit_def carries_peer_def getPeerInfo_def)

lemma known_address: "ws_ok w \<Longrightarrow> isConnected w a \<Longrightarrow> has_key (we_book w) a"
  using ws_okD(4) [of w a] by (auto simp: isConnected_def)

lemma speaks_server_close: "ws_ok w \<Longrightarrow> speaks w (server_close i r w)"
  using known_address [of w] speaks_trans [OF speaks_logs(4) speaks_onClose, of "WsClosed i r" w]
  by (auto simp: server_close_def speaks_refl carries_peer_def ws_emit_def split: option.split)

lemma speaks_closeWs: "ws_ok w \<Longrightarrow> speaks w (closeWs env i r w)"
  using speaks_trans [OF speaks_logs(2) speaks_server_close [OF fewer_ok [OF fewer_logs(3)]]] speaks_logs(2)
  by (simp add: closeWs_def Let_def)

lemma speaks_drop: "ws_ok w \<Longrightarrow> speaks w (drop_incoming env i w)"
  using speaks_trans [OF speaks_logs(2) speaks_server_close [OF fewer_ok [OF fewer_logs(3)]]] speaks_logs(2)
  by (simp add: drop_incoming_def Let_def split: option.split)

lemma speaks_terminate: "ws_ok w \<Longrightarrow> speaks w (terminateWs env i w)"
  using speaks_drop speaks_logs(2) by (simp add: terminateWs_def)

lemma speaks_ping:
  assumes ok: "ws_ok w" and k: "has_key (we_book w) a"
  shows "speaks w (ping_address env now throws w a)"
proof (cases "map_of (we_connections w) a")
  case None
  then show ?thesis using speaks_onClose [OF k] by (simp add: ping_address_def)
next
  case (Some i)
  let ?u = "set_socket i (\<lambda>s. s\<lparr>respondedPong := Some False, sock_rttStart := Some now\<rparr>) w"
  let ?v = "ws_call_lib (CallPing i) ?u"
  obtain s where s: "map_of (we_sockets w) i = Some s" using connected_socket [OF ok Some] by blast
  have f: "fewer w ?v" by (rule fewer_trans [OF fewer_set [OF s] fewer_logs(3)]) (simp add: same_socket_def)
  have v: "speaks w ?v" by (rule speaks_trans [OF speaks_logs(3) speaks_logs(2)])
  have close: "speaks u (onClose a (getPeerInfo (we_book (terminateWs env i u)) a) DEAD_CONNECTION (terminateWs env i u))"
    if u: "ws_ok u" "has_key (we_book u) a" for u
    using speaks_trans [OF speaks_terminate [OF u(1)] speaks_onClose, of env i a] u(2) fewerD(1) [OF fewer_terminate] by simp
  show ?thesis
    using close [OF ok k] speaks_trans [OF v close [OF fewer_ok [OF f ok]]] k fewerD(1) [OF f] v Some
    by (simp add: ping_address_def Let_def)
qed

lemma speaks_pings:
  assumes ok: "ws_ok w" shows "speaks w (pingConnections env now throws w)"
proof -
  have "speaks v (foldl (ping_address env now throws) v as)" if "ws_ok v" "\<forall>a \<in> set as. has_key (we_book v) a" for v as
    using that
  proof (induction as arbitrary: v)
    case (Cons a as)
    have f: "fewer v (ping_address env now throws v a)" by (rule fewer_ping [OF Cons.prems(1)])
    have "speaks (ping_address env now throws v a) (foldl (ping_address env now throws) (ping_address env now throws v a) as)"
      using Cons.IH [OF fewer_ok [OF f Cons.prems(1)]] Cons.prems(2) fewerD(1) [OF f] by simp
    then show ?case using speaks_trans [OF speaks_ping [OF Cons.prems(1), of a]] Cons.prems(2) by simp
  qed (simp add: speaks_refl)
  moreover have "\<forall>a \<in> set (keys_of (we_connections w)). has_key (we_book w) a"
  proof
    fix a assume "a \<in> set (keys_of (we_connections w))"
    then have "isConnected w a" unfolding isConnected_def has_key_iff by simp
    then show "has_key (we_book w) a" by (rule known_address [OF ok])
  qed
  ultimately show ?thesis using ok unfolding pingConnections_def by blast
qed

lemma speaks_stop: assumes ok: "ws_ok w" shows "speaks w (ws_stop env w)"
proof -
  have "speaks v (foldl (\<lambda>w i. closeWs env i GRACEFUL_SHUTDOWN w) v ks)" if "ws_ok v" for v ks
    using that
  proof (induction ks arbitrary: v)
    case (Cons k ks)
    let ?v = "closeWs env k GRACEFUL_SHUTDOWN v"
    have "speaks ?v (foldl (\<lambda>w i. closeWs env i GRACEFUL_SHUTDOWN w) ?v ks)"
      by (rule Cons.IH [OF fewer_ok [OF fewer_closeWs Cons.prems]])
    then show ?case using speaks_trans [OF speaks_closeWs [OF Cons.prems]] by simp
  qed (simp add: speaks_refl)
  then show ?thesis using ok by (simp add: ws_stop_def)
qed

lemma speaks_pressure: "speaks w (evaluateBackPressure b i w)"
  using speaks_trans [OF speaks_logs(4) speaks_logs(3)]
  by (simp add: evaluateBackPressure_def Let_def speaks_refl carries_peer_def)

lemma speaks_pong: "speaks w (server_pong now i w)"
  using speaks_logs(3) by (simp add: server_pong_def on_pong_def speaks_refl split: option.split)

lemma speaks_new: assumes "ws_ok w" shows "speaks w (fst (onNewConnection env i a p w))"
proof -
  have "ws_ok (ws_record ms w)" for ms by (rule fewer_ok [OF fewer_logs(1) assms])
  then have "speaks w (closeWs env i r (ws_record ms w))" for r ms
    using speaks_trans [OF speaks_logs(1) speaks_closeWs] by blast
  moreover have "speaks w (fst (let w1 = set_socket i f w;
      w2 = ws_record [(''open'', 1)] (w1\<lparr>we_book := book_add (we_book w1) a p, we_connections := AList.update a i (we_connections w1)\<rparr>)
      in (ws_emit (WsPeerConnected p) w2, True)))" for f
    by (simp add: Let_def speaks_def ws_record_def ws_emit_def set_socket_def carries_peer_def)
  ultimately show ?thesis unfolding onNewConnection_def by (cases "isConnected w a \<and> we_localeCompare env (we_address env) a = 1") simp_all
qed

text \<open>Incoming connections, and what they add to the book.\<close>

lemma incoming_parts:
  assumes ok: "ws_ok w" and e: "map_of (we_book w) [] = None"
  shows "speaks w (onIncomingConnection env a h w)" "map_of (we_book (onIncomingConnection env a h w)) [] = None"
proof -
  define i where "i = we_next w"
  define s where "s = (new_socket False a)\<lparr>sock_address := Some a\<rparr>"
  define v where "v = set_socket i (\<lambda>_. s) (w\<lparr>we_next := i + 1\<rparr>)"
  have v: "ws_ok v" unfolding v_def by (rule open_socket_ok [OF ok i_def]) (simp_all add: s_def new_socket_def)
  have r: "ws_ok (ws_record ms v)" for ms by (rule fewer_ok [OF fewer_logs(1) v])
  have w: "speaks w v" by (simp add: speaks_def v_def set_socket_def)
  have refuse: "speaks w (closeWs env i t (ws_record ms v))" "speaks w (drop_incoming env i (ws_record ms v))" for t ms
    using speaks_trans [OF w speaks_trans [OF speaks_logs(1) speaks_closeWs [OF r]]]
      speaks_trans [OF w speaks_trans [OF speaks_logs(1) speaks_drop [OF r]]] by blast+
  have book: "we_book (closeWs env i t (ws_record ms v)) = we_book w" "we_book (drop_incoming env i (ws_record ms v)) = we_book w" for t ms
    using fewerD(1) [OF fewer_trans [OF fewer_logs(1) fewer_closeWs]] fewerD(1) [OF fewer_trans [OF fewer_logs(1) fewer_drop]]
    by (simp_all add: v_def)
  have new: "map_of (we_book (fst (onNewConnection env i a p v))) [] = None" if "a \<noteq> []" for p
    using that e book(1) by (simp add: onNewConnection_def Let_def v_def book_add_def ws_emit_def ws_record_def)
  show "speaks w (onIncomingConnection env a h w)"
    using refuse speaks_trans [OF w speaks_new [OF v]]
    unfolding onIncomingConnection_def Let_def i_def [symmetric] s_def [symmetric] v_def [symmetric]
    by (simp split: sum.split)
  show "map_of (we_book (onIncomingConnection env a h w)) [] = None"
    using e book new
    unfolding onIncomingConnection_def Let_def i_def [symmetric] s_def [symmetric] v_def [symmetric]
    by (simp split: sum.split)
qed

text \<open>All the inputs of a server but messages.\<close>

lemma server_step_speaks:
  assumes ok: "ws_ok w" and e: "map_of (we_book w) [] = None" and x: "server_input x" "\<And>i m. x \<noteq> ServerMessage i m"
  shows "speaks w (ws_handle env w x)" "map_of (we_book (ws_handle env w x)) [] = None"
proof -
  have "speaks w (ws_handle env w x) \<and> map_of (we_book (ws_handle env w x)) [] = None"
  proof (cases x)
    case (Incoming a h) then show ?thesis using incoming_parts [OF ok e] by simp
  next
    case (ServerDrain i b)
    have "we_book (evaluateBackPressure b i w) = we_book w" by (simp add: evaluateBackPressure_def Let_def ws_emit_def)
    then show ?thesis using ServerDrain e speaks_pressure speaks_refl by simp
  next
    case (ServerClose i r)
    then show ?thesis using speaks_server_close [OF ok] speaks_refl fewerD(1) [OF fewer_server_close] e by simp
  next
    case (ServerPong i t)
    have "we_book (server_pong t i w) = we_book w" by (simp add: server_pong_def on_pong_def split: option.split)
    then show ?thesis using ServerPong e speaks_pong speaks_refl by simp
  next
    case (PingInterval t throws)
    then show ?thesis using speaks_pings [OF ok] fewerD(1) [OF fewer_pings [OF ok]] e by simp
  next
    case WsStop then show ?thesis using speaks_stop [OF ok] fewerD(1) [OF fewer_stop] e by simp
  qed (use x in simp_all)
  then show "speaks w (ws_handle env w x)" "map_of (we_book (ws_handle env w x)) [] = None" by simp_all
qed

text \<open>No input of a server settles a promise of \<open>connect\<close>.\<close>

lemma server_reactions:
  assumes ok: "ws_ok w" and x: "server_input x"
  shows "we_reactions (ws_handle env w x) = we_reactions w" "we_promises (ws_handle env w x) = we_promises w"
proof -
  have "we_reactions (ws_handle env w x) = we_reactions w \<and> we_promises (ws_handle env w x) = we_promises w"
  proof (cases x)
    case (Incoming a h)
    define v where "v = set_socket (we_next w) (\<lambda>_. (new_socket False a)\<lparr>sock_address := Some a\<rparr>) (w\<lparr>we_next := we_next w + 1\<rparr>)"
    have c: "we_reactions (closeWs env i r (ws_record ms v)) = we_reactions w \<and> we_promises (closeWs env i r (ws_record ms v)) = we_promises w"
      for i r ms
    proof -
      have "fewer v (closeWs env i r (ws_record ms v))" by (rule fewer_trans [OF fewer_logs(1) fewer_closeWs])
      from fewerD(3,8) [OF this] show ?thesis by (simp add: v_def)
    qed
    have d: "we_reactions (drop_incoming env i (ws_record ms v)) = we_reactions w \<and> we_promises (drop_incoming env i (ws_record ms v)) = we_promises w"
      for i ms
    proof -
      have "fewer v (drop_incoming env i (ws_record ms v))" by (rule fewer_trans [OF fewer_logs(1) fewer_drop])
      from fewerD(3,8) [OF this] show ?thesis by (simp add: v_def)
    qed
    have n: "we_reactions (fst (onNewConnection env i a p v)) = we_reactions w \<and> we_promises (fst (onNewConnection env i a p v)) = we_promises w"
      for i p using c by (simp add: onNewConnection_def Let_def ws_emit_def) (simp add: ws_record_def v_def)
    show ?thesis
      using c d n unfolding Incoming ws_handle.simps onIncomingConnection_def Let_def v_def [symmetric]
      by (simp split: sum.split)
  next
    case (ServerPong i t)
    then show ?thesis by (simp add: server_pong_def on_pong_def split: option.split)
  next
    case (ServerDrain i b)
    then show ?thesis by (simp add: evaluateBackPressure_def Let_def ws_emit_def)
  next
    case (ServerMessage i m)
    then show ?thesis by (simp add: server_message_def onReceive_def ws_emit_def split: option.split)
  next
    case (ServerClose i r)
    then show ?thesis using fewerD(3,8) [OF fewer_server_close] by simp
  next
    case (PingInterval t throws)
    then show ?thesis using fewerD(3,8) [OF fewer_pings [OF ok]] by simp
  next
    case WsStop
    then show ?thesis using fewerD(3,8) [OF fewer_stop] by simp
  qed (use x in simp_all)
  then show "we_reactions (ws_handle env w x) = we_reactions w" "we_promises (ws_handle env w x) = we_promises w" by simp_all
qed

end
