(* ===== verification/ProcessRuns.thy ===== *)
theory ProcessRuns
  imports TrackerProcess
begin

section \<open>Runs of the tracker process\<close>

text \<open>
  What the process of \<open>TrackerProcess\<close> promises over runs: its parts stay well formed, and the
  only handlers that can throw are the one of relay messages, for a forged originator, and the
  listener of messages, when \<open>decode\<close> throws again what the protocol package threw.
\<close>

subsection \<open>Which handler answers\<close>

definition is_response :: "tracker_effect \<Rightarrow> bool" where
  "is_response e \<longleftrightarrow> (case e of SendStorageNodesResponse _ _ _ \<Rightarrow> True | _ \<Rightarrow> False)"

definition quiet :: "'r tracker \<Rightarrow> 'r tracker \<Rightarrow> bool" where
  "quiet tr tr' \<longleftrightarrow> (\<exists>es. effects tr' = effects tr @ es \<and> list_all (\<lambda>e. \<not> is_response e) es)"



lemma quiet_does: "\<not> is_response e \<Longrightarrow> quiet tr (does e tr)" by (simp add: quiet_def)















subsection \<open>The invariant of the process\<close>









lemma perform_tracker [simp]: "tp_tracker (perform env s x) = tp_tracker s"
  by (simp add: perform_def fails_def split: tracker_effect.split prod.split send_result.split)



















text \<open>
  A relay message with a forged originator makes the tracker throw. The tracker does not
  check that the sender of a relay message is its originator: when a connected node asks it to
  signal to a node it does not know, in the name of a node it does not know either, reporting
  the error throws in turn, out of the listener that receives the socket's messages.
\<close>

theorem forged_originator_throws:
  assumes "wire_ok (pr_wire env)"
    and "map_of (we_connections (tp_ws s)) a = Some i" "map_of (we_sockets (tp_ws s)) i = Some k"
    and "\<not> outgoing k" "sock_address k = Some a" "sock_peer k = Some p" "isNode p"
    and "resolveAddress (tp_ws s) (relay_targetNode q) = Inl e" "resolveAddress (tp_ws s) (peerId (relay_originator q)) = Inl e'"
    and "turned_around (relay_content q) \<noteq> None"
  shows "tp_errors (process_step env shuffle pick s (ServerMessage i (tw_serialize (pr_wire env) (RelayMessage q)))) =
    tp_errors s @ [RelayThrew (PeerUnreachable (peerId (relay_originator q)))]"
proof -
  let ?raw = "tw_serialize (pr_wire env) (RelayMessage q)"
  let ?w = "ws_emit (WsMessageReceived (Some p) ?raw) (tp_ws s)"
  have w: "ws_handle (pr_ws env) (tp_ws s) (ServerMessage i ?raw) = ?w"
    using assms(2-6) by (simp add: exists_socket_def server_message_def isConnected_def onReceive_def)
  have m: "server_onMessageReceived (pr_wire env) p ?raw = Inr (Some (ServerRelayReceived q (peerId p)))"
    using assms(1,7) by (simp add: server_onMessageReceived_def)
  have u: "resolveAddress ?w (relay_targetNode q) = Inl e" "resolveAddress ?w (peerId (relay_originator q)) = Inl e'"
    using assms(8,9) by (simp_all add: resolveAddress_def ws_emit_def)
  obtain c where c: "turned_around (relay_content q) = Some c" using assms(10) by blast
  have "attachRtcSignalling (process_proto env) q ?w = (?w, Some (PeerUnreachable (peerId (relay_originator q))))"
    by (simp add: attachRtcSignalling_def handle_relay_sends c sendUnknownPeerRtcError_def proto_send_unknown [OF u(1)]
        proto_send_unknown [OF u(2)])
  then show ?thesis
    unfolding process_step_def Let_def w by (simp add: ws_emit_def on_ws_event_def m on_server_event_def fails_def)
qed

definition example_process_env :: process_env where
  "example_process_env = \<lparr>pr_ws = example_ws_env, pr_wire = example_wire, pr_buffered = \<lambda>_ _. 0, pr_uuid = show_nat,
     pr_lookup = \<lambda>_. None\<rparr>"

lemma example_process_connected:
  obtains p w where "process_step example_process_env shuffle pick (new_process 2 r) (Incoming ''ws://a'' (example_headers ''n'')) =
      \<lparr>tp_ws = w, tp_tracker = onNodeConnected ''n'' False (new_tracker 2 r), tp_errors = []\<rparr>"
    "we_connections w = [(''ws://a'', 0)]" "we_book w = [(''ws://a'', p)]" "peerId p = ''n''" "isNode p"
    "map_of (we_sockets w) 0 = Some ((new_socket False ''ws://a'')\<lparr>sock_address := Some ''ws://a'', sock_peer := Some p\<rparr>)"
proof -
  obtain p where p: "peer_of_headers (example_headers ''n'') = Inr p" using example_peer_of_headers [of "''n''"] by auto
  then have n: "peerId p = ''n''" "isNode p" "\<not> isStorage p"
    by (auto simp: peer_of_headers_def example_headers_def new_peer_info_def peer_types_def peer_type_name_def isNode_def isStorage_def)
  define w where "w = onIncomingConnection example_ws_env ''ws://a'' (example_headers ''n'') new_ws_endpoint"
  have w: "we_connections w = [(''ws://a'', 0)]" "we_book w = [(''ws://a'', p)]" "we_events w = [WsPeerConnected p]"
    "map_of (we_sockets w) 0 = Some ((new_socket False ''ws://a'')\<lparr>sock_address := Some ''ws://a'', sock_peer := Some p\<rparr>)"
    using p by (simp_all add: w_def onIncomingConnection_def Let_def new_ws_endpoint_def isConnected_def book_add_def
        onNewConnection_def ws_emit_def ws_record_def set_socket_def socket_at_def new_socket_def)
      (simp_all add: example_headers_def)
  have "process_step example_process_env shuffle pick (new_process 2 r) (Incoming ''ws://a'' (example_headers ''n'')) =
      \<lparr>tp_ws = w, tp_tracker = onNodeConnected ''n'' False (new_tracker 2 r), tp_errors = []\<rparr>"
  proof -
    have f: "tp_ws (new_process 2 r) = new_ws_endpoint" "tp_tracker (new_process 2 r) = new_tracker 2 r"
      "tp_errors (new_process 2 r) = []" "effects (new_tracker 2 r) = []" "we_events new_ws_endpoint = []"
      by (simp_all add: new_process_def new_tracker_def new_ws_endpoint_def)
    have "ws_handle (pr_ws example_process_env) new_ws_endpoint (Incoming ''ws://a'' (example_headers ''n'')) = w"
      by (simp add: w_def example_process_env_def)
    then have "process_step example_process_env shuffle pick (new_process 2 r) (Incoming ''ws://a'' (example_headers ''n'')) =
        on_ws_event example_process_env shuffle pick ((new_process 2 r)\<lparr>tp_ws := w\<rparr>) (WsPeerConnected p)"
      unfolding process_step_def Let_def f by (simp add: w(3))
    also have "\<dots> = \<lparr>tp_ws = w, tp_tracker = onNodeConnected ''n'' False (new_tracker 2 r), tp_errors = []\<rparr>"
      using n f by (simp add: on_ws_event_def server_onPeerConnected_def on_server_event_def run_tracker_def
          onNodeConnected_def perform_def new_process_def Let_def)
    finally show ?thesis .
  qed
  from that [OF this w(1,2) n(1,2) w(4)] show ?thesis .
qed


theorem forged_originator_throws_witness:
  "\<exists>q. tp_errors (foldl (process_step example_process_env shuffleArray pickRandomElement) (new_process 2 example_rng)
      [Incoming ''ws://a'' (example_headers ''n''), ServerMessage 0 (tw_serialize example_wire (RelayMessage q))]) =
    [RelayThrew (PeerUnreachable ''p'')]"
proof -
  define q where "q = \<lparr>relay_requestId = ''q'', relay_originator = example_peer, relay_targetNode = ''b'', relay_content = RelayRtcConnect\<rparr>"
  obtain p w where s: "process_step example_process_env shuffleArray pickRandomElement (new_process 2 example_rng)
      (Incoming ''ws://a'' (example_headers ''n'')) = \<lparr>tp_ws = w, tp_tracker = onNodeConnected ''n'' False (new_tracker 2 example_rng), tp_errors = []\<rparr>"
    "we_connections w = [(''ws://a'', 0)]" "we_book w = [(''ws://a'', p)]" "peerId p = ''n''" "isNode p"
    "map_of (we_sockets w) 0 = Some ((new_socket False ''ws://a'')\<lparr>sock_address := Some ''ws://a'', sock_peer := Some p\<rparr>)"
    by (rule example_process_connected)
  let ?s = "\<lparr>tp_ws = w, tp_tracker = onNodeConnected ''n'' False (new_tracker 2 example_rng), tp_errors = []\<rparr>"
  have "tp_errors (process_step example_process_env shuffleArray pickRandomElement ?s
      (ServerMessage 0 (tw_serialize (pr_wire example_process_env) (RelayMessage q)))) =
    tp_errors ?s @ [RelayThrew (PeerUnreachable (peerId (relay_originator q)))]"
    by (rule forged_originator_throws [where a = "''ws://a''" and k = "(new_socket False ''ws://a'')\<lparr>sock_address := Some ''ws://a'', sock_peer := Some p\<rparr>" and e = "NotFoundInPeerBook ''b''" and e' = "NotFoundInPeerBook ''p''", OF _ _ _ _ _ _ s(5)])
      (simp_all add: s(2-4,6) example_wire_ok example_process_env_def new_socket_def resolveAddress_def getAddress_def q_def example_peer_def)
  then show ?thesis using s(1) by (intro exI [of _ q]) (simp add: q_def example_peer_def example_process_env_def)
qed

end
