(* ===== verification/EndpointInvariant.thy ===== *)
theory EndpointInvariant
  imports WebRtcEndpoint
begin

section \<open>The connections an endpoint knows\<close>

text \<open>
  The invariant of the endpoint: a peer has at most one connection that is not finished, the
  one under its name, and a finished connection has no listeners left. \<open>ep_ok content env X ep\<close>
  allows the connections of \<open>X\<close> to be alive without being registered, as they are while
  \<open>close\<close> and \<open>stop\<close> run.
\<close>

subsection \<open>The events of one operation of a connection\<close>

text \<open>An operation closes the connection, as its last act, or it leaves \<open>isFinished\<close> alone.\<close>

definition closing_events :: "conn_event list \<Rightarrow> bool" where
  "closing_events es \<longleftrightarrow> es = [EmitClose] \<or> (\<exists>m. es = [EmitError m, EmitClose])"

fun plain_event :: "conn_event \<Rightarrow> bool" where
  "plain_event EmitClose = False"
| "plain_event (EmitLocalDescription _ _) = False"
| "plain_event _ = True"

definition quiet_events :: "conn_event list \<Rightarrow> bool" where
  "quiet_events es \<longleftrightarrow> list_all plain_event es \<or> (\<exists>ty desc. es = [EmitLocalDescription ty desc])"

definition acts :: "'h connection \<Rightarrow> 'h connection \<Rightarrow> bool" where
  "acts s t \<longleftrightarrow> (\<exists>es. emitted t = emitted s @ es \<and>
     (if isFinished t = isFinished s then quiet_events es else isFinished t \<and> closing_events es))"

lemma acts_quiet:
  "emitted t = emitted s \<Longrightarrow> isFinished t = isFinished s \<Longrightarrow> acts s t"
  "emitted t = emitted s @ [e] \<Longrightarrow> isFinished t = isFinished s \<Longrightarrow> e \<noteq> EmitClose \<Longrightarrow> acts s t"
  by (simp_all add: acts_def quiet_events_def) (cases e; simp)

lemma acts_close: "acts s (conn_close err s)"
  using close_end(1,4) [of s err] close_finished [of s err]
  by (cases "isFinished s") (auto simp: acts_def closing_events_def quiet_events_def split: option.split)

lemma acts_same: "acts s t \<Longrightarrow> emitted u = emitted t \<Longrightarrow> isFinished u = isFinished t \<Longrightarrow> acts s u"
  by (simp only: acts_def)

lemma acts_from: "acts s t \<Longrightarrow> emitted r = emitted s \<Longrightarrow> isFinished r = isFinished s \<Longrightarrow> acts r t"
  by (simp only: acts_def)

lemma acts_flush:
  assumes "same_link s t" "flush_logs content s t" shows "acts s t"
proof -
  obtain k where "emitted t = emitted s @ replicate k EmitBufferHigh" using assms(2) unfolding flush_logs_def by blast
  then show ?thesis using assms(1)
    by (auto simp: acts_def same_link_def quiet_events_def list_all_iff)
qed

lemma primitives_events [simp]:
  "emitted (start_timer k s) = emitted s" "emitted (stop_timer r s) = emitted s" "emitted (call_native c s) = emitted s"
  "emitted (setFlushRef s) = emitted s" "emitted (setupDataChannel d s) = emitted s"
  "emitted (arm_connection_timeout s) = emitted s" "emitted (conn_emit e s) = emitted s @ [e]"
  by (simp_all add: start_timer_def stop_timer_eq call_native_def setFlushRef_def setupDataChannel_def
      arm_connection_timeout_def conn_emit_def)

lemma primitives_finished [simp]:
  "isFinished (start_timer k s) = isFinished s" "isFinished (stop_timer r s) = isFinished s"
  "isFinished (call_native c s) = isFinished s" "isFinished (setFlushRef s) = isFinished s"
  "isFinished (setupDataChannel d s) = isFinished s" "isFinished (arm_connection_timeout s) = isFinished s"
  "isFinished (conn_emit e s) = isFinished s"
  by (simp_all add: start_timer_def stop_timer_eq call_native_def setFlushRef_def setupDataChannel_def
      arm_connection_timeout_def conn_emit_def)

lemma acts_handlers:
  "acts s (fst (conn_connect cfg p d s))" "acts s (setRemoteDescription desc ty t1 t2 s)"
  "acts s (addRemoteCandidate c mid s)" "acts s (enqueueRemoteCandidate c mid s)" "acts s (setPeerInfo info s)"
  "acts s (conn_pong s)" "acts s (onGatheringStateChange st s)" "acts s (fst (conn_send H cfg no m s))"
  by (rule acts_quiet(1); simp add: conn_connect_def setRemoteDescription_def addRemoteCandidate_def
      enqueueRemoteCandidate_def setPeerInfo_def conn_pong_def onGatheringStateChange_def conn_send_def Let_def
      split: option.split prod.split)+

lemma acts_emitters:
  "acts s (onLocalDescription desc ty s)" "acts s (onLocalCandidate c mid s)" "acts s (openDataChannel d s)"
  "acts s (onDataChannel d s)"
  using acts_quiet(2) [of "onLocalDescription desc ty s" s "EmitLocalDescription ty desc"]
    acts_quiet(2) [of "onLocalCandidate c mid s" s "EmitLocalCandidate c mid"]
    acts_quiet(2) [of "openDataChannel d s" s EmitOpen] acts_quiet(2) [of "onDataChannel d s" s EmitOpen]
  by (simp_all add: onLocalDescription_def onLocalCandidate_def openDataChannel_def onDataChannel_def)

lemma acts_low: "acts s (on_bufferedAmountLow s)"
  by (cases "paused s") (auto simp: on_bufferedAmountLow_def intro: acts_quiet)

lemma acts_message: "acts s (on_channel_message now msg s)"
  using acts_handlers(6) [of s] by (auto simp: on_channel_message_def intro: acts_quiet)

lemma acts_state_change: "acts s (onStateChange st s)"
proof -
  have "acts (s\<lparr>lastState := Some st\<rparr>) (onStateChange st s)"
    using acts_close by (auto simp: onStateChange_def Let_def intro: acts_quiet(1))
  then show ?thesis by (rule acts_from) simp_all
qed

lemma acts_ping: "acts s (conn_ping cfg now a s)"
proof (rule acts_same)
  let ?u = "if isOpen a s then
                  (if pingAttempts s \<ge> maxPingPongAttempts cfg then conn_close (Some ''pong not received'') s
                   else (call_native (SendMessage (the (dataChannel s)) ''ping'') (s\<lparr>rttStart := Some now\<rparr>))
                          \<lparr>pingAttempts := pingAttempts s + 1\<rparr>)
                else s"
  show "acts s ?u" using acts_close by (auto intro: acts_quiet(1))
  show "emitted (conn_ping cfg now a s) = emitted ?u" "isFinished (conn_ping cfg now a s) = isFinished ?u"
    unfolding conn_ping_def Let_def by simp_all
qed

lemma acts_timer:
  assumes H: "heap_lawful H content" and q: "queue_ok content no added (messageQueue s)"
  shows "acts s (conn_step H cfg s (TimerFires i now env))"
proof (cases "map_of (timers s) i")
  case None
  then show ?thesis by (simp add: conn_step_def timer_fires_def acts_quiet(1))
next
  case (Some k)
  let ?s1 = "stop_timer (Some i) s"
  have flush: "\<exists>t. attemptToFlushMessages H cfg env u = Some (t, None) \<and> acts s t"
    if "messageQueue u = messageQueue s" "emitted u = emitted s" "isFinished u = isFinished s" for u
    using flush_loop_effect [OF H, of no added u cfg env 0 0] q that acts_flush acts_from [of u _ s]
    unfolding attemptToFlushMessages_def by metis
  have "acts s (connection_timed_out ?s1)" "acts s (conn_ping cfg now (env 0) ?s1)"
    using acts_from [OF acts_close, of s ?s1] acts_from [OF acts_ping, of s ?s1]
    by (auto simp: connection_timed_out_def intro: acts_quiet(1))
  then show ?thesis
    using flush [of "?s1\<lparr>flushRef := None\<rparr>"] flush [of "?s1\<lparr>flushTimeoutRef := None\<rparr>"] Some
    by (cases k) (auto simp: conn_step_def timer_fires_def Let_def)
qed

lemma step_acts:
  assumes H: "heap_lawful H content" and q: "queue_ok content no added (messageQueue s)"
  shows "acts s (conn_step H cfg s x)"
proof (cases x)
  case (TimerFires i now env)
  then show ?thesis using acts_timer [OF H q] by simp
qed (simp_all add: conn_step_def when_listening_def acts_handlers acts_emitters acts_low acts_message acts_state_change
    acts_ping acts_close acts_quiet(1))

subsection \<open>The invariant\<close>

definition entry_ok :: "('h \<Rightarrow> nat list) \<Rightarrow> 'h endpoint_env \<Rightarrow> nat \<Rightarrow> 'h conn_entry \<Rightarrow> bool" where
  "entry_ok content env no en \<longleftrightarrow> (\<exists>added. conn_queue_ok content (entry_config env en) no added (ce_conn en)) \<and>
     conn_timers_ok (ce_conn en) \<and> end_ok (ce_conn en)"

definition stored_queues_ok :: "('h \<Rightarrow> nat list) \<Rightarrow> 'h endpoint_env \<Rightarrow> nat \<Rightarrow> 'h endpoint \<Rightarrow> bool" where
  "stored_queues_ok content env no ep \<longleftrightarrow> (\<forall>t q. map_of (ep_queues ep) t = Some q \<longrightarrow>
     (\<exists>added. queue_ok content no added q) \<and> length (queue_waiting content q) \<le> ee_maxMessageSize env)"

definition alive :: "'h endpoint \<Rightarrow> nat \<Rightarrow> bool" where
  "alive ep c \<longleftrightarrow> (\<exists>en. map_of (ep_objects ep) c = Some en \<and> \<not> isFinished (ce_conn en))"

text \<open>
  The connections of \<open>X\<close> may be alive and not registered; those of \<open>P\<close> have finished, and
  their close event is still to be handled.
\<close>

definition objects_ok :: "('h \<Rightarrow> nat list) \<Rightarrow> 'h endpoint_env \<Rightarrow> nat \<Rightarrow> nat set \<Rightarrow> nat set \<Rightarrow> 'h endpoint \<Rightarrow> bool" where
  "objects_ok content env no X P ep \<longleftrightarrow> (\<forall>c en. map_of (ep_objects ep) c = Some en \<longrightarrow>
     c < ep_next ep \<and> entry_ok content env no en \<and>
     (if isFinished (ce_conn en) then c \<in> P \<or> \<not> ce_listening en
      else ce_listening en \<and> (c \<in> X \<or> map_of (ep_connections ep) (ce_target en) = Some c)))"

definition registered_ok :: "nat set \<Rightarrow> 'h endpoint \<Rightarrow> bool" where
  "registered_ok P ep \<longleftrightarrow>
     (\<forall>t c. map_of (ep_connections ep) t = Some c \<longrightarrow>
        (\<exists>en. map_of (ep_objects ep) c = Some en \<and> ce_target en = t) \<and> (c \<in> P \<or> alive ep c)) \<and>
     (\<forall>c. Connecting c \<in> set (ep_connects ep) \<longrightarrow> c \<in> P \<or> alive ep c) \<and>
     (ep_stopped ep \<longrightarrow> ep_connections ep = []) \<and> dict_ok (ep_connections ep)"

definition env_ok :: "('h \<Rightarrow> nat list) \<Rightarrow> 'h endpoint_env \<Rightarrow> bool" where
  "env_ok content env \<longleftrightarrow> heap_lawful (ee_heap env) content \<and> 0 < ee_maxMessageSize env"

definition ep_ok_at :: "('h \<Rightarrow> nat list) \<Rightarrow> 'h endpoint_env \<Rightarrow> nat \<Rightarrow> nat set \<Rightarrow> nat set \<Rightarrow> 'h endpoint \<Rightarrow> bool" where
  "ep_ok_at content env no X P ep \<longleftrightarrow>
     stored_queues_ok content env no ep \<and> objects_ok content env no X P ep \<and> registered_ok P ep"

definition ep_ok :: "('h \<Rightarrow> nat list) \<Rightarrow> 'h endpoint_env \<Rightarrow> nat set \<Rightarrow> nat set \<Rightarrow> 'h endpoint \<Rightarrow> bool" where
  "ep_ok content env X P ep \<longleftrightarrow> ep_ok_at content env (ep_no ep) X P ep"

lemma objects_okD:
  assumes "objects_ok content env no X P ep" "map_of (ep_objects ep) c = Some en"
  shows "c < ep_next ep" "entry_ok content env no en"
    "isFinished (ce_conn en) \<Longrightarrow> c \<in> P \<or> \<not> ce_listening en"
    "\<not> isFinished (ce_conn en) \<Longrightarrow> ce_listening en"
    "\<not> isFinished (ce_conn en) \<Longrightarrow> c \<in> X \<or> map_of (ep_connections ep) (ce_target en) = Some c"
  using assms unfolding objects_ok_def by (meson, meson, metis+)

lemma registered_okD:
  assumes "registered_ok P ep"
  shows "map_of (ep_connections ep) t = Some c \<Longrightarrow> \<exists>en. map_of (ep_objects ep) c = Some en \<and> ce_target en = t"
    "map_of (ep_connections ep) t = Some c \<Longrightarrow> c \<in> P \<or> alive ep c"
    "Connecting c \<in> set (ep_connects ep) \<Longrightarrow> c \<in> P \<or> alive ep c"
    "ep_stopped ep \<Longrightarrow> ep_connections ep = []" "dict_ok (ep_connections ep)"
  using assms unfolding registered_ok_def by blast+

text \<open>
  A change of the endpoint that keeps the connection objects, but for listeners' flags that
  the invariant does not read, and the registered connections.
\<close>

definition similar :: "'h conn_entry \<Rightarrow> 'h conn_entry \<Rightarrow> bool" where
  "similar en en' \<longleftrightarrow> ce_conn en' = ce_conn en \<and> ce_target en' = ce_target en \<and> ce_offering en' = ce_offering en \<and>
     ce_listening en' = ce_listening en"

definition same_links :: "'h endpoint \<Rightarrow> 'h endpoint \<Rightarrow> bool" where
  "same_links ep ep' \<longleftrightarrow> ep_connections ep' = ep_connections ep \<and> ep_queues ep' = ep_queues ep \<and>
     ep_next ep' = ep_next ep \<and> ep_no ep' = ep_no ep \<and> ep_stopped ep' = ep_stopped ep \<and>
     (\<forall>c. Connecting c \<in> set (ep_connects ep') \<longrightarrow> Connecting c \<in> set (ep_connects ep)) \<and>
     (\<forall>c. rel_option similar (map_of (ep_objects ep) c) (map_of (ep_objects ep') c))"

lemma similar_refl: "similar en en" by (simp add: similar_def)

lemma similar_trans: "similar a b \<Longrightarrow> similar b c \<Longrightarrow> similar a c" by (simp add: similar_def)

lemma same_links_refl: "same_links ep ep"
  by (simp add: same_links_def similar_refl option.rel_refl)

lemma same_links_trans:
  assumes "same_links a b" "same_links b c" shows "same_links a c"
proof -
  have "rel_option similar (map_of (ep_objects a) x) (map_of (ep_objects c) x)" for x
  proof -
    have "rel_option similar (map_of (ep_objects a) x) (map_of (ep_objects b) x)"
      "rel_option similar (map_of (ep_objects b) x) (map_of (ep_objects c) x)"
      using assms unfolding same_links_def by blast+
    then show ?thesis
      by (cases "map_of (ep_objects a) x"; cases "map_of (ep_objects b) x"; cases "map_of (ep_objects c) x")
        (auto intro: similar_trans)
  qed
  then show ?thesis using assms unfolding same_links_def by simp
qed

lemma similar_entry_ok: "similar en en' \<Longrightarrow> entry_ok content env no en' = entry_ok content env no en"
  by (simp add: similar_def entry_ok_def entry_config_def)

lemma same_links_entry:
  assumes "same_links ep ep'" "map_of (ep_objects ep') c = Some en'"
  shows "\<exists>en. map_of (ep_objects ep) c = Some en \<and> similar en en'"
proof -
  have "rel_option similar (map_of (ep_objects ep) c) (Some en')" using assms unfolding same_links_def by metis
  then show ?thesis by (cases "map_of (ep_objects ep) c") auto
qed

lemma same_links_entry':
  assumes "same_links ep ep'" "map_of (ep_objects ep) c = Some en"
  shows "\<exists>en'. map_of (ep_objects ep') c = Some en' \<and> similar en en'"
proof -
  have "rel_option similar (Some en) (map_of (ep_objects ep') c)" using assms unfolding same_links_def by metis
  then show ?thesis by (cases "map_of (ep_objects ep') c") auto
qed

lemma same_links_alive: "same_links ep ep' \<Longrightarrow> alive ep' c = alive ep c"
  using same_links_entry [of ep ep' c] same_links_entry' [of ep ep' c]
  unfolding alive_def similar_def by metis

lemma same_links_ok:
  assumes ok: "ep_ok_at content env no X P ep" and l: "same_links ep ep'"
  shows "ep_ok_at content env no X P ep'"
proof -
  have e: "ep_connections ep' = ep_connections ep" "ep_queues ep' = ep_queues ep" "ep_next ep' = ep_next ep"
    "ep_stopped ep' = ep_stopped ep" using l by (simp_all add: same_links_def)
  have "objects_ok content env no X P ep'"
    unfolding objects_ok_def
  proof (intro allI impI)
    fix c en' assume "map_of (ep_objects ep') c = Some en'"
    then obtain en where en: "map_of (ep_objects ep) c = Some en" "similar en en'" using same_links_entry [OF l] by blast
    have "objects_ok content env no X P ep" using ok by (simp add: ep_ok_at_def)
    note objects_okD [OF this en(1)]
    then show "c < ep_next ep' \<and> entry_ok content env no en' \<and>
        (if isFinished (ce_conn en') then c \<in> P \<or> \<not> ce_listening en'
         else ce_listening en' \<and> (c \<in> X \<or> map_of (ep_connections ep') (ce_target en') = Some c))"
      using en(2) similar_entry_ok [OF en(2), of content env no] e by (simp add: similar_def)
  qed
  moreover have "registered_ok P ep'"
  proof -
    have r: "registered_ok P ep" using ok by (simp add: ep_ok_at_def)
    have "(\<exists>en. map_of (ep_objects ep') c = Some en \<and> ce_target en = t) \<and> (c \<in> P \<or> alive ep' c)"
      if "map_of (ep_connections ep') t = Some c" for t c
      using registered_okD(1,2) [OF r, of t c] that e same_links_alive [OF l] same_links_entry' [OF l, of c]
      unfolding similar_def by metis
    moreover have "c \<in> P \<or> alive ep' c" if "Connecting c \<in> set (ep_connects ep')" for c
      using registered_okD(3) [OF r, of c] that same_links_alive [OF l] l unfolding same_links_def by blast
    ultimately show ?thesis using registered_okD(4,5) [OF r] e unfolding registered_ok_def by simp
  qed
  ultimately show ?thesis using ok e by (simp add: ep_ok_at_def stored_queues_ok_def)
qed

lemma same_links_basic:
  "same_links ep (ep_record ms ep)" "same_links ep (ep_emit e ep)" "same_links ep (ep_signal x ep)"
  "same_links ep (ep\<lparr>ep_versions := vs\<rparr>)"
  by (simp_all add: same_links_def ep_record_def ep_emit_def ep_signal_def similar_refl option.rel_refl)

lemma same_links_settle: "(\<And>d. r \<noteq> Connecting d) \<Longrightarrow> same_links ep (settle_connects c r ep)"
  by (auto simp: same_links_def settle_connects_def similar_refl intro!: option.rel_refl split: if_splits)

lemma same_links_update: "(\<And>en. similar en (f en)) \<Longrightarrow> same_links ep (update_entry c f ep)"
  by (auto simp: same_links_def update_entry_def similar_refl option.rel_refl split: option.split)

text \<open>Events that only report.\<close>

lemma plain_event_links:
  assumes "plain_event e" shows "same_links ep (on_conn_event env c e ep)"
proof (cases "map_of (ep_objects ep) c")
  case (Some en)
  let ?p = "peerInfo (ce_conn en)"
  have u: "same_links ep (update_entry c (\<lambda>en. en\<lparr>ce_candidate_left := False\<rparr>) ep)"
    "same_links ep (update_entry c (\<lambda>en. en\<lparr>ce_open_left := False\<rparr>) ep)"
    by (rule same_links_update, simp add: similar_def)+
  have c: "same_links ep (ep_signal x (update_entry c (\<lambda>en. en\<lparr>ce_candidate_left := False\<rparr>) ep))" for x
    by (rule same_links_trans [OF u(1) same_links_basic(3)])
  have o1: "same_links ep (ep_record ms (ep_emit e (update_entry c (\<lambda>en. en\<lparr>ce_open_left := False\<rparr>) ep)))" for ms e
    by (rule same_links_trans [OF same_links_trans [OF u(2) same_links_basic(2)] same_links_basic(1)])
  have o2: "same_links ep (settle_connects c (Connected x) ep')" if "same_links ep ep'" for ep' x
    using same_links_trans [OF that same_links_settle] by simp
  have f: "same_links ep (settle_connects c ConnectFailed ep)" by (rule same_links_settle) simp
  have m: "same_links ep (ep_record ms (ep_emit e ep))" for ms e
    using same_links_trans [OF same_links_basic(2) same_links_basic(1)] .
  show ?thesis
    using assms c o1 o2 f m same_links_refl [of ep] same_links_basic(2)
    by (cases e) (auto simp: on_conn_event_def Some Let_def)
qed (simp add: on_conn_event_def same_links_refl)

end
