(* ===== verification/EndpointRuns.thy ===== *)
theory EndpointRuns
  imports EndpointInvariant
begin

section \<open>Runs of the endpoint\<close>

text \<open>
  Every operation and every event of a connection keeps the invariant of \<open>EndpointInvariant\<close>;
  the interpretation \<open>endpoints\<close> of \<open>step_invariant\<close> gives it for runs. While a connection is
  being closed its close event is handled in the middle of another operation, so the lemmas
  speak of the connections whose close is still to be handled.
\<close>

lemma entry_later: "entry_ok content env no en \<Longrightarrow> no \<le> no' \<Longrightarrow> entry_ok content env no' en"
  unfolding entry_ok_def conn_queue_ok_def using queue_ok_later by blast

lemma stored_later: "stored_queues_ok content env no ep \<Longrightarrow> no \<le> no' \<Longrightarrow> stored_queues_ok content env no' ep"
  unfolding stored_queues_ok_def using queue_ok_later by blast

lemma quiet_no_close: "quiet_events es \<Longrightarrow> EmitClose \<notin> set es"
  by (auto simp: quiet_events_def list_all_iff)

lemma closing_close: "closing_events es \<Longrightarrow> EmitClose \<in> set es"
  by (auto simp: closing_events_def)

text \<open>The connection as it is when an operation starts: the peer's queue is put in.\<close>

definition loaded :: "'h endpoint \<Rightarrow> 'h conn_entry \<Rightarrow> 'h connection" where
  "loaded ep en = (case map_of (ep_queues ep) (ce_target en) of
     None \<Rightarrow> ce_conn en | Some q \<Rightarrow> (ce_conn en)\<lparr>messageQueue := q\<rparr>)"

lemma loaded_fields:
  "emitted (loaded ep en) = emitted (ce_conn en)" "isFinished (loaded ep en) = isFinished (ce_conn en)"
  "same_timers (ce_conn en) (loaded ep en)" "same_end (ce_conn en) (loaded ep en)"
  by (simp_all add: loaded_def same_timers_def same_end_def closes_def split: option.split)

lemma loaded_ok:
  assumes "stored_queues_ok content env no ep" "entry_ok content env no en"
  shows "\<exists>added. conn_queue_ok content (entry_config env en) no added (loaded ep en)"
    "conn_timers_ok (loaded ep en)" "end_ok (loaded ep en)"
proof -
  show "\<exists>added. conn_queue_ok content (entry_config env en) no added (loaded ep en)"
  proof (cases "map_of (ep_queues ep) (ce_target en)")
    case None
    then show ?thesis using assms(2) by (simp add: loaded_def entry_ok_def)
  next
    case (Some q)
    then have "(\<exists>added. queue_ok content no added q) \<and> length (queue_waiting content q) \<le> ee_maxMessageSize env"
      using assms(1) unfolding stored_queues_ok_def by blast
    then show ?thesis by (simp add: loaded_def Some conn_queue_ok_def entry_config_def)
  qed
  show "conn_timers_ok (loaded ep en)" "end_ok (loaded ep en)"
    using assms(2) same_timers_ok [OF loaded_fields(3)] same_end_ok [OF loaded_fields(4)] unfolding entry_ok_def by blast+
qed

lemma step_entry:
  assumes env: "env_ok content env" and q: "stored_queues_ok content env no ep" and e: "entry_ok content env no en"
    and x: "send_numbers [x] = [] \<and> no' = no \<or> (\<exists>m. x = Send no m) \<and> no' = no + 1"
  defines "t \<equiv> conn_step (ee_heap env) (entry_config env en) (loaded ep en) x"
  shows "\<exists>added. conn_queue_ok content (entry_config env en) no' added t" "conn_timers_ok t" "end_ok t" "acts (loaded ep en) t"
proof -
  have H: "heap_lawful (ee_heap env) content" and pos: "0 < queueMaxSize (entry_config env en)"
    using env by (simp_all add: env_ok_def entry_config_def)
  obtain added where a: "conn_queue_ok content (entry_config env en) no added (loaded ep en)"
    using loaded_ok(1) [OF q e] by blast
  then have ok: "conn_ok content (loaded ep en)" and qo: "queue_ok content no added (messageQueue (loaded ep en))"
    using loaded_ok(2) [OF q e] unfolding conn_ok_def conn_queue_ok_def by blast+
  show "\<exists>added. conn_queue_ok content (entry_config env en) no' added t"
    using x other_step_queue [OF H a, of x] send_queue(1) [OF H a le_refl pos] unfolding t_def by auto
  show "conn_timers_ok t" unfolding t_def by (rule step_timers [OF H ok])
  show "end_ok t" unfolding t_def by (rule step_end [OF H ok loaded_ok(3) [OF q e]])
  show "acts (loaded ep en) t" unfolding t_def by (rule step_acts [OF H qo])
qed

lemma apply_parts:
  assumes "map_of (ep_objects ep) c = Some en" and "conn_apply env c x ep = (ep1, es)"
  defines "t \<equiv> conn_step (ee_heap env) (entry_config env en) (loaded ep en) x"
  shows "ep_objects ep1 = AList.update c (en\<lparr>ce_conn := t\<rparr>) (ep_objects ep)"
    "ep_queues ep1 = (if has_key (ep_queues ep) (ce_target en)
       then AList.update (ce_target en) (messageQueue t) (ep_queues ep) else ep_queues ep)"
    "ep_connections ep1 = ep_connections ep" "ep_next ep1 = ep_next ep" "ep_stopped ep1 = ep_stopped ep"
    "ep_connects ep1 = ep_connects ep" "es = drop (length (emitted (loaded ep en))) (emitted t)" "ep_no ep1 = ep_no ep"
    "ep_events ep1 = ep_events ep"
  using assms(2) by (auto simp: conn_apply_def assms(1) Let_def ep_record_def t_def loaded_def split: option.splits)

lemma apply_ok:
  assumes env: "env_ok content env" and ok: "ep_ok_at content env no X {} ep" and en: "map_of (ep_objects ep) c = Some en"
    and x: "send_numbers [x] = [] \<and> no' = no \<or> (\<exists>m. x = Send no m) \<and> no' = no + 1"
    and r: "conn_apply env c x ep = (ep1, es)"
  shows "if isFinished (ce_conn en) then quiet_events es else quiet_events es \<or> closing_events es"
    "\<exists>t. map_of (ep_objects ep1) c = Some (en\<lparr>ce_conn := t\<rparr>) \<and> isFinished t = (isFinished (ce_conn en) \<or> closing_events es)"
    "ep_ok_at content env no' X (if closing_events es then {c} else {}) ep1"
proof -
  define t where "t = conn_step (ee_heap env) (entry_config env en) (loaded ep en) x"
  note p = apply_parts [OF en r, folded t_def]
  have q: "stored_queues_ok content env no ep" and o: "objects_ok content env no X {} ep" and g: "registered_ok {} ep"
    using ok by (simp_all add: ep_ok_at_def)
  note s = step_entry [OF env q objects_okD(2) [OF o en] x, folded t_def]
  have le: "no \<le> no'" using x by auto
  have es: "if isFinished t = isFinished (ce_conn en) then quiet_events es else isFinished t \<and> closing_events es"
    using s(4) p(7) by (auto simp: acts_def loaded_fields(2))
  then show a: "if isFinished (ce_conn en) then quiet_events es else quiet_events es \<or> closing_events es"
    by (auto split: if_splits)
  have fin: "isFinished t = (isFinished (ce_conn en) \<or> closing_events es)"
    using es quiet_no_close closing_close by (auto split: if_splits)
  have e1: "map_of (ep_objects ep1) = (map_of (ep_objects ep))(c \<mapsto> en\<lparr>ce_conn := t\<rparr>)"
    unfolding p(1) by (simp add: update_conv')
  then show "\<exists>t. map_of (ep_objects ep1) c = Some (en\<lparr>ce_conn := t\<rparr>) \<and>
      isFinished t = (isFinished (ce_conn en) \<or> closing_events es)"
    using fin by (intro exI [of _ t]) simp
  have cfg: "entry_config env (en\<lparr>ce_conn := t\<rparr>) = entry_config env en" by (simp add: entry_config_def)
  have t: "entry_ok content env no' (en\<lparr>ce_conn := t\<rparr>)" using s(1-3) by (simp add: entry_ok_def cfg)
  let ?P = "if closing_events es then {c} else {}"
  have "objects_ok content env no' X ?P ep1"
    unfolding objects_ok_def
  proof (intro allI impI)
    fix d en' assume d: "map_of (ep_objects ep1) d = Some en'"
    show "d < ep_next ep1 \<and> entry_ok content env no' en' \<and>
        (if isFinished (ce_conn en') then d \<in> ?P \<or> \<not> ce_listening en'
         else ce_listening en' \<and> (d \<in> X \<or> map_of (ep_connections ep1) (ce_target en') = Some d))"
    proof (cases "d = c")
      case True
      then have "en' = en\<lparr>ce_conn := t\<rparr>" using d e1 by simp
      then show ?thesis using True t fin objects_okD [OF o en] p(3,4) by auto
    next
      case False
      then have "map_of (ep_objects ep) d = Some en'" using d e1 by simp
      from objects_okD [OF o this] show ?thesis using p(3,4) entry_later [OF _ le] by auto
    qed
  qed
  moreover have "registered_ok ?P ep1"
  proof -
    have al: "d \<in> ?P \<or> alive ep1 d" if "alive ep d" for d
      using that e1 fin en by (cases "d = c") (auto simp: alive_def)
    have "(\<exists>en. map_of (ep_objects ep1) d = Some en \<and> ce_target en = u) \<and> (d \<in> ?P \<or> alive ep1 d)"
      if "map_of (ep_connections ep1) u = Some d" for u d
      using registered_okD(1,2) [OF g, of u d] that al [of d] e1 en p(3) by (cases "d = c") auto
    moreover have "d \<in> ?P \<or> alive ep1 d" if "Connecting d \<in> set (ep_connects ep1)" for d
      using registered_okD(3) [OF g, of d] that al [of d] p(6) by simp
    moreover have "ep_stopped ep1 \<longrightarrow> ep_connections ep1 = []" "dict_ok (ep_connections ep1)"
      using registered_okD(4,5) [OF g] p(3,5) by simp_all
    ultimately show ?thesis unfolding registered_ok_def by blast
  qed
  moreover have "stored_queues_ok content env no' ep1"
  proof -
    have "(\<exists>added. queue_ok content no' added (messageQueue t)) \<and>
        length (queue_waiting content (messageQueue t)) \<le> ee_maxMessageSize env"
      using s(1) unfolding conn_queue_ok_def by (auto simp: entry_config_def)
    then show ?thesis
      using stored_later [OF q le] p(2) unfolding stored_queues_ok_def by (auto split: if_splits)
  qed
  ultimately show "ep_ok_at content env no' X ?P ep1" by (simp add: ep_ok_at_def)
qed

text \<open>The close event of a connection that has finished.\<close>

lemma on_close_ok:
  assumes ok: "ep_ok_at content env no X {c} ep" and en: "map_of (ep_objects ep) c = Some en" and f: "isFinished (ce_conn en)"
  shows "ep_ok_at content env no (X - {c}) {} (on_conn_close c ep)"
    "map_of (ep_objects (on_conn_close c ep)) c = Some (en\<lparr>ce_listening := False\<rparr>)"
    "d \<noteq> c \<Longrightarrow> map_of (ep_objects (on_conn_close c ep)) d = map_of (ep_objects ep) d"
proof -
  have q: "stored_queues_ok content env no ep" and o: "objects_ok content env no X {c} ep" and g: "registered_ok {c} ep"
    using ok by (simp_all add: ep_ok_at_def)
  define ep' where "ep' = on_conn_close c ep"
  have p: "ep_queues ep' = ep_queues ep" "ep_next ep' = ep_next ep" "ep_stopped ep' = ep_stopped ep"
    "ep_objects ep' = AList.update c (en\<lparr>ce_listening := False\<rparr>) (ep_objects ep)"
    "ep_connections ep' = (if map_of (ep_connections ep) (ce_target en) = Some c
       then AList.delete (ce_target en) (ep_connections ep) else ep_connections ep)"
    "ep_connects ep' = map (\<lambda>x. if x = Connecting c then ConnectFailed else x) (ep_connects ep)"
    unfolding ep'_def on_conn_close_def using en
    by (simp_all add: Let_def settle_connects_def ep_record_def update_entry_def ep_emit_def)
  have e1: "map_of (ep_objects ep') = (map_of (ep_objects ep))(c \<mapsto> en\<lparr>ce_listening := False\<rparr>)"
    unfolding p(4) by (simp add: update_conv')
  then show "map_of (ep_objects (on_conn_close c ep)) c = Some (en\<lparr>ce_listening := False\<rparr>)"
    "d \<noteq> c \<Longrightarrow> map_of (ep_objects (on_conn_close c ep)) d = map_of (ep_objects ep) d"
    by (simp_all add: ep'_def)
  have nc: "map_of (ep_connections ep') u \<noteq> Some c" for u
    using registered_okD(1) [OF g, of u c] en p(5) by (auto split: if_splits)
  have keep: "map_of (ep_connections ep') u = Some d \<longleftrightarrow> map_of (ep_connections ep) u = Some d" if "d \<noteq> c" for u d
    using that p(5) by (auto split: if_splits)
  have al: "alive ep' d = alive ep d" if "d \<noteq> c" for d using that e1 by (simp add: alive_def)
  have "objects_ok content env no (X - {c}) {} ep'"
    unfolding objects_ok_def
  proof (intro allI impI)
    fix d en' assume d: "map_of (ep_objects ep') d = Some en'"
    show "d < ep_next ep' \<and> entry_ok content env no en' \<and>
        (if isFinished (ce_conn en') then d \<in> {} \<or> \<not> ce_listening en'
         else ce_listening en' \<and> (d \<in> X - {c} \<or> map_of (ep_connections ep') (ce_target en') = Some d))"
    proof (cases "d = c")
      case True
      then have "en' = en\<lparr>ce_listening := False\<rparr>" using d e1 by simp
      moreover have "entry_ok content env no (en\<lparr>ce_listening := False\<rparr>)"
        using objects_okD(2) [OF o en] by (simp add: entry_ok_def entry_config_def)
      ultimately show ?thesis using True f objects_okD(1) [OF o en] p(2) by simp
    next
      case False
      then have "map_of (ep_objects ep) d = Some en'" using d e1 by simp
      from objects_okD [OF o this] show ?thesis using False keep [OF False] p(2) by auto
    qed
  qed
  moreover have "registered_ok {} ep'"
  proof -
    have "(\<exists>en. map_of (ep_objects ep') d = Some en \<and> ce_target en = u) \<and> alive ep' d"
      if "map_of (ep_connections ep') u = Some d" for u d
    proof -
      have d: "d \<noteq> c" using that nc by blast
      then have "map_of (ep_connections ep) u = Some d" using that keep by simp
      from registered_okD(1,2) [OF g this] show ?thesis using d e1 al [OF d] by auto
    qed
    moreover have "alive ep' d" if "Connecting d \<in> set (ep_connects ep')" for d
      using registered_okD(3) [OF g, of d] that al [of d] unfolding p(6) by (auto split: if_splits)
    moreover have "ep_connections ep' = []" if "ep_stopped ep'"
      using registered_okD(4) [OF g] that p(3,5) by simp
    moreover have "dict_ok (ep_connections ep')" using registered_okD(5) [OF g] p(5) by simp
    ultimately show ?thesis unfolding registered_ok_def by blast
  qed
  ultimately show "ep_ok_at content env no (X - {c}) {} (on_conn_close c ep)"
    using q p(1) by (simp add: ep_ok_at_def stored_queues_ok_def ep'_def [symmetric])
qed

text \<open>What an operation leaves of the other connections, and of those that have finished.\<close>

definition grows :: "'h endpoint \<Rightarrow> 'h endpoint \<Rightarrow> bool" where
  "grows ep ep' \<longleftrightarrow> ep_stopped ep' = ep_stopped ep \<and> ep_no ep' = ep_no ep \<and> (\<forall>c. alive ep' c \<longrightarrow> alive ep c) \<and>
     (\<forall>t. map_of (ep_connections ep) t = None \<longrightarrow> map_of (ep_connections ep') t = None) \<and>
     (\<forall>c en. map_of (ep_objects ep) c = Some en \<longrightarrow> (\<exists>en'. map_of (ep_objects ep') c = Some en' \<and> ce_target en' = ce_target en))"

lemma grows_refl: "grows ep ep" by (simp add: grows_def)

lemma growsD:
  assumes "grows a b"
  shows "ep_stopped b = ep_stopped a" "ep_no b = ep_no a" "alive b c \<Longrightarrow> alive a c"
    "map_of (ep_connections a) t = None \<Longrightarrow> map_of (ep_connections b) t = None"
    "map_of (ep_objects a) c = Some en \<Longrightarrow> \<exists>en'. map_of (ep_objects b) c = Some en' \<and> ce_target en' = ce_target en"
  using assms unfolding grows_def by blast+

lemma grows_trans:
  assumes ab: "grows a b" and bc: "grows b c" shows "grows a c"
proof -
  have "\<exists>en'. map_of (ep_objects c) d = Some en' \<and> ce_target en' = ce_target en"
    if "map_of (ep_objects a) d = Some en" for d en
  proof -
    from growsD(5) [OF ab that] obtain e where "map_of (ep_objects b) d = Some e" "ce_target e = ce_target en" by blast
    with growsD(5) [OF bc, of d e] show ?thesis by auto
  qed
  then show ?thesis
    using growsD(1,2) [OF ab] growsD(1,2) [OF bc] growsD(3,4) [OF ab] growsD(3,4) [OF bc] unfolding grows_def by simp
qed

lemma same_links_grows:
  assumes l: "same_links a b" shows "grows a b"
proof -
  have "\<exists>en'. map_of (ep_objects b) d = Some en' \<and> ce_target en' = ce_target en"
    if "map_of (ep_objects a) d = Some en" for d en
    using same_links_entry' [OF l that] by (auto simp: similar_def)
  then show ?thesis using l same_links_alive [OF l] unfolding grows_def same_links_def by simp
qed

lemma closing_operation:
  assumes env: "env_ok content env" and ok: "ep_ok_at content env no X {} ep" and en: "map_of (ep_objects ep) c = Some en"
    and x: "send_numbers [x] = [] \<and> no' = no \<or> (\<exists>m. x = Send no m) \<and> no' = no + 1"
    and r: "conn_apply env c x ep = (ep1, es)" and cl: "closing_events es"
  shows "ep_ok_at content env no' (X - {c}) {} (on_conn_close c ep1)" "\<not> alive (on_conn_close c ep1) c"
    "grows ep (on_conn_close c ep1)" "\<exists>t. map_of (ep_objects ep1) c = Some (en\<lparr>ce_conn := t\<rparr>)"
proof -
  obtain t where t: "map_of (ep_objects ep1) c = Some (en\<lparr>ce_conn := t\<rparr>)" "isFinished t"
    using apply_ok(2) [OF env ok en x r] cl by auto
  have ok1: "ep_ok_at content env no' X {c} ep1" using apply_ok(3) [OF env ok en x r] cl by simp
  have f: "isFinished (ce_conn (en\<lparr>ce_conn := t\<rparr>))" using t(2) by simp
  note o = on_close_ok [OF ok1 t(1) f]
  show "ep_ok_at content env no' (X - {c}) {} (on_conn_close c ep1)" by (rule o(1))
  show "\<not> alive (on_conn_close c ep1) c" using o(2) t(2) by (simp add: alive_def)
  show "\<exists>t. map_of (ep_objects ep1) c = Some (en\<lparr>ce_conn := t\<rparr>)" using t(1) by blast
  note p = apply_parts [OF en r]
  have od: "map_of (ep_objects (on_conn_close c ep1)) d = map_of (ep_objects ep) d" if "d \<noteq> c" for d
    using o(3) [OF that] that p(1) by (simp add: update_conv')
  have "alive ep d" if "alive (on_conn_close c ep1) d" for d
    using that od [of d] \<open>\<not> alive (on_conn_close c ep1) c\<close> by (cases "d = c") (auto simp: alive_def)
  moreover have "\<exists>en'. map_of (ep_objects (on_conn_close c ep1)) d = Some en' \<and> ce_target en' = ce_target en''"
    if "map_of (ep_objects ep) d = Some en''" for d en''
    using that od [of d] o(2) en by (cases "d = c") auto
  moreover have "ep_stopped (on_conn_close c ep1) = ep_stopped ep" "ep_no (on_conn_close c ep1) = ep_no ep"
    "\<forall>u. map_of (ep_connections ep) u = None \<longrightarrow> map_of (ep_connections (on_conn_close c ep1)) u = None"
    using t(1) p(3,5,8)
    by (auto simp: on_conn_close_def Let_def settle_connects_def ep_record_def update_entry_def ep_emit_def)
  ultimately show "grows ep (on_conn_close c ep1)" unfolding grows_def by blast
qed

lemma quiet_grows:
  assumes env: "env_ok content env" and ok: "ep_ok_at content env no X {} ep" and en: "map_of (ep_objects ep) c = Some en"
    and x: "send_numbers [x] = [] \<and> no' = no \<or> (\<exists>m. x = Send no m) \<and> no' = no + 1"
    and r: "conn_apply env c x ep = (ep1, es)" and cl: "\<not> closing_events es"
  shows "ep_ok_at content env no' X {} ep1" "grows ep ep1" "alive ep1 c = alive ep c"
proof -
  show "ep_ok_at content env no' X {} ep1" using apply_ok(3) [OF env ok en x r] cl by simp
  obtain t where t: "map_of (ep_objects ep1) c = Some (en\<lparr>ce_conn := t\<rparr>)" "isFinished t = isFinished (ce_conn en)"
    using apply_ok(2) [OF env ok en x r] cl by auto
  then show "alive ep1 c = alive ep c" using en by (simp add: alive_def)
  note p = apply_parts [OF en r]
  have od: "map_of (ep_objects ep1) d = map_of (ep_objects ep) d" if "d \<noteq> c" for d
    using that p(1) by (simp add: update_conv')
  have "alive ep d" if "alive ep1 d" for d
    using that od [of d] \<open>alive ep1 c = alive ep c\<close> by (cases "d = c") (auto simp: alive_def)
  moreover have "\<exists>en'. map_of (ep_objects ep1) d = Some en' \<and> ce_target en' = ce_target en''"
    if "map_of (ep_objects ep) d = Some en''" for d en''
    using that od [of d] t(1) en by (cases "d = c") auto
  ultimately show "grows ep ep1" using p(3,5,8) unfolding grows_def by auto
qed

text \<open>\<open>close\<close> of the endpoint.\<close>

lemma close_closes:
  assumes env: "env_ok content env" and ok: "ep_ok_at content env no X {} ep" and en: "map_of (ep_objects ep) c = Some en"
    and al: "\<not> isFinished (ce_conn en)" and r: "conn_apply env c (Close err) ep = (ep1, es)"
  shows "closing_events es"
proof -
  have "es = (case err of None \<Rightarrow> [] | Some e \<Rightarrow> [EmitError e]) @ [EmitClose]"
    using apply_parts(7) [OF en r] close_end(4) [of "loaded ep en" err] al loaded_fields(2) [of ep en]
    by (simp add: conn_step_def)
  then show ?thesis by (auto simp: closing_events_def split: option.splits)
qed

lemma registered_alive:
  assumes "ep_ok_at content env no X {} ep" "map_of (ep_connections ep) u = Some c"
  shows "\<exists>en. map_of (ep_objects ep) c = Some en \<and> ce_target en = u \<and> \<not> isFinished (ce_conn en)"
  using assms registered_okD(1,2) [of "{}" ep u c] unfolding ep_ok_at_def alive_def by auto

lemma unregister_ok:
  assumes ok: "ep_ok_at content env no X {} ep" and u: "map_of (ep_connections ep) u = Some c"
  shows "ep_ok_at content env no (insert c X) {} (ep\<lparr>ep_connections := AList.delete u (ep_connections ep)\<rparr>)"
proof -
  have q: "stored_queues_ok content env no ep" and o: "objects_ok content env no X {} ep" and g: "registered_ok {} ep"
    using ok by (simp_all add: ep_ok_at_def)
  let ?ep = "ep\<lparr>ep_connections := AList.delete u (ep_connections ep)\<rparr>"
  have al: "alive ?ep d = alive ep d" for d by (simp add: alive_def)
  have "objects_ok content env no (insert c X) {} ?ep"
    unfolding objects_ok_def
  proof (intro allI impI)
    fix d en assume "map_of (ep_objects ?ep) d = Some en"
    then have "map_of (ep_objects ep) d = Some en" by simp
    from objects_okD [OF o this] u show "d < ep_next ?ep \<and> entry_ok content env no en \<and>
        (if isFinished (ce_conn en) then d \<in> {} \<or> \<not> ce_listening en
         else ce_listening en \<and> (d \<in> insert c X \<or> map_of (ep_connections ?ep) (ce_target en) = Some d))"
      by (cases "ce_target en = u") auto
  qed
  moreover have "registered_ok {} ?ep"
    using registered_okD [OF g] al unfolding registered_ok_def by (auto split: if_splits)
  ultimately show ?thesis using q by (simp add: ep_ok_at_def stored_queues_ok_def)
qed

lemma insert_removed: "ep_ok_at content env no (insert c X - {c}) P ep \<Longrightarrow> ep_ok_at content env no X P ep"
  unfolding ep_ok_at_def objects_ok_def by (metis Diff_iff insert_iff)

lemma ep_close_ok:
  assumes env: "env_ok content env" and ok: "ep_ok_at content env no X {} ep"
  shows "ep_ok_at content env no X {} (ep_close env u ep) \<and> grows ep (ep_close env u ep) \<and>
    map_of (ep_connections (ep_close env u ep)) u = None"
proof (cases "map_of (ep_connections ep) u")
  case None
  then show ?thesis using ok grows_refl by (simp add: ep_close_def)
next
  case (Some c)
  obtain en where en: "map_of (ep_objects ep) c = Some en" "ce_target en = u" "\<not> isFinished (ce_conn en)"
    using registered_alive [OF ok Some] by blast
  let ?ep = "ep\<lparr>ep_connections := AList.delete u (ep_connections ep)\<rparr>"
  have ok1: "ep_ok_at content env no (insert c X) {} ?ep" by (rule unregister_ok [OF ok Some])
  have en1: "map_of (ep_objects ?ep) c = Some en" using en(1) by simp
  obtain ep1 es where r: "conn_apply env c (Close None) ?ep = (ep1, es)" by fastforce
  have cl: "closing_events es" by (rule close_closes [OF env ok1 en1 en(3) r])
  have x: "send_numbers [Close None] = [] \<and> no = no \<or> (\<exists>m. Close None = Send no m) \<and> no = no + 1" by simp
  note c = closing_operation [OF env ok1 en1 x r cl]
  have e: "ep_close env u ep = on_conn_close c ep1"
    using Some r closing_close [OF cl] by (simp add: ep_close_def)
  have d: "grows ep ?ep" by (auto simp: grows_def alive_def)
  show ?thesis
    using c(1) insert_removed grows_trans [OF d c(3)] c(3) unfolding e by (auto simp: grows_def)
qed

lemma validation_ok:
  assumes env: "env_ok content env" and ok: "ep_ok_at content env no X {} ep"
  shows "ep_ok_at content env no X {} (attemptProtocolVersionValidation env c ep) \<and>
    grows ep (attemptProtocolVersionValidation env c ep)"
proof -
  have "ep_ok_at content env no X {} (ep\<lparr>ep_versions := vs\<rparr>) \<and> grows ep (ep\<lparr>ep_versions := vs\<rparr>)" for vs
    using same_links_ok [OF ok same_links_basic(4)] same_links_grows [OF same_links_basic(4)] by blast
  then show ?thesis
    using ep_close_ok [OF env ok] ok grows_refl [of ep]
    unfolding attemptProtocolVersionValidation_def Let_def by (auto split: option.split sum.split)
qed

lemma description_ok:
  assumes env: "env_ok content env" and ok: "ep_ok_at content env no X {} ep"
  shows "ep_ok_at content env no X {} (on_conn_event env c (EmitLocalDescription ty desc) ep) \<and>
    grows ep (on_conn_event env c (EmitLocalDescription ty desc) ep)"
proof (cases "map_of (ep_objects ep) c")
  case None
  then show ?thesis using ok grows_refl by (simp add: on_conn_event_def)
next
  case (Some en)
  have "same_links ep (update_entry c (\<lambda>en. en\<lparr>ce_description_left := False\<rparr>) ep)"
    by (rule same_links_update) (simp add: similar_def)
  then have l: "same_links ep (ep_signal x (update_entry c (\<lambda>en. en\<lparr>ce_description_left := False\<rparr>) ep))" for x
    using same_links_trans [OF _ same_links_basic(3)] by blast
  have "ep_ok_at content env no X {} (attemptProtocolVersionValidation env c
        (ep_signal x (update_entry c (\<lambda>en. en\<lparr>ce_description_left := False\<rparr>) ep))) \<and>
      grows ep (attemptProtocolVersionValidation env c
        (ep_signal x (update_entry c (\<lambda>en. en\<lparr>ce_description_left := False\<rparr>) ep)))" for x
    using validation_ok [OF env same_links_ok [OF ok l [of x]], of c] grows_trans [OF same_links_grows [OF l [of x]]]
    by blast
  then show ?thesis using ok grows_refl [of ep] by (simp add: on_conn_event_def Some Let_def)
qed

lemma plain_events_ok:
  assumes "ep_ok_at content env no X {} ep" "list_all plain_event es"
  shows "ep_ok_at content env no X {} (foldl (\<lambda>ep e. on_conn_event env c e ep) ep es) \<and>
    same_links ep (foldl (\<lambda>ep e. on_conn_event env c e ep) ep es)"
  using assms
proof (induction es arbitrary: ep)
  case (Cons e es)
  from plain_event_links [of e ep env c] Cons.prems(2) have l: "same_links ep (on_conn_event env c e ep)" by simp
  from Cons.IH [OF same_links_ok [OF Cons.prems(1) l]] Cons.prems(2) same_links_trans [OF l] show ?case by simp
qed (simp add: same_links_refl)

text \<open>An operation of a connection, its events handled.\<close>

lemma operation_ok:
  assumes env: "env_ok content env" and ok: "ep_ok_at content env no X {} ep"
    and x: "send_numbers [x] = [] \<and> no' = no \<or> (\<exists>m. x = Send no m) \<and> no' = no + 1"
  shows "ep_ok_at content env no' X {} (conn_operation env c x ep) \<and> grows ep (conn_operation env c x ep)"
proof (cases "map_of (ep_objects ep) c")
  case None
  have "ep_ok_at content env no' X {} ep"
    using ok x entry_later [of content env no _ no'] stored_later [of content env no ep no']
    unfolding ep_ok_at_def objects_ok_def by (metis le_add1 order_refl)
  then show ?thesis using None grows_refl by (simp add: conn_operation_def conn_apply_def)
next
  case (Some en)
  obtain ep1 es where r: "conn_apply env c x ep = (ep1, es)" by fastforce
  have op: "conn_operation env c x ep = foldl (\<lambda>ep e. on_conn_event env c e ep) ep1 es"
    by (simp add: conn_operation_def r)
  show ?thesis
  proof (cases "closing_events es")
    case True
    note c = closing_operation [OF env ok Some x r True]
    obtain t where t: "map_of (ep_objects ep1) c = Some (en\<lparr>ce_conn := t\<rparr>)" using c(4) by blast
    have al: "\<not> isFinished (ce_conn en)"
      using apply_ok(1) [OF env ok Some x r] True closing_close quiet_no_close by (auto split: if_splits)
    then have li: "ce_listening en"
      using objects_okD(4) [OF _ Some] ok unfolding ep_ok_at_def by blast
    have "foldl (\<lambda>ep e. on_conn_event env c e ep) ep1 es = on_conn_close c ep1 \<or>
      foldl (\<lambda>ep e. on_conn_event env c e ep) ep1 es = on_conn_close c (settle_connects c ConnectFailed ep1)"
      using True t li unfolding closing_events_def
      by (auto simp: on_conn_event_def Let_def settle_connects_def)
    moreover have "on_conn_close c (settle_connects c ConnectFailed ep1) = on_conn_close c ep1"
      using t by (simp add: on_conn_close_def Let_def settle_connects_def ep_emit_def update_entry_def ep_record_def comp_def)
    ultimately have "conn_operation env c x ep = on_conn_close c ep1" unfolding op by auto
    then show ?thesis using c(1,3) unfolding ep_ok_at_def objects_ok_def by (metis Diff_iff)
  next
    case False
    note q = quiet_grows [OF env ok Some x r False]
    have "quiet_events es" using apply_ok(1) [OF env ok Some x r] False by (auto split: if_splits)
    then consider "list_all plain_event es" | ty desc where "es = [EmitLocalDescription ty desc]"
      unfolding quiet_events_def by blast
    then show ?thesis
    proof cases
      case 1
      then show ?thesis
        using plain_events_ok [OF q(1) 1, of c] grows_trans [OF q(2) same_links_grows] unfolding op by blast
    next
      case 2
      then show ?thesis
        using description_ok [OF env q(1), of c ty desc] grows_trans [OF q(2)] unfolding op by auto
    qed
  qed
qed

subsection \<open>Connecting\<close>

text \<open>What the parts of the invariant read.\<close>

lemma objects_ok_cong:
  assumes "ep_objects ep' = ep_objects ep" "ep_next ep' = ep_next ep" "ep_connections ep' = ep_connections ep"
  shows "objects_ok content env no X P ep' = objects_ok content env no X P ep"
  unfolding objects_ok_def assms ..

lemma stored_queues_ok_cong:
  assumes "ep_queues ep' = ep_queues ep"
  shows "stored_queues_ok content env no ep' = stored_queues_ok content env no ep"
  unfolding stored_queues_ok_def assms ..

lemma registered_ok_cong:
  assumes "ep_objects ep' = ep_objects ep" "ep_connections ep' = ep_connections ep" "ep_stopped ep' = ep_stopped ep"
    "ep_connects ep' = ep_connects ep"
  shows "registered_ok P ep' = registered_ok P ep"
  unfolding registered_ok_def alive_def assms ..

lemma other_input: "send_numbers [x] = [] \<Longrightarrow> send_numbers [x] = [] \<and> no = no \<or> (\<exists>m. x = Send no m) \<and> no = no + 1"
  by simp

lemma add_promise:
  assumes ok: "ep_ok_at content env no X {} ep" and r: "\<And>c. r = Connecting c \<Longrightarrow> alive ep c"
  shows "ep_ok_at content env no X {} (ep\<lparr>ep_connects := ep_connects ep @ [r]\<rparr>)"
proof -
  have al: "alive (ep\<lparr>ep_connects := ep_connects ep @ [r]\<rparr>) c = alive ep c" for c by (simp add: alive_def)
  have g: "registered_ok {} ep" using ok by (simp add: ep_ok_at_def)
  have "registered_ok {} (ep\<lparr>ep_connects := ep_connects ep @ [r]\<rparr>)"
    using registered_okD [OF g] r unfolding registered_ok_def al by auto
  moreover have "objects_ok content env no X {} (ep\<lparr>ep_connects := ep_connects ep @ [r]\<rparr>) = objects_ok content env no X {} ep"
    "stored_queues_ok content env no (ep\<lparr>ep_connects := ep_connects ep @ [r]\<rparr>) = stored_queues_ok content env no ep"
    by (rule objects_ok_cong stored_queues_ok_cong; simp)+
  ultimately show ?thesis using ok unfolding ep_ok_at_def by blast
qed

text \<open>A new connection object, registered under its peer.\<close>

lemma new_entry_ok:
  assumes env: "env_ok content env" and ok: "ep_ok_at content env no X {} ep" and u: "map_of (ep_connections ep) u = None"
    and ns: "\<not> ep_stopped ep"
    and q: "q = (case map_of (ep_queues ep) u of None \<Rightarrow> new_queue (ee_heap env) | Some q \<Rightarrow> q)"
    and en: "en = \<lparr>ce_conn = new_connection (ee_heap env) info q, ce_target = u, ce_router = router,
        ce_offering = offering, ce_listening = True, ce_description_left = True, ce_candidate_left = True,
        ce_open_left = True\<rparr>"
    and ep': "ep' = ep\<lparr>ep_queues := AList.update u q (ep_queues ep), ep_objects := AList.update (ep_next ep) en (ep_objects ep),
        ep_next := ep_next ep + 1, ep_connections := AList.update u (ep_next ep) (ep_connections ep)\<rparr>"
  shows "ep_ok_at content env no X {} ep'" "alive ep' (ep_next ep)" "alive ep' d \<Longrightarrow> d = ep_next ep \<or> alive ep d"
    "d \<noteq> ep_next ep \<Longrightarrow> map_of (ep_objects ep') d = map_of (ep_objects ep) d"
proof -
  have sq: "stored_queues_ok content env no ep" and o: "objects_ok content env no X {} ep" and g: "registered_ok {} ep"
    using ok by (simp_all add: ep_ok_at_def)
  have H: "heap_lawful (ee_heap env) content" using env by (simp add: env_ok_def)
  have e1: "map_of (ep_objects ep') = (map_of (ep_objects ep))(ep_next ep \<mapsto> en)" by (simp add: ep' update_conv')
  have fin: "\<not> isFinished (ce_conn en)" by (simp add: en new_connection_def start_timer_def Let_def)
  show "alive ep' (ep_next ep)" using fin e1 by (simp add: alive_def)
  show "alive ep' d \<Longrightarrow> d = ep_next ep \<or> alive ep d" using e1 by (auto simp: alive_def split: if_splits)
  show "d \<noteq> ep_next ep \<Longrightarrow> map_of (ep_objects ep') d = map_of (ep_objects ep) d" using e1 by simp
  have qo: "(\<exists>added. queue_ok content no added q) \<and> length (queue_waiting content q) \<le> ee_maxMessageSize env"
  proof (cases "map_of (ep_queues ep) u")
    case None
    then show ?thesis using new_queue_ok [OF H, of no] q heap_laws(1) [OF H]
      by (auto simp: new_queue_def queue_waiting_def)
  next
    case (Some q')
    then show ?thesis using sq q unfolding stored_queues_ok_def by simp
  qed
  have "messageQueue (ce_conn en) = q" by (simp add: en new_connection_def start_timer_def Let_def)
  moreover have "conn_timers_ok (ce_conn en)" by (simp add: en new_connection_timers)
  moreover have "end_ok (ce_conn en)"
    by (simp add: en end_ok_def closes_def new_connection_def start_timer_def Let_def)
  ultimately have eo: "entry_ok content env no en"
    using qo unfolding entry_ok_def conn_queue_ok_def by (simp add: entry_config_def)
  have fresh: "d < ep_next ep" if "map_of (ep_objects ep) d = Some e" for d e using objects_okD(1) [OF o that] .
  have "objects_ok content env no X {} ep'"
    unfolding objects_ok_def
  proof (intro allI impI)
    fix d e assume d: "map_of (ep_objects ep') d = Some e"
    show "d < ep_next ep' \<and> entry_ok content env no e \<and>
        (if isFinished (ce_conn e) then d \<in> {} \<or> \<not> ce_listening e
         else ce_listening e \<and> (d \<in> X \<or> map_of (ep_connections ep') (ce_target e) = Some d))"
    proof (cases "d = ep_next ep")
      case True
      then have "e = en" using d e1 by simp
      then show ?thesis using True eo fin by (simp add: ep' en)
    next
      case False
      then have old: "map_of (ep_objects ep) d = Some e" using d e1 by simp
      from objects_okD [OF o old] u show ?thesis by (cases "ce_target e = u") (auto simp: ep')
    qed
  qed
  moreover have "registered_ok {} ep'"
  proof -
    have al: "alive ep d \<Longrightarrow> alive ep' d" for d
      using fresh e1 by (cases "d = ep_next ep") (auto simp: alive_def)
    have "(\<exists>e. map_of (ep_objects ep') d = Some e \<and> ce_target e = v) \<and> alive ep' d"
      if "map_of (ep_connections ep') v = Some d" for v d
    proof (cases "v = u")
      case True
      then have "d = ep_next ep" using that by (simp add: ep')
      then show ?thesis using True e1 \<open>alive ep' (ep_next ep)\<close> by (simp add: en)
    next
      case False
      then have old: "map_of (ep_connections ep) v = Some d" using that by (simp add: ep')
      then obtain e where e: "map_of (ep_objects ep) d = Some e" "ce_target e = v" using registered_okD(1) [OF g] by blast
      moreover have "d \<noteq> ep_next ep" using fresh [OF e(1)] by simp
      ultimately show ?thesis using e1 al registered_okD(2) [OF g old] by auto
    qed
    moreover have "alive ep' d" if "Connecting d \<in> set (ep_connects ep')" for d
      using registered_okD(3) [OF g, of d] al that by (simp add: ep')
    ultimately show ?thesis using registered_okD(5) [OF g] ns unfolding registered_ok_def by (simp add: ep')
  qed
  moreover have "stored_queues_ok content env no ep'"
    using sq qo unfolding stored_queues_ok_def by (auto simp: ep')
  ultimately show "ep_ok_at content env no X {} ep'" by (simp add: ep_ok_at_def)
qed

lemma connect_operation:
  assumes env: "env_ok content env" and ok: "ep_ok_at content env no X {} ep" and al: "alive ep c"
  shows "alive (conn_operation env c (Connect p d) ep) c"
proof -
  obtain en where en: "map_of (ep_objects ep) c = Some en" "\<not> isFinished (ce_conn en)" using al by (auto simp: alive_def)
  obtain ep1 es where r: "conn_apply env c (Connect p d) ep = (ep1, es)" by fastforce
  have "es = []"
    using apply_parts(7) [OF en(1) r] en(2) loaded_fields(2) [of ep en]
    by (simp add: conn_step_def conn_connect_def Let_def)
  then show ?thesis
    using apply_ok(2) [OF env ok en(1) other_input r] en(2) r
    by (auto simp: conn_operation_def alive_def closing_events_def)
qed

lemma connect_ok:
  assumes env: "env_ok content env" and ok: "ep_ok_at content env no X {} ep"
  shows "ep_ok_at content env no X {} (ep_connect env u router offering ep) \<and>
    ep_stopped (ep_connect env u router offering ep) = ep_stopped ep \<and>
    ep_no (ep_connect env u router offering ep) = ep_no ep"
proof (cases "ep_stopped ep")
  case True
  then show ?thesis using add_promise [OF ok, of ConnectFailed] by (simp add: ep_connect_def)
next
  case ns: False
  show ?thesis
  proof (cases "map_of (ep_connections ep) u")
    case (Some c)
    then have "alive ep c" using registered_alive [OF ok Some] by (auto simp: alive_def)
    then show ?thesis
      using ns Some add_promise [OF ok, of "Connected u"] add_promise [OF ok, of "Connecting c"] by (simp add: ep_connect_def)
  next
    case None
    define q where "q = (case map_of (ep_queues ep) u of None \<Rightarrow> new_queue (ee_heap env) | Some q \<Rightarrow> q)"
    show ?thesis
    proof (cases "newUnknown (ee_supported env) u")
      case (Inl e)
      have H: "heap_lawful (ee_heap env) content" using env by (simp add: env_ok_def)
      have "stored_queues_ok content env no (ep\<lparr>ep_queues := AList.update u q (ep_queues ep)\<rparr>)"
        using ok new_queue_ok [OF H, of no] heap_laws(1) [OF H]
        by (auto simp: ep_ok_at_def stored_queues_ok_def q_def new_queue_def queue_waiting_def split: option.split)
      moreover have "objects_ok content env no X {} (ep\<lparr>ep_queues := AList.update u q (ep_queues ep)\<rparr>) =
          objects_ok content env no X {} ep" by (rule objects_ok_cong) simp_all
      moreover have "registered_ok {} (ep\<lparr>ep_queues := AList.update u q (ep_queues ep)\<rparr>) = registered_ok {} ep"
        by (rule registered_ok_cong) simp_all
      ultimately have "ep_ok_at content env no X {} (ep\<lparr>ep_queues := AList.update u q (ep_queues ep)\<rparr>)"
        using ok unfolding ep_ok_at_def by blast
      from add_promise [OF this, of ConnectFailed] show ?thesis
        using ns None Inl by (simp add: ep_connect_def q_def)
    next
      case (Inr info)
      define en where "en = \<lparr>ce_conn = new_connection (ee_heap env) info q, ce_target = u, ce_router = router,
          ce_offering = offering, ce_listening = True, ce_description_left = True, ce_candidate_left = True,
          ce_open_left = True\<rparr>"
      define ep2 where "ep2 = ep\<lparr>ep_queues := AList.update u q (ep_queues ep),
          ep_objects := AList.update (ep_next ep) en (ep_objects ep), ep_next := ep_next ep + 1,
          ep_connections := AList.update u (ep_next ep) (ep_connections ep)\<rparr>"
      note n = new_entry_ok [OF env ok None ns q_def en_def ep2_def]
      define ep3 where "ep3 = conn_operation env (ep_next ep) (Connect (ep_next ep) (ep_next ep)) ep2"
      have o: "ep_ok_at content env no X {} ep3" "grows ep2 ep3"
        using operation_ok [OF env n(1) other_input, of "Connect (ep_next ep) (ep_next ep)" "ep_next ep"]
        by (simp_all add: ep3_def)
      have a: "alive ep3 (ep_next ep)" unfolding ep3_def by (rule connect_operation [OF env n(1,2)])
      define ep4 where "ep4 = (if offering then ep3 else ep_signal (SignalConnectionNeeded router u) ep3)"
      have l: "same_links ep3 ep4" using same_links_refl same_links_basic(3) by (auto simp: ep4_def)
      have "ep_connect env u router offering ep = ep4\<lparr>ep_connects := ep_connects ep4 @ [Connecting (ep_next ep)]\<rparr>"
        using ns None Inr unfolding ep_connect_def ep4_def ep3_def ep2_def en_def q_def by (simp add: Let_def)
      moreover have "ep_stopped ep4 = ep_stopped ep" "ep_no ep4 = ep_no ep"
        using growsD(1,2) [OF o(2)] l by (simp_all add: same_links_def ep2_def)
      ultimately show ?thesis
        using add_promise [OF same_links_ok [OF o(1) l], of "Connecting (ep_next ep)"] a same_links_alive [OF l] by simp
    qed
  qed
qed

subsection \<open>Every input keeps the invariant\<close>

lemma send_ok:
  assumes env: "env_ok content env" and ok: "ep_ok content env X {} ep"
  shows "ep_ok content env X {} (fst (ep_send env u m ep))" "ep_stopped (fst (ep_send env u m ep)) = ep_stopped ep"
proof -
  let ?ep = "ep\<lparr>ep_no := ep_no ep + 1\<rparr>"
  have "ep_ok_at content env (ep_no ep) X {} ?ep"
    using ok objects_ok_cong [of ?ep ep content env "ep_no ep" X "{}"] registered_ok_cong [of ?ep ep "{}"]
      stored_queues_ok_cong [of ?ep ep content env "ep_no ep"]
    by (simp add: ep_ok_def ep_ok_at_def)
  from operation_ok [OF env this, of "Send (ep_no ep) m" "ep_no ep + 1"]
  have o: "ep_ok_at content env (ep_no ep + 1) X {} (conn_operation env c (Send (ep_no ep) m) ?ep) \<and>
      grows ?ep (conn_operation env c (Send (ep_no ep) m) ?ep)" for c by simp
  have "ep_ok content env X {} (conn_operation env c (Send (ep_no ep) m) ?ep) \<and>
      ep_stopped (conn_operation env c (Send (ep_no ep) m) ?ep) = ep_stopped ep" for c
    using o [of c] growsD(1,2) [of ?ep "conn_operation env c (Send (ep_no ep) m) ?ep"] unfolding ep_ok_def by simp
  then show "ep_ok content env X {} (fst (ep_send env u m ep))" "ep_stopped (fst (ep_send env u m ep)) = ep_stopped ep"
    using ok unfolding ep_send_def by (auto split: option.split)
qed

lemma op_ok:
  assumes "env_ok content env" "ep_ok content env X {} ep" "send_numbers [x] = []"
  shows "ep_ok content env X {} (conn_operation env c x ep)" "ep_stopped (conn_operation env c x ep) = ep_stopped ep"
    "grows ep (conn_operation env c x ep)"
  using operation_ok [OF assms(1) assms(2) [unfolded ep_ok_def] other_input [OF assms(3)], of c]
    growsD(1,2) [of ep "conn_operation env c x ep"]
  unfolding ep_ok_def by auto

lemma closed_ok:
  assumes "env_ok content env" "ep_ok content env X {} ep"
  shows "ep_ok content env X {} (ep_close env u ep)" "ep_stopped (ep_close env u ep) = ep_stopped ep"
  using ep_close_ok [OF assms(1) assms(2) [unfolded ep_ok_def], of u]
    growsD(1,2) [of ep "ep_close env u ep"] unfolding ep_ok_def by auto

lemma connected_ok:
  assumes "env_ok content env" "ep_ok content env X {} ep"
  shows "ep_ok content env X {} (ep_connect_default env u router ep)"
    "ep_ok content env X {} (ep_connect env u router offering ep)"
  using connect_ok [OF assms(1) assms(2) [unfolded ep_ok_def]] unfolding ep_ok_def ep_connect_default_def by auto

lemma validated_ok:
  assumes "env_ok content env" "ep_ok content env X {} ep"
  shows "ep_ok content env X {} (attemptProtocolVersionValidation env c ep)"
  using validation_ok [OF assms(1) assms(2) [unfolded ep_ok_def], of c]
    growsD(2) [of ep "attemptProtocolVersionValidation env c ep"] unfolding ep_ok_def by auto

lemma close_ends:
  assumes env: "env_ok content env" and ok: "ep_ok content env X {} ep"
  shows "\<not> alive (conn_operation env c (Close err) ep) c"
proof (cases "alive ep c")
  case True
  then obtain en where en: "map_of (ep_objects ep) c = Some en" "\<not> isFinished (ce_conn en)" by (auto simp: alive_def)
  have ok': "ep_ok_at content env (ep_no ep) X {} ep" using ok by (simp add: ep_ok_def)
  have op: "ep_ok_at content env (ep_no ep) X {} (conn_operation env c (Close err) ep) \<and> grows ep (conn_operation env c (Close err) ep)"
    by (rule operation_ok [OF env ok']) simp
  obtain ep1 es where r: "conn_apply env c (Close err) ep = (ep1, es)" by fastforce
  have cl: "closing_events es" by (rule close_closes [OF env ok' en r])
  obtain t where t: "map_of (ep_objects ep1) c = Some (en\<lparr>ce_conn := t\<rparr>)" "isFinished t"
    using apply_ok(2) [OF env ok' en(1) other_input r] cl by auto
  have keeps: "\<not> alive ep' c \<Longrightarrow> \<not> alive (on_conn_event env c e ep') c"
    if "e = EmitClose \<or> plain_event e" for ep' e
  proof (cases "e = EmitClose")
    case True
    assume "\<not> alive ep' c"
    then show ?thesis using True
      by (auto simp: on_conn_event_def on_conn_close_def Let_def alive_def settle_connects_def ep_record_def
          update_entry_def ep_emit_def split: option.splits)
  next
    case False
    assume "\<not> alive ep' c"
    then show ?thesis using False that same_links_alive [OF plain_event_links [of e ep' env c], of c] by simp
  qed
  have "\<not> alive ep1 c" using t by (simp add: alive_def)
  then have "\<not> alive (foldl (\<lambda>ep e. on_conn_event env c e ep) ep1 es) c"
    using cl keeps unfolding closing_events_def by auto
  then show ?thesis by (simp add: conn_operation_def r)
next
  case False
  then show ?thesis
    using op_ok(3) [OF env ok, of "Close err" c] growsD(3) by auto
qed

lemma offer_ok:
  assumes env: "env_ok content env" and ok: "ep_ok content env X {} ep"
  shows "ep_ok content env X {} (on_rtc_offer env router info desc t1 t2 ep)"
proof -
  let ?ep1 = "ep_connect_default env (peerId info) router ep"
  have o1: "ep_ok content env X {} ?ep1" by (rule connected_ok(1) [OF env ok])
  have o2: "ep_ok content env X {} (ep_connect_default env (peerId info) router (ep_close env (peerId info) ?ep1))"
    by (rule connected_ok(1) [OF env closed_ok(1) [OF env o1]])
  have op: "ep_ok content env X {} (conn_operation env c (SetRemoteDescription desc ty t1 t2)
      (conn_operation env c (SetPeerInfo info) e))" if "ep_ok content env X {} e" for c ty e
    by (rule op_ok(1) [OF env op_ok(1) [OF env that]]) simp_all
  show ?thesis
    using o1 op [OF o1] op [OF o2] unfolding on_rtc_offer_def Let_def by (auto split: option.split)
qed

lemma answer_ok:
  assumes env: "env_ok content env" and ok: "ep_ok content env X {} ep"
  shows "ep_ok content env X {} (on_rtc_answer env info desc t1 t2 ep)"
proof -
  have op: "ep_ok content env X {} (conn_operation env c (SetRemoteDescription desc ty t1 t2)
      (conn_operation env c (SetPeerInfo info) ep))" for c ty
    by (rule op_ok(1) [OF env op_ok(1) [OF env ok]]) simp_all
  show ?thesis
    using ok validated_ok [OF env op] unfolding on_rtc_answer_def by (auto split: option.split)
qed

lemma signals_ok:
  assumes env: "env_ok content env" and ok: "ep_ok content env X {} ep"
  shows "ep_ok content env X {} (on_remote_candidate env pid cand mid ep)"
    "ep_ok content env X {} (on_rtc_connect env pid router ep)"
    "ep_ok content env X {} (on_rtc_error env pid ep)"
proof -
  show "ep_ok content env X {} (on_remote_candidate env pid cand mid ep)" "ep_ok content env X {} (on_rtc_error env pid ep)"
    using ok op_ok(1) [OF env ok] unfolding on_remote_candidate_def on_rtc_error_def by (auto split: option.split)
  show "ep_ok content env X {} (on_rtc_connect env pid router ep)"
    using ok connected_ok(1) [OF env ok] connected_ok(1) [OF env closed_ok(1) [OF env ok]]
    unfolding on_rtc_connect_def Let_def by (auto split: option.split)
qed

lemma stop_all:
  assumes env: "env_ok content env"
  shows "ep_ok content env X {} ep \<Longrightarrow> X \<subseteq> Y \<union> set cs \<Longrightarrow> (\<And>c. c \<in> Y \<Longrightarrow> \<not> alive ep c) \<Longrightarrow>
    ep_ok content env {} {} (foldl (\<lambda>ep c. conn_operation env c (Close None) ep) ep cs) \<and>
    ep_stopped (foldl (\<lambda>ep c. conn_operation env c (Close None) ep) ep cs) = ep_stopped ep"
proof (induction cs arbitrary: ep Y)
  case Nil
  then have dead: "\<not> alive ep c" if "c \<in> X" for c using that by auto
  have "objects_ok content env (ep_no ep) {} {} ep"
    unfolding objects_ok_def
  proof (intro allI impI)
    fix c en assume en: "map_of (ep_objects ep) c = Some en"
    have o: "objects_ok content env (ep_no ep) X {} ep" using Nil.prems(1) by (simp add: ep_ok_def ep_ok_at_def)
    from objects_okD [OF o en] dead [of c] en show "c < ep_next ep \<and> entry_ok content env (ep_no ep) en \<and>
        (if isFinished (ce_conn en) then c \<in> {} \<or> \<not> ce_listening en
         else ce_listening en \<and> (c \<in> {} \<or> map_of (ep_connections ep) (ce_target en) = Some c))"
      by (auto simp: alive_def)
  qed
  then show ?case using Nil.prems(1) by (simp add: ep_ok_def ep_ok_at_def)
next
  case (Cons c cs)
  let ?ep = "conn_operation env c (Close None) ep"
  have o: "ep_ok content env X {} ?ep" "ep_stopped ?ep = ep_stopped ep" "grows ep ?ep"
    using op_ok [OF env Cons.prems(1), of "Close None" c] by simp_all
  have "\<not> alive ?ep d" if "d \<in> insert c Y" for d
    using that close_ends [OF env Cons.prems(1)] Cons.prems(3) growsD(3) [OF o(3)] by auto
  moreover have "X \<subseteq> insert c Y \<union> set cs" using Cons.prems(2) by auto
  ultimately show ?case using Cons.IH [OF o(1), of "insert c Y"] o(2) by simp
qed

lemma stopping_ok:
  assumes ok: "ep_ok content env {} {} ep"
  shows "ep_ok content env (set (values_of (ep_connections ep))) {} (ep\<lparr>ep_stopped := True, ep_connections := [], ep_queues := []\<rparr>)"
proof -
  let ?ep = "ep\<lparr>ep_stopped := True, ep_connections := [], ep_queues := []\<rparr>"
  let ?X = "set (values_of (ep_connections ep))"
  have o: "objects_ok content env (ep_no ep) {} {} ep" and g: "registered_ok {} ep"
    using ok by (simp_all add: ep_ok_def ep_ok_at_def)
  have "objects_ok content env (ep_no ?ep) ?X {} ?ep"
    unfolding objects_ok_def
  proof (intro allI impI)
    fix c en assume en: "map_of (ep_objects ?ep) c = Some en"
    then have "map_of (ep_objects ep) c = Some en" by simp
    note objects_okD [OF o this]
    moreover have "c \<in> ?X" if "map_of (ep_connections ep) u = Some c" for u
      using map_of_SomeD [OF that] by force
    ultimately show "c < ep_next ?ep \<and> entry_ok content env (ep_no ?ep) en \<and>
        (if isFinished (ce_conn en) then c \<in> {} \<or> \<not> ce_listening en
         else ce_listening en \<and> (c \<in> ?X \<or> map_of (ep_connections ?ep) (ce_target en) = Some c))"
      by auto
  qed
  moreover have "registered_ok {} ?ep"
    using registered_okD(3) [OF g] unfolding registered_ok_def alive_def by simp
  ultimately show "ep_ok content env ?X {} ?ep" by (simp add: ep_ok_def ep_ok_at_def stored_queues_ok_def)
qed

lemma stop_ok:
  assumes env: "env_ok content env" and ok: "ep_ok content env {} {} ep"
  shows "ep_ok content env {} {} (ep_stop env ep)" "ep_stopped (ep_stop env ep)"
proof -
  from stop_all [OF env stopping_ok [OF ok], of "{}" "values_of (ep_connections ep)"]
  show "ep_ok content env {} {} (ep_stop env ep)" "ep_stopped (ep_stop env ep)"
    by (simp_all add: ep_stop_def)
qed

definition endpoint_good :: "('h \<Rightarrow> nat list) \<Rightarrow> 'h endpoint_env \<Rightarrow> 'h endpoint \<Rightarrow> bool" where
  "endpoint_good content env ep \<longleftrightarrow> env_ok content env \<and> ep_ok content env {} {} ep"

interpretation endpoints: step_invariant "endpoint_step env" "\<lambda>_. True" "endpoint_good content env"
proof unfold_locales
  fix ep x assume g: "endpoint_good content env ep"
  then have env: "env_ok content env" and ok: "ep_ok content env {} {} ep" by (simp_all add: endpoint_good_def)
  have "ep_ok content env {} {} (endpoint_step env ep x)"
  proof (cases x)
    case (ConnReport c y)
    have "send_numbers [y] = []" if "is_report y" using that by (cases y) simp_all
    then show ?thesis using ok op_ok(1) [OF env ok] ConnReport by simp
  qed (use ok in \<open>simp_all add: connected_ok(2) [OF env] send_ok(1) [OF env] closed_ok(1) [OF env] stop_ok(1) [OF env]
      offer_ok [OF env] answer_ok [OF env] signals_ok [OF env]\<close>)
  then show "endpoint_good content env (endpoint_step env ep x)" using env by (simp add: endpoint_good_def)
qed

lemma new_endpoint_good: "env_ok content env \<Longrightarrow> endpoint_good content env new_endpoint"
  by (simp add: endpoint_good_def ep_ok_def ep_ok_at_def stored_queues_ok_def objects_ok_def registered_ok_def
      new_endpoint_def)

lemma endpoint_run_good:
  "env_ok content env \<Longrightarrow> endpoint_good content env (foldl (endpoint_step env) new_endpoint es)"
  using endpoints.run_inv [OF new_endpoint_good] by simp

end
