(* ===== verification/EndpointHistory.thy ===== *)
theory EndpointHistory
  imports EndpointRuns
begin

section \<open>What an endpoint keeps over time\<close>

text \<open>
  Two things that outlast the connections of \<open>src/src/connection/WebRtcEndpoint.ts\<close>. A connection
  object that has finished stays finished, whatever happens later (\<open>ages\<close>), so a number that was
  once replaced or closed is never registered again. And the queue of a peer belongs to the
  peer: every operation but sending and flushing leaves it alone (\<open>preserves\<close>), and over a run
  it holds, settled or waiting, exactly the messages that were accepted for the peer (\<open>holds\<close>).
\<close>

subsection \<open>The parts of closing and connecting\<close>

lemma close_operation_parts:
  assumes env: "env_ok content env" and ok: "ep_ok_at content env no {} {} ep" and u: "map_of (ep_connections ep) u = Some c"
  shows "map_of (ep_queues (ep_close env u ep)) = map_of (ep_queues ep)" "ep_next (ep_close env u ep) = ep_next ep"
proof -
  obtain en where en: "map_of (ep_objects ep) c = Some en" "ce_target en = u" "\<not> isFinished (ce_conn en)"
    using registered_alive [OF ok u] by blast
  let ?ep = "ep\<lparr>ep_connections := AList.delete u (ep_connections ep)\<rparr>"
  obtain ep1 es where r: "conn_apply env c (Close None) ?ep = (ep1, es)" by fastforce
  have en1: "map_of (ep_objects ?ep) c = Some en" using en(1) by simp
  note p = apply_parts [OF en1 r]
  have "messageQueue (conn_step (ee_heap env) (entry_config env en) (loaded ?ep en) (Close None)) = messageQueue (loaded ?ep en)"
    by (simp add: conn_step_def)
  then have q: "map_of (ep_queues ep1) = map_of (ep_queues ep)"
    using p(2) en(2) by (cases "map_of (ep_queues ep) u") (auto simp: loaded_def fun_eq_iff)
  have "ep_queues (on_conn_close c e) = ep_queues e" "ep_next (on_conn_close c e) = ep_next e" for e :: "'a endpoint"
    by (simp_all add: on_conn_close_def Let_def settle_connects_def ep_record_def update_entry_def ep_emit_def
        split: option.split)
  then show "map_of (ep_queues (ep_close env u ep)) = map_of (ep_queues ep)" "ep_next (ep_close env u ep) = ep_next ep"
    using u r q p(4) by (simp_all add: ep_close_def)
qed

text \<open>A connection that \<open>connect\<close> makes: the one after the last, with the peer's queue.\<close>

lemma new_connection_made:
  assumes ns: "\<not> ep_stopped ep" and n: "map_of (ep_connections ep) u = None" and v: "newUnknown (ee_supported env) u = Inr info"
    and fresh: "map_of (ep_objects ep) (ep_next ep) = None"
  shows "map_of (ep_connections (ep_connect env u router offering ep)) u = Some (ep_next ep)"
    "\<exists>s. conn_at (ep_connect env u router offering ep) (ep_next ep) = Some s \<and> \<not> remoteDescriptionSet s \<and>
      messageQueue s = (case map_of (ep_queues ep) u of None \<Rightarrow> new_queue (ee_heap env) | Some q \<Rightarrow> q)"
    "map_of (ep_queues (ep_connect env u router offering ep)) u =
      Some (case map_of (ep_queues ep) u of None \<Rightarrow> new_queue (ee_heap env) | Some q \<Rightarrow> q)"
    "d \<noteq> ep_next ep \<Longrightarrow> map_of (ep_objects (ep_connect env u router offering ep)) d = map_of (ep_objects ep) d"
proof -
  define q where "q = (case map_of (ep_queues ep) u of None \<Rightarrow> new_queue (ee_heap env) | Some q \<Rightarrow> q)"
  define en where "en = \<lparr>ce_conn = new_connection (ee_heap env) info q, ce_target = u, ce_router = router,
      ce_offering = offering, ce_listening = True, ce_description_left = True, ce_candidate_left = True,
      ce_open_left = True\<rparr>"
  define ep2 where "ep2 = ep\<lparr>ep_queues := AList.update u q (ep_queues ep),
      ep_objects := AList.update (ep_next ep) en (ep_objects ep), ep_next := ep_next ep + 1,
      ep_connections := AList.update u (ep_next ep) (ep_connections ep)\<rparr>"
  define t where "t = fst (conn_connect (entry_config env en) (ep_next ep) (ep_next ep)
      ((new_connection (ee_heap env) info q)\<lparr>messageQueue := q\<rparr>))"
  have t: "messageQueue t = q" "\<not> remoteDescriptionSet t" "emitted t = []" "settled (messageQueue t) = settled q"
    by (simp_all add: t_def conn_connect_def new_connection_def start_timer_def arm_connection_timeout_def
        setupDataChannel_def call_native_def Let_def)
  have op: "conn_operation env (ep_next ep) (Connect (ep_next ep) (ep_next ep)) ep2 =
      ep2\<lparr>ep_objects := AList.update (ep_next ep) (en\<lparr>ce_conn := t\<rparr>) (ep_objects ep2),
          ep_queues := AList.update u q (ep_queues ep2)\<rparr>"
    using t(1,3) by (simp add: conn_operation_def conn_apply_def ep2_def en_def conn_step_def Let_def t_def [unfolded en_def]
        ep_record_def settle_metrics_def)
  define ep4 where "ep4 = (let ep3 = conn_operation env (ep_next ep) (Connect (ep_next ep) (ep_next ep)) ep2
      in if offering then ep3 else ep_signal (SignalConnectionNeeded router u) ep3)"
  have "ep_connect env u router offering ep = ep4\<lparr>ep_connects := ep_connects ep4 @ [Connecting (ep_next ep)]\<rparr>"
    using ns n v unfolding ep_connect_def ep4_def ep2_def en_def q_def by (simp add: Let_def)
  moreover have "ep_connections ep4 = ep_connections ep2" "ep_queues ep4 = AList.update u q (ep_queues ep2)"
      "ep_objects ep4 = AList.update (ep_next ep) (en\<lparr>ce_conn := t\<rparr>) (ep_objects ep2)"
    by (simp_all add: ep4_def op Let_def ep_signal_def)
  ultimately show "map_of (ep_connections (ep_connect env u router offering ep)) u = Some (ep_next ep)"
    "\<exists>s. conn_at (ep_connect env u router offering ep) (ep_next ep) = Some s \<and> \<not> remoteDescriptionSet s \<and>
      messageQueue s = (case map_of (ep_queues ep) u of None \<Rightarrow> new_queue (ee_heap env) | Some q \<Rightarrow> q)"
    "map_of (ep_queues (ep_connect env u router offering ep)) u =
      Some (case map_of (ep_queues ep) u of None \<Rightarrow> new_queue (ee_heap env) | Some q \<Rightarrow> q)"
    "d \<noteq> ep_next ep \<Longrightarrow> map_of (ep_objects (ep_connect env u router offering ep)) d = map_of (ep_objects ep) d"
    using t by (auto simp: ep2_def conn_at_def q_def)
qed

lemma fresh_number:
  "ep_ok_at content env no X P ep \<Longrightarrow> map_of (ep_objects ep) (ep_next ep) = None"
proof (cases "map_of (ep_objects ep) (ep_next ep)")
  case (Some en)
  assume "ep_ok_at content env no X P ep"
  then have "objects_ok content env no X P ep" by (simp add: ep_ok_at_def)
  from objects_okD(1) [OF this Some] show ?thesis by simp
qed


subsection \<open>Finished is finished\<close>

definition ages :: "'h endpoint \<Rightarrow> 'h endpoint \<Rightarrow> bool" where
  "ages a b \<longleftrightarrow> (\<forall>c en. map_of (ep_objects a) c = Some en \<longrightarrow>
     (\<exists>en'. map_of (ep_objects b) c = Some en' \<and> ce_target en' = ce_target en \<and>
        (isFinished (ce_conn en) \<longrightarrow> isFinished (ce_conn en'))))"

lemma agesD:
  "ages a b \<Longrightarrow> map_of (ep_objects a) c = Some en \<Longrightarrow> \<exists>en'. map_of (ep_objects b) c = Some en' \<and>
     ce_target en' = ce_target en \<and> (isFinished (ce_conn en) \<longrightarrow> isFinished (ce_conn en'))"
  unfolding ages_def by blast

lemma ages_trans: "ages a b \<Longrightarrow> ages b c \<Longrightarrow> ages a c"
  unfolding ages_def by metis

lemma ages_same: "ep_objects b = ep_objects a \<Longrightarrow> ages a b"
  by (simp add: ages_def)

lemma grows_ages:
  assumes "grows a b" shows "ages a b"
  unfolding ages_def
proof (intro allI impI)
  fix c en assume en: "map_of (ep_objects a) c = Some en"
  obtain en' where en': "map_of (ep_objects b) c = Some en'" "ce_target en' = ce_target en" using growsD(5) [OF assms en] by blast
  have "isFinished (ce_conn en) \<Longrightarrow> isFinished (ce_conn en')"
    using growsD(3) [OF assms, of c] en en'(1) by (auto simp: alive_def)
  then show "\<exists>en'. map_of (ep_objects b) c = Some en' \<and> ce_target en' = ce_target en \<and> (isFinished (ce_conn en) \<longrightarrow> isFinished (ce_conn en'))"
    using en' by blast
qed

lemma connect_ages:
  assumes ok: "ep_ok content env X {} ep"
  shows "ages ep (ep_connect env u router offering ep)"
proof -
  have fresh: "map_of (ep_objects ep) (ep_next ep) = None" using fresh_number ok unfolding ep_ok_def by blast
  have made: "map_of (ep_objects (ep_connect env u router offering ep)) d = Some en"
    if "\<not> ep_stopped ep" "map_of (ep_connections ep) u = None" "newUnknown (ee_supported env) u = Inr info" "map_of (ep_objects ep) d = Some en"
    for info d en
    using new_connection_made(4) [OF that(1-3) fresh, of d router offering] that(4) fresh by (cases "d = ep_next ep") simp_all
  show ?thesis
  proof (cases "ep_stopped ep \<or> map_of (ep_connections ep) u \<noteq> None")
    case True
    then show ?thesis by (intro ages_same) (auto simp: ep_connect_def)
  next
    case False
    then show ?thesis
      using made by (cases "newUnknown (ee_supported env) u") (simp_all add: ages_def ep_connect_def [where ep = ep])
  qed
qed

lemma op_ages: "env_ok content env \<Longrightarrow> ep_ok content env X {} ep \<Longrightarrow> send_numbers [x] = [] \<Longrightarrow> ages ep (conn_operation env c x ep)"
  by (rule grows_ages [OF op_ok(3)])

lemma close_ages:
  assumes "env_ok content env" "ep_ok content env X {} ep" shows "ages ep (ep_close env u ep)"
  using ep_close_ok [OF assms(1) assms(2) [unfolded ep_ok_def], of u] grows_ages by blast

lemma stop_ages:
  assumes env: "env_ok content env" and ok: "ep_ok content env {} {} ep"
  shows "ages ep (ep_stop env ep)"
proof -
  have "ages e (foldl (\<lambda>ep c. conn_operation env c (Close None) ep) e cs)" if "ep_ok content env X {} e" for e cs X
    using that
  proof (induction cs arbitrary: e)
    case (Cons c cs)
    have s: "send_numbers [Close None] = []" by simp
    show ?case using ages_trans [OF op_ages [OF env Cons.prems s] Cons.IH [OF op_ok(1) [OF env Cons.prems s]]] by simp
  qed (simp add: ages_same)
  from this [OF stopping_ok [OF ok]] have
    "ages (ep\<lparr>ep_stopped := True, ep_connections := [], ep_queues := []\<rparr>) (ep_stop env ep)" by (simp add: ep_stop_def)
  then show ?thesis by (rule ages_trans [OF ages_same, rotated]) simp
qed

lemma signals_age:
  assumes env: "env_ok content env" and ok: "ep_ok content env {} {} ep"
  shows "ages ep (on_rtc_offer env router info desc t1 t2 ep)" "ages ep (on_rtc_answer env info desc t1 t2 ep)"
    "ages ep (on_remote_candidate env pid cand mid ep)" "ages ep (on_rtc_connect env pid router ep)" "ages ep (on_rtc_error env pid ep)"
proof -
  have con: "ages e (ep_connect_default env u r e)" if "ep_ok content env {} {} e" for e u r
    using connect_ages [OF that] by (simp add: ep_connect_default_def)
  have two: "ages e (conn_operation env c (SetRemoteDescription desc ty t1 t2) (conn_operation env c (SetPeerInfo info) e))"
    if "ep_ok content env {} {} e" for e c ty
    using ages_trans [OF op_ages [OF env that] op_ages [OF env op_ok(1) [OF env that]]] by simp
  show "ages ep (on_rtc_offer env router info desc t1 t2 ep)"
  proof -
    let ?e1 = "ep_connect_default env (peerId info) router ep"
    let ?e2 = "ep_connect_default env (peerId info) router (ep_close env (peerId info) ?e1)"
    note o1 = connected_ok(1) [OF env ok, of "peerId info" router]
    note o2 = connected_ok(1) [OF env closed_ok(1) [OF env o1], of "peerId info" router "peerId info"]
    have "ages ep ?e2"
      by (rule ages_trans [OF ages_trans [OF con [OF ok] close_ages [OF env o1]] con [OF closed_ok(1) [OF env o1]]])
    then have "ages ep (conn_operation env c (SetRemoteDescription desc ty t1 t2) (conn_operation env c (SetPeerInfo info) ?e2))" for c ty
      by (rule ages_trans) (rule two [OF o2])
    moreover have "ages ep (conn_operation env c (SetRemoteDescription desc ty t1 t2) (conn_operation env c (SetPeerInfo info) ?e1))" for c ty
      by (rule ages_trans [OF con [OF ok] two [OF o1]])
    ultimately show ?thesis using con [OF ok] unfolding on_rtc_offer_def Let_def by (auto split: option.split)
  qed
  show "ages ep (on_rtc_answer env info desc t1 t2 ep)"
  proof -
    have val: "ages e (attemptProtocolVersionValidation env c e)" if "ep_ok content env {} {} e" for e c
      using validation_ok [OF env that [unfolded ep_ok_def], of c] grows_ages by blast
    have o: "ep_ok content env {} {} (conn_operation env c (SetRemoteDescription desc ''answer'' t1 t2) (conn_operation env c (SetPeerInfo info) ep))" for c
      by (rule op_ok(1) [OF env op_ok(1) [OF env ok]]) simp_all
    show ?thesis
      using ages_trans [OF two [OF ok] val [OF o]] ages_same [of ep ep] unfolding on_rtc_answer_def by (auto split: option.split)
  qed
  show "ages ep (on_remote_candidate env pid cand mid ep)" "ages ep (on_rtc_error env pid ep)"
    using op_ages [OF env ok] ages_same [of ep ep] unfolding on_remote_candidate_def on_rtc_error_def by (auto split: option.split)
  show "ages ep (on_rtc_connect env pid router ep)"
    using con [OF ok] ages_trans [OF close_ages [OF env ok] con [OF closed_ok(1) [OF env ok]]]
    unfolding on_rtc_connect_def Let_def by (auto split: option.split)
qed

lemma step_ages:
  assumes env: "env_ok content env" and ok: "ep_ok content env {} {} ep"
  shows "ages ep (endpoint_step env ep x)"
proof (cases x)
  case (EpSend u m)
  let ?ep = "ep\<lparr>ep_no := ep_no ep + 1\<rparr>"
  have "ep_ok_at content env (ep_no ep) {} {} ?ep"
    using ok objects_ok_cong [of ?ep ep content env "ep_no ep" "{}" "{}"] registered_ok_cong [of ?ep ep "{}"]
      stored_queues_ok_cong [of ?ep ep content env "ep_no ep"]
    by (simp add: ep_ok_def ep_ok_at_def)
  from operation_ok [OF env this, of "Send (ep_no ep) m" "ep_no ep + 1"] have
    "ages ?ep (conn_operation env c (Send (ep_no ep) m) ?ep)" for c by (intro grows_ages) simp
  then have "ages ep (conn_operation env c (Send (ep_no ep) m) ?ep)" for c by (rule ages_trans [OF ages_same, rotated]) simp
  then show ?thesis using EpSend ages_same [of ep ep] by (auto simp: ep_send_def split: option.split)
next
  case (ConnReport c y)
  have "send_numbers [y] = []" if "is_report y" using that by (cases y) simp_all
  then show ?thesis using ConnReport op_ages [OF env ok] ages_same [of ep ep] by simp
qed (use signals_age [OF env ok] connect_ages [OF ok] close_ages [OF env ok] stop_ages [OF env ok] ages_same [of ep ep] in simp_all)

lemma run_ages:
  assumes "endpoint_good content env ep" shows "ages ep (foldl (endpoint_step env) ep xs)"
proof (induction xs rule: rev_induct)
  case (snoc x xs)
  have "endpoint_good content env (foldl (endpoint_step env) ep xs)" by (rule endpoints.run_inv [OF assms]) simp
  then have "ages (foldl (endpoint_step env) ep xs) (endpoint_step env (foldl (endpoint_step env) ep xs) x)"
    using step_ages unfolding endpoint_good_def by blast
  then show ?case using ages_trans [OF snoc.IH] by simp
qed (simp add: ages_same)

subsection \<open>What leaves the queues alone\<close>

text \<open>
  Existing queues stay as they are, a new one is empty, and a peer that gets a connection has a
  queue.
\<close>

definition preserves :: "'h heap_ops \<Rightarrow> 'h endpoint \<Rightarrow> 'h endpoint \<Rightarrow> bool" where
  "preserves H a b \<longleftrightarrow> ep_no b = ep_no a \<and>
     (\<forall>u q. map_of (ep_queues a) u = Some q \<longrightarrow> map_of (ep_queues b) u = Some q) \<and>
     (\<forall>u q. map_of (ep_queues a) u = None \<longrightarrow> map_of (ep_queues b) u = Some q \<longrightarrow> q = new_queue H) \<and>
     (\<forall>u c. map_of (ep_connections b) u = Some c \<longrightarrow>
        has_key (ep_connections a) u \<or> has_key (ep_queues b) u)"

lemma preservesD:
  assumes "preserves H a b"
  shows "ep_no b = ep_no a" "map_of (ep_queues a) u = Some q \<Longrightarrow> map_of (ep_queues b) u = Some q"
    "map_of (ep_queues a) u = None \<Longrightarrow> map_of (ep_queues b) u = Some q \<Longrightarrow> q = new_queue H"
    "map_of (ep_connections b) u = Some c \<Longrightarrow> has_key (ep_connections a) u \<or> has_key (ep_queues b) u"
  using assms unfolding preserves_def by blast+

lemma preserves_trans:
  assumes ab: "preserves H a b" and bc: "preserves H b c" shows "preserves H a c"
proof -
  note x = preservesD [OF ab] and y = preservesD [OF bc]
  have "q = new_queue H" if "map_of (ep_queues a) u = None" "map_of (ep_queues c) u = Some q" for u q
    using x(3) [OF that(1)] y(2) [of u] y(3) [OF _ that(2)] that(2) by (cases "map_of (ep_queues b) u") auto
  moreover have "has_key (ep_connections a) u \<or> has_key (ep_queues c) u" if "map_of (ep_connections c) u = Some i" for u i
  proof -
    have "has_key (ep_queues b) u \<Longrightarrow> has_key (ep_queues c) u" using y(2) [of u] by (cases "map_of (ep_queues b) u") force+
    moreover have "has_key (ep_connections b) u \<Longrightarrow> has_key (ep_connections a) u \<or> has_key (ep_queues b) u"
      using x(4) [of u] by (cases "map_of (ep_connections b) u") auto
    ultimately show ?thesis using y(4) [OF that] by blast
  qed
  ultimately show ?thesis using x(1,2) y(1,2) unfolding preserves_def by simp
qed

lemma preserves_same:
  assumes "map_of (ep_queues b) = map_of (ep_queues a)" "ep_no b = ep_no a"
    "\<And>u c. map_of (ep_connections b) u = Some c \<Longrightarrow> map_of (ep_connections a) u \<noteq> None"
  shows "preserves H a b"
  using assms unfolding preserves_def by auto

lemma preserves_refl: "preserves H a a"
  by (rule preserves_same) simp_all

text \<open>Every operation of a connection but sending and the timers.\<close>

fun calm :: "conn_input \<Rightarrow> bool" where
  "calm (Send no m) = False"
| "calm (TimerFires i now answers) = False"
| "calm _ = True"

lemma calm_keeps_queue: "calm x \<Longrightarrow> messageQueue (conn_step H cfg s x) = messageQueue s"
  by (cases x) (simp_all add: conn_step_def when_listening_def)

lemma apply_same_queue:
  assumes r: "conn_apply env c x ep = (ep1, es)"
    and q: "\<And>en. map_of (ep_objects ep) c = Some en \<Longrightarrow>
      messageQueue (conn_step (ee_heap env) (entry_config env en) (loaded ep en) x) = messageQueue (loaded ep en)"
  shows "preserves H ep ep1"
proof (cases "map_of (ep_objects ep) c")
  case None
  then show ?thesis using r preserves_refl by (simp add: conn_apply_def)
next
  case (Some en)
  note p = apply_parts [OF Some r]
  have "map_of (ep_queues ep1) = map_of (ep_queues ep)"
    using p(2) q [OF Some] by (cases "map_of (ep_queues ep) (ce_target en)") (auto simp: loaded_def fun_eq_iff)
  then show ?thesis by (rule preserves_same) (simp_all add: p)
qed

lemma on_conn_close_preserves: "preserves H ep (on_conn_close c ep)"
  by (rule preserves_same)
    (auto simp: on_conn_close_def Let_def settle_connects_def ep_record_def update_entry_def ep_emit_def
      split: option.splits if_splits)

lemma ep_close_preserves: "preserves H ep (ep_close env u ep)"
proof (cases "map_of (ep_connections ep) u")
  case None
  then show ?thesis by (simp add: ep_close_def preserves_refl)
next
  case (Some c)
  let ?ep = "ep\<lparr>ep_connections := AList.delete u (ep_connections ep)\<rparr>"
  obtain ep1 es where r: "conn_apply env c (Close None) ?ep = (ep1, es)" by fastforce
  have "preserves H ep ?ep" by (rule preserves_same) (auto split: if_splits)
  from preserves_trans [OF this apply_same_queue [OF r calm_keeps_queue]] have 1: "preserves H ep ep1" by simp
  show ?thesis using Some r 1 preserves_trans [OF 1 on_conn_close_preserves [of H ep1 c]] by (simp add: ep_close_def)
qed

lemma validation_preserves: "preserves H ep (attemptProtocolVersionValidation env c ep)"
proof -
  have "preserves H ep (ep\<lparr>ep_versions := vs\<rparr>)" for vs by (rule preserves_same) simp_all
  then show ?thesis
    using ep_close_preserves preserves_refl unfolding attemptProtocolVersionValidation_def Let_def by (auto split: option.split sum.split)
qed

lemma reports_preserve:
  "preserves H ep (ep_record ms ep)" "preserves H ep (ep_emit e ep)" "preserves H ep (ep_signal x ep)"
  "preserves H ep (update_entry c f ep)" "preserves H ep (settle_connects c r ep)"
  by (rule preserves_same;
    auto simp: ep_record_def ep_emit_def ep_signal_def update_entry_def settle_connects_def split: option.splits if_splits)+

lemma event_preserves: "preserves H ep (on_conn_event env c e ep)"
proof -
  have "preserves H ep (ep_signal x (update_entry c g ep))" "preserves H ep (ep_emit y (update_entry c g ep))" for x y g
    using preserves_trans [OF reports_preserve(4)] reports_preserve by blast+
  moreover have "preserves H ep (attemptProtocolVersionValidation env c (ep_signal x (update_entry c g ep)))" for x g
    by (rule preserves_trans [OF calculation(1) validation_preserves])
  moreover have "preserves H ep (settle_connects c r a)" "preserves H ep (ep_record ms a)" if "preserves H ep a" for r ms a
    using preserves_trans [OF that] reports_preserve by blast+
  ultimately show ?thesis
    using on_conn_close_preserves [of H ep c] preserves_refl [of H ep] reports_preserve [of H ep]
    by (cases "map_of (ep_objects ep) c"; cases e) (simp_all add: on_conn_event_def Let_def)
qed

lemma events_preserve: "preserves H ep (foldl (\<lambda>ep e. on_conn_event env c e ep) ep es)"
proof (induction es arbitrary: ep)
  case (Cons e es)
  then show ?case using preserves_trans [OF event_preserves [of H ep env c e] Cons.IH] by simp
qed (simp add: preserves_refl)

lemma calm_preserves:
  assumes "calm x" shows "preserves H ep (conn_operation env c x ep)"
proof -
  obtain ep1 es where r: "conn_apply env c x ep = (ep1, es)" by fastforce
  then show ?thesis
    using preserves_trans [OF apply_same_queue [OF r calm_keeps_queue [OF assms]] events_preserve] by (simp add: conn_operation_def)
qed

lemma connect_preserves: "preserves (ee_heap env) ep (ep_connect env u router offering ep)"
proof -
  have same: "preserves H ep (a\<lparr>ep_connects := xs\<rparr>)" if "preserves H ep a" for H a xs
    by (rule preserves_trans [OF that preserves_same]) simp_all
  show ?thesis
  proof (cases "ep_stopped ep \<or> map_of (ep_connections ep) u \<noteq> None")
    case True
    then show ?thesis using same [OF preserves_refl] by (auto simp: ep_connect_def)
  next
    case False
    define q where "q = (case map_of (ep_queues ep) u of None \<Rightarrow> new_queue (ee_heap env) | Some q \<Rightarrow> q)"
    define ep1 where "ep1 = ep\<lparr>ep_queues := AList.update u q (ep_queues ep)\<rparr>"
    have 1: "preserves (ee_heap env) ep ep1" by (auto simp: preserves_def ep1_def q_def)
    show ?thesis
    proof (cases "newUnknown (ee_supported env) u")
      case (Inl e)
      then show ?thesis using same [OF 1] False by (simp add: ep_connect_def ep1_def q_def)
    next
      case (Inr info)
      define ep2 where "ep2 = ep1\<lparr>ep_objects := AList.update (ep_next ep) \<lparr>ce_conn = new_connection (ee_heap env) info q, ce_target = u,
          ce_router = router, ce_offering = offering, ce_listening = True, ce_description_left = True, ce_candidate_left = True,
          ce_open_left = True\<rparr> (ep_objects ep1), ep_next := ep_next ep + 1,
          ep_connections := AList.update u (ep_next ep) (ep_connections ep1)\<rparr>"
      have 2: "preserves (ee_heap env) ep1 ep2" by (auto simp: preserves_def ep2_def ep1_def)
      define ep3 where "ep3 = conn_operation env (ep_next ep) (Connect (ep_next ep) (ep_next ep)) ep2"
      have 3: "preserves (ee_heap env) ep ep3"
        using preserves_trans [OF preserves_trans [OF 1 2] calm_preserves] by (simp add: ep3_def)
      define ep4 where "ep4 = (if offering then ep3 else ep_signal (SignalConnectionNeeded router u) ep3)"
      have 4: "preserves (ee_heap env) ep ep4" using 3 preserves_trans [OF 3 reports_preserve(3)] by (simp add: ep4_def)
      have "ep_connect env u router offering ep = ep4\<lparr>ep_connects := ep_connects ep4 @ [Connecting (ep_next ep)]\<rparr>"
        using False Inr unfolding ep_connect_def ep4_def ep3_def ep2_def ep1_def q_def by (simp add: Let_def)
      then show ?thesis using same [OF 4] by simp
    qed
  qed
qed

text \<open>The inputs whose steps leave the queues alone.\<close>

fun leaves_queues :: "endpoint_input \<Rightarrow> bool" where
  "leaves_queues (EpSend u m) = False"
| "leaves_queues EpStop = False"
| "leaves_queues (ConnReport c (TimerFires i now answers)) = False"
| "leaves_queues _ = True"

lemma step_preserves:
  assumes "leaves_queues x" shows "preserves (ee_heap env) ep (endpoint_step env ep x)"
proof -
  let ?H = "ee_heap env"
  have con: "preserves ?H e (ep_connect_default env u r e)" for e u r
    using connect_preserves by (simp add: ep_connect_default_def)
  have two: "preserves ?H a (conn_operation env c (SetRemoteDescription desc ty t1 t2) (conn_operation env c (SetPeerInfo info) b))"
    if "preserves ?H a b" for a b c desc ty t1 t2 info
    by (rule preserves_trans [OF preserves_trans [OF that calm_preserves] calm_preserves]) simp_all
  have again: "preserves ?H ep (ep_connect_default env u r (ep_close env u a))" if "preserves ?H ep a" for u r a
    by (rule preserves_trans [OF preserves_trans [OF that ep_close_preserves] con])
  show ?thesis
  proof (cases x)
    case (RtcOffer router info desc t1 t2)
    then show ?thesis
      using con two [OF con] two [OF again [OF con]] preserves_refl
      by (auto simp: on_rtc_offer_def Let_def split: option.split)
  next
    case (RtcAnswer info desc t1 t2)
    then show ?thesis
      using preserves_trans [OF two [OF preserves_refl] validation_preserves] preserves_refl
      by (auto simp: on_rtc_answer_def split: option.split)
  next
    case (ConnReport c y)
    then have "is_report y \<Longrightarrow> calm y" using assms by (cases y) simp_all
    then show ?thesis using ConnReport by (simp add: calm_preserves preserves_refl)
  qed (use assms con again [OF preserves_refl] in \<open>auto simp: on_remote_candidate_def on_rtc_connect_def on_rtc_error_def Let_def
    connect_preserves ep_close_preserves calm_preserves preserves_refl split: option.split\<close>)
qed

subsection \<open>What the queues hold\<close>

text \<open>\<open>A u\<close> are the numbers of the messages that were ever accepted for \<open>u\<close>, in order.\<close>

definition holds ::
  "('h \<Rightarrow> nat list) \<Rightarrow> 'h endpoint_env \<Rightarrow> nat \<Rightarrow> (string \<Rightarrow> nat list) \<Rightarrow> 'h endpoint \<Rightarrow> bool" where
  "holds content env no A ep \<longleftrightarrow>
     (\<forall>u q. map_of (ep_queues ep) u = Some q \<longrightarrow>
        queue_ok content no (A u) q \<and> length (queue_waiting content q) \<le> ee_maxMessageSize env) \<and>
     (\<forall>u. map_of (ep_queues ep) u = None \<longrightarrow> A u = []) \<and>
     (\<forall>u c. map_of (ep_connections ep) u = Some c \<longrightarrow> has_key (ep_queues ep) u)"

lemma holdsD:
  assumes "holds content env no A ep"
  shows "map_of (ep_queues ep) u = Some q \<Longrightarrow> queue_ok content no (A u) q"
    "map_of (ep_queues ep) u = Some q \<Longrightarrow> length (queue_waiting content q) \<le> ee_maxMessageSize env"
    "map_of (ep_queues ep) u = None \<Longrightarrow> A u = []"
    "map_of (ep_connections ep) u = Some c \<Longrightarrow> \<exists>q. map_of (ep_queues ep) u = Some q"
proof -
  show "map_of (ep_queues ep) u = Some q \<Longrightarrow> queue_ok content no (A u) q"
    "map_of (ep_queues ep) u = Some q \<Longrightarrow> length (queue_waiting content q) \<le> ee_maxMessageSize env"
    "map_of (ep_queues ep) u = None \<Longrightarrow> A u = []" using assms unfolding holds_def by blast+
  have "map_of (ep_connections ep) u = Some c \<Longrightarrow> has_key (ep_queues ep) u" using assms unfolding holds_def by blast
  then show "map_of (ep_connections ep) u = Some c \<Longrightarrow> \<exists>q. map_of (ep_queues ep) u = Some q"
    by (cases "map_of (ep_queues ep) u") auto
qed

lemma holds_preserved:
  assumes env: "env_ok content env" and h: "holds content env no A a" and p: "preserves (ee_heap env) a b"
  shows "holds content env no A b"
proof -
  have H: "heap_lawful (ee_heap env) content" using env by (simp add: env_ok_def)
  note d = holdsD [OF h] and k = preservesD [OF p]
  have new: "queue_ok content no [] (new_queue (ee_heap env) :: (string, 'a) message_queue)"
    "queue_waiting content (new_queue (ee_heap env) :: (string, 'a) message_queue) = []"
    using new_queue_ok [OF H] heap_laws(1) [OF H] by (auto simp: new_queue_def queue_waiting_def)
  have "queue_ok content no (A u) q \<and> length (queue_waiting content q) \<le> ee_maxMessageSize env" if "map_of (ep_queues b) u = Some q" for u q
    using that d(1-3) [of u] k(2) [of u] k(3) [of u q] new by (cases "map_of (ep_queues a) u") auto
  moreover have "A u = []" if "map_of (ep_queues b) u = None" for u
    using that d(3) [of u] k(2) [of u] by (cases "map_of (ep_queues a) u") auto
  moreover have "has_key (ep_queues b) u" if c: "map_of (ep_connections b) u = Some c" for u c
  proof (cases "has_key (ep_connections a) u")
    case True
    then obtain c' where "map_of (ep_connections a) u = Some c'" by (cases "map_of (ep_connections a) u") auto
    then obtain q where "map_of (ep_queues a) u = Some q" using d(4) by blast
    from k(2) [OF this] show ?thesis by simp
  next
    case False
    then show ?thesis using k(4) [OF c] by blast
  qed
  ultimately show ?thesis unfolding holds_def by blast
qed

lemma apply_holds:
  assumes env: "env_ok content env" and h: "holds content env no A ep" and r: "conn_apply env c x ep = (ep1, es)"
    and en: "map_of (ep_objects ep) c = Some en" and le: "no \<le> no'"
    and x: "\<And>s. conn_queue_ok content (entry_config env en) no (A (ce_target en)) s \<Longrightarrow>
      conn_queue_ok content (entry_config env en) no' (A' (ce_target en)) (conn_step (ee_heap env) (entry_config env en) s x)"
    and A': "\<And>u. u \<noteq> ce_target en \<Longrightarrow> A' u = A u" "map_of (ep_queues ep) (ce_target en) = None \<Longrightarrow> A' (ce_target en) = A (ce_target en)"
  shows "holds content env no' A' ep1"
proof -
  note p = apply_parts [OF en r] and d = holdsD [OF h]
  let ?t = "conn_step (ee_heap env) (entry_config env en) (loaded ep en) x"
  have cfg: "queueMaxSize (entry_config env en) = ee_maxMessageSize env" by (simp add: entry_config_def)
  have "queue_ok content no' (A' u) q \<and> length (queue_waiting content q) \<le> ee_maxMessageSize env" if q: "map_of (ep_queues ep1) u = Some q" for u q
  proof (cases "u = ce_target en")
    case True
    then obtain q0 where q0: "map_of (ep_queues ep) u = Some q0" using q p(2) by (cases "map_of (ep_queues ep) u") auto
    then have "conn_queue_ok content (entry_config env en) no (A u) (loaded ep en)"
      using d(1,2) [OF q0] True by (simp add: conn_queue_ok_def loaded_def cfg)
    from x [of "loaded ep en"] this show ?thesis using q q0 p(2) True by (simp add: conn_queue_ok_def cfg)
  next
    case False
    then have "map_of (ep_queues ep) u = Some q" using q p(2) by (auto split: if_splits)
    from d(1,2) [OF this] show ?thesis using A'(1) [OF False] queue_ok_later [OF d(1) le, of u q] \<open>map_of (ep_queues ep) u = Some q\<close> by simp
  qed
  moreover have "A' u = []" if "map_of (ep_queues ep1) u = None" for u
    using that p(2) d(3) [of u] A' by (cases "u = ce_target en") (auto split: if_splits)
  moreover have "has_key (ep_queues ep1) u" if "map_of (ep_connections ep1) u = Some i" for u i
    using that p(2,3) d(4) [of u i] by (auto split: if_splits)
  ultimately show ?thesis unfolding holds_def by blast
qed

lemma operation_holds:
  assumes env: "env_ok content env" and h: "holds content env no A ep" and x: "send_numbers [x] = []"
  shows "holds content env no A (conn_operation env c x ep)"
proof -
  obtain ep1 es where r: "conn_apply env c x ep = (ep1, es)" by fastforce
  have H: "heap_lawful (ee_heap env) content" using env by (simp add: env_ok_def)
  have "holds content env no A ep1"
  proof (cases "map_of (ep_objects ep) c")
    case None
    then show ?thesis using r h by (simp add: conn_apply_def)
  next
    case (Some en)
    show ?thesis by (rule apply_holds [OF env h r Some order_refl]) (simp_all add: other_step_queue [OF H _ x])
  qed
  from holds_preserved [OF env this events_preserve] show ?thesis using r by (simp add: conn_operation_def)
qed

lemma send_holds:
  assumes env: "env_ok content env" and h: "holds content env no A ep"
    and en: "map_of (ep_objects ep) c = Some en" "ce_target en = u" "map_of (ep_connections ep) u = Some c"
  shows "holds content env (no + 1) (A(u := A u @ [no])) (conn_operation env c (Send no m) ep)"
proof -
  obtain ep1 es where r: "conn_apply env c (Send no m) ep = (ep1, es)" by fastforce
  have H: "heap_lawful (ee_heap env) content" "0 < queueMaxSize (entry_config env en)"
    using env by (simp_all add: env_ok_def entry_config_def)
  have "holds content env (no + 1) (A(u := A u @ [no])) ep1"
    by (rule apply_holds [OF env h r en(1)])
      (use en(2) holdsD(4) [OF h en(3)] send_queue(1) [OF H(1) _ order_refl H(2)] in \<open>simp_all del: fun_upd_apply, auto\<close>)
  from holds_preserved [OF env this events_preserve] show ?thesis using r by (simp add: conn_operation_def)
qed

text \<open>The messages that an input, and a run, makes the endpoint accept for a peer.\<close>

fun accepts :: "string \<Rightarrow> 'h endpoint \<Rightarrow> endpoint_input \<Rightarrow> nat list" where
  "accepts u ep (EpSend t m) = (if t = u \<and> has_key (ep_connections ep) t then [ep_no ep] else [])"
| "accepts u ep x = []"

fun accepted :: "'h endpoint_env \<Rightarrow> string \<Rightarrow> 'h endpoint \<Rightarrow> endpoint_input list \<Rightarrow> nat list" where
  "accepted env u ep [] = []"
| "accepted env u ep (x # xs) = accepts u ep x @ accepted env u (endpoint_step env ep x) xs"

lemma step_holds:
  assumes env: "env_ok content env" and ok: "ep_ok content env {} {} ep" and h: "holds content env (ep_no ep) A ep" and x: "x \<noteq> EpStop"
  shows "holds content env (ep_no (endpoint_step env ep x)) (\<lambda>u. A u @ accepts u ep x) (endpoint_step env ep x)"
proof (cases "leaves_queues x")
  case True
  have "accepts u ep x = []" for u using True by (cases x) simp_all
  then show ?thesis
    using holds_preserved [OF env h step_preserves [OF True]] preservesD(1) [OF step_preserves [OF True, of env ep]] by simp
next
  case False
  show ?thesis
  proof (cases x)
    case (EpSend t m)
    show ?thesis
    proof (cases "map_of (ep_connections ep) t")
      case None
      then have "(\<lambda>u. A u @ accepts u ep x) = A" by (auto simp: EpSend fun_eq_iff)
      then show ?thesis using h None by (simp add: EpSend ep_send_def)
    next
      case (Some c)
      let ?ep = "ep\<lparr>ep_no := ep_no ep + 1\<rparr>"
      obtain en where en: "map_of (ep_objects ep) c = Some en" "ce_target en = t"
        using registered_alive [OF ok [unfolded ep_ok_def] Some] by blast
      have "holds content env (ep_no ep) A ?ep" using h by (simp add: holds_def)
      from send_holds [OF env this, of c en t m] en Some
      have "holds content env (ep_no ep + 1) (A(t := A t @ [ep_no ep])) (conn_operation env c (Send (ep_no ep) m) ?ep)" by simp
      moreover have "ep_no (conn_operation env c y e) = ep_no e" for c y and e :: "'a endpoint"
      proof -
        obtain e1 es where r: "conn_apply env c y e = (e1, es)" by fastforce
        have "ep_no e1 = ep_no e" using r apply_parts(8) [OF _ r] by (cases "map_of (ep_objects e) c") (simp_all add: conn_apply_def)
        then show ?thesis using r by (simp add: conn_operation_def preservesD(1) [OF events_preserve])
      qed
      moreover have "(\<lambda>u. A u @ accepts u ep x) = A(t := A t @ [ep_no ep])" using Some by (auto simp: EpSend fun_eq_iff)
      ultimately show ?thesis using Some by (simp add: EpSend ep_send_def)
    qed
  next
    case (ConnReport c y)
    have y: "send_numbers [y] = []" "is_report y" using False ConnReport by (cases y; simp)+
    have "ep_no (conn_operation env c y ep) = ep_no ep" using growsD(2) [OF op_ok(3) [OF env ok y(1)]] .
    then show ?thesis using operation_holds [OF env h y(1), of c] y(2) by (simp add: ConnReport)
  qed (use False x in simp_all)
qed

lemma run_holds:
  assumes "endpoint_good content env ep" "holds content env (ep_no ep) A ep" "EpStop \<notin> set xs"
  shows "holds content env (ep_no (foldl (endpoint_step env) ep xs)) (\<lambda>u. A u @ accepted env u ep xs) (foldl (endpoint_step env) ep xs)"
  using assms
proof (induction xs arbitrary: ep A)
  case (Cons x xs)
  have "endpoint_good content env (endpoint_step env ep x)" by (rule endpoints.step_inv [OF Cons.prems(1)]) simp
  moreover have "holds content env (ep_no (endpoint_step env ep x)) (\<lambda>u. A u @ accepts u ep x) (endpoint_step env ep x)"
    using Cons.prems step_holds unfolding endpoint_good_def by fastforce
  ultimately show ?case using Cons.IH [of "endpoint_step env ep x" "\<lambda>u. A u @ accepts u ep x"] Cons.prems(3) by simp
qed simp

subsection \<open>A connection dies\<close>

text \<open>A timer that flushes the queue closes nothing, and one that closes leaves the queue alone.\<close>

lemma timer_flushes_or_keeps:
  assumes H: "heap_lawful H content" and q: "queue_ok content no added (messageQueue s)"
  shows "messageQueue (conn_step H cfg s (TimerFires i now env)) = messageQueue s \<or>
    isFinished (conn_step H cfg s (TimerFires i now env)) = isFinished s \<and>
    (\<exists>k. emitted (conn_step H cfg s (TimerFires i now env)) = emitted s @ replicate k EmitBufferHigh)"
proof (cases "map_of (timers s) i")
  case None
  then show ?thesis by (simp add: conn_step_def timer_fires_def)
next
  case (Some k)
  let ?s1 = "stop_timer (Some i) s"
  have flush: "\<exists>t. attemptToFlushMessages H cfg env u = Some (t, None) \<and> isFinished t = isFinished s \<and>
      (\<exists>k. emitted t = emitted s @ replicate k EmitBufferHigh)"
    if "messageQueue u = messageQueue s" "emitted u = emitted s" "isFinished u = isFinished s" for u
    using flush_loop_effect [OF H, of no added u cfg env 0 0] q that
    unfolding attemptToFlushMessages_def same_link_def flush_logs_def by metis
  show ?thesis
    using flush [of "?s1\<lparr>flushRef := None\<rparr>"] flush [of "?s1\<lparr>flushTimeoutRef := None\<rparr>"] Some
    by (cases k) (auto simp: conn_step_def timer_fires_def Let_def)
qed

lemma plain_operation_alive:
  assumes en: "map_of (ep_objects ep) c = Some en" and r: "conn_apply env c x ep = (ep1, es)" and es: "list_all plain_event es"
    and fin: "isFinished (conn_step (ee_heap env) (entry_config env en) (loaded ep en) x) = isFinished (ce_conn en)"
  shows "alive (conn_operation env c x ep) d = alive ep d"
proof -
  have "same_links e (foldl (\<lambda>ep e. on_conn_event env c e ep) e es)" for e
    using es by (induction es arbitrary: e) (auto intro: same_links_refl same_links_trans [OF plain_event_links])
  then have "alive (conn_operation env c x ep) d = alive ep1 d" using same_links_alive r by (auto simp: conn_operation_def)
  also have "\<dots> = alive ep d" using apply_parts(1) [OF en r] en fin by (auto simp: alive_def update_conv' split: if_splits)
  finally show ?thesis .
qed

lemma death_keeps_queues:
  assumes env: "env_ok content env" and ok: "ep_ok content env {} {} ep" and x: "x \<noteq> EpStop"
    and d: "alive ep d" "\<not> alive (endpoint_step env ep x) d"
  shows "preserves (ee_heap env) ep (endpoint_step env ep x)"
proof (cases "leaves_queues x")
  case True
  then show ?thesis by (rule step_preserves)
next
  case False
  show ?thesis
  proof (cases x)
    case (EpSend t m)
    have "alive (conn_operation env c (Send no m) e) d = alive e d" for c no and e :: "'a endpoint"
    proof (cases "map_of (ep_objects e) c")
      case None
      then show ?thesis by (simp add: conn_operation_def conn_apply_def)
    next
      case (Some en)
      have s: "emitted (fst (conn_send (ee_heap env) cfg no m s)) = emitted s" "isFinished (fst (conn_send (ee_heap env) cfg no m s)) = isFinished s"
        for cfg s by (simp_all add: conn_send_def Let_def split: prod.split option.split)
      obtain e1 es where r: "conn_apply env c (Send no m) e = (e1, es)" by fastforce
      have "es = []" using apply_parts(7) [OF Some r] s by (simp add: conn_step_def)
      then show ?thesis using plain_operation_alive [OF Some r] s by (simp add: conn_step_def loaded_fields(2))
    qed
    then have "alive (endpoint_step env ep x) d = alive (ep\<lparr>ep_no := ep_no ep + 1\<rparr>) d \<or> alive (endpoint_step env ep x) d = alive ep d"
      by (simp add: EpSend ep_send_def split: option.split)
    moreover have "alive (ep\<lparr>ep_no := ep_no ep + 1\<rparr>) d = alive ep d" by (simp add: alive_def)
    ultimately show ?thesis using d by blast
  next
    case (ConnReport c y)
    then obtain i now answers where y: "y = TimerFires i now answers" using False by (cases y) auto
    obtain en where en: "map_of (ep_objects ep) c = Some en"
      using d by (cases "map_of (ep_objects ep) c") (auto simp: ConnReport y conn_operation_def conn_apply_def)
    obtain ep1 es where r: "conn_apply env c y ep = (ep1, es)" by fastforce
    have "stored_queues_ok content env (ep_no ep) ep" "entry_ok content env (ep_no ep) en"
      using ok objects_okD(2) [OF _ en] unfolding ep_ok_def ep_ok_at_def by blast+
    then obtain added where q: "queue_ok content (ep_no ep) added (messageQueue (loaded ep en))"
      using loaded_ok(1) unfolding conn_queue_ok_def by blast
    have H: "heap_lawful (ee_heap env) content" using env by (simp add: env_ok_def)
    let ?t = "conn_step (ee_heap env) (entry_config env en) (loaded ep en) y"
    consider "messageQueue ?t = messageQueue (loaded ep en)"
      | k where "isFinished ?t = isFinished (loaded ep en)" "emitted ?t = emitted (loaded ep en) @ replicate k EmitBufferHigh"
      using timer_flushes_or_keeps [OF H q, of "entry_config env en" i now answers] unfolding y by blast
    then show ?thesis
    proof cases
      case 1
      then have "preserves (ee_heap env) ep ep1" using apply_same_queue [OF r] en by simp
      from preserves_trans [OF this events_preserve] show ?thesis using r by (simp add: ConnReport y conn_operation_def)
    next
      case 2
      then have "list_all plain_event es" using apply_parts(7) [OF en r] by (simp add: list_all_iff)
      then have "alive (conn_operation env c y ep) d = alive ep d"
        using plain_operation_alive [OF en r] 2(1) by (simp add: loaded_fields(2))
      then show ?thesis using d by (simp add: ConnReport y)
    qed
  qed (use False x in simp_all)
qed

end
