(* ===== verification/EndpointPromises.thy ===== *)
theory EndpointPromises
  imports EndpointHistory
begin

section \<open>What the endpoint promises\<close>

text \<open>
  The properties of whole runs of \<open>src/src/connection/WebRtcEndpoint.ts\<close>, from the endpoint
  without connections: one live connection for a peer, queues that outlive connections, and an
  endpoint that stays silent once stopped; and what becomes of an offer that replaces a
  connection.
\<close>

definition endpoint_run :: "'h endpoint_env \<Rightarrow> endpoint_input list \<Rightarrow> 'h endpoint" where
  "endpoint_run env es = foldl (endpoint_step env) new_endpoint es"

lemma endpoint_run_ok:
  assumes "env_ok content env"
  shows "ep_ok content env {} {} (endpoint_run env es)"
  using endpoint_run_good [OF assms, of es] by (simp add: endpoint_good_def endpoint_run_def)

text \<open>An endpoint with the queues of the default size, over the example heap.\<close>

definition example_endpoint_env :: "nat list endpoint_env" where
  "example_endpoint_env = \<lparr>ee_heap = list_heap,
     ee_self = example_neighbour\<lparr>peerId := ''a''\<rparr>, ee_supported = \<lparr>supportedControl = [2], supportedMessage = [32]\<rparr>,
     ee_bufferThresholdHigh = 131072, ee_maxMessageSize = 1048576\<rparr>"

lemma example_endpoint_env_ok: "env_ok id example_endpoint_env"
  by (simp add: env_ok_def example_endpoint_env_def list_heap_lawful)

text \<open>
  C18. In every run the endpoint has for each peer at most one connection that has not
  finished, and that is the one registered under the peer's name; every registered connection
  is such a connection; and every call of \<open>connect\<close> that waits, waits for one, so that its
  promise settles when that connection opens or closes. A connection that is not registered any
  more, because it was closed, died or was replaced, has finished and is never registered
  again, whatever happens later.
\<close>

theorem one_live_connection_per_peer:
  assumes "env_ok content env"
  shows "let ep = endpoint_run env es; later = endpoint_run env (es @ fs) in
    (\<forall>c en. map_of (ep_objects ep) c = Some en \<longrightarrow>
       (\<not> isFinished (ce_conn en) \<longleftrightarrow> map_of (ep_connections ep) (ce_target en) = Some c)) \<and>
    (\<forall>u c. map_of (ep_connections ep) u = Some c \<longrightarrow> (\<exists>en. map_of (ep_objects ep) c = Some en \<and> ce_target en = u)) \<and>
    (\<forall>c. Connecting c \<in> set (ep_connects ep) \<longrightarrow> alive ep c) \<and>
    (\<forall>c en. map_of (ep_objects ep) c = Some en \<longrightarrow> map_of (ep_connections ep) (ce_target en) \<noteq> Some c \<longrightarrow>
       \<not> alive later c \<and> (\<forall>u. map_of (ep_connections later) u \<noteq> Some c))"
proof -
  define ep where "ep = endpoint_run env es"
  have ok: "ep_ok_at content env (ep_no ep) {} {} ep"
    using endpoint_run_ok [OF assms, of es] by (simp add: ep_def ep_ok_def)
  then have o: "objects_ok content env (ep_no ep) {} {} ep" and g: "registered_ok {} ep" by (simp_all add: ep_ok_at_def)
  have one: "\<not> isFinished (ce_conn en) \<longleftrightarrow> map_of (ep_connections ep) (ce_target en) = Some c"
    if "map_of (ep_objects ep) c = Some en" for c en
    using objects_okD(5) [OF o that] registered_alive [OF ok, of "ce_target en" c] that by auto
  define later where "later = endpoint_run env (es @ fs)"
  have ok': "ep_ok_at content env (ep_no later) {} {} later"
    using endpoint_run_ok [OF assms, of "es @ fs"] by (simp add: later_def ep_ok_def)
  have "ages ep later"
    using run_ages [OF endpoint_run_good [OF assms, of es], of fs] by (simp add: ep_def later_def endpoint_run_def)
  then have "\<not> alive later c" if "map_of (ep_objects ep) c = Some en" "map_of (ep_connections ep) (ce_target en) \<noteq> Some c" for c en
    using agesD [of ep later c en] one [OF that(1)] that by (auto simp: alive_def)
  moreover have "map_of (ep_connections later) u = Some c \<Longrightarrow> alive later c" for u c
    using registered_alive [OF ok'] by (auto simp: alive_def)
  ultimately have "\<not> alive later c \<and> (\<forall>u. map_of (ep_connections later) u \<noteq> Some c)"
    if "map_of (ep_objects ep) c = Some en" "map_of (ep_connections ep) (ce_target en) \<noteq> Some c" for c en
    using that by blast
  then show ?thesis using one registered_okD(1,3) [OF g] unfolding Let_def ep_def [symmetric] later_def [symmetric] by auto
qed

theorem one_live_connection_per_peer_witness:
  "map_of (ep_connections (endpoint_run example_endpoint_env [EpConnect ''b'' ''t'' True])) ''b'' = Some 0 \<and>
   alive (endpoint_run example_endpoint_env [EpConnect ''b'' ''t'' True]) 0"
proof -
  have "map_of (ep_connections (endpoint_run example_endpoint_env [EpConnect ''b'' ''t'' True])) ''b'' = Some 0 \<and>
      Connecting 0 \<in> set (ep_connects (endpoint_run example_endpoint_env [EpConnect ''b'' ''t'' True]))"
    by (simp add: endpoint_run_def new_endpoint_def ep_connect_def example_endpoint_env_def newUnknown_def
        new_peer_info_def peer_types_def peer_type_name_def truthy_string_def conn_operation_def conn_apply_def
        conn_step_def conn_connect_def entry_config_def new_connection_def start_timer_def arm_connection_timeout_def
        setupDataChannel_def call_native_def ep_record_def Let_def)
  then show ?thesis
    using one_live_connection_per_peer [OF example_endpoint_env_ok, of "[EpConnect ''b'' ''t'' True]" "[]"] by (simp add: Let_def)
qed

subsection \<open>Reconnecting\<close>

text \<open>
  C19. The messages for a peer outlive its connections. Over every run without \<open>stop\<close>, whatever
  connections open, die and are replaced, the promises of the messages that were accepted for a
  peer settle once each and in the order they were sent, and the rest wait in that order in the
  peer's queue. A step in which a connection dies, whether it is closed, replaced, times out or
  fails, leaves every queue as it is. And a new connection that \<open>connect\<close> makes for a peer starts
  with the queue that was there, with all that waits in it.
\<close>

theorem queue_survives_reconnection:
  assumes env: "env_ok content env" and es: "EpStop \<notin> set es"
  shows "let ep = endpoint_run env es in
    (\<forall>u. (case map_of (ep_queues ep) u of None \<Rightarrow> [] | Some q \<Rightarrow> map fst (settled q) @ queue_waiting content q) =
         accepted env u new_endpoint es \<and> distinct (accepted env u new_endpoint es)) \<and>
    (\<forall>x c u q. x \<noteq> EpStop \<longrightarrow> alive ep c \<longrightarrow> \<not> alive (endpoint_step env ep x) c \<longrightarrow> map_of (ep_queues ep) u = Some q \<longrightarrow>
       map_of (ep_queues (endpoint_step env ep x)) u = Some q) \<and>
    (\<forall>u info router offering. newUnknown (ee_supported env) u = Inr info \<longrightarrow> \<not> ep_stopped ep \<longrightarrow> map_of (ep_connections ep) u = None \<longrightarrow>
       (\<exists>c s q. map_of (ep_connections (ep_connect env u router offering ep)) u = Some c \<and>
          conn_at (ep_connect env u router offering ep) c = Some s \<and>
          map_of (ep_queues (ep_connect env u router offering ep)) u = Some q \<and> messageQueue s = q \<and>
          (\<forall>q0. map_of (ep_queues ep) u = Some q0 \<longrightarrow> q = q0)))"
proof -
  define ep where "ep = endpoint_run env es"
  have good: "endpoint_good content env new_endpoint" by (rule new_endpoint_good [OF env])
  have "holds content env (ep_no (new_endpoint :: 'a endpoint)) (\<lambda>_. []) new_endpoint" by (simp add: holds_def new_endpoint_def)
  from run_holds [OF good this es] have h: "holds content env (ep_no ep) (\<lambda>u. accepted env u new_endpoint es) ep"
    by (simp add: ep_def endpoint_run_def)
  have 1: "(case map_of (ep_queues ep) u of None \<Rightarrow> [] | Some q \<Rightarrow> map fst (settled q) @ queue_waiting content q) =
      accepted env u new_endpoint es \<and> distinct (accepted env u new_endpoint es)" for u
    using holdsD(1,3) [OF h, of u] queue_okD(1,3) [of content "ep_no ep" "accepted env u new_endpoint es"]
    by (cases "map_of (ep_queues ep) u") auto
  have ok: "ep_ok content env {} {} ep" using endpoint_run_ok [OF env, of es] by (simp add: ep_def)
  have 2: "map_of (ep_queues (endpoint_step env ep x)) u = Some q"
    if "x \<noteq> EpStop" "alive ep c" "\<not> alive (endpoint_step env ep x) c" "map_of (ep_queues ep) u = Some q" for x c u q
    using preservesD(2) [OF death_keeps_queues [OF env ok that(1-3)] that(4)] .
  have "map_of (ep_objects ep) (ep_next ep) = None" using fresh_number ok unfolding ep_ok_def by blast
  then have 3: "\<exists>c s q. map_of (ep_connections (ep_connect env u router offering ep)) u = Some c \<and>
      conn_at (ep_connect env u router offering ep) c = Some s \<and>
      map_of (ep_queues (ep_connect env u router offering ep)) u = Some q \<and> messageQueue s = q \<and>
      (\<forall>q0. map_of (ep_queues ep) u = Some q0 \<longrightarrow> q = q0)"
    if "newUnknown (ee_supported env) u = Inr info" "\<not> ep_stopped ep" "map_of (ep_connections ep) u = None" for u info router offering
    using new_connection_made(1-3) [OF that(2,3,1), of router offering] by fastforce
  show ?thesis unfolding Let_def ep_def [symmetric] using 1 2 3 by blast
qed

text \<open>
  An offer that starts a new connection is lost. When the peer of a connection whose remote
  description is set sends an offer, the endpoint closes that connection and makes a new one,
  but it sets the description on the connection it has closed, so the new one is left without
  the remote description that the offer carried.
\<close>

theorem offer_for_new_connection_is_lost:
  assumes "env_ok content env" and "newUnknown (ee_supported env) (peerId info) = Inr unknown"
    and "\<not> ep_stopped (endpoint_run env es)" and "map_of (ep_connections (endpoint_run env es)) (peerId info) = Some c"
    and "remote_description_set (endpoint_run env es) c"
  shows "let ep' = endpoint_run env (es @ [RtcOffer router info desc False False]) in
    \<exists>c'. map_of (ep_connections ep') (peerId info) = Some c' \<and> c' \<noteq> c \<and> \<not> remote_description_set ep' c' \<and> \<not> alive ep' c"
proof -
  define ep where "ep = endpoint_run env es"
  define u where "u = peerId info"
  have ok: "ep_ok_at content env (ep_no ep) {} {} ep"
    using endpoint_run_ok [OF assms(1), of es] by (simp add: ep_def ep_ok_def)
  define e1 where "e1 = ep_connect_default env u router ep"
  define r where "r = (if Option.bind (conn_at ep c) lastState \<in> {Some ''connected'', Some ''failed'', Some ''closed''}
      then Connected u else Connecting c)"
  have e1: "e1 = ep\<lparr>ep_connects := ep_connects ep @ [r]\<rparr>"
    using assms(3,4) unfolding e1_def ep_connect_default_def ep_connect_def ep_def [symmetric] u_def [symmetric] r_def
    by simp
  have ok1: "ep_ok content env {} {} e1"
    unfolding e1_def by (rule connected_ok(1) [OF assms(1)]) (use ok in \<open>simp add: ep_ok_def\<close>)
  then have ok1': "ep_ok_at content env (ep_no e1) {} {} e1" by (simp add: ep_ok_def)
  define e2 where "e2 = ep_close env u e1"
  have c1: "map_of (ep_connections e1) u = Some c" using assms(4) by (simp add: e1 ep_def u_def)
  have c2: "ep_ok_at content env (ep_no e1) {} {} e2" "grows e1 e2" "map_of (ep_connections e2) u = None"
    using ep_close_ok [OF assms(1) ok1', of u] by (simp_all add: e2_def)
  have n2: "ep_next e2 = ep_next e1" unfolding e2_def by (rule close_operation_parts(2) [OF assms(1) ok1' c1])
  obtain en where en: "map_of (ep_objects e1) c = Some en" using registered_alive [OF ok1' c1] by blast
  have ne: "c \<noteq> ep_next e2" using fresh_number [OF ok1'] en n2 by auto
  define e3 where "e3 = ep_connect_default env u router e2"
  have ns: "\<not> ep_stopped e2" using assms(3) growsD(1) [OF c2(2)] by (simp add: e1 ep_def)
  note m = new_connection_made [OF ns c2(3) assms(2) [folded u_def] fresh_number [OF c2(1)],
      where router = router and offering = "peerId (ee_self env) < u"]
  have m1: "map_of (ep_connections e3) u = Some (ep_next e2)" and
    m2: "\<exists>s. conn_at e3 (ep_next e2) = Some s \<and> \<not> remoteDescriptionSet s"
    using m(1,2) unfolding e3_def ep_connect_default_def by blast+
  have dead2: "\<not> alive e2 c"
  proof
    assume "alive e2 c"
    then obtain en2 where e: "map_of (ep_objects e2) c = Some en2" "\<not> isFinished (ce_conn en2)" by (auto simp: alive_def)
    have "objects_ok content env (ep_no e1) {} {} e2" using c2(1) by (simp add: ep_ok_at_def)
    from objects_okD(5) [OF this e] have "map_of (ep_connections e2) (ce_target en2) = Some c" by simp
    moreover have "ce_target en2 = u"
      using growsD(5) [OF c2(2) en] e(1) registered_alive [OF ok1' c1] en by auto
    ultimately show False using c2(3) by simp
  qed
  have ok3: "ep_ok content env {} {} e3"
    unfolding e3_def by (rule connected_ok(1) [OF assms(1)]) (use closed_ok(1) [OF assms(1) ok1, of u] in \<open>simp add: e2_def\<close>)
  have at3: "map_of (ep_objects e3) c = map_of (ep_objects e2) c"
    using m(4) [OF ne] unfolding e3_def ep_connect_default_def by simp
  have quiet: "map_of (ep_connections (conn_operation env c x e)) v = map_of (ep_connections e) v \<and>
      (d \<noteq> c \<longrightarrow> map_of (ep_objects (conn_operation env c x e)) d = map_of (ep_objects e) d)"
    if "x = SetPeerInfo info \<or> x = SetRemoteDescription desc ''offer'' False False" for x e v d
  proof -
    have "emitted (conn_step (ee_heap env) cfg s x) = emitted s" for cfg s
      using that by (auto simp: conn_step_def setPeerInfo_def setRemoteDescription_def call_native_def Let_def split: option.split)
    then show ?thesis
      by (auto simp: conn_operation_def conn_apply_def Let_def ep_record_def split: option.split)
  qed
  define e4 where "e4 = conn_operation env c (SetPeerInfo info) e3"
  define e5 where "e5 = conn_operation env c (SetRemoteDescription desc ''offer'' False False) e4"
  have run: "endpoint_run env (es @ [RtcOffer router info desc False False]) = e5"
  proof -
    have "remote_description_set e1 c" using assms(5) by (simp add: e1 ep_def remote_description_set_def conn_at_def)
    then show ?thesis
      using assms(3) c1 unfolding endpoint_run_def by (simp add: endpoint_run_def [symmetric] on_rtc_offer_def Let_def
          ep_def [symmetric] u_def [symmetric] e1_def [symmetric] e2_def [symmetric] e3_def [symmetric] e4_def [symmetric]
          e5_def [symmetric])
  qed
  have "map_of (ep_connections e5) u = Some (ep_next e2)"
    using quiet m1 by (simp add: e5_def e4_def)
  moreover have "\<not> remote_description_set e5 (ep_next e2)"
    using quiet m2 ne by (auto simp: e5_def e4_def remote_description_set_def conn_at_def)
  moreover have "\<not> alive e5 c"
  proof -
    have "\<not> alive e3 c" using dead2 at3 by (simp add: alive_def)
    moreover have "grows e3 e4" unfolding e4_def by (rule op_ok(3) [OF assms(1) ok3]) simp
    moreover have "grows e4 e5"
      unfolding e5_def by (rule op_ok(3) [OF assms(1)], unfold e4_def, rule op_ok(1) [OF assms(1) ok3]) simp_all
    ultimately show ?thesis using growsD(3) by blast
  qed
  ultimately show ?thesis unfolding run Let_def using ne u_def by auto
qed

lemma offer_example_facts:
  defines "ep \<equiv> endpoint_run example_endpoint_env [EpConnect ''b'' ''t'' True, RtcOffer ''t'' (example_neighbour\<lparr>peerId := ''b''\<rparr>) ''d'' False False]"
  shows "\<not> ep_stopped ep \<and> map_of (ep_connections ep) ''b'' = Some 0 \<and> remote_description_set ep 0"
  unfolding ep_def
  by (simp add: endpoint_run_def new_endpoint_def ep_connect_def ep_connect_default_def example_endpoint_env_def newUnknown_def
      new_peer_info_def peer_types_def peer_type_name_def truthy_string_def conn_operation_def conn_apply_def
      conn_step_def conn_connect_def entry_config_def new_connection_def start_timer_def arm_connection_timeout_def
      setupDataChannel_def call_native_def ep_record_def Let_def on_rtc_offer_def remote_description_set_def conn_at_def
      example_neighbour_def setPeerInfo_def setRemoteDescription_def)

theorem offer_for_new_connection_is_lost_witness:
  "\<exists>c. map_of (ep_connections (endpoint_run example_endpoint_env
      [EpConnect ''b'' ''t'' True, RtcOffer ''t'' (example_neighbour\<lparr>peerId := ''b''\<rparr>) ''d'' False False,
       RtcOffer ''t'' (example_neighbour\<lparr>peerId := ''b''\<rparr>) ''e'' False False])) ''b'' = Some c \<and> c \<noteq> 0"
proof -
  obtain unknown where "newUnknown (ee_supported example_endpoint_env) ''b'' = Inr unknown"
    by (simp add: newUnknown_def new_peer_info_def example_endpoint_env_def peer_types_def peer_type_name_def truthy_string_def)
  then show ?thesis
    using offer_for_new_connection_is_lost [OF example_endpoint_env_ok, of "example_neighbour\<lparr>peerId := ''b''\<rparr>" unknown
      "[EpConnect ''b'' ''t'' True, RtcOffer ''t'' (example_neighbour\<lparr>peerId := ''b''\<rparr>) ''d'' False False]" 0 "''t''" "''e''"]
      offer_example_facts
    by (auto simp: Let_def)
qed

text \<open>A message is sent, its connection is closed, and the next one gets it.\<close>

theorem queue_survives_reconnection_witness:
  "\<exists>q c s. map_of (ep_queues (endpoint_run example_endpoint_env [EpConnect ''b'' ''t'' True, EpSend ''b'' ''hello'', EpClose ''b''])) ''b'' = Some q \<and>
     map fst (settled q) @ queue_waiting id q = [0] \<and>
     map_of (ep_connections (endpoint_run example_endpoint_env
       [EpConnect ''b'' ''t'' True, EpSend ''b'' ''hello'', EpClose ''b'', EpConnect ''b'' ''t'' True])) ''b'' = Some c \<and>
     conn_at (endpoint_run example_endpoint_env
       [EpConnect ''b'' ''t'' True, EpSend ''b'' ''hello'', EpClose ''b'', EpConnect ''b'' ''t'' True]) c = Some s \<and> messageQueue s = q"
proof -
  let ?es = "[EpConnect ''b'' ''t'' True, EpSend ''b'' ''hello'', EpClose ''b'']"
  let ?ep = "endpoint_run example_endpoint_env ?es"
  define e1 where "e1 = endpoint_run example_endpoint_env [EpConnect ''b'' ''t'' True]"
  define e2 where "e2 = endpoint_step example_endpoint_env e1 (EpSend ''b'' ''hello'')"
  have e3: "?ep = ep_close example_endpoint_env ''b'' e2" by (simp add: e1_def e2_def endpoint_run_def)
  obtain unknown where v: "newUnknown (ee_supported example_endpoint_env) ''b'' = Inr unknown"
    by (simp add: newUnknown_def new_peer_info_def example_endpoint_env_def peer_types_def peer_type_name_def truthy_string_def)
  have c1: "map_of (ep_connections e1) ''b'' = Some 0" "ep_no e1 = 0" "\<not> ep_stopped e1"
    by (simp_all add: e1_def endpoint_run_def new_endpoint_def ep_connect_def example_endpoint_env_def newUnknown_def
        new_peer_info_def peer_types_def peer_type_name_def truthy_string_def conn_operation_def conn_apply_def
        conn_step_def conn_connect_def entry_config_def new_connection_def start_timer_def arm_connection_timeout_def
        setupDataChannel_def call_native_def ep_record_def Let_def)
  have acc: "accepted example_endpoint_env ''b'' new_endpoint ?es = [0]"
    using c1 by (simp add: e1_def endpoint_run_def new_endpoint_def)
  have ok: "ep_ok_at id example_endpoint_env (ep_no e) {} {} e" if "e = endpoint_run example_endpoint_env xs" for e xs
    using endpoint_run_ok [OF example_endpoint_env_ok, of xs] that by (simp add: ep_ok_def)
  have e2: "e2 = endpoint_run example_endpoint_env [EpConnect ''b'' ''t'' True, EpSend ''b'' ''hello'']"
    by (simp add: e1_def e2_def endpoint_run_def)
  have n3: "map_of (ep_connections ?ep) ''b'' = None" "grows e2 ?ep"
    using ep_close_ok [OF example_endpoint_env_ok ok [OF e2], of "''b''"] unfolding e3 by blast+
  have "ep_stopped e2 = ep_stopped e1"
    using send_ok(2) [OF example_endpoint_env_ok, of "{}" e1 "''b''" "''hello''"] endpoint_run_ok [OF example_endpoint_env_ok]
    by (simp add: e1_def e2_def)
  then have ns: "\<not> ep_stopped ?ep" using growsD(1) [OF n3(2)] c1(3) by simp
  have "EpStop \<notin> set ?es" by simp
  note t = queue_survives_reconnection [OF example_endpoint_env_ok this, unfolded Let_def acc]
  obtain q where q: "map_of (ep_queues ?ep) ''b'' = Some q" "map fst (settled q) @ queue_waiting id q = [0]"
    using t [THEN conjunct1, rule_format, of "''b''"] unfolding acc by (cases "map_of (ep_queues ?ep) ''b''") auto
  have run: "endpoint_run example_endpoint_env (?es @ [EpConnect ''b'' ''t'' True]) = ep_connect example_endpoint_env ''b'' ''t'' True ?ep"
    by (simp add: endpoint_run_def)
  show ?thesis
    using t [THEN conjunct2, THEN conjunct2, rule_format, OF v ns n3(1), of "''t''" True] q unfolding run [symmetric] by auto
qed

subsection \<open>A stopped endpoint\<close>

lemma record_keeps [simp]:
  "ep_events (ep_record ms ep) = ep_events ep" "ep_signals (ep_record ms ep) = ep_signals ep"
  "ep_stopped (ep_record ms ep) = ep_stopped ep" "ep_objects (ep_record ms ep) = ep_objects ep"
  by (simp_all add: ep_record_def)

text \<open>A finished connection's events are not heard.\<close>

lemma deaf_events:
  assumes "map_of (ep_objects ep) c = Some en" "\<not> ce_listening en"
  shows "foldl (\<lambda>ep e. on_conn_event env c e ep) ep es = ep"
  using assms by (induction es) (simp_all add: on_conn_event_def)

lemma no_queue_apply: "ep_queues ep = [] \<Longrightarrow> ep_queues (fst (conn_apply env c x ep)) = []"
  by (simp add: conn_apply_def Let_def ep_record_def split: option.split)

lemma no_queue_close: "ep_queues ep = [] \<Longrightarrow> ep_queues (ep_close env u ep) = []"
proof -
  assume "ep_queues ep = []"
  then have "ep_queues (fst (conn_apply env c (Close None) (ep\<lparr>ep_connections := AList.delete u (ep_connections ep)\<rparr>))) = []" for c
    by (intro no_queue_apply) simp
  moreover have "ep_queues (on_conn_close c e) = ep_queues e" for c and e :: "'a endpoint"
    by (simp add: on_conn_close_def Let_def settle_connects_def ep_record_def update_entry_def ep_emit_def split: option.split)
  ultimately show ?thesis using \<open>ep_queues ep = []\<close> by (simp add: ep_close_def split: option.split prod.split) (metis fst_conv)
qed

lemma no_queue_operation:
  assumes "ep_queues ep = []" shows "ep_queues (conn_operation env c x ep) = []"
proof -
  have e: "ep_queues (on_conn_event env c y e) = []" if "ep_queues e = []" for y and e :: "'a endpoint"
  proof -
    have "ep_queues (attemptProtocolVersionValidation env c a) = []" if "ep_queues a = []" for a
      using that by (simp add: attemptProtocolVersionValidation_def Let_def no_queue_close split: option.split sum.split)
    then show ?thesis using that
      by (simp add: on_conn_event_def on_conn_close_def Let_def settle_connects_def ep_record_def update_entry_def ep_emit_def ep_signal_def
          split: option.split conn_event.split)
  qed
  have "ep_queues e = [] \<Longrightarrow> ep_queues (foldl (\<lambda>ep e. on_conn_event env c e ep) e es) = []" for es and e :: "'a endpoint"
    by (induction es arbitrary: e) (simp_all add: e)
  then show ?thesis using no_queue_apply [OF assms, of env c x] by (simp add: conn_operation_def split: prod.split) (metis fst_conv)
qed

lemma stop_clears_queues: "ep_queues (ep_stop env ep) = []"
proof -
  have "ep_queues e = [] \<Longrightarrow> ep_queues (foldl (\<lambda>ep c. conn_operation env c (Close None) ep) e cs) = []" for e :: "'a endpoint" and cs
    by (induction cs arbitrary: e) (simp_all add: no_queue_operation)
  then show ?thesis by (simp add: ep_stop_def)
qed

lemma stopped_step:
  assumes env: "env_ok content env" and ok: "ep_ok content env {} {} ep" and st: "ep_stopped ep"
    and nq: "ep_queues ep = []"
  shows "ep_stopped (endpoint_step env ep x) \<and> ep_events (endpoint_step env ep x) = ep_events ep \<and>
    ep_signals (endpoint_step env ep x) = ep_signals ep \<and> ep_queues (endpoint_step env ep x) = []"
proof -
  have ok': "ep_ok_at content env (ep_no ep) {} {} ep" using ok by (simp add: ep_ok_def)
  then have o: "objects_ok content env (ep_no ep) {} {} ep" and nil: "ep_connections ep = []"
    using st registered_okD(4) by (auto simp: ep_ok_at_def)
  show ?thesis
  proof (cases x)
    case (ConnReport c y)
    show ?thesis
    proof (cases "map_of (ep_objects ep) c")
      case None
      then show ?thesis using st nq ConnReport by (simp add: conn_operation_def conn_apply_def)
    next
      case (Some en)
      have "\<not> ce_listening en" using objects_okD(3,5) [OF o Some] nil by auto
      then have deaf: "foldl (\<lambda>ep e. on_conn_event env c e ep) ep1 es = ep1"
        if "conn_apply env c y ep = (ep1, es)" for ep1 es
        using deaf_events [of ep1 c _ env es] apply_parts(1) [OF Some that] by simp
      obtain ep1 es where r: "conn_apply env c y ep = (ep1, es)" by fastforce
      have "ep_signals ep1 = ep_signals ep"
        using r by (auto simp: conn_apply_def Some Let_def ep_record_def split: option.splits)
      then show ?thesis
        using apply_parts(2,5,9) [OF Some r] deaf [OF r] st nq ConnReport r by (simp add: conn_operation_def)
    qed
  qed (use st nil nq in \<open>simp_all add: ep_connect_def ep_send_def ep_close_def ep_stop_def\<close>)
qed

text \<open>
  C20. A stopped endpoint is over. After \<open>stop\<close>, whatever is called and whatever the signaller,
  the package and the timers still report, no connection is registered, no peer has a queue,
  every connection has finished, and the endpoint emits no event and signals nothing.
\<close>

theorem stopped_endpoint_is_silent:
  assumes "env_ok content env"
  shows "let ep = endpoint_run env (es @ [EpStop]); ep' = endpoint_run env (es @ [EpStop] @ fs) in
    ep_connections ep' = [] \<and> ep_queues ep' = [] \<and> (\<forall>c. \<not> alive ep' c) \<and>
    ep_events ep' = ep_events ep \<and> ep_signals ep' = ep_signals ep"
proof -
  define ep where "ep = endpoint_run env (es @ [EpStop])"
  have st: "ep_stopped ep" "ep_ok content env {} {} ep"
    using stop_ok [OF assms endpoint_run_ok [OF assms, of es]] by (simp_all add: ep_def endpoint_run_def)
  have run: "endpoint_run env (es @ [EpStop] @ fs) = foldl (endpoint_step env) ep fs" for fs
    by (simp add: ep_def endpoint_run_def)
  have q: "ep_queues ep = []" by (simp add: ep_def endpoint_run_def stop_clears_queues)
  have "ep_stopped (foldl (endpoint_step env) ep fs) \<and> ep_events (foldl (endpoint_step env) ep fs) = ep_events ep \<and>
      ep_signals (foldl (endpoint_step env) ep fs) = ep_signals ep \<and> ep_queues (foldl (endpoint_step env) ep fs) = []"
  proof (induction fs rule: rev_induct)
    case (snoc x fs)
    have "ep_ok content env {} {} (foldl (endpoint_step env) ep fs)"
      using endpoint_run_ok [OF assms, of "es @ [EpStop] @ fs"] unfolding run .
    from stopped_step [OF assms this] snoc.IH show ?case by simp
  qed (use st q in simp)
  moreover have "ep_ok_at content env (ep_no ep') {} {} ep' \<Longrightarrow> ep_stopped ep' \<Longrightarrow>
      ep_connections ep' = [] \<and> (\<forall>c. \<not> alive ep' c)" for ep'
    using objects_okD(5) [of content env "ep_no ep'" "{}" "{}" ep'] registered_okD(4) [of "{}" ep']
    unfolding ep_ok_at_def alive_def by fastforce
  ultimately show ?thesis
    using endpoint_run_ok [OF assms, of "es @ [EpStop] @ fs"]
    unfolding Let_def run ep_def [symmetric] ep_ok_def by blast
qed

theorem stopped_endpoint_is_silent_witness:
  "ep_connections (endpoint_run example_endpoint_env ([EpConnect ''b'' ''t'' True] @ [EpStop] @ [EpConnect ''c'' ''t'' True])) = []"
  using stopped_endpoint_is_silent [OF example_endpoint_env_ok, of "[EpConnect ''b'' ''t'' True]" "[EpConnect ''c'' ''t'' True]"]
  by (simp add: Let_def)

end
