(* ===== verification/NodeProtocol.thy ===== *)
theory NodeProtocol
  imports NodeState WireExample EndpointPromises
begin

section \<open>The protocol between nodes\<close>

text \<open>
  \<open>src/src/protocol/NodeToNode.ts\<close>, the version getters of
  \<open>src/src/connection/WebRtcEndpoint.ts\<close> it calls, and the listeners with which
  \<open>src/src/logic/Node.ts\<close> hears it. The control messages are those of the protocol package,
  with the fields this repository reads and writes; the package's conversion to a string, in
  given versions, and back is a parameter.
\<close>

subsection \<open>Messages\<close>

datatype resend_kind =
    ResendLast int
  | ResendFrom message_ref "string option"
  | ResendRange message_ref message_ref "string option" "string option"

record resend_request =
  rq_requestId :: string
  rq_streamId :: string
  rq_streamPartition :: int
  rq_kind :: resend_kind

datatype control_message =
    BroadcastMessage string stream_message
  | UnicastMessage string stream_message
  | ResendRequestMessage resend_request
  | ResendResponseResending string string int
  | ResendResponseResent string string int
  | ResendResponseNoResend string string int
  | OtherControlMessage string

fun control_requestId :: "control_message \<Rightarrow> string" where
  "control_requestId (BroadcastMessage r _) = r"
| "control_requestId (UnicastMessage r _) = r"
| "control_requestId (ResendRequestMessage q) = rq_requestId q"
| "control_requestId (ResendResponseResending r _ _) = r"
| "control_requestId (ResendResponseResent r _ _) = r"
| "control_requestId (ResendResponseNoResend r _ _) = r"
| "control_requestId (OtherControlMessage r) = r"

record control_wire =
  cw_serialize :: "int \<Rightarrow> int \<Rightarrow> control_message \<Rightarrow> string"
  cw_deserialize :: "string \<Rightarrow> thrown + control_message"

text \<open>The round trip, in versions that the package supports.\<close>

definition control_wire_ok :: "control_wire \<Rightarrow> supported \<Rightarrow> bool" where
  "control_wire_ok wire sv \<longleftrightarrow> (\<forall>c \<in> set (supportedControl sv). \<forall>v \<in> set (supportedMessage sv). \<forall>m.
     cw_deserialize wire (cw_serialize wire c v m) = Inr m)"

subsection \<open>Versions\<close>

definition getNegotiatedMessageLayerProtocolVersionOnNode :: "'h endpoint \<Rightarrow> string \<Rightarrow> int option" where
  "getNegotiatedMessageLayerProtocolVersionOnNode ep n =
     map_option messageLayerVersion (getNegotiatedProtocolVersions (ep_versions ep) n)"

definition getNegotiatedControlLayerProtocolVersionOnNode :: "'h endpoint \<Rightarrow> string \<Rightarrow> int option" where
  "getNegotiatedControlLayerProtocolVersionOnNode ep n =
     map_option controlLayerVersion (getNegotiatedProtocolVersions (ep_versions ep) n)"

definition getDefaultMessageLayerProtocolVersion :: "supported \<Rightarrow> int" where
  "getDefaultMessageLayerProtocolVersion sv = messageLayerVersion (getDefaultProtocolVersions sv)"

definition getDefaultControlLayerProtocolVersion :: "supported \<Rightarrow> int" where
  "getDefaultControlLayerProtocolVersion sv = controlLayerVersion (getDefaultProtocolVersions sv)"

text \<open>JavaScript's \<open>||\<close> also takes the default for a negotiated zero.\<close>

definition or_else :: "int option \<Rightarrow> int \<Rightarrow> int" where
  "or_else v d = (case v of None \<Rightarrow> d | Some x \<Rightarrow> if x = 0 then d else x)"

definition getNegotiatedProtocolVersionsOnNode :: "supported \<Rightarrow> 'h endpoint \<Rightarrow> string \<Rightarrow> int \<times> int" where
  "getNegotiatedProtocolVersionsOnNode sv ep n =
     (or_else (getNegotiatedControlLayerProtocolVersionOnNode ep n) (getDefaultControlLayerProtocolVersion sv),
      or_else (getNegotiatedMessageLayerProtocolVersionOnNode ep n) (getDefaultMessageLayerProtocolVersion sv))"

subsection \<open>Sending and receiving\<close>

definition ntn_send ::
    "'h endpoint_env \<Rightarrow> control_wire \<Rightarrow> string \<Rightarrow> control_message \<Rightarrow> 'h endpoint \<Rightarrow> ('h endpoint, endpoint_error) outcome" where
  "ntn_send env wire receiver m ep =
     (let (c, v) = getNegotiatedProtocolVersionsOnNode (ee_supported env) ep receiver
      in ep_send env receiver (cw_serialize wire c v m) ep)"

definition ntn_sendData ::
    "'h endpoint_env \<Rightarrow> control_wire \<Rightarrow> string \<Rightarrow> stream_message \<Rightarrow> 'h endpoint \<Rightarrow> ('h endpoint, endpoint_error) outcome" where
  "ntn_sendData env wire receiver m = ntn_send env wire receiver (BroadcastMessage [] m)"

datatype node_protocol_event =
    NtnNodeConnected string
  | NtnNodeDisconnected string
  | NtnDataReceived stream_message string
  | NtnResendRequest resend_request string
  | NtnResendResponse control_message string
  | NtnUnicastReceived string stream_message string
  | NtnLowBackPressure string
  | NtnHighBackPressure string

definition ntn_onPeerConnected :: "peer_info \<Rightarrow> node_protocol_event option" where
  "ntn_onPeerConnected p = (if isNode p then Some (NtnNodeConnected (peerId p)) else None)"

definition ntn_onPeerDisconnected :: "peer_info \<Rightarrow> node_protocol_event option" where
  "ntn_onPeerDisconnected p = (if isNode p then Some (NtnNodeDisconnected (peerId p)) else None)"

definition ntn_onLowBackPressure :: "peer_info \<Rightarrow> node_protocol_event option" where
  "ntn_onLowBackPressure p = (if isNode p then Some (NtnLowBackPressure (peerId p)) else None)"

definition ntn_onHighBackPressure :: "peer_info \<Rightarrow> node_protocol_event option" where
  "ntn_onHighBackPressure p = (if isNode p then Some (NtnHighBackPressure (peerId p)) else None)"

text \<open>\<open>eventPerType\<close>.\<close>

fun ntn_event_of :: "control_message \<Rightarrow> string \<Rightarrow> node_protocol_event option" where
  "ntn_event_of (BroadcastMessage _ m) source = Some (NtnDataReceived m source)"
| "ntn_event_of (UnicastMessage r m) source = Some (NtnUnicastReceived r m source)"
| "ntn_event_of (ResendRequestMessage q) source = Some (NtnResendRequest q source)"
| "ntn_event_of (ResendResponseResending r s p) source = Some (NtnResendResponse (ResendResponseResending r s p) source)"
| "ntn_event_of (ResendResponseResent r s p) source = Some (NtnResendResponse (ResendResponseResent r s p) source)"
| "ntn_event_of (ResendResponseNoResend r s p) source = Some (NtnResendResponse (ResendResponseNoResend r s p) source)"
| "ntn_event_of (OtherControlMessage r) source = None"

definition ntn_onMessageReceived :: "control_wire \<Rightarrow> peer_info \<Rightarrow> string \<Rightarrow> thrown + node_protocol_event option" where
  "ntn_onMessageReceived wire p raw =
     (if isNode p then (case decode (cw_deserialize wire) raw of
          Inl e \<Rightarrow> Inl e
        | Inr None \<Rightarrow> Inr None
        | Inr (Some m) \<Rightarrow> Inr (ntn_event_of m (peerId p)))
      else Inr None)"

text \<open>The endpoint's events, as the constructor subscribes to them.\<close>

fun ntn_hears :: "control_wire \<Rightarrow> endpoint_event \<Rightarrow> thrown + node_protocol_event option" where
  "ntn_hears wire (PeerConnected p) = Inr (ntn_onPeerConnected p)"
| "ntn_hears wire (PeerDisconnected p) = Inr (ntn_onPeerDisconnected p)"
| "ntn_hears wire (MessageFrom p raw) = ntn_onMessageReceived wire p raw"
| "ntn_hears wire (LowBackPressure p) = Inr (ntn_onLowBackPressure p)"
| "ntn_hears wire (HighBackPressure p) = Inr (ntn_onHighBackPressure p)"

text \<open>What the node does on an event of the protocol; it does not listen to the others itself.\<close>

fun node_listener :: "node_protocol_event \<Rightarrow> node_event option" where
  "node_listener (NtnNodeConnected n) = Some (NeighbourConnected n)"
| "node_listener (NtnNodeDisconnected n) = Some (NeighbourDisconnected n)"
| "node_listener (NtnDataReceived m n) = Some (DataReceived m (Some n))"
| "node_listener (NtnResendRequest q n) = Some (RequestResend (rq_requestId q)
     \<lparr>sp_id = rq_streamId q, sp_partition = rq_streamPartition q\<rparr> (Some n))"
| "node_listener (NtnLowBackPressure n) = Some (BackPressure n False)"
| "node_listener (NtnHighBackPressure n) = Some (BackPressure n True)"
| "node_listener _ = None"

subsection \<open>A message between two nodes\<close>

lemma negotiated_supported:
  assumes "validateProtocolVersions own (Some cs) (Some ms) = Inr v"
  shows "controlLayerVersion v \<in> set (controlLayerVersions own)" "controlLayerVersion v \<in> set cs"
    "messageLayerVersion v \<in> set (messageLayerVersions own)" "messageLayerVersion v \<in> set ms"
proof -
  have v: "common_version (controlLayerVersions own) cs = Some (controlLayerVersion v)"
    "common_version (messageLayerVersions own) ms = Some (messageLayerVersion v)"
    using assms by (auto simp: validateProtocolVersions_def Let_def below_zero_def split: if_splits option.splits)
  show "controlLayerVersion v \<in> set (controlLayerVersions own)" "controlLayerVersion v \<in> set cs"
    "messageLayerVersion v \<in> set (messageLayerVersions own)" "messageLayerVersion v \<in> set ms"
    using common_version_Some [OF v(1)] common_version_Some [OF v(2)] by simp_all
qed

text \<open>
  C25. A message that a node sends to a neighbour it has negotiated versions with is written in
  versions both have named and, when the neighbour's endpoint hands it over, reaches the
  neighbour's node as the same message from the sending node, provided the package reads back
  what it writes in the versions the neighbour supports and no version is zero.
\<close>

theorem message_crosses_versions:
  assumes "validateProtocolVersions (ee_self env) (Some (controlLayerVersions q)) (Some (messageLayerVersions q)) = Inr v"
    and "getNegotiatedProtocolVersions (ep_versions ep) n = Some v"
    and "controlLayerVersion v \<noteq> 0" "messageLayerVersion v \<noteq> 0"
    and "control_wire_ok wire \<lparr>supportedControl = controlLayerVersions q, supportedMessage = messageLayerVersions q\<rparr>"
    and "isNode p"
  shows "\<exists>raw. ntn_sendData env wire n m ep = ep_send env n raw ep \<and>
    (\<exists>c \<in> set (controlLayerVersions (ee_self env)) \<inter> set (controlLayerVersions q).
      \<exists>l \<in> set (messageLayerVersions (ee_self env)) \<inter> set (messageLayerVersions q).
        raw = cw_serialize wire c l (BroadcastMessage [] m)) \<and>
    (\<exists>e. ntn_hears wire (MessageFrom p raw) = Inr (Some e) \<and> node_listener e = Some (DataReceived m (Some (peerId p))))"
proof -
  note v = negotiated_supported [OF assms(1)]
  let ?raw = "cw_serialize wire (controlLayerVersion v) (messageLayerVersion v) (BroadcastMessage [] m)"
  have "getNegotiatedProtocolVersionsOnNode (ee_supported env) ep n = (controlLayerVersion v, messageLayerVersion v)"
    using assms(2-4) by (simp add: getNegotiatedProtocolVersionsOnNode_def or_else_def
        getNegotiatedControlLayerProtocolVersionOnNode_def getNegotiatedMessageLayerProtocolVersionOnNode_def)
  then have s: "ntn_sendData env wire n m ep = ep_send env n ?raw ep" by (simp add: ntn_sendData_def ntn_send_def)
  have "cw_deserialize wire ?raw = Inr (BroadcastMessage [] m)"
    using assms(5) v(2,4) by (simp add: control_wire_ok_def)
  then have "ntn_hears wire (MessageFrom p ?raw) = Inr (Some (NtnDataReceived m (peerId p)))"
    using assms(6) by (simp add: ntn_onMessageReceived_def decode_def)
  then show ?thesis using s v by (intro exI [of _ ?raw]) auto
qed

text \<open>A wire format, as for the messages of the tracker.\<close>

instance message_id_ext :: (countable) countable
  by (rule countable_classI [of "\<lambda>r. to_nat (streamId r, streamPartition r, timestamp r, sequenceNumber r, publisherId r,
      msgChainId r, message_id.more r)"]) simp

instance stream_message_ext :: (countable) countable
  by (rule countable_classI [of "\<lambda>r. to_nat (messageId r, prevMsgRef r, payload r, stream_message.more r)"]) simp

instance resend_kind :: countable by countable_datatype

instance resend_request_ext :: (countable) countable
  by (rule countable_classI [of "\<lambda>r. to_nat (rq_requestId r, rq_streamId r, rq_streamPartition r, rq_kind r,
      resend_request.more r)"]) simp

instance control_message :: countable by countable_datatype

definition example_control_wire :: control_wire where
  "example_control_wire = \<lparr>cw_serialize = \<lambda>_ _ m. show_nat (to_nat m), cw_deserialize = \<lambda>s. Inr (from_nat (decimal_value s))\<rparr>"

lemma example_control_wire_ok: "control_wire_ok example_control_wire sv"
  by (simp add: control_wire_ok_def example_control_wire_def decimal_value_show)

definition example_broadcast :: stream_message where
  "example_broadcast = \<lparr>messageId = \<lparr>streamId = ''s'', streamPartition = 0, timestamp = 1, sequenceNumber = 0, publisherId = ''p'',
     msgChainId = ''c''\<rparr>, prevMsgRef = None, payload = ''x''\<rparr>"

theorem message_crosses_versions_witness:
  "\<exists>raw e. ntn_hears example_control_wire (MessageFrom example_peer raw) = Inr (Some e) \<and>
     node_listener e = Some (DataReceived example_broadcast (Some ''p''))"
proof -
  let ?v = "\<lparr>controlLayerVersion = 2, messageLayerVersion = 32\<rparr>"
  let ?env = "example_endpoint_env\<lparr>ee_self := example_peer\<rparr>"
  have "validateProtocolVersions (ee_self ?env) (Some (controlLayerVersions example_peer)) (Some (messageLayerVersions example_peer)) = Inr ?v"
    by (simp add: validateProtocolVersions_def example_peer_def common_version_def below_zero_def)
  moreover have "getNegotiatedProtocolVersions (ep_versions (new_endpoint\<lparr>ep_versions := [(''n'', ?v)]\<rparr>)) ''n'' = Some ?v"
    by (simp add: getNegotiatedProtocolVersions_def)
  ultimately show ?thesis
    using message_crosses_versions [of ?env example_peer ?v "new_endpoint\<lparr>ep_versions := [(''n'', ?v)]\<rparr>" "''n''" example_control_wire
        example_peer example_broadcast] example_control_wire_ok
    by (auto simp: example_peer_def isNode_def)
qed

end
