(* ===== verification/Resends.thy ===== *)
theory Resends
  imports NodeProtocol
begin

section \<open>Resends: streams of responses, and asking neighbours\<close>

text \<open>
  \<open>src/src/resend/proxyRequestStream.ts\<close>, and \<open>LocalResendStrategy\<close> and \<open>ProxiedResend\<close> of
  \<open>src/src/resend/resendStrategies.ts\<close>. A readable stream is what was pushed into it, whether
  its end was pushed, and how often something was pushed after the end, which in Node.js is an
  error event; its consumer sees the pushes in order, and the end after them.
\<close>

record 'm readable =
  pushed :: "'m list"
  eof :: bool
  late_pushes :: nat

definition new_readable :: "'m readable" where
  "new_readable = \<lparr>pushed = [], eof = False, late_pushes = 0\<rparr>"

definition push :: "'m \<Rightarrow> 'm readable \<Rightarrow> 'm readable" where
  "push m r = (if eof r then r\<lparr>late_pushes := late_pushes r + 1\<rparr> else r\<lparr>pushed := pushed r @ [m]\<rparr>)"

definition push_end :: "'m readable \<Rightarrow> 'm readable" where
  "push_end r = r\<lparr>eof := True\<rparr>"

text \<open>\<open>new StreamIdAndPartition(request.streamId, request.streamPartition)\<close>.\<close>

definition request_stream :: "resend_request \<Rightarrow> stream_id_and_partition" where
  "request_stream q = \<lparr>sp_id = rq_streamId q, sp_partition = rq_streamPartition q\<rparr>"

subsection \<open>What the source of a request is sent\<close>

text \<open>The listeners of the request stream; the flag is \<open>fulfilled\<close>.\<close>

definition proxy_data :: "resend_request \<Rightarrow> control_message \<Rightarrow> bool \<Rightarrow> bool \<times> control_message list" where
  "proxy_data q m fulfilled =
     (True, (if fulfilled then []
             else [ResendResponseResending (rq_requestId q) (rq_streamId q) (rq_streamPartition q)]) @ [m])"

definition proxy_end :: "resend_request \<Rightarrow> bool \<Rightarrow> control_message list" where
  "proxy_end q fulfilled =
     [if fulfilled then ResendResponseResent (rq_requestId q) (rq_streamId q) (rq_streamPartition q)
      else ResendResponseNoResend (rq_requestId q) (rq_streamId q) (rq_streamPartition q)]"

fun proxy_all :: "resend_request \<Rightarrow> bool \<Rightarrow> control_message list \<Rightarrow> bool \<times> control_message list" where
  "proxy_all q f [] = (f, [])"
| "proxy_all q f (m # ms) = (let (f1, out) = proxy_data q m f; (f2, outs) = proxy_all q f1 ms in (f2, out @ outs))"

definition proxyRequestStream :: "resend_request \<Rightarrow> control_message readable \<Rightarrow> control_message list" where
  "proxyRequestStream q r =
     (let (f, out) = proxy_all q False (pushed r) in out @ (if eof r then proxy_end q f else []))"

lemma proxy_all_fulfilled: "proxy_all q True ms = (True, ms)"
  by (induction ms) (simp_all add: proxy_data_def)

lemma proxyRequestStream_eq:
  "proxyRequestStream q r =
     (if pushed r = [] then [] else ResendResponseResending (rq_requestId q) (rq_streamId q) (rq_streamPartition q) # pushed r) @
     (if eof r then proxy_end q (pushed r \<noteq> []) else [])"
  by (cases "pushed r") (simp_all add: proxyRequestStream_def proxy_data_def proxy_all_fulfilled)

subsection \<open>The local storage\<close>

text \<open>The call of the storage, with \<open>null\<close> for the chain of a request from a message on.\<close>

datatype storage_call =
    RequestLast string int int
  | RequestFrom string int message_ref "string option" "string option"
  | RequestRange string int message_ref message_ref "string option" "string option"

definition storage_call_of :: "resend_request \<Rightarrow> storage_call" where
  "storage_call_of q = (case rq_kind q of
       ResendLast k \<Rightarrow> RequestLast (rq_streamId q) (rq_streamPartition q) k
     | ResendFrom from publisher \<Rightarrow> RequestFrom (rq_streamId q) (rq_streamPartition q) from publisher None
     | ResendRange from til publisher chain \<Rightarrow> RequestRange (rq_streamId q) (rq_streamPartition q) from til publisher chain)"

definition toUnicastMessage :: "resend_request \<Rightarrow> stream_message \<Rightarrow> control_message" where
  "toUnicastMessage q m = UnicastMessage (rq_requestId q) m"

text \<open>The response stream of the strategy, given what the storage answers to each call.\<close>

definition local_getResendResponseStream :: "(storage_call \<Rightarrow> stream_message readable) \<Rightarrow> resend_request \<Rightarrow> control_message readable" where
  "local_getResendResponseStream storage q = (let r = storage (storage_call_of q) in
     \<lparr>pushed = map (toUnicastMessage q) (pushed r), eof = eof r, late_pushes = 0\<rparr>)"

subsection \<open>A resend through neighbours\<close>

text \<open>
  \<open>ProxiedResend\<close>. \<open>pr_sending\<close> lists the neighbours to which a \<open>send\<close> has neither succeeded nor
  failed yet, \<open>pr_timer\<close> says whether a timeout is armed, and \<open>pr_done\<close> counts the calls of
  \<open>onDoneCb\<close>. What \<open>getNeighbors\<close> answers is an argument of the operations that call it. A
  neighbour of the set of those asked is never asked again, so a list holds it.
\<close>

record proxied =
  pr_request :: resend_request
  pr_maxTries :: nat
  pr_asked :: "string list"
  pr_current :: "string option"
  pr_sending :: "string list"
  pr_timer :: bool
  pr_attached :: bool
  pr_stream :: "control_message readable"
  pr_done :: nat

definition new_proxied :: "resend_request \<Rightarrow> nat \<Rightarrow> control_message readable \<Rightarrow> proxied" where
  "new_proxied q k r = \<lparr>pr_request = q, pr_maxTries = k, pr_asked = [], pr_current = None, pr_sending = [],
     pr_timer = False, pr_attached = False, pr_stream = r, pr_done = 0\<rparr>"

definition endStream :: "proxied \<Rightarrow> proxied" where
  "endStream p = p\<lparr>pr_timer := False, pr_stream := push_end (pr_stream p), pr_attached := False, pr_done := pr_done p + 1\<rparr>"

definition resetTimeout :: "proxied \<Rightarrow> proxied" where
  "resetTimeout p = p\<lparr>pr_timer := True\<rparr>"

definition askNextNeighbor :: "string list \<Rightarrow> proxied \<Rightarrow> proxied" where
  "askNextNeighbor neighbors p =
     (let p1 = p\<lparr>pr_timer := False\<rparr> in
      if length (pr_asked p1) \<ge> pr_maxTries p1 then endStream p1
      else (case filter (\<lambda>x. x \<notin> set (pr_asked p1)) neighbors of
          [] \<Rightarrow> endStream p1
        | n # _ \<Rightarrow> p1\<lparr>pr_asked := pr_asked p1 @ [n], pr_sending := pr_sending p1 @ [n]\<rparr>))"

definition commence :: "string list \<Rightarrow> proxied \<Rightarrow> proxied" where
  "commence neighbors p = askNextNeighbor neighbors (p\<lparr>pr_attached := True\<rparr>)"

definition pr_cancel :: "proxied \<Rightarrow> proxied" where
  "pr_cancel p = endStream p"

definition concerns :: "proxied \<Rightarrow> control_message \<Rightarrow> string \<Rightarrow> bool" where
  "concerns p m source \<longleftrightarrow> rq_requestId (pr_request p) = control_requestId m \<and> pr_current p = Some source"

definition onUnicast :: "control_message \<Rightarrow> string \<Rightarrow> proxied \<Rightarrow> proxied" where
  "onUnicast m source p =
     (if concerns p m source then resetTimeout (p\<lparr>pr_stream := push m (pr_stream p)\<rparr>) else p)"

text \<open>The exception for another type of response is not reachable: the events are of these types.\<close>

definition onResendResponse :: "string list \<Rightarrow> control_message \<Rightarrow> string \<Rightarrow> proxied \<Rightarrow> proxied" where
  "onResendResponse neighbors m source p =
     (if concerns p m source then
        (case m of
           ResendResponseResent _ _ _ \<Rightarrow> endStream p
         | ResendResponseNoResend _ _ _ \<Rightarrow> askNextNeighbor neighbors p
         | ResendResponseResending _ _ _ \<Rightarrow> resetTimeout p
         | _ \<Rightarrow> p)
      else p)"

definition onNodeDisconnect :: "string list \<Rightarrow> string \<Rightarrow> proxied \<Rightarrow> proxied" where
  "onNodeDisconnect neighbors n p = (if pr_current p = Some n then askNextNeighbor neighbors p else p)"

text \<open>The two continuations of \<open>send\<close>.\<close>

definition pr_sent :: "string list \<Rightarrow> string \<Rightarrow> bool \<Rightarrow> proxied \<Rightarrow> proxied" where
  "pr_sent neighbors n ok p =
     (let p1 = p\<lparr>pr_sending := remove1 n (pr_sending p)\<rparr> in
      if ok then resetTimeout (p1\<lparr>pr_current := Some n\<rparr>) else askNextNeighbor neighbors p1)"

datatype proxied_input =
    PrHears node_protocol_event
  | PrSent string bool
  | PrTimeout
  | PrCancel

text \<open>The events of \<open>NodeToNode\<close> are heard while the handlers are attached.\<close>

fun proxied_step :: "string list \<Rightarrow> proxied \<Rightarrow> proxied_input \<Rightarrow> proxied" where
  "proxied_step ns p (PrHears e) =
     (if pr_attached p then
        (case e of
           NtnUnicastReceived r m source \<Rightarrow> onUnicast (UnicastMessage r m) source p
         | NtnResendResponse m source \<Rightarrow> onResendResponse ns m source p
         | NtnNodeDisconnected n \<Rightarrow> onNodeDisconnect ns n p
         | _ \<Rightarrow> p)
      else p)"
| "proxied_step ns p (PrSent n ok) = (if n \<in> set (pr_sending p) then pr_sent ns n ok p else p)"
| "proxied_step ns p PrTimeout = (if pr_timer p then askNextNeighbor ns (p\<lparr>pr_timer := False\<rparr>) else p)"
| "proxied_step ns p PrCancel = pr_cancel p"

subsection \<open>An example\<close>

definition example_request :: resend_request where
  "example_request = \<lparr>rq_requestId = ''r'', rq_streamId = ''s'', rq_streamPartition = 0, rq_kind = ResendLast 1\<rparr>"

end
