(* ===== verification/ResendRuns.thy ===== *)
theory ResendRuns
  imports Resends
begin

section \<open>Runs of a resend through neighbours\<close>

text \<open>
  The invariant of \<open>ProxiedResend\<close>, that it ends, and what a requester makes of the responses
  that the other side's \<open>proxyRequestStream\<close> sends.
\<close>

definition is_answer :: "resend_request \<Rightarrow> control_message \<Rightarrow> bool" where
  "is_answer q m \<longleftrightarrow> (case m of UnicastMessage r _ \<Rightarrow> r = rq_requestId q | _ \<Rightarrow> False)"

lemma is_answerE: "is_answer q m \<Longrightarrow> \<exists>s. m = UnicastMessage (rq_requestId q) s"
  by (cases m) (simp_all add: is_answer_def)

definition proxied_ok :: "resend_request \<Rightarrow> nat \<Rightarrow> proxied \<Rightarrow> bool" where
  "proxied_ok q limit p \<longleftrightarrow> pr_request p = q \<and> pr_maxTries p = limit \<and>
     distinct (pr_asked p) \<and> length (pr_asked p) \<le> limit \<and> set (pr_sending p) \<subseteq> set (pr_asked p) \<and>
     distinct (pr_sending p) \<and> (\<forall>n. pr_current p = Some n \<longrightarrow> n \<in> set (pr_asked p)) \<and>
     pr_attached p = (\<not> eof (pr_stream p)) \<and> (pr_done p = 0 \<longleftrightarrow> \<not> eof (pr_stream p)) \<and>
     list_all (is_answer q) (pushed (pr_stream p)) \<and> late_pushes (pr_stream p) = 0 \<and>
     (\<not> eof (pr_stream p) \<longrightarrow> pr_sending p \<noteq> [] \<or> pr_timer p)"

lemma proxied_okD:
  assumes "proxied_ok q limit p"
  shows "pr_request p = q" "pr_maxTries p = limit" "distinct (pr_asked p)" "length (pr_asked p) \<le> limit"
    "set (pr_sending p) \<subseteq> set (pr_asked p)" "pr_current p = Some n \<Longrightarrow> n \<in> set (pr_asked p)"
    "pr_attached p = (\<not> eof (pr_stream p))" "pr_done p = 0 \<longleftrightarrow> \<not> eof (pr_stream p)"
    "list_all (is_answer q) (pushed (pr_stream p))" "late_pushes (pr_stream p) = 0"
    "\<not> eof (pr_stream p) \<Longrightarrow> pr_sending p \<noteq> [] \<or> pr_timer p" "distinct (pr_sending p)"
  using assms by (simp_all add: proxied_ok_def)

text \<open>The weaker form while an operation runs: nothing may be pending yet.\<close>

definition proxied_mid :: "resend_request \<Rightarrow> nat \<Rightarrow> proxied \<Rightarrow> bool" where
  "proxied_mid q limit p \<longleftrightarrow> proxied_ok q limit (p\<lparr>pr_timer := True\<rparr>)"

lemma ok_mid: "proxied_ok q limit p \<Longrightarrow> proxied_mid q limit (p\<lparr>pr_timer := b\<rparr>)"
  by (simp add: proxied_ok_def proxied_mid_def)

lemma end_ok: "proxied_mid q limit p \<Longrightarrow> proxied_ok q limit (endStream p)"
  by (simp add: proxied_ok_def proxied_mid_def endStream_def push_end_def)

lemma ask_ok:
  assumes "proxied_mid q limit p" shows "proxied_ok q limit (askNextNeighbor ns p)"
proof (cases "length (pr_asked p) \<ge> pr_maxTries p")
  case True
  have "proxied_mid q limit (p\<lparr>pr_timer := False\<rparr>)" using assms by (simp add: proxied_mid_def)
  then show ?thesis using True end_ok by (simp add: askNextNeighbor_def Let_def)
next
  case few: False
  show ?thesis
  proof (cases "filter (\<lambda>x. x \<notin> set (pr_asked p)) ns")
    case Nil
    have "proxied_mid q limit (p\<lparr>pr_timer := False\<rparr>)" using assms by (simp add: proxied_mid_def)
    then show ?thesis using few Nil end_ok by (simp add: askNextNeighbor_def Let_def)
  next
    case (Cons n rest)
    then have "n \<in> set (filter (\<lambda>x. x \<notin> set (pr_asked p)) ns)" by simp
    then have "n \<notin> set (pr_asked p)" by simp
    then show ?thesis using assms few Cons
      by (auto simp: askNextNeighbor_def Let_def proxied_ok_def proxied_mid_def)
  qed
qed

lemma reset_ok: "proxied_mid q limit p \<Longrightarrow> proxied_ok q limit (resetTimeout p)"
  by (simp add: proxied_mid_def resetTimeout_def)

lemma heard_ok:
  assumes ok: "proxied_ok q limit p" and a: "pr_attached p"
  shows "proxied_ok q limit (proxied_step ns p (PrHears e))"
proof -
  have mid: "proxied_mid q limit p" using ok_mid [OF ok, of "pr_timer p"] by simp
  have "proxied_mid q limit (p\<lparr>pr_stream := push m (pr_stream p)\<rparr>)" if "is_answer q m" for m
    using ok a that by (simp add: proxied_ok_def proxied_mid_def push_def)
  then have u: "proxied_ok q limit (onUnicast (UnicastMessage r m) source p)" for r m source
    using ok reset_ok proxied_okD(1) [OF ok] by (simp add: onUnicast_def concerns_def is_answer_def)
  have r: "proxied_ok q limit (onResendResponse ns m source p)" for m source
    using ok end_ok [OF mid] ask_ok [OF mid] reset_ok [OF mid] by (simp add: onResendResponse_def split: control_message.split)
  have d: "proxied_ok q limit (onNodeDisconnect ns n p)" for n using ok ask_ok [OF mid] by (simp add: onNodeDisconnect_def)
  show ?thesis using a u r d ok by (simp split: node_protocol_event.split)
qed

lemma proxied_step_ok:
  assumes ok: "proxied_ok q limit p" shows "proxied_ok q limit (proxied_step ns p x)"
proof (cases x)
  case (PrHears e)
  then show ?thesis using heard_ok [OF ok] ok by (cases "pr_attached p") simp_all
next
  case (PrSent n b)
  have "proxied_mid q limit (p\<lparr>pr_sending := remove1 n (pr_sending p)\<rparr>)"
    using ok set_remove1_subset [of n "pr_sending p"] by (auto simp: proxied_ok_def proxied_mid_def)
  moreover have "proxied_mid q limit (p\<lparr>pr_sending := remove1 n (pr_sending p), pr_current := Some n\<rparr>)" if "n \<in> set (pr_sending p)"
    using ok that set_remove1_subset [of n "pr_sending p"] by (auto simp: proxied_ok_def proxied_mid_def)
  ultimately show ?thesis using PrSent ok ask_ok reset_ok by (simp add: pr_sent_def Let_def)
next
  case PrTimeout
  then show ?thesis using ok ask_ok [OF ok_mid [OF ok]] by simp
next
  case PrCancel
  then show ?thesis using end_ok [OF ok_mid [OF ok, of "pr_timer p"]] by (simp add: pr_cancel_def)
qed

interpretation resends: step_invariant "proxied_step ns" "\<lambda>_. True" "proxied_ok q limit"
  by unfold_locales (rule proxied_step_ok)

definition proxied_run :: "string list \<Rightarrow> resend_request \<Rightarrow> nat \<Rightarrow> proxied_input list \<Rightarrow> proxied" where
  "proxied_run ns q limit xs = foldl (proxied_step ns) (commence ns (new_proxied q limit new_readable)) xs"

lemma commence_ok: "proxied_ok q limit (commence ns (new_proxied q limit new_readable))"
  unfolding commence_def by (rule ask_ok) (simp add: proxied_mid_def proxied_ok_def new_proxied_def new_readable_def)

lemma proxied_run_ok: "proxied_ok q limit (proxied_run ns q limit xs)"
  unfolding proxied_run_def by (rule resends.run_inv [OF commence_ok]) simp

text \<open>
  C27. Whatever a resend through neighbours hears, it asks no neighbour twice and at most
  \<open>maxTries\<close> of them, gives its consumer only messages of its own request, and gives nothing
  after the end. Its stream has its end exactly when the end of the resend was run, which can
  happen more than once: a send that is pending when the resend is cancelled arms the timer
  again, and that ends the stream, which has its end already, a second time.
\<close>

theorem proxied_resend_bounded:
  "let p = proxied_run ns q limit xs in
   distinct (pr_asked p) \<and> length (pr_asked p) \<le> limit \<and>
   list_all (is_answer q) (pushed (pr_stream p)) \<and> late_pushes (pr_stream p) = 0 \<and>
   (pr_done p = 0 \<longleftrightarrow> \<not> eof (pr_stream p))"
  using proxied_okD(3,4,8,9,10) [OF proxied_run_ok [of q limit ns xs]] unfolding Let_def by blast

subsection \<open>A resend ends\<close>

text \<open>
  Nothing more is heard: sends that are pending settle one after the other, \<open>oks\<close> says how,
  and when none is left the timeout fires.
\<close>

fun wait_out :: "string list \<Rightarrow> (nat \<Rightarrow> bool) \<Rightarrow> nat \<Rightarrow> proxied \<Rightarrow> proxied" where
  "wait_out ns oks 0 p = p"
| "wait_out ns oks (Suc k) p =
     (if eof (pr_stream p) then p
      else wait_out ns oks k (case pr_sending p of
          n # _ \<Rightarrow> proxied_step ns p (PrSent n (oks k))
        | [] \<Rightarrow> proxied_step ns p PrTimeout))"

definition effort :: "proxied \<Rightarrow> nat" where
  "effort p = 3 * (pr_maxTries p - length (pr_asked p)) + 2 * length (pr_sending p) + (if pr_timer p then 1 else 0)"

lemma ask_effort:
  "eof (pr_stream (askNextNeighbor ns p)) \<or>
   effort (askNextNeighbor ns p) + 1 \<le> 3 * (pr_maxTries p - length (pr_asked p)) + 2 * length (pr_sending p)"
  by (auto simp: askNextNeighbor_def Let_def effort_def endStream_def push_end_def split: list.split)

lemma wait_effort:
  assumes ok: "proxied_ok q limit p" and "\<not> eof (pr_stream p)"
    and p': "p' = (case pr_sending p of n # _ \<Rightarrow> proxied_step ns p (PrSent n b) | [] \<Rightarrow> proxied_step ns p PrTimeout)"
  shows "eof (pr_stream p') \<or> effort p' < effort p"
proof (cases "pr_sending p")
  case Nil
  then have "pr_timer p" using proxied_okD(11) [OF ok assms(2)] by simp
  then show ?thesis using Nil ask_effort [of ns "p\<lparr>pr_timer := False\<rparr>"] by (auto simp: p' effort_def)
next
  case (Cons n rest)
  then show ?thesis using ask_effort [of ns "p\<lparr>pr_sending := rest\<rparr>"]
    by (auto simp: p' pr_sent_def Let_def resetTimeout_def effort_def)
qed

lemma waits_until_end:
  "proxied_ok q limit p \<Longrightarrow> effort p < k \<Longrightarrow> eof (pr_stream (wait_out ns oks k p))"
proof (induction k arbitrary: p)
  case (Suc k)
  show ?case
  proof (cases "eof (pr_stream p)")
    case False
    let ?p = "case pr_sending p of n # _ \<Rightarrow> proxied_step ns p (PrSent n (oks k)) | [] \<Rightarrow> proxied_step ns p PrTimeout"
    have ok: "proxied_ok q limit ?p" using proxied_step_ok [OF Suc.prems(1)] by (cases "pr_sending p") (simp_all del: proxied_step.simps)
    have stay: "wait_out ns oks j r = r" if "eof (pr_stream r)" for j r using that by (cases j) simp_all
    have "eof (pr_stream ?p) \<or> effort ?p < effort p" by (rule wait_effort [OF Suc.prems(1) False refl])
    then have "eof (pr_stream (wait_out ns oks k ?p))"
    proof
      assume "eof (pr_stream ?p)"
      then show ?thesis using stay [of ?p k] by simp
    next
      assume "effort ?p < effort p"
      then show ?thesis using Suc.IH [OF ok] Suc.prems(2) by simp
    qed
    then show ?thesis using False by simp
  qed simp
qed simp

text \<open>
  C28. A resend through neighbours ends by itself. From whatever state it is in, when nothing
  more is heard from anyone, its stream ends after finitely many steps, each the outcome of a
  send or a timeout: at most three for each neighbour it may ask, and two.
\<close>

theorem proxied_resend_ends:
  "eof (pr_stream (wait_out ns oks (3 * limit + 2) (proxied_run ns q limit xs)))"
proof (rule waits_until_end [OF proxied_run_ok])
  let ?p = "proxied_run ns q limit xs"
  note ok = proxied_run_ok [of q limit ns xs]
  have "length (pr_sending ?p) \<le> length (pr_asked ?p)"
    using proxied_okD(3,5,12) [OF ok] by (metis card_mono distinct_card finite_set)
  then show "effort ?p < 3 * limit + 2" using proxied_okD(2,4) [OF ok] by (auto simp: effort_def)
qed

subsection \<open>From one node to the other\<close>

text \<open>What a node that asked \<open>n\<close> for \<open>q\<close> may hear meanwhile without taking notice.\<close>

definition unrelated :: "resend_request \<Rightarrow> string \<Rightarrow> node_protocol_event \<Rightarrow> bool" where
  "unrelated q n e \<longleftrightarrow> (case e of
       NtnUnicastReceived r m source \<Rightarrow> r \<noteq> rq_requestId q \<or> source \<noteq> n
     | NtnResendResponse m source \<Rightarrow> control_requestId m \<noteq> rq_requestId q \<or> source \<noteq> n
     | NtnNodeDisconnected source \<Rightarrow> source \<noteq> n
     | _ \<Rightarrow> True)"

lemma unrelated_ignored:
  "unrelated q n e \<Longrightarrow> pr_request p = q \<Longrightarrow> pr_current p = Some n \<Longrightarrow> proxied_step ns p (PrHears e) = p"
  by (auto simp: unrelated_def onUnicast_def onResendResponse_def onNodeDisconnect_def concerns_def split: node_protocol_event.splits)

text \<open>The responses of the node \<open>n\<close> as the events that they arrive as.\<close>

definition arrivals :: "string \<Rightarrow> control_message list \<Rightarrow> node_protocol_event list" where
  "arrivals n ms = List.map_filter (\<lambda>m. ntn_event_of m n) ms"

lemma arrivals_simps [simp]:
  "arrivals n [] = []" "arrivals n (toUnicastMessage q m # ms) = NtnUnicastReceived (rq_requestId q) m n # arrivals n ms"
  "arrivals n (ResendResponseResending r s k # ms) = NtnResendResponse (ResendResponseResending r s k) n # arrivals n ms"
  "arrivals n (ResendResponseResent r s k # ms) = NtnResendResponse (ResendResponseResent r s k) n # arrivals n ms"
  "arrivals n (ResendResponseNoResend r s k # ms) = NtnResendResponse (ResendResponseNoResend r s k) n # arrivals n ms"
  by (simp_all add: arrivals_def toUnicastMessage_def)

lemma all_unrelated:
  "filter (\<lambda>e. \<not> unrelated q n e) es = [] \<Longrightarrow> pr_request p = q \<Longrightarrow> pr_current p = Some n \<Longrightarrow>
   foldl (proxied_step ns) p (map PrHears es) = p"
  by (induction es) (auto simp: unrelated_ignored simp del: proxied_step.simps split: if_splits)

lemma next_related:
  "filter (\<lambda>e. \<not> unrelated q n e) es = e # rest \<Longrightarrow> pr_request p = q \<Longrightarrow> pr_current p = Some n \<Longrightarrow>
   \<exists>es'. filter (\<lambda>e. \<not> unrelated q n e) es' = rest \<and>
     foldl (proxied_step ns) p (map PrHears es) = foldl (proxied_step ns) (proxied_step ns p (PrHears e)) (map PrHears es')"
  by (induction es) (auto simp: unrelated_ignored simp del: proxied_step.simps split: if_splits)

text \<open>A requester that waits for \<open>n\<close>.\<close>

definition waiting_for :: "resend_request \<Rightarrow> string \<Rightarrow> proxied \<Rightarrow> bool" where
  "waiting_for q n p \<longleftrightarrow> pr_request p = q \<and> pr_current p = Some n \<and> pr_attached p \<and> pr_timer p \<and> \<not> eof (pr_stream p)"

lemma unicasts_arrive:
  assumes "filter (\<lambda>e. \<not> unrelated q n e) es = arrivals n (map (toUnicastMessage q) ms @ rest)" and "waiting_for q n p"
  shows "\<exists>es'. filter (\<lambda>e. \<not> unrelated q n e) es' = arrivals n rest \<and>
    foldl (proxied_step ns) p (map PrHears es) =
      foldl (proxied_step ns) (p\<lparr>pr_stream := (pr_stream p)\<lparr>pushed := pushed (pr_stream p) @ map (toUnicastMessage q) ms\<rparr>\<rparr>)
        (map PrHears es')"
  using assms
proof (induction ms arbitrary: es p)
  case Nil
  then show ?case by (intro exI [of _ es]) simp
next
  case (Cons m ms)
  let ?p = "p\<lparr>pr_stream := (pr_stream p)\<lparr>pushed := pushed (pr_stream p) @ [toUnicastMessage q m]\<rparr>\<rparr>"
  have step: "proxied_step ns p (PrHears (NtnUnicastReceived (rq_requestId q) m n)) = ?p"
    using Cons.prems(2) by (simp add: waiting_for_def onUnicast_def concerns_def resetTimeout_def push_def toUnicastMessage_def)
  have "filter (\<lambda>e. \<not> unrelated q n e) es = NtnUnicastReceived (rq_requestId q) m n # arrivals n (map (toUnicastMessage q) ms @ rest)"
    using Cons.prems(1) by simp
  then obtain es1 where es1: "filter (\<lambda>e. \<not> unrelated q n e) es1 = arrivals n (map (toUnicastMessage q) ms @ rest)"
    "foldl (proxied_step ns) p (map PrHears es) = foldl (proxied_step ns) ?p (map PrHears es1)"
    using next_related [of q n es "NtnUnicastReceived (rq_requestId q) m n" _ p ns] Cons.prems(2) step
    by (auto simp: waiting_for_def simp del: proxied_step.simps)
  have "waiting_for q n ?p" using Cons.prems(2) by (simp add: waiting_for_def)
  from Cons.IH [OF es1(1) this] show ?case using es1(2) by simp
qed

text \<open>The resend once the first neighbour has been sent the request.\<close>

definition first_asked :: "resend_request \<Rightarrow> nat \<Rightarrow> string \<Rightarrow> proxied" where
  "first_asked q limit n = \<lparr>pr_request = q, pr_maxTries = limit, pr_asked = [n], pr_current = Some n, pr_sending = [], pr_timer = True,
      pr_attached = True, pr_stream = new_readable, pr_done = 0\<rparr>"

lemma run_first_asked:
  "0 < limit \<Longrightarrow> proxied_run (n # ns) q limit (PrSent n True # xs) = foldl (proxied_step (n # ns)) (first_asked q limit n) xs"
  by (simp add: proxied_run_def first_asked_def commence_def new_proxied_def askNextNeighbor_def pr_sent_def resetTimeout_def new_readable_def)

lemma first_asked_waits: "waiting_for q n (first_asked q limit n)"
  by (simp add: waiting_for_def first_asked_def new_readable_def)

lemma first_asked_fields [simp]: "pr_request (first_asked q limit n) = q" "pr_current (first_asked q limit n) = Some n"
  by (simp_all add: first_asked_def)

lemma ask_after_first:
  assumes "n \<notin> set ns"
  shows "askNextNeighbor (n # ns) (first_asked q limit n) = (if limit \<le> 1 \<or> ns = []
    then endStream ((first_asked q limit n)\<lparr>pr_timer := False\<rparr>)
    else (first_asked q limit n)\<lparr>pr_timer := False, pr_asked := [n, hd ns], pr_sending := [hd ns]\<rparr>)"
proof (cases "limit \<le> 1")
  case True
  then show ?thesis unfolding askNextNeighbor_def Let_def by (simp add: first_asked_def)
next
  case False
  have "filter (\<lambda>x. x \<noteq> n) ns = ns" using assms by (induction ns) auto
  then show ?thesis using False unfolding askNextNeighbor_def Let_def by (cases ns) (simp_all add: first_asked_def)
qed

text \<open>The neighbour has nothing, and it has messages.\<close>

lemma nothing_travels:
  assumes "n \<notin> set ns" and "filter (\<lambda>e. \<not> unrelated q n e) es =
      arrivals n (proxyRequestStream q \<lparr>pushed = [], eof = True, late_pushes = 0\<rparr>)"
  shows "foldl (proxied_step (n # ns)) (first_asked q limit n) (map PrHears es) = askNextNeighbor (n # ns) (first_asked q limit n)"
proof -
  let ?p = "first_asked q limit n"
  let ?e = "NtnResendResponse (ResendResponseNoResend (rq_requestId q) (rq_streamId q) (rq_streamPartition q)) n"
  have "filter (\<lambda>e. \<not> unrelated q n e) es = [?e]" using assms(2) by (simp add: proxyRequestStream_eq proxy_end_def)
  then obtain es1 where es1: "filter (\<lambda>e. \<not> unrelated q n e) es1 = []"
    "foldl (proxied_step (n # ns)) ?p (map PrHears es) = foldl (proxied_step (n # ns)) (proxied_step (n # ns) ?p (PrHears ?e)) (map PrHears es1)"
    using next_related [of q n es ?e "[]" ?p "n # ns"] by (auto simp del: proxied_step.simps)
  have step: "proxied_step (n # ns) ?p (PrHears ?e) = askNextNeighbor (n # ns) ?p"
    by (simp add: first_asked_def onResendResponse_def concerns_def)
  have "pr_request (askNextNeighbor (n # ns) ?p) = q" "pr_current (askNextNeighbor (n # ns) ?p) = Some n"
    by (simp_all add: askNextNeighbor_def Let_def endStream_def split: list.split)
  then show ?thesis using es1 step all_unrelated [OF es1(1)] by (simp del: proxied_step.simps)
qed

lemma messages_travel:
  assumes "ms \<noteq> []" and "filter (\<lambda>e. \<not> unrelated q n e) es =
      arrivals n (proxyRequestStream q \<lparr>pushed = map (toUnicastMessage q) ms, eof = True, late_pushes = 0\<rparr>)"
  shows "foldl (proxied_step (n # ns)) (first_asked q limit n) (map PrHears es) =
    endStream ((first_asked q limit n)\<lparr>pr_stream := new_readable\<lparr>pushed := map (toUnicastMessage q) ms\<rparr>\<rparr>)"
proof -
  let ?p = "first_asked q limit n"
  let ?q = "?p\<lparr>pr_stream := new_readable\<lparr>pushed := map (toUnicastMessage q) ms\<rparr>\<rparr>"
  have q: "?p\<lparr>pr_stream := (pr_stream ?p)\<lparr>pushed := pushed (pr_stream ?p) @ map (toUnicastMessage q) ms\<rparr>\<rparr> = ?q"
    by (simp add: first_asked_def new_readable_def)
  let ?e = "NtnResendResponse (ResendResponseResending (rq_requestId q) (rq_streamId q) (rq_streamPartition q)) n"
  let ?f = "NtnResendResponse (ResendResponseResent (rq_requestId q) (rq_streamId q) (rq_streamPartition q)) n"
  have "filter (\<lambda>e. \<not> unrelated q n e) es = ?e # arrivals n (map (toUnicastMessage q) ms @
      [ResendResponseResent (rq_requestId q) (rq_streamId q) (rq_streamPartition q)])"
    using assms by (simp add: proxyRequestStream_eq proxy_end_def)
  then obtain es1 where es1: "filter (\<lambda>e. \<not> unrelated q n e) es1 = arrivals n (map (toUnicastMessage q) ms @
      [ResendResponseResent (rq_requestId q) (rq_streamId q) (rq_streamPartition q)])"
    "foldl (proxied_step (n # ns)) ?p (map PrHears es) = foldl (proxied_step (n # ns)) (proxied_step (n # ns) ?p (PrHears ?e)) (map PrHears es1)"
    using next_related [of q n es ?e _ ?p "n # ns"] by (auto simp del: proxied_step.simps)
  have step: "proxied_step (n # ns) ?p (PrHears ?e) = ?p" by (simp add: first_asked_def onResendResponse_def concerns_def resetTimeout_def)
  obtain es2 where es2: "filter (\<lambda>e. \<not> unrelated q n e) es2 = [?f]"
    "foldl (proxied_step (n # ns)) ?p (map PrHears es1) = foldl (proxied_step (n # ns)) ?q (map PrHears es2)"
    using unicasts_arrive [OF es1(1) first_asked_waits [of q n limit], of "n # ns", unfolded q] by auto
  obtain es3 where es3: "filter (\<lambda>e. \<not> unrelated q n e) es3 = []"
    "foldl (proxied_step (n # ns)) ?q (map PrHears es2) = foldl (proxied_step (n # ns)) (proxied_step (n # ns) ?q (PrHears ?f)) (map PrHears es3)"
    using next_related [OF es2(1), of ?q "n # ns"] by (auto simp del: proxied_step.simps)
  have "proxied_step (n # ns) ?q (PrHears ?f) = endStream ?q" by (simp add: first_asked_def onResendResponse_def concerns_def)
  moreover have "foldl (proxied_step (n # ns)) (endStream ?q) (map PrHears es3) = endStream ?q"
    by (rule all_unrelated [OF es3(1)]) (simp_all add: endStream_def)
  ultimately show ?thesis by (simp only: es1(2) step es2(2) es3(2))
qed

text \<open>
  C26. A resend travels from node to node unchanged. When a node asks a neighbour for a resend
  and hears the responses that the neighbour's request stream makes, in their order and among
  anything else that does not concern the request, then its consumer gets exactly the messages
  the neighbour had, followed by the end; when the neighbour had none, the next neighbour is
  asked, or the end comes if there is none or the limit is reached.
\<close>

theorem resend_travels:
  assumes "0 < limit" "n \<notin> set ns"
    and "filter (\<lambda>e. \<not> unrelated q n e) es =
      arrivals n (proxyRequestStream q \<lparr>pushed = map (toUnicastMessage q) ms, eof = True, late_pushes = 0\<rparr>)"
  shows "let p = proxied_run (n # ns) q limit (PrSent n True # map PrHears es) in
    pushed (pr_stream p) = map (toUnicastMessage q) ms \<and>
    (if ms = [] \<and> ns \<noteq> [] \<and> 1 < limit then \<not> eof (pr_stream p) \<and> pr_asked p = [n, hd ns] \<and> pr_sending p = [hd ns]
     else eof (pr_stream p) \<and> pr_done p = 1 \<and> pr_asked p = [n] \<and> \<not> pr_timer p)"
proof (cases "ms = []")
  case True
  then have "filter (\<lambda>e. \<not> unrelated q n e) es = arrivals n (proxyRequestStream q \<lparr>pushed = [], eof = True, late_pushes = 0\<rparr>)"
    using assms(3) by simp
  note r = nothing_travels [OF assms(2) this, of limit]
  show ?thesis using True unfolding Let_def run_first_asked [OF assms(1)] r ask_after_first [OF assms(2)]
    by (auto simp: first_asked_def endStream_def push_end_def new_readable_def)
next
  case False
  show ?thesis using False unfolding Let_def run_first_asked [OF assms(1)] messages_travel [OF False assms(3)]
    by (simp add: first_asked_def endStream_def push_end_def new_readable_def)
qed

lemma resend_travels_witness:
  "\<exists>es. pushed (pr_stream (proxied_run [''n''] example_request 1 (PrSent ''n'' True # map PrHears es))) =
      [UnicastMessage ''r'' example_broadcast] \<and>
    eof (pr_stream (proxied_run [''n''] example_request 1 (PrSent ''n'' True # map PrHears es)))"
proof -
  let ?es = "arrivals ''n'' (proxyRequestStream example_request
    \<lparr>pushed = map (toUnicastMessage example_request) [example_broadcast], eof = True, late_pushes = 0\<rparr>)"
  have es: "filter (\<lambda>e. \<not> unrelated example_request ''n'' e) ?es = ?es"
    by (simp add: proxyRequestStream_eq proxy_end_def unrelated_def)
  have "(0 :: nat) < 1" "''n'' \<notin> set []" by simp_all
  note resend_travels [OF this es, unfolded Let_def]
  then show ?thesis by (intro exI [of _ ?es]) (simp add: toUnicastMessage_def example_request_def)
qed

end
