(* ===== verification/ResendHandler.thy ===== *)
theory ResendHandler
  imports Resends
begin

section \<open>The resend handler\<close>

text \<open>
  \<open>src/src/resend/ResendHandler.ts\<close>: every request gets a stream, filled from the response
  streams of the strategies, which are tried one after the other until one delivers.

  A context is an object, given by a number; \<open>rc_asked\<close> counts the strategies whose response
  stream it has had, the last of which it is reading, and \<open>rc_settled\<close> is the outcome of
  \<open>readStreamUntilEndOrError\<close> once its promise has settled and until the loop goes on.
  \<open>rc_results\<close> logs those outcomes, \<open>rc_calls\<close> the calls on the streams. A
  response stream reports to the listeners of both functions, also after it was read: a
  stream whose reading timed out is not destroyed. How a strategy fills its stream is not
  the handler's concern, so what the streams report are inputs, and so are the \<open>close\<close>, \<open>pause\<close> and
  \<open>resume\<close> events of the request's own stream (which events a call leads to, and what is kept
  of the data pushed to a stream its reader destroyed, is Node's); whether asking a strategy
  throws is an argument. The ages of the resends, a metric, are not modelled.
\<close>

datatype stream_call =
    PauseRequest
  | ResumeRequest
  | PauseResponse nat
  | ResumeResponse nat
  | DestroyResponse nat

record resend_ctx =
  rc_request :: resend_request
  rc_source :: "string option"
  rc_stop :: bool
  rc_running :: bool
  rc_asked :: nat
  rc_settled :: "bool option"
  rc_count :: nat
  rc_lastCheck :: nat
  rc_results :: "bool list"
  rc_stream :: "control_message readable"
  rc_calls :: "stream_call list"

record resend_handler =
  rh_book :: "(string, nat list) dict"
  rh_ctxs :: "(nat, resend_ctx) dict"
  rh_next :: nat
  rh_notified :: "resend_request list"
  rh_rejections :: nat
  rh_strategyStops :: nat

definition new_resend_handler :: resend_handler where
  "new_resend_handler = \<lparr>rh_book = [], rh_ctxs = [], rh_next = 0, rh_notified = [], rh_rejections = 0, rh_strategyStops = 0\<rparr>"

subsection \<open>The bookkeeper\<close>

text \<open>\<open>node || 'null'\<close>.\<close>

definition resend_key :: "string option \<Rightarrow> string" where
  "resend_key n = (case n of None \<Rightarrow> ''null'' | Some s \<Rightarrow> if s = [] then ''null'' else s)"

definition getContexts :: "(string, nat list) dict \<Rightarrow> string option \<Rightarrow> nat list" where
  "getContexts b n = (case map_of b (resend_key n) of None \<Rightarrow> [] | Some cs \<Rightarrow> cs)"

definition bookkeeper_add :: "string option \<Rightarrow> nat \<Rightarrow> (string, nat list) dict \<Rightarrow> (string, nat list) dict" where
  "bookkeeper_add n c b = AList.update (resend_key n) (set_add c (getContexts b n)) b"

definition popContexts :: "string option \<Rightarrow> (string, nat list) dict \<Rightarrow> nat list \<times> (string, nat list) dict" where
  "popContexts n b = (getContexts b n, AList.delete (resend_key n) b)"

definition bookkeeper_delete :: "string option \<Rightarrow> nat \<Rightarrow> (string, nat list) dict \<Rightarrow> (string, nat list) dict" where
  "bookkeeper_delete n c b = (case map_of b (resend_key n) of
       None \<Rightarrow> b
     | Some cs \<Rightarrow> (let cs' = set_del c cs in
         if cs' = [] then AList.delete (resend_key n) b else AList.update (resend_key n) cs' b))"

definition bookkeeper_size :: "(string, nat list) dict \<Rightarrow> nat" where
  "bookkeeper_size b = foldl (\<lambda>n cs. n + length cs) 0 (values_of b)"

subsection \<open>Contexts\<close>

definition ctx_update :: "nat \<Rightarrow> (resend_ctx \<Rightarrow> resend_ctx) \<Rightarrow> resend_handler \<Rightarrow> resend_handler" where
  "ctx_update c f h = (case map_of (rh_ctxs h) c of
       None \<Rightarrow> h
     | Some x \<Rightarrow> h\<lparr>rh_ctxs := AList.update c (f x) (rh_ctxs h)\<rparr>)"

definition ctx_call :: "(nat \<Rightarrow> stream_call) \<Rightarrow> resend_ctx \<Rightarrow> resend_ctx" where
  "ctx_call f x = (if rc_asked x = 0 then x else x\<lparr>rc_calls := rc_calls x @ [f (rc_asked x - 1)]\<rparr>)"

definition ctx_pause :: "resend_ctx \<Rightarrow> resend_ctx" where
  "ctx_pause x = x\<lparr>rc_calls := rc_calls x @ [PauseRequest]\<rparr>"

definition ctx_resume :: "resend_ctx \<Rightarrow> resend_ctx" where
  "ctx_resume x = x\<lparr>rc_calls := rc_calls x @ [ResumeRequest]\<rparr>"

definition ctx_cancel :: "resend_ctx \<Rightarrow> resend_ctx" where
  "ctx_cancel x = ctx_call DestroyResponse (x\<lparr>rc_stop := True\<rparr>)"

text \<open>The listeners of the request's stream.\<close>

definition on_request_paused :: "resend_ctx \<Rightarrow> resend_ctx" where
  "on_request_paused x = ctx_call PauseResponse x"

definition on_request_resumed :: "resend_ctx \<Rightarrow> resend_ctx" where
  "on_request_resumed x = ctx_call ResumeResponse x"

subsection \<open>The loop\<close>

text \<open>The \<open>finally\<close> of the loop.\<close>

definition loop_over :: "nat \<Rightarrow> resend_handler \<Rightarrow> resend_handler" where
  "loop_over c h = (case map_of (rh_ctxs h) c of
       None \<Rightarrow> h
     | Some x \<Rightarrow> (ctx_update c (\<lambda>x. x\<lparr>rc_running := False\<rparr>) h)\<lparr>rh_book := bookkeeper_delete (rc_source x) c (rh_book h)\<rparr>)"

text \<open>From the head of the loop to its next \<open>await\<close> or its end.\<close>

definition loop_head :: "nat \<Rightarrow> (nat \<Rightarrow> bool) \<Rightarrow> nat \<Rightarrow> resend_handler \<Rightarrow> resend_handler" where
  "loop_head strategies throws c h = (case map_of (rh_ctxs h) c of
       None \<Rightarrow> h
     | Some x \<Rightarrow>
         if rc_asked x < strategies \<and> \<not> rc_stop x then
           (if throws (rc_asked x) then (loop_over c h)\<lparr>rh_rejections := rh_rejections h + 1\<rparr>
            else ctx_update c (\<lambda>x. x\<lparr>rc_asked := rc_asked x + 1, rc_settled := None, rc_count := 0, rc_lastCheck := 0\<rparr>) h)
         else loop_over c (ctx_update c (\<lambda>x. x\<lparr>rc_stream := push_end (rc_stream x)\<rparr>) h))"

definition handleRequest ::
    "nat \<Rightarrow> (nat \<Rightarrow> bool) \<Rightarrow> resend_request \<Rightarrow> string option \<Rightarrow> resend_handler \<Rightarrow> resend_handler" where
  "handleRequest strategies throws q source h =
     (let c = rh_next h;
          x = \<lparr>rc_request = q, rc_source = source, rc_stop = False, rc_running = True, rc_asked = 0, rc_settled = None,
               rc_count = 0, rc_lastCheck = 0, rc_results = [], rc_stream = new_readable, rc_calls = []\<rparr>
      in loop_head strategies throws c
           (h\<lparr>rh_next := c + 1, rh_ctxs := AList.update c x (rh_ctxs h), rh_book := bookkeeper_add source c (rh_book h)\<rparr>))"

text \<open>After the \<open>await\<close>.\<close>

definition loop_continues :: "nat \<Rightarrow> (nat \<Rightarrow> bool) \<Rightarrow> nat \<Rightarrow> resend_handler \<Rightarrow> resend_handler" where
  "loop_continues strategies throws c h = (case map_of (rh_ctxs h) c of
       None \<Rightarrow> h
     | Some x \<Rightarrow> (case rc_settled x of
         None \<Rightarrow> h
       | Some b \<Rightarrow>
           if \<not> rc_running x then h
           else loop_head strategies throws c (ctx_update c
             (\<lambda>x. x\<lparr>rc_settled := None, rc_results := rc_results x @ [b], rc_stop := rc_stop x \<or> b\<rparr>) h)))"

subsection \<open>The listeners of a response stream\<close>

text \<open>The stream \<open>j\<close> is being read: it is the last one and its promise has not settled.\<close>

definition reads :: "nat \<Rightarrow> resend_ctx \<Rightarrow> bool" where
  "reads j x \<longleftrightarrow> rc_running x \<and> rc_asked x = j + 1 \<and> rc_settled x = None"

definition on_response_data :: "nat \<Rightarrow> control_message \<Rightarrow> resend_ctx \<Rightarrow> resend_ctx" where
  "on_response_data j m x =
     (if j < rc_asked x then
        x\<lparr>rc_stream := push m (rc_stream x), rc_count := (if reads j x then rc_count x + 1 else rc_count x)\<rparr>
      else x)"

definition on_response_end :: "nat \<Rightarrow> resend_ctx \<Rightarrow> resend_ctx" where
  "on_response_end j x = (if reads j x then x\<lparr>rc_settled := Some (rc_count x > 0)\<rparr> else x)"

definition on_response_error :: "nat \<Rightarrow> nat \<Rightarrow> resend_handler \<Rightarrow> resend_handler" where
  "on_response_error c j h = (case map_of (rh_ctxs h) c of
       None \<Rightarrow> h
     | Some x \<Rightarrow>
         if j < rc_asked x then
           ctx_update c (\<lambda>x. if reads j x then x\<lparr>rc_settled := Some False\<rparr> else x)
             (h\<lparr>rh_notified := rh_notified h @ [rc_request x]\<rparr>)
         else h)"

text \<open>The interval, which is cleared when the promise settles.\<close>

definition on_inactivity_check :: "nat \<Rightarrow> resend_handler \<Rightarrow> resend_handler" where
  "on_inactivity_check c h = (case map_of (rh_ctxs h) c of
       None \<Rightarrow> h
     | Some x \<Rightarrow>
         if rc_asked x > 0 \<and> reads (rc_asked x - 1) x then
           ctx_update c (\<lambda>x. x\<lparr>rc_lastCheck := rc_count x\<rparr>)
             (if rc_count x = rc_lastCheck x then on_response_error c (rc_asked x - 1) h else h)
         else h)"

subsection \<open>The operations\<close>

definition pauseResendsOfNode :: "string \<Rightarrow> resend_handler \<Rightarrow> resend_handler" where
  "pauseResendsOfNode n h = foldl (\<lambda>h c. ctx_update c ctx_pause h) h (getContexts (rh_book h) (Some n))"

definition resumeResendsOfNode :: "string \<Rightarrow> resend_handler \<Rightarrow> resend_handler" where
  "resumeResendsOfNode n h = foldl (\<lambda>h c. ctx_update c ctx_resume h) h (getContexts (rh_book h) (Some n))"

definition cancelResendsOfNode :: "string \<Rightarrow> resend_handler \<Rightarrow> resend_handler" where
  "cancelResendsOfNode n h = (let (cs, b) = popContexts (Some n) (rh_book h)
     in foldl (\<lambda>h c. ctx_update c ctx_cancel h) (h\<lparr>rh_book := b\<rparr>) cs)"

text \<open>
  \<open>Object.keys\<close> of the bookkeeper itself, whose one enumerable property is the dictionary
  \<open>resends\<close>; then the strategies are stopped.
\<close>

definition bookkeeper_properties :: "string list" where
  "bookkeeper_properties = [''resends'']"

definition resendHandler_stop :: "resend_handler \<Rightarrow> resend_handler" where
  "resendHandler_stop h = (foldl (\<lambda>h n. cancelResendsOfNode n h) h bookkeeper_properties)
     \<lparr>rh_strategyStops := rh_strategyStops h + 1\<rparr>"

subsection \<open>Inputs\<close>

datatype resend_input =
    HandleRequest "nat \<Rightarrow> bool" resend_request "string option"
  | ResponseData nat nat control_message
  | ResponseEnd nat nat
  | ResponseError nat nat
  | InactivityCheck nat
  | LoopContinues "nat \<Rightarrow> bool" nat
  | RequestStreamClosed nat
  | RequestStreamPaused nat
  | RequestStreamResumed nat
  | PauseResendsOf string
  | ResumeResendsOf string
  | CancelResendsOf string
  | StopHandler

fun resend_step :: "nat \<Rightarrow> resend_handler \<Rightarrow> resend_input \<Rightarrow> resend_handler" where
  "resend_step k h (HandleRequest throws q source) = handleRequest k throws q source h"
| "resend_step k h (ResponseData c j m) = ctx_update c (on_response_data j m) h"
| "resend_step k h (ResponseEnd c j) = ctx_update c (on_response_end j) h"
| "resend_step k h (ResponseError c j) = on_response_error c j h"
| "resend_step k h (InactivityCheck c) = on_inactivity_check c h"
| "resend_step k h (LoopContinues throws c) = loop_continues k throws c h"
| "resend_step k h (RequestStreamClosed c) = ctx_update c ctx_cancel h"
| "resend_step k h (RequestStreamPaused c) = ctx_update c on_request_paused h"
| "resend_step k h (RequestStreamResumed c) = ctx_update c on_request_resumed h"
| "resend_step k h (PauseResendsOf n) = pauseResendsOfNode n h"
| "resend_step k h (ResumeResendsOf n) = resumeResendsOfNode n h"
| "resend_step k h (CancelResendsOf n) = cancelResendsOfNode n h"
| "resend_step k h StopHandler = resendHandler_stop h"

end
