(* ===== verification/ResendPromises.thy ===== *)
theory ResendPromises
  imports ResendHandler
begin

section \<open>What the resend handler promises\<close>

text \<open>
  The invariant of the handler: which strategies were asked and why, when a request has ended,
  and that the bookkeeper has exactly the requests that are being answered.
\<close>

text \<open>A context between its steps, and one at the head of its loop.\<close>

definition results_ok :: "resend_ctx \<Rightarrow> bool" where
  "results_ok x \<longleftrightarrow> list_all Not (butlast (rc_results x)) \<and> (rc_results x \<noteq> [] \<longrightarrow> last (rc_results x) \<longrightarrow> rc_stop x)"

definition ctx_ok :: "nat \<Rightarrow> resend_ctx \<Rightarrow> bool" where
  "ctx_ok k x \<longleftrightarrow> rc_asked x \<le> k \<and> results_ok x \<and>
     (if rc_running x then rc_asked x = length (rc_results x) + 1 \<and> \<not> eof (rc_stream x) \<and> list_all Not (rc_results x)
      else rc_asked x = length (rc_results x) \<and> rc_settled x = None \<and> (eof (rc_stream x) \<longrightarrow> rc_stop x \<or> rc_asked x = k))"

definition ctx_head :: "nat \<Rightarrow> resend_ctx \<Rightarrow> bool" where
  "ctx_head k x \<longleftrightarrow> rc_asked x \<le> k \<and> results_ok x \<and> rc_running x \<and> rc_asked x = length (rc_results x) \<and>
     rc_settled x = None \<and> \<not> eof (rc_stream x)"

definition booked :: "resend_handler \<Rightarrow> nat \<Rightarrow> resend_ctx \<Rightarrow> bool" where
  "booked h c x \<longleftrightarrow> c \<in> set (getContexts (rh_book h) (rc_source x))"

text \<open>All contexts but \<open>c0\<close> are between their steps, and \<open>c0\<close> is as \<open>P\<close> says.\<close>

definition handler_mid :: "nat \<Rightarrow> nat option \<Rightarrow> resend_handler \<Rightarrow> bool" where
  "handler_mid k c0 h \<longleftrightarrow>
     (\<forall>c x. map_of (rh_ctxs h) c = Some x \<longrightarrow> c < rh_next h \<and> (if c0 = Some c then ctx_head k x else ctx_ok k x) \<and>
        (\<not> rc_running x \<longrightarrow> eof (rc_stream x) \<or> rh_rejections h > 0) \<and>
        (rc_running x \<longrightarrow> \<not> rc_stop x \<longrightarrow> booked h c x)) \<and>
     (\<forall>key cs c. map_of (rh_book h) key = Some cs \<longrightarrow> c \<in> set cs \<longrightarrow>
        (\<exists>x. map_of (rh_ctxs h) c = Some x \<and> rc_running x \<and> resend_key (rc_source x) = key))"

definition handler_ok :: "nat \<Rightarrow> resend_handler \<Rightarrow> bool" where
  "handler_ok k h \<longleftrightarrow> handler_mid k None h"

lemma handler_midD:
  assumes "handler_mid k c0 h"
  shows "map_of (rh_ctxs h) c = Some x \<Longrightarrow> c < rh_next h"
    "map_of (rh_ctxs h) c = Some x \<Longrightarrow> if c0 = Some c then ctx_head k x else ctx_ok k x"
    "map_of (rh_ctxs h) c = Some x \<Longrightarrow> \<not> rc_running x \<Longrightarrow> eof (rc_stream x) \<or> rh_rejections h > 0"
    "map_of (rh_ctxs h) c = Some x \<Longrightarrow> rc_running x \<Longrightarrow> \<not> rc_stop x \<Longrightarrow> booked h c x"
    "map_of (rh_book h) key = Some cs \<Longrightarrow> c \<in> set cs \<Longrightarrow>
       \<exists>x. map_of (rh_ctxs h) c = Some x \<and> rc_running x \<and> resend_key (rc_source x) = key"
proof -
  note all = assms [unfolded handler_mid_def, THEN conjunct1, rule_format]
    and book = assms [unfolded handler_mid_def, THEN conjunct2, rule_format]
  show "map_of (rh_ctxs h) c = Some x \<Longrightarrow> c < rh_next h"
    "map_of (rh_ctxs h) c = Some x \<Longrightarrow> if c0 = Some c then ctx_head k x else ctx_ok k x"
    "map_of (rh_ctxs h) c = Some x \<Longrightarrow> \<not> rc_running x \<Longrightarrow> eof (rc_stream x) \<or> rh_rejections h > 0"
    "map_of (rh_ctxs h) c = Some x \<Longrightarrow> rc_running x \<Longrightarrow> \<not> rc_stop x \<Longrightarrow> booked h c x"
    using all [of c x] by simp_all
  show "map_of (rh_book h) key = Some cs \<Longrightarrow> c \<in> set cs \<Longrightarrow>
       \<exists>x. map_of (rh_ctxs h) c = Some x \<and> rc_running x \<and> resend_key (rc_source x) = key"
    using book by blast
qed

lemma getContexts_iff: "c \<in> set (getContexts b n) \<longleftrightarrow> (\<exists>cs. map_of b (resend_key n) = Some cs \<and> c \<in> set cs)"
  by (cases "map_of b (resend_key n)") (simp_all add: getContexts_def)

lemma ctx_update_simps [simp]:
  "map_of (rh_ctxs (ctx_update c f h)) = (\<lambda>d. if d = c then map_option f (map_of (rh_ctxs h) c) else map_of (rh_ctxs h) d)"
  "rh_book (ctx_update c f h) = rh_book h" "rh_next (ctx_update c f h) = rh_next h"
  "rh_rejections (ctx_update c f h) = rh_rejections h" "rh_notified (ctx_update c f h) = rh_notified h"
  by (auto simp: ctx_update_def fun_eq_iff split: option.split)

text \<open>An update of one context.\<close>

lemma update_mid:
  assumes h: "handler_mid k c0 h"
    and f: "\<And>x. map_of (rh_ctxs h) c = Some x \<Longrightarrow> (if c1 = Some c then ctx_head k (f x) else ctx_ok k (f x)) \<and>
      rc_source (f x) = rc_source x \<and> rc_running (f x) = rc_running x \<and> (rc_stop x \<longrightarrow> rc_stop (f x)) \<and>
      (eof (rc_stream x) \<longrightarrow> eof (rc_stream (f x)))"
    and o: "\<And>d. d \<noteq> c \<Longrightarrow> (c1 = Some d) = (c0 = Some d)"
  shows "handler_mid k c1 (ctx_update c f h)"
  unfolding handler_mid_def
proof (intro conjI allI impI)
  fix d y
  assume y: "map_of (rh_ctxs (ctx_update c f h)) d = Some y"
  obtain x where x: "map_of (rh_ctxs h) d = Some x" "y = (if d = c then f x else x)"
    using y by (auto split: if_splits)
  note hd = handler_midD [OF h]
  show "d < rh_next (ctx_update c f h)" using hd(1) [OF x(1)] by simp
  show "if c1 = Some d then ctx_head k y else ctx_ok k y" using hd(2) [OF x(1)] f x o [of d] by (cases "d = c") auto
  show "\<not> rc_running y \<Longrightarrow> eof (rc_stream y) \<or> 0 < rh_rejections (ctx_update c f h)"
    using hd(3) [OF x(1)] f x by (cases "d = c") auto
  show "rc_running y \<Longrightarrow> \<not> rc_stop y \<Longrightarrow> booked (ctx_update c f h) d y"
    using hd(4) [OF x(1)] f x by (cases "d = c") (auto simp: booked_def)
next
  fix key cs d
  assume "map_of (rh_book (ctx_update c f h)) key = Some cs" "d \<in> set cs"
  then obtain x where "map_of (rh_ctxs h) d = Some x" "rc_running x" "resend_key (rc_source x) = key"
    using handler_midD(5) [OF h, of key cs d] by auto
  then show "\<exists>x. map_of (rh_ctxs (ctx_update c f h)) d = Some x \<and> rc_running x \<and> resend_key (rc_source x) = key"
    using f by (cases "d = c") auto
qed

text \<open>The end of a loop takes the context off the books.\<close>

lemma delete_contexts:
  "map_of (bookkeeper_delete n c b) key = Some cs \<Longrightarrow> d \<in> set cs \<Longrightarrow>
   (\<exists>cs'. map_of b key = Some cs' \<and> d \<in> set cs') \<and> (key = resend_key n \<longrightarrow> d \<noteq> c)"
  by (auto simp: bookkeeper_delete_def Let_def split: option.splits if_splits)

lemma delete_keeps:
  "d \<noteq> c \<Longrightarrow> d \<in> set (getContexts b m) \<Longrightarrow> d \<in> set (getContexts (bookkeeper_delete n c b) m)"
  unfolding getContexts_iff
  by (auto simp: bookkeeper_delete_def Let_def set_del_def filter_empty_conv split: option.splits if_splits)

lemma loop_over_mid:
  assumes h: "handler_mid k c0 h" and x: "map_of (rh_ctxs h) c = Some x" and o: "\<And>d. d \<noteq> c \<Longrightarrow> c0 \<noteq> Some d"
    and y: "ctx_ok k y" "\<not> rc_running y" "rc_source y = rc_source x" "eof (rc_stream y) \<or> rh_rejections h' > 0"
    and f: "rh_next h' = rh_next h" "rh_rejections h' \<ge> rh_rejections h" "rh_book h' = bookkeeper_delete (rc_source x) c (rh_book h)"
      "map_of (rh_ctxs h') = (\<lambda>d. if d = c then Some y else map_of (rh_ctxs h) d)"
  shows "handler_ok k h'"
  unfolding handler_ok_def handler_mid_def
proof (intro conjI allI impI)
  fix d z
  assume z: "map_of (rh_ctxs h') d = Some z"
  note hd = handler_midD [OF h]
  show "d < rh_next h'" using z hd(1) [OF x(1)] hd(1) [of d z] unfolding f by (auto split: if_splits)
  show "if None = Some d then ctx_head k z else ctx_ok k z"
    using z y(1) hd(2) [of d z] o [of d] unfolding f by (auto split: if_splits)
  show "\<not> rc_running z \<Longrightarrow> eof (rc_stream z) \<or> 0 < rh_rejections h'"
    using z y(4) hd(3) [of d z] f(2) unfolding f(4) by (auto split: if_splits)
  show "rc_running z \<Longrightarrow> \<not> rc_stop z \<Longrightarrow> booked h' d z"
    using z y(2) hd(4) [of d z] delete_keeps [of d c "rh_book h" "rc_source z" "rc_source x"]
    unfolding booked_def f by (auto split: if_splits)
next
  fix key cs d
  assume "map_of (rh_book h') key = Some cs" "d \<in> set cs"
  then have d: "\<exists>cs'. map_of (rh_book h) key = Some cs' \<and> d \<in> set cs'" "key = resend_key (rc_source x) \<longrightarrow> d \<noteq> c"
    using delete_contexts [of "rc_source x" c "rh_book h" key cs d] unfolding f by auto
  then obtain z where z: "map_of (rh_ctxs h) d = Some z" "rc_running z" "resend_key (rc_source z) = key"
    using handler_midD(5) [OF h] by blast
  then have "d \<noteq> c" using d(2) x(1) by auto
  then show "\<exists>z. map_of (rh_ctxs h') d = Some z \<and> rc_running z \<and> resend_key (rc_source z) = key" using z unfolding f by auto
qed

lemma results_all: "results_ok x \<Longrightarrow> \<not> rc_stop x \<Longrightarrow> list_all Not (rc_results x)"
  by (cases "rc_results x" rule: rev_cases) (auto simp: results_ok_def)

lemma loop_head_ok:
  assumes h: "handler_mid k (Some c) h" and x: "map_of (rh_ctxs h) c = Some x"
  shows "handler_ok k (loop_head k throws c h)"
proof -
  have c: "ctx_head k x" using handler_midD(2) [OF h x] by simp
  show ?thesis
  proof (cases "rc_asked x < k \<and> \<not> rc_stop x")
    case True
    have "handler_ok k ((loop_over c h)\<lparr>rh_rejections := rh_rejections h + 1\<rparr>)"
      by (rule loop_over_mid [OF h x, where y = "x\<lparr>rc_running := False\<rparr>"])
        (use c x in \<open>auto simp: ctx_head_def ctx_ok_def results_ok_def loop_over_def fun_eq_iff\<close>)
    moreover have "handler_mid k None (ctx_update c (\<lambda>x. x\<lparr>rc_asked := rc_asked x + 1, rc_settled := None, rc_count := 0, rc_lastCheck := 0\<rparr>) h)"
      by (rule update_mid [OF h]) (use c x True results_all [of x] in \<open>auto simp: ctx_head_def ctx_ok_def results_ok_def\<close>)
    ultimately show ?thesis using True x by (simp add: loop_head_def handler_ok_def)
  next
    case False
    have "handler_ok k (loop_over c (ctx_update c (\<lambda>x. x\<lparr>rc_stream := push_end (rc_stream x)\<rparr>) h))"
      by (rule loop_over_mid [OF h x, where y = "x\<lparr>rc_stream := push_end (rc_stream x), rc_running := False\<rparr>"])
        (use c x False in \<open>auto simp: ctx_head_def ctx_ok_def results_ok_def loop_over_def push_end_def fun_eq_iff\<close>)
    moreover have "loop_head k throws c h = loop_over c (ctx_update c (\<lambda>x. x\<lparr>rc_stream := push_end (rc_stream x)\<rparr>) h)"
      using False x by (auto simp: loop_head_def)
    ultimately show ?thesis by simp
  qed
qed

lemma handle_request_ok:
  assumes h: "handler_ok k h" shows "handler_ok k (handleRequest k throws q source h)"
proof -
  let ?c = "rh_next h"
  let ?x = "\<lparr>rc_request = q, rc_source = source, rc_stop = False, rc_running = True, rc_asked = 0, rc_settled = None,
    rc_count = 0, rc_lastCheck = 0, rc_results = [], rc_stream = new_readable, rc_calls = []\<rparr>"
  let ?h = "h\<lparr>rh_next := ?c + 1, rh_ctxs := AList.update ?c ?x (rh_ctxs h), rh_book := bookkeeper_add source ?c (rh_book h)\<rparr>"
  note hd = handler_midD [OF h [unfolded handler_ok_def]]
  have g: "c \<in> set (getContexts (bookkeeper_add source ?c b) n) \<longleftrightarrow>
      c \<in> set (getContexts b n) \<or> (c = ?c \<and> resend_key n = resend_key source)" for c b n
    by (auto simp: bookkeeper_add_def getContexts_def split: option.splits)
  have fresh: "map_of (rh_ctxs h) ?c = None" using hd(1) [of ?c] by (cases "map_of (rh_ctxs h) ?c") auto
  have "handler_mid k (Some ?c) ?h"
    unfolding handler_mid_def
  proof (intro conjI allI impI)
    fix d z
    assume z: "map_of (rh_ctxs ?h) d = Some z"
    show "d < rh_next ?h" using z hd(1) [of d z] by (auto split: if_splits)
    show "if Some ?c = Some d then ctx_head k z else ctx_ok k z"
      using z hd(2) [of d z] by (auto simp: ctx_head_def results_ok_def new_readable_def split: if_splits)
    show "\<not> rc_running z \<Longrightarrow> eof (rc_stream z) \<or> 0 < rh_rejections ?h" using z hd(3) [of d z] by (auto split: if_splits)
    show "rc_running z \<Longrightarrow> \<not> rc_stop z \<Longrightarrow> booked ?h d z"
      using z hd(4) [of d z] by (auto simp: booked_def g split: if_splits)
  next
    fix key cs d
    assume b: "map_of (rh_book ?h) key = Some cs" "d \<in> set cs"
    consider "d = ?c" "key = resend_key source" | cs' where "map_of (rh_book h) key = Some cs'" "d \<in> set cs'"
      using b by (auto simp: bookkeeper_add_def getContexts_def split: option.splits if_splits)
    then show "\<exists>x. map_of (rh_ctxs ?h) d = Some x \<and> rc_running x \<and> resend_key (rc_source x) = key"
    proof cases
      case 1
      then show ?thesis by simp
    next
      case (2 cs')
      then obtain z where "map_of (rh_ctxs h) d = Some z" "rc_running z" "resend_key (rc_source z) = key" using hd(5) by blast
      then show ?thesis using fresh by auto
    qed
  qed
  then show ?thesis unfolding handleRequest_def Let_def by (rule loop_head_ok) simp
qed

lemma loop_continues_ok:
  assumes h: "handler_ok k h" shows "handler_ok k (loop_continues k throws c h)"
proof (cases "map_of (rh_ctxs h) c")
  case (Some x)
  show ?thesis
  proof (cases "rc_settled x = None \<or> \<not> rc_running x")
    case True
    then show ?thesis using Some h by (auto simp: loop_continues_def split: option.split)
  next
    case False
    then obtain b where b: "rc_settled x = Some b" "rc_running x" by auto
    let ?f = "\<lambda>x. x\<lparr>rc_settled := None, rc_results := rc_results x @ [b], rc_stop := rc_stop x \<or> b\<rparr>"
    have c: "ctx_ok k x" using handler_midD(2) [OF h [unfolded handler_ok_def] Some] by simp
    have "handler_mid k (Some c) (ctx_update c ?f h)"
      by (rule update_mid [OF h [unfolded handler_ok_def]])
        (use c b Some in \<open>auto simp: ctx_head_def ctx_ok_def results_ok_def\<close>)
    then have "handler_ok k (loop_head k throws c (ctx_update c ?f h))"
      by (rule loop_head_ok [where x = "?f x"]) (simp add: Some)
    then show ?thesis using Some b by (simp add: loop_continues_def)
  qed
qed (simp add: loop_continues_def h)

text \<open>A change that at most settles the strategy being read, or stops the request.\<close>

definition quiet :: "resend_ctx \<Rightarrow> resend_ctx \<Rightarrow> bool" where
  "quiet x y \<longleftrightarrow> rc_source y = rc_source x \<and> rc_running y = rc_running x \<and> (rc_stop x \<longrightarrow> rc_stop y) \<and>
     eof (rc_stream y) = eof (rc_stream x) \<and> rc_asked y = rc_asked x \<and> rc_results y = rc_results x \<and>
     (\<not> rc_running x \<longrightarrow> rc_settled y = rc_settled x)"

lemma quiet_ctx_ok: "ctx_ok k x \<Longrightarrow> quiet x y \<Longrightarrow> ctx_ok k y"
  by (cases "rc_running x") (auto simp: quiet_def ctx_ok_def results_ok_def)

lemma quiet_update_ok:
  assumes h: "handler_ok k h" and f: "\<And>x. quiet x (f x)"
  shows "handler_ok k (ctx_update c f h)"
  unfolding handler_ok_def
proof (rule update_mid [OF h [unfolded handler_ok_def]])
  fix x
  assume "map_of (rh_ctxs h) c = Some x"
  then have "ctx_ok k x" using handler_midD(2) [OF h [unfolded handler_ok_def]] by simp
  then show "(if None = Some c then ctx_head k (f x) else ctx_ok k (f x)) \<and> rc_source (f x) = rc_source x \<and>
      rc_running (f x) = rc_running x \<and> (rc_stop x \<longrightarrow> rc_stop (f x)) \<and> (eof (rc_stream x) \<longrightarrow> eof (rc_stream (f x)))"
    using quiet_ctx_ok f [of x] by (auto simp: quiet_def)
qed simp

lemma same_log_ok: "handler_ok k h \<Longrightarrow> handler_ok k (h\<lparr>rh_notified := n\<rparr>)" "handler_ok k h \<Longrightarrow> handler_ok k (h\<lparr>rh_strategyStops := s\<rparr>)"
  by (simp_all add: handler_ok_def handler_mid_def booked_def)

lemma quiet_operations:
  "quiet x (ctx_call g x)" "quiet x (ctx_pause x)" "quiet x (ctx_resume x)" "quiet x (ctx_cancel x)"
  "quiet x (on_request_paused x)" "quiet x (on_request_resumed x)" "quiet x (on_response_data j m x)"
  "quiet x (on_response_end j x)" "quiet x (if reads j x then x\<lparr>rc_settled := Some b\<rparr> else x)" "quiet x (x\<lparr>rc_lastCheck := n\<rparr>)"
  by (simp_all add: quiet_def ctx_call_def ctx_pause_def ctx_resume_def ctx_cancel_def on_request_paused_def on_request_resumed_def
      on_response_data_def on_response_end_def reads_def push_def)

lemma error_event_ok: "handler_ok k h \<Longrightarrow> handler_ok k (on_response_error c j h)"
  by (auto simp: on_response_error_def quiet_operations intro!: quiet_update_ok same_log_ok split: option.split)

lemma inactivity_check_ok: "handler_ok k h \<Longrightarrow> handler_ok k (on_inactivity_check c h)"
  by (auto simp: on_inactivity_check_def quiet_operations intro!: quiet_update_ok error_event_ok split: option.split)

lemma updates_ok: "handler_ok k h \<Longrightarrow> (\<And>x. quiet x (f x)) \<Longrightarrow> handler_ok k (foldl (\<lambda>h c. ctx_update c f h) h cs)"
proof (induction cs arbitrary: h)
  case (Cons c cs)
  then show ?case using quiet_update_ok [of k h f c] by simp
qed simp

subsection \<open>Cancelling\<close>

lemma quiet_ctx_trans: "quiet x y \<Longrightarrow> quiet y z \<Longrightarrow> quiet x z"
  by (simp add: quiet_def)

definition cancelled :: "nat set \<Rightarrow> nat \<Rightarrow> resend_ctx \<Rightarrow> resend_ctx \<Rightarrow> bool" where
  "cancelled cs d x y \<longleftrightarrow> quiet x y \<and> (d \<in> cs \<or> rc_stop x \<longrightarrow> rc_stop y) \<and> set (rc_calls x) \<subseteq> set (rc_calls y) \<and>
     (d \<in> cs \<longrightarrow> rc_asked x > 0 \<longrightarrow> DestroyResponse (rc_asked x - 1) \<in> set (rc_calls y))"

lemma cancels_ctx:
  "map_of (rh_ctxs h) d = Some x \<Longrightarrow>
   \<exists>y. map_of (rh_ctxs (foldl (\<lambda>h c. ctx_update c ctx_cancel h) h cs)) d = Some y \<and> cancelled (set cs) d x y"
proof (induction cs arbitrary: h x)
  case Nil
  then show ?case by (simp add: quiet_def cancelled_def)
next
  case (Cons c cs)
  let ?h = "ctx_update c ctx_cancel h" and ?x = "if d = c then ctx_cancel x else x"
  have "map_of (rh_ctxs ?h) d = Some ?x" using Cons.prems by auto
  then obtain y where y: "map_of (rh_ctxs (foldl (\<lambda>h c. ctx_update c ctx_cancel h) ?h cs)) d = Some y" "cancelled (set cs) d ?x y"
    using Cons.IH by blast
  have q: "quiet x ?x" using quiet_operations(4) [of x] by (simp add: quiet_def)
  have "rc_stop x \<or> d = c \<longrightarrow> rc_stop ?x" "set (rc_calls x) \<subseteq> set (rc_calls ?x)" "rc_asked ?x = rc_asked x"
    "d = c \<longrightarrow> rc_asked x > 0 \<longrightarrow> DestroyResponse (rc_asked x - 1) \<in> set (rc_calls ?x)"
    by (auto simp: ctx_cancel_def ctx_call_def)
  then have "cancelled (set (c # cs)) d x y" using y(2) quiet_ctx_trans [OF q, of y] unfolding cancelled_def by (auto simp del: if_split)
  then show ?case using y(1) by auto
qed

lemma cancels_none: "map_of (rh_ctxs h) d = None \<Longrightarrow> map_of (rh_ctxs (foldl (\<lambda>h c. ctx_update c ctx_cancel h) h cs)) d = None"
proof (induction cs arbitrary: h)
  case (Cons c cs)
  then have "map_of (rh_ctxs (ctx_update c ctx_cancel h)) d = None" by auto
  then show ?case using Cons.IH by simp
qed simp

lemma cancels_same [simp]:
  "rh_book (foldl (\<lambda>h c. ctx_update c f h) h cs) = rh_book h" "rh_next (foldl (\<lambda>h c. ctx_update c f h) h cs) = rh_next h"
  "rh_rejections (foldl (\<lambda>h c. ctx_update c f h) h cs) = rh_rejections h"
  by (induction cs arbitrary: h) simp_all

lemma cancel_ctx:
  assumes "map_of (rh_ctxs (cancelResendsOfNode n h)) d = Some y"
  shows "\<exists>x. map_of (rh_ctxs h) d = Some x \<and> cancelled (set (getContexts (rh_book h) (Some n))) d x y"
proof -
  let ?h = "h\<lparr>rh_book := AList.delete (resend_key (Some n)) (rh_book h)\<rparr>" and ?cs = "getContexts (rh_book h) (Some n)"
  have y: "map_of (rh_ctxs (foldl (\<lambda>h c. ctx_update c ctx_cancel h) ?h ?cs)) d = Some y"
    using assms by (simp add: cancelResendsOfNode_def popContexts_def)
  then obtain x where "map_of (rh_ctxs ?h) d = Some x" using cancels_none [of ?h d ?cs] by (cases "map_of (rh_ctxs ?h) d") auto
  then show ?thesis using cancels_ctx [of ?h d x ?cs] y by auto
qed

lemma cancel_ok:
  assumes h: "handler_ok k h" shows "handler_ok k (cancelResendsOfNode n h)"
  unfolding handler_ok_def handler_mid_def
proof (intro conjI allI impI)
  note hd = handler_midD [OF h [unfolded handler_ok_def]]
  have same: "rh_book (cancelResendsOfNode n h) = AList.delete (resend_key (Some n)) (rh_book h)"
      "rh_next (cancelResendsOfNode n h) = rh_next h" "rh_rejections (cancelResendsOfNode n h) = rh_rejections h"
    by (simp_all add: cancelResendsOfNode_def popContexts_def)
  fix d y
  assume "map_of (rh_ctxs (cancelResendsOfNode n h)) d = Some y"
  then obtain x where x: "map_of (rh_ctxs h) d = Some x" "quiet x y"
      "d \<in> set (getContexts (rh_book h) (Some n)) \<or> rc_stop x \<longrightarrow> rc_stop y"
    using cancel_ctx [of n h d y] by (auto simp: cancelled_def)
  note q = x(2) [unfolded quiet_def]
  show "d < rh_next (cancelResendsOfNode n h)" using hd(1) [OF x(1)] same by simp
  show "if None = Some d then ctx_head k y else ctx_ok k y" using hd(2) [OF x(1)] quiet_ctx_ok [OF _ x(2)] by simp
  show "\<not> rc_running y \<Longrightarrow> eof (rc_stream y) \<or> 0 < rh_rejections (cancelResendsOfNode n h)"
    using hd(3) [OF x(1)] q same by simp
  assume r: "rc_running y" "\<not> rc_stop y"
  then have b: "booked h d x" "d \<notin> set (getContexts (rh_book h) (Some n))" using hd(4) [OF x(1)] q x(3) by auto
  then show "booked (cancelResendsOfNode n h) d y"
    using q by (auto simp: booked_def same getContexts_iff delete_conv)
next
  fix key cs d
  assume b: "map_of (rh_book (cancelResendsOfNode n h)) key = Some cs" "d \<in> set cs"
  then have "map_of (rh_book h) key = Some cs"
    by (auto simp: cancelResendsOfNode_def popContexts_def delete_conv split: if_splits)
  then obtain x where x: "map_of (rh_ctxs h) d = Some x" "rc_running x" "resend_key (rc_source x) = key"
    using handler_midD(5) [OF h [unfolded handler_ok_def]] b(2) by blast
  let ?h = "h\<lparr>rh_book := AList.delete (resend_key (Some n)) (rh_book h)\<rparr>"
  obtain y where "map_of (rh_ctxs (cancelResendsOfNode n h)) d = Some y" "quiet x y"
    using cancels_ctx [of ?h d x "getContexts (rh_book h) (Some n)"] x(1)
    by (auto simp: cancelResendsOfNode_def popContexts_def cancelled_def)
  then show "\<exists>y. map_of (rh_ctxs (cancelResendsOfNode n h)) d = Some y \<and> rc_running y \<and> resend_key (rc_source y) = key"
    using x by (auto simp: quiet_def)
qed

subsection \<open>Every step\<close>

lemma resend_step_ok: "handler_ok k h \<Longrightarrow> handler_ok k (resend_step k h i)"
proof (cases i)
  case StopHandler
  assume h: "handler_ok k h"
  then show ?thesis using same_log_ok(2) [OF cancel_ok [OF h]]
    by (simp add: StopHandler resendHandler_stop_def bookkeeper_properties_def)
qed (simp_all add: handle_request_ok loop_continues_ok quiet_update_ok quiet_operations error_event_ok inactivity_check_ok
    updates_ok cancel_ok pauseResendsOfNode_def resumeResendsOfNode_def)

lemma new_handler_ok: "handler_ok k new_resend_handler"
  by (simp add: handler_ok_def handler_mid_def new_resend_handler_def)

interpretation resend_handlers: step_invariant "resend_step k" "\<lambda>_. True" "handler_ok k" for k
  by unfold_locales (rule resend_step_ok)

lemma reached_ok: "handler_ok k (foldl (resend_step k) new_resend_handler inputs)"
  by (rule resend_handlers.run_inv [OF new_handler_ok]) simp

subsection \<open>A silent response stream times out\<close>

definition check_ctx :: "resend_ctx \<Rightarrow> resend_ctx" where
  "check_ctx x = (if rc_asked x > 0 \<and> reads (rc_asked x - 1) x then
     x\<lparr>rc_settled := (if rc_count x = rc_lastCheck x then Some False else None), rc_lastCheck := rc_count x\<rparr> else x)"

lemma ctx_check_effect:
  assumes "map_of (rh_ctxs h) c = Some x"
  shows "map_of (rh_ctxs (resend_step k h (InactivityCheck c))) c = Some (check_ctx x)"
  using assms by (cases x) (auto simp: on_inactivity_check_def on_response_error_def check_ctx_def reads_def)

lemma check_twice: "rc_running x \<Longrightarrow> rc_asked x > 0 \<Longrightarrow> rc_settled (check_ctx (check_ctx x)) \<noteq> None"
  by (auto simp: check_ctx_def reads_def)

lemma check_same [simp]: "rc_running (check_ctx x) = rc_running x" "rc_asked (check_ctx x) = rc_asked x"
    "rc_stop (check_ctx x) = rc_stop x" "rc_stream (check_ctx x) = rc_stream x" "rc_source (check_ctx x) = rc_source x"
  by (simp_all add: check_ctx_def)

text \<open>Where the loop goes once the promise has settled.\<close>

lemma continues_effect:
  assumes x: "map_of (rh_ctxs h) c = Some x" "rc_running x" "rc_settled x = Some b" and a: "\<not> throws (rc_asked x)"
  shows "\<exists>y. map_of (rh_ctxs (resend_step k h (LoopContinues throws c))) c = Some y \<and> rc_stop y = (rc_stop x \<or> b) \<and>
     (if rc_asked x < k \<and> \<not> rc_stop x \<and> \<not> b then rc_running y \<and> rc_asked y = rc_asked x + 1 \<and> rc_stream y = rc_stream x
      else \<not> rc_running y \<and> rc_asked y = rc_asked x \<and> rc_stream y = push_end (rc_stream x))"
  using x a by (auto simp: loop_continues_def loop_head_def loop_over_def)

definition silent_round :: "nat \<Rightarrow> resend_input list" where
  "silent_round c = [InactivityCheck c, InactivityCheck c, LoopContinues (\<lambda>_. False) c]"

lemma silent_round_effect:
  assumes h: "handler_ok k h" and x: "map_of (rh_ctxs h) c = Some x" "rc_running x"
  shows "\<exists>y. map_of (rh_ctxs (foldl (resend_step k) h (silent_round c))) c = Some y \<and>
     ((rc_running y \<and> rc_asked y = rc_asked x + 1) \<or> (\<not> rc_running y \<and> eof (rc_stream y)))"
proof -
  have a: "rc_asked x > 0" using handler_midD(2) [OF h [unfolded handler_ok_def] x(1)] x(2) by (simp add: ctx_ok_def)
  let ?h1 = "resend_step k h (InactivityCheck c)" and ?z = "check_ctx (check_ctx x)"
  have z: "map_of (rh_ctxs (resend_step k ?h1 (InactivityCheck c))) c = Some ?z"
    by (rule ctx_check_effect [OF ctx_check_effect [OF x(1)]])
  obtain b where b: "rc_settled ?z = Some b" using check_twice [OF x(2) a] by auto
  show ?thesis
    using continues_effect [OF z _ b, of "\<lambda>_. False" k] x(2) unfolding silent_round_def
    by (auto simp: push_end_def simp del: resend_step.simps split: if_splits)
qed

lemma rounds_effect:
  assumes "handler_ok k h" "map_of (rh_ctxs h) c = Some x" "rc_running x" "k - rc_asked x = d"
  shows "\<exists>n \<le> d + 1. \<exists>y. map_of (rh_ctxs (foldl (resend_step k) h (concat (replicate n (silent_round c))))) c = Some y \<and>
     \<not> rc_running y \<and> eof (rc_stream y)"
  using assms
proof (induction d arbitrary: h x)
  case (0 h x)
  let ?h = "foldl (resend_step k) h (silent_round c)"
  have ok: "handler_ok k ?h" by (rule resend_handlers.run_inv [OF 0(1)]) simp
  obtain y where y: "map_of (rh_ctxs ?h) c = Some y"
      "(rc_running y \<and> rc_asked y = rc_asked x + 1) \<or> (\<not> rc_running y \<and> eof (rc_stream y))"
    using silent_round_effect [OF 0(1-3)] by blast
  moreover have "rc_asked y \<le> k" using handler_midD(2) [OF ok [unfolded handler_ok_def] y(1)] by (simp add: ctx_ok_def)
  ultimately show ?case using 0(4) by (intro exI [of _ 1]) auto
next
  case (Suc d h x)
  let ?h = "foldl (resend_step k) h (silent_round c)"
  have ok: "handler_ok k ?h" by (rule resend_handlers.run_inv [OF Suc.prems(1)]) simp
  obtain y where y: "map_of (rh_ctxs ?h) c = Some y"
      "(rc_running y \<and> rc_asked y = rc_asked x + 1) \<or> (\<not> rc_running y \<and> eof (rc_stream y))"
    using silent_round_effect [OF Suc.prems(1-3)] by blast
  show ?case
  proof (cases "rc_running y")
    case True
    then have "k - rc_asked y = d" using y(2) Suc.prems(4) by simp
    then obtain n where n: "n \<le> d + 1" "\<exists>z. map_of (rh_ctxs (foldl (resend_step k) ?h (concat (replicate n (silent_round c))))) c = Some z \<and>
        \<not> rc_running z \<and> eof (rc_stream z)"
      using Suc.IH [OF ok y(1) True] by blast
    then show ?thesis by (intro exI [of _ "Suc n"]) simp
  next
    case False
    then show ?thesis using y by (intro exI [of _ 1]) auto
  qed
qed

end
