(* ===== verification/ResendClaims.thy ===== *)
theory ResendClaims
  imports ResendPromises
begin

section \<open>The claims about the resend handler\<close>

text \<open>
  The state after any inputs, and the properties of the handler over it: the order of the
  strategies, the end of every request, cancelling, and what \<open>stop\<close> leaves.
\<close>

definition resend_run :: "nat \<Rightarrow> resend_input list \<Rightarrow> resend_handler" where
  "resend_run k inputs = foldl (resend_step k) new_resend_handler inputs"

lemma resend_run_ok: "handler_ok k (resend_run k inputs)"
  by (simp add: resend_run_def reached_ok)

definition asks :: resend_input where
  "asks = HandleRequest (\<lambda>_. False) example_request (Some ''n'')"

definition example_ctx :: "nat \<Rightarrow> resend_ctx" where
  "example_ctx asked = \<lparr>rc_request = example_request, rc_source = Some ''n'', rc_stop = False, rc_running = True, rc_asked = asked,
     rc_settled = None, rc_count = 0, rc_lastCheck = 0, rc_results = [], rc_stream = new_readable, rc_calls = []\<rparr>"

lemma example_run: "map_of (rh_ctxs (resend_run 2 [asks])) 0 = Some (example_ctx 1)"
  by (simp add: resend_run_def asks_def handleRequest_def loop_head_def new_resend_handler_def example_ctx_def Let_def)

lemma example_settled:
  "map_of (rh_ctxs (resend_run 2 [asks, ResponseEnd 0 0])) 0 = Some ((example_ctx 1)\<lparr>rc_settled := Some False\<rparr>)"
  using example_run
  by (simp add: resend_run_def on_response_end_def reads_def example_ctx_def del: resend_step.simps(1) add: resend_step.simps(3))

text \<open>
  C29. After any inputs (requests, what the response streams report in any order, inactivity
  checks, pauses, resumes, cancellations) every request has tried the strategies in their
  order, and a later one only after the response stream of every earlier one ended without
  messages or with an error (a stream with an error, a timeout being one, may have delivered
  messages before it). While the loop is running, the request stream is open; when it is over
  the stream has its end, unless asking a strategy threw (for this or another request), which
  ends the loop of its request and leaves the stream open. The stream has its end only once the response stream of a
  strategy ended after messages, the request was cancelled, or all strategies were tried.
\<close>

theorem strategies_in_order:
  assumes "map_of (rh_ctxs (resend_run k inputs)) c = Some x"
  shows "rc_asked x \<le> k \<and> list_all Not (butlast (rc_results x)) \<and>
    (rc_running x \<longrightarrow> rc_asked x = length (rc_results x) + 1 \<and> list_all Not (rc_results x) \<and> \<not> eof (rc_stream x)) \<and>
    (\<not> rc_running x \<longrightarrow> rc_asked x = length (rc_results x) \<and> (eof (rc_stream x) \<or> rh_rejections (resend_run k inputs) > 0)) \<and>
    (eof (rc_stream x) \<longrightarrow> rc_stop x \<or> rc_asked x = k)"
proof -
  note d = handler_midD [OF resend_run_ok [of k inputs, unfolded handler_ok_def]]
  show ?thesis using d(2) [OF assms] d(3) [OF assms] by (cases "rc_running x") (auto simp: ctx_ok_def results_ok_def)
qed

lemma strategies_in_order_witness:
  "rc_asked (example_ctx 1) \<le> 2 \<and> length (rc_results (example_ctx 1)) = 0"
  using strategies_in_order [OF example_run] by (simp add: example_ctx_def)

text \<open>
  C30. Whatever state the handler has reached, a request that is being answered ends even if
  all response streams stay silent: its inactivity checks time the current strategy out and
  the loop goes on, and after at most one round per strategy the request stream is ended.
\<close>

theorem silent_resend_ends:
  assumes "map_of (rh_ctxs (resend_run k inputs)) c = Some x" "rc_running x"
  shows "\<exists>n \<le> k. \<exists>y. map_of (rh_ctxs (resend_run k (inputs @ concat (replicate n (silent_round c))))) c = Some y \<and>
    \<not> rc_running y \<and> eof (rc_stream y)"
proof -
  have "ctx_ok k x" using handler_midD(2) [OF resend_run_ok [unfolded handler_ok_def] assms(1)] by simp
  then have "0 < rc_asked x" "rc_asked x \<le> k" using assms(2) by (simp_all add: ctx_ok_def)
  moreover obtain n where "n \<le> k - rc_asked x + 1"
      "\<exists>y. map_of (rh_ctxs (foldl (resend_step k) (resend_run k inputs) (concat (replicate n (silent_round c))))) c = Some y \<and>
        \<not> rc_running y \<and> eof (rc_stream y)"
    using rounds_effect [OF resend_run_ok assms refl] by blast
  ultimately show ?thesis by (intro exI [of _ n]) (simp add: resend_run_def)
qed

lemma silent_resend_ends_witness:
  "\<exists>n \<le> 2. \<exists>y. map_of (rh_ctxs (resend_run 2 ([asks] @ concat (replicate n (silent_round 0))))) 0 = Some y \<and>
    \<not> rc_running y \<and> eof (rc_stream y)"
  by (rule silent_resend_ends [OF example_run]) (simp add: example_ctx_def)

text \<open>
  Once the strategy being read is over, with messages (\<open>b\<close>) or without, the loop goes on:
  after messages, a cancellation, or the last strategy the request stream gets its end and the
  loop is over; otherwise exactly the next strategy is asked and the stream stays open.
\<close>

theorem loop_goes_on:
  assumes "map_of (rh_ctxs h) c = Some x" "rc_running x" "rc_settled x = Some b" "\<not> throws (rc_asked x)"
  shows "\<exists>y. map_of (rh_ctxs (resend_step k h (LoopContinues throws c))) c = Some y \<and> rc_stop y = (rc_stop x \<or> b) \<and>
     (if rc_asked x < k \<and> \<not> rc_stop x \<and> \<not> b then rc_running y \<and> rc_asked y = rc_asked x + 1 \<and> rc_stream y = rc_stream x
      else \<not> rc_running y \<and> rc_asked y = rc_asked x \<and> rc_stream y = push_end (rc_stream x))"
  by (rule continues_effect [of _ _ _ _ throws, OF assms])

lemma loop_goes_on_witness:
  "\<exists>y. map_of (rh_ctxs (resend_step 2 (resend_run 2 [asks, ResponseEnd 0 0]) (LoopContinues (\<lambda>_. False) 0))) 0 = Some y \<and>
    rc_running y \<and> rc_asked y = 2"
  using loop_goes_on [OF example_settled, where k = 2 and throws = "\<lambda>_. False" and b = False] by (auto simp: example_ctx_def)

text \<open>
  Cancelling the resends of a node reaches every request of that node that is still being
  answered and not yet stopped: it is marked to stop, and the response stream it is reading is
  destroyed. So no request of a node that has gone escapes the books.
\<close>

lemma cancel_reaches:
  assumes "map_of (rh_ctxs (resend_run k inputs)) c = Some x" "rc_running x" "\<not> rc_stop x"
    "resend_key (rc_source x) = resend_key (Some n)"
  shows "\<exists>y. map_of (rh_ctxs (resend_run k (inputs @ [CancelResendsOf n]))) c = Some y \<and> rc_stop y \<and>
    DestroyResponse (rc_asked x - 1) \<in> set (rc_calls y)"
proof -
  let ?h = "resend_run k inputs"
  note d = handler_midD [OF resend_run_ok [of k inputs, unfolded handler_ok_def]]
  have a: "0 < rc_asked x" using d(2) [OF assms(1)] assms(2) by (simp add: ctx_ok_def)
  have b: "c \<in> set (getContexts (rh_book ?h) (Some n))"
    using d(4) [OF assms(1-3)] assms(4) by (simp add: booked_def getContexts_def)
  let ?h' = "?h\<lparr>rh_book := AList.delete (resend_key (Some n)) (rh_book ?h)\<rparr>"
  have "map_of (rh_ctxs ?h') c = Some x" using assms(1) by simp
  then obtain y where y: "map_of (rh_ctxs (foldl (\<lambda>h c. ctx_update c ctx_cancel h) ?h' (getContexts (rh_book ?h) (Some n)))) c = Some y"
      "cancelled (set (getContexts (rh_book ?h) (Some n))) c x y"
    using cancels_ctx by blast
  have "resend_run k (inputs @ [CancelResendsOf n]) = cancelResendsOfNode n ?h" by (simp add: resend_run_def)
  then show ?thesis using a b y by (simp add: cancelResendsOfNode_def popContexts_def cancelled_def)
qed

text \<open>
  \<open>stop\<close> cancels nothing: it goes through the properties of the bookkeeper object
  instead of its nodes, so unless a node happens to be called \<open>resends\<close> every request is
  left as it was, neither marked to stop nor with its response stream destroyed; only the
  strategies are stopped.
\<close>

theorem stop_cancels_no_resend:
  assumes "getContexts (rh_book h) (Some ''resends'') = []"
  shows "rh_ctxs (resendHandler_stop h) = rh_ctxs h \<and> rh_strategyStops (resendHandler_stop h) = rh_strategyStops h + 1"
  using assms by (simp add: resendHandler_stop_def bookkeeper_properties_def cancelResendsOfNode_def popContexts_def)

lemma stop_cancels_no_resend_witness:
  "map_of (rh_ctxs (resend_run 2 [asks, StopHandler])) 0 = Some (example_ctx 1)"
proof -
  have "getContexts (rh_book (resend_run 2 [asks])) (Some ''resends'') = []"
    by (simp add: resend_run_def asks_def handleRequest_def loop_head_def new_resend_handler_def Let_def getContexts_def
        resend_key_def bookkeeper_add_def)
  from stop_cancels_no_resend [OF this] example_run show ?thesis by (simp add: resend_run_def del: resend_step.simps(1))
qed

end
