(* ===== verification/ForeignResends.thy ===== *)
theory ForeignResends
  imports ResendRuns
begin

section \<open>Resends from the storage nodes of a tracker\<close>

text \<open>
  \<open>PendingTrackerResponseBookkeeper\<close> and \<open>ForeignResendStrategy\<close> of
  \<open>src/src/resend/resendStrategies.ts\<close>. Requests are numbered. The response stream of a request
  is in \<open>fs_streams\<close> until a \<open>ProxiedResend\<close> for it starts, which then has it: \<open>fs_proxied\<close> keeps it
  with its storage node. \<open>fs_asking\<close> are the requests whose message to the tracker has neither been
  sent nor failed, \<open>fs_pending\<close> is the bookkeeper, whose entries have an armed timer as long as they
  are in it, \<open>fs_searches\<close> the listeners that await a connection to a storage node, and
  \<open>fs_resends\<close> is \<open>pendingResends\<close>. What the tracker node and \<open>NodeToNode\<close> are asked for is logged;
  what they answer is an input, and so is whether the node shares a stream with a storage node
  (\<open>isSubscribedTo\<close>, an argument).
\<close>

datatype foreign_error =
    ForeignTypeError
  | TrackerNotInPeerBook string

record node_search =
  se_entries :: "nat list"
  se_rest :: "string list"
  se_tracker :: string

record foreign_strategy =
  fs_next :: nat
  fs_streams :: "(nat, resend_request \<times> control_message readable) dict"
  fs_asking :: "nat list"
  fs_pending :: "(string, nat list) dict"
  fs_searches :: "(nat, node_search) dict"
  fs_nextSearch :: nat
  fs_resends :: "(string, nat list) dict"
  fs_proxied :: "(nat, string \<times> proxied) dict"
  fs_trackerCalls :: "(string \<times> stream_id_and_partition) list"
  fs_connects :: "(string \<times> string) list"
  fs_disconnects :: "string list"

type_synonym foreign_outcome = "(foreign_strategy, foreign_error) outcome"

definition new_foreign_strategy :: foreign_strategy where
  "new_foreign_strategy = \<lparr>fs_next = 0, fs_streams = [], fs_asking = [], fs_pending = [], fs_searches = [], fs_nextSearch = 0,
     fs_resends = [], fs_proxied = [], fs_trackerCalls = [], fs_connects = [], fs_disconnects = []\<rparr>"

definition request_key :: "foreign_strategy \<Rightarrow> nat \<Rightarrow> string" where
  "request_key f c = (case map_of (fs_streams f) c of None \<Rightarrow> [] | Some (q, r) \<Rightarrow> stream_key (request_stream q))"

text \<open>\<open>responseStream.push(null)\<close>.\<close>

definition end_response :: "nat \<Rightarrow> foreign_strategy \<Rightarrow> foreign_strategy" where
  "end_response c f = (case map_of (fs_streams f) c of
       None \<Rightarrow> f
     | Some (q, r) \<Rightarrow> f\<lparr>fs_streams := AList.update c (q, push_end r) (fs_streams f)\<rparr>)"

subsection \<open>The bookkeeper\<close>

definition entries_of :: "(string, nat list) dict \<Rightarrow> string \<Rightarrow> nat list" where
  "entries_of b k = (case map_of b k of None \<Rightarrow> [] | Some cs \<Rightarrow> cs)"

definition addEntry :: "nat \<Rightarrow> foreign_strategy \<Rightarrow> foreign_strategy" where
  "addEntry c f = (let k = request_key f c
     in f\<lparr>fs_pending := AList.update k (set_add c (entries_of (fs_pending f) k)) (fs_pending f)\<rparr>)"

text \<open>The timer of an entry, which is armed while the entry is in the books.\<close>

definition entry_timeout :: "nat \<Rightarrow> foreign_strategy \<Rightarrow> foreign_strategy" where
  "entry_timeout c f = (let k = request_key f c; cs = entries_of (fs_pending f) k in
     if c \<in> set cs then
       end_response c (f\<lparr>fs_pending := (if set_del c cs = [] then AList.delete k (fs_pending f)
         else AList.update k (set_del c cs) (fs_pending f))\<rparr>)
     else f)"

definition popEntries :: "stream_id_and_partition \<Rightarrow> foreign_strategy \<Rightarrow> nat list \<times> foreign_strategy" where
  "popEntries st f = (entries_of (fs_pending f) (stream_key st), f\<lparr>fs_pending := AList.delete (stream_key st) (fs_pending f)\<rparr>)"

definition clearAll :: "foreign_strategy \<Rightarrow> foreign_strategy" where
  "clearAll f = (foldl (\<lambda>f c. end_response c f) f (concat (values_of (fs_pending f))))\<lparr>fs_pending := []\<rparr>"

subsection \<open>The resends\<close>

text \<open>The callback \<open>onDoneCb\<close>, which is the last thing an operation of the resend does.\<close>

definition resend_done :: "(string \<Rightarrow> bool) \<Rightarrow> string \<Rightarrow> nat \<Rightarrow> foreign_strategy \<Rightarrow> foreign_outcome" where
  "resend_done isSubscribedTo n c f = (case map_of (fs_resends f) n of
       None \<Rightarrow> (f, Some ForeignTypeError)
     | Some cs \<Rightarrow> (let cs' = set_del c cs in
         if cs' = [] \<and> \<not> isSubscribedTo n then
           (f\<lparr>fs_disconnects := fs_disconnects f @ [n], fs_resends := AList.delete n (fs_resends f)\<rparr>, None)
         else (f\<lparr>fs_resends := AList.update n cs' (fs_resends f)\<rparr>, None)))"

definition resend_op ::
    "(string \<Rightarrow> bool) \<Rightarrow> (string \<Rightarrow> proxied \<Rightarrow> proxied) \<Rightarrow> nat \<Rightarrow> foreign_strategy \<Rightarrow> foreign_outcome" where
  "resend_op isSubscribedTo g c f = (case map_of (fs_proxied f) c of
       None \<Rightarrow> (f, None)
     | Some (n, p) \<Rightarrow> (let p' = g n p; f1 = f\<lparr>fs_proxied := AList.update c (n, p') (fs_proxied f)\<rparr> in
         if pr_done p' > pr_done p then resend_done isSubscribedTo n c f1 else (f1, None)))"

definition start_resend :: "(string \<Rightarrow> bool) \<Rightarrow> string \<Rightarrow> nat \<Rightarrow> foreign_strategy \<Rightarrow> foreign_outcome" where
  "start_resend isSubscribedTo n c f = (case map_of (fs_streams f) c of
       None \<Rightarrow> (f, None)
     | Some (q, r) \<Rightarrow> (case map_of (fs_resends f) n of
         None \<Rightarrow> (f, Some ForeignTypeError)
       | Some cs \<Rightarrow> resend_op isSubscribedTo (\<lambda>n. commence [n]) c
           (f\<lparr>fs_streams := AList.delete c (fs_streams f),
              fs_resends := AList.update n (set_add c cs) (fs_resends f),
              fs_proxied := AList.update c (n, new_proxied q 1 r) (fs_proxied f)\<rparr>)))"

subsection \<open>The listener for the storage nodes\<close>

text \<open>The loop up to its next \<open>await\<close>, and what follows the loop when no node is left.\<close>

definition search_on :: "nat list \<Rightarrow> string list \<Rightarrow> string \<Rightarrow> foreign_strategy \<Rightarrow> foreign_strategy" where
  "search_on cs ids tracker f = (case ids of
       [] \<Rightarrow> foldl (\<lambda>f c. end_response c f) f cs
     | n # rest \<Rightarrow> f\<lparr>fs_searches := AList.update (fs_nextSearch f) \<lparr>se_entries = cs, se_rest = rest, se_tracker = tracker\<rparr> (fs_searches f),
         fs_nextSearch := fs_nextSearch f + 1, fs_connects := fs_connects f @ [(n, tracker)]\<rparr>)"

definition onStorageNodesResponse ::
    "stream_id_and_partition \<Rightarrow> string list \<Rightarrow> string \<Rightarrow> foreign_strategy \<Rightarrow> foreign_strategy" where
  "onStorageNodesResponse st ids tracker f = (let (cs, f1) = popEntries st f in
     if cs = [] then f1 else search_on cs ids tracker f1)"

text \<open>After the loop, when a storage node was reached.\<close>

definition storage_node_found :: "(string \<Rightarrow> bool) \<Rightarrow> string \<Rightarrow> nat list \<Rightarrow> foreign_strategy \<Rightarrow> foreign_outcome" where
  "storage_node_found isSubscribedTo n cs f =
     for_each (start_resend isSubscribedTo n) cs
       (if has_key (fs_resends f) n then f else f\<lparr>fs_resends := AList.update n [] (fs_resends f)\<rparr>)"

definition connect_settled :: "(string \<Rightarrow> bool) \<Rightarrow> nat \<Rightarrow> string option \<Rightarrow> foreign_strategy \<Rightarrow> foreign_outcome" where
  "connect_settled isSubscribedTo j result f = (case map_of (fs_searches f) j of
       None \<Rightarrow> (f, None)
     | Some se \<Rightarrow> (let f1 = f\<lparr>fs_searches := AList.delete j (fs_searches f)\<rparr> in
         case result of
           None \<Rightarrow> (search_on (se_entries se) (se_rest se) (se_tracker se) f1, None)
         | Some n \<Rightarrow> storage_node_found isSubscribedTo n (se_entries se) f1))"

subsection \<open>Requests\<close>

text \<open>
  The argument \<open>tracker\<close> is what \<open>getTracker\<close> answers, and \<open>known\<close> says whether the peer book of the
  endpoint has that tracker: for another one \<open>sendStorageNodesRequest\<close> throws at once, out of
  \<open>resolveAddress\<close>, before there is a promise. Then \<open>getResendResponseStream\<close> throws as well, and
  nobody gets the response stream.
\<close>

definition requestStorageNodes :: "string option \<Rightarrow> bool \<Rightarrow> nat \<Rightarrow> resend_request \<Rightarrow> foreign_strategy \<Rightarrow> foreign_outcome" where
  "requestStorageNodes tracker known c q f = (case tracker of
       None \<Rightarrow> (end_response c f, None)
     | Some t \<Rightarrow>
         if known then (f\<lparr>fs_trackerCalls := fs_trackerCalls f @ [(t, request_stream q)], fs_asking := fs_asking f @ [c]\<rparr>, None)
         else (f, Some (TrackerNotInPeerBook t)))"

definition foreign_getResendResponseStream ::
    "string option \<Rightarrow> bool \<Rightarrow> resend_request \<Rightarrow> string option \<Rightarrow> foreign_strategy \<Rightarrow> foreign_outcome" where
  "foreign_getResendResponseStream tracker known q source f =
     (let c = fs_next f; f1 = f\<lparr>fs_next := c + 1, fs_streams := AList.update c (q, new_readable) (fs_streams f)\<rparr>
      in if source = None then
           (case requestStorageNodes tracker known c q f1 of
              (f2, None) \<Rightarrow> (f2, None)
            | (f2, Some e) \<Rightarrow> (f2\<lparr>fs_streams := AList.delete c (fs_streams f2)\<rparr>, Some e))
         else (end_response c f1, None))"

text \<open>The continuations of \<open>sendStorageNodesRequest\<close>.\<close>

definition request_sent :: "nat \<Rightarrow> bool \<Rightarrow> foreign_strategy \<Rightarrow> foreign_strategy" where
  "request_sent c ok f =
     (if c \<in> set (fs_asking f) then
        (let f1 = f\<lparr>fs_asking := set_del c (fs_asking f)\<rparr> in if ok then addEntry c f1 else end_response c f1)
      else f)"

definition foreign_stop :: "(string \<Rightarrow> bool) \<Rightarrow> foreign_strategy \<Rightarrow> foreign_outcome" where
  "foreign_stop isSubscribedTo f =
     and_then (for_each (resend_op isSubscribedTo (\<lambda>_. pr_cancel)) (concat (values_of (fs_resends f))) f)
       (\<lambda>f. (clearAll f, None))"

subsection \<open>Inputs\<close>

text \<open>The exceptions of \<open>FsSent\<close> are caught and logged; the others reach the caller, the timer or the emitter.\<close>

datatype foreign_input =
    FsRequest "string option" bool resend_request "string option"
  | FsRequestSent nat bool
  | FsEntryTimeout nat
  | FsStorageNodes stream_id_and_partition "string list" string
  | FsConnectSettled nat "string option"
  | FsHears node_protocol_event
  | FsSent nat string bool
  | FsTimeout nat
  | FsStop

fun foreign_step :: "(string \<Rightarrow> bool) \<Rightarrow> foreign_strategy \<Rightarrow> foreign_input \<Rightarrow> foreign_outcome" where
  "foreign_step sub f (FsRequest tracker known q source) = foreign_getResendResponseStream tracker known q source f"
| "foreign_step sub f (FsRequestSent c ok) = (request_sent c ok f, None)"
| "foreign_step sub f (FsEntryTimeout c) = (entry_timeout c f, None)"
| "foreign_step sub f (FsStorageNodes st ids tracker) = (onStorageNodesResponse st ids tracker f, None)"
| "foreign_step sub f (FsConnectSettled j r) = connect_settled sub j r f"
| "foreign_step sub f (FsHears e) = for_each (resend_op sub (\<lambda>n p. proxied_step [n] p (PrHears e))) (keys_of (fs_proxied f)) f"
| "foreign_step sub f (FsSent c n ok) = resend_op sub (\<lambda>n' p. proxied_step [n'] p (PrSent n ok)) c f"
| "foreign_step sub f (FsTimeout c) = resend_op sub (\<lambda>n p. proxied_step [n] p PrTimeout) c f"
| "foreign_step sub f FsStop = foreign_stop sub f"

definition foreign_run :: "((string \<Rightarrow> bool) \<times> foreign_input) list \<Rightarrow> foreign_strategy" where
  "foreign_run xs = foldl (\<lambda>f (sub, i). fst (foreign_step sub f i)) new_foreign_strategy xs"

end
