(* ===== verification/ForeignPromises.thy ===== *)
theory ForeignPromises
  imports ForeignResends
begin

section \<open>What the resends from storage nodes promise\<close>

text \<open>
  Every request whose response stream is open is in exactly one place: with the tracker node,
  in the books, in one search for a storage node, or with one \<open>ProxiedResend\<close>. Each operation
  moves it from one place to the next or ends its stream.
\<close>

declare map_of_eq_Some_iff [simp del]

datatype whereabout = AtTracker | InBooks string | InSearch nat

definition search_entries :: "foreign_strategy \<Rightarrow> nat \<Rightarrow> nat list" where
  "search_entries f j = (case map_of (fs_searches f) j of None \<Rightarrow> [] | Some se \<Rightarrow> se_entries se)"

lemma search_entries_fields [simp]:
  "search_entries (f\<lparr>fs_streams := s\<rparr>) j = search_entries f j" "search_entries (f\<lparr>fs_asking := a\<rparr>) j = search_entries f j"
  "search_entries (f\<lparr>fs_pending := b\<rparr>) j = search_entries f j" "search_entries (f\<lparr>fs_resends := b\<rparr>) j = search_entries f j"
  "search_entries (f\<lparr>fs_proxied := x\<rparr>) j = search_entries f j"
  "search_entries (f\<lparr>fs_searches := AList.delete i (fs_searches f)\<rparr>) j = (if j = i then [] else search_entries f j)"
  by (simp_all add: search_entries_def)

definition whereabouts :: "foreign_strategy \<Rightarrow> nat \<Rightarrow> whereabout set" where
  "whereabouts f c = {w. case w of AtTracker \<Rightarrow> c \<in> set (fs_asking f) | InBooks k \<Rightarrow> c \<in> set (entries_of (fs_pending f) k)
     | InSearch j \<Rightarrow> c \<in> set (search_entries f j)}"

lemma whereabouts_iff [simp]:
  "AtTracker \<in> whereabouts f c \<longleftrightarrow> c \<in> set (fs_asking f)"
  "InBooks k \<in> whereabouts f c \<longleftrightarrow> c \<in> set (entries_of (fs_pending f) k)"
  "InSearch j \<in> whereabouts f c \<longleftrightarrow> c \<in> set (search_entries f j)"
  by (simp_all add: whereabouts_def)

definition stream_ok :: "resend_request \<Rightarrow> control_message readable \<Rightarrow> whereabout set \<Rightarrow> bool" where
  "stream_ok q r W \<longleftrightarrow>
     (r = push_end new_readable \<and> W = {}) \<or>
     (r = new_readable \<and> (\<exists>w. W = {w} \<and> (\<forall>k. w = InBooks k \<longrightarrow> k = stream_key (request_stream q))))"

definition request_ok :: "foreign_strategy \<Rightarrow> nat \<Rightarrow> bool" where
  "request_ok f c \<longleftrightarrow> (case map_of (fs_streams f) c of
       None \<Rightarrow> whereabouts f c = {}
     | Some (q, r) \<Rightarrow> c < fs_next f \<and> stream_ok q r (whereabouts f c))"

definition relays_ok :: "(string \<rightharpoonup> nat list) \<Rightarrow> (nat \<rightharpoonup> string \<times> proxied) \<Rightarrow> bool" where
  "relays_ok R X \<longleftrightarrow>
     (\<forall>c n p. X c = Some (n, p) \<longrightarrow> (\<exists>q. proxied_ok q 1 p) \<and> (\<not> eof (pr_stream p) \<longrightarrow> (\<exists>cs. R n = Some cs \<and> c \<in> set cs))) \<and>
     (\<forall>n cs. R n = Some cs \<longrightarrow> distinct cs \<and> (\<forall>c \<in> set cs. \<exists>p. X c = Some (n, p) \<and> \<not> eof (pr_stream p)))"

definition books_ok :: "foreign_strategy \<Rightarrow> bool" where
  "books_ok f \<longleftrightarrow> dict_ok (fs_pending f) \<and> dict_ok (fs_resends f) \<and> dict_ok (fs_proxied f) \<and>
     (\<forall>k. distinct (entries_of (fs_pending f) k)) \<and>
     (\<forall>j. distinct (search_entries f j) \<and> (j \<ge> fs_nextSearch f \<longrightarrow> search_entries f j = [])) \<and>
     (\<forall>c. has_key (fs_proxied f) c \<longrightarrow> \<not> has_key (fs_streams f) c \<and> c < fs_next f)"

definition foreign_ok :: "foreign_strategy \<Rightarrow> bool" where
  "foreign_ok f \<longleftrightarrow> (\<forall>c. request_ok f c) \<and> relays_ok (map_of (fs_resends f)) (map_of (fs_proxied f)) \<and> books_ok f"

lemma foreign_okD:
  assumes "foreign_ok f"
  shows "request_ok f c" "relays_ok (map_of (fs_resends f)) (map_of (fs_proxied f))" "books_ok f"
  using assms by (simp_all add: foreign_ok_def)

lemma foreign_okI:
  "(\<And>c. request_ok f c) \<Longrightarrow> relays_ok (map_of (fs_resends f)) (map_of (fs_proxied f)) \<Longrightarrow> books_ok f \<Longrightarrow> foreign_ok f"
  by (simp add: foreign_ok_def)

lemma relays_okD:
  assumes "relays_ok R X"
  shows "X c = Some (n, p) \<Longrightarrow> \<exists>q. proxied_ok q 1 p"
    "X c = Some (n, p) \<Longrightarrow> \<not> eof (pr_stream p) \<Longrightarrow> \<exists>cs. R n = Some cs \<and> c \<in> set cs"
    "R n = Some cs \<Longrightarrow> distinct cs" "R n = Some cs \<Longrightarrow> c \<in> set cs \<Longrightarrow> \<exists>p. X c = Some (n, p) \<and> \<not> eof (pr_stream p)"
  using assms unfolding relays_ok_def by blast+

lemma books_okD:
  assumes "books_ok f"
  shows "dict_ok (fs_pending f)" "dict_ok (fs_resends f)" "dict_ok (fs_proxied f)" "distinct (entries_of (fs_pending f) k)"
    "distinct (search_entries f j)" "j \<ge> fs_nextSearch f \<Longrightarrow> search_entries f j = []"
    "map_of (fs_proxied f) c = Some y \<Longrightarrow> map_of (fs_streams f) c = None" "map_of (fs_proxied f) c = Some y \<Longrightarrow> c < fs_next f"
proof -
  show "dict_ok (fs_pending f)" "dict_ok (fs_resends f)" "dict_ok (fs_proxied f)" "distinct (entries_of (fs_pending f) k)"
    "distinct (search_entries f j)" "j \<ge> fs_nextSearch f \<Longrightarrow> search_entries f j = []"
    using assms unfolding books_ok_def by auto
  have "has_key (fs_proxied f) c \<Longrightarrow> \<not> has_key (fs_streams f) c \<and> c < fs_next f" using assms unfolding books_ok_def by blast
  then show "map_of (fs_streams f) c = None" "c < fs_next f" if "map_of (fs_proxied f) c = Some y"
    using that by (cases "map_of (fs_streams f) c"; force)+
qed

lemma books_okI:
  assumes "dict_ok (fs_pending f)" "dict_ok (fs_resends f)" "dict_ok (fs_proxied f)" "\<And>k. distinct (entries_of (fs_pending f) k)"
    "\<And>j. distinct (search_entries f j)" "\<And>j. j \<ge> fs_nextSearch f \<Longrightarrow> search_entries f j = []"
    "\<And>c y. map_of (fs_proxied f) c = Some y \<Longrightarrow> map_of (fs_streams f) c = None \<and> c < fs_next f"
  shows "books_ok f"
  unfolding books_ok_def using assms by auto

subsection \<open>What a place says of a request\<close>

lemma request_okD:
  assumes "request_ok f c" "w \<in> whereabouts f c"
  obtains q where "map_of (fs_streams f) c = Some (q, new_readable)" "whereabouts f c = {w}" "c < fs_next f"
    "\<And>k. w = InBooks k \<Longrightarrow> k = stream_key (request_stream q)"
  using assms by (auto simp: request_ok_def stream_ok_def split: option.splits)

lemma request_ok_None: "request_ok f c \<Longrightarrow> map_of (fs_streams f) c = None \<Longrightarrow> whereabouts f c = {}"
  by (simp add: request_ok_def)

lemma request_ok_key: "request_ok f c \<Longrightarrow> InBooks k \<in> whereabouts f c \<Longrightarrow> request_key f c = k"
  by (erule (1) request_okD) (auto simp: request_key_def)

text \<open>A request that an operation leaves alone.\<close>

lemma request_ok_same:
  "request_ok f c \<Longrightarrow> whereabouts f' c = whereabouts f c \<Longrightarrow> map_of (fs_streams f') c = map_of (fs_streams f) c \<Longrightarrow>
   fs_next f \<le> fs_next f' \<Longrightarrow> request_ok f' c"
  by (auto simp: request_ok_def split: option.splits)

text \<open>A request that moves, whose stream ends, and which a resend takes over.\<close>

lemma request_ok_moves:
  "request_ok f c \<Longrightarrow> w \<in> whereabouts f c \<Longrightarrow> whereabouts f' c = {w'} \<Longrightarrow> map_of (fs_streams f') c = map_of (fs_streams f) c \<Longrightarrow>
   fs_next f' = fs_next f \<Longrightarrow> (\<And>k. w' = InBooks k \<Longrightarrow> k = request_key f c) \<Longrightarrow> request_ok f' c"
  by (erule (1) request_okD) (auto simp: request_ok_def stream_ok_def request_key_def)

definition ended :: "foreign_strategy \<Rightarrow> nat \<Rightarrow> (resend_request \<times> control_message readable) option" where
  "ended f c = map_option (\<lambda>(q, r). (q, push_end r)) (map_of (fs_streams f) c)"

lemma request_ok_ends:
  "request_ok f c \<Longrightarrow> w \<in> whereabouts f c \<Longrightarrow> whereabouts f' c = {} \<Longrightarrow> map_of (fs_streams f') c = ended f c \<Longrightarrow>
   fs_next f' = fs_next f \<Longrightarrow> request_ok f' c"
  by (erule (1) request_okD) (auto simp: request_ok_def stream_ok_def ended_def)

lemma end_response_streams [simp]:
  "map_of (fs_streams (end_response c f)) = (map_of (fs_streams f))(c := ended f c)"
  by (auto simp: end_response_def ended_def fun_eq_iff split: option.split)

lemma end_response_same [simp]:
  "fs_next (end_response c f) = fs_next f" "fs_asking (end_response c f) = fs_asking f" "fs_pending (end_response c f) = fs_pending f"
  "fs_searches (end_response c f) = fs_searches f" "fs_nextSearch (end_response c f) = fs_nextSearch f"
  "fs_resends (end_response c f) = fs_resends f" "fs_proxied (end_response c f) = fs_proxied f"
  by (auto simp: end_response_def split: option.split)

lemma ended_twice: "map_option (\<lambda>(q, r). (q, push_end r)) (ended f c) = ended f c"
  by (cases "map_of (fs_streams f) c") (auto simp: ended_def push_end_def)

lemma ended_after: "ended (end_response c f) d = ended f d"
  using ended_twice [of f c] by (auto simp: ended_def)

lemma end_responses_streams:
  "map_of (fs_streams (foldl (\<lambda>f c. end_response c f) f cs)) = (\<lambda>c. if c \<in> set cs then ended f c else map_of (fs_streams f) c)"
  by (induction cs arbitrary: f) (auto simp: fun_eq_iff ended_after)

lemma end_responses_same [simp]:
  "fs_next (foldl (\<lambda>f c. end_response c f) f cs) = fs_next f" "fs_asking (foldl (\<lambda>f c. end_response c f) f cs) = fs_asking f"
  "fs_pending (foldl (\<lambda>f c. end_response c f) f cs) = fs_pending f" "fs_searches (foldl (\<lambda>f c. end_response c f) f cs) = fs_searches f"
  "fs_nextSearch (foldl (\<lambda>f c. end_response c f) f cs) = fs_nextSearch f"
  "fs_resends (foldl (\<lambda>f c. end_response c f) f cs) = fs_resends f" "fs_proxied (foldl (\<lambda>f c. end_response c f) f cs) = fs_proxied f"
  by (induction cs arbitrary: f) simp_all

lemma ended_None [simp]: "ended f c = None \<longleftrightarrow> map_of (fs_streams f) c = None"
  by (simp add: ended_def)

lemma set_eq_by_cases: "(\<And>k. InBooks k \<in> A \<longleftrightarrow> InBooks k \<in> B) \<Longrightarrow> (\<And>j. InSearch j \<in> A \<longleftrightarrow> InSearch j \<in> B) \<Longrightarrow>
    (AtTracker \<in> A \<longleftrightarrow> AtTracker \<in> B) \<Longrightarrow> A = B"
  by (rule set_eqI) (metis whereabout.exhaust)

lemma whereabouts_cong:
  "(c \<in> set (fs_asking f') \<longleftrightarrow> c \<in> set (fs_asking f)) \<Longrightarrow>
   (\<And>k. c \<in> set (entries_of (fs_pending f') k) \<longleftrightarrow> c \<in> set (entries_of (fs_pending f) k)) \<Longrightarrow>
   (\<And>j. c \<in> set (search_entries f' j) \<longleftrightarrow> c \<in> set (search_entries f j)) \<Longrightarrow> whereabouts f' c = whereabouts f c"
  by (rule set_eq_by_cases) simp_all

lemma entries_simps [simp]:
  "entries_of (AList.update k v b) k' = (if k' = k then v else entries_of b k')"
  "entries_of (AList.delete k b) k' = (if k' = k then [] else entries_of b k')"
  "entries_of [] k = []"
  by (simp_all add: entries_of_def)

subsection \<open>Requests and the books\<close>

lemma search_entries_update:
  "map_of (fs_searches f') = (map_of (fs_searches f))(j \<mapsto> se) \<Longrightarrow> search_entries f' i = (if i = j then se_entries se else search_entries f i)"
  "map_of (fs_searches f') = (map_of (fs_searches f))(j := None) \<Longrightarrow> search_entries f' i = (if i = j then [] else search_entries f i)"
  by (simp_all add: search_entries_def)

lemma search_entries_same: "fs_searches f' = fs_searches f \<Longrightarrow> search_entries f' i = search_entries f i"
  by (simp add: search_entries_def)

lemma end_response_entries [simp]: "search_entries (end_response c f) j = search_entries f j"
    "search_entries (foldl (\<lambda>f c. end_response c f) f cs) j = search_entries f j"
  by (simp_all add: search_entries_def)

lemma request_stream_ok:
  assumes h: "foreign_ok f"
  shows "foreign_ok (fst (foreign_getResendResponseStream tracker known q source f))"
proof -
  let ?c = "fs_next f" and ?f = "fst (foreign_getResendResponseStream tracker known q source f)"
  let ?asked = "source = None \<and> tracker \<noteq> None \<and> known" and ?thrown = "source = None \<and> tracker \<noteq> None \<and> \<not> known"
  note d = foreign_okD [OF h] and b = books_okD [OF foreign_okD(3) [OF h]]
  have new: "map_of (fs_streams f) ?c = None" using d(1) [of ?c] by (auto simp: request_ok_def split: option.splits)
  have nowhere: "whereabouts f ?c = {}" by (rule request_ok_None [OF d(1) new])
  have out: "?c \<notin> set (fs_asking f)" "?c \<notin> set (entries_of (fs_pending f) k)" "?c \<notin> set (search_entries f j)" for k j
    using nowhere whereabouts_iff [where f = f and c = "?c"] by auto
  have same: "fs_next ?f = ?c + 1" "fs_pending ?f = fs_pending f" "fs_searches ?f = fs_searches f" "fs_nextSearch ?f = fs_nextSearch f"
    "fs_resends ?f = fs_resends f" "fs_proxied ?f = fs_proxied f"
    "map_of (fs_streams ?f) =
      (map_of (fs_streams f))(?c := (if ?thrown then None else Some (q, if ?asked then new_readable else push_end new_readable)))"
    "set (fs_asking ?f) = set (fs_asking f) \<union> (if ?asked then {?c} else {})"
    by (auto simp: foreign_getResendResponseStream_def requestStorageNodes_def Let_def ended_def fun_eq_iff split: option.split)
  have "request_ok ?f c" for c
  proof (cases "c = ?c")
    case True
    have "whereabouts ?f ?c = (if ?asked then {AtTracker} else {})"
      by (rule set_eq_by_cases) (use out in \<open>auto simp: same search_entries_same [OF same(3)]\<close>)
    then show ?thesis using True by (auto simp: request_ok_def stream_ok_def same)
  next
    case False
    have "whereabouts ?f c = whereabouts f c" by (rule whereabouts_cong) (use False in \<open>auto simp: same search_entries_same [OF same(3)]\<close>)
    then show ?thesis using request_ok_same [OF d(1)] False by (simp add: same)
  qed
  moreover have "books_ok ?f"
  proof (rule books_okI)
    fix c y
    assume "map_of (fs_proxied ?f) c = Some y"
    then have y: "map_of (fs_proxied f) c = Some y" by (simp add: same)
    show "map_of (fs_streams ?f) c = None \<and> c < fs_next ?f" using b(7) [OF y] b(8) [OF y] by (simp add: same)
  qed (use b in \<open>simp_all add: same search_entries_same [OF same(3)]\<close>)
  ultimately show ?thesis using d(2) by (intro foreign_okI) (simp_all add: same)
qed

lemma request_sent_ok:
  assumes h: "foreign_ok f"
  shows "foreign_ok (request_sent c ok f)"
proof (cases "c \<in> set (fs_asking f)")
  case True
  note d = foreign_okD [OF h] and b = books_okD [OF foreign_okD(3) [OF h]]
  let ?f = "request_sent c ok f" and ?k = "request_key f c"
  have w: "AtTracker \<in> whereabouts f c" using True by simp
  obtain q where q: "map_of (fs_streams f) c = Some (q, new_readable)" "whereabouts f c = {AtTracker}" by (rule request_okD [OF d(1) w])
  have out: "c \<notin> set (entries_of (fs_pending f) k)" "c \<notin> set (search_entries f j)" for k j
    using q(2) whereabouts_iff [where f = f and c = c] by auto
  have key: "request_key (f\<lparr>fs_asking := set_del c (fs_asking f)\<rparr>) c = ?k" by (simp add: request_key_def)
  have same: "fs_next ?f = fs_next f" "fs_asking ?f = set_del c (fs_asking f)" "fs_searches ?f = fs_searches f" "fs_nextSearch ?f = fs_nextSearch f"
    "fs_resends ?f = fs_resends f" "fs_proxied ?f = fs_proxied f"
    "map_of (fs_streams ?f) = (if ok then map_of (fs_streams f) else (map_of (fs_streams f))(c := ended f c))"
    "fs_pending ?f = (if ok then AList.update ?k (set_add c (entries_of (fs_pending f) ?k)) (fs_pending f) else fs_pending f)"
    using True by (simp_all add: request_sent_def addEntry_def Let_def key ended_def)
  have "request_ok ?f d" for d
  proof (cases "d = c")
    case True
    have W: "whereabouts ?f c = (if ok then {InBooks ?k} else {})"
      by (rule set_eq_by_cases) (use out in \<open>auto simp: same search_entries_same [OF same(3)]\<close>)
    show ?thesis
    proof (cases ok)
      case ok: True
      show ?thesis unfolding True by (rule request_ok_moves [OF d(1) w]) (use W ok same(1,7) in auto)
    next
      case False
      show ?thesis unfolding True by (rule request_ok_ends [OF d(1) w]) (use W False same(1,7) in simp_all)
    qed
  next
    case False
    have "whereabouts ?f d = whereabouts f d" by (rule whereabouts_cong) (use False in \<open>auto simp: same search_entries_same [OF same(3)]\<close>)
    then show ?thesis using request_ok_same [OF d(1)] False by (simp add: same)
  qed
  moreover have "books_ok ?f"
    by (rule books_okI) (use b q(1) in \<open>auto simp: same search_entries_same [OF same(3)]\<close>)
  ultimately show ?thesis using d(2) by (intro foreign_okI) (simp_all add: same)
qed (simp add: request_sent_def h)

lemma entry_timeout_ok:
  assumes h: "foreign_ok f"
  shows "foreign_ok (entry_timeout c f)"
proof (cases "c \<in> set (entries_of (fs_pending f) (request_key f c))")
  case True
  note d = foreign_okD [OF h] and b = books_okD [OF foreign_okD(3) [OF h]]
  let ?f = "entry_timeout c f" and ?k = "request_key f c"
  have w: "InBooks ?k \<in> whereabouts f c" using True by simp
  obtain q where q: "map_of (fs_streams f) c = Some (q, new_readable)" "whereabouts f c = {InBooks ?k}" by (rule request_okD [OF d(1) w])
  have out: "c \<notin> set (fs_asking f)" "c \<in> set (entries_of (fs_pending f) k) \<Longrightarrow> k = ?k" "c \<notin> set (search_entries f j)" for k j
    using q(2) whereabouts_iff [where f = f and c = c] by auto
  have same: "fs_next ?f = fs_next f" "fs_asking ?f = fs_asking f" "fs_searches ?f = fs_searches f" "fs_nextSearch ?f = fs_nextSearch f"
    "fs_resends ?f = fs_resends f" "fs_proxied ?f = fs_proxied f" "map_of (fs_streams ?f) = (map_of (fs_streams f))(c := ended f c)"
    "entries_of (fs_pending ?f) k = (if k = ?k then set_del c (entries_of (fs_pending f) k) else entries_of (fs_pending f) k)"
    "dict_ok (fs_pending ?f)" for k
    using True b(1) by (simp_all add: entry_timeout_def Let_def ended_def)
  have "request_ok ?f d" for d
  proof (cases "d = c")
    case True
    have "whereabouts ?f c = {}"
      by (rule set_eq_by_cases) (use out in \<open>auto simp: same search_entries_same [OF same(3)]\<close>)
    then show ?thesis unfolding True by (intro request_ok_ends [OF d(1) w]) (simp_all add: same)
  next
    case False
    have "whereabouts ?f d = whereabouts f d" by (rule whereabouts_cong) (use False in \<open>auto simp: same search_entries_same [OF same(3)]\<close>)
    then show ?thesis using request_ok_same [OF d(1)] False by (simp add: same)
  qed
  moreover have "books_ok ?f"
    by (rule books_okI) (use b q(1) in \<open>auto simp: same search_entries_same [OF same(3)]\<close>)
  ultimately show ?thesis using d(2) by (intro foreign_okI) (simp_all add: same)
qed (simp add: entry_timeout_def Let_def h)

subsection \<open>Searches for a storage node\<close>

text \<open>
  \<open>In hand\<close>: the entries \<open>cs\<close> were taken from one place \<open>w\<close> that the state still has, in \<open>f0\<close>, and
  no longer has, in \<open>f\<close>. The search goes on with them.
\<close>

lemma search_on_ok:
  assumes h: "foreign_ok f0" and cs: "distinct cs" "\<And>c. c \<in> set cs \<longleftrightarrow> w \<in> whereabouts f0 c"
    and W: "\<And>c. whereabouts f c = whereabouts f0 c - {w}" "\<And>j. distinct (search_entries f j)" "\<And>j. j \<ge> fs_nextSearch f \<Longrightarrow> search_entries f j = []"
      "dict_ok (fs_pending f)" "\<And>k. distinct (entries_of (fs_pending f) k)"
    and same: "fs_next f = fs_next f0" "fs_streams f = fs_streams f0" "fs_resends f = fs_resends f0" "fs_proxied f = fs_proxied f0"
  shows "foreign_ok (search_on cs ids tracker f)"
proof (cases ids)
  case Nil
  let ?f = "search_on cs ids tracker f"
  note d = foreign_okD [OF h] and b = books_okD [OF foreign_okD(3) [OF h]]
  have eq: "?f = foldl (\<lambda>f c. end_response c f) f cs" using Nil by (simp add: search_on_def)
  have places: "whereabouts ?f c = whereabouts f c" for c by (rule whereabouts_cong) (simp_all add: eq)
  have e: "ended f c = ended f0 c" for c by (simp add: ended_def same)
  have "request_ok ?f c" for c
  proof (cases "c \<in> set cs")
    case True
    then have w: "w \<in> whereabouts f0 c" using cs(2) by simp
    have one: "whereabouts f0 c = {w}" by (rule request_okD [OF d(1) w]) simp
    show ?thesis
      by (rule request_ok_ends [OF d(1) w]) (use True one in \<open>simp_all add: eq e places [unfolded eq] W end_responses_streams same\<close>)
  next
    case False
    then show ?thesis using cs(2) [of c]
      by (intro request_ok_same [OF d(1)]) (simp_all add: eq places [unfolded eq] W end_responses_streams same)
  qed
  moreover have "books_ok ?f"
    by (rule books_okI) (use b W in \<open>auto simp: eq end_responses_streams same\<close>)
  ultimately show ?thesis using d(2) by (intro foreign_okI) (simp_all add: eq same)
next
  case (Cons n rest)
  let ?f = "search_on cs ids tracker f" and ?j = "fs_nextSearch f"
  note d = foreign_okD [OF h] and b = books_okD [OF foreign_okD(3) [OF h]]
  have fs: "map_of (fs_streams ?f) = map_of (fs_streams f0)" "fs_next ?f = fs_next f0" "fs_resends ?f = fs_resends f0"
    "fs_proxied ?f = fs_proxied f0" "fs_pending ?f = fs_pending f" "fs_asking ?f = fs_asking f" "fs_nextSearch ?f = ?j + 1"
    using Cons by (simp_all add: search_on_def same)
  have se: "search_entries ?f i = (if i = ?j then cs else search_entries f i)" for i
    using Cons by (simp add: search_on_def search_entries_def)
  have new: "search_entries f ?j = []" by (rule W(3)) simp
  have "request_ok ?f c" for c
  proof (cases "c \<in> set cs")
    case True
    then have w: "w \<in> whereabouts f0 c" using cs(2) by simp
    have one: "whereabouts f0 c = {w}" by (rule request_okD [OF d(1) w]) simp
    then have none: "whereabouts f c = {}" using W(1) by simp
    have "whereabouts ?f c = {InSearch ?j}"
      by (rule set_eq_by_cases) (use none True whereabouts_iff [where f = f and c = c] in \<open>auto simp: fs se\<close>)
    then show ?thesis by (intro request_ok_moves [OF d(1) w]) (auto simp: fs)
  next
    case False
    have "whereabouts ?f c = whereabouts f c" by (rule whereabouts_cong) (use False new in \<open>auto simp: fs se\<close>)
    then show ?thesis using False cs(2) [of c] by (intro request_ok_same [OF d(1)]) (simp_all add: fs W)
  qed
  moreover have "books_ok ?f"
    by (rule books_okI) (use b W cs(1) in \<open>auto simp: fs se\<close>)
  ultimately show ?thesis using d(2) by (intro foreign_okI) (simp_all add: fs)
qed

lemma whereabouts_popped: "whereabouts (f\<lparr>fs_pending := AList.delete k (fs_pending f)\<rparr>) c = whereabouts f c - {InBooks k}"
  by (rule set_eq_by_cases) (auto simp: search_entries_def)

lemma whereabouts_found: "whereabouts (f\<lparr>fs_searches := AList.delete j (fs_searches f)\<rparr>) c = whereabouts f c - {InSearch j}"
  by (rule set_eq_by_cases) (auto simp: search_entries_def)

lemma storage_nodes_ok:
  assumes h: "foreign_ok f"
  shows "foreign_ok (onStorageNodesResponse st ids tracker f)"
proof -
  note d = foreign_okD [OF h] and b = books_okD [OF foreign_okD(3) [OF h]]
  let ?k = "stream_key st"
  let ?f = "f\<lparr>fs_pending := AList.delete ?k (fs_pending f)\<rparr>"
  have se: "search_entries ?f j = search_entries f j" for j by (simp add: search_entries_def)
  have "foreign_ok (search_on (entries_of (fs_pending f) ?k) ids tracker ?f)"
    by (rule search_on_ok [OF h, where w = "InBooks ?k"]) (use b in \<open>simp_all add: whereabouts_popped se\<close>)
  moreover have "foreign_ok ?f" if "entries_of (fs_pending f) ?k = []"
  proof (rule foreign_okI)
    fix c
    have "whereabouts ?f c = whereabouts f c" by (rule whereabouts_cong) (use that in \<open>auto simp: se\<close>)
    then show "request_ok ?f c" using request_ok_same [OF d(1)] by simp
  next
    show "books_ok ?f" by (rule books_okI) (use b in \<open>auto simp: se\<close>)
  qed (use d(2) in simp)
  ultimately show ?thesis by (simp add: onStorageNodesResponse_def popEntries_def)
qed

lemma concat_values:
  assumes "dict_ok d" shows "c \<in> set (concat (values_of d)) \<longleftrightarrow> (\<exists>k. c \<in> set (entries_of d k))"
proof
  assume "c \<in> set (concat (values_of d))"
  then obtain k cs where "(k, cs) \<in> set d" "c \<in> set cs" by auto
  then show "\<exists>k. c \<in> set (entries_of d k)" using map_of_is_SomeI [OF assms] by (intro exI [of _ k]) (simp add: entries_of_def)
next
  assume "\<exists>k. c \<in> set (entries_of d k)"
  then obtain k where k: "c \<in> set (entries_of d k)" by blast
  then obtain cs where "map_of d k = Some cs" "c \<in> set cs" by (cases "map_of d k") (simp_all add: entries_of_def)
  then show "c \<in> set (concat (values_of d))" using map_of_SomeD [of d k cs] by force
qed

lemma clear_ok:
  assumes h: "foreign_ok f"
  shows "foreign_ok (clearAll f)"
proof -
  note d = foreign_okD [OF h] and b = books_okD [OF foreign_okD(3) [OF h]]
  let ?cs = "concat (values_of (fs_pending f))" and ?f = "clearAll f"
  have mem: "c \<in> set ?cs \<longleftrightarrow> (\<exists>k. c \<in> set (entries_of (fs_pending f) k))" for c
    by (rule concat_values [OF b(1)])
  have fs: "fs_next ?f = fs_next f" "fs_asking ?f = fs_asking f" "fs_pending ?f = []" "fs_resends ?f = fs_resends f" "fs_proxied ?f = fs_proxied f"
    "search_entries ?f j = search_entries f j" "fs_nextSearch ?f = fs_nextSearch f"
    "map_of (fs_streams ?f) c = (if c \<in> set ?cs then ended f c else map_of (fs_streams f) c)" for j c
    by (simp_all add: clearAll_def search_entries_def end_responses_streams)
  have "request_ok ?f c" for c
  proof (cases "c \<in> set ?cs")
    case True
    then obtain k where w: "InBooks k \<in> whereabouts f c" using mem by auto
    have one: "whereabouts f c = {InBooks k}" by (rule request_okD [OF d(1) w]) simp
    have "whereabouts ?f c = {}"
      by (rule set_eq_by_cases) (use one whereabouts_iff [where f = f and c = c] in \<open>auto simp: fs\<close>)
    then show ?thesis by (intro request_ok_ends [OF d(1) w]) (use True in \<open>simp_all add: fs\<close>)
  next
    case False
    have "whereabouts ?f c = whereabouts f c" by (rule whereabouts_cong) (use False mem in \<open>auto simp: fs\<close>)
    then show ?thesis using False by (intro request_ok_same [OF d(1)]) (simp_all add: fs)
  qed
  moreover have "books_ok ?f"
    by (rule books_okI) (use b in \<open>auto simp: fs\<close>)
  ultimately show ?thesis using d(2) by (intro foreign_okI) (simp_all add: fs)
qed

end
