(* ===== verification/ForeignRuns.thy ===== *)
theory ForeignRuns
  imports ForeignPromises
begin

section \<open>Runs of the resends from storage nodes\<close>

text \<open>
  The operations of the resends that were started keep the invariant too, so every run does; an
  open response stream always waits for something that comes; and before \<open>stop\<close> no handler
  throws, since an ended resend does nothing any more.
\<close>

subsection \<open>An operation of one resend\<close>

definition resend_move :: "(string \<Rightarrow> proxied \<Rightarrow> proxied) \<Rightarrow> bool" where
  "resend_move g \<longleftrightarrow> (\<forall>n p q. proxied_ok q 1 p \<longrightarrow> proxied_ok q 1 (g n p) \<and> pr_done p \<le> pr_done (g n p))"

lemma ask_done: "pr_done p \<le> pr_done (askNextNeighbor ns p)"
  by (simp add: askNextNeighbor_def Let_def endStream_def split: list.split)

lemma step_done: "pr_done p \<le> pr_done (proxied_step ns p x)"
  using ask_done [of p ns]
  by (cases x) (auto simp: onUnicast_def onResendResponse_def onNodeDisconnect_def resetTimeout_def endStream_def pr_sent_def Let_def
      pr_cancel_def ask_done [of "p\<lparr>pr_timer := False\<rparr>", simplified] ask_done [of "p\<lparr>pr_sending := x\<rparr>" for x, simplified]
      split: node_protocol_event.split control_message.split)

lemma moves: "resend_move (\<lambda>n p. proxied_step [n] p x)" "resend_move (\<lambda>_. pr_cancel)"
proof -
  show "resend_move (\<lambda>n p. proxied_step [n] p x)" by (simp add: resend_move_def proxied_step_ok step_done del: proxied_step.simps)
  show "resend_move (\<lambda>_. pr_cancel)"
    using proxied_step_ok [where x = PrCancel] by (auto simp: resend_move_def pr_cancel_def endStream_def)
qed

text \<open>A resend is reported as done exactly when its stream ends.\<close>

lemma done_ends:
  assumes "resend_move g" "proxied_ok q 1 p"
  shows "pr_done (g n p) > pr_done p \<Longrightarrow> eof (pr_stream (g n p))"
    "\<not> pr_done (g n p) > pr_done p \<Longrightarrow> eof (pr_stream (g n p)) = eof (pr_stream p)"
proof -
  have ok: "proxied_ok q 1 (g n p)" "pr_done p \<le> pr_done (g n p)" using assms unfolding resend_move_def by blast+
  note z = proxied_okD(8) [OF assms(2)] proxied_okD(8) [OF ok(1)]
  show "pr_done (g n p) > pr_done p \<Longrightarrow> eof (pr_stream (g n p))" using z(2) by (cases "pr_done (g n p)") auto
  show "\<not> pr_done (g n p) > pr_done p \<Longrightarrow> eof (pr_stream (g n p)) = eof (pr_stream p)" using z ok(2) by auto
qed

lemma op_same:
  "fs_next (fst (resend_op sub g c f)) = fs_next f" "fs_streams (fst (resend_op sub g c f)) = fs_streams f"
  "fs_asking (fst (resend_op sub g c f)) = fs_asking f" "fs_pending (fst (resend_op sub g c f)) = fs_pending f"
  "fs_searches (fst (resend_op sub g c f)) = fs_searches f" "fs_nextSearch (fst (resend_op sub g c f)) = fs_nextSearch f"
  "has_key (fs_proxied (fst (resend_op sub g c f))) d \<longleftrightarrow> has_key (fs_proxied f) d"
  by (auto simp: resend_op_def resend_done_def Let_def split: option.split)

lemma op_dicts: "dict_ok (fs_resends f) \<Longrightarrow> dict_ok (fs_resends (fst (resend_op sub g c f)))"
    "dict_ok (fs_proxied f) \<Longrightarrow> dict_ok (fs_proxied (fst (resend_op sub g c f)))"
  by (auto simp: resend_op_def resend_done_def Let_def split: option.split)

text \<open>The registry after the stream of \<open>c\<close>, at \<open>n\<close>, has moved without ending, and after it ended.\<close>

lemma relays_moved:
  assumes r: "relays_ok R X" and x: "X c = Some (n, p)" and p': "proxied_ok q 1 p'" "eof (pr_stream p') = eof (pr_stream p)"
  shows "relays_ok R (X(c \<mapsto> (n, p')))"
  unfolding relays_ok_def
proof (intro conjI allI impI ballI)
  fix d m y
  assume y: "(X(c \<mapsto> (n, p'))) d = Some (m, y)"
  show "\<exists>q. proxied_ok q 1 y" using y p'(1) relays_okD(1) [OF r, of d m y] by (auto split: if_splits)
  show "\<not> eof (pr_stream y) \<Longrightarrow> \<exists>cs. R m = Some cs \<and> d \<in> set cs"
    using y p'(2) relays_okD(2) [OF r, of d m y] relays_okD(2) [OF r x] by (auto split: if_splits)
next
  fix m cs
  assume m: "R m = Some cs"
  show "distinct cs" by (rule relays_okD(3) [OF r m])
  fix d assume d: "d \<in> set cs"
  show "\<exists>p. (X(c \<mapsto> (n, p'))) d = Some (m, p) \<and> \<not> eof (pr_stream p)"
    using relays_okD(4) [OF r m d] x p'(2) by (cases "d = c") auto
qed

lemma relays_ended:
  assumes r: "relays_ok R X" and x: "X c = Some (n, p)" and p': "proxied_ok q 1 p'" "eof (pr_stream p')"
    and R': "\<And>m. m \<noteq> n \<Longrightarrow> R' m = R m"
      "\<And>cs. R' n = Some cs \<Longrightarrow> \<exists>cs0. R n = Some cs0 \<and> cs = set_del c cs0"
      "\<And>cs0 d. R n = Some cs0 \<Longrightarrow> d \<in> set cs0 \<Longrightarrow> d \<noteq> c \<Longrightarrow> R' n = Some (set_del c cs0)"
  shows "relays_ok R' (X(c \<mapsto> (n, p')))"
  unfolding relays_ok_def
proof (intro conjI allI impI ballI)
  fix d m y
  assume y: "(X(c \<mapsto> (n, p'))) d = Some (m, y)"
  show "\<exists>q. proxied_ok q 1 y" using y p'(1) relays_okD(1) [OF r, of d m y] by (auto split: if_splits)
  assume e: "\<not> eof (pr_stream y)"
  then have "d \<noteq> c" using y p'(2) by auto
  then obtain cs where cs: "R m = Some cs" "d \<in> set cs" using relays_okD(2) [OF r _ e, of d m] y by auto
  then show "\<exists>cs. R' m = Some cs \<and> d \<in> set cs" using R'(1,3) \<open>d \<noteq> c\<close> by (cases "m = n") auto
next
  fix m cs
  assume m: "R' m = Some cs"
  obtain cs0 where cs0: "R m = Some cs0" "cs = cs0 \<or> (m = n \<and> cs = set_del c cs0)" "m \<noteq> n \<longrightarrow> cs = cs0"
    using m R'(1,2) by (cases "m = n") auto
  show "distinct cs" using relays_okD(3) [OF r cs0(1)] cs0(2) by auto
  fix d assume d: "d \<in> set cs"
  then have "d \<in> set cs0" using cs0(2) by auto
  then obtain y where y: "X d = Some (m, y)" "\<not> eof (pr_stream y)" using relays_okD(4) [OF r cs0(1)] by blast
  have "d \<noteq> c"
  proof
    assume "d = c"
    then have "m = n" using x y(1) by simp
    then have "cs = set_del c cs0" using R'(2) m cs0(1) by force
    then show False using d \<open>d = c\<close> by simp
  qed
  then show "\<exists>p. (X(c \<mapsto> (n, p'))) d = Some (m, p) \<and> \<not> eof (pr_stream p)" using y by simp
qed

lemma op_relays:
  assumes r: "relays_ok (map_of (fs_resends f)) (map_of (fs_proxied f))" and g: "resend_move g"
  shows "relays_ok (map_of (fs_resends (fst (resend_op sub g c f)))) (map_of (fs_proxied (fst (resend_op sub g c f))))"
proof (cases "map_of (fs_proxied f) c")
  case None
  then show ?thesis using r by (simp add: resend_op_def)
next
  case (Some y)
  obtain n p where y: "y = (n, p)" by (cases y)
  note x = Some [unfolded y]
  obtain q where q: "proxied_ok q 1 p" using relays_okD(1) [OF r x] by blast
  then have q': "proxied_ok q 1 (g n p)" using g unfolding resend_move_def by blast
  let ?X = "(map_of (fs_proxied f))(c \<mapsto> (n, g n p))"
  have X: "map_of (AList.update c (n, g n p) (fs_proxied f)) = ?X" by (simp add: fun_eq_iff)
  show ?thesis
  proof (cases "pr_done (g n p) > pr_done p")
    case False
    have "relays_ok (map_of (fs_resends f)) ?X" by (rule relays_moved [OF r x q' done_ends(2) [OF g q False]])
    then show ?thesis using x False X by (simp add: resend_op_def)
  next
    case True
    note e = relays_ended [OF r x q' done_ends(1) [OF g q True]]
    show ?thesis
    proof (cases "map_of (fs_resends f) n")
      case None
      have "relays_ok (map_of (fs_resends f)) ?X" by (rule e) (use None in auto)
      then show ?thesis using x True None X by (simp add: resend_op_def resend_done_def)
    next
      case (Some cs)
      have ne: "d \<in> set cs \<Longrightarrow> d \<noteq> c \<Longrightarrow> set_del c cs \<noteq> []" for d by (auto simp: set_del_def filter_empty_conv)
      show ?thesis
      proof (cases "set_del c cs = [] \<and> \<not> sub n")
        case last: True
        have "relays_ok (map_of (AList.delete n (fs_resends f))) ?X" by (rule e) (use Some ne last in auto)
        then show ?thesis using x True Some X last by (simp add: resend_op_def resend_done_def Let_def)
      next
        case more: False
        have "relays_ok (map_of (AList.update n (set_del c cs) (fs_resends f))) ?X" by (rule e) (use Some in auto)
        then show ?thesis using x True Some X more by (auto simp: resend_op_def resend_done_def Let_def)
      qed
    qed
  qed
qed

lemma resend_op_ok:
  assumes h: "foreign_ok f" and g: "resend_move g"
  shows "foreign_ok (fst (resend_op sub g c f))"
proof (rule foreign_okI)
  let ?f = "fst (resend_op sub g c f)"
  note d = foreign_okD [OF h] and b = books_okD [OF foreign_okD(3) [OF h]]
  show "relays_ok (map_of (fs_resends ?f)) (map_of (fs_proxied ?f))" by (rule op_relays [OF d(2) g])
  have se: "search_entries ?f j = search_entries f j" for j by (simp add: search_entries_def op_same)
  show "request_ok ?f i" for i
    by (rule request_ok_same [OF d(1)]) (use whereabouts_cong [of i ?f f] in \<open>simp_all add: op_same se\<close>)
  show "books_ok ?f"
  proof (rule books_okI)
    fix i y
    assume "map_of (fs_proxied ?f) i = Some y"
    then have "has_key (fs_proxied f) i" using op_same(7) [of sub g c f i] by simp
    then show "map_of (fs_streams ?f) i = None \<and> i < fs_next ?f" using b(7,8) by (auto simp: op_same)
  qed (use b in \<open>simp_all add: op_same op_dicts se\<close>)
qed

lemma ops_ok:
  assumes "foreign_ok f" "resend_move g"
  shows "foreign_ok (fst (for_each (resend_op sub g) cs f))"
  using assms(1)
proof (induction cs arbitrary: f)
  case (Cons c cs)
  then show ?case using resend_op_ok [OF Cons.prems assms(2), of sub c]
    by (cases "resend_op sub g c f") (auto simp: and_then_def split: option.split)
qed simp

subsection \<open>The resends that a storage node is asked for\<close>

text \<open>The requests \<open>cs\<close> are in hand: taken from their search and not started yet.\<close>

definition in_hand :: "nat list \<Rightarrow> foreign_strategy \<Rightarrow> bool" where
  "in_hand cs f \<longleftrightarrow> distinct cs \<and>
     (\<forall>c. if c \<in> set cs then whereabouts f c = {} \<and> c < fs_next f \<and> (\<exists>q. map_of (fs_streams f) c = Some (q, new_readable))
        else request_ok f c) \<and> relays_ok (map_of (fs_resends f)) (map_of (fs_proxied f)) \<and> books_ok f"

lemma in_hand_none: "in_hand [] f \<longleftrightarrow> foreign_ok f"
  by (simp add: in_hand_def foreign_ok_def)

lemma relays_new:
  assumes r: "relays_ok R X" and x: "X c = None" and n: "R n = Some cs" and p: "proxied_ok q 1 p" "\<not> eof (pr_stream p)"
  shows "relays_ok (R(n \<mapsto> set_add c cs)) (X(c \<mapsto> (n, p)))"
  unfolding relays_ok_def
proof (intro conjI allI impI ballI)
  fix d m y
  assume y: "(X(c \<mapsto> (n, p))) d = Some (m, y)"
  show "\<exists>q. proxied_ok q 1 y" using y p(1) relays_okD(1) [OF r, of d m y] by (auto split: if_splits)
  show "\<not> eof (pr_stream y) \<Longrightarrow> \<exists>cs'. (R(n \<mapsto> set_add c cs)) m = Some cs' \<and> d \<in> set cs'"
    using y n relays_okD(2) [OF r, of d m y] by (cases "d = c"; cases "m = n") auto
next
  fix m cs'
  assume m: "(R(n \<mapsto> set_add c cs)) m = Some cs'"
  show "distinct cs'" using m n relays_okD(3) [OF r, of m cs'] relays_okD(3) [OF r n] by (cases "m = n") auto
  fix d assume d: "d \<in> set cs'"
  show "\<exists>y. (X(c \<mapsto> (n, p))) d = Some (m, y) \<and> \<not> eof (pr_stream y)"
  proof (cases "d = c \<and> m = n")
    case True
    then show ?thesis using p by simp
  next
    case False
    obtain cs0 where cs0: "R m = Some cs0" "d = c \<and> m = n \<or> d \<in> set cs0" using m n d by (cases "m = n") auto
    then obtain y where y: "X d = Some (m, y)" "\<not> eof (pr_stream y)" using False relays_okD(4) [OF r, of m cs0 d] by blast
    then show ?thesis using x by (cases "d = c") auto
  qed
qed

lemma start_resend_effect:
  assumes h: "in_hand (c # cs) f" and n: "map_of (fs_resends f) n = Some ds"
  shows "\<exists>f' q. start_resend sub n c f = (f', None) \<and> in_hand cs f' \<and> map_of (fs_resends f') n = Some (set_add c ds) \<and>
    map_of (fs_proxied f') = (map_of (fs_proxied f))(c \<mapsto> (n, commence [n] (new_proxied q 1 new_readable)))"
proof -
  have c: "whereabouts f c = {}" "c < fs_next f" "\<exists>q. map_of (fs_streams f) c = Some (q, new_readable)"
    and others: "\<And>d. d \<notin> set (c # cs) \<Longrightarrow> request_ok f d"
    and hand: "\<And>d. d \<in> set cs \<Longrightarrow> whereabouts f d = {} \<and> d < fs_next f \<and> (\<exists>q. map_of (fs_streams f) d = Some (q, new_readable))"
    and dist: "distinct (c # cs)" and r: "relays_ok (map_of (fs_resends f)) (map_of (fs_proxied f))" and books: "books_ok f"
    using h unfolding in_hand_def by (auto split: if_splits)
  note b = books_okD [OF books]
  obtain q where q: "map_of (fs_streams f) c = Some (q, new_readable)" using c(3) by blast
  have x: "map_of (fs_proxied f) c = None"
    using b(7) [of c] q by (cases "map_of (fs_proxied f) c") auto
  let ?p = "commence [n] (new_proxied q 1 new_readable)"
  let ?f = "f\<lparr>fs_streams := AList.delete c (fs_streams f), fs_resends := AList.update n (set_add c ds) (fs_resends f),
      fs_proxied := AList.update c (n, ?p) (AList.update c (n, new_proxied q 1 new_readable) (fs_proxied f))\<rparr>"
  have p: "proxied_ok q 1 ?p" "\<not> eof (pr_stream ?p)" "pr_done ?p = 0"
    by (rule commence_ok) (simp_all add: commence_def askNextNeighbor_def new_proxied_def Let_def new_readable_def)
  have eq: "start_resend sub n c f = (?f, None)"
    using q n p(3) by (simp add: start_resend_def resend_op_def Let_def new_proxied_def)
  have X: "map_of (fs_proxied ?f) = (map_of (fs_proxied f))(c \<mapsto> (n, ?p))"
    and R: "map_of (fs_resends ?f) = (map_of (fs_resends f))(n \<mapsto> set_add c ds)"
    and S: "map_of (fs_streams ?f) = (map_of (fs_streams f))(c := None)" by (auto simp: fun_eq_iff)
  have se: "search_entries ?f j = search_entries f j" for j by (simp add: search_entries_def)
  have W: "whereabouts ?f d = whereabouts f d" for d by (rule whereabouts_cong) (simp_all add: se)
  have "in_hand cs ?f"
    unfolding in_hand_def
  proof (intro conjI allI)
    show "relays_ok (map_of (fs_resends ?f)) (map_of (fs_proxied ?f))" unfolding X R by (rule relays_new [OF r x n p(1,2)])
    show "books_ok ?f"
    proof (rule books_okI)
      fix i y
      assume "map_of (fs_proxied ?f) i = Some y"
      then show "map_of (fs_streams ?f) i = None \<and> i < fs_next ?f"
        using b(7,8) [of i] c(2) unfolding X S by (cases "i = c") auto
    qed (use b in \<open>simp_all add: se\<close>)
    fix d
    show "if d \<in> set cs then whereabouts ?f d = {} \<and> d < fs_next ?f \<and> (\<exists>q. map_of (fs_streams ?f) d = Some (q, new_readable))
        else request_ok ?f d"
    proof (cases "d = c")
      case True
      then show ?thesis using c(1) dist W unfolding request_ok_def S by simp
    next
      case False
      then show ?thesis using hand [of d] others [of d] request_ok_same [of f d ?f] W [of d] unfolding S by auto
    qed
  qed (use dist in simp)
  then show ?thesis using eq X R by (intro exI [of _ ?f] exI [of _ q]) simp
qed

lemma start_resends_effect:
  assumes "in_hand cs f" and "map_of (fs_resends f) n = Some ds"
  shows "\<exists>f'. for_each (start_resend sub n) cs f = (f', None) \<and> foreign_ok f' \<and>
    (\<forall>c m p. map_of (fs_proxied f') c = Some (m, p) \<longrightarrow> map_of (fs_proxied f) c = Some (m, p) \<or>
       (\<exists>q. p = commence [m] (new_proxied q 1 new_readable)))"
  using assms
proof (induction cs arbitrary: f ds)
  case Nil
  then show ?case by (simp add: in_hand_none)
next
  case (Cons c cs)
  obtain f1 q where f1: "start_resend sub n c f = (f1, None)" "in_hand cs f1" "map_of (fs_resends f1) n = Some (set_add c ds)"
    "map_of (fs_proxied f1) = (map_of (fs_proxied f))(c \<mapsto> (n, commence [n] (new_proxied q 1 new_readable)))"
    using start_resend_effect [OF Cons.prems] by blast
  obtain f2 where f2: "for_each (start_resend sub n) cs f1 = (f2, None)" "foreign_ok f2"
    "\<And>c m p. map_of (fs_proxied f2) c = Some (m, p) \<Longrightarrow> map_of (fs_proxied f1) c = Some (m, p) \<or>
       (\<exists>q. p = commence [m] (new_proxied q 1 new_readable))"
    using Cons.IH [OF f1(2,3)] by blast
  have "map_of (fs_proxied f) d = Some (m, p) \<or> (\<exists>q. p = commence [m] (new_proxied q 1 new_readable))"
    if "map_of (fs_proxied f2) d = Some (m, p)" for d m p
    using f2(3) [OF that] f1(4) by (auto split: if_splits)
  then show ?case using f1(1) f2(1,2) by auto
qed

lemma connect_settled_effect:
  assumes h: "foreign_ok f"
  shows "\<exists>f'. connect_settled sub j r f = (f', None) \<and> foreign_ok f' \<and>
    (\<forall>c m p. map_of (fs_proxied f') c = Some (m, p) \<longrightarrow> map_of (fs_proxied f) c = Some (m, p) \<or>
       (\<exists>q. p = commence [m] (new_proxied q 1 new_readable)))"
proof (cases "map_of (fs_searches f) j")
  case None
  then show ?thesis using h by (simp add: connect_settled_def)
next
  case (Some se)
  note d = foreign_okD [OF h] and b = books_okD [OF foreign_okD(3) [OF h]]
  let ?f = "f\<lparr>fs_searches := AList.delete j (fs_searches f)\<rparr>" and ?cs = "se_entries se"
  have entries: "search_entries f j = ?cs" using Some by (simp add: search_entries_def)
  have mem: "c \<in> set ?cs \<longleftrightarrow> InSearch j \<in> whereabouts f c" for c using entries by simp
  have dist: "distinct ?cs" using b(5) [of j] entries by simp
  have sub: "search_entries ?f i = (if i = j then [] else search_entries f i)" for i by (simp add: search_entries_def)
  show ?thesis
  proof (cases r)
    case None
    have "foreign_ok (search_on ?cs (se_rest se) (se_tracker se) ?f)"
      by (rule search_on_ok [OF h dist mem]) (use b in \<open>simp_all add: whereabouts_found sub\<close>)
    moreover have "fs_proxied (search_on cs ids t ?f) = fs_proxied f" for cs ids t by (simp add: search_on_def split: list.split)
    ultimately show ?thesis using Some None by (simp add: connect_settled_def)
  next
    case found: (Some n)
    define g where "g = (if has_key (fs_resends ?f) n then ?f else ?f\<lparr>fs_resends := AList.update n [] (fs_resends ?f)\<rparr>)"
    have same: "fs_next g = fs_next f" "fs_streams g = fs_streams f" "fs_proxied g = fs_proxied f" "fs_pending g = fs_pending f"
      "fs_nextSearch g = fs_nextSearch f" "search_entries g i = search_entries ?f i" "whereabouts g c = whereabouts f c - {InSearch j}" for i c
      using whereabouts_found [where f = f and c = c and j = j] whereabouts_cong [of c g ?f] by (simp_all add: g_def)
    have "relays_ok (map_of (fs_resends g)) (map_of (fs_proxied f))"
    proof (cases "has_key (fs_resends f) n")
      case True
      then show ?thesis using d(2) by (simp add: g_def)
    next
      case False
      then have R: "map_of (fs_resends g) = (map_of (fs_resends f))(n \<mapsto> [])" by (auto simp: g_def fun_eq_iff)
      show ?thesis unfolding R relays_ok_def
        using relays_okD [OF d(2)] False by (auto split: if_splits) (metis option.distinct(1))+
    qed
    moreover have "books_ok g"
    proof (rule books_okI)
      show "dict_ok (fs_resends g)" using b(2) by (simp add: g_def)
    qed (use b in \<open>auto simp: same sub\<close>)
    moreover have "if c \<in> set ?cs then whereabouts g c = {} \<and> c < fs_next g \<and> (\<exists>q. map_of (fs_streams g) c = Some (q, new_readable))
        else request_ok g c" for c
    proof (cases "c \<in> set ?cs")
      case True
      then have w: "InSearch j \<in> whereabouts f c" using mem by simp
      obtain q where "map_of (fs_streams f) c = Some (q, new_readable)" "whereabouts f c = {InSearch j}" "c < fs_next f"
        by (rule request_okD [OF d(1) w])
      then show ?thesis using True by (simp add: same)
    next
      case False
      then have "InSearch j \<notin> whereabouts f c" using mem by simp
      then show ?thesis using False request_ok_same [OF d(1), of g c] by (simp add: same)
    qed
    ultimately have "in_hand ?cs g" unfolding in_hand_def same(3) using dist by blast
    moreover obtain ds where "map_of (fs_resends g) n = Some ds" by (cases "map_of (fs_resends f) n") (auto simp: g_def)
    ultimately obtain f' where "for_each (start_resend sub n) ?cs g = (f', None)" "foreign_ok f'"
      "\<forall>c m p. map_of (fs_proxied f') c = Some (m, p) \<longrightarrow> map_of (fs_proxied g) c = Some (m, p) \<or>
         (\<exists>q. p = commence [m] (new_proxied q 1 new_readable))"
      using start_resends_effect [of ?cs g n ds sub] by blast
    then show ?thesis using Some found same(3) by (simp add: connect_settled_def storage_node_found_def g_def)
  qed
qed

subsection \<open>Every step\<close>

lemma foreign_stop_ok: assumes "foreign_ok f" shows "foreign_ok (fst (foreign_stop sub f))"
proof -
  let ?r = "for_each (resend_op sub (\<lambda>_. pr_cancel)) (concat (values_of (fs_resends f))) f"
  have "foreign_ok (fst ?r)" by (rule ops_ok [OF assms moves(2)])
  then show ?thesis using clear_ok by (cases ?r) (auto simp: foreign_stop_def and_then_def split: option.split)
qed

lemma foreign_step_ok: "foreign_ok f \<Longrightarrow> foreign_ok (fst (foreign_step sub f i))"
proof (cases i)
  case (FsConnectSettled j r)
  assume "foreign_ok f"
  then show ?thesis using connect_settled_effect [of f sub j r] FsConnectSettled by auto
qed (simp_all add: request_stream_ok request_sent_ok entry_timeout_ok storage_nodes_ok ops_ok resend_op_ok moves foreign_stop_ok del: proxied_step.simps)

lemma new_foreign_ok: "foreign_ok new_foreign_strategy"
proof (rule foreign_okI)
  have "whereabouts new_foreign_strategy c = {}" for c
    by (rule set_eq_by_cases) (simp_all add: new_foreign_strategy_def search_entries_def)
  then show "request_ok new_foreign_strategy c" for c by (simp add: request_ok_def new_foreign_strategy_def)
qed (simp_all add: relays_ok_def books_ok_def new_foreign_strategy_def search_entries_def)

interpretation foreign_strategies: step_invariant "\<lambda>f (sub, i). fst (foreign_step sub f i)" "\<lambda>_. True" foreign_ok
  by unfold_locales (auto simp: foreign_step_ok)

lemma foreign_run_ok: "foreign_ok (foreign_run xs)"
  unfolding foreign_run_def by (rule foreign_strategies.run_inv [OF new_foreign_ok]) simp

end
