(* ===== verification/ForeignClaims.thy ===== *)
theory ForeignClaims
  imports ForeignRuns
begin

section \<open>The claims about resends from storage nodes\<close>

text \<open>
  No response is left hanging; before \<open>stop\<close> no handler throws, and \<open>stop\<close> ends every response
  that waits for the tracker's answer or for a storage node.
\<close>

definition response_open :: "foreign_strategy \<Rightarrow> nat \<Rightarrow> bool" where
  "response_open f c \<longleftrightarrow> (case map_of (fs_proxied f) c of
       Some (n, p) \<Rightarrow> \<not> eof (pr_stream p)
     | None \<Rightarrow> (case map_of (fs_streams f) c of Some (q, r) \<Rightarrow> \<not> eof r | None \<Rightarrow> False))"

definition searched :: "foreign_strategy \<Rightarrow> nat list" where
  "searched f = concat (map (\<lambda>(j, se). se_entries se) (fs_searches f))"

lemma entries_iff: "c \<in> set (entries_of b k) \<longleftrightarrow> (\<exists>cs. map_of b k = Some cs \<and> c \<in> set cs)"
  by (cases "map_of b k") (simp_all add: entries_of_def)

lemma searched_entries: "c \<in> set (search_entries f j) \<Longrightarrow> c \<in> set (searched f)"
  by (cases "map_of (fs_searches f) j") (auto simp: searched_def search_entries_def dest!: map_of_SomeD)

lemma pending_entries: "c \<in> set (entries_of b k) \<Longrightarrow> c \<in> set (concat (values_of b))"
proof -
  assume "c \<in> set (entries_of b k)"
  then obtain cs where "map_of b k = Some cs" "c \<in> set cs" by (auto simp: entries_iff)
  then show ?thesis using map_of_SomeD [of b k cs] by force
qed

lemma open_waits:
  assumes "response_open (foreign_run xs) c"
  shows "let f = foreign_run xs in
    c \<in> set (fs_asking f) \<or> c \<in> set (concat (values_of (fs_pending f))) \<or> c \<in> set (searched f) \<or>
    (\<exists>n p cs. map_of (fs_proxied f) c = Some (n, p) \<and> (pr_sending p \<noteq> [] \<or> pr_timer p) \<and>
       map_of (fs_resends f) n = Some cs \<and> c \<in> set cs)"
proof -
  let ?f = "foreign_run xs"
  note d = foreign_okD [OF foreign_run_ok [of xs]]
  show ?thesis
  proof (cases "map_of (fs_proxied ?f) c")
    case None
    then obtain q r where r: "map_of (fs_streams ?f) c = Some (q, r)" "\<not> eof r"
      using assms by (auto simp: response_open_def split: option.splits)
    then have "whereabouts ?f c \<noteq> {}"
      using d(1) [of c] by (auto simp: request_ok_def stream_ok_def push_end_def)
    then obtain w where "w \<in> whereabouts ?f c" by blast
    then show ?thesis using searched_entries pending_entries by (cases w) (auto simp: Let_def)
  next
    case (Some y)
    obtain n p where y: "y = (n, p)" by (cases y)
    have e: "\<not> eof (pr_stream p)" using assms Some y by (simp add: response_open_def)
    obtain q where "proxied_ok q 1 p" using relays_okD(1) [OF d(2)] Some y by blast
    then have "pr_sending p \<noteq> [] \<or> pr_timer p" using proxied_okD(11) e by blast
    moreover obtain cs where "map_of (fs_resends ?f) n = Some cs" "c \<in> set cs"
      using relays_okD(2) [OF d(2) _ e, of c n] Some y by blast
    ultimately show ?thesis using Some y by (simp add: Let_def)
  qed
qed

text \<open>
  C31. After any inputs, \<open>stop\<close> included, a response stream that was given out (asking for it did
  not throw) and is still open is never forgotten:
  its request is being sent to the tracker, or is in the books with its timer armed, or is part of a
  search that awaits a connection, or its resend is registered under its storage node and
  either still being sent or under an armed timeout.
\<close>

theorem open_response_waits:
  assumes "response_open (foreign_run xs) c"
  shows "let f = foreign_run xs in
    c \<in> set (fs_asking f) \<or> c \<in> set (concat (values_of (fs_pending f))) \<or> c \<in> set (searched f) \<or>
    (\<exists>n p cs. map_of (fs_proxied f) c = Some (n, p) \<and> (pr_sending p \<noteq> [] \<or> pr_timer p) \<and>
       map_of (fs_resends f) n = Some cs \<and> c \<in> set cs)"
  by (rule open_waits [OF assms])

lemma open_response_waits_witness:
  "0 \<in> set (fs_asking (foreign_run [(\<lambda>_. False, FsRequest (Some ''t'') True example_request None)]))"
proof -
  let ?xs = "[(\<lambda>_. False, FsRequest (Some ''t'') True example_request None)]"
  have f: "foreign_run ?xs = new_foreign_strategy\<lparr>fs_next := 1, fs_streams := [(0, example_request, new_readable)],
      fs_asking := [0], fs_trackerCalls := [(''t'', request_stream example_request)]\<rparr>"
    by (simp add: foreign_run_def foreign_getResendResponseStream_def requestStorageNodes_def new_foreign_strategy_def)
  have "response_open (foreign_run ?xs) 0"
    unfolding f by (simp add: response_open_def new_foreign_strategy_def new_readable_def)
  from open_response_waits [OF this] show ?thesis unfolding f by (simp add: Let_def new_foreign_strategy_def searched_def)
qed

subsection \<open>An ended resend does nothing any more, before a stop\<close>

definition single :: "proxied \<Rightarrow> bool" where
  "single p \<longleftrightarrow> length (pr_asked p) = 1 \<and> (pr_sending p \<noteq> [] \<longrightarrow> \<not> pr_timer p \<and> pr_current p = None \<and> \<not> eof (pr_stream p)) \<and>
     (eof (pr_stream p) \<longrightarrow> \<not> pr_timer p)"

lemma single_end: "length (pr_asked p) = 1 \<Longrightarrow> pr_sending p = [] \<Longrightarrow> single (endStream p)"
  by (simp add: single_def endStream_def push_end_def)

lemma single_ask:
  assumes "proxied_ok q 1 p" "length (pr_asked p) = 1" "pr_sending p = []"
  shows "single (askNextNeighbor ns (p\<lparr>pr_timer := b\<rparr>))" "single (askNextNeighbor ns p)"
  using assms proxied_okD(2) [OF assms(1)] single_end [of "p\<lparr>pr_timer := False\<rparr>"]
  by (simp_all add: askNextNeighbor_def Let_def)

lemma single_sending:
  assumes "proxied_ok q 1 p" "single p" "n \<in> set (pr_sending p)"
  shows "pr_sending p = [n]"
proof -
  have "length (pr_sending p) = card (set (pr_sending p))" using proxied_okD(12) [OF assms(1)] by (simp add: distinct_card)
  also have "\<dots> \<le> card (set (pr_asked p))" using proxied_okD(5) [OF assms(1)] by (intro card_mono) simp_all
  also have "\<dots> \<le> 1" using assms(2) card_length [of "pr_asked p"] by (simp add: single_def)
  finally show ?thesis using assms(3) by (cases "pr_sending p") auto
qed

lemma single_step:
  assumes ok: "proxied_ok q 1 p" and s: "single p" and x: "x \<noteq> PrCancel"
  shows "single (proxied_step ns p x)" "eof (pr_stream p) \<Longrightarrow> proxied_step ns p x = p"
proof -
  have len: "length (pr_asked p) = 1" using s by (simp add: single_def)
  have att: "pr_attached p = (\<not> eof (pr_stream p))" by (rule proxied_okD(7) [OF ok])
  show "eof (pr_stream p) \<Longrightarrow> proxied_step ns p x = p" using s x att by (cases x) (auto simp: single_def)
  show "single (proxied_step ns p x)"
  proof (cases x)
    case (PrHears e)
    show ?thesis
    proof (cases "pr_sending p = [] \<and> pr_attached p")
      case True
      have u: "single (resetTimeout p)" "single (resetTimeout (p\<lparr>pr_stream := push m (pr_stream p)\<rparr>))" for m
        using s True att by (auto simp: single_def resetTimeout_def push_def)
      show ?thesis using PrHears True s u single_ask(2) [OF ok len] single_end [OF len] u
        by (simp add: onUnicast_def onResendResponse_def onNodeDisconnect_def split: node_protocol_event.split control_message.split)
    next
      case False
      then have "proxied_step ns p x = p"
        using PrHears s by (auto simp: single_def onUnicast_def onResendResponse_def onNodeDisconnect_def concerns_def split: node_protocol_event.split)
      then show ?thesis using s by simp
    qed
  next
    case (PrSent n b)
    show ?thesis
    proof (cases "n \<in> set (pr_sending p)")
      case True
      have one: "pr_sending p = [n]" by (rule single_sending [OF ok s True])
      have e: "\<not> eof (pr_stream p)" using s one by (simp add: single_def)
      have "single (askNextNeighbor ns (p\<lparr>pr_sending := []\<rparr>))"
        using len proxied_okD(2) [OF ok] single_end [of "p\<lparr>pr_sending := [], pr_timer := False\<rparr>"]
        by (simp add: askNextNeighbor_def Let_def)
      moreover have "single (resetTimeout (p\<lparr>pr_sending := [], pr_current := Some n\<rparr>))"
        using e len by (simp add: single_def resetTimeout_def)
      ultimately show ?thesis using PrSent one by (simp add: pr_sent_def Let_def)
    qed (use PrSent s in simp)
  next
    case PrTimeout
    have "pr_timer p \<Longrightarrow> pr_sending p = []" using s by (auto simp: single_def)
    then show ?thesis using PrTimeout s single_ask(1) [OF ok len] by simp
  qed (use x in simp)
qed

lemma single_new: "single (commence [n] (new_proxied q 1 new_readable))"
  by (simp add: single_def commence_def askNextNeighbor_def new_proxied_def Let_def new_readable_def)

definition calm :: "foreign_strategy \<Rightarrow> bool" where
  "calm f \<longleftrightarrow> (\<forall>c n p. map_of (fs_proxied f) c = Some (n, p) \<longrightarrow> single p)"

lemma op_proxied: "map_of (fs_proxied (fst (resend_op sub g c f))) d =
    (if d = c then map_option (\<lambda>(n, p). (n, g n p)) (map_of (fs_proxied f) c) else map_of (fs_proxied f) d)"
  by (auto simp: resend_op_def resend_done_def Let_def split: option.split)

lemma calm_op:
  assumes h: "foreign_ok f" and c: "calm f" and x: "x \<noteq> PrCancel"
  shows "calm (fst (resend_op sub (\<lambda>n p. proxied_step [n] p x) c f))"
    "snd (resend_op sub (\<lambda>n p. proxied_step [n] p x) c f) = None"
proof -
  note r = foreign_okD(2) [OF h]
  have step: "single (proxied_step [n] p x) \<and> (eof (pr_stream p) \<longrightarrow> proxied_step [n] p x = p)"
    if m: "map_of (fs_proxied f) d = Some (n, p)" for d n p
  proof -
    obtain q where "proxied_ok q 1 p" using relays_okD(1) [OF r m] by blast
    moreover have "single p" using c m unfolding calm_def by blast
    ultimately show ?thesis using single_step [OF _ _ x] by blast
  qed
  show "calm (fst (resend_op sub (\<lambda>n p. proxied_step [n] p x) c f))"
    unfolding calm_def op_proxied using step c [unfolded calm_def] by (auto simp del: proxied_step.simps split: if_splits)
  show "snd (resend_op sub (\<lambda>n p. proxied_step [n] p x) c f) = None"
  proof (cases "map_of (fs_proxied f) c")
    case (Some y)
    obtain n p where y: "y = (n, p)" by (cases y)
    show ?thesis
    proof (cases "eof (pr_stream p)")
      case True
      then show ?thesis using Some y step [of c n p] by (simp add: resend_op_def del: proxied_step.simps)
    next
      case False
      then obtain cs where "map_of (fs_resends f) n = Some cs" using relays_okD(2) [OF r, of c n p] Some y by blast
      then show ?thesis using Some y by (simp add: resend_op_def resend_done_def Let_def del: proxied_step.simps)
    qed
  qed (simp add: resend_op_def)
qed

lemma calm_ops:
  assumes "foreign_ok f" "calm f" "x \<noteq> PrCancel"
  shows "calm (fst (for_each (resend_op sub (\<lambda>n p. proxied_step [n] p x)) cs f)) \<and>
    snd (for_each (resend_op sub (\<lambda>n p. proxied_step [n] p x)) cs f) = None"
  using assms(1,2)
proof (induction cs arbitrary: f)
  case (Cons c cs)
  let ?g = "\<lambda>n p. proxied_step [n] p x"
  obtain f1 where f1: "resend_op sub ?g c f = (f1, None)"
    using calm_op(2) [OF Cons.prems assms(3), of sub c] by (cases "resend_op sub ?g c f") simp
  have "foreign_ok f1" "calm f1"
    using resend_op_ok [OF Cons.prems(1) moves(1), of sub x c] calm_op(1) [OF Cons.prems assms(3), of sub c] f1 by simp_all
  from Cons.IH [OF this] show ?case using f1 by simp
qed simp

subsection \<open>Stopping\<close>

lemma cancel_effect:
  assumes h: "foreign_ok f" and x: "map_of (fs_proxied f) c = Some (n, p)" "\<not> eof (pr_stream p)"
  shows "\<exists>f'. resend_op sub (\<lambda>_. pr_cancel) c f = (f', None) \<and> foreign_ok f' \<and>
    map_of (fs_proxied f') = (map_of (fs_proxied f))(c \<mapsto> (n, pr_cancel p))"
proof -
  let ?r = "resend_op sub (\<lambda>_. pr_cancel) c f"
  obtain cs where "map_of (fs_resends f) n = Some cs" using relays_okD(2) [OF foreign_okD(2) [OF h] x] by blast
  then have "snd ?r = None" using x by (simp add: resend_op_def resend_done_def Let_def)
  moreover have "foreign_ok (fst ?r)" by (rule resend_op_ok [OF h moves(2)])
  moreover have "map_of (fs_proxied (fst ?r)) = (map_of (fs_proxied f))(c \<mapsto> (n, pr_cancel p))"
    using x by (simp add: op_proxied fun_eq_iff)
  ultimately show ?thesis by (cases ?r) simp
qed

lemma cancels_effect:
  assumes "foreign_ok f" "distinct cs" "\<forall>c \<in> set cs. \<exists>n p. map_of (fs_proxied f) c = Some (n, p) \<and> \<not> eof (pr_stream p)"
  shows "\<exists>f'. for_each (resend_op sub (\<lambda>_. pr_cancel)) cs f = (f', None) \<and> foreign_ok f' \<and>
    (\<forall>c n p. map_of (fs_proxied f') c = Some (n, p) \<longrightarrow> \<not> eof (pr_stream p) \<longrightarrow> c \<notin> set cs \<and> map_of (fs_proxied f) c = Some (n, p))"
  using assms
proof (induction cs arbitrary: f)
  case (Cons c cs)
  obtain n p where x: "map_of (fs_proxied f) c = Some (n, p)" "\<not> eof (pr_stream p)" using Cons.prems(3) by auto
  obtain f1 where f1: "resend_op sub (\<lambda>_. pr_cancel) c f = (f1, None)" "foreign_ok f1"
    "map_of (fs_proxied f1) = (map_of (fs_proxied f))(c \<mapsto> (n, pr_cancel p))"
    using cancel_effect [OF Cons.prems(1) x] by blast
  have "\<forall>d \<in> set cs. \<exists>n p. map_of (fs_proxied f1) d = Some (n, p) \<and> \<not> eof (pr_stream p)"
    using Cons.prems(2,3) unfolding f1(3) by auto
  then obtain f2 where f2: "for_each (resend_op sub (\<lambda>_. pr_cancel)) cs f1 = (f2, None)" "foreign_ok f2"
    "\<And>d m y. map_of (fs_proxied f2) d = Some (m, y) \<Longrightarrow> \<not> eof (pr_stream y) \<Longrightarrow> d \<notin> set cs \<and> map_of (fs_proxied f1) d = Some (m, y)"
    using Cons.IH [OF f1(2)] Cons.prems(2) by (metis distinct.simps(2))
  have e: "eof (pr_stream (pr_cancel p))" by (simp add: pr_cancel_def endStream_def push_end_def)
  have "d \<notin> set (c # cs) \<and> map_of (fs_proxied f) d = Some (m, y)"
    if "map_of (fs_proxied f2) d = Some (m, y)" "\<not> eof (pr_stream y)" for d m y
    using f2(3) [OF that] that(2) e unfolding f1(3) by (auto split: if_splits)
  then show ?case using f1(1) f2(1,2) by auto
qed simp

lemma distinct_concat_values:
  fixes d :: "(string, nat list) dict"
  assumes "dict_ok d" "\<And>k cs. map_of d k = Some cs \<Longrightarrow> distinct cs"
    and "\<And>k k' cs cs' c. map_of d k = Some cs \<Longrightarrow> map_of d k' = Some cs' \<Longrightarrow> c \<in> set cs \<Longrightarrow> c \<in> set cs' \<Longrightarrow> k = k'"
  shows "distinct (concat (values_of d))"
  using assms
proof (induction d)
  case (Cons a d)
  obtain k cs where a: "a = (k, cs)" by (cases a)
  have k: "map_of d k = None" using Cons.prems(1) a by (simp add: map_of_eq_None_iff)
  have sub: "map_of (a # d) k' = Some cs'" if "map_of d k' = Some cs'" for k' cs' using that k a by auto
  have "distinct (concat (values_of d))"
  proof (rule Cons.IH)
    show "dict_ok d" using Cons.prems(1) by simp
    show "\<And>k cs. map_of d k = Some cs \<Longrightarrow> distinct cs" using Cons.prems(2) sub by blast
    show "\<And>k k' cs cs' c. map_of d k = Some cs \<Longrightarrow> map_of d k' = Some cs' \<Longrightarrow> c \<in> set cs \<Longrightarrow> c \<in> set cs' \<Longrightarrow> k = k'"
      using Cons.prems(3) sub by blast
  qed
  moreover have "distinct cs" using Cons.prems(2) [of k cs] a by simp
  moreover have "set cs \<inter> set (concat (values_of d)) = {}"
  proof (rule ccontr)
    assume "\<not> ?thesis"
    then obtain c where c: "c \<in> set cs" "c \<in> set (concat (values_of d))" by blast
    then obtain k' where "c \<in> set (entries_of d k')" using concat_values [of d c] Cons.prems(1) by auto
    then obtain cs' where cs': "map_of d k' = Some cs'" "c \<in> set cs'" by (cases "map_of d k'") (simp_all add: entries_of_def)
    have "k = k'" using Cons.prems(3) [of k cs k' cs' c] sub [OF cs'(1)] c(1) cs'(2) a by simp
    then show False using k cs'(1) by simp
  qed
  ultimately show ?case using a by auto
qed simp

lemma stop_effect:
  assumes h: "foreign_ok f"
  shows "snd (foreign_stop sub f) = None" "fs_pending (fst (foreign_stop sub f)) = []"
    "map_of (fs_proxied (fst (foreign_stop sub f))) c = Some (n, p) \<Longrightarrow> eof (pr_stream p)"
proof -
  note r = foreign_okD(2) [OF h] and b = books_okD [OF foreign_okD(3) [OF h]]
  let ?cs = "concat (values_of (fs_resends f))"
  have mem: "d \<in> set ?cs \<longleftrightarrow> (\<exists>m cs. map_of (fs_resends f) m = Some cs \<and> d \<in> set cs)" for d
    unfolding concat_values [OF b(2)] by (auto simp: entries_iff)
  have dist: "distinct ?cs"
  proof (rule distinct_concat_values [OF b(2) relays_okD(3) [OF r]])
    fix k k' cs cs' d
    assume "map_of (fs_resends f) k = Some cs" "map_of (fs_resends f) k' = Some cs'" "d \<in> set cs" "d \<in> set cs'"
    then show "k = k'" using relays_okD(4) [OF r, of k cs d] relays_okD(4) [OF r, of k' cs' d] by auto
  qed
  have "\<forall>d \<in> set ?cs. \<exists>m y. map_of (fs_proxied f) d = Some (m, y) \<and> \<not> eof (pr_stream y)"
    using mem relays_okD(4) [OF r] by blast
  then obtain f1 where f1: "for_each (resend_op sub (\<lambda>_. pr_cancel)) ?cs f = (f1, None)"
    "\<And>d m y. map_of (fs_proxied f1) d = Some (m, y) \<Longrightarrow> \<not> eof (pr_stream y) \<Longrightarrow> d \<notin> set ?cs \<and> map_of (fs_proxied f) d = Some (m, y)"
    using cancels_effect [OF h dist, of sub] by blast
  have stop: "foreign_stop sub f = (clearAll f1, None)" using f1(1) by (simp add: foreign_stop_def)
  show "snd (foreign_stop sub f) = None" "fs_pending (fst (foreign_stop sub f)) = []" by (simp_all add: stop clearAll_def)
  show "map_of (fs_proxied (fst (foreign_stop sub f))) c = Some (n, p) \<Longrightarrow> eof (pr_stream p)"
  proof (rule ccontr)
    assume "map_of (fs_proxied (fst (foreign_stop sub f))) c = Some (n, p)" and e: "\<not> eof (pr_stream p)"
    then have "map_of (fs_proxied f1) c = Some (n, p)" by (simp add: stop clearAll_def)
    from f1(2) [OF this e] have "c \<notin> set ?cs" "map_of (fs_proxied f) c = Some (n, p)" by simp_all
    then show False using mem relays_okD(2) [OF r _ e] by blast
  qed
qed

subsection \<open>Before a stop\<close>

definition no_stop :: "((string \<Rightarrow> bool) \<times> foreign_input) list \<Rightarrow> bool" where
  "no_stop xs \<longleftrightarrow> list_all (\<lambda>(sub, i). i \<noteq> FsStop) xs"

text \<open>What throws before a stop: a request whose tracker the peer book does not have.\<close>

fun thrown_by :: "foreign_input \<Rightarrow> foreign_error option" where
  "thrown_by (FsRequest (Some t) known q source) = (if source = None \<and> \<not> known then Some (TrackerNotInPeerBook t) else None)"
| "thrown_by i = None"

lemma request_quiet:
  "fs_proxied (fst (foreign_getResendResponseStream tracker known q source f)) = fs_proxied f"
  "snd (foreign_getResendResponseStream tracker known q source f) = thrown_by (FsRequest tracker known q source)"
  by (cases tracker; simp add: foreign_getResendResponseStream_def requestStorageNodes_def Let_def)+

lemma quiet_step:
  assumes h: "foreign_ok f" and c: "calm f" and i: "i \<noteq> FsStop"
  shows "calm (fst (foreign_step sub f i)) \<and> snd (foreign_step sub f i) = thrown_by i"
proof (cases i)
  case (FsConnectSettled j r)
  obtain f' where f': "connect_settled sub j r f = (f', None)"
    "\<forall>c m p. map_of (fs_proxied f') c = Some (m, p) \<longrightarrow> map_of (fs_proxied f) c = Some (m, p) \<or>
       (\<exists>q. p = commence [m] (new_proxied q 1 new_readable))"
    using connect_settled_effect [OF h, of sub j r] by blast
  have "calm f'" unfolding calm_def
  proof (intro allI impI)
    fix d m p
    assume "map_of (fs_proxied f') d = Some (m, p)"
    then consider "map_of (fs_proxied f) d = Some (m, p)" | q where "p = commence [m] (new_proxied q 1 new_readable)" using f'(2) by blast
    then show "single p" using c single_new unfolding calm_def by cases blast+
  qed
  then show ?thesis using FsConnectSettled f'(1) by simp
next
  case (FsHears e)
  then show ?thesis using calm_ops [OF h c, of "PrHears e" sub "keys_of (fs_proxied f)"] by (simp del: proxied_step.simps)
next
  case (FsSent d n ok)
  then show ?thesis using calm_op [OF h c, of "PrSent n ok" sub d] by (simp del: proxied_step.simps)
next
  case (FsTimeout d)
  then show ?thesis using calm_op [OF h c, of PrTimeout sub d] by (simp del: proxied_step.simps)
qed (use c i in \<open>simp_all add: calm_def request_quiet request_sent_def addEntry_def
    entry_timeout_def onStorageNodesResponse_def popEntries_def search_on_def Let_def split: option.split list.split\<close>)

lemma run_calm: "no_stop xs \<Longrightarrow> calm (foreign_run xs)"
proof (induction xs rule: rev_induct)
  case Nil
  show ?case by (simp add: calm_def foreign_run_def new_foreign_strategy_def)
next
  case (snoc x xs)
  obtain sub i where x: "x = (sub, i)" by (cases x)
  have "calm (foreign_run xs)" "i \<noteq> FsStop" using snoc x by (simp_all add: no_stop_def)
  then show ?case using quiet_step [OF foreign_run_ok] x by (simp add: foreign_run_def)
qed

text \<open>
  C32. As long as the strategy has not been stopped exactly one thing throws, whatever the order of
  the inputs: asking it for a response stream when the tracker of the stream is not in the peer
  book of the endpoint. No handler, timer or continuation throws, and neither does \<open>stop\<close>.
\<close>

theorem foreign_never_throws_before_stop:
  assumes "no_stop xs"
  shows "snd (foreign_step sub (foreign_run xs) i) = (case i of
      FsRequest (Some t) False q None \<Rightarrow> Some (TrackerNotInPeerBook t)
    | _ \<Rightarrow> None)"
proof (cases "i = FsStop")
  case True
  then show ?thesis using stop_effect(1) [OF foreign_run_ok] by simp
next
  case False
  have "thrown_by i = (case i of FsRequest (Some t) False q None \<Rightarrow> Some (TrackerNotInPeerBook t) | _ \<Rightarrow> None)"
    by (cases i rule: thrown_by.cases) (simp_all split: option.split bool.split)
  then show ?thesis using quiet_step [OF foreign_run_ok run_calm [OF assms] False] by simp
qed

lemma foreign_never_throws_before_stop_witness:
  "snd (foreign_step (\<lambda>_. False) (foreign_run [(\<lambda>_. False, FsRequest (Some ''t'') True example_request None)]) (FsRequestSent 0 True)) = None \<and>
   snd (foreign_step (\<lambda>_. False) (foreign_run [(\<lambda>_. False, FsRequest (Some ''t'') True example_request None)])
     (FsRequest (Some ''u'') False example_request None)) = Some (TrackerNotInPeerBook ''u'')"
proof -
  have "no_stop [(\<lambda>_. False, FsRequest (Some ''t'') True example_request None)]" by (simp add: no_stop_def)
  note e = foreign_never_throws_before_stop [OF this, of "\<lambda>_. False"]
  show ?thesis using e [of "FsRequestSent 0 True"] e [of "FsRequest (Some ''u'') False example_request None"] by simp
qed

text \<open>
  \<open>stop\<close> ends every response but those whose request is just being sent to the tracker or
  is part of a search for a storage node: whatever came before, no other response is open after it.
\<close>

theorem stop_ends_responses:
  assumes "response_open (foreign_run (xs @ [(sub, FsStop)])) c"
  shows "c \<in> set (fs_asking (foreign_run (xs @ [(sub, FsStop)]))) \<or> c \<in> set (searched (foreign_run (xs @ [(sub, FsStop)])))"
proof -
  let ?f = "foreign_run (xs @ [(sub, FsStop)])"
  have f: "?f = fst (foreign_stop sub (foreign_run xs))" by (simp add: foreign_run_def)
  note e = stop_effect(2,3) [OF foreign_run_ok [of xs], of sub, folded f]
  have "\<not> (\<exists>n p cs. map_of (fs_proxied ?f) c = Some (n, p) \<and> (pr_sending p \<noteq> [] \<or> pr_timer p) \<and>
       map_of (fs_resends ?f) n = Some cs \<and> c \<in> set cs)"
    using assms e(2) by (auto simp: response_open_def split: option.splits)
  then show ?thesis using open_waits [OF assms, unfolded Let_def] e(1) by auto
qed

lemma stop_ends_responses_witness:
  "0 \<in> set (fs_asking (foreign_run ([(\<lambda>_. False, FsRequest (Some ''t'') True example_request None)] @ [(\<lambda>_. False, FsStop)])))"
proof -
  let ?xs = "[(\<lambda>_. False, FsRequest (Some ''t'') True example_request None)] @ [(\<lambda>_. False, FsStop)]"
  have f: "foreign_run ?xs = new_foreign_strategy\<lparr>fs_next := 1, fs_streams := [(0, example_request, new_readable)],
      fs_asking := [0], fs_trackerCalls := [(''t'', request_stream example_request)]\<rparr>"
    by (simp add: foreign_run_def foreign_getResendResponseStream_def requestStorageNodes_def new_foreign_strategy_def foreign_stop_def clearAll_def)
  have "response_open (foreign_run ?xs) 0"
    unfolding f by (simp add: response_open_def new_foreign_strategy_def new_readable_def)
  from stop_ends_responses [OF this] show ?thesis unfolding f by (simp add: new_foreign_strategy_def searched_def)
qed

text \<open>
  But \<open>stop\<close> ends a resend whose request is still being sent, and forgets its storage node
  with it. When the send succeeds all the same it arms the timer of the ended resend, and when
  that fires the resend ends once more, in a callback that looks for the forgotten node: it
  throws, out of a timer, where nothing catches it.
\<close>

theorem stop_during_send_throws_later:
  "snd (foreign_step (\<lambda>_. False) (foreign_run (map (Pair (\<lambda>_. False))
     [FsRequest (Some t) True q None, FsRequestSent 0 True, FsStorageNodes (request_stream q) [n] t, FsConnectSettled 0 (Some n),
      FsStop, FsSent 0 n True])) (FsTimeout 0)) = Some ForeignTypeError"
  by (simp add: foreign_run_def foreign_getResendResponseStream_def requestStorageNodes_def new_foreign_strategy_def request_sent_def
      addEntry_def request_key_def onStorageNodesResponse_def popEntries_def entries_of_def search_on_def connect_settled_def
      storage_node_found_def start_resend_def resend_op_def foreign_stop_def Let_def commence_def askNextNeighbor_def
      new_proxied_def pr_cancel_def endStream_def resend_done_def clearAll_def pr_sent_def resetTimeout_def set_add_def set_del_def)

end
