(* ===== verification/NetworkNode.thy ===== *)
theory NetworkNode
  imports NodeInstructions ResendClaims
begin

section \<open>The network node, its storages and the storage node\<close>

text \<open>
  \<open>src/src/NetworkNode.ts\<close>, what a client of the node calls and how its storages are put to
  use, and \<open>startStorageNode\<close> of \<open>src/src/composition.ts\<close>. A storage is asked for resends by a
  strategy of its own, before the strategy for storage nodes, and is given every message the
  node reports as unseen.
\<close>

subsection \<open>The facade\<close>

definition facade_publish ::
  "('c, 'r, 'v) node_env \<Rightarrow> stream_message \<Rightarrow> ('c, 'r, 'v) node \<Rightarrow> ('c, 'r, 'v) node_outcome" where
  "facade_publish env msg s = onDataReceived env msg None s"

definition facade_subscribe ::
  "('c, 'r, 'v) node_env \<Rightarrow> string \<Rightarrow> int \<Rightarrow> ('c, 'r, 'v) node \<Rightarrow> ('c, 'r, 'v) node_outcome" where
  "facade_subscribe env sid p s = subscribeToStreamIfHaveNotYet env \<lparr>sp_id = sid, sp_partition = p\<rparr> True s"

definition facade_unsubscribe ::
  "('c, 'r, 'v) node_env \<Rightarrow> string \<Rightarrow> int \<Rightarrow> ('c, 'r, 'v) node \<Rightarrow> ('c, 'r, 'v) node_outcome" where
  "facade_unsubscribe env sid p s = unsubscribeFromStream env \<lparr>sp_id = sid, sp_partition = p\<rparr> True s"

definition requestResendLast :: "string \<Rightarrow> int \<Rightarrow> string \<Rightarrow> int \<Rightarrow> resend_request" where
  "requestResendLast sid p r n = \<lparr>rq_requestId = r, rq_streamId = sid, rq_streamPartition = p, rq_kind = ResendLast n\<rparr>"

definition requestResendFrom :: "string \<Rightarrow> int \<Rightarrow> string \<Rightarrow> int \<Rightarrow> int \<Rightarrow> string option \<Rightarrow> resend_request" where
  "requestResendFrom sid p r t n publisher =
     \<lparr>rq_requestId = r, rq_streamId = sid, rq_streamPartition = p,
      rq_kind = ResendFrom (t, n) publisher\<rparr>"

definition requestResendRange ::
    "string \<Rightarrow> int \<Rightarrow> string \<Rightarrow> int \<Rightarrow> int \<Rightarrow> int \<Rightarrow> int \<Rightarrow> string option \<Rightarrow> string option \<Rightarrow> resend_request" where
  "requestResendRange sid p r t n t' n' publisher chain =
     \<lparr>rq_requestId = r, rq_streamId = sid, rq_streamPartition = p,
      rq_kind = ResendRange (t, n) (t', n') publisher chain\<rparr>"

text \<open>The strategies are those of the storages, in their order, and the one for storage nodes.\<close>

definition strategies_of :: "'st list \<Rightarrow> nat" where
  "strategies_of storages = length storages + 1"

text \<open>The node's part of a request, and then the resend handler's.\<close>

definition facade_resend ::
  "('c, 'r, 'v) node_env \<Rightarrow> 'st list \<Rightarrow> (nat \<Rightarrow> bool) \<Rightarrow> resend_request \<Rightarrow> string option \<Rightarrow> ('c, 'r, 'v) node \<times> resend_handler \<Rightarrow>
   (('c, 'r, 'v) node \<times> resend_handler, node_error) outcome" where
  "facade_resend env storages throws q source sh =
     (case requestResend env (rq_requestId q) (request_stream q) source (fst sh) of
        (s1, Some e) \<Rightarrow> ((s1, snd sh), Some e)
      | (s1, None) \<Rightarrow> ((s1, handleRequest (strategies_of storages) throws q source (snd sh)), None))"

text \<open>The calls on the resend handler that the node's handlers and listeners make, carried out.\<close>

fun resend_effect :: "node_effect \<Rightarrow> resend_input option" where
  "resend_effect (CancelResends n) = Some (CancelResendsOf n)"
| "resend_effect (PauseResends n) = Some (PauseResendsOf n)"
| "resend_effect (ResumeResends n) = Some (ResumeResendsOf n)"
| "resend_effect StopResends = Some StopHandler"
| "resend_effect _ = None"

definition facade_handle ::
  "('c, 'r, 'v) node_env \<Rightarrow> 'st list \<Rightarrow> node_event \<Rightarrow> ('c, 'r, 'v) node \<times> resend_handler \<Rightarrow>
   (('c, 'r, 'v) node \<times> resend_handler, node_error) outcome" where
  "facade_handle env storages e sh =
     (let (s1, err) = node_handle env (fst sh) e
      in ((s1, foldl (resend_step (strategies_of storages)) (snd sh)
             (List.map_filter resend_effect (drop (length (n_out (fst sh))) (n_out s1)))), err))"

text \<open>The listeners of the storages, called in their order for every unseen message.\<close>

definition store_calls :: "'st list \<Rightarrow> node_effect list \<Rightarrow> (nat \<times> stream_message) list" where
  "store_calls storages out = concat (map (\<lambda>e. case e of
       UnseenMessageReceived msg _ \<Rightarrow> map (\<lambda>i. (i, msg)) [0..<length storages]
     | _ \<Rightarrow> []) out)"

subsection \<open>The storage node\<close>

datatype config_change = StreamAdded stream_id_and_partition | StreamRemoved stream_id_and_partition

definition startStorageNode ::
  "('c, 'r, 'v) node_env \<Rightarrow> stream_id_and_partition list \<Rightarrow> ('c, 'r, 'v) node \<Rightarrow> ('c, 'r, 'v) node_outcome" where
  "startStorageNode env sts s = for_each (\<lambda>st. facade_subscribe env (sp_id st) (sp_partition st)) sts s"

fun on_config_change ::
  "('c, 'r, 'v) node_env \<Rightarrow> config_change \<Rightarrow> ('c, 'r, 'v) node \<Rightarrow> ('c, 'r, 'v) node_outcome" where
  "on_config_change env (StreamAdded st) s = facade_subscribe env (sp_id st) (sp_partition st) s"
| "on_config_change env (StreamRemoved st) s = facade_unsubscribe env (sp_id st) (sp_partition st) s"

subsection \<open>A storage node carries the streams of its configuration\<close>

fun config_after :: "stream_id_and_partition list \<Rightarrow> config_change \<Rightarrow> stream_id_and_partition list" where
  "config_after sts (StreamAdded st) = set_add st sts"
| "config_after sts (StreamRemoved st) = set_del st sts"

lemma status_streams [simp]: "n_streams (prepareAndSendStreamStatus env st s) = n_streams s"
  by (simp add: prepareAndSendStreamStatus_def split: option.split)

lemma facade_streams:
  "facade_subscribe env (sp_id st) (sp_partition st) s = subscribeToStreamIfHaveNotYet env st True s"
  "facade_unsubscribe env (sp_id st) (sp_partition st) s = unsubscribeFromStream env st True s"
  by (cases st; simp add: facade_subscribe_def facade_unsubscribe_def)+

lemma subscribed_streams:
  "isSetUp (n_streams (fst (subscribeToStreamIfHaveNotYet env st b s))) st' \<longleftrightarrow> st' = st \<or> isSetUp (n_streams s) st'"
  "snd (subscribeToStreamIfHaveNotYet env st b s) = None"
  using stream_key_inj [of st' st]
  by (auto simp: subscribeToStreamIfHaveNotYet_def on_manager_def setUpStream_def isSetUp_def and_then_def)

lemma unsubscribed_streams:
  "isSetUp (n_streams (fst (unsubscribeFromStream env st b s))) st' \<longleftrightarrow> st' \<noteq> st \<and> isSetUp (n_streams s) st'"
  using stream_key_inj [of st' st]
  by (auto simp: unsubscribeFromStream_def on_manager_def removeStream_def verifyThatIsSetUp_def isSetUp_def and_then_def Let_def
      split: option.split)

lemma started_streams:
  "isSetUp (n_streams (fst (startStorageNode env sts s))) st \<longleftrightarrow> st \<in> set sts \<or> isSetUp (n_streams s) st"
  "snd (startStorageNode env sts s) = None"
proof -
  have "(isSetUp (n_streams (fst (startStorageNode env sts s))) st \<longleftrightarrow> st \<in> set sts \<or> isSetUp (n_streams s) st) \<and>
      snd (startStorageNode env sts s) = None" for s
  proof (induction sts arbitrary: s)
    case Nil
    then show ?case by (simp add: startStorageNode_def)
  next
    case (Cons a sts)
    obtain t where t: "subscribeToStreamIfHaveNotYet env a True s = (t, None)"
      using subscribed_streams(2) [of env a True s] by (cases "subscribeToStreamIfHaveNotYet env a True s") simp
    have "isSetUp (n_streams t) st \<longleftrightarrow> st = a \<or> isSetUp (n_streams s) st" using subscribed_streams(1) [of env a True s st] t by simp
    then show ?case using Cons.IH [of t] t by (auto simp: startStorageNode_def facade_streams)
  qed
  then show "isSetUp (n_streams (fst (startStorageNode env sts s))) st \<longleftrightarrow> st \<in> set sts \<or> isSetUp (n_streams s) st"
    "snd (startStorageNode env sts s) = None" by blast+
qed

text \<open>
  C33. A storage node carries exactly the streams of its configuration: after it was started and
  after any changes of the configuration, a stream is set up in the node if and only if the
  configuration has it. Adding a stream twice, or removing one that was never there, changes
  nothing.
\<close>

theorem storage_node_follows_config:
  "isSetUp (n_streams (foldl (\<lambda>s ch. fst (on_config_change env ch s)) (fst (startStorageNode env sts (new_node env c))) changes)) st =
   (st \<in> set (foldl config_after sts changes))"
proof (induction changes rule: rev_induct)
  case Nil
  have "n_streams (new_node env c) = []" by (simp add: new_node_def)
  then show ?case using started_streams(1) [of env sts "new_node env c" st] by (simp add: isSetUp_def)
next
  case (snoc ch changes)
  then show ?case
    by (cases ch) (auto simp: facade_streams subscribed_streams(1) unsubscribed_streams)
qed

subsection \<open>Whatever else the node does\<close>

definition carries :: "('c, 'r, 'v) node_env \<Rightarrow> stream_id_and_partition \<Rightarrow> ('c, 'r, 'v) node \<Rightarrow> bool" where
  "carries env st s \<longleftrightarrow> isSetUp (n_streams s) st"

lemma relay_streams: "n_streams (fst (relay env msg source s)) = n_streams s"
  by (simp add: relay_def Let_def split: sum.split)

lemma check_streams: "isSetUp (n_streams s) st \<Longrightarrow> isSetUp (n_streams (fst (checkAndPropagate env msg source s))) st"
proof -
  assume up: "isSetUp (n_streams s) st"
  have r: "n_streams (fst (propagateMessage env msg source t)) = n_streams t" for t
    by (cases "snd (node_record env ''propagateMessage'' t)") (simp_all add: propagateMessage_def and_then_def relay_streams)
  have i: "n_streams (fst (and_then (node_record env k t) (\<lambda>u. (record_for_stream env m j u, None)))) = n_streams t" for k m j t
    by (simp add: and_then_def split: option.split)
  show ?thesis unfolding checkAndPropagate_def Let_def
    using mark_set_up [OF up] by (auto simp: r i split: sum.split manager_error.split detector_error.split)
qed

lemma data_streams: "isSetUp (n_streams s) st \<Longrightarrow> isSetUp (n_streams (fst (onDataReceived env msg source s))) st"
  unfolding onDataReceived_def
  by (intro and_then_inv [where P = "\<lambda>s. isSetUp (n_streams s) st"] check_streams) (simp_all add: subscribed_streams(1))

interpretation carried: node_invariant env "\<lambda>st'. st' \<noteq> st" "\<lambda>_. True" "carries env st"
  for env :: "('c, 'r, 'v) node_env" and st
proof
  fix s :: "('c, 'r, 'v) node" assume c: "carries env st s"
  then have up: "isSetUp (n_streams s) st" by (simp add: carries_def)
  show "carries env st (fst (onDataReceived env msg source s))" for msg source
    using data_streams [OF up] by (simp add: carries_def)
  show "carries env st (s\<lparr>n_streams := manager_step (n_streams s) ch\<rparr>)"
    if "\<not> is_mark ch" "\<And>st'. ch = RemoveStream st' \<Longrightarrow> st' \<noteq> st" for ch
  proof -
    have "\<not> removes_stream (stream_key st) ch" using that(2) stream_key_inj by (cases ch) auto
    then show ?thesis using up step_keeps_stream [where m = "n_streams s" and sk = "stream_key st" and c = ch] by (simp add: carries_def isSetUp_def)
  qed
qed (simp_all add: carries_def forgetDisconnectionTimer_def armDisconnectionTimer_def)

text \<open>The events that leave a stream set up: none takes it off.\<close>

definition keeps_stream :: "stream_id_and_partition \<Rightarrow> node_event \<Rightarrow> bool" where
  "keeps_stream st e \<longleftrightarrow> (case e of Unsubscribe st' \<Rightarrow> st' \<noteq> st | _ \<Rightarrow> True)"

lemma keeps_legal: "keeps_stream st e \<Longrightarrow> event_legal (\<lambda>st'. st' \<noteq> st) (\<lambda>_. True) e"
  by (cases e) (simp_all add: keeps_stream_def)

text \<open>
  Nothing that happens to a storage node makes it drop a stream of its configuration: after
  any events (instructions, disconnections, timers, errors, other streams leaving) but its own
  removal, a configured stream is still set up.
\<close>

theorem configured_stream_is_kept:
  assumes "st \<in> set sts" "list_all (keeps_stream st) es"
  shows "isSetUp (n_streams (foldl (node_step env) (fst (startStorageNode env sts (new_node env c))) es)) st"
proof -
  have "carries env st (fst (startStorageNode env sts (new_node env c)))"
    using assms(1) by (simp add: carries_def started_streams(1))
  moreover have "\<forall>e \<in> set es. event_legal (\<lambda>st'. st' \<noteq> st) (\<lambda>_. True) e"
    using assms(2) keeps_legal by (auto simp: list_all_iff)
  ultimately show ?thesis using carried.node_run.run_inv [of env st _ es] by (simp add: carries_def)
qed

lemma configured_stream_is_kept_witness:
  "isSetUp (n_streams (foldl (node_step example_env) (fst (startStorageNode example_env [example_stream] (new_node example_env [])))
     [NeighbourDisconnected ''n'', Stop])) example_stream"
  by (rule configured_stream_is_kept) (simp_all add: keeps_stream_def)

subsection \<open>Every message is stored once\<close>

definition unseens :: "message_id \<Rightarrow> node_effect list \<Rightarrow> nat" where
  "unseens mid out = length (filter (\<lambda>e. case e of UnseenMessageReceived msg _ \<Rightarrow> messageId msg = mid | _ \<Rightarrow> False) out)"

lemma unseens_append [simp]: "unseens mid (xs @ ys) = unseens mid xs + unseens mid ys"
  by (simp add: unseens_def)

lemma unseens_one [simp]: "unseens mid [] = 0"
  "unseens mid [UnseenMessageReceived msg source] = (if messageId msg = mid then 1 else 0)"
  "unseens mid [MessageReceived msg source] = 0" "unseens mid [MessagePropagated msg] = 0"
  "\<not> data_effect e \<Longrightarrow> unseens mid [e] = 0" "unseens mid (map (\<lambda>n. SendData n msg) ns) = 0"
  by (simp_all add: unseens_def filter_empty_conv) (cases e; simp)+

definition stored_once :: "('c, 'r, 'v) node_env \<Rightarrow> message_id \<Rightarrow> ('c, 'r, 'v) node \<Rightarrow> bool" where
  "stored_once env mid s \<longleftrightarrow> node_ok env s \<and> unseens mid (n_out s) \<le> 1 \<and>
     (unseens mid (n_out s) = 1 \<longrightarrow> seen_number (n_streams s) mid)"

lemma stored_change:
  "stored_once env mid s \<Longrightarrow> node_ok env t \<Longrightarrow> unseens mid (n_out t) = unseens mid (n_out s) \<Longrightarrow>
   (seen_number (n_streams s) mid \<Longrightarrow> seen_number (n_streams t) mid) \<Longrightarrow> stored_once env mid t"
  by (auto simp: stored_once_def)

lemma stored_record: "stored_once env mid s \<Longrightarrow> stored_once env mid (fst (node_record env k s))"
  by (rule stored_change) (auto intro: node_ok_record simp: stored_once_def)

lemma stored_manager:
  assumes "stored_once env mid s" "\<not> removes_stream (stream_key (from_message mid)) c"
  shows "stored_once env mid (s\<lparr>n_streams := manager_step (n_streams s) c\<rparr>)"
proof (rule stored_change [OF assms(1)])
  have ok: "node_ok env s" using assms(1) by (simp add: stored_once_def)
  show "node_ok env (s\<lparr>n_streams := manager_step (n_streams s) c\<rparr>)"
    by (rule node_ok_streams [OF ok manager_ok_step [OF node_okD(2) [OF ok]]])
  show "seen_number (n_streams s) mid \<Longrightarrow> seen_number (n_streams (s\<lparr>n_streams := manager_step (n_streams s) c\<rparr>)) mid"
    using seen_number_step [OF node_okD(2) [OF ok] _ assms(2)] by simp
qed simp

lemma relay_unseens: "unseens mid (n_out (fst (relay env msg source s))) = unseens mid (n_out s)"
  by (simp add: relay_def Let_def send_all split: sum.split)

lemma stored_propagate: "stored_once env mid s \<Longrightarrow> stored_once env mid (fst (propagateMessage env msg source s))"
  unfolding propagateMessage_def
  by (rule and_then_inv [where P = "stored_once env mid"], erule stored_record)
    (rule stored_change, assumption, simp_all add: node_ok_relay stored_once_def relay_unseens relay_streams)

lemma stored_ignore:
  "stored_once env mid s \<Longrightarrow> stored_once env mid (fst (and_then (node_record env k s) (\<lambda>t. (record_for_stream env m i t, None))))"
  by (rule and_then_inv [where P = "stored_once env mid"], erule stored_record) (simp add: stored_once_def)

lemma stored_check:
  assumes o: "stored_once env mid s" and up: "isSetUp (n_streams s) (message_stream msg)"
  shows "stored_once env mid (fst (checkAndPropagate env msg source s))"
proof -
  let ?r = "markNumbersAndCheckThatIsNotDuplicate (n_streams s) (messageId msg) (prevMsgRef msg)"
  let ?s = "s\<lparr>n_streams := fst ?r\<rparr>"
  have ok: "node_ok env s" using o by (simp add: stored_once_def)
  note mok = node_okD(2) [OF ok]
  have up': "has_key (n_streams s) (stream_key (from_message (messageId msg)))" using up by (simp add: isSetUp_def)
  have o1: "stored_once env mid ?s" using stored_manager [OF o, of "Mark (messageId msg) (prevMsgRef msg)"] by simp
  have o2: "stored_once env mid (emits (UnseenMessageReceived msg source) ?s)" if r: "snd ?r = Inr True"
  proof (cases "messageId msg = mid")
    case True
    have "\<not> seen_number (n_streams s) mid" using seen_number_not_new [OF mok] up' True r by blast
    then have "unseens mid (n_out s) = 0" using o by (auto simp: stored_once_def le_Suc_eq)
    moreover have "seen_number (fst ?r) mid" using marked_seen [OF mok up' r] True by simp
    ultimately show ?thesis using o1 True by (simp add: stored_once_def)
  next
    case False
    then show ?thesis using o1 by (simp add: stored_once_def)
  qed
  show ?thesis
    unfolding checkAndPropagate_def Let_def
    using stored_propagate [OF o1] stored_propagate [OF o2] o1
    by (auto intro: stored_record stored_ignore split: sum.split manager_error.split detector_error.split)
qed

lemma stored_subscribe:
  assumes "stored_once env mid s"
  shows "stored_once env mid (fst (subscribeToStreamIfHaveNotYet env st b s))"
proof -
  have m: "stored_once env mid (fst (on_manager (\<lambda>m. setUpStream m st) s))"
    using stored_manager [OF assms, of "SetUp st"] assms by (auto simp: on_manager_def split: sum.split)
  have p: "stored_once env mid t \<Longrightarrow> stored_once env mid (prepareAndSendStreamStatus env st t)" for t
    by (simp add: stored_once_def prepareAndSendStreamStatus_def split: option.split)
  have "stored_once env mid (fst (and_then (on_manager (\<lambda>m. setUpStream m st) s)
      (\<lambda>t. (if b then prepareAndSendStreamStatus env st t else t, None))))"
    by (rule and_then_inv [where P = "stored_once env mid", OF m]) (simp add: p)
  then show ?thesis using assms by (simp only: subscribeToStreamIfHaveNotYet_def split: if_split) simp
qed

lemma stored_data:
  assumes "stored_once env mid s"
  shows "stored_once env mid (fst (onDataReceived env msg source s))"
  unfolding onDataReceived_def
proof (rule and_then_inv [where P = "stored_once env mid"])
  show "stored_once env mid (fst (node_record env ''onDataReceived'' s))" by (rule stored_record [OF assms])
  fix t :: "('a, 'b, 'c) node"
  assume t: "stored_once env mid t"
  let ?u = "emits (MessageReceived msg source) (record_for_stream env OnDataReceived (streamId (messageId msg)) t)"
  have u: "stored_once env mid ?u" using t by (simp add: stored_once_def)
  obtain v where v: "subscribeToStreamIfHaveNotYet env (message_stream msg) True ?u = (v, None)"
    using subscribed_streams(2) [of env "message_stream msg" True ?u] by (cases "subscribeToStreamIfHaveNotYet env (message_stream msg) True ?u") simp
  have "isSetUp (n_streams v) (message_stream msg)" using subscribed_streams(1) [of env "message_stream msg" True ?u] v by simp
  moreover have "stored_once env mid v" using stored_subscribe [OF u, of "message_stream msg" True] v by simp
  ultimately show "stored_once env mid (fst (and_then (subscribeToStreamIfHaveNotYet env (message_stream msg) True ?u) (checkAndPropagate env msg source)))"
    unfolding v and_then_simps by (rule stored_check [rotated])
qed

interpretation stored: node_invariant env "\<lambda>st. st \<noteq> from_message mid" "\<lambda>_. True" "stored_once env mid"
  for env :: "('c, 'r, 'v) node_env" and mid
proof
  fix s :: "('c, 'r, 'v) node" assume o: "stored_once env mid s"
  then have ok: "node_ok env s" by (simp add: stored_once_def)
  note same = stored_change [OF o]
  show "stored_once env mid (fst (onDataReceived env msg source s))" for msg source by (rule stored_data [OF o])
  show "(msg, source) \<in> set (contents (n_buffer s) k) \<Longrightarrow> True" for msg source k by simp
  show "stored_once env mid (emits e s)" if "\<not> data_effect e" for e using o that by (simp add: stored_once_def)
  show "stored_once env mid (fst (node_record env name s))" for name by (rule stored_record [OF o])
  show "stored_once env mid (record_for_stream env k sid s)" for k sid using o by (simp add: stored_once_def)
  show "stored_once env mid (s\<lparr>n_streams := manager_step (n_streams s) ch\<rparr>)"
    if "\<not> is_mark ch" "\<And>st. ch = RemoveStream st \<Longrightarrow> st \<noteq> from_message mid" for ch
  proof (rule stored_manager [OF o])
    show "\<not> removes_stream (stream_key (from_message mid)) ch" using that(2) stream_key_inj by (cases ch) auto
  qed
  show "stored_once env mid (s\<lparr>n_buffer := buffer_step (ne_bufferMaxSize env) (n_buffer s) b\<rparr>)" if "\<not> is_put b" for b
    by (rule same [OF nodes.buffered [OF ok that]]) simp_all
  show "stored_once env mid (s\<lparr>n_seen := lru_age (ne_lru env) t (n_seen s)\<rparr>)" for t by (rule same [OF nodes.aged [OF ok]]) simp_all
  show "stored_once env mid (s\<lparr>n_throttler := throttler_step (n_throttler s) te\<rparr>)" for te
    by (rule same [OF nodes.throttle [OF ok]]) simp_all
  show "stored_once env mid (s\<lparr>n_retry := retry_step (n_retry s) re\<rparr>)" for re by (rule same [OF nodes.retry [OF ok]]) simp_all
  show "stored_once env mid (s\<lparr>n_book := bk\<rparr>)" for bk by (rule same [OF nodes.book [OF ok]]) simp_all
  show "stored_once env mid (s\<lparr>n_failures := fs\<rparr>)" for fs by (rule same [OF nodes.failures [OF ok]]) simp_all
  show "stored_once env mid (s\<lparr>n_done := ds\<rparr>)" for ds by (rule same [OF nodes.handled_calls [OF ok]]) simp_all
  show "stored_once env mid (s\<lparr>n_rtts := rt\<rparr>)" for rt by (rule same [OF nodes.rtts [OF ok]]) simp_all
  show "stored_once env mid (forgetDisconnectionTimer i n s)"
    if "map_of (n_disc s) n = Some i \<or> map_of (n_disc_armed s) i = Some n" for n i
    by (rule same [OF nodes.forget_timer [OF ok that]]) (simp_all add: forgetDisconnectionTimer_def)
  show "stored_once env mid (armDisconnectionTimer n s)" if "map_of (n_disc s) n = None" for n
    by (rule same [OF nodes.arm_timer [OF ok that]]) (simp_all add: armDisconnectionTimer_def)
  show "stored_once env mid (s\<lparr>n_disc_armed := filter Q (n_disc_armed s)\<rparr>)" for Q
    by (rule same [OF nodes.stop_timers [OF ok]]) simp_all
  show "stored_once env mid (s\<lparr>n_handlings := hs, n_next := k'\<rparr>)" if "n_next s \<le> k'" for hs k'
    by (rule same [OF nodes.handlings [OF ok that]]) simp_all
qed

lemma stores_of_one: "length (filter (\<lambda>(j, msg). j = i \<and> messageId msg = mid) (store_calls storages out)) =
    (if i < length storages then unseens mid out else 0)"
proof (induction out)
  case Nil
  then show ?case by (simp add: store_calls_def unseens_def)
next
  case (Cons e out)
  have one: "length (filter ((\<lambda>(j, msg). j = i \<and> messageId msg = mid) \<circ> (\<lambda>i. (i, m))) [0..<n]) =
      (if i < n \<and> messageId m = mid then Suc 0 else 0)" for m n
    by (induction n) auto
  have "store_calls storages (e # out) = store_calls storages [e] @ store_calls storages out" "unseens mid (e # out) = unseens mid [e] + unseens mid out"
    by (simp_all add: store_calls_def unseens_def)
  moreover have "length (filter (\<lambda>(j, msg). j = i \<and> messageId msg = mid) (store_calls storages [e])) =
      (if i < length storages then unseens mid [e] else 0)"
    by (cases e) (simp_all add: store_calls_def unseens_def one)
  ultimately show ?case using Cons.IH by simp
qed

text \<open>
  C34. Over every run of events in which the node does not unsubscribe from the stream of a
  message, each storage of the node is given the message at most once, whatever duplicates,
  retries and late copies arrive from any neighbour. (Leaving the stream makes the node forget
  what it has seen: when a configuration removes and adds the stream again, the storage can
  get the same message a second time.)
\<close>

theorem stored_at_most_once:
  assumes "1 < ne_bufferMaxSize env" "list_all (keeps_stream (from_message mid)) es"
  shows "length (filter (\<lambda>(j, msg). j = i \<and> messageId msg = mid)
    (store_calls storages (n_out (foldl (node_step env) (new_node env c) es)))) \<le> 1"
proof -
  have "stored_once env mid (new_node env c)" using node_ok_new [OF assms(1)] by (simp add: stored_once_def new_node_def)
  moreover have "\<forall>e \<in> set es. event_legal (\<lambda>st'. st' \<noteq> from_message mid) (\<lambda>_. True) e"
    using assms(2) keeps_legal by (auto simp: list_all_iff)
  ultimately have "stored_once env mid (foldl (node_step env) (new_node env c) es)" using stored.node_run.run_inv by blast
  then show ?thesis by (simp add: stores_of_one stored_once_def)
qed

lemma stored_at_most_once_witness:
  "length (filter (\<lambda>(j, msg). j = 0 \<and> messageId msg = example_id ''p'' ''c'' 1)
    (store_calls [()] (n_out (foldl (node_step example_env) (new_node example_env []) example_events)))) \<le> 1"
  by (rule stored_at_most_once) (simp_all add: example_env_def example_events_def keeps_stream_def)

subsection \<open>What a storage has is resent\<close>

text \<open>What a response stream reports to the handler: its messages in order, then its end.\<close>

definition responses :: "nat \<Rightarrow> nat \<Rightarrow> control_message readable \<Rightarrow> resend_input list" where
  "responses c j r = map (ResponseData c j) (pushed r) @ (if eof r then [ResponseEnd c j] else [])"

lemma data_arrives:
  assumes "map_of (rh_ctxs h) c = Some x" "reads j x" "\<not> eof (rc_stream x)"
  shows "map_of (rh_ctxs (foldl (resend_step k) h (map (ResponseData c j) ms))) c =
    Some (x\<lparr>rc_stream := (rc_stream x)\<lparr>pushed := pushed (rc_stream x) @ ms\<rparr>, rc_count := rc_count x + length ms\<rparr>)"
  using assms
proof (induction ms arbitrary: h x)
  case (Cons m ms)
  let ?x = "on_response_data j m x"
  have x: "?x = x\<lparr>rc_stream := (rc_stream x)\<lparr>pushed := pushed (rc_stream x) @ [m]\<rparr>, rc_count := rc_count x + 1\<rparr>"
    using Cons.prems(2,3) by (simp add: on_response_data_def reads_def push_def)
  have "map_of (rh_ctxs (resend_step k h (ResponseData c j m))) c = Some ?x" using Cons.prems(1) by auto
  from Cons.IH [OF this] show ?case using Cons.prems(2,3) unfolding x by (simp add: reads_def)
qed simp

text \<open>
  C35. A resend is answered from a storage: when the first storage of a node has messages for a
  request, they reach its consumer exactly as they are, in their order and followed by the end,
  and no other storage and no storage node is asked. To a neighbour that asked they are sent
  between the announcement and the end of the resend.
\<close>

theorem stored_messages_are_resent:
  assumes "storage (storage_call_of q) = \<lparr>pushed = ms, eof = True, late_pushes = 0\<rparr>" "ms \<noteq> []"
  shows "\<exists>x. map_of (rh_ctxs (foldl (resend_step (strategies_of (st # sts))) h (HandleRequest (\<lambda>_. False) q source #
        responses (rh_next h) 0 (local_getResendResponseStream storage q) @ [LoopContinues (\<lambda>_. False) (rh_next h)]))) (rh_next h) = Some x \<and>
      \<not> rc_running x \<and> rc_asked x = 1 \<and> pushed (rc_stream x) = map (toUnicastMessage q) ms \<and> eof (rc_stream x) \<and>
      proxyRequestStream q (rc_stream x) = ResendResponseResending (rq_requestId q) (rq_streamId q) (rq_streamPartition q) #
        map (toUnicastMessage q) ms @ [ResendResponseResent (rq_requestId q) (rq_streamId q) (rq_streamPartition q)]"
proof -
  let ?k = "strategies_of (st # sts)" and ?c = "rh_next h" and ?ms = "map (toUnicastMessage q) ms"
  define x0 where "x0 = \<lparr>rc_request = q, rc_source = source, rc_stop = False, rc_running = True, rc_asked = 1, rc_settled = None,
      rc_count = 0, rc_lastCheck = 0, rc_results = [], rc_stream = new_readable, rc_calls = []\<rparr>"
  define h0 where "h0 = resend_step ?k h (HandleRequest (\<lambda>_. False) q source)"
  have r: "local_getResendResponseStream storage q = \<lparr>pushed = ?ms, eof = True, late_pushes = 0\<rparr>"
    by (simp add: local_getResendResponseStream_def assms(1))
  have h0: "map_of (rh_ctxs h0) ?c = Some x0"
    by (simp add: h0_def x0_def handleRequest_def loop_head_def strategies_of_def Let_def)
  define h1 where "h1 = foldl (resend_step ?k) h0 (map (ResponseData ?c 0) ?ms)"
  define x1 where "x1 = x0\<lparr>rc_stream := new_readable\<lparr>pushed := ?ms\<rparr>, rc_count := length ms\<rparr>"
  have h1: "map_of (rh_ctxs h1) ?c = Some x1"
    using data_arrives [OF h0, of 0 ?k ?ms] by (simp add: h1_def x1_def x0_def reads_def new_readable_def)
  have "map_of (rh_ctxs (resend_step ?k h1 (ResponseEnd ?c 0))) ?c = Some (x1\<lparr>rc_settled := Some True\<rparr>)"
    using h1 assms(2) by (auto simp: on_response_end_def x1_def x0_def reads_def)
  from continues_effect [OF this, of True "\<lambda>_. False" ?k]
  obtain y where y: "map_of (rh_ctxs (resend_step ?k (resend_step ?k h1 (ResponseEnd ?c 0)) (LoopContinues (\<lambda>_. False) ?c))) ?c = Some y"
    "\<not> rc_running y" "rc_asked y = 1" "rc_stream y = push_end (new_readable\<lparr>pushed := ?ms\<rparr>)"
    by (auto simp: x1_def x0_def)
  have run: "foldl (resend_step ?k) h (HandleRequest (\<lambda>_. False) q source #
      responses ?c 0 (local_getResendResponseStream storage q) @ [LoopContinues (\<lambda>_. False) ?c]) =
    resend_step ?k (resend_step ?k h1 (ResponseEnd ?c 0)) (LoopContinues (\<lambda>_. False) ?c)"
    by (simp add: h1_def h0_def responses_def r del: resend_step.simps)
  show ?thesis unfolding run
    by (rule exI [of _ y]) (use y assms(2) in \<open>simp add: push_end_def new_readable_def proxyRequestStream_eq proxy_end_def\<close>)
qed

lemma stored_messages_are_resent_witness:
  "\<exists>x. map_of (rh_ctxs (foldl (resend_step (strategies_of [()])) new_resend_handler (HandleRequest (\<lambda>_. False) example_request (Some ''n'') #
      responses 0 0 (local_getResendResponseStream (\<lambda>_. \<lparr>pushed = [example_broadcast], eof = True, late_pushes = 0\<rparr>) example_request) @
      [LoopContinues (\<lambda>_. False) 0]))) 0 = Some x \<and> pushed (rc_stream x) = [UnicastMessage ''r'' example_broadcast]"
proof -
  have "rh_next new_resend_handler = 0" by (simp add: new_resend_handler_def)
  then show ?thesis
    using stored_messages_are_resent [of "\<lambda>_. \<lparr>pushed = [example_broadcast], eof = True, late_pushes = 0\<rparr>" example_request "[example_broadcast]"
        "()" "[]" new_resend_handler "Some ''n''"]
    by (auto simp: toUnicastMessage_def example_request_def simp del: resend_step.simps)
qed

subsection \<open>A neighbour that leaves\<close>

definition other_effects :: "node_effect list \<Rightarrow> bool" where
  "other_effects xs \<longleftrightarrow> List.map_filter resend_effect xs = []"

lemma other_effects_append [simp]: "other_effects (xs @ ys) \<longleftrightarrow> other_effects xs \<and> other_effects ys" "other_effects []"
  by (simp_all add: other_effects_def map_filter_def)

lemma other_effects_one [simp]: "other_effects [e] \<longleftrightarrow> resend_effect e = None"
  by (cases "resend_effect e") (simp_all add: other_effects_def map_filter_def)

lemma disconnection_effects:
  assumes "node_ok env s"
  shows "\<exists>xs. n_out (fst (node_handle env s (NeighbourDisconnected n))) = n_out s @ CancelResends n # xs \<and> other_effects xs"
proof -
  let ?P = "\<lambda>t. \<exists>xs. n_out t = n_out s @ CancelResends n # xs \<and> other_effects xs"
  have e: "?P (emits e t)" if m: "?P t" and r: "resend_effect e = None" for e and t :: "('a, 'b, 'c) node"
  proof -
    obtain xs where "n_out t = n_out s @ CancelResends n # xs" "other_effects xs" using m by blast
    then show ?thesis using r by (intro exI [of _ "xs @ [e]"]) simp
  qed
  have status: "?P (fst (case t' of None \<Rightarrow> (t, None) | Some t' \<Rightarrow> prepareAndSendFullStatus env t' t))"
    if "?P t" for t' and t :: "('a, 'b, 'c) node"
    using that e [OF that] by (cases t') (auto simp: prepareAndSendFullStatus_def split: sum.split)
  have r: "snd (node_record env ''onNodeDisconnect'' s) = None"
    by (rule node_record_no_error [OF _ node_okD(7) [OF assms]]) (simp add: recorded_names_def)
  let ?s1 = "fst (node_record env ''onNodeDisconnect'' s)"
  let ?s3 = "(emits (CancelResends n) ?s1)\<lparr>n_streams := fst (removeNodeFromAllStreams (n_streams ?s1) n)\<rparr>"
  have s3: "?P ?s3" by (rule exI [of _ "[]"]) simp
  have "?P (fst (and_then (for_each (\<lambda>t s. case t of None \<Rightarrow> (s, None) | Some t \<Rightarrow> prepareAndSendFullStatus env t s) ts ?s3)
      (\<lambda>s4. (emits (NodeDisconnectedEvent n) s4, None))))" for ts
  proof (rule and_then_inv [where P = ?P])
    show "?P (fst (for_each (\<lambda>t s. case t of None \<Rightarrow> (s, None) | Some t \<Rightarrow> prepareAndSendFullStatus env t s) ts ?s3))"
      by (rule for_each_inv [where P = ?P, OF status s3])
    show "?P t \<Longrightarrow> ?P (fst (emits (NodeDisconnectedEvent n) t, None))" for t :: "('a, 'b, 'c) node"
      unfolding fst_conv by (rule e) simp_all
  qed
  then show ?thesis using r s3
    by (simp add: node_onNodeDisconnected_def and_then_def [of "node_record env ''onNodeDisconnect'' s"] Let_def split: sum.split)
qed

text \<open>
  C36. When a neighbour disconnects, the node stops serving it: every resend that was being
  answered for it is marked to stop and the response stream it reads is destroyed, whatever
  the resend handler has been through.
\<close>

theorem departed_node_is_not_served:
  assumes "node_ok env s"
    and "map_of (rh_ctxs (resend_run (strategies_of storages) inputs)) c = Some x" "rc_running x" "\<not> rc_stop x"
      "resend_key (rc_source x) = resend_key (Some n)"
  shows "\<exists>y. map_of (rh_ctxs (snd (fst (facade_handle env storages (NeighbourDisconnected n)
      (s, resend_run (strategies_of storages) inputs))))) c = Some y \<and>
    rc_stop y \<and> DestroyResponse (rc_asked x - 1) \<in> set (rc_calls y)"
proof -
  obtain xs where xs: "n_out (fst (node_handle env s (NeighbourDisconnected n))) = n_out s @ CancelResends n # xs" "other_effects xs"
    using disconnection_effects [OF assms(1)] by blast
  have "List.map_filter resend_effect (CancelResends n # xs) = [CancelResendsOf n]"
    using xs(2) by (simp add: other_effects_def map_filter_def)
  then have "snd (fst (facade_handle env storages (NeighbourDisconnected n) (s, resend_run (strategies_of storages) inputs))) =
      resend_run (strategies_of storages) (inputs @ [CancelResendsOf n])"
    using xs(1) by (simp add: facade_handle_def case_prod_beta Let_def resend_run_def del: node_handle.simps)
  then show ?thesis using cancel_reaches [OF assms(2-5)] by simp
qed

lemma departed_node_is_not_served_witness:
  "\<exists>y. map_of (rh_ctxs (snd (fst (facade_handle example_env [()] (NeighbourDisconnected ''n'')
      (example_node [''n''], resend_run (strategies_of [()]) [asks]))))) 0 = Some y \<and>
    rc_stop y \<and> DestroyResponse (rc_asked (example_ctx 1) - 1) \<in> set (rc_calls y)"
proof (rule departed_node_is_not_served)
  show "map_of (rh_ctxs (resend_run (strategies_of [()]) [asks])) 0 = Some (example_ctx 1)"
    using example_run by (simp add: strategies_of_def numeral_2_eq_2)
  show "node_ok example_env (example_node [''n''])" by (rule example_node_ok) simp
qed (simp_all add: example_ctx_def)

end
