(* ===== verification/Dissemination.thy ===== *)
theory Dissemination
  imports NetworkNode
begin

section \<open>A network of nodes\<close>

text \<open>
  The nodes of \<open>src/src/logic/Node.ts\<close> put together. \<open>SendData\<close> is \<open>NodeToNode.sendData\<close>, which
  puts a copy of the message on its way, and its arrival is the event \<open>DATA_RECEIVED\<close> that
  the node hears of (line 146). Copies overtake each other and may be lost; everything else
  that happens to a node is an event of its own.
\<close>

subsection \<open>What a node sends\<close>

definition adds :: "(node_effect \<Rightarrow> bool) \<Rightarrow> ('c, 'r, 'v) node \<Rightarrow> ('c, 'r, 'v) node \<Rightarrow> bool" where
  "adds Q s t \<longleftrightarrow> (\<exists>xs. n_out t = n_out s @ xs \<and> list_all Q xs)"

lemma adds_same: "n_out t = n_out s \<Longrightarrow> adds Q s t"
  by (simp add: adds_def)

lemma adds_change: "adds Q s t \<Longrightarrow> n_out u = n_out t \<Longrightarrow> adds Q s u"
  by (simp add: adds_def)

lemma adds_emits: "adds Q s t \<Longrightarrow> Q e \<Longrightarrow> adds Q s (emits e t)"
  by (auto simp: adds_def)

lemma adds_list: "adds Q s t \<Longrightarrow> n_out u = n_out t @ xs \<Longrightarrow> list_all Q xs \<Longrightarrow> adds Q s u"
  by (auto simp: adds_def)

text \<open>The effects of receiving \<open>msg\<close>: only that message is reported or sent.\<close>

fun about :: "stream_message \<Rightarrow> string option \<Rightarrow> node_effect \<Rightarrow> bool" where
  "about msg source (SendData n m) \<longleftrightarrow> m = msg"
| "about msg source (UnseenMessageReceived m k) \<longleftrightarrow> m = msg \<and> k = source"
| "about msg source _ \<longleftrightarrow> True"

lemma about_other: "\<not> data_effect e \<Longrightarrow> about msg source e"
  by (cases e) simp_all

lemma relay_adds: "adds (about msg source) s t \<Longrightarrow> adds (about msg source) s (fst (relay env msg k t))"
  by (auto simp: relay_def Let_def send_all list_all_iff intro: adds_list adds_change split: sum.split)

lemma propagate_adds: "adds (about msg source) s t \<Longrightarrow> adds (about msg source) s (fst (propagateMessage env msg k t))"
  unfolding propagateMessage_def
  by (rule and_then_inv [where P = "adds (about msg source) s"], erule adds_change, simp)
    (rule relay_adds, erule adds_change, simp)

lemma check_adds: "adds (about msg source) s t \<Longrightarrow> adds (about msg source) s (fst (checkAndPropagate env msg source t))"
proof -
  let ?r = "markNumbersAndCheckThatIsNotDuplicate (n_streams t) (messageId msg) (prevMsgRef msg)"
  let ?P = "adds (about msg source) s"
  assume "?P t"
  then have a: "?P (t\<lparr>n_streams := fst ?r\<rparr>)" by (rule adds_change) simp
  then have b: "?P (emits (UnseenMessageReceived msg source) (t\<lparr>n_streams := fst ?r\<rparr>))" by (rule adds_emits) simp
  have i: "?P u \<Longrightarrow> ?P (fst (and_then (node_record env k u) (\<lambda>v. (record_for_stream env m j v, None))))" for u k m j
    by (rule and_then_inv [where P = ?P], erule adds_change, simp, erule adds_change, simp)
  have r: "?P u \<Longrightarrow> ?P (fst (node_record env k u))" for u k by (erule adds_change) simp
  show ?thesis
    unfolding checkAndPropagate_def Let_def
    using propagate_adds [OF a] propagate_adds [OF b] i [OF a] r [OF a] a
    by (simp split: sum.split manager_error.split detector_error.split)
qed

lemma subscribe_adds:
  "(\<And>e. \<not> data_effect e \<Longrightarrow> Q e) \<Longrightarrow> adds Q s t \<Longrightarrow> adds Q s (fst (subscribeToStreamIfHaveNotYet env st b t))"
  by (auto simp: subscribeToStreamIfHaveNotYet_def on_manager_def setUpStream_def prepareAndSendStreamStatus_def adds_def
      split: option.split)

lemma data_adds: "adds (about msg source) s t \<Longrightarrow> adds (about msg source) s (fst (onDataReceived env msg source t))"
proof -
  let ?P = "adds (about msg source) s"
  have r: "?P (emits (MessageReceived msg source) (record_for_stream env OnDataReceived (streamId (messageId msg)) u))" if "?P u" for u
    by (rule adds_emits [OF adds_change [OF that]]) simp_all
  assume "?P t"
  then show ?thesis
    unfolding onDataReceived_def
    by (intro and_then_inv [where P = ?P] check_adds subscribe_adds r about_other) (erule adds_change, simp, assumption+)
qed

subsection \<open>A node passes on only what it was given\<close>

definition buffer_good :: "('c, 'r, 'v) node_env \<Rightarrow> (stream_message \<Rightarrow> bool) \<Rightarrow> ('c, 'r, 'v) node \<Rightarrow> bool" where
  "buffer_good env good s \<longleftrightarrow> node_ok env s \<and> (\<forall>k msg source. (msg, source) \<in> set (contents (n_buffer s) k) \<longrightarrow> good msg)"

lemma buffer_good_change:
  "buffer_good env good s \<Longrightarrow> node_ok env t \<Longrightarrow> (\<And>k. set (contents (n_buffer t) k) \<subseteq> set (contents (n_buffer s) k)) \<Longrightarrow>
   buffer_good env good t"
  unfolding buffer_good_def by blast

lemma relay_buffer:
  assumes b: "buffer_good env good s" and good: "good msg"
  shows "buffer_good env good (fst (relay env msg source s))"
proof -
  have ok: "node_ok env s" using b by (simp add: buffer_good_def)
  have "n_buffer (fst (relay env msg source s)) = n_buffer s \<or>
      n_buffer (fst (relay env msg source s)) = fst (buffer_put (ne_bufferMaxSize env) (stream_key (message_stream msg)) (msg, source) (n_buffer s))"
    by (simp add: relay_def Let_def split: sum.split)
  then have "set (contents (n_buffer (fst (relay env msg source s))) k) \<subseteq> insert (msg, source) (set (contents (n_buffer s) k))" for k
    using contents_put(1) [OF node_okD(3,1) [OF ok], of "stream_key (message_stream msg)" "(msg, source)" k] by auto
  then show ?thesis using b good node_ok_relay [OF ok] unfolding buffer_good_def by blast
qed

lemma buffer_good_record: "buffer_good env good s \<Longrightarrow> buffer_good env good (fst (node_record env k s))"
  by (rule buffer_good_change) (auto intro: node_ok_record simp: buffer_good_def)

lemma propagate_buffer:
  assumes "buffer_good env good s" "good msg"
  shows "buffer_good env good (fst (propagateMessage env msg source s))"
  unfolding propagateMessage_def
proof (rule and_then_inv [where P = "buffer_good env good", OF buffer_good_record [OF assms(1)]])
  fix t assume "buffer_good env good t"
  then have "buffer_good env good (record_for_stream env PropagateMessage (streamId (messageId msg)) t)"
    by (rule buffer_good_change) (simp_all add: \<open>buffer_good env good t\<close> [unfolded buffer_good_def])
  then show "buffer_good env good (fst (relay env msg source (record_for_stream env PropagateMessage (streamId (messageId msg)) t)))"
    using assms(2) by (rule relay_buffer)
qed

lemma check_buffer:
  assumes b: "buffer_good env good s" and good: "good msg"
  shows "buffer_good env good (fst (checkAndPropagate env msg source s))"
proof -
  let ?r = "markNumbersAndCheckThatIsNotDuplicate (n_streams s) (messageId msg) (prevMsgRef msg)"
  let ?P = "buffer_good env good"
  have ok: "node_ok env s" using b by (simp add: buffer_good_def)
  have m: "?P (s\<lparr>n_streams := fst ?r\<rparr>)"
    by (rule buffer_good_change [OF b node_ok_streams [OF ok manager_ok_mark [OF node_okD(2) [OF ok]]]]) simp
  then have e: "?P (emits (UnseenMessageReceived msg source) (s\<lparr>n_streams := fst ?r\<rparr>))"
    by (simp add: buffer_good_def)
  have i: "?P u \<Longrightarrow> ?P (fst (and_then (node_record env k u) (\<lambda>v. (record_for_stream env x j v, None))))" for u k x j
    by (rule and_then_inv [where P = ?P], erule buffer_good_record) (simp add: buffer_good_def)
  show ?thesis
    unfolding checkAndPropagate_def Let_def
    using propagate_buffer [OF m good] propagate_buffer [OF e good] i [OF m] buffer_good_record [OF m] m
    by (simp split: sum.split manager_error.split detector_error.split)
qed

lemma data_buffer:
  assumes b: "buffer_good env good s" and good: "good msg"
  shows "buffer_good env good (fst (onDataReceived env msg source s))"
proof -
  obtain t where t: "onDataReceived env msg source s = checkAndPropagate env msg source t" "node_ok env t" "n_buffer t = n_buffer s"
    using data_start [of env s msg source] b unfolding buffer_good_def by metis
  have "buffer_good env good t" by (rule buffer_good_change [OF b t(2)]) (simp add: t(3))
  from check_buffer [OF this good] show ?thesis by (simp add: t(1))
qed

definition passes :: "(stream_message \<Rightarrow> bool) \<Rightarrow> node_effect \<Rightarrow> bool" where
  "passes good e \<longleftrightarrow> (case e of SendData n msg \<Rightarrow> good msg | _ \<Rightarrow> True)"

lemma passes_other: "\<not> data_effect e \<Longrightarrow> passes good e"
  by (cases e) (simp_all add: passes_def)

definition forwards :: "('c, 'r, 'v) node_env \<Rightarrow> (stream_message \<Rightarrow> bool) \<Rightarrow> ('c, 'r, 'v) node \<Rightarrow> ('c, 'r, 'v) node \<Rightarrow> bool" where
  "forwards env good b s \<longleftrightarrow> buffer_good env good s \<and> adds (passes good) b s"

lemma forwards_change:
  "forwards env good b s \<Longrightarrow> node_ok env t \<Longrightarrow> n_out t = n_out s \<Longrightarrow> n_buffer t = n_buffer s \<Longrightarrow> forwards env good b t"
  unfolding forwards_def by (auto intro: buffer_good_change adds_change)

lemma forwards_data:
  assumes f: "forwards env good b s" and good: "good msg"
  shows "forwards env good b (fst (onDataReceived env msg source s))"
proof -
  obtain xs where xs: "n_out (fst (onDataReceived env msg source s)) = n_out s @ xs" "list_all (about msg source) xs"
    using data_adds [OF adds_same, of s s msg source env] unfolding adds_def by blast
  have "passes good e" if "about msg source e" for e
    using that good by (cases e) (simp_all add: passes_def)
  then have "list_all (passes good) xs" using xs(2) by (auto simp: list_all_iff)
  then have "adds (passes good) b (fst (onDataReceived env msg source s))"
    using f adds_list [OF _ xs(1)] by (simp add: forwards_def)
  moreover have "buffer_good env good s" using f by (simp add: forwards_def)
  ultimately show ?thesis using data_buffer [where good = good, OF _ good] by (simp add: forwards_def)
qed

interpretation forwarding: node_invariant env "\<lambda>_. True" good "forwards env good b"
  for env :: "('c, 'r, 'v) node_env" and good and b
proof
  fix s :: "('c, 'r, 'v) node" assume f: "forwards env good b s"
  then have ok: "node_ok env s" by (simp add: forwards_def buffer_good_def)
  show "forwards env good b (fst (onDataReceived env msg source s))" if "good msg" for msg source
    by (rule forwards_data [OF f that])
  show "good msg" if "(msg, source) \<in> set (contents (n_buffer s) k)" for msg source k
    using f that by (auto simp: forwards_def buffer_good_def)
  show "forwards env good b (emits e s)" if "\<not> data_effect e" for e
    using f adds_emits [of "passes good" b s e] passes_other [OF that, of good] by (simp add: forwards_def buffer_good_def)
  show "forwards env good b (fst (node_record env name s))" "forwards env good b (record_for_stream env k sid s)" for name k sid
    by (rule forwards_change [OF f], simp_all add: node_ok_record [OF ok] ok)+
  show "forwards env good b (s\<lparr>n_streams := manager_step (n_streams s) c\<rparr>)" for c
    by (rule forwards_change [OF f node_ok_streams [OF ok manager_ok_step [OF node_okD(2) [OF ok]]]]) simp_all
  show "forwards env good b (s\<lparr>n_buffer := buffer_step (ne_bufferMaxSize env) (n_buffer s) c\<rparr>)" if "\<not> is_put c" for c
  proof -
    have "buffer_good env good s" using f by (simp add: forwards_def)
    then have "buffer_good env good (s\<lparr>n_buffer := buffer_step (ne_bufferMaxSize env) (n_buffer s) c\<rparr>)"
      by (rule buffer_good_change [OF _ nodes.buffered [OF ok that]])
        (simp add: contents_step [OF node_okD(3,1) [OF ok] that])
    then show ?thesis using f by (simp add: forwards_def adds_def)
  qed
  show "forwards env good b (s\<lparr>n_seen := lru_age (ne_lru env) t (n_seen s)\<rparr>)" for t
    by (rule forwards_change [OF f nodes.aged [OF ok]]) simp_all
  show "forwards env good b (s\<lparr>n_throttler := throttler_step (n_throttler s) te\<rparr>)" for te
    by (rule forwards_change [OF f nodes.throttle [OF ok]]) simp_all
  show "forwards env good b (s\<lparr>n_retry := retry_step (n_retry s) re\<rparr>)" for re
    by (rule forwards_change [OF f nodes.retry [OF ok]]) simp_all
  show "forwards env good b (s\<lparr>n_book := bk\<rparr>)" for bk by (rule forwards_change [OF f nodes.book [OF ok]]) simp_all
  show "forwards env good b (s\<lparr>n_failures := fs\<rparr>)" for fs by (rule forwards_change [OF f nodes.failures [OF ok]]) simp_all
  show "forwards env good b (s\<lparr>n_done := ds\<rparr>)" for ds by (rule forwards_change [OF f nodes.handled_calls [OF ok]]) simp_all
  show "forwards env good b (s\<lparr>n_rtts := rt\<rparr>)" for rt by (rule forwards_change [OF f nodes.rtts [OF ok]]) simp_all
  show "forwards env good b (forgetDisconnectionTimer i n s)"
    if "map_of (n_disc s) n = Some i \<or> map_of (n_disc_armed s) i = Some n" for n i
    by (rule forwards_change [OF f nodes.forget_timer [OF ok that]]) (simp_all add: forgetDisconnectionTimer_def)
  show "forwards env good b (armDisconnectionTimer n s)" if "map_of (n_disc s) n = None" for n
    by (rule forwards_change [OF f nodes.arm_timer [OF ok that]]) (simp_all add: armDisconnectionTimer_def)
  show "forwards env good b (s\<lparr>n_disc_armed := filter Q (n_disc_armed s)\<rparr>)" for Q
    by (rule forwards_change [OF f nodes.stop_timers [OF ok]]) simp_all
  show "forwards env good b (s\<lparr>n_handlings := hs, n_next := k'\<rparr>)" if "n_next s \<le> k'" for hs k'
    by (rule forwards_change [OF f nodes.handlings [OF ok that]]) simp_all
qed

lemma node_passes_on:
  assumes "buffer_good env good s" "event_legal (\<lambda>_. True) good e"
  obtains xs where "n_out (node_step env s e) = n_out s @ xs" "list_all (passes good) xs" "buffer_good env good (node_step env s e)"
proof -
  have "forwards env good s s" using assms(1) by (simp add: forwards_def adds_same)
  from forwarding.event_keeps [OF this assms(2)] show ?thesis using that by (auto simp: forwards_def adds_def)
qed

subsection \<open>The network\<close>

text \<open>A copy of a message on its way, with its sender and its receiver.\<close>

type_synonym copy = "string \<times> string \<times> stream_message"

record ('c, 'r, 'v) network =
  nw_node :: "string \<Rightarrow> ('c, 'r, 'v) node"
  nw_flight :: "copy list"
  nw_arrived :: "copy list"

datatype network_event = Arrives nat | Lost nat | Happens string node_event

definition new_network :: "(string \<Rightarrow> ('c, 'r, 'v) node_env) \<Rightarrow> 'c \<Rightarrow> ('c, 'r, 'v) network" where
  "new_network env c = \<lparr>nw_node = (\<lambda>k. new_node (env k) c), nw_flight = [], nw_arrived = []\<rparr>"

definition copies :: "string \<Rightarrow> node_effect list \<Rightarrow> copy list" where
  "copies k out = concat (map (\<lambda>e. case e of SendData n msg \<Rightarrow> [(k, n, msg)] | _ \<Rightarrow> []) out)"

definition node_acts :: "(string \<Rightarrow> ('c, 'r, 'v) node_env) \<Rightarrow> string \<Rightarrow> node_event \<Rightarrow> ('c, 'r, 'v) network \<Rightarrow> ('c, 'r, 'v) network" where
  "node_acts env k e nw = (let t = node_step (env k) (nw_node nw k) e
     in nw\<lparr>nw_node := (nw_node nw)(k := t), nw_flight := nw_flight nw @ copies k (drop (length (n_out (nw_node nw k))) (n_out t))\<rparr>)"

definition remove_at :: "nat \<Rightarrow> 'a list \<Rightarrow> 'a list" where
  "remove_at i xs = take i xs @ drop (Suc i) xs"

fun network_step ::
  "(string \<Rightarrow> ('c, 'r, 'v) node_env) \<Rightarrow> ('c, 'r, 'v) network \<Rightarrow> network_event \<Rightarrow> ('c, 'r, 'v) network" where
  "network_step env nw (Arrives i) = (if i < length (nw_flight nw) then
     (case nw_flight nw ! i of (j, k, msg) \<Rightarrow>
        node_acts env k (DataReceived msg (Some j))
          (nw\<lparr>nw_flight := remove_at i (nw_flight nw), nw_arrived := nw_arrived nw @ [(j, k, msg)]\<rparr>)) else nw)"
| "network_step env nw (Lost i) = nw\<lparr>nw_flight := remove_at i (nw_flight nw)\<rparr>"
| "network_step env nw (Happens k e) = node_acts env k e nw"

text \<open>The networks that a run can reach, with the events that \<open>legal\<close> allows.\<close>

inductive network_run ::
  "(string \<Rightarrow> ('c, 'r, 'v) node_env) \<Rightarrow> (network_event \<Rightarrow> bool) \<Rightarrow> ('c, 'r, 'v) network \<Rightarrow> ('c, 'r, 'v) network \<Rightarrow> bool"
  for env legal nw0 where
  run_start: "network_run env legal nw0 nw0"
| run_step: "network_run env legal nw0 nw \<Longrightarrow> legal e \<Longrightarrow> network_run env legal nw0 (network_step env nw e)"

lemma remove_at_split:
  assumes "i < length xs"
  obtains ys zs where "xs = ys @ xs ! i # zs" "remove_at i xs = ys @ zs"
  using id_take_nth_drop [OF assms] by (auto simp: remove_at_def)

lemma remove_at_subset: "set (remove_at i xs) \<subseteq> set xs"
  unfolding remove_at_def using set_take_subset set_drop_subset by fastforce

lemma copies_append [simp]: "copies k (xs @ ys) = copies k xs @ copies k ys" "copies k [] = []"
  by (simp_all add: copies_def)

lemma copies_iff: "c \<in> set (copies k out) \<longleftrightarrow> (\<exists>n msg. c = (k, n, msg) \<and> SendData n msg \<in> set out)"
  by (force simp: copies_def split: node_effect.splits)

lemma node_acts_effect:
  assumes "buffer_good (env k) good (nw_node nw k)" "event_legal (\<lambda>_. True) good e"
  obtains xs where "nw_node (node_acts env k e nw) = (nw_node nw)(k := node_step (env k) (nw_node nw k) e)"
    "n_out (node_step (env k) (nw_node nw k) e) = n_out (nw_node nw k) @ xs" "list_all (passes good) xs"
    "buffer_good (env k) good (node_step (env k) (nw_node nw k) e)"
    "nw_flight (node_acts env k e nw) = nw_flight nw @ copies k xs" "nw_arrived (node_acts env k e nw) = nw_arrived nw"
proof -
  obtain xs where "n_out (node_step (env k) (nw_node nw k) e) = n_out (nw_node nw k) @ xs" "list_all (passes good) xs"
    "buffer_good (env k) good (node_step (env k) (nw_node nw k) e)"
    using node_passes_on [OF assms] by blast
  then show ?thesis using that [of xs] by (simp add: node_acts_def Let_def)
qed

subsection \<open>A link carries a message once\<close>

lemma network_run_steps:
  "network_run env legal nw0 nw \<Longrightarrow> \<exists>es. nw = foldl (network_step env) nw0 es \<and> (\<forall>e \<in> set es. legal e)"
proof (induction rule: network_run.induct)
  case run_start
  then show ?case by (intro exI [of _ "[]"]) simp
next
  case (run_step nw e)
  then obtain es where "nw = foldl (network_step env) nw0 es" "\<forall>e \<in> set es. legal e" by blast
  then show ?case using run_step.hyps(2) by (intro exI [of _ "es @ [e]"]) auto
qed

definition on_link :: "message_id \<Rightarrow> string \<Rightarrow> string \<Rightarrow> copy list \<Rightarrow> nat" where
  "on_link mid j k cs = length (filter (\<lambda>(j', k', msg). j' = j \<and> k' = k \<and> messageId msg = mid) cs)"

lemma on_link_append [simp]:
  "on_link mid j k (xs @ ys) = on_link mid j k xs + on_link mid j k ys" "on_link mid j k [] = 0"
  by (simp_all add: on_link_def)

lemma on_link_Cons [simp]:
  "on_link mid j k (c # cs) = (if fst c = j \<and> fst (snd c) = k \<and> messageId (snd (snd c)) = mid then 1 else 0) + on_link mid j k cs"
  by (cases c) (simp add: on_link_def)

lemma on_link_copies: "on_link mid j k (copies j' out) = (if j' = j then deliveries mid k out else 0)"
proof (induction out)
  case (Cons e out)
  have "copies j' (e # out) = copies j' [e] @ copies j' out" "deliveries mid k (e # out) = deliveries mid k [e] + deliveries mid k out"
    by (simp_all add: copies_def deliveries_def)
  moreover have "on_link mid j k (copies j' [e]) = (if j' = j then deliveries mid k [e] else 0)"
    by (cases e) (auto simp: copies_def deliveries_def)
  ultimately show ?case using Cons.IH by simp
qed simp

lemma on_link_moved:
  assumes "i < length fs"
  shows "on_link mid j k (ar @ [fs ! i]) + on_link mid j k (remove_at i fs) = on_link mid j k ar + on_link mid j k fs"
    "on_link mid j k (remove_at i fs) \<le> on_link mid j k fs"
proof -
  obtain ys zs where "fs = ys @ fs ! i # zs" "remove_at i fs = ys @ zs" using remove_at_split [OF assms] .
  then have "fs = ys @ [fs ! i] @ zs" "remove_at i fs = ys @ zs" by simp_all
  then have "on_link mid j k fs = on_link mid j k ys + (on_link mid j k [fs ! i] + on_link mid j k zs)"
    "on_link mid j k (remove_at i fs) = on_link mid j k ys + on_link mid j k zs"
    by (metis on_link_append(1))+
  then show "on_link mid j k (ar @ [fs ! i]) + on_link mid j k (remove_at i fs) = on_link mid j k ar + on_link mid j k fs"
    "on_link mid j k (remove_at i fs) \<le> on_link mid j k fs" by simp_all
qed

definition carried_once :: "(string \<Rightarrow> ('c, 'r, 'v) node_env) \<Rightarrow> message_id \<Rightarrow> ('c, 'r, 'v) network \<Rightarrow> bool" where
  "carried_once env mid nw \<longleftrightarrow> (\<forall>k. once (env k) mid (nw_node nw k)) \<and> (\<forall>(j, k, msg) \<in> set (nw_flight nw). own_key mid msg) \<and>
     (\<forall>j k. on_link mid j k (nw_arrived nw @ nw_flight nw) \<le> deliveries mid k (n_out (nw_node nw j)))"

text \<open>What must not happen: a node leaves the stream, or gets another message with the same key.\<close>

fun link_legal :: "message_id \<Rightarrow> network_event \<Rightarrow> bool" where
  "link_legal mid (Happens k e) \<longleftrightarrow> event_legal (\<lambda>st. st \<noteq> from_message mid) (own_key mid) e"
| "link_legal mid _ \<longleftrightarrow> True"

lemma node_acts_once:
  assumes c: "carried_once env mid nw" and e: "event_legal (\<lambda>st. st \<noteq> from_message mid) (own_key mid) e"
  shows "carried_once env mid (node_acts env k e nw)"
proof -
  have o: "once (env j) mid (nw_node nw j)" for j using c by (simp add: carried_once_def)
  then have b: "buffer_good (env k) (own_key mid) (nw_node nw k)" using onceD(1,3) [OF o [of k]] unfolding buffer_good_def by blast
  have "event_legal (\<lambda>_. True) (own_key mid) e" using e by (cases e) simp_all
  from node_acts_effect [where good = "own_key mid" and env = env and k = k and nw = nw and e = e, OF b this] obtain xs where
    x: "nw_node (node_acts env k e nw) = (nw_node nw)(k := node_step (env k) (nw_node nw k) e)"
    "n_out (node_step (env k) (nw_node nw k) e) = n_out (nw_node nw k) @ xs" "list_all (passes (own_key mid)) xs"
    "nw_flight (node_acts env k e nw) = nw_flight nw @ copies k xs" "nw_arrived (node_acts env k e nw) = nw_arrived nw" .
  have "own_key mid msg" if "(i, j, msg) \<in> set (copies k xs)" for i j msg
    using that x(3) by (force simp: copies_iff list_all_iff passes_def split: node_effect.splits)
  moreover have "once (env k) mid (node_step (env k) (nw_node nw k) e)" by (rule relay_once.event_keeps [OF o e])
  moreover have "on_link mid i j (nw_arrived nw @ nw_flight nw) \<le> deliveries mid j (n_out (nw_node nw i))" for i j
    using c by (simp add: carried_once_def)
  ultimately show ?thesis
    using c o unfolding carried_once_def x(1,2,4,5) by (auto simp: on_link_copies x(2))
qed

interpretation links: step_invariant "network_step env" "link_legal mid" "carried_once env mid"
  for env :: "string \<Rightarrow> ('c, 'r, 'v) node_env" and mid
proof
  fix nw :: "('c, 'r, 'v) network" and ev
  assume c: "carried_once env mid nw" and l: "link_legal mid ev"
  show "carried_once env mid (network_step env nw ev)"
  proof (cases ev)
    case (Arrives i)
    show ?thesis
    proof (cases "i < length (nw_flight nw)")
      case True
      obtain j k msg where m: "nw_flight nw ! i = (j, k, msg)" by (cases "nw_flight nw ! i")
      have good: "own_key mid msg" using c nth_mem [OF True] m by (auto simp: carried_once_def)
      let ?nw = "nw\<lparr>nw_flight := remove_at i (nw_flight nw), nw_arrived := nw_arrived nw @ [(j, k, msg)]\<rparr>"
      have "on_link mid a b (nw_arrived nw @ [(j, k, msg)]) + on_link mid a b (remove_at i (nw_flight nw)) =
          on_link mid a b (nw_arrived nw) + on_link mid a b (nw_flight nw)" for a b
        using on_link_moved(1) [OF True, of mid a b "nw_arrived nw"] m by simp
      then have "carried_once env mid ?nw"
        using c remove_at_subset [of i "nw_flight nw"] by (auto simp: carried_once_def)
      then show ?thesis using True m good by (simp add: Arrives node_acts_once)
    next
      case False
      then show ?thesis using c by (simp add: Arrives)
    qed
  next
    case (Lost i)
    have le: "on_link mid a b (remove_at i (nw_flight nw)) \<le> on_link mid a b (nw_flight nw)" for a b
    proof (cases "i < length (nw_flight nw)")
      case False
      then show ?thesis by (simp add: remove_at_def)
    qed (rule on_link_moved(2))
    have "on_link mid a b (nw_arrived nw) + on_link mid a b (remove_at i (nw_flight nw)) \<le> deliveries mid b (n_out (nw_node nw a))" for a b
    proof -
      have "on_link mid a b (nw_arrived nw) + on_link mid a b (nw_flight nw) \<le> deliveries mid b (n_out (nw_node nw a))"
        using c by (simp add: carried_once_def)
      then show ?thesis using le [of a b] by linarith
    qed
    then show ?thesis
      using c remove_at_subset [of i "nw_flight nw"] unfolding carried_once_def Lost by auto
  qed (use c l node_acts_once in simp)
qed

lemma carried_once_new:
  assumes "\<And>k. 1 < ne_bufferMaxSize (env k)" "\<And>k. lru_lawful (ne_lru (env k))" "\<And>k. \<not> lru_has (ne_lru (env k)) c (messageIdToStr mid)"
  shows "carried_once env mid (new_network env c)"
  using once_new [OF assms] by (simp add: carried_once_def new_network_def)

lemma carried_once_link:
  assumes "carried_once env mid nw0" "network_run env (link_legal mid) nw0 nw"
  shows "on_link mid j k (nw_arrived nw @ nw_flight nw) \<le> 1"
proof -
  obtain es where "nw = foldl (network_step env) nw0 es" "\<forall>e \<in> set es. link_legal mid e"
    using network_run_steps [OF assms(2)] by blast
  then have n: "carried_once env mid nw" using links.run_inv [OF assms(1), of es] by simp
  then have "on_link mid j k (nw_arrived nw @ nw_flight nw) \<le> deliveries mid k (n_out (nw_node nw j))"
    unfolding carried_once_def by blast
  moreover have "deliveries mid k (n_out (nw_node nw j)) \<le> 1"
  proof -
    have "once (env j) mid (nw_node nw j)" using n by (simp add: carried_once_def)
    from onceD(4) [OF this, of k] onceD(5) [OF this] show ?thesis by simp
  qed
  ultimately show ?thesis by (rule order_trans)
qed

text \<open>
  C2. A message crosses a link of the network at most once: in every run of a network of nodes in
  which no node unsubscribes from the message's stream and no other message has the same key in
  the sets of seen messages, whatever instructions, disconnections, retries and timers the nodes
  see, whatever overtakes or gets lost, at most one copy of the message is ever sent from one
  node to another. This is what keeps the cycles of an overlay from amplifying a message. (A node
  that unsubscribes forgets what it has seen, and relays a late copy again.)
\<close>

theorem link_carries_message_once:
  assumes "\<And>k. 1 < ne_bufferMaxSize (env k)" "\<And>k. lru_lawful (ne_lru (env k))"
    and "\<And>k. \<not> lru_has (ne_lru (env k)) c (messageIdToStr mid)"
    and "network_run env (link_legal mid) (new_network env c) nw"
  shows "on_link mid j k (nw_arrived nw @ nw_flight nw) \<le> 1"
  by (rule carried_once_link [OF carried_once_new [OF assms(1-3)] assms(4)])

lemma link_carries_message_once_witness:
  "on_link (example_id ''p'' ''c'' 1) ''a'' ''b'' (nw_arrived (network_step (\<lambda>_. example_env) (new_network (\<lambda>_. example_env) [])
      (Happens ''a'' (DataReceived (example_message 1 None) None))) @
    nw_flight (network_step (\<lambda>_. example_env) (new_network (\<lambda>_. example_env) []) (Happens ''a'' (DataReceived (example_message 1 None) None)))) \<le> 1"
proof (rule link_carries_message_once)
  show "network_run (\<lambda>_. example_env) (link_legal (example_id ''p'' ''c'' 1)) (new_network (\<lambda>_. example_env) [])
      (network_step (\<lambda>_. example_env) (new_network (\<lambda>_. example_env) []) (Happens ''a'' (DataReceived (example_message 1 None) None)))"
    by (rule run_step [OF run_start]) (simp add: own_key_def example_message_def)
qed (simp_all add: example_env_def example_lru_lawful, simp add: example_lru_def)

end
