(* ===== verification/Flooding.thy ===== *)
theory Flooding
  imports Dissemination NodeNeighbours OverlayTopology
begin

section \<open>A message reaches the whole overlay\<close>

text \<open>
  While the overlay of a stream stays as it is, a message that one of its nodes receives
  reaches every node that outbound links lead to, whatever other messages travel at the same
  time and in whatever order copies arrive.
\<close>

subsection \<open>A node of the overlay\<close>

definition received :: "stream_message \<Rightarrow> ('c, 'r, 'v) node \<Rightarrow> bool" where
  "received m s \<longleftrightarrow> (\<exists>source. UnseenMessageReceived m source \<in> set (n_out s))"

definition chain_of :: "message_id \<Rightarrow> stream_manager \<Rightarrow> detector" where
  "chain_of mid m = chain_detector m (stream_key (from_message mid)) (keyForDetector mid)"

definition off_chain :: "message_id \<Rightarrow> stream_message \<Rightarrow> bool" where
  "off_chain mid msg \<longleftrightarrow> \<not> in_chain (stream_key (from_message mid)) (keyForDetector mid) (messageId msg)"

definition overlay_member :: "('c, 'r, 'v) node_env \<Rightarrow> stream_message \<Rightarrow> string list \<Rightarrow> ('c, 'r, 'v) node \<Rightarrow> bool" where
  "overlay_member env m outs s \<longleftrightarrow> node_ok env s \<and> isSetUp (n_streams s) (message_stream m) \<and>
     getOutboundNodesForStream (n_streams s) (message_stream m) = Inr outs \<and>
     (if received m s then seen_number (n_streams s) (messageId m) else gaps (chain_of (messageId m) (n_streams s)) = [])"

lemma memberD:
  assumes "overlay_member env m outs s"
  shows "node_ok env s" "isSetUp (n_streams s) (message_stream m)" "getOutboundNodesForStream (n_streams s) (message_stream m) = Inr outs"
    "received m s \<Longrightarrow> seen_number (n_streams s) (messageId m)" "\<not> received m s \<Longrightarrow> gaps (chain_of (messageId m) (n_streams s)) = []"
  using assms by (simp_all add: overlay_member_def split: if_splits)

lemma seen_chain: "chain_of mid a = chain_of mid b \<Longrightarrow> seen_number a mid = seen_number b mid"
  by (simp add: seen_number_def chain_of_def)

lemma received_more: "n_out t = n_out s @ xs \<Longrightarrow> received m t \<longleftrightarrow> received m s \<or> (\<exists>source. UnseenMessageReceived m source \<in> set xs)"
  by (auto simp: received_def)

text \<open>Another stream that is set up changes nothing of this one.\<close>

lemma set_up_view:
  assumes "\<not> isSetUp a st'" "isSetUp a st" "b = AList.update (stream_key st') new_stream_state a"
  shows "isSetUp b st" "getOutboundNodesForStream b st = getOutboundNodesForStream a st"
    "chain_detector b (stream_key st) dk = chain_detector a (stream_key st) dk"
  using assms by (auto simp: isSetUp_def getOutboundNodesForStream_def verifyThatIsSetUp_def chain_detector_def)

lemma checked_streams:
  "n_streams (fst (checkAndPropagate env msg source s)) =
   fst (markNumbersAndCheckThatIsNotDuplicate (n_streams s) (messageId msg) (prevMsgRef msg))"
proof -
  have r: "n_streams (fst (propagateMessage env msg source t)) = n_streams t" for t
    by (cases "snd (node_record env ''propagateMessage'' t)") (simp_all add: propagateMessage_def and_then_def relay_streams)
  have i: "n_streams (fst (and_then (node_record env k t) (\<lambda>u. (record_for_stream env m j u, None)))) = n_streams t" for k m j t
    by (simp add: and_then_def split: option.split)
  show ?thesis unfolding checkAndPropagate_def Let_def
    by (auto simp: r i split: sum.split manager_error.split detector_error.split)
qed

lemma data_view:
  fixes s :: "('c, 'r, 'v) node" and msg source
  assumes ok: "node_ok env s" and up: "isSetUp (n_streams s) (from_message mid)"
  defines "t \<equiv> fst (onDataReceived env msg source s)"
  shows "node_ok env t" "isSetUp (n_streams t) (from_message mid)"
    "getOutboundNodesForStream (n_streams t) (from_message mid) = getOutboundNodesForStream (n_streams s) (from_message mid)"
    "off_chain mid msg \<Longrightarrow> chain_of mid (n_streams t) = chain_of mid (n_streams s)"
    "seen_number (n_streams s) mid \<Longrightarrow> seen_number (n_streams t) mid"
proof -
  obtain u where u: "onDataReceived env msg source s = checkAndPropagate env msg source u" "node_ok env u"
    "isSetUp (n_streams s) (message_stream msg) \<Longrightarrow> n_streams u = n_streams s"
    "\<not> isSetUp (n_streams s) (message_stream msg) \<Longrightarrow> n_streams u = AList.update (stream_key (message_stream msg)) new_stream_state (n_streams s)"
    using data_start [OF ok, of msg source] by metis
  have v: "isSetUp (n_streams u) (from_message mid)"
    "getOutboundNodesForStream (n_streams u) (from_message mid) = getOutboundNodesForStream (n_streams s) (from_message mid)"
    "chain_of mid (n_streams u) = chain_of mid (n_streams s)"
    using u(3,4) up set_up_view [of "n_streams s" "message_stream msg" "from_message mid" "n_streams u"]
    by (cases "isSetUp (n_streams s) (message_stream msg)"; simp add: chain_of_def)+
  have t: "n_streams t = fst (markNumbersAndCheckThatIsNotDuplicate (n_streams u) (messageId msg) (prevMsgRef msg))"
    by (simp add: t_def u(1) checked_streams)
  show "node_ok env t" unfolding t_def by (rule nodes.data [OF ok]) simp
  show "isSetUp (n_streams t) (from_message mid)"
    "getOutboundNodesForStream (n_streams t) (from_message mid) = getOutboundNodesForStream (n_streams s) (from_message mid)"
    using v(1,2) mark_set_up by (simp_all add: t)
  show "chain_of mid (n_streams t) = chain_of mid (n_streams s)" if "off_chain mid msg"
    using step_off_chain [of "Mark (messageId msg) (prevMsgRef msg)" "stream_key (from_message mid)" "keyForDetector mid" "n_streams u"] that v(3)
    by (simp add: t off_chain_def chain_of_def)
  show "seen_number (n_streams t) mid" if "seen_number (n_streams s) mid"
    using seen_number_step [OF node_okD(2) [OF u(2)], of mid "Mark (messageId msg) (prevMsgRef msg)"] that seen_chain [OF v(3)]
    by (simp add: t)
qed

text \<open>Any other message.\<close>

lemma member_other:
  assumes m: "overlay_member env m outs s" and off: "off_chain (messageId m) msg"
  shows "overlay_member env m outs (fst (onDataReceived env msg source s))" "received m (fst (onDataReceived env msg source s)) \<longleftrightarrow> received m s"
proof -
  note d = memberD [OF m]
  note v = data_view [OF d(1,2), of msg source]
  obtain xs where xs: "n_out (fst (onDataReceived env msg source s)) = n_out s @ xs" "list_all (about msg source) xs"
    using data_adds [OF adds_same, of s s msg source env] unfolding adds_def by blast
  have "m \<noteq> msg" using off by (auto simp: off_chain_def in_chain_def)
  then have "UnseenMessageReceived m k \<notin> set xs" for k using xs(2) by (auto simp: list_all_iff)
  then show r: "received m (fst (onDataReceived env msg source s)) \<longleftrightarrow> received m s" using received_more [OF xs(1)] by blast
  show "overlay_member env m outs (fst (onDataReceived env msg source s))"
    unfolding overlay_member_def using v(1-3) v(4) [OF off] seen_chain [OF v(4) [OF off]] d r by (simp split: if_split)
qed

text \<open>The message itself.\<close>

lemma rejected_data:
  assumes "snd (markNumbersAndCheckThatIsNotDuplicate (n_streams s) (messageId msg) (prevMsgRef msg)) = Inl e"
  shows "n_out (fst (checkAndPropagate env msg source s)) = n_out s"
  unfolding checkAndPropagate_def Let_def using assms by (simp split: manager_error.split detector_error.split)

lemma first_verdict:
  assumes "overlay_member env m outs s" "\<not> received m s" "\<not> invalid_numbering m"
  shows "snd (markNumbersAndCheckThatIsNotDuplicate (n_streams s) (messageId m) (prevMsgRef m)) = Inr True"
proof -
  note d = memberD [OF assms(1)]
  have "snd (markAndCheck (chain_of (messageId m) (n_streams s)) (map_option ref_number (prevMsgRef m)) (message_number (messageId m))) = Inr True"
    using d(5) [OF assms(2)] assms(3) by (subst markAndCheck_first) (auto simp: invalid_numbering_def)
  then show ?thesis
    using mark_in_chain(1) [of "stream_key (message_stream m)" "keyForDetector (messageId m)" "messageId m" "n_streams s" "prevMsgRef m"] d(2)
    by (simp add: in_chain_def chain_of_def isSetUp_def lift_verdict_def)
qed

lemma member_hears:
  assumes mem: "overlay_member env m outs s" and num: "\<not> invalid_numbering m"
  obtains xs where "n_out (fst (onDataReceived env m source s)) = n_out s @ xs" "list_all (about m source) xs"
    "overlay_member env m outs (fst (onDataReceived env m source s))" "received m (fst (onDataReceived env m source s))"
    "\<And>n. SendData n m \<in> set xs \<Longrightarrow> n \<in> set outs"
    "\<And>n. \<not> received m s \<Longrightarrow> n \<in> set outs \<Longrightarrow> Some n = source \<or> SendData n m \<in> set xs"
proof -
  note d = memberD [OF mem]
  let ?t = "fst (onDataReceived env m source s)"
  let ?v = "snd (markNumbersAndCheckThatIsNotDuplicate (n_streams s) (messageId m) (prevMsgRef m))"
  note v = data_view [OF d(1,2), of m source]
  obtain xs where xs: "n_out ?t = n_out s @ xs" "list_all (about m source) xs"
    using data_adds [OF adds_same, of s s m source env] unfolding adds_def by blast
  have heard: "xs = MessageReceived m source # data_effects m source b (seen_has (ne_lru env) m (n_seen s)) (targets outs source)"
    if "?v = Inr b" for b
    using message_is_relayed [OF d(1-3) that, of source] xs(1) by (simp add: Let_def)
  have sent: "n \<in> set outs" if "SendData n m \<in> set xs" for n
  proof (cases ?v)
    case (Inl e)
    obtain u where u: "onDataReceived env m source s = checkAndPropagate env m source u" "n_streams u = n_streams s"
      "n_out u = n_out s @ [MessageReceived m source]"
      using data_start [OF d(1), of m source] d(2) by metis
    have "n_out ?t = n_out u" unfolding u(1) by (rule rejected_data) (simp add: u(2) Inl)
    then show ?thesis using that xs(1) u(3) by simp
  next
    case (Inr b)
    from heard [OF this] that show ?thesis by (auto simp: data_effects_def relayed_def targets_def split: if_splits)
  qed
  show ?thesis
  proof (cases "received m s")
    case True
    then have r: "received m ?t" using received_more [OF xs(1)] by blast
    have "overlay_member env m outs ?t" unfolding overlay_member_def using v(1-3,5) d True r by simp
    then show ?thesis using that [OF xs] r sent True by blast
  next
    case False
    note new = first_verdict [OF mem False num]
    have r: "received m ?t" using received_more [OF xs(1)] heard [OF new] by (auto simp: data_effects_def)
    have "seen_number (n_streams ?t) (messageId m)"
    proof -
      obtain u where u: "onDataReceived env m source s = checkAndPropagate env m source u" "n_streams u = n_streams s" "node_ok env u"
        using data_start [OF d(1), of m source] d(2) by metis
      show ?thesis
        using marked_seen [OF node_okD(2) [OF d(1)] _ new] d(2) by (simp add: u(1,2) checked_streams isSetUp_def)
    qed
    then have "overlay_member env m outs ?t" unfolding overlay_member_def using v(1-3) d r by simp
    moreover have "Some n = source \<or> SendData n m \<in> set xs" if "n \<in> set outs" for n
      using heard [OF new] that by (auto simp: data_effects_def relayed_def targets_def filter_empty_conv)
    ultimately show ?thesis using that [OF xs] r sent by blast
  qed
qed

subsection \<open>What else may happen meanwhile\<close>

text \<open>The events that change neither neighbours nor streams that are set up, and receive no data.\<close>

fun background :: "node_event \<Rightarrow> bool" where
  "background Start = True"
| "background (TrackerConnected _) = True"
| "background (NeighbourConnected _) = True"
| "background (DeliverySucceeded _) = True"
| "background (DisconnectionTimeout _) = True"
| "background BufferTimeout = True"
| "background (TimePasses _) = True"
| "background (RttsMeasured _) = True"
| "background (Subscribe _) = True"
| "background (RequestResend _ _ _) = True"
| "background (ResponseSendFailed _) = True"
| "background (BackPressure _ _) = True"
| "background _ = False"

definition at_rest :: "('c, 'r, 'v) node \<Rightarrow> ('c, 'r, 'v) node \<Rightarrow> bool" where
  "at_rest s t \<longleftrightarrow> adds (\<lambda>e. \<not> data_effect e) s t \<and> (n_streams t = n_streams s \<or>
     (\<exists>st. \<not> isSetUp (n_streams s) st \<and> n_streams t = AList.update (stream_key st) new_stream_state (n_streams s)))"

lemma at_rest_same: "n_out t = n_out s \<Longrightarrow> n_streams t = n_streams s \<Longrightarrow> at_rest s t"
  by (simp add: at_rest_def adds_same)

lemma at_rest_emits: "at_rest s t \<Longrightarrow> \<not> data_effect e \<Longrightarrow> at_rest s (emits e t)"
  by (simp add: at_rest_def adds_emits)

lemma at_rest_subscribe:
  assumes "n_streams t = n_streams s" "adds (\<lambda>e. \<not> data_effect e) s t"
  shows "at_rest s (fst (subscribeToStreamIfHaveNotYet env st b t))"
  using assms subscribe_adds [of "\<lambda>e. \<not> data_effect e" s t env st b]
  by (auto simp: at_rest_def subscribeToStreamIfHaveNotYet_def on_manager_def setUpStream_def prepareAndSendStreamStatus_def
      split: option.split)

lemma background_rests:
  assumes "background e"
  shows "at_rest s (node_step env s e)"
proof (cases e)
  case Start
  have "at_rest s (foldl (\<lambda>s a. emits (ConnectToTracker a) s) s xs)" for xs
    by (rule foldl_inv [where P = "at_rest s"]) (simp_all add: at_rest_emits at_rest_same)
  then show ?thesis by (simp add: node_step_def Start connectToBootstrapTrackers_def)
next
  case (RequestResend q st source)
  let ?r = "node_record env ''resendRequests'' s"
  let ?u = "emits (ResendRequestReceived q source) (record_for_stream env Resends (sp_id st) (fst ?r))"
  have u: "n_streams ?u = n_streams s" "adds (\<lambda>e. \<not> data_effect e) s ?u" by (simp_all add: adds_emits adds_same)
  have "at_rest s (fst (if ne_storage env then subscribeToStreamIfHaveNotYet env st True ?u else (?u, None)))"
    using at_rest_subscribe [OF u] u by (simp add: at_rest_def)
  then have "at_rest s (fst (and_then (if ne_storage env then subscribeToStreamIfHaveNotYet env st True ?u else (?u, None))
      (\<lambda>s3. (emits (HandleResend q source) s3, None))))"
    by (rule and_then_inv [where P = "at_rest s"]) (simp add: at_rest_emits)
  then show ?thesis
    using at_rest_same [of "fst ?r" s]
    by (cases "snd ?r") (simp_all add: node_step_def RequestResend requestResend_def Let_def and_then_def [of ?r])
next
  case (Subscribe st)
  then show ?thesis using at_rest_subscribe [of s s] by (simp add: node_step_def adds_same)
next
  case (DisconnectionTimeout i)
  then show ?thesis
    by (simp add: node_step_def disconnectionTimeout_def Let_def forgetDisconnectionTimer_def at_rest_emits at_rest_same split: option.split)
next
  case (TrackerConnected t)
  then show ?thesis
    by (simp add: node_step_def onConnectedToTracker_def prepareAndSendFullStatus_def at_rest_emits at_rest_same split: sum.split option.split)
qed (use assms in \<open>simp_all add: node_step_def deliverySucceeded_def
  at_rest_emits at_rest_same split: sum.split\<close>)

lemma member_rests:
  assumes m: "overlay_member env m outs s" and e: "background e"
  shows "overlay_member env m outs (node_step env s e)" "received m (node_step env s e) \<longleftrightarrow> received m s"
proof -
  let ?t = "node_step env s e"
  note d = memberD [OF m] and r = background_rests [OF e, of s env]
  have "event_legal (\<lambda>_. True) (\<lambda>_. True) e" using e by (cases e) simp_all
  then have ok: "node_ok env ?t" using nodes.event_keeps [OF d(1)] by blast
  obtain xs where xs: "n_out ?t = n_out s @ xs" "list_all (\<lambda>e. \<not> data_effect e) xs" using r by (auto simp: at_rest_def adds_def)
  then show rec: "received m ?t \<longleftrightarrow> received m s" using received_more [OF xs(1)] by (auto simp: list_all_iff)
  have v: "isSetUp (n_streams ?t) (message_stream m)"
    "getOutboundNodesForStream (n_streams ?t) (message_stream m) = Inr outs"
    "chain_of (messageId m) (n_streams ?t) = chain_of (messageId m) (n_streams s)"
    using r set_up_view [of "n_streams s" _ "message_stream m" "n_streams ?t"] d(2,3) unfolding at_rest_def chain_of_def by metis+
  show "overlay_member env m outs ?t"
    unfolding overlay_member_def using ok v seen_chain [OF v(3)] d rec by (simp split: if_split)
qed

subsection \<open>The network\<close>

definition harmless :: "stream_message \<Rightarrow> stream_message \<Rightarrow> bool" where
  "harmless m msg \<longleftrightarrow> msg = m \<or> off_chain (messageId m) msg"

text \<open>
  \<open>K\<close> are the nodes of the overlay and \<open>outs\<close> their outbound neighbours; a link in \<open>L\<close> is one whose
  copy was just taken off the air.
\<close>

definition spreads ::
  "(string \<Rightarrow> ('c, 'r, 'v) node_env) \<Rightarrow> stream_message \<Rightarrow> string set \<Rightarrow> (string \<Rightarrow> string list) \<Rightarrow> (string \<times> string) set \<Rightarrow>
   ('c, 'r, 'v) network \<Rightarrow> bool" where
  "spreads env m K outs L nw \<longleftrightarrow> (\<forall>k \<in> K. overlay_member (env k) m (outs k) (nw_node nw k)) \<and>
     (\<forall>(j, k, msg) \<in> set (nw_flight nw). harmless m msg \<and> (msg = m \<longrightarrow> j \<in> K \<and> k \<in> set (outs j) \<and> received m (nw_node nw j))) \<and>
     (\<forall>(j, k, msg) \<in> set (nw_arrived nw). msg = m \<longrightarrow> j \<in> K \<and> k \<in> set (outs j)) \<and>
     (\<forall>k \<in> K. received m (nw_node nw k) \<longrightarrow>
        (\<forall>n \<in> set (outs k). received m (nw_node nw n) \<or> (k, n, m) \<in> set (nw_flight nw) \<or> (k, n) \<in> L))"

lemma spreadsD:
  assumes "spreads env m K outs L nw"
  shows "k \<in> K \<Longrightarrow> overlay_member (env k) m (outs k) (nw_node nw k)"
    "(j, k, msg) \<in> set (nw_flight nw) \<Longrightarrow> harmless m msg"
    "(j, k, m) \<in> set (nw_flight nw) \<Longrightarrow> j \<in> K \<and> k \<in> set (outs j) \<and> received m (nw_node nw j)"
    "k \<in> K \<Longrightarrow> received m (nw_node nw k) \<Longrightarrow> n \<in> set (outs k) \<Longrightarrow>
      received m (nw_node nw n) \<or> (k, n, m) \<in> set (nw_flight nw) \<or> (k, n) \<in> L"
    "(j, k, m) \<in> set (nw_arrived nw) \<Longrightarrow> j \<in> K \<and> k \<in> set (outs j)"
  using assms unfolding spreads_def by blast+

lemma spreadsI:
  assumes "\<And>k. k \<in> K \<Longrightarrow> overlay_member (env k) m (outs k) (nw_node nw k)"
    and "\<And>j k msg. (j, k, msg) \<in> set (nw_flight nw) \<Longrightarrow> harmless m msg"
    and "\<And>j k. (j, k, m) \<in> set (nw_flight nw) \<Longrightarrow> j \<in> K \<and> k \<in> set (outs j) \<and> received m (nw_node nw j)"
    and "\<And>j k. (j, k, m) \<in> set (nw_arrived nw) \<Longrightarrow> j \<in> K \<and> k \<in> set (outs j)"
    and "\<And>k n. k \<in> K \<Longrightarrow> received m (nw_node nw k) \<Longrightarrow> n \<in> set (outs k) \<Longrightarrow>
      received m (nw_node nw n) \<or> (k, n, m) \<in> set (nw_flight nw) \<or> (k, n) \<in> L"
  shows "spreads env m K outs L nw"
  using assms unfolding spreads_def by blast

lemma node_acts_fields:
  assumes "n_out (node_step (env k) (nw_node nw k) e) = n_out (nw_node nw k) @ xs"
  shows "nw_node (node_acts env k e nw) = (nw_node nw)(k := node_step (env k) (nw_node nw k) e)"
    "nw_flight (node_acts env k e nw) = nw_flight nw @ copies k xs" "nw_arrived (node_acts env k e nw) = nw_arrived nw"
  using assms by (simp_all add: node_acts_def Let_def)

text \<open>A step of a node that does not concern the message.\<close>

lemma spreads_elsewhere:
  assumes s: "spreads env m K outs {} nw" and xs: "n_out (node_step (env k) (nw_node nw k) e) = n_out (nw_node nw k) @ xs"
    and sends: "\<And>n msg. SendData n msg \<in> set xs \<Longrightarrow> msg \<noteq> m \<and> harmless m msg"
    and mem: "k \<in> K \<Longrightarrow> overlay_member (env k) m (outs k) (node_step (env k) (nw_node nw k) e)"
    and rec: "received m (node_step (env k) (nw_node nw k) e) \<longleftrightarrow> received m (nw_node nw k)"
  shows "spreads env m K outs {} (node_acts env k e nw)"
proof -
  note f = node_acts_fields [where env = env and k = k and nw = nw and e = e, OF xs] and d = spreadsD [OF s]
  have r: "received m (nw_node (node_acts env k e nw) j) \<longleftrightarrow> received m (nw_node nw j)" for j using rec by (simp add: f(1))
  show ?thesis
  proof (rule spreadsI)
    show "j \<in> K \<Longrightarrow> overlay_member (env j) m (outs j) (nw_node (node_acts env k e nw) j)" for j using d(1) mem by (auto simp: f(1))
    show "(i, j, msg) \<in> set (nw_flight (node_acts env k e nw)) \<Longrightarrow> harmless m msg" for i j msg
      using d(2) sends by (auto simp: f(2) copies_iff)
    show "(i, j, m) \<in> set (nw_flight (node_acts env k e nw)) \<Longrightarrow>
        i \<in> K \<and> j \<in> set (outs i) \<and> received m (nw_node (node_acts env k e nw) i)" for i j
      unfolding r using d(3) sends by (auto simp: f(2) copies_iff)
    show "(i, j, m) \<in> set (nw_arrived (node_acts env k e nw)) \<Longrightarrow> i \<in> K \<and> j \<in> set (outs i)" for i j
      using d(5) by (simp add: f(3))
    show "j \<in> K \<Longrightarrow> received m (nw_node (node_acts env k e nw) j) \<Longrightarrow> n \<in> set (outs j) \<Longrightarrow>
        received m (nw_node (node_acts env k e nw) n) \<or> (j, n, m) \<in> set (nw_flight (node_acts env k e nw)) \<or> (j, n) \<in> {}" for j n
      unfolding r using d(4) by (auto simp: f(2))
  qed
qed

lemma node_step_data: "node_step env s (DataReceived msg source) = fst (onDataReceived env msg source s)"
  by (simp add: node_step_def)

lemma spreads_other:
  assumes s: "spreads env m K outs {} nw" and off: "off_chain (messageId m) msg"
  shows "spreads env m K outs {} (node_acts env k (DataReceived msg source) nw)"
proof -
  obtain xs where xs: "n_out (node_step (env k) (nw_node nw k) (DataReceived msg source)) = n_out (nw_node nw k) @ xs"
    "list_all (about msg source) xs"
    using data_adds [OF adds_same, of "nw_node nw k" "nw_node nw k" msg source "env k"] unfolding node_step_data adds_def by blast
  have ne: "msg \<noteq> m" using off by (auto simp: off_chain_def in_chain_def)
  show ?thesis
  proof (rule spreads_elsewhere [OF s xs(1)])
    show "SendData n m' \<in> set xs \<Longrightarrow> m' \<noteq> m \<and> harmless m m'" for n m'
      using xs(2) ne off by (auto simp: list_all_iff harmless_def)
    show "k \<in> K \<Longrightarrow> overlay_member (env k) m (outs k) (node_step (env k) (nw_node nw k) (DataReceived msg source))"
      unfolding node_step_data by (rule member_other(1) [OF spreadsD(1) [OF s] off])
    show "received m (node_step (env k) (nw_node nw k) (DataReceived msg source)) \<longleftrightarrow> received m (nw_node nw k)"
      using received_more [OF xs(1)] xs(2) ne by (auto simp: list_all_iff)
  qed
qed

lemma spreads_background:
  assumes s: "spreads env m K outs {} nw" and e: "background e"
  shows "spreads env m K outs {} (node_acts env k e nw)"
proof -
  obtain xs where xs: "n_out (node_step (env k) (nw_node nw k) e) = n_out (nw_node nw k) @ xs" "list_all (\<lambda>e. \<not> data_effect e) xs"
    using background_rests [OF e, of "nw_node nw k" "env k"] by (auto simp: at_rest_def adds_def)
  show ?thesis
  proof (rule spreads_elsewhere [OF s xs(1)])
    show "SendData n m' \<in> set xs \<Longrightarrow> m' \<noteq> m \<and> harmless m m'" for n m' using xs(2) by (auto simp: list_all_iff)
    show "k \<in> K \<Longrightarrow> overlay_member (env k) m (outs k) (node_step (env k) (nw_node nw k) e)"
      by (rule member_rests(1) [OF spreadsD(1) [OF s] e])
    show "received m (node_step (env k) (nw_node nw k) e) \<longleftrightarrow> received m (nw_node nw k)"
      using received_more [OF xs(1)] xs(2) by (auto simp: list_all_iff)
  qed
qed

text \<open>The message arrives at \<open>k\<close>, from a neighbour or from a client.\<close>

lemma spreads_message:
  assumes s: "spreads env m K outs L nw" and L: "\<And>i j. (i, j) \<in> L \<Longrightarrow> j = k" and k: "k \<in> K" and num: "\<not> invalid_numbering m" and source: "\<And>j. source = Some j \<Longrightarrow> received m (nw_node nw j)"
  shows "spreads env m K outs {} (node_acts env k (DataReceived m source) nw)"
proof -
  note d = spreadsD [OF s]
  let ?t = "node_step (env k) (nw_node nw k) (DataReceived m source)"
  obtain xs where xs: "n_out ?t = n_out (nw_node nw k) @ xs" "list_all (about m source) xs" "overlay_member (env k) m (outs k) ?t" "received m ?t"
    "\<And>n. SendData n m \<in> set xs \<Longrightarrow> n \<in> set (outs k)"
    "\<And>n. \<not> received m (nw_node nw k) \<Longrightarrow> n \<in> set (outs k) \<Longrightarrow> Some n = source \<or> SendData n m \<in> set xs"
    using member_hears [OF d(1) [OF k] num, of source] unfolding node_step_data by metis
  let ?nw = "node_acts env k (DataReceived m source) nw"
  note f = node_acts_fields [where env = env and k = k and nw = nw and e = "DataReceived m source", OF xs(1)]
  have r: "received m (nw_node ?nw j) \<longleftrightarrow> j = k \<or> received m (nw_node nw j)" for j using xs(4) by (simp add: f(1))
  show ?thesis
  proof (rule spreadsI)
    show "j \<in> K \<Longrightarrow> overlay_member (env j) m (outs j) (nw_node ?nw j)" for j using d(1) xs(3) by (simp add: f(1))
    show "(i, j, msg) \<in> set (nw_flight ?nw) \<Longrightarrow> harmless m msg" for i j msg
      using d(2) xs(2) by (auto simp: f(2) copies_iff list_all_iff harmless_def)
    show "(i, j, m) \<in> set (nw_flight ?nw) \<Longrightarrow> i \<in> K \<and> j \<in> set (outs i) \<and> received m (nw_node ?nw i)" for i j
      unfolding r using d(3) xs(5) k by (auto simp: f(2) copies_iff)
    show "(i, j, m) \<in> set (nw_arrived ?nw) \<Longrightarrow> i \<in> K \<and> j \<in> set (outs i)" for i j
      using d(5) by (simp add: f(3))
    show "received m (nw_node ?nw n) \<or> (j, n, m) \<in> set (nw_flight ?nw) \<or> (j, n) \<in> {}"
      if "j \<in> K" "received m (nw_node ?nw j)" "n \<in> set (outs j)" for j n
    proof (cases "received m (nw_node nw j)")
      case True
      then show ?thesis unfolding r using d(4) [OF that(1) True that(3)] L by (auto simp: f(2))
    next
      case False
      then have "j = k" using that(2) r by blast
      then show ?thesis unfolding r using xs(6) [of n] False that(3) source by (auto simp: f(2) copies_iff)
    qed
  qed
qed

text \<open>A copy is taken off the air.\<close>

lemma spreads_taken:
  assumes s: "spreads env m K outs {} nw" and i: "i < length (nw_flight nw)" and c: "nw_flight nw ! i = (j, k, msg)"
  shows "spreads env m K outs (if msg = m then {(j, k)} else {})
    (nw\<lparr>nw_flight := remove_at i (nw_flight nw), nw_arrived := nw_arrived nw @ [(j, k, msg)]\<rparr>)"
proof -
  note d = spreadsD [OF s]
  have fl: "(j, k, msg) \<in> set (nw_flight nw)" using nth_mem [OF i] c by simp
  obtain ys zs where yz: "nw_flight nw = ys @ nw_flight nw ! i # zs" "remove_at i (nw_flight nw) = ys @ zs" using remove_at_split [OF i] .
  have flight: "x \<in> set (nw_flight nw) \<longleftrightarrow> x = (j, k, msg) \<or> x \<in> set (remove_at i (nw_flight nw))" for x
    unfolding yz(2) by (subst yz(1)) (auto simp: c)
  let ?nw = "nw\<lparr>nw_flight := remove_at i (nw_flight nw), nw_arrived := nw_arrived nw @ [(j, k, msg)]\<rparr>"
  show ?thesis
  proof (rule spreadsI)
    show "(a, b, x) \<in> set (nw_flight ?nw) \<Longrightarrow> harmless m x" for a b x using d(2) [of a b x] by (simp add: flight)
    show "(a, b, m) \<in> set (nw_flight ?nw) \<Longrightarrow> a \<in> K \<and> b \<in> set (outs a) \<and> received m (nw_node ?nw a)" for a b
      using d(3) [of a b] by (simp add: flight)
    show "(a, b, m) \<in> set (nw_arrived ?nw) \<Longrightarrow> a \<in> K \<and> b \<in> set (outs a)" for a b
      using d(5) [of a b] d(3) [of j k] fl by auto
    show "a \<in> K \<Longrightarrow> received m (nw_node ?nw a) \<Longrightarrow> b \<in> set (outs a) \<Longrightarrow>
        received m (nw_node ?nw b) \<or> (a, b, m) \<in> set (nw_flight ?nw) \<or> (a, b) \<in> (if msg = m then {(j, k)} else {})" for a b
      using d(4) [of a b] by (auto simp: flight)
  qed (simp add: d(1))
qed

text \<open>The events of a network whose overlay stays as it is and that loses nothing.\<close>

fun steady :: "stream_message \<Rightarrow> string set \<Rightarrow> network_event \<Rightarrow> bool" where
  "steady m K (Arrives i) \<longleftrightarrow> True"
| "steady m K (Lost i) \<longleftrightarrow> False"
| "steady m K (Happens k (DataReceived msg source)) \<longleftrightarrow> source = None \<and> harmless m msg \<and> (msg = m \<longrightarrow> k \<in> K)"
| "steady m K (Happens k e) \<longleftrightarrow> background e"

lemma steady_step:
  assumes s: "spreads env m K outs {} nw" and outs: "\<And>k. k \<in> K \<Longrightarrow> set (outs k) \<subseteq> K" and num: "\<not> invalid_numbering m"
    and e: "steady m K e"
  shows "spreads env m K outs {} (network_step env nw e)"
proof (cases e)
  case (Arrives i)
  show ?thesis
  proof (cases "i < length (nw_flight nw)")
    case True
    obtain j k msg where c: "nw_flight nw ! i = (j, k, msg)" by (cases "nw_flight nw ! i")
    have fl: "(j, k, msg) \<in> set (nw_flight nw)" using nth_mem [OF True] c by simp
    let ?nw = "nw\<lparr>nw_flight := remove_at i (nw_flight nw), nw_arrived := nw_arrived nw @ [(j, k, msg)]\<rparr>"
    have step: "network_step env nw e = node_acts env k (DataReceived msg (Some j)) ?nw" using True c by (simp add: Arrives)
    note d = spreadsD [OF s] and taken = spreads_taken [OF s True c]
    show ?thesis
    proof (cases "msg = m")
      case True
      have "spreads env m K outs {(j, k)} ?nw" using taken True by simp
      from spreads_message [OF this _ _ num, of k "Some j"] show ?thesis
        using d(3) fl True outs by (auto simp: step)
    next
      case False
      have "spreads env m K outs {} ?nw" using taken False by simp
      moreover have "off_chain (messageId m) msg" using d(2) [OF fl] False by (simp add: harmless_def)
      ultimately show ?thesis unfolding step by (rule spreads_other)
    qed
  next
    case False
    then show ?thesis using s by (simp add: Arrives)
  qed
next
  case (Happens k ev)
  then show ?thesis
  proof (cases "\<exists>msg source. ev = DataReceived msg source")
    case True
    then obtain msg source where ev: "ev = DataReceived msg source" by blast
    then show ?thesis
      using e spreads_other [OF s, of msg k source] spreads_message [OF s _ _ num, of k source]
      by (auto simp: Happens harmless_def)
  next
    case False
    then have "background ev" using e Happens by (cases ev) simp_all
    then show ?thesis using spreads_background [OF s] by (simp add: Happens)
  qed
qed (use e in simp)

subsection \<open>Runs\<close>

text \<open>An overlay that no copy of the message has reached.\<close>

definition overlay_ready ::
  "(string \<Rightarrow> ('c, 'r, 'v) node_env) \<Rightarrow> stream_message \<Rightarrow> string set \<Rightarrow> (string \<Rightarrow> string list) \<Rightarrow> ('c, 'r, 'v) network \<Rightarrow> bool" where
  "overlay_ready env m K outs nw \<longleftrightarrow> \<not> invalid_numbering m \<and> nw_flight nw = [] \<and> nw_arrived nw = [] \<and>
     (\<forall>k \<in> K. set (outs k) \<subseteq> K \<and> overlay_member (env k) m (outs k) (nw_node nw k) \<and> \<not> received m (nw_node nw k))"

definition spreading ::
  "(string \<Rightarrow> ('c, 'r, 'v) node_env) \<Rightarrow> stream_message \<Rightarrow> string set \<Rightarrow> (string \<Rightarrow> string list) \<Rightarrow> ('c, 'r, 'v) network \<Rightarrow> bool" where
  "spreading env m K outs nw \<longleftrightarrow> spreads env m K outs {} nw \<and> (\<forall>k \<in> K. set (outs k) \<subseteq> K) \<and> \<not> invalid_numbering m"

interpretation flood: step_invariant "network_step env" "steady m K" "spreading env m K outs"
  for env :: "string \<Rightarrow> ('c, 'r, 'v) node_env" and m K outs
  by unfold_locales (simp add: spreading_def steady_step)

lemma spreading_run:
  assumes "overlay_ready env m K outs nw0" "network_run env (steady m K) nw0 nw"
  shows "spreads env m K outs {} nw"
proof -
  have "spreads env m K outs {} nw0" by (rule spreadsI) (use assms(1) in \<open>auto simp: overlay_ready_def\<close>)
  then have start: "spreading env m K outs nw0" using assms(1) by (auto simp: spreading_def overlay_ready_def)
  obtain es where es: "nw = foldl (network_step env) nw0 es" "\<forall>e \<in> set es. steady m K e"
    using network_run_steps [OF assms(2)] by blast
  have "spreading env m K outs nw" unfolding es(1) by (rule flood.run_inv [OF start es(2)])
  then show ?thesis by (simp add: spreading_def)
qed

lemma reached:
  assumes "overlay_ready env m K outs nw0" "network_run env (steady m K) nw0 nw"
    and "\<forall>(j, k, msg) \<in> set (nw_flight nw). msg \<noteq> m"
    and "p \<in> K" "received m (nw_node nw p)" "(p, q) \<in> {(j, k). j \<in> K \<and> k \<in> set (outs j)}\<^sup>*"
  shows "received m (nw_node nw q)"
  using assms(6)
proof (induction rule: rtrancl_induct)
  case base
  show ?case by (rule assms(5))
next
  case (step j k)
  then show ?case using spreadsD(4) [OF spreading_run [OF assms(1,2)], of j k] assms(3) by auto
qed

text \<open>
  C1. In a steady overlay the first message of a chain reaches every node that outbound links
  lead to from a node that received it, from a client or from a neighbour: whenever no copy of it
  is on its way any more, all of them have reported it to their applications.

  Steady means: no copy is lost, and the nodes of the overlay see no instruction, disconnection,
  unsubscription or retry, only data and the background events that leave neighbours alone.
  The message is numbered validly, no node has seen any message of its chain before, and no
  other message of its chain travels: one that overtook it would make the nodes it reached
  first report the older one as a duplicate. Messages of other chains may come in between, in
  any order.
\<close>

theorem message_reaches_overlay:
  assumes "overlay_ready env m K outs nw0" "network_run env (steady m K) nw0 nw"
    and "\<forall>(j, k, msg) \<in> set (nw_flight nw). msg \<noteq> m"
    and "p \<in> K" "received m (nw_node nw p)" "(p, q) \<in> {(j, k). j \<in> K \<and> k \<in> set (outs j)}\<^sup>*"
  shows "received m (nw_node nw q)"
  by (rule reached [OF assms])

text \<open>Two nodes that are each other's neighbours, and a message published at the first.\<close>

definition example_outs :: "string \<Rightarrow> string list" where
  "example_outs k = (if k = ''a'' then [''b''] else [''a''])"

definition example_network :: "(string list, int, int) network" where
  "example_network = \<lparr>nw_node = (\<lambda>k. example_node (example_outs k)), nw_flight = [], nw_arrived = []\<rparr>"

definition example_run :: "(string list, int, int) network" where
  "example_run = network_step (\<lambda>_. example_env)
     (network_step (\<lambda>_. example_env) example_network (Happens ''a'' (DataReceived (example_message 1 None) None))) (Arrives 0)"

lemma example_node_effects:
  "n_out (fst (onDataReceived example_env (example_message 1 None) source (example_node (example_outs k)))) =
   [MessageReceived (example_message 1 None) source, UnseenMessageReceived (example_message 1 None) source] @
     relayed (targets (example_outs k) source) (example_message 1 None)"
proof -
  have "n_out (example_node (example_outs k)) = []" "prevMsgRef (example_message 1 None) = None"
    by (simp_all add: example_node_def new_node_def example_message_def)
  then show ?thesis
    using message_is_relayed [OF example_node_ok example_node_stream, of "example_outs k" 1 None True source] example_node_verdict [of "example_outs k" 1]
    by (simp add: Let_def data_effects_def example_outs_def)
qed

lemma example_ready: "overlay_ready (\<lambda>_. example_env) (example_message 1 None) {''a'', ''b''} example_outs example_network"
proof -
  have out: "n_out (example_node outs) = []" for outs by (simp add: example_node_def new_node_def)
  have "chain_of (messageId (example_message 1 None)) (n_streams (example_node outs)) = new_detector default_max_gaps" for outs
    by (simp add: chain_of_def chain_detector_def example_node_def new_stream_state_def)
  then have "overlay_member example_env (example_message 1 None) (example_outs k) (example_node (example_outs k))" for k
    using example_node_ok [of "example_outs k"] example_node_stream [of "example_outs k" 1 None] out
    by (simp add: overlay_member_def received_def new_detector_def example_outs_def)
  then show ?thesis
    using out by (auto simp: overlay_ready_def example_network_def received_def invalid_numbering_def example_message_def example_outs_def)
qed

lemma example_run_copies:
  "nw_flight example_run = []" "received (example_message 1 None) (nw_node example_run ''a'')"
proof -
  let ?nw = "network_step (\<lambda>_. example_env) example_network (Happens ''a'' (DataReceived (example_message 1 None) None))"
  have out: "n_out (example_node outs) = []" for outs by (simp add: example_node_def new_node_def)
  then have nw: "nw_flight ?nw = [(''a'', ''b'', example_message 1 None)]" "nw_node ?nw ''b'' = example_node (example_outs ''b'')"
    "received (example_message 1 None) (nw_node ?nw ''a'')"
    using example_node_effects [of None "''a''"]
    by (simp_all add: node_acts_def example_network_def node_step_data copies_def relayed_def targets_def example_outs_def received_def Let_def)
  show "nw_flight example_run = []" "received (example_message 1 None) (nw_node example_run ''a'')"
    using nw example_node_effects [of "Some ''a''" "''b''"] out
    by (simp_all add: example_run_def node_acts_def node_step_data copies_def relayed_def targets_def example_outs_def remove_at_def Let_def
        del: network_step.simps(3))
qed

lemma message_reaches_overlay_witness: "received (example_message 1 None) (nw_node example_run ''b'')"
proof (rule message_reaches_overlay [OF example_ready])
  show "network_run (\<lambda>_. example_env) (steady (example_message 1 None) {''a'', ''b''}) example_network example_run"
    unfolding example_run_def by (rule run_step [OF run_step [OF run_start]]) (simp_all add: harmless_def)
  show "(''a'', ''b'') \<in> {(j, k). j \<in> {''a'', ''b''} \<and> k \<in> set (example_outs j)}\<^sup>*"
    by (rule r_into_rtrancl) (simp add: example_outs_def)
qed (simp_all add: example_run_copies)

text \<open>Every link is used once, so the copies are no more than the links.\<close>

lemma distinct_links:
  "(\<And>j k. length (filter (\<lambda>(j', k', msg). j' = j \<and> k' = k) cs) \<le> 1) \<Longrightarrow> distinct (map (\<lambda>(j, k, msg). (j, k)) cs)"
proof (induction cs)
  case (Cons c cs)
  obtain j k msg where c: "c = (j, k, msg)" by (cases c)
  have "length (filter (\<lambda>(j', k', msg). j' = j \<and> k' = k) cs) = 0" using Cons.prems [of j k] c by simp
  then have "(j, k) \<notin> (\<lambda>(j, k, msg). (j, k)) ` set cs" by (force simp: filter_empty_conv)
  moreover have "length (filter (\<lambda>(j', k', msg). j' = a \<and> k' = b) cs) \<le> 1" for a b using Cons.prems [of a b] by (auto split: if_splits)
  ultimately show ?case using Cons.IH c by simp
qed simp

lemma network_run_mono: "network_run env legal nw0 nw \<Longrightarrow> (\<And>e. legal e \<Longrightarrow> legal' e) \<Longrightarrow> network_run env legal' nw0 nw"
  by (induction rule: network_run.induct) (auto intro: run_start run_step)

text \<open>
  The flood of a message ends: there are never more copies of it, arrived or on their way, than
  the overlay has links, however often it is published again and whatever else happens.
\<close>

lemma flood_bound:
  assumes "finite K" "overlay_ready env m K outs nw0" "carried_once env (messageId m) nw0"
    and "network_run env (\<lambda>e. steady m K e \<and> link_legal (messageId m) e) nw0 nw"
  shows "length (filter (\<lambda>(j, k, msg). msg = m) (nw_arrived nw @ nw_flight nw)) \<le> (\<Sum>k \<in> K. length (outs k))"
proof -
  let ?cs = "filter (\<lambda>(j, k, msg). msg = m) (nw_arrived nw @ nw_flight nw)"
  have s: "spreads env m K outs {} nw" by (rule spreading_run [OF assms(2) network_run_mono [OF assms(4)]]) simp
  have once: "length (filter (\<lambda>(j', k', msg). j' = j \<and> k' = k) ?cs) \<le> 1" for j k
  proof -
    have "length (filter (\<lambda>(j', k', msg). j' = j \<and> k' = k) (filter (\<lambda>(j, k, msg). msg = m) cs)) \<le> on_link (messageId m) j k cs" for cs
      by (induction cs) auto
    then have "length (filter (\<lambda>(j', k', msg). j' = j \<and> k' = k) ?cs) \<le> on_link (messageId m) j k (nw_arrived nw @ nw_flight nw)" .
    also have "\<dots> \<le> 1" by (rule carried_once_link [OF assms(3) network_run_mono [OF assms(4)]]) simp
    finally show ?thesis .
  qed
  have "set (map (\<lambda>(j, k, msg). (j, k)) ?cs) \<subseteq> (SIGMA k:K. set (outs k))"
    using spreadsD(3,5) [OF s] by auto
  then have "card (set (map (\<lambda>(j, k, msg). (j, k)) ?cs)) \<le> card (SIGMA k:K. set (outs k))"
    using assms(1) by (intro card_mono) auto
  also have "\<dots> = (\<Sum>k \<in> K. card (set (outs k)))" using assms(1) by simp
  also have "\<dots> \<le> (\<Sum>k \<in> K. length (outs k))" by (rule sum_mono) (rule card_length)
  finally show ?thesis using distinct_card [OF distinct_links [of ?cs, OF once]] by simp
qed

lemma example_carried: "carried_once (\<lambda>_. example_env) (messageId (example_message 1 None)) example_network"
proof -
  have "once example_env (example_id ''p'' ''c'' 1) (example_node (example_outs k))" for k
  proof (rule once_change)
    show "once example_env (example_id ''p'' ''c'' 1) (new_node example_env [])"
      by (rule once_new) (simp_all add: example_env_def example_lru_lawful, simp add: example_lru_def)
    show "seen_number (n_streams (new_node example_env [])) (example_id ''p'' ''c'' 1) \<Longrightarrow>
        seen_number (n_streams (example_node (example_outs k))) (example_id ''p'' ''c'' 1)"
      by (drule seen_number_set_up) (simp add: new_node_def)
  qed (simp_all add: example_node_ok example_outs_def, simp_all add: example_node_def)
  then show ?thesis by (simp add: carried_once_def example_network_def example_message_def)
qed

lemma example_run_legal:
  "network_run (\<lambda>_. example_env) (\<lambda>e. steady (example_message 1 None) {''a'', ''b''} e \<and> link_legal (messageId (example_message 1 None)) e)
     example_network example_run"
  unfolding example_run_def by (rule run_step [OF run_step [OF run_start]]) (simp_all add: harmless_def own_key_def)

subsection \<open>The overlay of a tracker\<close>

lemma overlay_ready_cong:
  "(\<And>k. k \<in> K \<Longrightarrow> outs k = outs' k) \<Longrightarrow> overlay_ready env m K outs nw = overlay_ready env m K outs' nw"
  by (simp add: overlay_ready_def)

text \<open>
  C3. What the tracker's overlay is for. The nodes have the neighbours that a well-formed overlay
  of the tracker gives them, and the overlay is steady as in the property above: nothing is lost,
  no node sees an instruction, disconnection, unsubscription or retry, and the message is the
  first of its chain and the only one of it that travels. Then whenever no copy of the message
  is on its way, either all nodes of a connected part have it or none has; and altogether its
  copies are never more than the nodes times the bound of neighbours.
\<close>

theorem tracker_overlay_is_flooded:
  assumes t: "overlay_ok t" "\<And>n. length (getNeighbors t n) \<le> maxNeighborsPerNode t"
    and ready: "overlay_ready env m {n. hasNode t n} (getNeighbors t) nw0" "carried_once env (messageId m) nw0"
    and run: "network_run env (\<lambda>e. steady m {n. hasNode t n} e \<and> link_legal (messageId m) e) nw0 nw"
  shows "length (filter (\<lambda>(j, k, msg). msg = m) (nw_arrived nw @ nw_flight nw)) \<le> getNumberOfNodes t * maxNeighborsPerNode t \<and>
    ((\<forall>(j, k, msg) \<in> set (nw_flight nw). msg \<noteq> m) \<longrightarrow> (p, q) \<in> {(j, k). k \<in> set (getNeighbors t j)}\<^sup>* \<longrightarrow> hasNode t p \<longrightarrow>
      (received m (nw_node nw p) \<longleftrightarrow> received m (nw_node nw q)))"
proof (intro conjI impI)
  let ?R = "{(j, k). k \<in> set (getNeighbors t j)}"
  have K: "{n. hasNode t n} = set (keys_of (nodes t))" unfolding hasNode_def has_key_iff by (rule Collect_mem_eq)
  have "length (filter (\<lambda>(j, k, msg). msg = m) (nw_arrived nw @ nw_flight nw)) \<le> (\<Sum>k \<in> {n. hasNode t n}. length (getNeighbors t k))"
    by (rule flood_bound [OF _ ready run]) (simp add: K)
  also have "\<dots> \<le> card {n. hasNode t n} * maxNeighborsPerNode t" using sum_bounded_above [of "{n. hasNode t n}" "\<lambda>k. length (getNeighbors t k)" "maxNeighborsPerNode t"] t(2) by simp
  also have "card {n. hasNode t n} \<le> getNumberOfNodes t" unfolding K getNumberOfNodes_def by (rule card_length)
  finally show "length (filter (\<lambda>(j, k, msg). msg = m) (nw_arrived nw @ nw_flight nw)) \<le> getNumberOfNodes t * maxNeighborsPerNode t"
    by simp
  assume quiet: "\<forall>(j, k, msg) \<in> set (nw_flight nw). msg \<noteq> m" and pq: "(p, q) \<in> ?R\<^sup>*" and p: "hasNode t p"
  have R: "?R = {(j, k). j \<in> {n. hasNode t n} \<and> k \<in> set (getNeighbors t j)}" using getNeighbors_hasNode by blast
  have "sym (?R\<^sup>*)" using overlay_okD(3) [OF t(1)] by (intro sym_rtrancl symI) auto
  then have qp: "(q, p) \<in> ?R\<^sup>*" using pq by (rule symD)
  have q: "hasNode t q" using pq p overlay_okD(4) [OF t(1)] by (induction rule: rtrancl_induct) auto
  note steady_run = network_run_mono [OF run, where legal' = "steady m {n. hasNode t n}"]
  show "received m (nw_node nw p) \<longleftrightarrow> received m (nw_node nw q)"
    using reached [OF ready(1) steady_run quiet _ _ pq [unfolded R]] reached [OF ready(1) steady_run quiet _ _ qp [unfolded R]] p q
    by blast
qed

definition example_pair :: overlay where
  "example_pair = \<lparr>maxNeighborsPerNode = 1, nodes = [(''a'', [''b'']), (''b'', [''a''])]\<rparr>"

lemma tracker_overlay_is_flooded_witness:
  "length (filter (\<lambda>(j, k, msg). msg = example_message 1 None) (nw_arrived example_run @ nw_flight example_run)) \<le> 2 \<and>
    received (example_message 1 None) (nw_node example_run ''b'')"
proof -
  have K: "{n. hasNode example_pair n} = {''a'', ''b''}" by (auto simp: hasNode_def example_pair_def)
  have n: "getNeighbors example_pair k = (if k = ''a'' then [''b''] else if k = ''b'' then [''a''] else [])" for k
    by (simp add: getNeighbors_def example_pair_def)
  have "overlay_ready (\<lambda>_. example_env) (example_message 1 None) {n. hasNode example_pair n} (getNeighbors example_pair) example_network"
    unfolding K using example_ready by (subst overlay_ready_cong [of _ _ example_outs]) (auto simp: n example_outs_def)
  moreover have "network_run (\<lambda>_. example_env)
      (\<lambda>e. steady (example_message 1 None) {n. hasNode example_pair n} e \<and> link_legal (messageId (example_message 1 None)) e)
      example_network example_run"
    unfolding K by (rule example_run_legal)
  moreover have "overlay_ok example_pair" by (simp add: overlay_ok_def n) (simp add: example_pair_def)
  moreover have "length (getNeighbors example_pair k) \<le> maxNeighborsPerNode example_pair" for k
    by (simp add: n) (simp add: example_pair_def)
  ultimately have "length (filter (\<lambda>(j, k, msg). msg = example_message 1 None) (nw_arrived example_run @ nw_flight example_run))
      \<le> getNumberOfNodes example_pair * maxNeighborsPerNode example_pair \<and>
    ((\<forall>(j, k, msg) \<in> set (nw_flight example_run). msg \<noteq> example_message 1 None) \<longrightarrow>
      (''a'', ''b'') \<in> {(j, k). k \<in> set (getNeighbors example_pair j)}\<^sup>* \<longrightarrow> hasNode example_pair ''a'' \<longrightarrow>
      (received (example_message 1 None) (nw_node example_run ''a'') \<longleftrightarrow> received (example_message 1 None) (nw_node example_run ''b'')))"
    using example_carried by (intro tracker_overlay_is_flooded)
  moreover have "(''a'', ''b'') \<in> {(j, k). k \<in> set (getNeighbors example_pair j)}\<^sup>*" by (rule r_into_rtrancl) (simp add: n)
  moreover have "hasNode example_pair ''a''" "getNumberOfNodes example_pair * maxNeighborsPerNode example_pair = 2"
    by (simp_all add: hasNode_def getNumberOfNodes_def example_pair_def)
  ultimately show ?thesis using example_run_copies by simp
qed

end
