(* ===== verification/PromiseTools.thy ===== *)
theory PromiseTools
  imports Identifiers
begin

section \<open>A promise with a timeout\<close>

text \<open>
  \<open>src/src/helpers/PromiseTools.ts\<close>: the race of a promise against a timer. What the promise
  settles with, and that the timer fires, are inputs; a node gives up a connection this way
  (\<open>ConnectionSettled\<close> in NodeState).
\<close>

datatype 'a settlement = Fulfilled 'a | Rejected string

record 'a promise_race =
  race_given :: "'a settlement option"
  race_timer :: bool
  race_result :: "'a settlement option"

datatype 'a race_input = GivenSettles "'a settlement" | TimerFires

definition promiseTimeout :: "'a promise_race" where
  "promiseTimeout = \<lparr>race_given = None, race_timer = True, race_result = None\<rparr>"

definition timed_out :: "int \<Rightarrow> 'a settlement" where
  "timed_out ms = Rejected (''timed out in '' @ show_int ms @ ''ms.'')"

definition race_settles :: "'a settlement \<Rightarrow> 'a promise_race \<Rightarrow> 'a promise_race" where
  "race_settles r s = s\<lparr>race_result := (if race_result s = None then Some r else race_result s)\<rparr>"

fun race_step :: "int \<Rightarrow> 'a promise_race \<Rightarrow> 'a race_input \<Rightarrow> 'a promise_race" where
  "race_step ms s (GivenSettles r) =
     (if race_given s = None then race_settles r (s\<lparr>race_given := Some r, race_timer := False\<rparr>) else s)"
| "race_step ms s TimerFires =
     (if race_timer s then race_settles (timed_out ms) (s\<lparr>race_timer := False\<rparr>) else s)"

fun race_verdict :: "int \<Rightarrow> 'a race_input \<Rightarrow> 'a settlement" where
  "race_verdict ms (GivenSettles r) = r"
| "race_verdict ms TimerFires = timed_out ms"

text \<open>The first input decides, and nothing later changes the outcome or leaves the timer armed.\<close>

lemma race_first_input:
  "race_result (foldl (race_step ms) promiseTimeout is) = (case is of [] \<Rightarrow> None | i # _ \<Rightarrow> Some (race_verdict ms i))"
  "race_timer (foldl (race_step ms) promiseTimeout is) \<longleftrightarrow> is = []"
proof -
  have later: "race_result (foldl (race_step ms) s is) = race_result s \<and> \<not> race_timer (foldl (race_step ms) s is)"
    if "race_result s \<noteq> None" "\<not> race_timer s" for s :: "'a promise_race" and "is"
    using that
  proof (induction "is" arbitrary: s)
    case (Cons i "is")
    have "race_result (race_step ms s i) = race_result s" "\<not> race_timer (race_step ms s i)"
      using Cons.prems by (cases i; auto simp: race_settles_def)+
    then show ?case using Cons.IH [of "race_step ms s i"] Cons.prems(1) by simp
  qed simp
  have "race_result (race_step ms promiseTimeout i) = Some (race_verdict ms i)" "\<not> race_timer (race_step ms promiseTimeout i)" for i :: "'a race_input"
    by (cases i; simp add: promiseTimeout_def race_settles_def)+
  note first = this
  show "race_result (foldl (race_step ms) promiseTimeout is) = (case is of [] \<Rightarrow> None | i # _ \<Rightarrow> Some (race_verdict ms i))"
    using later [of "race_step ms promiseTimeout i" for i] first by (cases "is") (simp_all add: promiseTimeout_def)
  show "race_timer (foldl (race_step ms) promiseTimeout is) \<longleftrightarrow> is = []"
    using later [of "race_step ms promiseTimeout i" for i] first by (cases "is") (simp_all add: promiseTimeout_def)
qed

end
