(* ===== verification/Spec2Isabelle.thy ===== *)
theory Spec2Isabelle
  imports TrackerSummary NodeInstructions NodeNeighbours ProcessRuns EndpointPromises ResendRuns ResendClaims
    ForeignClaims Flooding PromiseTools
begin

text \<open>
  A model of the Streamr network (\<open>src/src\<close>, TypeScript) and the theorems that make it correct.

  \<^bold>\<open>The program.\<close> A tracker keeps, for every stream, an overlay of the nodes that carry it and
  instructs the nodes whom to connect to; the nodes connect to each other over WebRTC, which
  the tracker helps them set up, and relay the messages of their streams. A tracker and its
  nodes talk over websockets. A node that missed messages asks for a resend: of its own
  storage, of its neighbours, or of storage nodes that the tracker names.

  \<^bold>\<open>The theories, in the order of the parts.\<close> (Prelude: dictionaries and sets in their order of
  insertion, errors as values, handlers that may throw midway, and the locale
  \<open>step_invariant\<close> of runs.)

  \<^item> Identifiers, Messages: stream keys (\<open>identifiers.ts\<close>) and the fields of a stream message.
  \<^item> DuplicateDetector, StreamManager: which numbers of a chain of messages may still be unseen
    (\<open>logic/DuplicateMessageDetector.ts\<close>), and the state of all streams with a detector for every
    chain (\<open>logic/StreamManager.ts\<close>). The locale \<open>message_detector\<close> is what the latter relies on.
  \<^item> OverlayTopology, InstructionCounter, Tracker, TrackerSummary: the overlay graph over a source
    of randomness (locale \<open>random_choices\<close>), the counters of instructions, the handlers of the
    tracker, and the answers of its HTTP endpoints (\<open>logic/OverlayTopology.ts\<close>,
    \<open>logic/InstructionCounter.ts\<close>, \<open>logic/Tracker.ts\<close>, \<open>logic/trackerSummaryUtils.ts\<close>,
    \<open>helpers/trackerHttpEndpoints.ts\<close>).
  \<^item> Peers: descriptions of peers, the peer book, locations, names, and the negotiation of
    versions (\<open>connection/PeerInfo.ts\<close>, \<open>PeerBook.ts\<close>, \<open>NegotiatedProtocolVersions.ts\<close>,
    \<open>logic/LocationManager.ts\<close>, \<open>NameDirectory.ts\<close>).
  \<^item> InstructionThrottler, InstructionRetry, MessageBuffer, NodeMetrics: what a node keeps beside
    its streams, with promises and timers as explicit state.
  \<^item> NodeState: the handlers and timers of a node (\<open>logic/Node.ts\<close>). NodeInvariant has the locale
    \<open>node_invariant\<close>, the primitive changes of a node's state; NodeWellFormed and NodeRelay are
    its first uses, NodeInstructions and NodeNeighbours the promises to trackers and neighbours.
  \<^item> MessageQueue, ConnectionState, ConnectionFlush, ConnectionRuns, ConnectionLife,
    ConnectionPromises: a WebRTC connection and its queue of messages over a heap
    (\<open>connection/MessageQueue.ts\<close>, \<open>connection/Connection.ts\<close>).
  \<^item> WebRtcEndpoint, EndpointInvariant, EndpointRuns, EndpointHistory, EndpointPromises: the
    connections of a node by their peer (\<open>connection/WebRtcEndpoint.ts\<close>). EndpointHistory has what
    relates two states of a run: connections that ended and queues that outlive them.
  \<^item> WsEndpoint, WsPromises, WsPings, WsClaims: the websockets of a node or a tracker by their address
    (\<open>connection/WsEndpoint.ts\<close>).
  \<^item> TrackerProtocol, WireExample, Signalling: the messages between tracker and node
    (\<open>protocol/TrackerServer.ts\<close>, \<open>protocol/TrackerNode.ts\<close>) and the signals of WebRTC that go
    through the tracker (\<open>logic/RtcSignaller.ts\<close>, \<open>logic/rtcSignallingHandlers.ts\<close>).
  \<^item> TrackerProcess, ProcessRuns: tracker, server and websocket endpoint put together.
  \<^item> NodeProtocol: the messages between nodes (\<open>protocol/NodeToNode.ts\<close>) over the endpoint.
  \<^item> Resends, ResendRuns, ResendHandler, ResendPromises, ResendClaims: the resends of a node, of
    its storage and of its neighbours (\<open>src/src/resend\<close>). ForeignResends, ForeignPromises,
    ForeignRuns, ForeignClaims: the resends of storage nodes, in
    \<open>ForeignResendStrategy\<close> of \<open>resend/resendStrategies.ts\<close>.
  \<^item> NetworkNode: what a client of a node calls, its storages, and the storage node that follows
    a configuration (\<open>NetworkNode.ts\<close>, \<open>startStorageNode\<close> of \<open>composition.ts\<close>).
  \<^item> Dissemination, Flooding: any number of nodes put together, with the copies of messages that are
    on their way; \<open>network_run\<close> are the states such a network can reach.
  \<^item> PromiseTools: the promise with a timeout (\<open>helpers/PromiseTools.ts\<close>).

  \<^bold>\<open>How the code is modelled.\<close> A class is a record, an operation a function of that record to the
  new one, with the error when it throws. An event of a library (a socket, a data channel, a
  timer that fires, a promise that settles) is an input of a step function, and a call of a
  library, where its effect is outside the program, is an entry of a log in the record. Every
  order of inputs is allowed, so a run stands for every schedule; what follows an
  \<open>await\<close> is a step of its own. Pending promises and armed timers are fields. The callback
  that a promise of the websocket endpoint queues when it settles (\<open>finally\<close>) runs after the
  handler that settled it. What comes from a
  package (the heap of the queue, the cache of the messages not propagated, the conversion
  of protocol messages to strings, geographic look-up, randomness) is a parameter, with what
  the program relies on as a named hypothesis, and every such hypothesis is met by an instance.
  Two packages are taken not to throw, by the type of their parameter: the registry of trackers
  answers for every stream of a node (\<open>ne_tracker\<close>), and the websocket library sends on the registered
  sockets of the tracker process (\<open>process_proto\<close>); the endpoint alone is modelled with sends
  that throw. The other synchronous throws of a send are in the model: a peer or a tracker that
  the peer book does not have makes \<open>onConnectedToTracker\<close>, \<open>requestStorageNodes\<close> and the
  handler of relay messages throw.

  \<^bold>\<open>What the lemmas show.\<close> For every component an invariant of its state that all operations
  keep, lifted to runs by an interpretation of \<open>step_invariant\<close> or \<open>node_invariant\<close>, and on top
  of it the properties: a node that does not unsubscribe relays a message at most once, and to every
  neighbour but its source, so that in a network it crosses each link at most once and, while
  the overlay is steady (\<open>overlay_ready\<close>, \<open>steady\<close>: the first message of its chain, nothing lost,
  no change of neighbours), reaches all of it; verdicts on duplicates in every order of
  arrival; overlays stay symmetric, within
  the bound of neighbours and without open slots; instructions are carried out as far as
  connections open; queued messages
  settle in order and outlive their connection; the registries of both endpoints are
  consistent; a websocket stays exactly while its peer answers the pings; signals and messages reach the other side unchanged, in every pair of versions;
  resends end, within the limit of tries, and no response is left hanging; a storage node
  carries the streams of its configuration, and its storage is given every message at most
  once while the node does not unsubscribe from the stream. Some theorems show what goes wrong instead:
  they state the behaviour of the code where it differs from what its comments or its callers
  expect.

  \<^bold>\<open>Bounds.\<close> No function has fuel. Loops are structural, or have a measure
  (\<open>splitLinks\<close>), except the loop that flushes a connection's queue, which in the code ends only
  if the channel lets it: it is a partial function, and \<open>flush_returns\<close> shows that it returns
  after at most ten sends for each message. The resend through neighbours ends within
  \<open>3 * limit + 2\<close> inputs, the silent resend within three inputs for each strategy.

  \<^bold>\<open>Not modelled.\<close> The rest of \<open>composition.ts\<close> (\<open>startNode\<close>, \<open>startTracker\<close>), which constructs
  the parts and starts the servers; \<open>logic/StorageConfig.ts\<close> and the storage itself, interfaces
  of the embedding program; the HTTP and websocket servers; the logger; the average of the latency, the
  mean age of the resends and the asynchronous report of the metrics, which only feed metrics;
  the command line programs under \<open>bin\<close>.
\<close>

end
